(* ===== verification/Prelude.thy ===== *)
theory Prelude
  imports Main "HOL-Library.Word"
begin

text \<open>
  Shared vocabulary of the development: the faults a C program can run into, the result type of
  an operation that may fault, 64-bit \<open>size_t\<close> arithmetic with its wrap-around, and blocks of
  memory with bounds-checked writes.
\<close>

unbundle bit_operations_syntax

named_theorems fault_simps \<open>evaluation of computations that may fault\<close>
named_theorems mem_simps \<open>reads and writes of memory blocks\<close>

section \<open>Faults\<close>

text \<open>
  A failed \<open>assert\<close> stops the program; every other fault is undefined behaviour of C: a write or
  read outside the allocated block, a null dereference, signed overflow, use of a value of the
  wrong struct type, use of the result of a function that returned none, division by zero, use of
  memory that was never written. A push to the full buffer of statements of the parser is told apart from
  the other writes behind a block.
\<close>

datatype fault =
    AssertFail
  | OutOfBounds
  | StatementOverflow
  | NullDeref
  | SignedOverflow
  | TypeConfusion
  | NoReturn
  | DivByZero
  | Indeterminate
  | OutOfFuel

type_synonym 'a res = "fault + 'a"

definition bindE :: "'a res \<Rightarrow> ('a \<Rightarrow> 'b res) \<Rightarrow> 'b res" where
  "bindE m f = (case m of Inl e \<Rightarrow> Inl e | Inr x \<Rightarrow> f x)"

definition assertE :: "bool \<Rightarrow> 'a res \<Rightarrow> 'a res" where
  "assertE b m = (if b then m else Inl AssertFail)"

lemma bindE_simps [simp, fault_simps]:
  "bindE (Inl e) f = Inl e"
  "bindE (Inr x) f = f x"
  by (simp_all add: bindE_def)

lemma bindE_Inr_iff [fault_simps]:
  "bindE m f = Inr y \<longleftrightarrow> (\<exists>x. m = Inr x \<and> f x = Inr y)"
  by (cases m) auto

lemma bindE_InrE [elim!]:
  assumes "bindE m f = Inr y"
  obtains x where "m = Inr x" and "f x = Inr y"
  using assms by (auto simp: bindE_Inr_iff)

lemma bindE_cong [fundef_cong]:
  "m = n \<Longrightarrow> (\<And>x. n = Inr x \<Longrightarrow> f x = g x) \<Longrightarrow> bindE m f = bindE n g"
  by (cases n) auto

lemma bindE_assoc: "bindE (bindE m f) g = bindE m (\<lambda>x. bindE (f x) g)"
  by (cases m) auto

lemma assertE_simps [simp, fault_simps]:
  "assertE True m = m"
  "assertE False m = Inl AssertFail"
  by (simp_all add: assertE_def)

text \<open>Evaluation computes a result before it looks at what follows.\<close>

lemma bindE_weak_cong: "e = e' \<Longrightarrow> bindE e f = bindE e' f"
  by simp

lemma assertE_Inr_iff [fault_simps]: "assertE b m = Inr y \<longleftrightarrow> b \<and> m = Inr y"
  by (simp add: assertE_def)

section \<open>Fuel\<close>

text \<open>
  \<open>fuel_le a b\<close>: \<open>b\<close> is what \<open>a\<close> gives with more fuel. A function with fuel is monotone when its
  calls are, since everything between the calls preserves the order.
\<close>

named_theorems fuel_intros \<open>monotonicity in the fuel\<close>

definition fuel_le :: "'a res \<Rightarrow> 'a res \<Rightarrow> bool" where
  "fuel_le a b \<longleftrightarrow> a = Inl OutOfFuel \<or> a = b"

lemma fuel_le_refl [fuel_intros]: "fuel_le a a"
  and fuel_le_out [fuel_intros]: "fuel_le (Inl OutOfFuel) a"
  by (simp_all add: fuel_le_def)

lemma fuel_le_bindE [fuel_intros]:
  "fuel_le m n \<Longrightarrow> (\<And>x. fuel_le (f x) (g x)) \<Longrightarrow> fuel_le (bindE m f) (bindE n g)"
  unfolding fuel_le_def by (cases m) (fastforce simp: bindE_def)+

lemma fuel_le_if [fuel_intros]:
  "fuel_le a c \<Longrightarrow> fuel_le b d \<Longrightarrow> fuel_le (if P then a else b) (if P then c else d)"
  by simp

lemma fuel_le_case_prod [fuel_intros]:
  "(\<And>x y. fuel_le (f x y) (g x y)) \<Longrightarrow> fuel_le (case z of (x, y) \<Rightarrow> f x y) (case z of (x, y) \<Rightarrow> g x y)"
  by (cases z) simp

lemma fuel_le_case_option [fuel_intros]:
  "fuel_le a b \<Longrightarrow> (\<And>x. fuel_le (f x) (g x)) \<Longrightarrow>
   fuel_le (case z of None \<Rightarrow> a | Some x \<Rightarrow> f x) (case z of None \<Rightarrow> b | Some x \<Rightarrow> g x)"
  by (cases z) simp_all

lemma fuel_le_assertE [fuel_intros]: "fuel_le a b \<Longrightarrow> fuel_le (assertE P a) (assertE P b)"
  by (simp add: assertE_def fuel_le_refl)

lemma fuel_leD: "fuel_le a b \<Longrightarrow> a \<noteq> Inl OutOfFuel \<Longrightarrow> b = a"
  by (auto simp: fuel_le_def)

lemma fuel_mono:
  assumes "\<And>n. fuel_le (f n) (f (Suc n))" and "n \<le> m"
  shows "fuel_le (f n) (f m)"
  using assms(2)
proof (induction rule: dec_induct)
  case base
  show ?case by (rule fuel_le_refl)
next
  case (step k)
  with assms(1) [of k] show ?case by (auto simp: fuel_le_def)
qed

section \<open>\<open>size_t\<close> arithmetic\<close>

text \<open>A \<open>size_t\<close> is a natural number below \<open>2 ^ 64\<close>; arithmetic on it wraps around.\<close>

type_synonym size_t = nat
type_synonym byte = "8 word"

definition add64 :: "size_t \<Rightarrow> size_t \<Rightarrow> size_t" where
  "add64 a b = (a + b) mod 2 ^ 64"

definition sub64 :: "size_t \<Rightarrow> size_t \<Rightarrow> size_t" where
  "sub64 a b = (a + (2 ^ 64 - b)) mod 2 ^ 64"

definition mul64 :: "size_t \<Rightarrow> size_t \<Rightarrow> size_t" where
  "mul64 a b = (a * b) mod 2 ^ 64"

lemma add64_small [simp]: "a + b < 2 ^ 64 \<Longrightarrow> add64 a b = a + b"
  by (simp add: add64_def)

lemma mul64_small [simp]: "a * b < 2 ^ 64 \<Longrightarrow> mul64 a b = a * b"
  by (simp add: mul64_def)

lemma sub64_le [simp]: "b \<le> a \<Longrightarrow> a < 2 ^ 64 \<Longrightarrow> sub64 a b = a - b"
proof -
  assume "b \<le> a" and "a < 2 ^ 64"
  then have "a + (2 ^ 64 - b) = (a - b) + 2 ^ 64" by simp
  then have "sub64 a b = (a - b) mod 2 ^ 64"
    unfolding sub64_def by (metis mod_add_self2)
  with \<open>a < 2 ^ 64\<close> show ?thesis by simp
qed

lemma sub64_wrap: "a < b \<Longrightarrow> b < 2 ^ 64 \<Longrightarrow> sub64 a b = 2 ^ 64 - (b - a)"
  by (simp add: sub64_def)

section \<open>Memory blocks\<close>

text \<open>
  An allocated block is the list of its cells; \<open>None\<close> is a cell that was never written
  (\<open>malloc\<close> leaves it indeterminate).
\<close>

type_synonym block = "byte option list"

definition mem_write :: "'a list \<Rightarrow> nat \<Rightarrow> 'a list \<Rightarrow> 'a list res" where
  "mem_write m off ds =
     (if off + length ds \<le> length m
      then Inr (take off m @ ds @ drop (off + length ds) m)
      else Inl OutOfBounds)"

lemma mem_write_ok [mem_simps]:
  "off + length ds \<le> length m \<Longrightarrow>
   mem_write m off ds = Inr (take off m @ ds @ drop (off + length ds) m)"
  by (simp add: mem_write_def)

lemma mem_write_fault [mem_simps]:
  "length m < off + length ds \<Longrightarrow> mem_write m off ds = Inl OutOfBounds"
  by (simp add: mem_write_def)

lemma mem_write_Inr_iff:
  "mem_write m off ds = Inr m' \<longleftrightarrow>
   off + length ds \<le> length m \<and> m' = take off m @ ds @ drop (off + length ds) m"
  by (auto simp: mem_write_def)

lemma mem_write_length: "mem_write m off ds = Inr m' \<Longrightarrow> length m' = length m"
  by (auto simp: mem_write_Inr_iff)

lemma mem_write_nth:
  assumes "mem_write m off ds = Inr m'" and "i < length m"
  shows "m' ! i = (if off \<le> i \<and> i < off + length ds then ds ! (i - off) else m ! i)"
  using assms by (auto simp: mem_write_Inr_iff nth_append)

text \<open>Cells that have all been written are their values.\<close>

lemma map_Some_the: "None \<notin> set xs \<Longrightarrow> map Some (map the xs) = xs"
  by (induction xs) auto

section \<open>Little-endian bytes\<close>

text \<open>The reference: byte \<open>i\<close> of the little-endian form is \<open>w div 256 ^ i mod 256\<close>.\<close>

definition le_bytes :: "nat \<Rightarrow> 'a::len word \<Rightarrow> byte list" where
  "le_bytes n w = map (\<lambda>i. ucast (drop_bit (8 * i) w)) [0..<n]"

lemma length_le_bytes [simp]: "length (le_bytes n w) = n"
  by (simp add: le_bytes_def)

lemma le_bytes_0 [simp]: "le_bytes 0 w = []"
  by (simp add: le_bytes_def)

lemma le_bytes_Suc: "le_bytes (Suc n) w = ucast w # le_bytes n (drop_bit 8 w)"
proof (rule nth_equalityI)
  fix i assume "i < length (le_bytes (Suc n) w)"
  then have i: "i < Suc n" by simp
  show "le_bytes (Suc n) w ! i = (ucast w # le_bytes n (drop_bit 8 w)) ! i"
    using i by (cases i) (simp_all add: le_bytes_def nth_Cons drop_bit_drop_bit add.commute del: upt_Suc)
qed simp

text \<open>Reading them back.\<close>

fun bytes_word :: "byte list \<Rightarrow> 'a::len word" where
  "bytes_word [] = 0"
| "bytes_word (b # bs) = ucast b OR push_bit 8 (bytes_word bs)"

lemma bytes_word_le_bytes:
  "bytes_word (le_bytes n (w :: 'a::len word)) = take_bit (8 * n) w"
proof (induction n arbitrary: w)
  case 0
  then show ?case by simp
next
  case (Suc n)
  have "(ucast (ucast w :: byte) :: 'a word) OR push_bit 8 (take_bit (8 * n) (drop_bit 8 w))
      = take_bit (8 * Suc n) w"
    by (rule bit_word_eqI) (auto simp: bit_simps)
  then show ?case by (simp add: le_bytes_Suc Suc del: mult_Suc_right)
qed

lemma bytes_word_le_bytes_full:
  "LENGTH('a) \<le> 8 * n \<Longrightarrow> bytes_word (le_bytes n (w :: 'a::len word)) = w"
  by (simp add: bytes_word_le_bytes take_bit_word_eq_self)

end
