(* ===== verification/Buffer.thy ===== *)
theory Buffer
  imports Prelude
begin

text \<open>
  \<open>buffer.c\<close> and \<open>buffer.h\<close>: views of text (\<open>range_t\<close>), text positions, and the growable byte
  buffer \<open>dbuffer_t\<close> that every emitting part of the compiler writes to. The interface the
  emitters rely on is the locale \<open>byte_sink\<close>, interpreted on the buffer at the end.
\<close>

section \<open>Ranges\<close>

text \<open>
  A range is a pointer and a size. The model keeps the characters from the pointer to the end
  of the object it points into (\<open>rmem\<close>), since some callers read the character behind the range.
\<close>

record range_t =
  rmem :: string
  rsize :: size_t

definition NUL :: char where
  "NUL = CHR 0x00"

definition range_view :: "range_t \<Rightarrow> string" where
  "range_view r = take (rsize r) (rmem r)"

definition range_deref :: "range_t \<Rightarrow> char res" where
  "range_deref r = (case rmem r of [] \<Rightarrow> Inl OutOfBounds | c # _ \<Rightarrow> Inr c)"

definition range_skip :: "range_t \<Rightarrow> size_t \<Rightarrow> range_t res" where
  "range_skip r amount =
     assertE (amount \<le> rsize r)
       (Inr \<lparr>rmem = drop amount (rmem r), rsize = rsize r - amount\<rparr>)"

definition range_shorten :: "range_t \<Rightarrow> size_t \<Rightarrow> range_t res" where
  "range_shorten r amount =
     assertE (amount \<le> rsize r) (Inr (r\<lparr>rsize := rsize r - amount\<rparr>))"

definition range_subs :: "range_t \<Rightarrow> size_t \<Rightarrow> range_t res" where
  "range_subs r sz = assertE (sz \<le> rsize r) (Inr \<lparr>rmem = rmem r, rsize = sz\<rparr>)"

definition range_sub :: "range_t \<Rightarrow> size_t \<Rightarrow> size_t \<Rightarrow> range_t res" where
  "range_sub r start sz =
     assertE (start < rsize r)
       (assertE (sz \<le> rsize r - start)
         (Inr \<lparr>rmem = drop start (rmem r), rsize = sz\<rparr>))"

text \<open>\<open>strlen\<close> reads up to the terminating zero; without one it runs off the object.\<close>

definition range_fromString :: "string \<Rightarrow> range_t res" where
  "range_fromString s =
     (if NUL \<in> set s
      then Inr \<lparr>rmem = s, rsize = length (takeWhile (\<lambda>c. c \<noteq> NUL) s)\<rparr>
      else Inl OutOfBounds)"

definition RANGE_STRING :: "string \<Rightarrow> range_t" where
  "RANGE_STRING s = \<lparr>rmem = s @ [NUL], rsize = length s\<rparr>"

definition range_cmp :: "range_t \<Rightarrow> range_t \<Rightarrow> bool" where
  "range_cmp a b =
     (if rsize a \<noteq> rsize b then False
      else take (rsize a) (rmem a) = take (rsize a) (rmem b))"

text \<open>The function allocates a block of the right size and never copies into it.\<close>

definition range_copy :: "range_t \<Rightarrow> block \<times> size_t" where
  "range_copy r = (replicate (rsize r) None, rsize r)"

definition range_wf :: "range_t \<Rightarrow> bool" where
  "range_wf r \<longleftrightarrow> rsize r \<le> length (rmem r)"

lemma range_view_RANGE_STRING [simp]: "range_view (RANGE_STRING s) = s"
  by (simp add: range_view_def RANGE_STRING_def)

lemma range_cmp_view:
  assumes "range_wf a" and "range_wf b"
  shows "range_cmp a b \<longleftrightarrow> range_view a = range_view b"
proof
  assume "range_view a = range_view b"
  then have "length (range_view a) = length (range_view b)" by simp
  with assms have "rsize a = rsize b" by (simp add: range_view_def range_wf_def)
  with \<open>range_view a = range_view b\<close> show "range_cmp a b"
    by (simp add: range_cmp_def range_view_def)
qed (auto simp: range_cmp_def range_view_def split: if_splits)

lemma range_wf_RANGE_STRING [simp]: "range_wf (RANGE_STRING s)"
  by (simp add: range_wf_def RANGE_STRING_def)

lemma range_skip_wf: "range_wf r \<Longrightarrow> range_skip r n = Inr r' \<Longrightarrow> range_wf r'"
  by (auto simp: range_skip_def range_wf_def assertE_def split: if_splits)

lemma range_skip_view: "range_skip r n = Inr r' \<Longrightarrow> range_view r' = drop n (range_view r)"
  by (auto simp: range_skip_def range_view_def assertE_def drop_take split: if_splits)

lemma range_sub_view:
  "range_sub r start sz = Inr r' \<Longrightarrow> range_view r' = take sz (drop start (range_view r))"
  by (auto simp: range_sub_def range_view_def assertE_def drop_take min_def split: if_splits)

section \<open>Parsing an integer\<close>

text \<open>
  \<open>range_parseInt\<close> accumulates in a \<open>long\<close> (signed 64 bits: overflow is undefined), stops as
  soon as the value reaches \<open>INT_MAX\<close>, and casts the result to \<open>int\<close>. A plain \<open>char\<close> is signed.
\<close>

definition schar :: "char \<Rightarrow> int" where
  "schar c = (let n = int (of_char c) in if n < 128 then n else n - 256)"

definition INT_MAX :: int where
  "INT_MAX = 2147483647"

definition longE :: "int \<Rightarrow> int res" where
  "longE x = (if - (2 ^ 63) \<le> x \<and> x < 2 ^ 63 then Inr x else Inl SignedOverflow)"

definition int_cast :: "int \<Rightarrow> int" where
  "int_cast x = (x + 2 ^ 31) mod 2 ^ 32 - 2 ^ 31"

fun parse_loop :: "int \<Rightarrow> int \<Rightarrow> string \<Rightarrow> int res" where
  "parse_loop sign result [] = Inr result"
| "parse_loop sign result (c # cs) =
     bindE (longE (result * 10)) (\<lambda>r10.
     bindE (longE (r10 + (schar c - 48))) (\<lambda>r.
       if sign = 1 \<and> INT_MAX \<le> r then Inr r
       else if sign = - 1 \<and> INT_MAX \<le> r - 1 then Inr r
       else parse_loop sign r cs))"

definition range_parseInt :: "range_t \<Rightarrow> int res" where
  "range_parseInt r =
     assertE (rsize r \<noteq> 0)
      (bindE (range_deref r) (\<lambda>c.
       bindE (if c = CHR ''-'' then bindE (range_skip r 1) (\<lambda>r'. Inr (- 1, r'))
              else if c = CHR ''+'' then bindE (range_skip r 1) (\<lambda>r'. Inr (1, r'))
              else Inr (1, r)) (\<lambda>(sign, r').
       bindE (parse_loop sign 0 (range_view r')) (\<lambda>result.
       bindE (longE (if sign = - 1 then - result else result)) (\<lambda>v.
         Inr (int_cast v))))))"

section \<open>Positions\<close>

record position_t =
  line :: size_t
  col :: size_t
  offset :: size_t

definition position_ingest :: "position_t \<Rightarrow> char \<Rightarrow> position_t" where
  "position_ingest p c =
     (let p = p\<lparr>offset := add64 (offset p) 1\<rparr> in
      if c = CHR 0x0A then p\<lparr>line := add64 (line p) 1, col := 0\<rparr>
      else if c \<noteq> CHR 0x0D then p\<lparr>col := add64 (col p) 1\<rparr>
      else p)"

section \<open>The growable buffer\<close>

text \<open>\<open>buffer\<close> is the whole allocated block, so its length is the size passed to \<open>malloc\<close>.\<close>

record dbuffer =
  buffer :: block
  capacity :: size_t
  usage :: size_t

definition DBUFFER_INIT :: size_t where
  "DBUFFER_INIT = 1000"

definition dbuffer_initSize :: "size_t \<Rightarrow> dbuffer" where
  "dbuffer_initSize sz = \<lparr>buffer = replicate sz None, capacity = sz, usage = 0\<rparr>"

definition dbuffer_init :: dbuffer where
  "dbuffer_init = dbuffer_initSize DBUFFER_INIT"

definition dbuffer_ensureCap :: "dbuffer \<Rightarrow> size_t \<Rightarrow> dbuffer res" where
  "dbuffer_ensureCap db sz =
     (if sub64 (capacity db) (usage db) < sz then
        let newSize = max (mul64 (capacity db) 2) (add64 (mul64 (capacity db) 3 div 2) sz) in
        if usage db \<le> length (buffer db) \<and> usage db \<le> newSize
        then Inr (db\<lparr>buffer := take (usage db) (buffer db)
                               @ replicate (newSize - usage db) None\<rparr>)
        else Inl OutOfBounds
      else Inr db)"

definition dbuffer_removeRange :: "dbuffer \<Rightarrow> size_t \<Rightarrow> size_t \<Rightarrow> dbuffer res" where
  "dbuffer_removeRange db off sz =
     assertE (sz \<le> usage db)
      (assertE (off < usage db)
        (let offsetEnd = add64 off sz; n = sub64 (usage db) offsetEnd in
         if offsetEnd + n \<le> length (buffer db) then
           bindE (mem_write (buffer db) off (take n (drop offsetEnd (buffer db)))) (\<lambda>b.
             Inr (db\<lparr>buffer := b, usage := sub64 (usage db) sz\<rparr>))
         else Inl OutOfBounds))"

definition dbuffer_pushData :: "dbuffer \<Rightarrow> byte list \<Rightarrow> dbuffer res" where
  "dbuffer_pushData db ds =
     bindE (dbuffer_ensureCap db (length ds)) (\<lambda>db.
     bindE (mem_write (buffer db) (usage db) (map Some ds)) (\<lambda>b.
       Inr (db\<lparr>buffer := b, usage := add64 (usage db) (length ds)\<rparr>)))"

definition dbuffer_pushStr :: "dbuffer \<Rightarrow> string \<Rightarrow> dbuffer res" where
  "dbuffer_pushStr db s =
     (if NUL \<in> set s
      then dbuffer_pushData db (map of_char (takeWhile (\<lambda>c. c \<noteq> NUL) s))
      else Inl OutOfBounds)"

definition dbuffer_pushChar :: "dbuffer \<Rightarrow> byte \<Rightarrow> dbuffer res" where
  "dbuffer_pushChar db ch = dbuffer_pushData db [ch]"

fun dbuffer_pushLong :: "dbuffer \<Rightarrow> 64 word \<Rightarrow> nat \<Rightarrow> dbuffer res" where
  "dbuffer_pushLong db num 0 = Inr db"
| "dbuffer_pushLong db num (Suc bytes) =
     bindE (dbuffer_pushChar db (ucast (num AND 0xFF))) (\<lambda>db.
       dbuffer_pushLong db (drop_bit 8 num) bytes)"

fun pushInt_loop :: "dbuffer \<Rightarrow> 32 word \<Rightarrow> nat \<Rightarrow> dbuffer res" where
  "pushInt_loop db num 0 = Inr db"
| "pushInt_loop db num (Suc bytes) =
     bindE (dbuffer_pushChar db (ucast (num AND 0xFF))) (\<lambda>db.
       pushInt_loop db (drop_bit 8 num) bytes)"

definition dbuffer_pushInt :: "dbuffer \<Rightarrow> 32 word \<Rightarrow> nat \<Rightarrow> dbuffer res" where
  "dbuffer_pushInt db num bytes = assertE (bytes \<le> 8) (pushInt_loop db num bytes)"

text \<open>The variadic \<open>dbuffer_push\<close> converts each \<open>unsigned int\<close> argument to a byte.\<close>

definition dbuffer_push :: "dbuffer \<Rightarrow> 32 word list \<Rightarrow> dbuffer res" where
  "dbuffer_push db args = dbuffer_pushData db (map ucast args)"

definition dbuffer_pushChars :: "dbuffer \<Rightarrow> byte \<Rightarrow> size_t \<Rightarrow> dbuffer res" where
  "dbuffer_pushChars db c sz =
     bindE (dbuffer_ensureCap db sz) (\<lambda>db.
     bindE (mem_write (buffer db) (usage db) (replicate sz (Some c))) (\<lambda>b.
       Inr (db\<lparr>buffer := b, usage := add64 (usage db) sz\<rparr>)))"

definition dbuffer_pushRange :: "dbuffer \<Rightarrow> range_t \<Rightarrow> dbuffer res" where
  "dbuffer_pushRange db r =
     (if rsize r \<le> length (rmem r)
      then dbuffer_pushData db (map of_char (range_view r))
      else Inl OutOfBounds)"

definition dbuffer_pushPtr :: "dbuffer \<Rightarrow> 64 word \<Rightarrow> dbuffer res" where
  "dbuffer_pushPtr db p =
     bindE (dbuffer_ensureCap db 8) (\<lambda>db. dbuffer_pushData db (le_bytes 8 p))"

definition dbuffer_popPtr :: "dbuffer \<Rightarrow> dbuffer" where
  "dbuffer_popPtr db = db\<lparr>usage := sub64 (usage db) 8\<rparr>"

definition dbuffer_clear :: "dbuffer \<Rightarrow> dbuffer" where
  "dbuffer_clear db = db\<lparr>usage := 0\<rparr>"

definition dbuffer_swap :: "dbuffer \<Rightarrow> dbuffer \<Rightarrow> dbuffer \<times> dbuffer" where
  "dbuffer_swap a b = (let bk = a; a = b; b = bk in (a, b))"

subsection \<open>Numbers as text\<close>

function push_digits :: "dbuffer \<Rightarrow> nat \<Rightarrow> nat \<Rightarrow> (dbuffer \<times> nat) res" where
  "push_digits db number sz =
     bindE (dbuffer_pushChar db (of_nat (48 + number mod 10))) (\<lambda>db.
       if number div 10 \<noteq> 0 then push_digits db (number div 10) (sz + 1)
       else Inr (db, sz + 1))"
  by pat_completeness auto
termination
  by (relation "measure (\<lambda>(db, number, sz). number)") auto

declare push_digits.simps [simp del]

function reverse_loop :: "block \<Rightarrow> nat \<Rightarrow> nat \<Rightarrow> nat \<Rightarrow> nat \<Rightarrow> block" where
  "reverse_loop m start sz i count =
     (if i < count then
        let tmp = m ! (start + i);
            m = m[start + i := m ! (start + sz - i - 1)];
            m = m[start + sz - i - 1 := tmp]
        in reverse_loop m start sz (i + 1) count
      else m)"
  by pat_completeness auto
termination
  by (relation "measure (\<lambda>(m, start, sz, i, count). count - i)") auto

declare reverse_loop.simps [simp del]

definition dbuffer_pushUIntStr :: "dbuffer \<Rightarrow> 32 word \<Rightarrow> dbuffer res" where
  "dbuffer_pushUIntStr db number =
     bindE (push_digits db (unat number) 0) (\<lambda>(db, sz).
       Inr (db\<lparr>buffer := reverse_loop (buffer db) (usage db - sz) sz 0 (sz div 2)\<rparr>))"

text \<open>
  \<open>dbuffer_pushUIntHexStr\<close> computes a hexadecimal digit \<open>f\<close> and then pushes \<open>number % 10\<close> and
  divides by ten like its decimal twin; \<open>f\<close> is dead.
\<close>

definition hex_digit_f :: "nat \<Rightarrow> nat" where
  "hex_digit_f number = (let f = number mod 16 in if f < 10 then f + 48 else f + 65)"

function push_hex_digits :: "dbuffer \<Rightarrow> nat \<Rightarrow> nat \<Rightarrow> (dbuffer \<times> nat) res" where
  "push_hex_digits db number sz =
     (let f = hex_digit_f number in
      bindE (dbuffer_pushChar db (of_nat (48 + number mod 10))) (\<lambda>db.
       if number div 10 \<noteq> 0 then push_hex_digits db (number div 10) (sz + 1)
       else Inr (db, sz + 1)))"
  by pat_completeness auto
termination
  by (relation "measure (\<lambda>(db, number, sz). number)") auto

declare push_hex_digits.simps [simp del]

definition dbuffer_pushUIntHexStr :: "dbuffer \<Rightarrow> 32 word \<Rightarrow> dbuffer res" where
  "dbuffer_pushUIntHexStr db number =
     bindE (push_hex_digits db (unat number) 0) (\<lambda>(db, sz).
       Inr (db\<lparr>buffer := reverse_loop (buffer db) (usage db - sz) sz 0 (sz div 2)\<rparr>))"

text \<open>\<open>number = -number\<close> overflows for \<open>INT_MIN\<close>.\<close>

definition dbuffer_pushIntStr :: "dbuffer \<Rightarrow> 32 word \<Rightarrow> dbuffer res" where
  "dbuffer_pushIntStr db number =
     (if sint number < 0 then
        bindE (dbuffer_pushChar db (of_char CHR ''-'')) (\<lambda>db.
          if sint number = - (2 ^ 31) then Inl SignedOverflow
          else dbuffer_pushUIntStr db (- number))
      else dbuffer_pushUIntStr db number)"


text \<open>\<open>dbuffer_getLastPtr\<close> reads the eight bytes of the last pointer slot.\<close>

definition dbuffer_getLastPtr :: "dbuffer \<Rightarrow> 64 word res" where
  "dbuffer_getLastPtr db =
     (let i = mul64 8 (sub64 (usage db div 8) 1);
          cells = take 8 (drop i (buffer db))
      in if length cells = 8 \<and> None \<notin> set cells
         then Inr (bytes_word (map the cells)) else Inl OutOfBounds)"

definition dbuffer_asPtrCount :: "dbuffer \<Rightarrow> size_t" where
  "dbuffer_asPtrCount db = usage db div 8"

section \<open>Well-formed buffers\<close>

text \<open>
  \<open>dbuffer_ensureCap\<close> allocates a larger block but leaves \<open>capacity\<close> at its old value, so the
  invariant relates \<open>usage\<close> to the block and not to \<open>capacity\<close>. \<open>dbuffer_room db n\<close> says that
  pushes of \<open>n\<close> bytes in all, however they are split, stay inside the block: a buffer that has
  not outgrown its initial capacity can grow to twice of it, one that has can only fill the
  block it got then. The bounds \<open>2 ^ 60\<close> and \<open>2 ^ 62\<close> keep the size computations from wrapping.
\<close>

definition dbuffer_contents :: "dbuffer \<Rightarrow> byte list" where
  "dbuffer_contents db = map the (take (usage db) (buffer db))"

definition dbuffer_wf :: "dbuffer \<Rightarrow> bool" where
  "dbuffer_wf db \<longleftrightarrow>
     capacity db < 2 ^ 60 \<and> length (buffer db) < 2 ^ 62 \<and>
     capacity db \<le> length (buffer db) \<and> usage db \<le> length (buffer db) \<and>
     None \<notin> set (take (usage db) (buffer db))"

definition dbuffer_room :: "dbuffer \<Rightarrow> nat \<Rightarrow> bool" where
  "dbuffer_room db n \<longleftrightarrow>
     (if usage db \<le> capacity db then usage db + n \<le> 2 * capacity db
      else usage db + n \<le> length (buffer db))"

definition push_limit :: nat where
  "push_limit = 2 ^ 60"

lemma dbuffer_wfI:
  "capacity db < 2 ^ 60 \<Longrightarrow> length (buffer db) < 2 ^ 62 \<Longrightarrow> capacity db \<le> length (buffer db) \<Longrightarrow>
   usage db \<le> length (buffer db) \<Longrightarrow> None \<notin> set (take (usage db) (buffer db)) \<Longrightarrow> dbuffer_wf db"
  by (simp add: dbuffer_wf_def)

lemma dbuffer_wfD:
  assumes "dbuffer_wf db"
  shows "capacity db < 2 ^ 60" "length (buffer db) < 2 ^ 62"
    "capacity db \<le> length (buffer db)" "usage db \<le> length (buffer db)"
    "None \<notin> set (take (usage db) (buffer db))"
  using assms by (auto simp: dbuffer_wf_def)

lemma dbuffer_initSize_wf: "sz < 2 ^ 60 \<Longrightarrow> dbuffer_wf (dbuffer_initSize sz)"
  by (simp add: dbuffer_wf_def dbuffer_initSize_def)

lemma dbuffer_init_wf [simp]: "dbuffer_wf dbuffer_init"
  by (simp add: dbuffer_init_def DBUFFER_INIT_def dbuffer_initSize_wf)

lemma dbuffer_initSize_contents [simp]: "dbuffer_contents (dbuffer_initSize sz) = []"
  by (simp add: dbuffer_contents_def dbuffer_initSize_def)

lemma length_dbuffer_contents: "dbuffer_wf db \<Longrightarrow> length (dbuffer_contents db) = usage db"
  by (simp add: dbuffer_contents_def dbuffer_wf_def)

text \<open>When the buffer grows, and to what.\<close>

definition grown :: "dbuffer \<Rightarrow> nat \<Rightarrow> nat" where
  "grown db n = max (capacity db * 2) (capacity db * 3 div 2 + n)"

lemma ensureCap_grow:
  assumes "dbuffer_wf db" and "usage db \<le> capacity db" and "capacity db < usage db + n"
    and "n < push_limit"
  shows "dbuffer_ensureCap db n =
     Inr (db\<lparr>buffer := take (usage db) (buffer db) @ replicate (grown db n - usage db) None\<rparr>)"
proof -
  note wf = dbuffer_wfD [OF assms(1)]
  have "sub64 (capacity db) (usage db) = capacity db - usage db"
    using wf assms(2) by simp
  moreover have "mul64 (capacity db) 2 = capacity db * 2"
    using wf by simp
  moreover have "mul64 (capacity db) 3 = capacity db * 3"
    using wf by simp
  moreover have "add64 (capacity db * 3 div 2) n = capacity db * 3 div 2 + n"
    using wf assms(4) by (simp add: push_limit_def)
  ultimately show ?thesis
    using assms(2,3) wf by (simp add: dbuffer_ensureCap_def grown_def Let_def less_diff_conv2)
qed

lemma ensureCap_keep:
  assumes "dbuffer_wf db" and "n < push_limit"
    and "capacity db < usage db \<or> usage db + n \<le> capacity db"
  shows "dbuffer_ensureCap db n = Inr db"
proof -
  note wf = dbuffer_wfD [OF assms(1)]
  have "n \<le> sub64 (capacity db) (usage db)"
  proof (cases "capacity db < usage db")
    case True
    then have "sub64 (capacity db) (usage db) = 2 ^ 64 - (usage db - capacity db)"
      using wf by (simp add: sub64_wrap)
    then show ?thesis using wf assms(2) by (simp add: push_limit_def)
  next
    case False
    then show ?thesis using wf assms(3) by simp
  qed
  then show ?thesis by (simp add: dbuffer_ensureCap_def)
qed

lemma grown_bounds:
  assumes "dbuffer_wf db" and "n < push_limit"
  shows "2 * capacity db \<le> grown db n" and "capacity db + n \<le> grown db n" and "grown db n < 2 ^ 62"
  using dbuffer_wfD(1) [OF assms(1)] assms(2) by (auto simp: grown_def push_limit_def)

text \<open>The effect of a write of \<open>ds\<close> behind the used part, once the block is large enough.\<close>

lemma append_cells_wf:
  assumes "dbuffer_wf db" and "usage db + length ds \<le> length b"
    and "take (usage db) b = take (usage db) (buffer db)"
    and "length b < 2 ^ 62" and "capacity db \<le> length b"
  defines "db' \<equiv> db\<lparr>buffer := take (usage db) b @ map Some ds @ drop (usage db + length ds) b,
                    usage := usage db + length ds\<rparr>"
  shows "dbuffer_wf db'" and "dbuffer_contents db' = dbuffer_contents db @ ds"
proof -
  note wf = dbuffer_wfD [OF assms(1)]
  have used: "take (usage db + length ds) (take (usage db) b @ map Some ds @ drop (usage db + length ds) b)
      = take (usage db) (buffer db) @ map Some ds"
    using assms(2,3) wf by simp
  show "dbuffer_wf db'"
    using wf assms(2-5) used by (auto simp: db'_def intro!: dbuffer_wfI)
  show "dbuffer_contents db' = dbuffer_contents db @ ds"
    using used by (simp add: db'_def dbuffer_contents_def comp_def)
qed

definition push_ok :: "dbuffer \<Rightarrow> nat \<Rightarrow> bool" where
  "push_ok db n \<longleftrightarrow> usage db \<le> capacity db \<or> usage db + n \<le> length (buffer db)"

lemma dbuffer_pushData_ok:
  assumes "dbuffer_wf db" and "length ds < push_limit" and "push_ok db (length ds)"
  obtains db' where "dbuffer_pushData db ds = Inr db'" and "dbuffer_wf db'"
    and "dbuffer_contents db' = dbuffer_contents db @ ds"
    and "capacity db' = capacity db" and "usage db' = usage db + length ds"
    and "length (buffer db') =
       (if usage db \<le> capacity db \<and> capacity db < usage db + length ds
        then grown db (length ds) else length (buffer db))"
proof (cases "usage db \<le> capacity db \<and> capacity db < usage db + length ds")
  case True
  note wf = dbuffer_wfD [OF assms(1)] and g = grown_bounds [OF assms(1,2)]
  let ?b = "take (usage db) (buffer db) @ replicate (grown db (length ds) - usage db) None"
  have len: "length ?b = grown db (length ds)" using True g wf by simp
  have fits: "usage db + length ds \<le> length ?b" using True g len by linarith
  have tk: "take (usage db) ?b = take (usage db) (buffer db)" using wf by simp
  have sum: "usage db + length ds < 2 ^ 64" using fits g(3) unfolding len by simp
  have cap: "capacity db \<le> length ?b" using g len by linarith
  let ?db' = "db\<lparr>buffer := take (usage db) ?b @ map Some ds @ drop (usage db + length ds) ?b,
                 usage := usage db + length ds\<rparr>"
  have "dbuffer_pushData db ds = Inr ?db'"
    using True assms(1,2) fits sum
    by (simp add: dbuffer_pushData_def ensureCap_grow mem_write_ok)
  moreover have "dbuffer_wf ?db'" "dbuffer_contents ?db' = dbuffer_contents db @ ds"
    using append_cells_wf [OF assms(1) fits tk _ cap] g len by simp_all
  ultimately show ?thesis
    using that [of ?db'] True fits len wf by simp
next
  case False
  note wf = dbuffer_wfD [OF assms(1)]
  have fits: "usage db + length ds \<le> length (buffer db)"
    using False assms(3) wf by (auto simp: push_ok_def)
  have sum: "usage db + length ds < 2 ^ 64" using fits wf by simp
  let ?db' = "db\<lparr>buffer := take (usage db) (buffer db) @ map Some ds
                  @ drop (usage db + length ds) (buffer db), usage := usage db + length ds\<rparr>"
  have "dbuffer_pushData db ds = Inr ?db'"
    using False assms(1,2) fits sum
    by (auto simp: dbuffer_pushData_def ensureCap_keep mem_write_ok not_less)
  moreover have "dbuffer_wf ?db'" "dbuffer_contents ?db' = dbuffer_contents db @ ds"
    using append_cells_wf [OF assms(1) fits] wf by simp_all
  ultimately show ?thesis
    using that [of ?db'] False fits by auto
qed

lemma dbuffer_pushData_fault:
  assumes "dbuffer_wf db" and "length ds < push_limit" and "\<not> push_ok db (length ds)"
  shows "dbuffer_pushData db ds = Inl OutOfBounds"
  using assms by (simp add: dbuffer_pushData_def push_ok_def ensureCap_keep mem_write_fault)


section \<open>The interface of the emitters\<close>

text \<open>
  What the code that only appends bytes relies on: a push appends, keeps the invariant, and
  succeeds when there is room. \<open>emits f bs\<close> is the contract of a composed emitter: whenever it
  returns it has appended exactly \<open>bs\<close>, and it does return when there is room for \<open>bs\<close>.
\<close>

locale byte_sink =
  fixes push :: "'s \<Rightarrow> byte list \<Rightarrow> 's res"
    and contents :: "'s \<Rightarrow> byte list"
    and room :: "'s \<Rightarrow> nat \<Rightarrow> bool"
    and inv :: "'s \<Rightarrow> bool"
    and limit :: nat
  assumes push_appends: "inv s \<Longrightarrow> length ds < limit \<Longrightarrow> push s ds = Inr s' \<Longrightarrow>
      inv s' \<and> contents s' = contents s @ ds"
    and push_fits: "inv s \<Longrightarrow> length ds < limit \<Longrightarrow> room s n \<Longrightarrow> length ds \<le> n \<Longrightarrow>
      \<exists>s'. push s ds = Inr s' \<and> room s' (n - length ds)"
begin

definition emits :: "('s \<Rightarrow> 's res) \<Rightarrow> byte list \<Rightarrow> bool" where
  "emits f bs \<longleftrightarrow>
     (\<forall>s. inv s \<longrightarrow>
        (\<forall>s'. f s = Inr s' \<longrightarrow> inv s' \<and> contents s' = contents s @ bs) \<and>
        (\<forall>n. room s n \<longrightarrow> length bs \<le> n \<longrightarrow>
           (\<exists>s'. f s = Inr s' \<and> room s' (n - length bs))))"

lemma emitsI:
  assumes "\<And>s s'. inv s \<Longrightarrow> f s = Inr s' \<Longrightarrow> inv s' \<and> contents s' = contents s @ bs"
    and "\<And>s n. inv s \<Longrightarrow> room s n \<Longrightarrow> length bs \<le> n \<Longrightarrow>
           \<exists>s'. f s = Inr s' \<and> room s' (n - length bs)"
  shows "emits f bs"
  using assms unfolding emits_def by blast

lemma emitsD:
  "emits f bs \<Longrightarrow> inv s \<Longrightarrow> f s = Inr s' \<Longrightarrow> inv s' \<and> contents s' = contents s @ bs"
  unfolding emits_def by blast

lemma emits_total:
  assumes "emits f bs" and "inv s" and "room s n" and "length bs \<le> n"
  obtains s' where "f s = Inr s'" and "inv s'" and "contents s' = contents s @ bs"
    and "room s' (n - length bs)"
  using assms unfolding emits_def by blast

lemma emits_push: "length ds < limit \<Longrightarrow> emits (\<lambda>s. push s ds) ds"
  by (rule emitsI) (auto dest: push_appends push_fits)

lemma emits_skip: "emits Inr []"
  by (rule emitsI) auto

lemma emits_bind:
  assumes f: "emits f bs" and g: "emits g cs"
  shows "emits (\<lambda>s. bindE (f s) g) (bs @ cs)"
proof (rule emitsI)
  fix s s'
  assume "inv s" and "bindE (f s) g = Inr s'"
  then obtain t where s: "inv s" and t: "f s = Inr t" and s': "g t = Inr s'" by blast
  from emitsD [OF f s t] have t': "inv t" "contents t = contents s @ bs" by blast+
  from emitsD [OF g t'(1) s'] t'(2) show "inv s' \<and> contents s' = contents s @ bs @ cs" by simp
next
  fix s n
  assume s: "inv s" and n: "room s n" and l: "length (bs @ cs) \<le> n"
  from l have "length bs \<le> n" by simp
  from emits_total [OF f s n this] obtain t where t: "f s = Inr t" "inv t" "room t (n - length bs)"
    by blast
  from l have "length cs \<le> n - length bs" by simp
  from emits_total [OF g t(2,3) this] obtain u where
    "g t = Inr u" "room u (n - length bs - length cs)" by blast
  with t show "\<exists>s'. bindE (f s) g = Inr s' \<and> room s' (n - length (bs @ cs))"
    by simp
qed

lemma emits_bind_eq:
  "emits f bs \<Longrightarrow> emits g cs \<Longrightarrow> ds = bs @ cs \<Longrightarrow> emits (\<lambda>s. bindE (f s) g) ds"
  by (simp add: emits_bind)

lemma emits_cong: "(\<And>s. f s = g s) \<Longrightarrow> emits f bs \<Longrightarrow> emits g bs"
  unfolding emits_def by simp

end

text \<open>
  The buffer is such a sink. Its interpretation carries the emitters of this theory, of the
  formatter and of the assembler.
\<close>

lemma dbuffer_room_push_ok: "dbuffer_room db n \<Longrightarrow> m \<le> n \<Longrightarrow> push_ok db m"
  by (auto simp: dbuffer_room_def push_ok_def split: if_splits)

lemma dbuffer_room_pushed:
  assumes "dbuffer_wf db" and "length ds < push_limit" and "dbuffer_room db n" and "length ds \<le> n"
    and "capacity db' = capacity db" and "usage db' = usage db + length ds"
    and "length (buffer db') =
       (if usage db \<le> capacity db \<and> capacity db < usage db + length ds
        then grown db (length ds) else length (buffer db))"
  shows "dbuffer_room db' (n - length ds)"
  using assms grown_bounds [OF assms(1,2)]
  by (auto simp: dbuffer_room_def split: if_splits)

interpretation sink: byte_sink dbuffer_pushData dbuffer_contents dbuffer_room dbuffer_wf push_limit
proof unfold_locales
  fix s s' and ds :: "byte list"
  assume wf: "dbuffer_wf s" and len: "length ds < push_limit" and ret: "dbuffer_pushData s ds = Inr s'"
  then have "push_ok s (length ds)" by (metis dbuffer_pushData_fault sum.distinct(1))
  then show "dbuffer_wf s' \<and> dbuffer_contents s' = dbuffer_contents s @ ds"
    using dbuffer_pushData_ok [OF wf len] ret by fastforce
next
  fix s n and ds :: "byte list"
  assume wf: "dbuffer_wf s" and len: "length ds < push_limit" and room: "dbuffer_room s n" "length ds \<le> n"
  from room have "push_ok s (length ds)" by (rule dbuffer_room_push_ok)
  from dbuffer_pushData_ok [OF wf len this] obtain s' where
    "dbuffer_pushData s ds = Inr s'" and "dbuffer_room s' (n - length ds)"
    using dbuffer_room_pushed [OF wf len room] by metis
  then show "\<exists>s'. dbuffer_pushData s ds = Inr s' \<and> dbuffer_room s' (n - length ds)" by blast
qed

lemma push_limit_gt [simp]: "n < 2 ^ 60 \<Longrightarrow> n < push_limit"
  by (simp add: push_limit_def)

lemma emits_pushChar: "sink.emits (\<lambda>db. dbuffer_pushChar db c) [c]"
  unfolding dbuffer_pushChar_def by (rule sink.emits_push) simp

lemma emits_push_args:
  "length ws < 2 ^ 60 \<Longrightarrow> sink.emits (\<lambda>db. dbuffer_push db ws) (map ucast ws)"
  unfolding dbuffer_push_def by (rule sink.emits_push) simp

subsection \<open>Little-endian numbers\<close>

lemma ucast_mask8: "ucast ((w :: 'a::len word) AND 0xFF) = (ucast w :: byte)"
proof -
  have "(0xFF :: 'a word) = mask 8" by (simp add: mask_eq_exp_minus_1)
  then have "w AND 0xFF = take_bit 8 w" by (simp only: take_bit_eq_mask)
  then show ?thesis
    by (auto intro!: bit_word_eqI simp: bit_simps dest: bit_imp_le_length)
qed

lemma emits_pushLong: "sink.emits (\<lambda>db. dbuffer_pushLong db w n) (le_bytes n w)"
proof (induction n arbitrary: w)
  case 0
  then show ?case by (simp add: sink.emits_skip)
next
  case (Suc n)
  show ?case
    unfolding dbuffer_pushLong.simps le_bytes_Suc ucast_mask8
    by (rule sink.emits_bind_eq [OF emits_pushChar Suc]) simp
qed

lemma emits_pushInt_loop: "sink.emits (\<lambda>db. pushInt_loop db w n) (le_bytes n w)"
proof (induction n arbitrary: w)
  case 0
  then show ?case by (simp add: sink.emits_skip)
next
  case (Suc n)
  show ?case
    unfolding pushInt_loop.simps le_bytes_Suc ucast_mask8
    by (rule sink.emits_bind_eq [OF emits_pushChar Suc]) simp
qed

lemma emits_pushInt: "n \<le> 8 \<Longrightarrow> sink.emits (\<lambda>db. dbuffer_pushInt db w n) (le_bytes n w)"
  unfolding dbuffer_pushInt_def by (simp add: emits_pushInt_loop)


subsection \<open>Text and repeated bytes\<close>

lemma dbuffer_pushChars_eq: "dbuffer_pushChars db c n = dbuffer_pushData db (replicate n c)"
  by (simp add: dbuffer_pushChars_def dbuffer_pushData_def)

lemma emits_pushChars: "n < 2 ^ 60 \<Longrightarrow> sink.emits (\<lambda>db. dbuffer_pushChars db c n) (replicate n c)"
  unfolding dbuffer_pushChars_eq by (rule sink.emits_push) simp

lemma dbuffer_pushStr_literal:
  "NUL \<notin> set s \<Longrightarrow> dbuffer_pushStr db (s @ [NUL]) = dbuffer_pushData db (map of_char s)"
  by (simp add: dbuffer_pushStr_def takeWhile_append)

lemma emits_pushStr:
  "NUL \<notin> set s \<Longrightarrow> length s < 2 ^ 60 \<Longrightarrow>
   sink.emits (\<lambda>db. dbuffer_pushStr db (s @ [NUL])) (map of_char s)"
  unfolding dbuffer_pushStr_literal by (rule sink.emits_push) simp

lemma emits_pushRange:
  "range_wf r \<Longrightarrow> rsize r < 2 ^ 60 \<Longrightarrow>
   sink.emits (\<lambda>db. dbuffer_pushRange db r) (map of_char (range_view r))"
  unfolding dbuffer_pushRange_def
  by (simp add: range_wf_def range_view_def sink.emits_push)

subsection \<open>Decimal text\<close>

text \<open>The reference: the decimal digits of a number, most significant first.\<close>

fun decimal :: "nat \<Rightarrow> nat list" where
  "decimal n = (if n < 10 then [n] else decimal (n div 10) @ [n mod 10])"

declare decimal.simps [simp del]

definition digit_byte :: "nat \<Rightarrow> byte" where
  "digit_byte d = of_nat (48 + d)"

definition decimal_bytes :: "nat \<Rightarrow> byte list" where
  "decimal_bytes n = map digit_byte (decimal n)"

lemma decimal_not_Nil [simp]: "decimal n \<noteq> []"
  by (subst decimal.simps) simp

lemma decimal_digits: "d \<in> set (decimal n) \<Longrightarrow> d < 10"
proof (induction n rule: decimal.induct)
  case (1 n)
  then show ?case by (cases "n < 10") (auto simp: decimal.simps [of n])
qed

lemma length_decimal_le: "length (decimal n) \<le> Suc n"
proof (induction n rule: decimal.induct)
  case (1 n)
  then show ?case by (cases "n < 10") (auto simp: decimal.simps [of n])
qed

fun push_each :: "dbuffer \<Rightarrow> byte list \<Rightarrow> dbuffer res" where
  "push_each db [] = Inr db"
| "push_each db (b # bs) = bindE (dbuffer_pushChar db b) (\<lambda>db. push_each db bs)"

lemma emits_push_each: "sink.emits (\<lambda>db. push_each db bs) bs"
proof (induction bs)
  case Nil
  then show ?case by (simp add: sink.emits_skip)
next
  case (Cons b bs)
  show ?case
    unfolding push_each.simps by (rule sink.emits_bind_eq [OF emits_pushChar Cons]) simp
qed

lemma push_digits_eq:
  "push_digits db n sz =
   bindE (push_each db (rev (decimal_bytes n))) (\<lambda>db. Inr (db, sz + length (decimal n)))"
proof (induction n arbitrary: db sz rule: less_induct)
  case (less n)
  show ?case
  proof (cases "n < 10")
    case True
    then show ?thesis
      by (simp add: push_digits.simps [of db n] decimal.simps [of n] decimal_bytes_def
            digit_byte_def bindE_assoc)
  next
    case False
    then have "n div 10 < n" by simp
    note IH = less [OF this]
    from False show ?thesis
      by (simp add: push_digits.simps [of db n] decimal.simps [of n] decimal_bytes_def
            digit_byte_def bindE_assoc IH div_eq_0_iff)
  qed
qed

lemma push_hex_digits_eq: "push_hex_digits db n sz = push_digits db n sz"
proof (induction n arbitrary: db sz rule: less_induct)
  case (less n)
  show ?case
  proof (cases "n < 10")
    case True
    then show ?thesis
      by (simp add: push_digits.simps [of db n] push_hex_digits.simps [of db n])
  next
    case False
    then have "n div 10 < n" by simp
    note IH = less [OF this]
    from False show ?thesis
      by (simp add: push_digits.simps [of db n] push_hex_digits.simps [of db n] IH div_eq_0_iff)
  qed
qed

text \<open>The swap loop reverses the \<open>sz\<close> cells from \<open>start\<close>.\<close>

lemma reverse_loop_nth:
  assumes "start + sz \<le> length m" and "count = sz div 2" and "i \<le> count"
  shows "length (reverse_loop m start sz i count) = length m \<and>
    (\<forall>k < length m. reverse_loop m start sz i count ! k =
       (if start + i \<le> k \<and> k < start + sz - i then m ! (2 * start + sz - 1 - k) else m ! k))"
  using assms
proof (induction m start sz i count rule: reverse_loop.induct)
  case (1 m start sz i count)
  show ?case
  proof (cases "i < count")
    case True
    define m' where "m' = m[start + i := m ! (start + sz - i - 1), start + sz - i - 1 := m ! (start + i)]"
    have eq: "reverse_loop m start sz i count = reverse_loop m' start sz (i + 1) count"
      using True by (simp add: reverse_loop.simps [of m start sz i] m'_def Let_def)
    have len: "length m' = length m" by (simp add: m'_def)
    have pos: "start + sz - i - 1 < length m" "start + i < start + sz - i - 1"
      using True "1.prems" by auto
    have IH: "length (reverse_loop m' start sz (i + 1) count) = length m \<and>
      (\<forall>k < length m. reverse_loop m' start sz (i + 1) count ! k =
         (if start + (i + 1) \<le> k \<and> k < start + sz - (i + 1)
          then m' ! (2 * start + sz - 1 - k) else m' ! k))"
      using "1.IH" [OF True refl refl] True "1.prems" len unfolding m'_def by simp
    have "(if start + (i + 1) \<le> k \<and> k < start + sz - (i + 1)
          then m' ! (2 * start + sz - 1 - k) else m' ! k) =
       (if start + i \<le> k \<and> k < start + sz - i then m ! (2 * start + sz - 1 - k) else m ! k)"
      if "k < length m" for k
    proof -
      consider "k = start + i" | "k = start + sz - i - 1"
        | "start + (i + 1) \<le> k" "k < start + sz - (i + 1)"
        | "k < start + i" | "start + sz - i \<le> k"
        by linarith
      then show ?thesis
        using that pos by cases (auto simp: m'_def nth_list_update intro!: arg_cong [where f = "nth m"])
    qed
    with IH show ?thesis by (simp add: eq)
  next
    case False
    then have i: "i = count" using "1.prems" by simp
    have stop: "reverse_loop m start sz i count = m"
      using False by (simp add: reverse_loop.simps [of m start sz i])
    have mid: "2 * start + sz - 1 - k = k" if "start + i \<le> k" "k < start + sz - i" for k
      using that i "1.prems"(2) by linarith
    show ?thesis
      unfolding stop using mid by (simp add: i)
  qed
qed

lemma reverse_loop_rev:
  assumes "start + sz \<le> length m"
  shows "reverse_loop m start sz 0 (sz div 2) =
    take start m @ rev (take sz (drop start m)) @ drop (start + sz) m"
proof (rule nth_equalityI)
  note R = reverse_loop_nth [OF assms refl, of 0]
  show "length (reverse_loop m start sz 0 (sz div 2)) =
      length (take start m @ rev (take sz (drop start m)) @ drop (start + sz) m)"
    using R assms by simp
next
  note R = reverse_loop_nth [OF assms refl, of 0]
  fix k assume "k < length (reverse_loop m start sz 0 (sz div 2))"
  then have k: "k < length m" using R by simp
  consider "k < start" | "start \<le> k" "k < start + sz" | "start + sz \<le> k" by linarith
  then show "reverse_loop m start sz 0 (sz div 2) ! k =
      (take start m @ rev (take sz (drop start m)) @ drop (start + sz) m) ! k"
  proof cases
    case 2
    then have "start + (sz - Suc (k - start)) = 2 * start + sz - 1 - k" "k - start < sz"
      by linarith+
    with 2 R assms k show ?thesis by (simp add: nth_append rev_nth)
  qed (use R assms k in \<open>auto simp: nth_append\<close>)
qed


definition reverse_tail :: "dbuffer \<Rightarrow> nat \<Rightarrow> dbuffer" where
  "reverse_tail db sz =
     db\<lparr>buffer := reverse_loop (buffer db) (usage db - sz) sz 0 (sz div 2)\<rparr>"

lemma reverse_tail_sel [simp]:
  "usage (reverse_tail db sz) = usage db" "capacity (reverse_tail db sz) = capacity db"
  by (simp_all add: reverse_tail_def)

lemma reverse_tail_correct:
  assumes wf: "dbuffer_wf db" and c: "dbuffer_contents db = cs @ rev bs"
  shows "dbuffer_wf (reverse_tail db (length bs))"
    and "dbuffer_contents (reverse_tail db (length bs)) = cs @ bs"
    and "length (buffer (reverse_tail db (length bs))) = length (buffer db)"
proof -
  note w = dbuffer_wfD [OF wf]
  have u: "usage db = length cs + length bs"
    using length_dbuffer_contents [OF wf] by (simp add: c)
  let ?b = "reverse_loop (buffer db) (length cs) (length bs) 0 (length bs div 2)"
  have b: "?b = take (length cs) (buffer db) @ rev (take (length bs) (drop (length cs) (buffer db)))
             @ drop (length cs + length bs) (buffer db)"
    using w u by (intro reverse_loop_rev) simp
  have cells: "take (length cs) (buffer db) = map Some cs"
    "take (length bs) (drop (length cs) (buffer db)) = map Some (rev bs)"
  proof -
    have "take (usage db) (buffer db) = map Some (dbuffer_contents db)"
      using map_Some_the [OF w(5)] by (simp only: dbuffer_contents_def)
    then have e: "take (length cs + length bs) (buffer db) = map Some cs @ map Some (rev bs)"
      by (simp add: c u)
    show "take (length cs) (buffer db) = map Some cs"
      using arg_cong [OF e, of "take (length cs)"] by simp
    show "take (length bs) (drop (length cs) (buffer db)) = map Some (rev bs)"
      using arg_cong [OF e, of "drop (length cs)"] by (simp add: drop_take)
  qed
  have t: "reverse_tail db (length bs) = db\<lparr>buffer := ?b\<rparr>"
    by (simp add: reverse_tail_def u)
  have used: "take (usage db) ?b = map Some (cs @ bs)"
    unfolding b using w u by (simp add: cells rev_map)
  show len: "length (buffer (reverse_tail db (length bs))) = length (buffer db)"
    using w u by (simp add: t b)
  show "dbuffer_wf (reverse_tail db (length bs))"
    using w used len by (intro dbuffer_wfI) (auto simp: t)
  show "dbuffer_contents (reverse_tail db (length bs)) = cs @ bs"
    using used by (simp add: dbuffer_contents_def t comp_def)
qed

lemma reverse_tail_room:
  "length (buffer (reverse_tail db n)) = length (buffer db) \<Longrightarrow>
   dbuffer_room (reverse_tail db n) k = dbuffer_room db k"
  by (simp add: dbuffer_room_def)

lemma dbuffer_pushUIntStr_eq:
  "dbuffer_pushUIntStr db w =
   bindE (push_each db (rev (decimal_bytes (unat w))))
     (\<lambda>db. Inr (reverse_tail db (length (decimal_bytes (unat w)))))"
  by (simp add: dbuffer_pushUIntStr_def push_digits_eq bindE_assoc reverse_tail_def
        decimal_bytes_def)

lemma emits_pushUIntStr:
  "sink.emits (\<lambda>db. dbuffer_pushUIntStr db w) (decimal_bytes (unat w))"
proof (rule sink.emitsI)
  let ?bs = "decimal_bytes (unat w)"
  fix s s'
  assume wf: "dbuffer_wf s" and "dbuffer_pushUIntStr s w = Inr s'"
  then obtain t where t: "push_each s (rev ?bs) = Inr t" and s': "s' = reverse_tail t (length ?bs)"
    by (auto simp: dbuffer_pushUIntStr_eq)
  from sink.emitsD [OF emits_push_each wf t]
  have "dbuffer_wf t" "dbuffer_contents t = dbuffer_contents s @ rev ?bs" by auto
  from reverse_tail_correct [OF this]
  show "dbuffer_wf s' \<and> dbuffer_contents s' = dbuffer_contents s @ ?bs"
    by (simp add: s')
next
  let ?bs = "decimal_bytes (unat w)"
  fix s n
  assume wf: "dbuffer_wf s" and room: "dbuffer_room s n" and len: "length ?bs \<le> n"
  then have "length (rev ?bs) \<le> n" by simp
  from sink.emits_total [OF emits_push_each wf room this] obtain t where
    t: "push_each s (rev ?bs) = Inr t" "dbuffer_wf t"
      "dbuffer_contents t = dbuffer_contents s @ rev ?bs" "dbuffer_room t (n - length ?bs)"
    by auto
  from reverse_tail_correct(3) [OF t(2,3)] t(4)
  have "dbuffer_room (reverse_tail t (length ?bs)) (n - length ?bs)"
    by (simp add: reverse_tail_room)
  with t(1) show "\<exists>s'. dbuffer_pushUIntStr s w = Inr s' \<and> dbuffer_room s' (n - length ?bs)"
    by (simp add: dbuffer_pushUIntStr_eq)
qed

definition int_text :: "int \<Rightarrow> byte list" where
  "int_text i = (if i < 0 then [of_char CHR ''-''] else []) @ decimal_bytes (nat \<bar>i\<bar>)"

lemma sint_uint32: "sint (w :: 32 word) = uint w - 2 ^ 32 * of_bool (bit (uint w) 31)"
  and uint32_mod: "uint (w :: 32 word) mod 2 ^ 32 = uint w"
proof -
  show small: "uint w mod 2 ^ 32 = uint w"
    using uint_lt2p [of w] by simp
  show "sint w = uint w - 2 ^ 32 * of_bool (bit (uint w) 31)"
    using small by (simp add: sint_uint signed_take_bit_eq_take_bit_minus take_bit_eq_mod)
qed

lemma unat_uminus_sint:
  assumes "sint (w :: 32 word) < 0"
  shows "unat (- w) = nat (- sint w)"
proof -
  have "w \<noteq> 0" using assms by auto
  then have "uint (- w) = 2 ^ 32 - uint w"
    using uint32_mod [of w] by (auto simp: uint_word_ariths zmod_zminus1_eq_if uint_0_iff)
  moreover from assms have "sint w = uint w - 2 ^ 32"
    by (cases "bit (uint w) 31") (simp_all add: sint_uint32)
  ultimately show ?thesis by (simp add: unat_eq_nat_uint)
qed

lemma unat_sint_nonneg:
  assumes "0 \<le> sint (w :: 32 word)"
  shows "unat w = nat (sint w)"
proof (cases "bit (uint w) 31")
  case True
  then have "sint w = uint w - 2 ^ 32" using sint_uint32 [of w] by simp
  moreover have "uint w < 2 ^ 32" using uint_lt2p [of w] by simp
  ultimately show ?thesis using assms by linarith
next
  case False
  then have "sint w = uint w" using sint_uint32 [of w] by simp
  then show ?thesis by (simp only: unat_eq_nat_uint)
qed

lemma dbuffer_pushIntStr_neg:
  "sint w < 0 \<Longrightarrow> sint w \<noteq> - (2 ^ 31) \<Longrightarrow>
   dbuffer_pushIntStr db w =
     bindE (dbuffer_pushChar db (of_char CHR ''-'')) (\<lambda>db. dbuffer_pushUIntStr db (- w))"
  by (simp add: dbuffer_pushIntStr_def)

lemma emits_pushIntStr:
  assumes "sint w \<noteq> - (2 ^ 31)"
  shows "sink.emits (\<lambda>db. dbuffer_pushIntStr db w) (int_text (sint w))"
proof (cases "sint w < 0")
  case True
  have eq: "int_text (sint w) = [of_char CHR ''-''] @ decimal_bytes (unat (- w))"
    using True by (simp add: int_text_def unat_uminus_sint)
  show ?thesis
    unfolding dbuffer_pushIntStr_neg [OF True assms]
    by (rule sink.emits_bind_eq [OF emits_pushChar emits_pushUIntStr eq])
next
  case False
  then have "unat w = nat \<bar>sint w\<bar>"
    by (simp add: unat_sint_nonneg)
  with False have eq: "int_text (sint w) = decimal_bytes (unat w)"
    by (simp add: int_text_def)
  show ?thesis
    unfolding eq using False by (simp add: dbuffer_pushIntStr_def emits_pushUIntStr)
qed

subsection \<open>Reading the text back\<close>

definition byte_char :: "byte \<Rightarrow> char" where
  "byte_char b = char_of (unat b)"

definition dbuffer_asRange :: "dbuffer \<Rightarrow> range_t" where
  "dbuffer_asRange db =
     \<lparr>rmem = map (\<lambda>c. case c of None \<Rightarrow> NUL | Some b \<Rightarrow> byte_char b) (buffer db), rsize = usage db\<rparr>"

lemma dbuffer_asRange_view:
  assumes "dbuffer_wf db"
  shows "range_view (dbuffer_asRange db) = map byte_char (dbuffer_contents db)"
proof -
  have "take (usage db) (buffer db) = map Some (dbuffer_contents db)"
    using map_Some_the [OF dbuffer_wfD(5) [OF assms]] by (simp only: dbuffer_contents_def)
  then show ?thesis
    by (simp add: range_view_def dbuffer_asRange_def take_map comp_def)
qed

lemma unat_of_char [simp]: "unat (of_char c :: byte) = of_char c"
proof -
  have "(of_char c :: byte) = of_nat (of_char c)" by (rule of_nat_of_char [symmetric])
  moreover have "of_char c < (256 :: nat)" by simp
  ultimately show ?thesis by (simp only: unat_of_nat) simp
qed

lemma byte_char_of_char [simp]: "byte_char (of_char c) = c"
  by (simp add: byte_char_def)

lemma unat_digit_byte: "d < 10 \<Longrightarrow> unat (digit_byte d) = 48 + d"
  by (simp only: digit_byte_def unat_of_nat) simp

lemma schar_digit: "d < 10 \<Longrightarrow> schar (byte_char (digit_byte d)) = 48 + int d"
  by (simp add: schar_def byte_char_def unat_digit_byte Let_def)

definition digits_value :: "int \<Rightarrow> nat list \<Rightarrow> int" where
  "digits_value r ds = foldl (\<lambda>a d. 10 * a + int d) r ds"

lemma digits_value_simps [simp]:
  "digits_value r [] = r"
  "digits_value r (d # ds) = digits_value (10 * r + int d) ds"
  "digits_value r (ds @ [d]) = 10 * digits_value r ds + int d"
  by (simp_all add: digits_value_def)

lemma digits_value_ge: "0 \<le> r \<Longrightarrow> r \<le> digits_value r ds"
proof (induction ds arbitrary: r)
  case (Cons d ds)
  then have "10 * r + int d \<le> digits_value (10 * r + int d) ds" by simp
  with Cons.prems show ?case by simp
qed simp

lemma digits_value_decimal: "digits_value 0 (decimal n) = int n"
proof (induction n rule: decimal.induct)
  case (1 n)
  have "int n = 10 * int (n div 10) + int (n mod 10)"
    using mult_div_mod_eq [of 10 n] by linarith
  with 1 show ?case by (cases "n < 10") (simp_all add: decimal.simps [of n])
qed

lemma parse_loop_digits:
  assumes "0 \<le> r" and "\<forall>d \<in> set ds. d < 10" and "digits_value r ds \<le> B"
    and "sign = 1 \<and> B = INT_MAX \<or> sign = - 1 \<and> B = INT_MAX + 1"
  shows "parse_loop sign r (map (byte_char \<circ> digit_byte) ds) = Inr (digits_value r ds)"
  using assms(1-3)
proof (induction ds arbitrary: r)
  case Nil
  then show ?case by simp
next
  case (Cons d ds)
  let ?r = "10 * r + int d"
  have d: "schar (byte_char (digit_byte d)) - 48 = int d"
    using Cons.prems by (simp add: schar_digit)
  have r: "0 \<le> ?r" "?r \<le> digits_value ?r ds" "?r \<le> B"
    using Cons.prems digits_value_ge [of ?r ds] by simp_all
  have B: "B \<le> 2 ^ 31" using assms(4) by (auto simp: INT_MAX_def)
  have ok: "longE (r * 10) = Inr (r * 10)" "longE (r * 10 + int d) = Inr ?r"
    using r B Cons.prems(1) by (auto simp: longE_def)
  have IH: "parse_loop sign ?r (map (byte_char \<circ> digit_byte) ds) = Inr (digits_value ?r ds)"
    using Cons.prems r by (intro Cons.IH) simp_all
  have stop: "B \<le> ?r \<Longrightarrow> digits_value ?r ds = ?r"
    using Cons.prems(3) r by simp
  have step: "parse_loop sign r (map (byte_char \<circ> digit_byte) (d # ds)) =
      (if B \<le> ?r then Inr ?r else Inr (digits_value ?r ds))"
    using assms(4) by (auto simp: d ok IH [unfolded comp_def] comp_def)
  show ?case
    unfolding step using stop by simp
qed

lemma decimal_hd_digit:
  "\<exists>d ds. decimal n = d # ds \<and> d < 10"
  using decimal_digits [of _ n] by (cases "decimal n") auto

lemma byte_char_digit_not_sign:
  "d < 10 \<Longrightarrow> byte_char (digit_byte d) \<noteq> CHR ''-'' \<and> byte_char (digit_byte d) \<noteq> CHR ''+''"
  using schar_digit [of d] by (auto simp: schar_def)


section \<open>Pointer lists\<close>

text \<open>
  The compiler keeps lists of pointers in such buffers. Since \<open>capacity\<close> is never updated, a
  buffer made for \<open>k\<close> pointers grows once, to \<open>2 * k\<close> of them, and the next push writes behind
  the block. \<open>ptrs_push\<close> is the abstract list of pointers with that limit; \<open>ptrs_rel\<close> relates it
  to the bytes, and the operations of the buffer simulate those of the list. The models of the
  other components use the abstract list.
\<close>

definition ptrs_push :: "nat \<Rightarrow> 'a list \<Rightarrow> 'a \<Rightarrow> 'a list res" where
  "ptrs_push k xs x = (if length xs < 2 * k then Inr (xs @ [x]) else Inl OutOfBounds)"

definition ptrs_rel :: "nat \<Rightarrow> ('a \<Rightarrow> 64 word) \<Rightarrow> 'a list \<Rightarrow> dbuffer \<Rightarrow> bool" where
  "ptrs_rel k addr xs db \<longleftrightarrow>
     0 < k \<and> dbuffer_wf db \<and> capacity db = 8 * k \<and>
     dbuffer_contents db = concat (map (le_bytes 8 \<circ> addr) xs) \<and>
     (capacity db < usage db \<longrightarrow> length (buffer db) = max (16 * k) (12 * k + 8))"

lemma length_concat_ptr_bytes: "length (concat (map (le_bytes 8 \<circ> addr) xs)) = 8 * length xs"
  by (induction xs) auto

lemma ptrs_rel_usage: "ptrs_rel k addr xs db \<Longrightarrow> usage db = 8 * length xs"
  using length_dbuffer_contents [of db] length_concat_ptr_bytes [of addr xs]
  by (simp add: ptrs_rel_def)

lemma ensureCap_idem:
  assumes "dbuffer_wf db" and "n < push_limit" and "dbuffer_ensureCap db n = Inr db'"
  shows "dbuffer_ensureCap db' n = Inr db'"
proof (cases "usage db \<le> capacity db \<and> capacity db < usage db + n")
  case True
  note wf = dbuffer_wfD [OF assms(1)] and g = grown_bounds [OF assms(1,2)]
  let ?b = "take (usage db) (buffer db) @ replicate (grown db n - usage db) None"
  have db': "db' = db\<lparr>buffer := ?b\<rparr>"
    using ensureCap_grow [OF assms(1) _ _ assms(2)] True assms(3) by simp
  have len: "length ?b = grown db n" using True g wf by simp
  have "dbuffer_wf db'"
    using wf g len by (intro dbuffer_wfI) (auto simp: db')
  then have "dbuffer_ensureCap db' n =
      Inr (db'\<lparr>buffer := take (usage db') (buffer db') @ replicate (grown db' n - usage db') None\<rparr>)"
    using True assms(2) by (intro ensureCap_grow) (simp_all add: db')
  also have "take (usage db') (buffer db') = take (usage db) (buffer db)"
    using wf by (simp add: db')
  also have "grown db' n = grown db n" by (simp add: grown_def db')
  finally show ?thesis by (simp add: db')
next
  case False
  then have "dbuffer_ensureCap db n = Inr db"
    using assms by (intro ensureCap_keep) auto
  with assms(3) show ?thesis by simp
qed

lemma dbuffer_pushPtr_eq:
  assumes "dbuffer_wf db"
  shows "dbuffer_pushPtr db p = dbuffer_pushData db (le_bytes 8 p)"
proof (cases "dbuffer_ensureCap db 8")
  case (Inl e)
  then show ?thesis by (simp add: dbuffer_pushPtr_def dbuffer_pushData_def)
next
  case (Inr db')
  with ensureCap_idem [OF assms _ Inr] show ?thesis
    by (simp add: dbuffer_pushPtr_def dbuffer_pushData_def)
qed

lemma ptrs_rel_push_ok:
  assumes rel: "ptrs_rel k addr xs db" and room: "length xs < 2 * k"
  obtains db' where "dbuffer_pushPtr db (addr x) = Inr db'" and "ptrs_rel k addr (xs @ [x]) db'"
proof -
  from rel have wf: "dbuffer_wf db" and k: "0 < k" and cap: "capacity db = 8 * k"
    and u: "usage db = 8 * length xs"
    and b: "capacity db < usage db \<Longrightarrow> length (buffer db) = max (16 * k) (12 * k + 8)"
    and c: "dbuffer_contents db = concat (map (le_bytes 8 \<circ> addr) xs)"
    using ptrs_rel_usage [OF rel] by (auto simp: ptrs_rel_def)
  have grow: "grown db 8 = max (16 * k) (12 * k + 8)" by (simp add: grown_def cap)
  have ok: "push_ok db (length (le_bytes 8 (addr x)))"
  proof (cases "usage db \<le> capacity db")
    case False
    with b have "length (buffer db) = max (16 * k) (12 * k + 8)" by simp
    with room u show ?thesis by (simp add: push_ok_def le_max_iff_disj)
  qed (simp add: push_ok_def)
  have "length (le_bytes 8 (addr x)) < push_limit" by simp
  from dbuffer_pushData_ok [OF wf this ok] obtain db' where db':
    "dbuffer_pushData db (le_bytes 8 (addr x)) = Inr db'" "dbuffer_wf db'"
    "dbuffer_contents db' = dbuffer_contents db @ le_bytes 8 (addr x)"
    "capacity db' = capacity db" "usage db' = usage db + 8"
    "length (buffer db') =
       (if usage db \<le> capacity db \<and> capacity db < usage db + 8 then grown db 8 else length (buffer db))"
    by (metis length_le_bytes)
  have "ptrs_rel k addr (xs @ [x]) db'"
    using db' k cap c b grow by (auto simp: ptrs_rel_def)
  with db'(1) show ?thesis
    using that by (simp add: dbuffer_pushPtr_eq [OF wf])
qed

lemma ptrs_rel_push_fault:
  assumes rel: "ptrs_rel k addr xs db" and full: "2 * k \<le> length xs"
  shows "dbuffer_pushPtr db p = Inl OutOfBounds"
proof -
  from rel have wf: "dbuffer_wf db" and k: "0 < k" and cap: "capacity db = 8 * k"
    and u: "usage db = 8 * length xs"
    and b: "capacity db < usage db \<longrightarrow> length (buffer db) = max (16 * k) (12 * k + 8)"
    using ptrs_rel_usage [OF rel] by (auto simp: ptrs_rel_def)
  from full k u cap have over: "capacity db < usage db" by simp
  have "\<not> push_ok db (length (le_bytes 8 p))"
    using over b full u k by (simp add: push_ok_def)
  then show ?thesis
    by (simp add: dbuffer_pushPtr_eq [OF wf] dbuffer_pushData_fault [OF wf])
qed


lemma ptrs_rel_init:
  "0 < k \<Longrightarrow> k < 2 ^ 56 \<Longrightarrow> ptrs_rel k addr [] (dbuffer_initSize (8 * k))"
  using dbuffer_initSize_wf [of "8 * k"]
  by (simp add: ptrs_rel_def) (simp add: dbuffer_initSize_def)

lemma dbuffer_contents_take:
  "n \<le> usage db \<Longrightarrow> dbuffer_contents (db\<lparr>usage := n\<rparr>) = take n (dbuffer_contents db)"
  by (simp add: dbuffer_contents_def take_map min_def)

lemma dbuffer_wf_usage:
  assumes "dbuffer_wf db" and "n \<le> usage db"
  shows "dbuffer_wf (db\<lparr>usage := n\<rparr>)"
proof -
  note wf = dbuffer_wfD [OF assms(1)]
  have "take n (buffer db) = take n (take (usage db) (buffer db))"
    using assms(2) by (simp add: min_def)
  then have "set (take n (buffer db)) \<subseteq> set (take (usage db) (buffer db))"
    by (metis set_take_subset)
  with wf assms(2) show ?thesis by (intro dbuffer_wfI) auto
qed

lemma ptrs_rel_take:
  assumes "ptrs_rel k addr xs db" and "n \<le> length xs"
  shows "ptrs_rel k addr (take n xs) (db\<lparr>usage := 8 * n\<rparr>)"
proof -
  have u: "usage db = 8 * length xs" using assms(1) by (rule ptrs_rel_usage)
  have "take (8 * n) (concat (map (le_bytes 8 \<circ> addr) xs)) = concat (map (le_bytes 8 \<circ> addr) (take n xs))"
    using assms(2)
  proof (induction xs arbitrary: n)
    case (Cons x xs)
    then show ?case by (cases n) simp_all
  qed simp
  with assms u show ?thesis
    by (auto simp: ptrs_rel_def dbuffer_contents_take dbuffer_wf_usage)
qed

lemma ptrs_rel_clear: "ptrs_rel k addr xs db \<Longrightarrow> ptrs_rel k addr [] (dbuffer_clear db)"
  using ptrs_rel_take [of k addr xs db 0] by (simp add: dbuffer_clear_def)

lemma ptrs_rel_pop:
  assumes rel: "ptrs_rel k addr (xs @ [x]) db"
  shows "ptrs_rel k addr xs (dbuffer_popPtr db)"
proof -
  have u: "usage db = 8 * length xs + 8" using ptrs_rel_usage [OF rel] by simp
  have "usage db < 2 ^ 64"
    using rel dbuffer_wfD(2,4) [of db] by (simp add: ptrs_rel_def)
  with u have "sub64 (usage db) 8 = 8 * length xs" by simp
  with ptrs_rel_take [OF rel, of "length xs"] show ?thesis by (simp add: dbuffer_popPtr_def)
qed

lemma dbuffer_cells: "dbuffer_wf db \<Longrightarrow> take (usage db) (buffer db) = map Some (dbuffer_contents db)"
  using map_Some_the [OF dbuffer_wfD(5)] by (simp only: dbuffer_contents_def)

lemma ptrs_rel_last:
  assumes rel: "ptrs_rel k addr (xs @ [x]) db"
  shows "dbuffer_getLastPtr db = Inr (addr x)"
proof -
  from rel have wf: "dbuffer_wf db" by (simp add: ptrs_rel_def)
  have u: "usage db = 8 * length xs + 8" using ptrs_rel_usage [OF rel] by simp
  have small: "usage db < 2 ^ 64" using dbuffer_wfD(2,4) [OF wf] by simp
  have i: "mul64 8 (sub64 (usage db div 8) 1) = 8 * length xs"
    using u small by simp
  have "take 8 (drop (8 * length xs) (buffer db)) = drop (8 * length xs) (take (usage db) (buffer db))"
    by (simp add: u take_drop add.commute)
  also have "\<dots> = map Some (le_bytes 8 (addr x))"
    using rel length_concat_ptr_bytes [of addr xs]
    by (simp add: dbuffer_cells [OF wf] ptrs_rel_def)
  finally have cells: "take 8 (drop (8 * length xs) (buffer db)) = map Some (le_bytes 8 (addr x))" .
  have "map the (map Some (le_bytes 8 (addr x))) = le_bytes 8 (addr x)" by (simp add: comp_def)
  then show ?thesis
    unfolding dbuffer_getLastPtr_def Let_def i cells
    by (simp add: bytes_word_le_bytes_full del: map_map)
qed

section \<open>Properties\<close>

text \<open>
  C11: A push of \<open>ds\<close> on a well-formed buffer writes outside the allocated block exactly when the
  buffer has outgrown its initial capacity and \<open>ds\<close> does not fit into the block it has; in every
  other case it appends \<open>ds\<close> to the contents, keeps the buffer well-formed and leaves
  \<open>capacity\<close> as it was.
\<close>
theorem dbuffer_pushData_safe_iff:
  assumes "dbuffer_wf db" and "length ds < 2 ^ 60"
  shows "(dbuffer_pushData db ds = Inl OutOfBounds \<longleftrightarrow>
            capacity db < usage db \<and> length (buffer db) < usage db + length ds) \<and>
         (capacity db < usage db \<and> length (buffer db) < usage db + length ds \<or>
          (\<exists>db'. dbuffer_pushData db ds = Inr db' \<and> dbuffer_wf db' \<and>
             dbuffer_contents db' = dbuffer_contents db @ ds \<and> capacity db' = capacity db))"
proof (cases "push_ok db (length ds)")
  case True
  have lim: "length ds < push_limit" using assms(2) by simp
  from dbuffer_pushData_ok [OF assms(1) lim True] obtain db' where
    "dbuffer_pushData db ds = Inr db'" "dbuffer_wf db'"
    "dbuffer_contents db' = dbuffer_contents db @ ds" "capacity db' = capacity db" by blast
  moreover from True have "\<not> (capacity db < usage db \<and> length (buffer db) < usage db + length ds)"
    by (auto simp: push_ok_def)
  ultimately show ?thesis by simp
next
  case False
  have lim: "length ds < push_limit" using assms(2) by simp
  from dbuffer_pushData_fault [OF assms(1) lim False] False show ?thesis
    by (simp add: push_ok_def not_le)
qed

theorem dbuffer_pushData_safe_iff_witness:
  "dbuffer_wf (dbuffer_initSize 4) \<and>
   (\<exists>db'. dbuffer_pushData (dbuffer_initSize 4) [1, 2, 3, 4, 5] = Inr db' \<and>
      dbuffer_contents db' = [1, 2, 3, 4, 5] \<and> capacity db' = 4)"
proof -
  have wf: "dbuffer_wf (dbuffer_initSize 4)" by (rule dbuffer_initSize_wf) simp
  have len: "length [1, 2, 3, 4, 5 :: byte] < 2 ^ 60" by simp
  from dbuffer_pushData_safe_iff [OF wf len] wf show ?thesis
    by (auto simp: dbuffer_initSize_def dbuffer_contents_def)
qed

fun push_ptrs :: "dbuffer \<Rightarrow> 64 word list \<Rightarrow> dbuffer res" where
  "push_ptrs db [] = Inr db"
| "push_ptrs db (p # ps) = bindE (dbuffer_pushPtr db p) (\<lambda>db. push_ptrs db ps)"

lemma push_ptrs_append: "push_ptrs db (ps @ qs) = bindE (push_ptrs db ps) (\<lambda>db. push_ptrs db qs)"
  by (induction ps arbitrary: db) (simp_all add: bindE_assoc)

lemma push_ptrs_rel:
  assumes "ptrs_rel k id xs db" and "length xs + length ps \<le> 2 * k"
  shows "\<exists>db'. push_ptrs db ps = Inr db' \<and> ptrs_rel k id (xs @ ps) db'"
  using assms
proof (induction ps arbitrary: xs db)
  case Nil
  then show ?case by simp
next
  case (Cons p ps)
  then have "length xs < 2 * k" by simp
  from ptrs_rel_push_ok [OF Cons.prems(1) this, of p] obtain db1 where
    db1: "dbuffer_pushPtr db (id p) = Inr db1" "ptrs_rel k id (xs @ [p]) db1" .
  have "length (xs @ [p]) + length ps \<le> 2 * k" using Cons.prems(2) by simp
  from Cons.IH [OF db1(2) this] db1(1) show ?case by simp
qed

text \<open>
  A pointer list made for \<open>k\<close> pointers (as \<open>parser_parseBlock\<close>, \<open>dominators_compute\<close> and
  \<open>inst_new_phi\<close> make them) takes \<open>2 * k\<close> pointers and no more: pushing a list of pointers writes
  outside the block exactly when there are more than \<open>2 * k\<close> of them, and otherwise stores them
  in order.
\<close>
theorem pointer_list_limit:
  assumes "0 < k" and "k < 2 ^ 56"
  shows "(push_ptrs (dbuffer_initSize (8 * k)) ps = Inl OutOfBounds \<longleftrightarrow> 2 * k < length ps) \<and>
    (length ps \<le> 2 * k \<longrightarrow>
       (\<exists>db. push_ptrs (dbuffer_initSize (8 * k)) ps = Inr db \<and>
          dbuffer_contents db = concat (map (le_bytes 8) ps)))"
proof (cases "length ps \<le> 2 * k")
  case True
  with push_ptrs_rel [OF ptrs_rel_init [OF assms], of ps] obtain db where
    "push_ptrs (dbuffer_initSize (8 * k)) ps = Inr db" "ptrs_rel k id ps db" by auto
  with True show ?thesis by (auto simp: ptrs_rel_def)
next
  case False
  let ?qs = "take (2 * k) ps"
  from push_ptrs_rel [OF ptrs_rel_init [OF assms], of ?qs] obtain db where
    db: "push_ptrs (dbuffer_initSize (8 * k)) ?qs = Inr db" "ptrs_rel k id ?qs db" by auto
  from False obtain p rs where ps: "drop (2 * k) ps = p # rs"
    by (metis drop_eq_Nil neq_Nil_conv)
  have "push_ptrs (dbuffer_initSize (8 * k)) (?qs @ p # rs) = Inl OutOfBounds"
    using db ptrs_rel_push_fault [OF db(2)] False by (simp add: push_ptrs_append)
  moreover have "?qs @ p # rs = ps" by (metis append_take_drop_id ps)
  ultimately show ?thesis using False by simp
qed

theorem pointer_list_limit_witness:
  "push_ptrs (dbuffer_initSize (8 * 8)) (replicate 17 0) = Inl OutOfBounds"
  using pointer_list_limit [of 8 "replicate 17 0"] by simp

text \<open>
  C28: The pointer lists of the compiler (the statements of a block, the value stacks, the
  worklists) are simulated by the bytes of the buffer: push, pop, read-last and clear on the bytes
  agree with push, pop, last and clear on the abstract list, including the push that faults
  because the list is full.
\<close>
theorem pointer_list_refinement:
  assumes "ptrs_rel k addr xs db"
  shows "(case ptrs_push k xs x of
            Inl e \<Rightarrow> dbuffer_pushPtr db (addr x) = Inl e
          | Inr ys \<Rightarrow> \<exists>db'. dbuffer_pushPtr db (addr x) = Inr db' \<and> ptrs_rel k addr ys db' \<and>
               dbuffer_getLastPtr db' = Inr (addr x) \<and> ptrs_rel k addr xs (dbuffer_popPtr db')) \<and>
         ptrs_rel k addr [] (dbuffer_clear db) \<and> dbuffer_asPtrCount db = length xs"
proof (cases "length xs < 2 * k")
  case True
  from ptrs_rel_push_ok [OF assms True, of x] obtain db' where
    db': "dbuffer_pushPtr db (addr x) = Inr db'" "ptrs_rel k addr (xs @ [x]) db'" .
  with True show ?thesis
    using ptrs_rel_last [OF db'(2)] ptrs_rel_pop [OF db'(2)] ptrs_rel_clear [OF assms]
      ptrs_rel_usage [OF assms]
    by (simp add: ptrs_push_def dbuffer_asPtrCount_def)
next
  case False
  then show ?thesis
    using ptrs_rel_push_fault [OF assms] ptrs_rel_clear [OF assms] ptrs_rel_usage [OF assms]
    by (simp add: ptrs_push_def dbuffer_asPtrCount_def)
qed

theorem pointer_list_refinement_witness:
  "\<exists>db'. dbuffer_pushPtr (dbuffer_initSize 8) 42 = Inr db' \<and> dbuffer_getLastPtr db' = Inr 42"
  using pointer_list_refinement [OF ptrs_rel_init [of 1 id], of 42]
  by (auto simp: ptrs_push_def)

text \<open>
  \<open>dbuffer_removeRange\<close> takes exactly the named range out of the contents when the range lies
  inside them; for a range that starts inside and ends behind them, which its assertions let
  pass, the length given to \<open>memmove\<close> wraps around and the move leaves the block.
\<close>
theorem dbuffer_removeRange_correct:
  assumes wf: "dbuffer_wf db" and off: "off < usage db" and sz: "sz \<le> usage db"
  shows "(off + sz \<le> usage db \<longrightarrow>
            (\<exists>db'. dbuffer_removeRange db off sz = Inr db' \<and> dbuffer_wf db' \<and>
               dbuffer_contents db' = take off (dbuffer_contents db) @ drop (off + sz) (dbuffer_contents db))) \<and>
         (usage db < off + sz \<longrightarrow> dbuffer_removeRange db off sz = Inl OutOfBounds)"
proof -
  note w = dbuffer_wfD [OF wf]
  have small: "usage db < 2 ^ 62" using w by linarith
  have e: "add64 off sz = off + sz" using off sz small by simp
  show ?thesis
  proof (cases "off + sz \<le> usage db")
    case True
    have n: "sub64 (usage db) (off + sz) = usage db - (off + sz)"
      and n': "sub64 (usage db) sz = usage db - sz" using True small sz by simp_all
    let ?m = "take (usage db - (off + sz)) (drop (off + sz) (buffer db))"
    let ?b = "take off (buffer db) @ ?m @ drop (off + length ?m) (buffer db)"
    let ?db' = "db\<lparr>buffer := ?b, usage := usage db - sz\<rparr>"
    have ret: "dbuffer_removeRange db off sz = Inr ?db'"
      using off sz True w by (simp add: dbuffer_removeRange_def e n n' Let_def mem_write_ok)
    have used: "take (usage db - sz) ?b = take off (buffer db) @ ?m"
      using True w off sz by (simp add: add.commute)
    also have "\<dots> = take off (take (usage db) (buffer db)) @ drop (off + sz) (take (usage db) (buffer db))"
      using off by (simp add: drop_take)
    also have "\<dots> = map Some (take off (dbuffer_contents db) @ drop (off + sz) (dbuffer_contents db))"
      by (simp add: dbuffer_cells [OF wf] take_map drop_map)
    finally have cells: "take (usage db - sz) ?b =
        map Some (take off (dbuffer_contents db) @ drop (off + sz) (dbuffer_contents db))" .
    have "dbuffer_contents ?db' = take off (dbuffer_contents db) @ drop (off + sz) (dbuffer_contents db)"
      using cells by (simp only: dbuffer_contents_def dbuffer.simps) (simp add: comp_def)
    moreover have "dbuffer_wf ?db'"
    proof (rule dbuffer_wfI)
      have "take (usage ?db') (buffer ?db') = take (usage db - sz) ?b" by simp
      then show "None \<notin> set (take (usage ?db') (buffer ?db'))"
        unfolding cells by auto
    qed (use w True in auto)
    ultimately show ?thesis using ret True by auto
  next
    case False
    then have n: "sub64 (usage db) (off + sz) = 2 ^ 64 - (off + sz - usage db)"
      using off sz small by (intro sub64_wrap) simp_all
    have "length (buffer db) < off + sz + sub64 (usage db) (off + sz)"
      using n w off sz small by simp
    with False off sz show ?thesis
      by (simp add: dbuffer_removeRange_def e Let_def)
  qed
qed

theorem dbuffer_removeRange_correct_witness:
  "\<exists>db db'. dbuffer_pushData (dbuffer_initSize 8) [1, 2, 3] = Inr db \<and>
     dbuffer_removeRange db 1 1 = Inr db' \<and> dbuffer_contents db' = [1, 3]"
proof -
  have wf: "dbuffer_wf (dbuffer_initSize 8)" by (rule dbuffer_initSize_wf) simp
  have u: "usage (dbuffer_initSize 8) = 0" by (simp add: dbuffer_initSize_def)
  have ok: "push_ok (dbuffer_initSize 8) (length [1, 2, 3 :: byte])"
    by (simp add: push_ok_def u)
  have lim: "length [1, 2, 3 :: byte] < push_limit" by simp
  from dbuffer_pushData_ok [OF wf lim ok] obtain db where
    db: "dbuffer_pushData (dbuffer_initSize 8) [1, 2, 3] = Inr db" "dbuffer_wf db"
      "dbuffer_contents db = [1, 2, 3]" "usage db = 3"
    unfolding u dbuffer_initSize_contents by (metis append_Nil add_0 length_Cons list.size(3) numeral_3_eq_3)
  have at: "1 < usage db" "1 \<le> usage db" by (simp_all add: db)
  from dbuffer_removeRange_correct [OF db(2) at] obtain db' where
    "dbuffer_removeRange db 1 1 = Inr db'" "dbuffer_contents db' = [1, 3]"
    by (auto simp: db)
  with db(1) show ?thesis by blast
qed

lemma length_decimal: "n < 10 ^ k \<Longrightarrow> 0 < k \<Longrightarrow> length (decimal n) \<le> k"
proof (induction n arbitrary: k rule: decimal.induct)
  case (1 n)
  show ?case
  proof (cases "n < 10")
    case True
    with "1.prems" show ?thesis by (simp add: decimal.simps [of n])
  next
    case False
    then obtain j where k: "k = Suc (Suc j)"
      using "1.prems" by (cases k; cases "k - 1") auto
    with "1.prems" have "n div 10 < 10 ^ Suc j" by simp
    with "1.IH" [OF False, of "Suc j"] False k show ?thesis
      by (simp add: decimal.simps [of n])
  qed
qed

lemma range_deref_view: "range_view r = c # cs \<Longrightarrow> range_deref r = Inr c"
  by (cases "rmem r") (auto simp: range_view_def range_deref_def take_Cons split: nat.splits)

lemma range_parseInt_view:
  assumes "range_view r = c # cs"
  shows "range_parseInt r =
     bindE (if c = CHR ''-'' then parse_loop (- 1) 0 cs
            else if c = CHR ''+'' then parse_loop 1 0 cs
            else parse_loop 1 0 (c # cs)) (\<lambda>result.
     bindE (longE (if c = CHR ''-'' then - result else result)) (\<lambda>v. Inr (int_cast v)))"
proof -
  have sz: "rsize r \<noteq> 0" using assms by (cases "rsize r") (auto simp: range_view_def)
  obtain r' where r': "range_skip r 1 = Inr r'" using sz by (simp add: range_skip_def)
  have v': "range_view r' = cs" using range_skip_view [OF r'] assms by simp
  show ?thesis
    using sz range_deref_view [OF assms] r' v' assms by (simp add: range_parseInt_def)
qed

lemma int_cast_id: "- (2 ^ 31) \<le> i \<Longrightarrow> i < 2 ^ 31 \<Longrightarrow> int_cast i = i"
  by (simp add: int_cast_def)

lemma parse_decimal:
  assumes "sign = 1 \<and> B = INT_MAX \<or> sign = - 1 \<and> B = INT_MAX + 1" and "int n \<le> B"
  shows "parse_loop sign 0 (map byte_char (decimal_bytes n)) = Inr (int n)"
  using parse_loop_digits [of 0 "decimal n" B sign] assms decimal_digits
  by (auto simp: decimal_bytes_def digits_value_decimal)

text \<open>
  The decimal text that \<open>dbuffer_pushIntStr\<close> appends to an empty buffer parses back to the
  number with \<open>range_parseInt\<close>, for every \<open>int\<close> but \<open>INT_MIN\<close>, whose negation overflows.
\<close>
theorem int_text_roundtrip:
  assumes "sint w \<noteq> - (2 ^ 31)"
  shows "\<exists>db. dbuffer_pushIntStr dbuffer_init w = Inr db \<and>
     range_parseInt (dbuffer_asRange db) = Inr (sint w)"
proof -
  let ?i = "sint w" and ?t = "int_text (sint w)"
  have i: "- (2 ^ 31) < ?i" "?i < 2 ^ 31"
    using assms sint_range_size [of w] by (simp_all add: word_size)
  then have "nat \<bar>?i\<bar> < 10 ^ 10" by simp
  from length_decimal [OF this] have "length ?t \<le> 11"
    by (cases "?i < 0") (simp_all add: int_text_def decimal_bytes_def)
  moreover have "dbuffer_room dbuffer_init 11"
    by (simp add: dbuffer_room_def dbuffer_init_def dbuffer_initSize_def DBUFFER_INIT_def)
  ultimately obtain db where db: "dbuffer_pushIntStr dbuffer_init w = Inr db" "dbuffer_wf db"
    "dbuffer_contents db = ?t"
    using sink.emits_total [OF emits_pushIntStr [OF assms] dbuffer_init_wf]
    by (auto simp: dbuffer_init_def)
  have view: "range_view (dbuffer_asRange db) = map byte_char ?t"
    using dbuffer_asRange_view [OF db(2)] db(3) by simp
  have "range_parseInt (dbuffer_asRange db) = Inr ?i"
  proof (cases "?i < 0")
    case True
    then have v: "range_view (dbuffer_asRange db) =
        CHR ''-'' # map byte_char (decimal_bytes (nat \<bar>?i\<bar>))"
      using byte_char_of_char [of "CHR ''-''"] by (simp add: view int_text_def)
    have "parse_loop (- 1) 0 (map byte_char (decimal_bytes (nat \<bar>?i\<bar>))) = Inr \<bar>?i\<bar>"
      using parse_decimal [of "- 1" "INT_MAX + 1" "nat \<bar>?i\<bar>"] i by (simp add: INT_MAX_def)
    moreover have "longE ?i = Inr ?i" using i by (simp add: longE_def)
    ultimately show ?thesis
      using True i by (simp add: range_parseInt_view [OF v] int_cast_id)
  next
    case False
    from decimal_hd_digit obtain d ds where d: "decimal (nat ?i) = d # ds" "d < 10" by blast
    then have v: "range_view (dbuffer_asRange db) =
        byte_char (digit_byte d) # map (byte_char \<circ> digit_byte) ds"
      using False by (simp add: view int_text_def decimal_bytes_def)
    have "parse_loop 1 0 (byte_char (digit_byte d) # map (byte_char \<circ> digit_byte) ds) = Inr ?i"
      using parse_decimal [of 1 INT_MAX "nat ?i"] i False
      by (simp add: INT_MAX_def decimal_bytes_def d del: parse_loop.simps)
    moreover have "longE ?i = Inr ?i" using i by (simp add: longE_def)
    ultimately show ?thesis
      using byte_char_digit_not_sign [OF d(2)] i
      by (simp add: range_parseInt_view [OF v] int_cast_id del: parse_loop.simps)
  qed
  with db(1) show ?thesis by blast
qed

theorem int_text_roundtrip_witness:
  "\<exists>db. dbuffer_pushIntStr dbuffer_init (- 305) = Inr db \<and>
     range_parseInt (dbuffer_asRange db) = Inr (- 305)"
  using int_text_roundtrip [of "- 305"] by simp


text \<open>
  \<open>dbuffer_pushUIntHexStr\<close> appends the decimal text of its argument, not the hexadecimal one:
  it is the same function as \<open>dbuffer_pushUIntStr\<close>.
\<close>
theorem dbuffer_pushUIntHexStr_decimal:
  "dbuffer_pushUIntHexStr db w = dbuffer_pushUIntStr db w"
  by (simp add: dbuffer_pushUIntHexStr_def dbuffer_pushUIntStr_def push_hex_digits_eq)

end
