(* ===== verification/Lexer.thy ===== *)
theory Lexer
  imports Buffer
begin

text \<open>
  The tokenizer of \<open>parser.c\<close>: a reader over a text range that keeps track of the position, and
  \<open>token_next\<close>, which skips white space and reads one token.
\<close>

section \<open>Tokens and readers\<close>

datatype token_type =
    TK_EEOF | TK_ERROR | TK_ID | TK_KW_WHILE | TK_KW_IF | TK_KW_ELSE | TK_KW_VOID | TK_KW_INT64
  | TK_KW_RETURN | TK_PLUS | TK_MINUS | TK_STRING | TK_MUL | TK_DIV | TK_NUMBER | TK_ASSIGN
  | TK_EQUALS | TK_GREATER | TK_LESS_THAN | TK_LESS_EQ | TK_GREATER_EQ | TK_CURLY_OPEN
  | TK_CURLY_CLOSE | TK_PARAN_OPEN | TK_PARAN_CLOSE | TK_SEMI_COLON

record token =
  ttype :: token_type
  tpos :: position_t
  trange :: range_t

record reader =
  rpos :: position_t
  rrange :: range_t

text \<open>\<open>(struct token){}\<close> and partial initialisers leave the other fields zero.\<close>

definition zero_position :: position_t where
  "zero_position = \<lparr>line = 0, col = 0, offset = 0\<rparr>"

definition zero_range :: range_t where
  "zero_range = \<lparr>rmem = [], rsize = 0\<rparr>"

section \<open>Reading\<close>

text \<open>The flag is the return value: true at the end of the text.\<close>

fun reader_advance :: "reader \<Rightarrow> nat \<Rightarrow> (reader \<times> bool) res" where
  "reader_advance r 0 = Inr (r, False)"
| "reader_advance r (Suc i) =
     (if rsize (rrange r) = 0 then Inr (r, True)
      else bindE (range_deref (rrange r)) (\<lambda>c.
        bindE (range_skip (rrange r) 1) (\<lambda>rg.
          reader_advance (r\<lparr>rpos := position_ingest (rpos r) c, rrange := rg\<rparr>) i)))"

definition char_between :: "char \<Rightarrow> char \<Rightarrow> char \<Rightarrow> bool" where
  "char_between lo hi c \<longleftrightarrow> schar lo \<le> schar c \<and> schar c \<le> schar hi"

definition ident_char :: "char \<Rightarrow> bool" where
  "ident_char c \<longleftrightarrow> char_between CHR ''a'' CHR ''z'' c \<or> char_between CHR ''A'' CHR ''Z'' c
     \<or> char_between CHR ''0'' CHR ''9'' c"

definition digit_char :: "char \<Rightarrow> bool" where
  "digit_char c \<longleftrightarrow> \<not> (schar c < schar CHR ''0'' \<or> schar c > schar CHR ''9'')"

definition white_char :: "char \<Rightarrow> bool" where
  "white_char c \<longleftrightarrow> c = CHR 0x09 \<or> c = CHR 0x0A \<or> c = CHR '' '' \<or> c = CHR 0x0D"

lemma range_skip_shrinks:
  "range_skip rg (Suc 0) = Inr rg' \<Longrightarrow> 0 < rsize rg \<Longrightarrow> rsize rg' < rsize rg"
  by (auto simp: range_skip_def assertE_Inr_iff)

text \<open>The three loops read while the next character is in a class; two of them count.\<close>

function read_id_loop :: "reader \<Rightarrow> token \<Rightarrow> (reader \<times> token) res" where
  "read_id_loop r t =
     (if 0 < rsize (rrange r) then
        bindE (range_deref (rrange r)) (\<lambda>c.
          if \<not> ident_char c then Inr (r, t)
          else bindE (reader_advance r 1) (\<lambda>(r, e).
            read_id_loop r (t\<lparr>trange := (trange t)\<lparr>rsize := add64 (rsize (trange t)) 1\<rparr>\<rparr>)))
      else Inr (r, t))"
  by pat_completeness auto
termination
  by (relation "measure (\<lambda>(r, t). rsize (rrange r))") (auto dest: range_skip_shrinks)

function read_num_loop :: "reader \<Rightarrow> token \<Rightarrow> (reader \<times> token) res" where
  "read_num_loop r t =
     (if 0 < rsize (rrange r) then
        bindE (range_deref (rrange r)) (\<lambda>c.
          if schar c < schar CHR ''0'' \<or> schar c > schar CHR ''9'' then Inr (r, t)
          else bindE (reader_advance r 1) (\<lambda>(r, e).
            read_num_loop r (t\<lparr>trange := (trange t)\<lparr>rsize := add64 (rsize (trange t)) 1\<rparr>\<rparr>)))
      else Inr (r, t))"
  by pat_completeness auto
termination
  by (relation "measure (\<lambda>(r, t). rsize (rrange r))") (auto dest: range_skip_shrinks)

function reader_skipWhite :: "reader \<Rightarrow> reader res" where
  "reader_skipWhite r =
     (if 0 < rsize (rrange r) then
        bindE (range_deref (rrange r)) (\<lambda>c.
          if c \<noteq> CHR 0x09 \<and> c \<noteq> CHR 0x0A \<and> c \<noteq> CHR '' '' \<and> c \<noteq> CHR 0x0D then Inr r
          else bindE (reader_advance r 1) (\<lambda>(r, e). reader_skipWhite r))
      else Inr r)"
  by pat_completeness auto
termination
  by (relation "measure (\<lambda>r. rsize (rrange r))") (auto dest: range_skip_shrinks)

declare reader_advance.simps [simp del] read_id_loop.simps [simp del] read_num_loop.simps [simp del] reader_skipWhite.simps [simp del]

definition keyword_type :: "range_t \<Rightarrow> token_type" where
  "keyword_type rg =
     (if range_cmp rg (RANGE_STRING ''while'') then TK_KW_WHILE
      else if range_cmp rg (RANGE_STRING ''if'') then TK_KW_IF
      else if range_cmp rg (RANGE_STRING ''else'') then TK_KW_ELSE
      else if range_cmp rg (RANGE_STRING ''void'') then TK_KW_VOID
      else if range_cmp rg (RANGE_STRING ''int64'') then TK_KW_INT64
      else if range_cmp rg (RANGE_STRING ''return'') then TK_KW_RETURN
      else TK_ID)"

definition read_id :: "reader \<Rightarrow> token \<Rightarrow> (reader \<times> token) res" where
  "read_id r t =
     bindE (read_id_loop r (t\<lparr>trange := (trange t)\<lparr>rsize := 0\<rparr>\<rparr>)) (\<lambda>(r, t).
       Inr (r, t\<lparr>ttype := keyword_type (trange t)\<rparr>))"

definition read_num :: "reader \<Rightarrow> token \<Rightarrow> (reader \<times> token) res" where
  "read_num r t =
     read_num_loop r (t\<lparr>ttype := TK_NUMBER, trange := (trange t)\<lparr>rsize := 0\<rparr>\<rparr>)"

definition reader_isEq :: "reader \<Rightarrow> token \<Rightarrow> (bool \<times> reader \<times> token) res" where
  "reader_isEq r t =
     (if rsize (rrange r) = 0 then Inr (False, r, t)
      else bindE (range_deref (rrange r)) (\<lambda>c.
        if c = CHR ''='' then
          bindE (reader_advance r 1) (\<lambda>(r, e).
            Inr (True, r, t\<lparr>trange := (trange t)\<lparr>rsize := 2\<rparr>\<rparr>))
        else Inr (False, r, t)))"

text \<open>A one-character token: set the type, then advance.\<close>

definition one_char :: "token_type \<Rightarrow> reader \<Rightarrow> token \<Rightarrow> (reader \<times> token) res" where
  "one_char ty r t = bindE (reader_advance r 1) (\<lambda>(r, e). Inr (r, t\<lparr>ttype := ty\<rparr>))"

text \<open>The case of \<open>'<'\<close>, which is also where the case of \<open>'>'\<close> falls through to.\<close>

definition less_case :: "reader \<Rightarrow> token \<Rightarrow> (reader \<times> token) res" where
  "less_case r t =
     (let t = t\<lparr>ttype := TK_LESS_THAN\<rparr> in
      bindE (reader_isEq r t) (\<lambda>(eq, r, t).
        Inr (r, if eq then t\<lparr>ttype := TK_LESS_EQ\<rparr> else t)))"

definition greater_case :: "reader \<Rightarrow> token \<Rightarrow> (reader \<times> token) res" where
  "greater_case r t =
     (let t = t\<lparr>ttype := TK_GREATER\<rparr> in
      bindE (reader_isEq r t) (\<lambda>(eq, r, t).
      let t = (if eq then t\<lparr>ttype := TK_GREATER_EQ\<rparr> else t) in
      bindE (reader_advance r 1) (\<lambda>(r, e).
        less_case r t)))"

definition assign_case :: "reader \<Rightarrow> token \<Rightarrow> (reader \<times> token) res" where
  "assign_case r t =
     (let t = t\<lparr>ttype := TK_ASSIGN\<rparr> in
      bindE (reader_advance r 1) (\<lambda>(r, e).
      bindE (reader_isEq r t) (\<lambda>(eq, r, t).
        Inr (r, if eq then t\<lparr>ttype := TK_EQUALS\<rparr> else t))))"

definition token_next :: "reader \<Rightarrow> (reader \<times> token) res" where
  "token_next r =
     bindE (reader_skipWhite r) (\<lambda>r.
     let t = \<lparr>ttype = TK_ERROR, tpos = rpos r, trange = zero_range\<rparr> in
     if rsize (rrange r) = 0 then Inr (r, t\<lparr>ttype := TK_EEOF\<rparr>)
     else
       let t = t\<lparr>trange := (rrange r)\<lparr>rsize := 1\<rparr>\<rparr> in
       bindE (range_deref (rrange r)) (\<lambda>c.
         if c = CHR ''{'' then one_char TK_CURLY_OPEN r t
         else if c = CHR ''}'' then one_char TK_CURLY_CLOSE r t
         else if c = CHR ''('' then one_char TK_PARAN_OPEN r t
         else if c = CHR '')'' then one_char TK_PARAN_CLOSE r t
         else if c = CHR ''+'' then one_char TK_PLUS r t
         else if c = CHR ''-'' then one_char TK_MINUS r t
         else if c = CHR ''*'' then one_char TK_MUL r t
         else if c = CHR ''/'' then one_char TK_DIV r t
         else if c = CHR ''='' then assign_case r t
         else if c = CHR ''>'' then greater_case r t
         else if c = CHR ''<'' then less_case r t
         else if c = CHR '';'' then one_char TK_SEMI_COLON r t
         else if char_between CHR ''a'' CHR ''z'' c \<or> char_between CHR ''A'' CHR ''Z'' c then read_id r t
         else if char_between CHR ''0'' CHR ''9'' c then read_num r t
         else Inr (r, t)))"

text \<open>
  \<open>token_dumpAll\<close> prints every token up to the first end or error token; the model returns the
  tokens in place of the printing, and stops after \<open>fuel\<close> tokens.
\<close>

fun token_loop :: "nat \<Rightarrow> reader \<Rightarrow> token list res" where
  "token_loop 0 r = Inl OutOfFuel"
| "token_loop (Suc fuel) r =
     bindE (token_next r) (\<lambda>(r, t).
       if ttype t \<noteq> TK_ERROR \<and> ttype t \<noteq> TK_EEOF
       then bindE (token_loop fuel r) (\<lambda>ts. Inr (t # ts))
       else Inr [t])"

definition token_dumpAll :: "nat \<Rightarrow> string \<Rightarrow> token list res" where
  "token_dumpAll fuel s =
     bindE (range_fromString s) (\<lambda>rg. token_loop fuel \<lparr>rpos = zero_position, rrange = rg\<rparr>)"

section \<open>What the loops do\<close>

definition reader_wf :: "reader \<Rightarrow> bool" where
  "reader_wf r \<longleftrightarrow> range_wf (rrange r) \<and> rsize (rrange r) < 2 ^ 64"

abbreviation rview :: "reader \<Rightarrow> string" where
  "rview r \<equiv> range_view (rrange r)"

text \<open>The reader after \<open>n\<close> more characters.\<close>

definition adv :: "nat \<Rightarrow> reader \<Rightarrow> reader" where
  "adv n r = \<lparr>rpos = foldl position_ingest (rpos r) (take n (rview r)),
     rrange = \<lparr>rmem = drop n (rmem (rrange r)), rsize = rsize (rrange r) - n\<rparr>\<rparr>"

lemma length_rview: "reader_wf r \<Longrightarrow> length (rview r) = rsize (rrange r)"
  by (simp add: reader_wf_def range_wf_def range_view_def)

lemma rview_adv [simp]: "rview (adv n r) = drop n (rview r)"
  by (simp add: adv_def range_view_def drop_take)

lemma reader_wf_adv [simp]: "reader_wf r \<Longrightarrow> reader_wf (adv n r)"
  by (auto simp: reader_wf_def range_wf_def adv_def)

lemma adv_0 [simp]: "adv 0 r = r"
  by (simp add: adv_def)

lemma adv_adv: "adv m (adv n r) = adv (n + m) r"
proof -
  have "foldl position_ingest (foldl position_ingest (rpos r) (take n (rview r))) (take m (drop n (rview r)))
      = foldl position_ingest (rpos r) (take (n + m) (rview r))"
    by (simp add: take_add)
  then show ?thesis
    using rview_adv [of n r] by (simp add: adv_def add.commute)
qed

lemma rpos_adv: "rpos (adv n r) = foldl position_ingest (rpos r) (take n (rview r))"
  by (simp add: adv_def)

lemma rsize_pos_view: "reader_wf r \<Longrightarrow> rsize (rrange r) = 0 \<longleftrightarrow> rview r = []"
  using length_rview by force

lemma reader_advance_1: "rview r = c # cs \<Longrightarrow> reader_advance r (Suc 0) = Inr (adv 1 r, False)"
  by (cases "rsize (rrange r)")
    (auto simp: reader_advance.simps range_deref_view range_skip_def adv_def, auto simp: range_view_def)

lemma rsize_view_Cons: "rview r = c # cs \<Longrightarrow> 0 < rsize (rrange r)"
  by (cases "rsize (rrange r)") (auto simp: range_view_def)

lemma rview_length: "reader_wf r \<Longrightarrow> rview r = c # cs \<Longrightarrow> rsize (rrange r) = Suc (length cs)"
  using length_rview by force

lemma reader_skipWhite_eq:
  assumes "reader_wf r"
  shows "reader_skipWhite r = Inr (adv (length (takeWhile white_char (rview r))) r)"
  using assms
proof (induction "rview r" arbitrary: r)
  case Nil
  then show ?case using rsize_pos_view [of r] by (simp add: reader_skipWhite.simps)
next
  case (Cons c cs)
  have v: "rview r = c # cs" using Cons.hyps(2) by simp
  have "rview (adv 1 r) = cs" using v by simp
  with Cons.hyps(1) [of "adv 1 r"] Cons.prems
  have "reader_skipWhite (adv 1 r) = Inr (adv (Suc (length (takeWhile white_char cs))) r)"
    by (simp add: adv_adv)
  then show ?case
    using v rsize_view_Cons [OF v] range_deref_view [OF v] reader_advance_1 [OF v]
    by (subst reader_skipWhite.simps) (auto simp: white_char_def)
qed

text \<open>The counting loops are instances of one scheme.\<close>

lemma count_loop_eq:
  assumes unfold: "\<And>r t. f r t =
     (if 0 < rsize (rrange r) then
        bindE (range_deref (rrange r)) (\<lambda>c.
          if \<not> P c then Inr (r, t)
          else bindE (reader_advance r 1) (\<lambda>(r, e).
            f r (t\<lparr>trange := (trange t)\<lparr>rsize := add64 (rsize (trange t)) 1\<rparr>\<rparr>)))
      else Inr (r, t))"
    and "reader_wf r" and "rsize (trange t) + length (takeWhile P (rview r)) < 2 ^ 64"
  shows "f r t =
    (let n = length (takeWhile P (rview r)) in
     Inr (adv n r, t\<lparr>trange := (trange t)\<lparr>rsize := rsize (trange t) + n\<rparr>\<rparr>))"
  using assms(2,3)
proof (induction "rview r" arbitrary: r t)
  case Nil
  then show ?case using rsize_pos_view [of r] by (simp add: unfold)
next
  case (Cons c cs)
  have v: "rview r = c # cs" using Cons.hyps(2) by simp
  show ?case
  proof (cases "P c")
    case True
    let ?t = "t\<lparr>trange := (trange t)\<lparr>rsize := Suc (rsize (trange t))\<rparr>\<rparr>"
    have "rsize (trange t) + Suc (length (takeWhile P cs)) < 2 ^ 64"
      using Cons.prems(2) v True by simp
    moreover have v1: "rview (adv 1 r) = cs" using v by simp
    ultimately have "f (adv 1 r) ?t =
       Inr (adv (Suc (length (takeWhile P cs))) r,
            t\<lparr>trange := (trange t)\<lparr>rsize := rsize (trange t) + Suc (length (takeWhile P cs))\<rparr>\<rparr>)"
      using Cons.hyps(1) [of "adv 1 r" ?t] Cons.prems(1) v1 by (simp add: adv_adv Let_def)
    then show ?thesis
      using True v rsize_view_Cons [OF v] range_deref_view [OF v] reader_advance_1 [OF v] Cons.prems(2)
      by (subst unfold) (simp add: Let_def)
  next
    case False
    then show ?thesis
      using v rsize_view_Cons [OF v] range_deref_view [OF v]
      by (subst unfold) simp
  qed
qed


lemmas read_id_loop_eq = count_loop_eq [of read_id_loop ident_char, OF read_id_loop.simps]

lemma read_num_loop_eq:
  assumes "reader_wf r" and "rsize (trange t) + length (takeWhile digit_char (rview r)) < 2 ^ 64"
  shows "read_num_loop r t =
    (let n = length (takeWhile digit_char (rview r)) in
     Inr (adv n r, t\<lparr>trange := (trange t)\<lparr>rsize := rsize (trange t) + n\<rparr>\<rparr>))"
  by (rule count_loop_eq [OF _ assms], subst read_num_loop.simps) (simp add: digit_char_def)

section \<open>The tokenizer as a function on text\<close>

text \<open>
  Type, length of the token text, and number of characters consumed, for a text that starts with a
  token. For \<open>'<'\<close> and for unknown characters nothing is consumed; \<open>'>'\<close> gives the type of \<open>'<'\<close>.
\<close>

definition keyword_of :: "string \<Rightarrow> token_type" where
  "keyword_of s =
     (if s = ''while'' then TK_KW_WHILE else if s = ''if'' then TK_KW_IF
      else if s = ''else'' then TK_KW_ELSE else if s = ''void'' then TK_KW_VOID
      else if s = ''int64'' then TK_KW_INT64 else if s = ''return'' then TK_KW_RETURN
      else TK_ID)"

definition letter_char :: "char \<Rightarrow> bool" where
  "letter_char c \<longleftrightarrow> char_between CHR ''a'' CHR ''z'' c \<or> char_between CHR ''A'' CHR ''Z'' c"

definition single_chars :: "(char \<times> token_type) list" where
  "single_chars =
     [(CHR ''{'', TK_CURLY_OPEN), (CHR ''}'', TK_CURLY_CLOSE), (CHR ''('', TK_PARAN_OPEN),
      (CHR '')'', TK_PARAN_CLOSE), (CHR ''+'', TK_PLUS), (CHR ''-'', TK_MINUS),
      (CHR ''*'', TK_MUL), (CHR ''/'', TK_DIV), (CHR '';'', TK_SEMI_COLON)]"

definition eq_next :: "string \<Rightarrow> bool" where
  "eq_next s \<longleftrightarrow> s \<noteq> [] \<and> hd s = CHR ''=''"

fun lex_ref :: "string \<Rightarrow> token_type \<times> nat \<times> nat" where
  "lex_ref [] = (TK_EEOF, 0, 0)"
| "lex_ref (c # cs) =
     (case map_of single_chars c of Some ty \<Rightarrow> (ty, 1, 1)
      | None \<Rightarrow>
        if c = CHR ''='' then (if eq_next cs then (TK_EQUALS, 2, 2) else (TK_ASSIGN, 1, 1))
        else if c = CHR ''>'' then (if eq_next cs then (TK_LESS_EQ, 2, 2) else (TK_LESS_THAN, 1, 1))
        else if c = CHR ''<'' then (TK_LESS_THAN, 1, 0)
        else if letter_char c then
          (let w = takeWhile ident_char (c # cs) in (keyword_of w, length w, length w))
        else if digit_char c then
          (let w = takeWhile digit_char (c # cs) in (TK_NUMBER, length w, length w))
        else (TK_ERROR, 1, 0))"

lemma keyword_type_eq: "range_wf rg \<Longrightarrow> keyword_type rg = keyword_of (range_view rg)"
  by (simp add: keyword_type_def keyword_of_def range_cmp_view)

lemma char_between_digit: "char_between CHR ''0'' CHR ''9'' c = digit_char c"
  by (auto simp: char_between_def digit_char_def)

lemma one_char_eq:
  "rview r = c # cs \<Longrightarrow> one_char ty r t = Inr (adv 1 r, t\<lparr>ttype := ty\<rparr>)"
  by (simp add: one_char_def reader_advance_1)

lemma reader_isEq_eq:
  assumes "reader_wf r"
  shows "reader_isEq r t =
    (if eq_next (rview r) then Inr (True, adv 1 r, t\<lparr>trange := (trange t)\<lparr>rsize := 2\<rparr>\<rparr>)
     else Inr (False, r, t))"
proof (cases "rview r")
  case Nil
  then show ?thesis using rsize_pos_view [OF assms] by (simp add: reader_isEq_def eq_next_def)
next
  case (Cons c cs)
  then show ?thesis using rsize_pos_view [OF assms] range_deref_view [OF Cons] reader_advance_1 [OF Cons]
    by (simp add: reader_isEq_def eq_next_def)
qed

text \<open>The token at the head of the text and the reader behind it.\<close>

definition token_ref :: "reader \<Rightarrow> reader \<times> token" where
  "token_ref r =
     (let (ty, len, n) = lex_ref (rview r) in
      (adv n r, \<lparr>ttype = ty, tpos = rpos r,
         trange = (if rview r = [] then zero_range else (rrange r)\<lparr>rsize := len\<rparr>)\<rparr>))"

lemma takeWhile_id: "reader_wf r \<Longrightarrow> length (takeWhile P (rview r)) < 2 ^ 64"
  using length_takeWhile_le [of P "rview r"] length_rview [of r] by (simp add: reader_wf_def)

lemma read_id_eq:
  assumes "reader_wf r"
  shows "read_id r (t\<lparr>trange := (rrange r)\<lparr>rsize := k\<rparr>\<rparr>) =
    (let w = takeWhile ident_char (rview r) in
     Inr (adv (length w) r, t\<lparr>ttype := keyword_of w, trange := (rrange r)\<lparr>rsize := length w\<rparr>\<rparr>))"
proof -
  let ?w = "takeWhile ident_char (rview r)"
  have l: "length ?w \<le> rsize (rrange r)" using length_takeWhile_le [of ident_char "rview r"] length_rview [OF assms] by simp
  have "range_wf ((rrange r)\<lparr>rsize := length ?w\<rparr>)"
    using assms l by (auto simp: reader_wf_def range_wf_def)
  moreover have "range_view ((rrange r)\<lparr>rsize := length ?w\<rparr>) = ?w"
  proof -
    have "take (length ?w) (take (rsize (rrange r)) (rmem (rrange r))) = ?w"
      by (metis range_view_def takeWhile_eq_take)
    then show ?thesis using l by (simp add: range_view_def min_def)
  qed
  ultimately show ?thesis
    using read_id_loop_eq [OF assms, of "t\<lparr>trange := (rrange r)\<lparr>rsize := 0\<rparr>\<rparr>"] takeWhile_id [OF assms]
    by (simp add: read_id_def Let_def keyword_type_eq)
qed

lemma read_num_eq:
  assumes "reader_wf r"
  shows "read_num r (t\<lparr>trange := (rrange r)\<lparr>rsize := k\<rparr>\<rparr>) =
    (let w = takeWhile digit_char (rview r) in
     Inr (adv (length w) r, t\<lparr>ttype := TK_NUMBER, trange := (rrange r)\<lparr>rsize := length w\<rparr>\<rparr>))"
  using read_num_loop_eq [OF assms, of "t\<lparr>ttype := TK_NUMBER, trange := (rrange r)\<lparr>rsize := 0\<rparr>\<rparr>"]
    takeWhile_id [OF assms]
  by (simp add: read_num_def Let_def)

lemma less_case_eq:
  assumes "reader_wf r"
  shows "less_case r t =
    (if eq_next (rview r)
     then Inr (adv 1 r, t\<lparr>ttype := TK_LESS_EQ, trange := (trange t)\<lparr>rsize := 2\<rparr>\<rparr>)
     else Inr (r, t\<lparr>ttype := TK_LESS_THAN\<rparr>))"
  by (simp add: less_case_def reader_isEq_eq [OF assms])

lemma token_next_eq:
  assumes wf: "reader_wf r"
  shows "token_next r = Inr (token_ref (adv (length (takeWhile white_char (rview r))) r))"
proof -
  define r1 where "r1 = adv (length (takeWhile white_char (rview r))) r"
  have wf1: "reader_wf r1" using wf by (simp add: r1_def)
  show ?thesis
  proof (cases "rview r1")
    case Nil
    then show ?thesis
      using reader_skipWhite_eq [OF wf] rsize_pos_view [OF wf1]
      by (simp add: token_next_def token_ref_def Let_def r1_def [symmetric])
  next
    case (Cons c cs)
    let ?t = "\<lparr>ttype = TK_ERROR, tpos = rpos r1, trange = zero_range\<rparr>"
    have tail: "rview (adv 1 r1) = cs" using Cons by simp
    have wf2: "reader_wf (adv 1 r1)" using wf1 by simp
    note rules = one_char_eq [OF Cons] read_id_eq [OF wf1, where t = ?t] read_num_eq [OF wf1, where t = ?t]
      reader_isEq_eq [OF wf1] reader_isEq_eq [OF wf2] less_case_eq [OF wf1] less_case_eq [OF wf2]
      reader_advance_1 [OF Cons]
    show ?thesis
      using reader_skipWhite_eq [OF wf] rsize_view_Cons [OF Cons] range_deref_view [OF Cons] rules
      by (simp add: token_next_def token_ref_def Let_def r1_def [symmetric] Cons tail single_chars_def
          assign_case_def greater_case_def char_between_digit letter_char_def adv_adv eq_next_def numeral_2_eq_2)
  qed
qed

section \<open>Printing and reading tokens\<close>

text \<open>The texts of the token types the tokenizer can read.\<close>

fun lexeme :: "token_type \<times> string \<Rightarrow> bool" where
  "lexeme (TK_ID, s) \<longleftrightarrow> s \<noteq> [] \<and> letter_char (hd s) \<and> list_all ident_char s \<and> keyword_of s = TK_ID"
| "lexeme (TK_NUMBER, s) \<longleftrightarrow> s \<noteq> [] \<and> list_all digit_char s"
| "lexeme (TK_KW_WHILE, s) \<longleftrightarrow> s = ''while''"
| "lexeme (TK_KW_IF, s) \<longleftrightarrow> s = ''if''"
| "lexeme (TK_KW_ELSE, s) \<longleftrightarrow> s = ''else''"
| "lexeme (TK_KW_VOID, s) \<longleftrightarrow> s = ''void''"
| "lexeme (TK_KW_INT64, s) \<longleftrightarrow> s = ''int64''"
| "lexeme (TK_KW_RETURN, s) \<longleftrightarrow> s = ''return''"
| "lexeme (TK_PLUS, s) \<longleftrightarrow> s = ''+''"
| "lexeme (TK_MINUS, s) \<longleftrightarrow> s = ''-''"
| "lexeme (TK_MUL, s) \<longleftrightarrow> s = ''*''"
| "lexeme (TK_DIV, s) \<longleftrightarrow> s = ''/''"
| "lexeme (TK_ASSIGN, s) \<longleftrightarrow> s = ''=''"
| "lexeme (TK_EQUALS, s) \<longleftrightarrow> s = ''==''"
| "lexeme (TK_CURLY_OPEN, s) \<longleftrightarrow> s = ''{''"
| "lexeme (TK_CURLY_CLOSE, s) \<longleftrightarrow> s = ''}''"
| "lexeme (TK_PARAN_OPEN, s) \<longleftrightarrow> s = ''(''"
| "lexeme (TK_PARAN_CLOSE, s) \<longleftrightarrow> s = '')''"
| "lexeme (TK_SEMI_COLON, s) \<longleftrightarrow> s = '';''"
| "lexeme _ \<longleftrightarrow> False"

definition print_tokens :: "((token_type \<times> string) \<times> string) list \<Rightarrow> string" where
  "print_tokens ts = concat (map (\<lambda>(tk, ws). snd tk @ ws) ts)"

text \<open>White space does not continue a word, a number or an operator.\<close>

definition separated :: "string \<Rightarrow> bool" where
  "separated s \<longleftrightarrow> s = [] \<or> white_char (hd s)"

lemma white_not_ident: "white_char c \<Longrightarrow> \<not> ident_char c" "white_char c \<Longrightarrow> \<not> digit_char c"
  "white_char c \<Longrightarrow> c \<noteq> CHR ''=''"
  by (auto simp: white_char_def ident_char_def digit_char_def char_between_def schar_def)

lemma separated_takeWhile:
  "separated s \<Longrightarrow> list_all ident_char w \<Longrightarrow> takeWhile ident_char (w @ s) = w"
  "separated s \<Longrightarrow> list_all digit_char w \<Longrightarrow> takeWhile digit_char (w @ s) = w"
  by (cases s; auto simp: separated_def list_all_iff white_not_ident takeWhile_eq_Nil_iff)+

lemma separated_not_eq: "separated s \<Longrightarrow> \<not> eq_next s"
  by (auto simp: separated_def eq_next_def white_not_ident)

lemma schar_literals:
  "schar CHR ''a'' = 97" "schar CHR ''z'' = 122" "schar CHR ''A'' = 65" "schar CHR ''Z'' = 90"
  "schar CHR ''0'' = 48" "schar CHR ''9'' = 57"
  by (simp_all add: schar_def)

lemmas char_classes = letter_char_def ident_char_def digit_char_def char_between_def schar_literals

definition special :: "char set" where
  "special = {CHR ''{'', CHR ''}'', CHR ''('', CHR '')'', CHR ''+'', CHR ''-'', CHR ''*'', CHR ''/'', CHR '';'',
     CHR ''='', CHR ''>'', CHR ''<'', CHR 0x09, CHR 0x0A, CHR '' '', CHR 0x0D}"

lemma special_not_letter: "c \<in> special \<Longrightarrow> \<not> ident_char c"
  unfolding special_def
  by (elim insertE emptyE; hypsubst) (simp_all add: char_classes schar_def)

lemma special_chars:
  assumes "ident_char c"
  shows "map_of single_chars c = None" "c \<noteq> CHR ''=''" "c \<noteq> CHR ''>''" "c \<noteq> CHR ''<''" "\<not> white_char c"
proof -
  from assms have "c \<notin> special" using special_not_letter by blast
  then show "map_of single_chars c = None" "c \<noteq> CHR ''=''" "c \<noteq> CHR ''>''" "c \<noteq> CHR ''<''" "\<not> white_char c"
    by (simp_all add: special_def single_chars_def white_char_def)
qed

lemma letter_not_digit: "digit_char c \<Longrightarrow> \<not> letter_char c"
  by (auto simp: char_classes)

lemma digit_ident: "digit_char c \<Longrightarrow> ident_char c"
  by (auto simp: ident_char_def char_between_digit)

lemma letter_ident: "letter_char c \<Longrightarrow> ident_char c"
  by (auto simp: letter_char_def ident_char_def)

lemma lex_ref_word:
  assumes "w \<noteq> []" and "letter_char (hd w)" and "list_all ident_char w" and "separated s"
  shows "lex_ref (w @ s) = (keyword_of w, length w, length w)"
proof -
  obtain c cs where w: "w = c # cs" using assms(1) by (cases w) auto
  have "takeWhile ident_char (c # cs @ s) = w" using separated_takeWhile(1) [OF assms(4,3)] w by simp
  with special_chars [OF letter_ident, of c] assms(2) w show ?thesis
    by (simp add: Let_def del: takeWhile.simps)
qed

lemma lex_ref_number:
  assumes "w \<noteq> []" and "list_all digit_char w" and "separated s"
  shows "lex_ref (w @ s) = (TK_NUMBER, length w, length w)"
proof -
  obtain c cs where w: "w = c # cs" using assms(1) by (cases w) auto
  have "takeWhile digit_char (c # cs @ s) = w" using separated_takeWhile(2) [OF assms(3,2)] w by simp
  with special_chars [OF digit_ident, of c] letter_not_digit [of c] assms(2) w show ?thesis
    by (simp add: Let_def del: takeWhile.simps)
qed

lemma keyword_letters:
  "list_all ident_char ''while''" "list_all ident_char ''if''" "list_all ident_char ''else''"
  "list_all ident_char ''void''" "list_all ident_char ''int64''" "list_all ident_char ''return''"
  "letter_char CHR ''w''" "letter_char CHR ''i''" "letter_char CHR ''e''" "letter_char CHR ''v''"
  "letter_char CHR ''r''"
  by (simp_all add: ident_char_def letter_char_def char_between_def schar_def)

lemma lex_ref_keyword:
  assumes "w \<in> {''while'', ''if'', ''else'', ''void'', ''int64'', ''return''}" and "separated s"
  shows "lex_ref (w @ s) = (keyword_of w, length w, length w)"
  using assms keyword_letters by (intro lex_ref_word) auto

lemma lex_ref_lexeme:
  assumes "lexeme (ty, w)" and "separated s"
  shows "lex_ref (w @ s) = (ty, length w, length w)"
proof -
  let ?keywords = "{''while'', ''if'', ''else'', ''void'', ''int64'', ''return''}"
  consider "ty = TK_ID" | "ty = TK_NUMBER" | "w \<in> ?keywords" "keyword_of w = ty" | "ty \<noteq> TK_ID" "ty \<noteq> TK_NUMBER" "w \<notin> ?keywords"
    using assms(1) by (cases ty) (simp_all add: keyword_of_def)
  then show ?thesis
  proof cases
    case 1
    with assms lex_ref_word show ?thesis by simp
  next
    case 2
    with assms lex_ref_number show ?thesis by simp
  next
    case 3
    with assms(2) lex_ref_keyword show ?thesis by metis
  next
    case 4
    with assms(1) separated_not_eq [OF assms(2)] show ?thesis
      by (cases ty) (simp_all add: single_chars_def eq_next_def)
  qed
qed

lemma lexeme_head:
  assumes "lexeme (ty, w)"
  shows "w \<noteq> []" and "\<not> white_char (hd w)" and "ty \<noteq> TK_ERROR" and "ty \<noteq> TK_EEOF"
proof -
  show "w \<noteq> []" using assms by (cases ty) auto
  show "\<not> white_char (hd w)"
    using assms special_chars(5) [OF letter_ident, of "hd w"] special_chars(5) [OF digit_ident, of "hd w"]
    by (cases ty; cases w; simp; simp add: white_char_def)
  show "ty \<noteq> TK_ERROR" "ty \<noteq> TK_EEOF" using assms by auto
qed

section \<open>Whole texts\<close>

lemma takeWhile_white:
  "list_all white_char ws \<Longrightarrow> s = [] \<or> \<not> white_char (hd s) \<Longrightarrow> takeWhile white_char (ws @ s) = ws"
  by (induction ws) (cases s; simp)+

lemma range_view_sub:
  "k \<le> rsize (rrange r) \<Longrightarrow> range_view ((rrange r)\<lparr>rsize := k\<rparr>) = take k (rview r)"
  by (simp add: range_view_def min_def)

text \<open>One printed token, read back.\<close>

lemma token_next_lexeme:
  assumes wf: "reader_wf r" and v: "rview r = ws @ w @ s" and ws: "list_all white_char ws"
    and w: "lexeme (ty, w)" and s: "separated s"
  shows "\<exists>r' t. token_next r = Inr (r', t) \<and> reader_wf r' \<and> rview r' = s \<and>
    ttype t = ty \<and> range_view (trange t) = w \<and> tpos t = foldl position_ingest (rpos r) ws"
proof -
  let ?r = "adv (length ws) r"
  have "takeWhile white_char (rview r) = ws"
    unfolding v by (rule takeWhile_white [OF ws]) (use lexeme_head(1,2) [OF w] in auto)
  then have next_r: "token_next r = Inr (token_ref ?r)" using token_next_eq [OF wf] by simp
  have v1: "rview ?r = w @ s" using v by simp
  have "length w \<le> length (rview ?r)" unfolding v1 by simp
  also have "\<dots> = rsize (rrange ?r)" using wf by (intro length_rview) simp
  finally have "range_view ((rrange ?r)\<lparr>rsize := length w\<rparr>) = w"
    using v1 by (simp only: range_view_sub) simp
  then have "token_ref ?r = (adv (length w) ?r,
      \<lparr>ttype = ty, tpos = rpos ?r, trange = (rrange ?r)\<lparr>rsize := length w\<rparr>\<rparr>)"
    using lex_ref_lexeme [OF w s] lexeme_head(1) [OF w] v1 by (simp add: token_ref_def)
  with next_r show ?thesis
    using wf v v1 \<open>range_view _ = w\<close> by (simp add: rpos_adv)
qed

lemma token_next_end:
  assumes "reader_wf r" and "list_all white_char (rview r)"
  shows "\<exists>r' t. token_next r = Inr (r', t) \<and> ttype t = TK_EEOF \<and> range_view (trange t) = []"
proof -
  have w: "takeWhile white_char (rview r) = rview r"
    using assms(2) by (simp add: list_all_iff)
  have "token_ref (adv (length (rview r)) r) =
      (adv (length (rview r)) r, \<lparr>ttype = TK_EEOF, tpos = rpos (adv (length (rview r)) r), trange = zero_range\<rparr>)"
    by (simp add: token_ref_def)
  with token_next_eq [OF assms(1)] have "token_next r = Inr (adv (length (rview r)) r,
      \<lparr>ttype = TK_EEOF, tpos = rpos (adv (length (rview r)) r), trange = zero_range\<rparr>)"
    by (simp only: w)
  then show ?thesis by (simp add: zero_range_def range_view_def)
qed

definition tok_text :: "token \<Rightarrow> token_type \<times> string" where
  "tok_text t = (ttype t, range_view (trange t))"

lemma separated_print:
  "list_all white_char ws \<Longrightarrow> ws \<noteq> [] \<Longrightarrow> separated (ws @ s)"
  by (cases ws) (auto simp: separated_def)

lemma token_loop_print:
  assumes "reader_wf r" and "rview r = ws @ print_tokens ts" and "list_all white_char ws"
    and "\<forall>(tk, ws) \<in> set ts. lexeme tk \<and> ws \<noteq> [] \<and> list_all white_char ws" and "length ts < fuel"
  shows "\<exists>toks. token_loop fuel r = Inr toks \<and> map tok_text toks = map fst ts @ [(TK_EEOF, [])]"
  using assms
proof (induction ts arbitrary: r ws fuel)
  case Nil
  then obtain fuel' where "fuel = Suc fuel'" by (cases fuel) auto
  with token_next_end [of r] Nil show ?case by (auto simp: print_tokens_def tok_text_def)
next
  case (Cons tk ts)
  obtain ty w ws' where tk: "tk = ((ty, w), ws')" by (cases tk) auto
  obtain fuel' where fuel: "fuel = Suc fuel'" "length ts < fuel'" using Cons.prems(5) by (cases fuel) auto
  have lex: "lexeme (ty, w)" "ws' \<noteq> []" "list_all white_char ws'" using Cons.prems(4) tk by auto
  have v: "rview r = ws @ w @ (ws' @ print_tokens ts)"
    using Cons.prems(2) by (simp add: tk print_tokens_def)
  from token_next_lexeme [OF Cons.prems(1) v Cons.prems(3) lex(1) separated_print [OF lex(3,2)]]
  obtain r' t where t: "token_next r = Inr (r', t)" "reader_wf r'" "rview r' = ws' @ print_tokens ts"
    "ttype t = ty" "range_view (trange t) = w" by blast
  from Cons.IH [OF t(2,3) lex(3) _ fuel(2)] Cons.prems(4) obtain toks where
    "token_loop fuel' r' = Inr toks" "map tok_text toks = map fst ts @ [(TK_EEOF, [])]" by auto
  moreover have "tok_text t = (ty, w)" using t by (simp add: tok_text_def)
  ultimately show ?case using t lexeme_head(3,4) [OF lex(1)] by (simp add: fuel tk)
qed

text \<open>How much text a token consumes.\<close>

lemma lex_ref_consumes:
  assumes "lex_ref s = (ty, len, n)" and "ty \<noteq> TK_ERROR" and "ty \<noteq> TK_EEOF" and "CHR ''<'' \<notin> set s"
  shows "0 < n \<and> n \<le> length s"
proof (cases s)
  case Nil
  with assms show ?thesis by simp
next
  case (Cons c cs)
  have "length (takeWhile P cs) \<le> length cs" for P by (rule length_takeWhile_le)
  with assms Cons letter_ident [of c] show ?thesis
    by (auto simp: Let_def eq_next_def neq_Nil_conv split: option.splits if_splits)
qed

lemma token_loop_enough_fuel:
  assumes "reader_wf r" and "CHR ''<'' \<notin> set (rview r)" and "length (rview r) < fuel"
  shows "\<exists>toks. token_loop fuel r = Inr toks"
  using assms
proof (induction fuel arbitrary: r)
  case (Suc fuel)
  let ?r = "adv (length (takeWhile white_char (rview r))) r"
  obtain ty len n where l: "lex_ref (rview ?r) = (ty, len, n)" by (cases "lex_ref (rview ?r)") auto
  let ?t = "snd (token_ref ?r)"
  have t: "token_next r = Inr (adv n ?r, ?t)" "ttype ?t = ty"
    using token_next_eq [OF Suc.prems(1)] l by (simp_all add: token_ref_def)
  have "CHR ''<'' \<notin> set (rview ?r)"
    using Suc.prems(2) by (auto dest: in_set_dropD)
  then have n: "0 < n \<and> n \<le> length (rview ?r)" if "ty \<noteq> TK_ERROR \<and> ty \<noteq> TK_EEOF"
    using lex_ref_consumes [OF l] that by blast
  have "\<exists>toks. token_loop fuel (adv n ?r) = Inr toks" if "ty \<noteq> TK_ERROR \<and> ty \<noteq> TK_EEOF"
  proof (rule Suc.IH)
    show "CHR ''<'' \<notin> set (rview (adv n ?r))" using Suc.prems(2) by (auto dest: in_set_dropD)
    show "length (rview (adv n ?r)) < fuel" using n [OF that] Suc.prems(3) by (simp; arith)
  qed (use Suc.prems(1) in simp)
  with t show ?case by auto
qed simp

lemma reader_of_string:
  assumes "NUL \<notin> set s" and "length s < 2 ^ 64"
  shows "range_fromString (s @ [NUL]) = Inr \<lparr>rmem = s @ [NUL], rsize = length s\<rparr>"
    and "reader_wf \<lparr>rpos = p, rrange = \<lparr>rmem = s @ [NUL], rsize = length s\<rparr>\<rparr>"
    and "rview \<lparr>rpos = p, rrange = \<lparr>rmem = s @ [NUL], rsize = length s\<rparr>\<rparr> = s"
  using assms by (simp_all add: range_fromString_def takeWhile_append reader_wf_def range_wf_def range_view_def)

section \<open>Properties\<close>

text \<open>
  C14: On every well-formed reader the tokenizer returns the reference token and reader: it skips the
  white space, classifies the text by its first characters with the longest match for words and
  numbers, gives the token the position of its first character and a range over its text, and
  advances text and position together.
\<close>
theorem token_next_correct:
  assumes "reader_wf r"
  shows "token_next r = Inr (token_ref (adv (length (takeWhile white_char (rview r))) r))"
  using assms by (rule token_next_eq)

theorem token_next_correct_witness:
  "token_next \<lparr>rpos = zero_position, rrange = RANGE_STRING '' if(''\<rparr> =
     Inr (\<lparr>rpos = \<lparr>line = 0, col = 3, offset = 3\<rparr>, rrange = \<lparr>rmem = ''('' @ [NUL], rsize = 1\<rparr>\<rparr>,
       \<lparr>ttype = TK_KW_IF, tpos = \<lparr>line = 0, col = 1, offset = 1\<rparr>,
        trange = \<lparr>rmem = ''if('' @ [NUL], rsize = 2\<rparr>\<rparr>)"
proof -
  have "reader_wf \<lparr>rpos = zero_position, rrange = RANGE_STRING '' if(''\<rparr>"
    by (simp add: reader_wf_def) (simp add: RANGE_STRING_def)
  from token_next_correct [OF this] show ?thesis
    by (rule trans)
      (simp add: token_ref_def adv_def RANGE_STRING_def range_view_def white_char_def char_classes schar_def
        single_chars_def keyword_of_def zero_position_def position_ingest_def)
qed

text \<open>
  C23: Round trip: the tokens of a text that was printed from lexemes, each followed by white space, are
  exactly these lexemes and the end token. The lexemes cover all token types except the
  comparisons other than equality, which the tokenizer does not read.
\<close>
theorem token_dumpAll_roundtrip:
  assumes "\<forall>(tk, ws) \<in> set ts. lexeme tk \<and> ws \<noteq> [] \<and> list_all white_char ws"
    and "NUL \<notin> set (print_tokens ts)" and "length (print_tokens ts) < 2 ^ 64" and "length ts < fuel"
  shows "\<exists>toks. token_dumpAll fuel (print_tokens ts @ [NUL]) = Inr toks \<and>
    map tok_text toks = map fst ts @ [(TK_EEOF, [])]"
  using token_loop_print [of "\<lparr>rpos = zero_position, rrange = \<lparr>rmem = print_tokens ts @ [NUL], rsize = length (print_tokens ts)\<rparr>\<rparr>" "[]" ts fuel]
    reader_of_string [OF assms(2,3)] assms(1,4)
  by (simp add: token_dumpAll_def)

theorem token_dumpAll_roundtrip_witness:
  "\<exists>toks. token_dumpAll 5 (''while ( x1 '' @ [NUL]) = Inr toks \<and>
     map tok_text toks = [(TK_KW_WHILE, ''while''), (TK_PARAN_OPEN, ''(''), (TK_ID, ''x1''), (TK_EEOF, [])]"
proof -
  let ?ts = "[((TK_KW_WHILE, ''while''), '' ''), ((TK_PARAN_OPEN, ''(''), '' ''), ((TK_ID, ''x1''), '' '')]"
  have "\<forall>(tk, ws) \<in> set ?ts. lexeme tk \<and> ws \<noteq> [] \<and> list_all white_char ws"
    by (simp add: char_classes white_char_def keyword_of_def schar_def)
  moreover have p: "print_tokens ?ts = ''while ( x1 ''" by (simp add: print_tokens_def)
  ultimately show ?thesis
    using token_dumpAll_roundtrip [of ?ts 5] unfolding p by (simp add: NUL_def)
qed

text \<open>
  No text is read as a greater-than or greater-or-equal token (nor as a string): the case of \<open>'>'\<close>
  falls through into the case of \<open>'<'\<close>, so \<open>'>'\<close> and \<open>'>='\<close> come out as less-than and less-or-equal.
\<close>
theorem token_next_never_greater:
  assumes "reader_wf r"
  shows "(\<forall>r' t. token_next r = Inr (r', t) \<longrightarrow> ttype t \<notin> {TK_GREATER, TK_GREATER_EQ, TK_STRING}) \<and>
    (\<forall>cs. dropWhile white_char (rview r) = CHR ''>'' # cs \<longrightarrow>
      (\<exists>r' t. token_next r = Inr (r', t) \<and>
        ttype t = (if cs \<noteq> [] \<and> hd cs = CHR ''='' then TK_LESS_EQ else TK_LESS_THAN)))"
proof -
  let ?r = "adv (length (takeWhile white_char (rview r))) r"
  have view: "rview ?r = dropWhile white_char (rview r)"
    by (simp add: dropWhile_eq_drop)
  have "fst (lex_ref s) \<notin> {TK_GREATER, TK_GREATER_EQ, TK_STRING}" for s
    by (cases s) (auto simp: single_chars_def keyword_of_def Let_def split: if_splits)
  then have "ttype (snd (token_ref ?r)) \<notin> {TK_GREATER, TK_GREATER_EQ, TK_STRING}"
    by (simp add: token_ref_def split_def Let_def)
  moreover have "ttype (snd (token_ref ?r)) =
      (if cs \<noteq> [] \<and> hd cs = CHR ''='' then TK_LESS_EQ else TK_LESS_THAN)"
    if "dropWhile white_char (rview r) = CHR ''>'' # cs" for cs
    using that view by (simp add: token_ref_def single_chars_def eq_next_def)
  ultimately show ?thesis
    unfolding token_next_eq [OF assms] by (metis prod.collapse snd_conv sum.inject(2))
qed

theorem token_next_never_greater_witness:
  "\<exists>r' t. token_next \<lparr>rpos = zero_position, rrange = RANGE_STRING '' >= 1''\<rparr> = Inr (r', t) \<and> ttype t = TK_LESS_EQ"
proof -
  have "reader_wf \<lparr>rpos = zero_position, rrange = RANGE_STRING '' >= 1''\<rparr>"
    by (simp add: reader_wf_def) (simp add: RANGE_STRING_def)
  from token_next_never_greater [OF this] show ?thesis by (simp add: white_char_def)
qed

text \<open>
  A less-than sign is read without being consumed, so the tokenizer returns it again and again:
  listing the tokens of a text that starts with it never ends.
\<close>
theorem less_than_makes_no_progress:
  assumes "reader_wf r" and "dropWhile white_char (rview r) = CHR ''<'' # cs"
  shows "(\<exists>r' t. token_next r = Inr (r', t) \<and> ttype t = TK_LESS_THAN \<and> rview r' = CHR ''<'' # cs) \<and>
    token_loop fuel r = Inl OutOfFuel"
proof -
  have step: "\<exists>r' t. token_next r = Inr (r', t) \<and> ttype t = TK_LESS_THAN \<and> rview r' = CHR ''<'' # cs \<and> reader_wf r'"
    if "reader_wf r" "dropWhile white_char (rview r) = CHR ''<'' # cs" for r
  proof -
    let ?r = "adv (length (takeWhile white_char (rview r))) r"
    have "rview ?r = CHR ''<'' # cs" using that by (simp add: dropWhile_eq_drop)
    then show ?thesis using token_next_eq [OF that(1)] that(1)
      by (simp add: token_ref_def single_chars_def)
  qed
  moreover have "token_loop fuel r = Inl OutOfFuel"
    using assms
  proof (induction fuel arbitrary: r)
    case (Suc fuel)
    from step [OF Suc.prems] obtain r' t where
      "token_next r = Inr (r', t)" "ttype t = TK_LESS_THAN" "rview r' = CHR ''<'' # cs" "reader_wf r'" by blast
    with Suc.IH [of r'] show ?case by (simp add: white_char_def)
  qed simp
  ultimately show ?thesis using assms by blast
qed

theorem less_than_makes_no_progress_witness:
  "token_loop 100 \<lparr>rpos = zero_position, rrange = RANGE_STRING ''< 1''\<rparr> = Inl OutOfFuel"
proof -
  have "reader_wf \<lparr>rpos = zero_position, rrange = RANGE_STRING ''< 1''\<rparr>"
    by (simp add: reader_wf_def) (simp add: RANGE_STRING_def)
  from less_than_makes_no_progress [OF this, of "'' 1''" 100] show ?thesis by (simp add: white_char_def)
qed

text \<open>
  C26: Without a less-than sign in the text, listing its tokens ends after at most one token per
  character and one more.
\<close>
theorem token_dumpAll_terminates:
  assumes "NUL \<notin> set s" and "length s < 2 ^ 64" and "CHR ''<'' \<notin> set s"
  shows "\<exists>toks. token_dumpAll (length s + 1) (s @ [NUL]) = Inr toks"
  using token_loop_enough_fuel [OF reader_of_string(2) [OF assms(1,2), of zero_position], of "length s + 1"]
    reader_of_string [OF assms(1,2)] assms(3)
  by (simp add: token_dumpAll_def del: token_loop.simps)

theorem token_dumpAll_terminates_witness:
  "\<exists>toks. token_dumpAll 9 (''a = !b ;'' @ [NUL]) = Inr toks"
proof -
  have "length ''a = !b ;'' + 1 = (9 :: nat)" by simp
  with token_dumpAll_terminates [of "''a = !b ;''"] show ?thesis by (simp only: NUL_def) simp
qed

end
