(* ===== verification/Parser.thy ===== *)
theory Parser
  imports Lexer
begin

text \<open>
  The recursive descent parser of \<open>parser.c\<close>. A pointer to a node is a tree or \<open>Null\<close>; every node
  has one owner, so the in-place changes of the parser are changes of a tree. The parser functions
  return \<open>Null\<close> after a syntax error they report, and fault where the C code runs into undefined
  behaviour. The mutually recursive functions carry fuel; \<open>parser_fuel\<close> is always enough.
\<close>

section \<open>Syntax trees\<close>

datatype ast_node =
    Null
  | NUMBER int
  | STRING range_t
  | VARIABLE range_t
  | BINARY_EXP token_type ast_node ast_node
  | WHILE ast_node ast_node
  | IF ast_node ast_node ast_node nat
  | MODULE "ast_node list"
  | FUNCTION range_t token_type nat "ast_node list"
  | FUNCTION_CALL range_t "ast_node list"
  | BLOCK "ast_node list"
  | PREFIX int ast_node
  | RETURN
  | DECLARATION token_type ast_node

text \<open>\<open>ast_getChilds\<close> has no case for calls and returns.\<close>

fun ast_getChilds :: "ast_node \<Rightarrow> ast_node list res" where
  "ast_getChilds Null = Inl NullDeref"
| "ast_getChilds (NUMBER n) = Inr []"
| "ast_getChilds (STRING s) = Inr []"
| "ast_getChilds (VARIABLE v) = Inr []"
| "ast_getChilds (WHILE c b) = Inr [c, b]"
| "ast_getChilds (PREFIX s c) = Inr [c]"
| "ast_getChilds (DECLARATION ty a) = Inr [a]"
| "ast_getChilds (BINARY_EXP op l r) = Inr [l, r]"
| "ast_getChilds (MODULE cs) = Inr cs"
| "ast_getChilds (FUNCTION n ty a cs) = Inr cs"
| "ast_getChilds (BLOCK cs) = Inr cs"
| "ast_getChilds (IF c b e n) = Inr (take n [c, b, e])"
| "ast_getChilds (FUNCTION_CALL n cs) = Inl AssertFail"
| "ast_getChilds RETURN = Inl AssertFail"

section \<open>Parser state\<close>

record parser_t =
  preader :: reader
  hasPeek :: bool
  peek :: token
  perror :: "string option"

definition zero_token :: "token_type \<Rightarrow> token" where
  "zero_token ty = \<lparr>ttype = ty, tpos = zero_position, trange = zero_range\<rparr>"

definition parser_init :: "range_t \<Rightarrow> parser_t" where
  "parser_init rg = \<lparr>preader = \<lparr>rpos = zero_position, rrange = rg\<rparr>, hasPeek = False,
     peek = zero_token TK_EEOF, perror = None\<rparr>"

definition parser_peekToken :: "parser_t \<Rightarrow> (parser_t \<times> token) res" where
  "parser_peekToken p =
     bindE (if \<not> hasPeek p
            then bindE (token_next (preader p)) (\<lambda>(r, t). Inr (p\<lparr>preader := r, peek := t\<rparr>))
            else Inr p) (\<lambda>p.
       let p = p\<lparr>hasPeek := True\<rparr> in Inr (p, peek p))"

definition parser_next :: "parser_t \<Rightarrow> (parser_t \<times> token) res" where
  "parser_next p =
     (if hasPeek p then Inr (p\<lparr>peek := zero_token TK_ERROR, hasPeek := False\<rparr>, peek p)
      else bindE (token_next (preader p)) (\<lambda>(r, t). Inr (p\<lparr>preader := r\<rparr>, t)))"

definition parser_fresh :: "parser_t \<Rightarrow> (parser_t \<times> token) res" where
  "parser_fresh p =
     (let p = p\<lparr>peek := zero_token TK_ERROR, hasPeek := False\<rparr> in
      bindE (token_next (preader p)) (\<lambda>(r, t). Inr (p\<lparr>preader := r\<rparr>, t)))"

type_synonym parse = "(parser_t \<times> ast_node) res"

definition parser_fail :: "parser_t \<Rightarrow> string \<Rightarrow> parse" where
  "parser_fail p msg = Inr (p\<lparr>perror := Some msg\<rparr>, Null)"

definition parser_check :: "parser_t \<Rightarrow> bool \<Rightarrow> string \<Rightarrow> parse \<Rightarrow> parse" where
  "parser_check p ok msg k = (if ok then k else parser_fail p msg)"

definition parser_check_silent :: "parser_t \<Rightarrow> ast_node \<Rightarrow> parse \<Rightarrow> parse" where
  "parser_check_silent p node k = (if node \<noteq> Null then k else Inr (p, Null))"

definition parser_expect :: "token_type \<Rightarrow> string \<Rightarrow> parser_t \<Rightarrow> (parser_t \<Rightarrow> parse) \<Rightarrow> parse" where
  "parser_expect ty msg p k =
     bindE (parser_next p) (\<lambda>(p, tok). parser_check p (ttype tok = ty) msg (k p))"

definition parser_parseModule :: "parser_t \<Rightarrow> parse" where
  "parser_parseModule p = Inl NoReturn"

section \<open>Expressions\<close>

fun getPresedence :: "token_type \<Rightarrow> int" where
  "getPresedence TK_GREATER = 3"
| "getPresedence TK_GREATER_EQ = 3"
| "getPresedence TK_LESS_THAN = 3"
| "getPresedence TK_LESS_EQ = 3"
| "getPresedence TK_EQUALS = 3"
| "getPresedence TK_PLUS = 4"
| "getPresedence TK_MINUS = 4"
| "getPresedence TK_MUL = 5"
| "getPresedence TK_DIV = 5"
| "getPresedence _ = -1"

text \<open>\<open>AST_AS_TYPE(node, number)->num *= -1\<close> does not look at the type of the node.\<close>

fun negate_number :: "ast_node \<Rightarrow> ast_node res" where
  "negate_number Null = Inl NullDeref"
| "negate_number (NUMBER n) = bindE (longE (n * -1)) (\<lambda>n. Inr (NUMBER n))"
| "negate_number _ = Inl TypeConfusion"

text \<open>The right rotation at the end of \<open>parser_parseBinary\<close>.\<close>

fun rotate_result :: "int \<Rightarrow> ast_node \<Rightarrow> ast_node res" where
  "rotate_result opPrec (BINARY_EXP rop l r) =
     (case l of
        Null \<Rightarrow> Inl NullDeref
      | BINARY_EXP lop ll z \<Rightarrow>
          if opPrec < getPresedence rop then Inr (BINARY_EXP lop ll (BINARY_EXP rop z r))
          else Inr (BINARY_EXP rop l r)
      | _ \<Rightarrow> Inr (BINARY_EXP rop l r))"
| "rotate_result opPrec _ = Inl TypeConfusion"

fun parser_readAtomInternal :: "nat \<Rightarrow> parser_t \<Rightarrow> bool \<Rightarrow> parse"
  and parser_parseExpression_fuel :: "nat \<Rightarrow> parser_t \<Rightarrow> parse"
  and parser_parseBinary :: "nat \<Rightarrow> parser_t \<Rightarrow> ast_node \<Rightarrow> parse" where
  "parser_readAtomInternal 0 p hasPrefix = Inl OutOfFuel"
| "parser_readAtomInternal (Suc fuel) p hasPrefix =
     bindE (parser_next p) (\<lambda>(p, tok).
       if \<not> hasPrefix \<and> (ttype tok = TK_MINUS \<or> ttype tok = TK_PLUS) then
         bindE (parser_readAtomInternal fuel p True) (\<lambda>(p, node).
           if ttype tok \<noteq> TK_PLUS
           then bindE (negate_number node) (\<lambda>node. Inr (p, node))
           else Inr (p, node))
       else if ttype tok = TK_PARAN_OPEN then
         bindE (parser_parseExpression_fuel fuel p) (\<lambda>(p, node).
           parser_expect TK_PARAN_CLOSE ''expected ')' a the end of paran expression'' p (\<lambda>p.
             Inr (p, node)))
       else if ttype tok = TK_NUMBER then
         bindE (range_parseInt (trange tok)) (\<lambda>n. Inr (p, NUMBER n))
       else if ttype tok = TK_ID then Inr (p, VARIABLE (trange tok))
       else Inl NoReturn)"
| "parser_parseExpression_fuel 0 p = Inl OutOfFuel"
| "parser_parseExpression_fuel (Suc fuel) p =
     bindE (parser_readAtomInternal fuel p False) (\<lambda>(p, node).
       parser_parseBinary fuel p node)"
| "parser_parseBinary 0 p left = Inl OutOfFuel"
| "parser_parseBinary (Suc fuel) p left =
     bindE (parser_peekToken p) (\<lambda>(p, op).
     let opPrec = getPresedence (ttype op) in
     if opPrec = -1 then Inr (p, left)
     else bindE (parser_next p) (\<lambda>(p, _).
       bindE (parser_readAtomInternal fuel p False) (\<lambda>(p, node).
       parser_check_silent p node
         (bindE (parser_parseBinary fuel p (BINARY_EXP (ttype op) left node)) (\<lambda>(p, result).
          parser_check_silent p result
            (bindE (rotate_result opPrec result) (\<lambda>result. Inr (p, result))))))))"

text \<open>Enough fuel for the text that is left and a token that was peeked.\<close>

definition parser_fuel :: "parser_t \<Rightarrow> nat" where
  "parser_fuel p = 3 * rsize (rrange (preader p)) + 6"

definition parser_parseExpression :: "parser_t \<Rightarrow> parse" where
  "parser_parseExpression p = parser_parseExpression_fuel (parser_fuel p) p"

section \<open>Statements\<close>

definition isDataType :: "token_type \<Rightarrow> bool" where
  "isDataType ty \<longleftrightarrow> ty = TK_KW_VOID \<or> ty = TK_KW_INT64"

definition parser_parseAssignment :: "parser_t \<Rightarrow> ast_node \<Rightarrow> parse" where
  "parser_parseAssignment p variable =
     bindE (parser_next p) (\<lambda>(p, _).
     bindE (parser_parseExpression p) (\<lambda>(p, assigned).
     parser_check_silent p assigned
       (Inr (p, BINARY_EXP TK_ASSIGN variable assigned))))"

text \<open>
  The check of the identifier is written \<open>id.type = TK_ID\<close>: an assignment whose value is not zero.
\<close>

definition parser_parseDeclaration :: "parser_t \<Rightarrow> parse" where
  "parser_parseDeclaration p =
     bindE (parser_next p) (\<lambda>(p, dataType).
     assertE (isDataType (ttype dataType))
       (bindE (parser_next p) (\<lambda>(p, id).
        parser_check p True ''expected identifier while parsing declaration''
          (bindE (parser_parseAssignment p (VARIABLE (trange id))) (\<lambda>(p, assignment).
           parser_check_silent p assignment
             (parser_expect TK_SEMI_COLON ''expected semicolon after statement'' p (\<lambda>p.
                Inr (p, DECLARATION (ttype dataType) assignment))))))))"

definition parser_parseAssignmentOrCall :: "parser_t \<Rightarrow> parse" where
  "parser_parseAssignmentOrCall p =
     bindE (parser_next p) (\<lambda>(p, tok).
     parser_check p (ttype tok = TK_ID) ''Expected identifier''
       (bindE (parser_peekToken p) (\<lambda>(p, op).
        if ttype op = TK_ASSIGN then
          bindE (parser_parseAssignment p (VARIABLE (trange tok))) (\<lambda>(p, result).
          parser_expect TK_SEMI_COLON ''expected semicolon after statement'' p (\<lambda>p.
            Inr (p, result)))
        else parser_fail p ''unrecognized token while parsing assignment or call'')))"

definition parser_parseReturn :: "parser_t \<Rightarrow> parse" where
  "parser_parseReturn p =
     bindE (parser_next p) (\<lambda>(p, _).
     parser_expect TK_SEMI_COLON ''expected semicolon after statement'' p (\<lambda>p. Inr (p, RETURN)))"

text \<open>
  The statements of a block are collected in a buffer that was made for eight pointers; it takes
  sixteen before a write leaves its memory (\<open>ptrs_push\<close>), which is a fault of its own here.
\<close>

definition push_statement :: "ast_node list \<Rightarrow> ast_node \<Rightarrow> ast_node list res" where
  "push_statement statements node = (case ptrs_push 8 statements node of
     Inl _ \<Rightarrow> Inl StatementOverflow
   | Inr statements \<Rightarrow> Inr statements)"

lemma push_statement_eq:
  "push_statement statements node = (if length statements < 16 then Inr (statements @ [node]) else Inl StatementOverflow)"
  by (simp add: push_statement_def ptrs_push_def)

fun parser_parseIf :: "nat \<Rightarrow> parser_t \<Rightarrow> parse"
  and parser_parseWhile :: "nat \<Rightarrow> parser_t \<Rightarrow> parse"
  and parser_parseStatement :: "nat \<Rightarrow> parser_t \<Rightarrow> parse"
  and block_loop :: "nat \<Rightarrow> parser_t \<Rightarrow> ast_node list \<Rightarrow> (parser_t \<times> ast_node list option) res"
  and parser_parseBlock_fuel :: "nat \<Rightarrow> parser_t \<Rightarrow> parse" where
  "parser_parseIf 0 p = Inl OutOfFuel"
| "parser_parseIf (Suc fuel) p =
     bindE (parser_next p) (\<lambda>(p, _).
     parser_expect TK_PARAN_OPEN ''Expected parenthesis, while trying to parse function'' p (\<lambda>p.
     bindE (parser_parseExpression p) (\<lambda>(p, condition).
     parser_check_silent p condition
       (parser_expect TK_PARAN_CLOSE ''Expected parenthesis close, while trying to parse function'' p (\<lambda>p.
        bindE (parser_parseBlock_fuel fuel p) (\<lambda>(p, block).
        parser_check_silent p block (Inr (p, IF condition block Null 2))))))))"
| "parser_parseWhile 0 p = Inl OutOfFuel"
| "parser_parseWhile (Suc fuel) p =
     bindE (parser_next p) (\<lambda>(p, _).
     parser_expect TK_PARAN_OPEN ''Expected parenthesis, while trying to parse function'' p (\<lambda>p.
     bindE (parser_parseExpression p) (\<lambda>(p, condition).
     parser_check_silent p condition
       (parser_expect TK_PARAN_CLOSE ''Expected parenthesis close, while trying to parse function'' p (\<lambda>p.
        bindE (parser_parseBlock_fuel fuel p) (\<lambda>(p, block).
        parser_check_silent p block (Inr (p, WHILE condition block))))))))"
| "parser_parseStatement 0 p = Inl OutOfFuel"
| "parser_parseStatement (Suc fuel) p =
     bindE (parser_peekToken p) (\<lambda>(p, op).
     if isDataType (ttype op) then parser_parseDeclaration p
     else if ttype op = TK_KW_IF then parser_parseIf fuel p
     else if ttype op = TK_KW_WHILE then parser_parseWhile fuel p
     else if ttype op = TK_KW_RETURN then parser_parseReturn p
     else if ttype op = TK_ID then parser_parseAssignmentOrCall p
     else parser_fail p ''Unrecognized token while trying to parse statement'')"
| "block_loop 0 p statements = Inl OutOfFuel"
| "block_loop (Suc fuel) p statements =
     bindE (parser_peekToken p) (\<lambda>(p, tok).
     if ttype tok = TK_EEOF then
       Inr (p\<lparr>perror := Some ''premature ending of file, was expecting '}' to terminate block''\<rparr>, None)
     else if ttype tok = TK_CURLY_CLOSE then Inr (p, Some statements)
     else bindE (parser_parseStatement fuel p) (\<lambda>(p, node).
       if node = Null then Inr (p, None)
       else bindE (push_statement statements node) (\<lambda>statements. block_loop fuel p statements)))"
| "parser_parseBlock_fuel 0 p = Inl OutOfFuel"
| "parser_parseBlock_fuel (Suc fuel) p =
     bindE (parser_peekToken p) (\<lambda>(p, op).
     if ttype op = TK_CURLY_OPEN then
       bindE (parser_next p) (\<lambda>(p, _).
       bindE (block_loop fuel p []) (\<lambda>(p, statements).
         case statements of
           None \<Rightarrow> Inr (p, Null)
         | Some statements \<Rightarrow> bindE (parser_next p) (\<lambda>(p, _). Inr (p, BLOCK statements))))
     else bindE (parser_parseStatement fuel p) (\<lambda>(p, node).
       if node = Null then Inr (p, Null)
       else bindE (push_statement [] node) (\<lambda>statements. Inr (p, BLOCK statements))))"

definition parser_parseBlock :: "parser_t \<Rightarrow> parse" where
  "parser_parseBlock p = parser_parseBlock_fuel (parser_fuel p) p"

definition parser_parseFunction :: "parser_t \<Rightarrow> parse" where
  "parser_parseFunction p =
     bindE (parser_next p) (\<lambda>(p, dataType).
     parser_check p (isDataType (ttype dataType)) ''expected datatype when parsing a function''
       (bindE (parser_next p) (\<lambda>(p, name).
        parser_check p (ttype name = TK_ID) ''exptected a function name''
          (parser_expect TK_PARAN_OPEN ''expteced a '(' for function argument list'' p (\<lambda>p.
           parser_expect TK_PARAN_CLOSE ''expteced ')' to terminate a function argument list.'' p (\<lambda>p.
           bindE (parser_parseBlock p) (\<lambda>(p, block).
           parser_check_silent p block
             (Inr (p, FUNCTION (trange name) (ttype dataType) 0 [block])))))))))"

text \<open>The loop of \<open>parser_module\<close> only peeks; behind it the function ends without a value.\<close>

fun parser_module :: "nat \<Rightarrow> parser_t \<Rightarrow> parse" where
  "parser_module 0 p = Inl OutOfFuel"
| "parser_module (Suc fuel) p =
     bindE (parser_peekToken p) (\<lambda>(p, tok).
       if ttype tok \<noteq> TK_EEOF then parser_module fuel p else Inl NoReturn)"

section \<open>Tokens seen by the parser\<close>

lemmas parser_steps = parser_expect_def parser_check_def parser_check_silent_def parser_fail_def

definition token_wf :: "token \<Rightarrow> bool" where
  "token_wf t \<longleftrightarrow>
     (ttype t = TK_NUMBER \<longrightarrow> range_view (trange t) \<noteq> [] \<and> list_all digit_char (range_view (trange t)))"

definition parser_wf :: "parser_t \<Rightarrow> bool" where
  "parser_wf p \<longleftrightarrow> reader_wf (preader p) \<and> (hasPeek p \<longrightarrow> token_wf (peek p))"

text \<open>
  What is left to read. A token of a heavy type has consumed text; the end, error and less-than
  tokens may not have.
\<close>

definition heavy :: "token \<Rightarrow> bool" where
  "heavy t \<longleftrightarrow> ttype t \<notin> {TK_EEOF, TK_ERROR, TK_LESS_THAN}"

definition psize :: "parser_t \<Rightarrow> nat" where
  "psize p = rsize (rrange (preader p)) + (if hasPeek p \<and> heavy (peek p) then 1 else 0)"

lemma rsize_adv [simp]: "rsize (rrange (adv n r)) = rsize (rrange r) - n"
  by (simp add: adv_def)

lemma lex_ref_heavy:
  assumes "lex_ref s = (ty, len, n)" and "ty \<notin> {TK_EEOF, TK_ERROR, TK_LESS_THAN}"
  shows "0 < n \<and> s \<noteq> []"
  using assms letter_ident by (cases s) (auto simp: Let_def split: option.splits if_splits)

lemma map_of_single_not_number: "map_of single_chars c \<noteq> Some TK_NUMBER"
  by (simp add: single_chars_def)

lemma lex_ref_number_text:
  assumes "lex_ref s = (TK_NUMBER, len, n)"
  shows "0 < len \<and> len \<le> length s \<and> list_all digit_char (take len s)"
proof (cases s)
  case Nil
  with assms show ?thesis by simp
next
  case (Cons c cs)
  have kw: "keyword_of w \<noteq> TK_NUMBER" for w by (simp add: keyword_of_def)
  from assms Cons have d: "digit_char c" and len: "len = length (takeWhile digit_char s)"
    by (auto simp: Let_def kw map_of_single_not_number split: option.splits if_splits)
  have "take len s = takeWhile digit_char s"
    unfolding len by (rule takeWhile_eq_take [symmetric])
  with d len Cons length_takeWhile_le [of digit_char s] show ?thesis
    by (auto simp: list_all_iff dest: set_takeWhileD)
qed

text \<open>One token: never a fault, and the measure goes down by the tokens that consume text.\<close>

lemma token_next_wf:
  assumes "reader_wf r"
  obtains r' t where "token_next r = Inr (r', t)" and "reader_wf r'" and "token_wf t"
    and "rsize (rrange r') + (if heavy t then 1 else 0) \<le> rsize (rrange r)"
proof -
  let ?r = "adv (length (takeWhile white_char (rview r))) r"
  obtain ty len n where l: "lex_ref (rview ?r) = (ty, len, n)" by (cases "lex_ref (rview ?r)") auto
  let ?t = "snd (token_ref ?r)"
  have wf: "reader_wf ?r" using assms by simp
  have t: "token_next r = Inr (adv n ?r, ?t)" "ttype ?t = ty"
    using token_next_eq [OF assms] l by (simp_all add: token_ref_def)
  have "token_wf ?t"
  proof (cases "ty = TK_NUMBER")
    case True
    note n = lex_ref_number_text [OF l [unfolded True]]
    then have ne: "rview ?r \<noteq> []" by (metis length_greater_0_conv less_le_trans)
    have "len \<le> rsize (rrange ?r)" using n length_rview [OF wf] by simp
    then have "range_view (trange ?t) = take len (rview ?r)"
      using l ne by (simp add: token_ref_def range_view_sub del: rview_adv rsize_adv)
    with n ne show ?thesis by (simp add: token_wf_def del: rview_adv)
  next
    case False
    with t(2) show ?thesis by (simp add: token_wf_def)
  qed
  moreover have "rsize (rrange (adv n ?r)) + (if heavy ?t then 1 else 0) \<le> rsize (rrange r)"
  proof (cases "heavy ?t")
    case True
    then have "0 < n \<and> rview ?r \<noteq> []" using lex_ref_heavy [OF l] t(2) by (simp add: heavy_def)
    then show ?thesis using length_rview [OF wf] by (cases "rsize (rrange ?r)") auto
  qed simp
  ultimately show ?thesis using that t(1) assms by simp
qed

lemma parser_next_ok:
  assumes "parser_wf p"
  obtains p' t where "parser_next p = Inr (p', t)" and "parser_wf p'" and "token_wf t"
    and "psize p' + (if heavy t then 1 else 0) \<le> psize p"
proof (cases "hasPeek p")
  case True
  with assms that show ?thesis by (simp add: parser_next_def parser_wf_def psize_def)
next
  case False
  from assms have "reader_wf (preader p)" by (simp add: parser_wf_def)
  from token_next_wf [OF this] obtain r' t where "token_next (preader p) = Inr (r', t)" "reader_wf r'" "token_wf t"
    "rsize (rrange r') + (if heavy t then 1 else 0) \<le> rsize (rrange (preader p))" .
  with False that [of "p\<lparr>preader := r'\<rparr>" t] show ?thesis
    by (simp add: parser_next_def parser_wf_def psize_def)
qed

lemma parser_peek_ok:
  assumes "parser_wf p"
  obtains p' where "parser_peekToken p = Inr (p', peek p')" and "parser_wf p'" and "hasPeek p'"
    and "psize p' \<le> psize p"
proof (cases "hasPeek p")
  case True
  then have "p\<lparr>hasPeek := True\<rparr> = p" by simp
  with True assms that [of p] show ?thesis by (simp add: parser_peekToken_def)
next
  case False
  from assms have "reader_wf (preader p)" by (simp add: parser_wf_def)
  from token_next_wf [OF this] obtain r' t where "token_next (preader p) = Inr (r', t)" "reader_wf r'" "token_wf t"
    "rsize (rrange r') + (if heavy t then 1 else 0) \<le> rsize (rrange (preader p))" .
  with False that [of "p\<lparr>preader := r', peek := t, hasPeek := True\<rparr>"] show ?thesis
    by (simp add: parser_peekToken_def parser_wf_def psize_def)
qed

lemma parser_next_peeked:
  "hasPeek p \<Longrightarrow> parser_next p = Inr (p\<lparr>peek := zero_token TK_ERROR, hasPeek := False\<rparr>, peek p)"
  by (simp add: parser_next_def)

text \<open>A number token is parsed without a fault.\<close>

lemma parse_loop_digit_string:
  assumes "list_all digit_char s" and "0 \<le> r" and "r < INT_MAX"
  shows "\<exists>v. parse_loop 1 r s = Inr v \<and> 0 \<le> v \<and> v < 2 ^ 62"
  using assms
proof (induction s arbitrary: r)
  case Nil
  then show ?case by (auto simp: INT_MAX_def)
next
  case (Cons c cs)
  then have c: "48 \<le> schar c" "schar c \<le> 57" by (auto simp: digit_char_def schar_literals)
  let ?r = "r * 10 + (schar c - 48)"
  have "longE (r * 10) = Inr (r * 10)" "longE ?r = Inr ?r"
    using Cons.prems c by (simp_all add: longE_def INT_MAX_def)
  with Cons.IH [of ?r] Cons.prems c show ?case
    by (cases "INT_MAX \<le> ?r") (auto simp: INT_MAX_def)
qed

lemma range_parseInt_digits:
  assumes "range_view rg \<noteq> []" and "list_all digit_char (range_view rg)"
  shows "\<exists>n. range_parseInt rg = Inr n \<and> \<bar>n\<bar> \<le> 2 ^ 31"
proof -
  obtain c cs where v: "range_view rg = c # cs" using assms(1) by (cases "range_view rg") auto
  have c: "c \<noteq> CHR ''-''" "c \<noteq> CHR ''+''"
    using assms(2) v special_not_letter [of c] digit_ident [of c] by (auto simp: special_def)
  obtain n where n: "parse_loop 1 0 (c # cs) = Inr n" "0 \<le> n" "n < 2 ^ 62"
    using parse_loop_digit_string [OF assms(2), of 0] v by (auto simp: INT_MAX_def)
  have "\<bar>int_cast n\<bar> \<le> 2 ^ 31"
  proof -
    have "0 \<le> (n + 2 ^ 31) mod 2 ^ 32" "(n + 2 ^ 31) mod 2 ^ 32 < 2 ^ 32" by simp_all
    then show ?thesis unfolding int_cast_def by (simp add: abs_le_iff)
  qed
  moreover have "longE n = Inr n" using n by (simp add: longE_def)
  ultimately show ?thesis
    using n(1) c by (simp add: range_parseInt_view [OF v] del: parse_loop.simps)
qed

section \<open>Every parser function returns or faults, with enough fuel\<close>

text \<open>
  \<open>outcome F d d0 d0 p r\<close>: the result \<open>r\<close> of a parser function started in \<open>p\<close> is a fault of \<open>F\<close>, or a
  node with a well-formed parser that has less to read, by \<open>d\<close>, or by \<open>d0\<close> if the node is \<open>Null\<close>.
  A number at the root is in the range of \<open>int\<close> (or its negation).
\<close>

definition number_ok :: "ast_node \<Rightarrow> bool" where
  "number_ok node \<longleftrightarrow> (\<forall>n. node = NUMBER n \<longrightarrow> \<bar>n\<bar> \<le> 2 ^ 31)"

definition outcome :: "fault set \<Rightarrow> nat \<Rightarrow> nat \<Rightarrow> parser_t \<Rightarrow> parse \<Rightarrow> bool" where
  "outcome F d d0 p r \<longleftrightarrow>
     (case r of Inl e \<Rightarrow> e \<in> F
      | Inr (p', node) \<Rightarrow> parser_wf p' \<and> number_ok node \<and>
          psize p' + (if node = Null then d0 else d) \<le> psize p)"

definition expr_faults :: "fault set" where
  "expr_faults = {NoReturn, TypeConfusion, NullDeref}"

lemma outcome_simps [simp]:
  "outcome F d d0 p (Inl e) \<longleftrightarrow> e \<in> F"
  "outcome F d d0 p (Inr (p', node)) \<longleftrightarrow> parser_wf p' \<and> number_ok node \<and>
     psize p' + (if node = Null then d0 else d) \<le> psize p"
  by (simp_all add: outcome_def)

lemma outcomeE:
  assumes "outcome F d d0 p r"
  obtains e where "r = Inl e" and "e \<in> F"
  | p' node where "r = Inr (p', node)" and "parser_wf p'" and "number_ok node"
      and "psize p' + (if node = Null then d0 else d) \<le> psize p"
  using assms by (cases r) auto

lemma parser_wf_error [simp]: "parser_wf (p\<lparr>perror := e\<rparr>) = parser_wf p" "psize (p\<lparr>perror := e\<rparr>) = psize p"
  by (simp_all add: parser_wf_def psize_def)

lemma number_ok_simps [simp]:
  "number_ok Null" "number_ok (VARIABLE v)" "number_ok (BINARY_EXP op l r)" "number_ok (BLOCK bs)"
  "number_ok (IF a b c n)" "number_ok (WHILE a b)" "number_ok RETURN" "number_ok (DECLARATION ty a)"
  by (simp_all add: number_ok_def)

lemma outcome_bind:
  assumes "outcome F d d0 p m" and "\<And>p' node. m = Inr (p', node) \<Longrightarrow> parser_wf p' \<Longrightarrow> number_ok node \<Longrightarrow>
    psize p' + (if node = Null then d0 else d) \<le> psize p \<Longrightarrow> outcome F d' e' q (f (p', node))"
  shows "outcome F d' e' q (bindE m f)"
  using assms(1) by (cases rule: outcomeE) (use assms(2) in auto)

lemma outcome_expect:
  assumes "parser_wf p" and "psize p + d0 \<le> psize q" and "ty \<notin> {TK_EEOF, TK_ERROR, TK_LESS_THAN}"
    and "\<And>p'. parser_wf p' \<Longrightarrow> psize p' < psize p \<Longrightarrow> outcome F d d0 q (f p')"
  shows "outcome F d d0 q (parser_expect ty msg p f)"
proof -
  obtain p' t where n: "parser_next p = Inr (p', t)" "parser_wf p'"
    "psize p' + (if heavy t then 1 else 0) \<le> psize p" by (rule parser_next_ok [OF assms(1)])
  show ?thesis
  proof (cases "ttype t = ty")
    case True
    then have "psize p' < psize p" using n(3) assms(3) by (simp add: heavy_def)
    with assms(4) n True show ?thesis by (simp add: parser_steps)
  next
    case False
    have "psize p' + d0 \<le> psize q" using n(3) assms(2) by (simp split: if_splits)
    with False n show ?thesis by (simp add: parser_steps)
  qed
qed

lemma rotate_result_outcome:
  "rotate_result k result = Inl e \<Longrightarrow> e \<in> expr_faults"
  "rotate_result k result = Inr node \<Longrightarrow> number_ok node \<and> node \<noteq> Null"
  by (cases "(k, result)" rule: rotate_result.cases;
      auto simp: expr_faults_def split: ast_node.splits if_splits)+

lemma negate_number_outcome:
  "negate_number node = Inl e \<Longrightarrow> number_ok node \<Longrightarrow> e \<in> expr_faults"
  "negate_number node = Inr node' \<Longrightarrow> number_ok node \<Longrightarrow> number_ok node' \<and> node' \<noteq> Null"
  by (cases node; auto simp: expr_faults_def number_ok_def longE_def split: if_splits)+

lemma expression_outcome_all:
  "\<forall>p h left. parser_wf p \<longrightarrow>
     (3 * psize p + 1 \<le> fuel \<longrightarrow> outcome expr_faults 1 1 p (parser_readAtomInternal fuel p h)) \<and>
     (3 * psize p + 2 \<le> fuel \<longrightarrow> outcome expr_faults 1 1 p (parser_parseExpression_fuel fuel p)) \<and>
     (3 * psize p + 2 \<le> fuel \<longrightarrow> number_ok left \<longrightarrow> outcome expr_faults 0 0 p (parser_parseBinary fuel p left))"
proof (induction fuel)
  case 0
  then show ?case by simp
next
  case (Suc fuel)
  have atom: "outcome expr_faults 1 1 p (parser_readAtomInternal fuel p h)"
    if "parser_wf p" "3 * psize p + 1 \<le> fuel" for p h using Suc that by blast
  have expr: "outcome expr_faults 1 1 p (parser_parseExpression_fuel fuel p)"
    if "parser_wf p" "3 * psize p + 2 \<le> fuel" for p using Suc that by blast
  have bin: "outcome expr_faults 0 0 p (parser_parseBinary fuel p left)"
    if "parser_wf p" "3 * psize p + 2 \<le> fuel" "number_ok left" for p left using Suc that by blast
  have "outcome expr_faults 1 1 p (parser_readAtomInternal (Suc fuel) p h)"
    if wf: "parser_wf p" and f: "3 * psize p + 1 \<le> Suc fuel" for p h
  proof -
    obtain p1 t where n: "parser_next p = Inr (p1, t)" "parser_wf p1" "token_wf t"
      "psize p1 + (if heavy t then 1 else 0) \<le> psize p" by (rule parser_next_ok [OF wf])
    consider (prefix) "\<not> h \<and> (ttype t = TK_MINUS \<or> ttype t = TK_PLUS)"
      | (paran) "\<not> (\<not> h \<and> (ttype t = TK_MINUS \<or> ttype t = TK_PLUS))" "ttype t = TK_PARAN_OPEN"
      | (number) "ttype t = TK_NUMBER" | (id) "ttype t = TK_ID"
      | (other) "\<not> (\<not> h \<and> (ttype t = TK_MINUS \<or> ttype t = TK_PLUS))" "ttype t \<notin> {TK_PARAN_OPEN, TK_NUMBER, TK_ID}"
      by blast
    then show ?thesis
    proof cases
      case prefix
      then have s: "psize p1 + 1 \<le> psize p" using n(4) by (auto simp: heavy_def)
      have "outcome expr_faults 1 1 p1 (parser_readAtomInternal fuel p1 True)"
        by (rule atom [OF n(2)]) (use s f in simp)
      then have "outcome expr_faults 1 1 p (bindE (parser_readAtomInternal fuel p1 True) (\<lambda>(p, node).
           if ttype t \<noteq> TK_PLUS then bindE (negate_number node) (\<lambda>node. Inr (p, node)) else Inr (p, node)))"
      proof (rule outcome_bind)
        fix p' node assume p': "parser_wf p'" "number_ok node" "psize p' + (if node = Null then 1 else 1) \<le> psize p1"
        then have "psize p' + 1 \<le> psize p" using s by simp
        then show "outcome expr_faults 1 1 p (case (p', node) of (p, node) \<Rightarrow>
            if ttype t \<noteq> TK_PLUS then bindE (negate_number node) (\<lambda>node. Inr (p, node)) else Inr (p, node))"
          using negate_number_outcome [of node] p'(1,2) by (cases "negate_number node") auto
      qed
      with prefix n(1) show ?thesis by simp
    next
      case paran
      then have s: "psize p1 + 1 \<le> psize p" using n(4) by (simp add: heavy_def)
      have "outcome expr_faults 1 1 p1 (parser_parseExpression_fuel fuel p1)"
        by (rule expr [OF n(2)]) (use s f in simp)
      then have "outcome expr_faults 1 1 p (bindE (parser_parseExpression_fuel fuel p1) (\<lambda>(p, node).
           parser_expect TK_PARAN_CLOSE ''expected ')' a the end of paran expression'' p (\<lambda>p. Inr (p, node))))"
        by (rule outcome_bind) (use s in \<open>auto intro!: outcome_expect split: if_splits\<close>)
      with paran n(1) show ?thesis by simp
    next
      case number
      then have s: "psize p1 + 1 \<le> psize p" using n(4) by (simp add: heavy_def)
      have "\<exists>m. range_parseInt (trange t) = Inr m \<and> \<bar>m\<bar> \<le> 2 ^ 31"
        using n(3) number by (intro range_parseInt_digits) (simp_all add: token_wf_def)
      with number n(1,2) s show ?thesis by (auto simp: number_ok_def)
    next
      case id
      then have s: "psize p1 + 1 \<le> psize p" using n(4) by (simp add: heavy_def)
      with id n(1,2) show ?thesis by simp
    next
      case other
      with n(1) have "parser_readAtomInternal (Suc fuel) p h = Inl NoReturn" by auto
      then show ?thesis by (simp add: expr_faults_def)
    qed
  qed
  moreover have "outcome expr_faults 1 1 p (parser_parseExpression_fuel (Suc fuel) p)"
    if wf: "parser_wf p" and f: "3 * psize p + 2 \<le> Suc fuel" for p
  proof -
    have "outcome expr_faults 1 1 p (parser_readAtomInternal fuel p False)"
      by (rule atom [OF wf]) (use f in simp)
    then show ?thesis unfolding parser_parseExpression_fuel.simps
    proof (rule outcome_bind)
      fix p' node assume p': "parser_wf p'" "psize p' + (if node = Null then 1 else 1) \<le> psize p" "number_ok node"
      then have "outcome expr_faults 0 0 p' (parser_parseBinary fuel p' node)"
        by (intro bin) (use f in auto)
      then show "outcome expr_faults 1 1 p (case (p', node) of (p, node) \<Rightarrow> parser_parseBinary fuel p node)"
        using p'(2) by (auto simp: outcome_def split: sum.splits if_splits)
    qed
  qed
  moreover have "outcome expr_faults 0 0 p (parser_parseBinary (Suc fuel) p left)"
    if wf: "parser_wf p" and f: "3 * psize p + 2 \<le> Suc fuel" and left: "number_ok left" for p left
  proof -
    obtain p1 where pk: "parser_peekToken p = Inr (p1, peek p1)" "parser_wf p1" "hasPeek p1" "psize p1 \<le> psize p"
      by (rule parser_peek_ok [OF wf])
    obtain p2 t where n: "parser_next p1 = Inr (p2, t)" "parser_wf p2" "psize p2 + (if heavy t then 1 else 0) \<le> psize p1"
      by (rule parser_next_ok [OF pk(2)])
    have "outcome expr_faults 1 1 p2 (parser_readAtomInternal fuel p2 False)"
      by (rule atom [OF n(2)]) (use f pk n in \<open>auto split: if_splits\<close>)
    then show ?thesis
    proof (cases rule: outcomeE)
      case (2 p3 node)
      then have s: "psize p3 + 1 \<le> psize p2" by (simp split: if_splits)
      have "outcome expr_faults 0 0 p3 (parser_parseBinary fuel p3 (BINARY_EXP (ttype (peek p1)) left node))"
        by (rule bin [OF 2(2)]) (use f pk n s in \<open>auto split: if_splits\<close>)
      then show ?thesis
      proof (cases rule: outcomeE)
        case (2 p4 result)
        with pk n s \<open>parser_wf p3\<close> \<open>parser_readAtomInternal fuel p2 False = Inr (p3, node)\<close> show ?thesis
          using rotate_result_outcome [of "getPresedence (ttype (peek p1))" result]
          by (cases "rotate_result (getPresedence (ttype (peek p1))) result")
            (auto simp: parser_steps Let_def left split: if_splits)
      qed (use 2 pk n s left in \<open>auto simp: parser_steps Let_def split: if_splits\<close>)
    qed (use pk n left in \<open>auto simp: Let_def\<close>)
  qed
  ultimately show ?case by blast
qed

lemma psize_le: "psize p \<le> rsize (rrange (preader p)) + 1"
  by (simp add: psize_def)

lemma expression_outcome:
  "parser_wf p \<Longrightarrow> outcome expr_faults 1 1 p (parser_parseExpression p)"
  using expression_outcome_all [of "parser_fuel p"] psize_le [of p]
  by (simp add: parser_parseExpression_def parser_fuel_def)

text \<open>More fuel never changes a result.\<close>

lemma expression_fuel_Suc:
  assumes "\<And>p h. fuel_le (parser_readAtomInternal n p h) (parser_readAtomInternal m p h)"
    and "\<And>p. fuel_le (parser_parseExpression_fuel n p) (parser_parseExpression_fuel m p)"
    and "\<And>p left. fuel_le (parser_parseBinary n p left) (parser_parseBinary m p left)"
  shows "fuel_le (parser_readAtomInternal (Suc n) p h) (parser_readAtomInternal (Suc m) p h)"
    and "fuel_le (parser_parseExpression_fuel (Suc n) p) (parser_parseExpression_fuel (Suc m) p)"
    and "fuel_le (parser_parseBinary (Suc n) p left) (parser_parseBinary (Suc m) p left)"
  unfolding parser_readAtomInternal.simps parser_parseExpression_fuel.simps parser_parseBinary.simps
    parser_steps Let_def
  by (intro fuel_intros assms)+

lemma expression_fuel_step:
  "fuel_le (parser_readAtomInternal fuel p h) (parser_readAtomInternal (Suc fuel) p h)"
  "fuel_le (parser_parseExpression_fuel fuel p) (parser_parseExpression_fuel (Suc fuel) p)"
  "fuel_le (parser_parseBinary fuel p left) (parser_parseBinary (Suc fuel) p left)"
proof (induction fuel arbitrary: p h left)
  case 0
  show "fuel_le (parser_readAtomInternal 0 p h) (parser_readAtomInternal (Suc 0) p h)"
    "fuel_le (parser_parseExpression_fuel 0 p) (parser_parseExpression_fuel (Suc 0) p)"
    "fuel_le (parser_parseBinary 0 p left) (parser_parseBinary (Suc 0) p left)" for p h left
    by (simp_all add: fuel_le_out del: parser_readAtomInternal.simps(2)
        parser_parseExpression_fuel.simps(2) parser_parseBinary.simps(2))
next
  case (Suc fuel)
  show "fuel_le (parser_readAtomInternal (Suc fuel) p h) (parser_readAtomInternal (Suc (Suc fuel)) p h)"
    "fuel_le (parser_parseExpression_fuel (Suc fuel) p) (parser_parseExpression_fuel (Suc (Suc fuel)) p)"
    "fuel_le (parser_parseBinary (Suc fuel) p left) (parser_parseBinary (Suc (Suc fuel)) p left)" for p h left
    using expression_fuel_Suc [OF Suc] by blast+
qed

lemma expression_fuel:
  assumes "parser_parseExpression_fuel fuel p = r" and "r \<noteq> Inl OutOfFuel" and "parser_wf p"
  shows "parser_parseExpression p = r"
proof -
  let ?f = "\<lambda>n. parser_parseExpression_fuel n p"
  have step: "fuel_le (?f n) (?f (Suc n))" for n by (rule expression_fuel_step)
  have "parser_parseExpression p \<noteq> Inl OutOfFuel"
    using expression_outcome [OF assms(3)] by (auto simp: expr_faults_def)
  then show ?thesis
    using fuel_leD [OF fuel_mono [of ?f, OF step, of fuel "max fuel (parser_fuel p)"]]
      fuel_leD [OF fuel_mono [of ?f, OF step, of "parser_fuel p" "max fuel (parser_fuel p)"]] assms(1,2)
    by (simp add: parser_parseExpression_def)
qed

subsection \<open>Statements\<close>

definition stmt_faults :: "fault set" where
  "stmt_faults = {NoReturn, TypeConfusion, NullDeref, StatementOverflow}"

lemma assignment_outcome:
  assumes "parser_wf p"
  shows "outcome stmt_faults 1 1 p (parser_parseAssignment p v)"
proof -
  obtain p1 t where n: "parser_next p = Inr (p1, t)" "parser_wf p1" "psize p1 + (if heavy t then 1 else 0) \<le> psize p"
    by (rule parser_next_ok [OF assms])
  show ?thesis
    using expression_outcome [OF n(2)]
    by (cases rule: outcomeE)
      (use n in \<open>auto simp: parser_parseAssignment_def parser_steps expr_faults_def stmt_faults_def split: if_splits\<close>)
qed

lemma parser_next_heavy:
  assumes "parser_wf p" and "hasPeek p" and "heavy (peek p)"
  obtains p' where "parser_next p = Inr (p', peek p)" and "parser_wf p'" and "psize p' < psize p"
  using assms by (auto simp: parser_next_peeked parser_wf_def psize_def)

lemma outcome_weaken:
  "outcome F d d0 p r \<Longrightarrow> F \<subseteq> G \<Longrightarrow> d' \<le> d \<Longrightarrow> d0' \<le> d0 \<Longrightarrow> psize p \<le> psize q \<Longrightarrow> outcome G d' d0' q r"
  by (auto simp: outcome_def split: sum.splits if_splits)

lemma declaration_outcome:
  assumes "parser_wf p" and "hasPeek p" and "isDataType (ttype (peek p))"
  shows "outcome stmt_faults 1 1 p (parser_parseDeclaration p)"
proof -
  have "heavy (peek p)" using assms(3) by (auto simp: heavy_def isDataType_def)
  from parser_next_heavy [OF assms(1,2) this] obtain p1 where
    n: "parser_next p = Inr (p1, peek p)" "parser_wf p1" "psize p1 < psize p" .
  obtain p2 t where n2: "parser_next p1 = Inr (p2, t)" "parser_wf p2" "psize p2 + (if heavy t then 1 else 0) \<le> psize p1"
    by (rule parser_next_ok [OF n(2)])
  have "outcome stmt_faults 1 1 p (bindE (parser_parseAssignment p2 (VARIABLE (trange t))) (\<lambda>(p, assignment).
      parser_check_silent p assignment (parser_expect TK_SEMI_COLON ''expected semicolon after statement'' p (\<lambda>p.
         Inr (p, DECLARATION (ttype (peek p')) assignment)))))" for p'
    by (rule outcome_bind [OF assignment_outcome [OF n2(2)]])
      (use n n2 in \<open>auto simp: parser_check_silent_def intro!: outcome_expect split: if_splits\<close>)
  with n n2 assms(3) show ?thesis by (simp add: parser_parseDeclaration_def parser_check_def)
qed

lemma assignmentOrCall_outcome:
  assumes "parser_wf p" and "hasPeek p" and "ttype (peek p) = TK_ID"
  shows "outcome stmt_faults 1 1 p (parser_parseAssignmentOrCall p)"
proof -
  have "heavy (peek p)" using assms(3) by (auto simp: heavy_def)
  from parser_next_heavy [OF assms(1,2) this] obtain p1 where
    n: "parser_next p = Inr (p1, peek p)" "parser_wf p1" "psize p1 < psize p" .
  obtain p2 where pk: "parser_peekToken p1 = Inr (p2, peek p2)" "parser_wf p2" "psize p2 \<le> psize p1"
    by (rule parser_peek_ok [OF n(2)])
  have "outcome stmt_faults 1 1 p (bindE (parser_parseAssignment p2 v) (\<lambda>(p, result).
      parser_expect TK_SEMI_COLON ''expected semicolon after statement'' p (\<lambda>p. Inr (p, result))))" for v
    by (rule outcome_bind [OF assignment_outcome [OF pk(2)]])
      (use n pk in \<open>auto intro!: outcome_expect split: if_splits\<close>)
  with n pk assms(3) show ?thesis by (simp add: parser_parseAssignmentOrCall_def parser_check_def parser_fail_def)
qed

lemma return_outcome:
  assumes "parser_wf p" and "hasPeek p" and "ttype (peek p) = TK_KW_RETURN"
  shows "outcome stmt_faults 1 1 p (parser_parseReturn p)"
proof -
  have "heavy (peek p)" using assms(3) by (auto simp: heavy_def)
  from parser_next_heavy [OF assms(1,2) this] obtain p1 where
    n: "parser_next p = Inr (p1, peek p)" "parser_wf p1" "psize p1 < psize p" .
  then show ?thesis by (auto simp: parser_parseReturn_def intro!: outcome_expect)
qed

lemma condition_outcome:
  assumes "parser_wf p" and "hasPeek p" and "heavy (peek p)"
    and body: "\<And>p' c. parser_wf p' \<Longrightarrow> psize p' < psize p \<Longrightarrow> outcome stmt_faults 1 0 p (body p' c)"
  shows "outcome stmt_faults 1 0 p
    (bindE (parser_next p) (\<lambda>(p, _).
     parser_expect TK_PARAN_OPEN ''Expected parenthesis, while trying to parse function'' p (\<lambda>p.
     bindE (parser_parseExpression p) (\<lambda>(p, condition).
     parser_check_silent p condition
       (parser_expect TK_PARAN_CLOSE ''Expected parenthesis close, while trying to parse function'' p (\<lambda>p.
        body p condition))))))"
proof -
  from parser_next_heavy [OF assms(1-3)] obtain p1 where
    n: "parser_next p = Inr (p1, peek p)" "parser_wf p1" "psize p1 < psize p" .
  have "outcome stmt_faults 1 0 p
    (parser_expect TK_PARAN_OPEN ''Expected parenthesis, while trying to parse function'' p1 (\<lambda>p.
     bindE (parser_parseExpression p) (\<lambda>(p, condition).
     parser_check_silent p condition
       (parser_expect TK_PARAN_CLOSE ''Expected parenthesis close, while trying to parse function'' p (\<lambda>p.
        body p condition)))))"
  proof (rule outcome_expect)
    fix p2 assume p2: "parser_wf p2" "psize p2 < psize p1"
    then have "outcome stmt_faults 1 1 p2 (parser_parseExpression p2)"
      using expression_outcome by (auto intro: outcome_weaken simp: expr_faults_def stmt_faults_def)
    then show "outcome stmt_faults 1 0 p (bindE (parser_parseExpression p2) (\<lambda>(p, condition).
       parser_check_silent p condition
       (parser_expect TK_PARAN_CLOSE ''Expected parenthesis close, while trying to parse function'' p (\<lambda>p.
        body p condition))))"
      by (rule outcome_bind) (use n p2 in \<open>auto simp: parser_check_silent_def intro!: outcome_expect body split: if_splits simp del: One_nat_def\<close>)
  qed (use n in auto)
  with n(1) show ?thesis by simp
qed

definition loop_outcome :: "parser_t \<Rightarrow> (parser_t \<times> ast_node list option) res \<Rightarrow> bool" where
  "loop_outcome p r \<longleftrightarrow>
     (case r of Inl e \<Rightarrow> e \<in> stmt_faults | Inr (p', xs) \<Rightarrow> parser_wf p' \<and> psize p' \<le> psize p)"

lemma loop_outcome_simps [simp]:
  "loop_outcome p (Inl e) \<longleftrightarrow> e \<in> stmt_faults"
  "loop_outcome p (Inr (p', xs)) \<longleftrightarrow> parser_wf p' \<and> psize p' \<le> psize p"
  by (simp_all add: loop_outcome_def)

lemma block_outcome_all:
  "\<forall>p xs. parser_wf p \<longrightarrow>
     (3 * psize p + 1 \<le> fuel \<longrightarrow> hasPeek p \<longrightarrow> heavy (peek p) \<longrightarrow>
        outcome stmt_faults 1 0 p (parser_parseIf fuel p) \<and> outcome stmt_faults 1 0 p (parser_parseWhile fuel p)) \<and>
     (3 * psize p + 2 \<le> fuel \<longrightarrow> outcome stmt_faults 1 0 p (parser_parseStatement fuel p)) \<and>
     (3 * psize p + 3 \<le> fuel \<longrightarrow> loop_outcome p (block_loop fuel p xs)) \<and>
     (3 * psize p + 3 \<le> fuel \<longrightarrow> outcome stmt_faults 1 0 p (parser_parseBlock_fuel fuel p))"
proof (induction fuel)
  case 0
  then show ?case by simp
next
  case (Suc fuel)
  have stmt: "outcome stmt_faults 1 0 p (parser_parseStatement fuel p)"
    if "parser_wf p" "3 * psize p + 2 \<le> fuel" for p using Suc that by blast
  have loop: "loop_outcome p (block_loop fuel p xs)"
    if "parser_wf p" "3 * psize p + 3 \<le> fuel" for p xs using Suc that by blast
  have block: "outcome stmt_faults 1 0 p (parser_parseBlock_fuel fuel p)"
    if "parser_wf p" "3 * psize p + 3 \<le> fuel" for p using Suc that by blast
  have body: "outcome stmt_faults 1 0 p (bindE (parser_parseBlock_fuel fuel p') (\<lambda>(p, block).
      parser_check_silent p block (Inr (p, g block))))"
    if "3 * psize p + 1 \<le> Suc fuel" "parser_wf p'" "psize p' < psize p" "\<And>b. number_ok (g b)"
    for p p' and g :: "ast_node \<Rightarrow> ast_node"
    by (rule outcome_bind [OF block [OF that(2)]])
      (use that in \<open>auto simp: parser_check_silent_def split: if_splits\<close>)
  have "outcome stmt_faults 1 0 p (parser_parseIf (Suc fuel) p) \<and> outcome stmt_faults 1 0 p (parser_parseWhile (Suc fuel) p)"
    if wf: "parser_wf p" and f: "3 * psize p + 1 \<le> Suc fuel" and pk: "hasPeek p" "heavy (peek p)" for p
    unfolding parser_parseIf.simps parser_parseWhile.simps
    using condition_outcome [OF wf pk body [OF f]] by simp
  moreover have "outcome stmt_faults 1 0 p (parser_parseStatement (Suc fuel) p)"
    if wf: "parser_wf p" and f: "3 * psize p + 2 \<le> Suc fuel" for p
  proof -
    obtain p1 where pk: "parser_peekToken p = Inr (p1, peek p1)" "parser_wf p1" "hasPeek p1" "psize p1 \<le> psize p"
      by (rule parser_peek_ok [OF wf])
    have "outcome stmt_faults 1 0 p1 (parser_parseIf fuel p1) \<and> outcome stmt_faults 1 0 p1 (parser_parseWhile fuel p1)"
      if "heavy (peek p1)" using Suc pk f that by simp
    then have "outcome stmt_faults 1 0 p (parser_parseIf fuel p1) \<and> outcome stmt_faults 1 0 p (parser_parseWhile fuel p1)"
      if "heavy (peek p1)" using that pk(4) by (auto intro: outcome_weaken)
    moreover have "isDataType (ttype (peek p1)) \<Longrightarrow> outcome stmt_faults 1 0 p (parser_parseDeclaration p1)"
      "ttype (peek p1) = TK_ID \<Longrightarrow> outcome stmt_faults 1 0 p (parser_parseAssignmentOrCall p1)"
      "ttype (peek p1) = TK_KW_RETURN \<Longrightarrow> outcome stmt_faults 1 0 p (parser_parseReturn p1)"
      using declaration_outcome [OF pk(2,3)] assignmentOrCall_outcome [OF pk(2,3)] return_outcome [OF pk(2,3)] pk(4)
      by (auto intro: outcome_weaken)
    ultimately show ?thesis using pk by (simp add: heavy_def parser_fail_def)
  qed
  moreover have "loop_outcome p (block_loop (Suc fuel) p xs)"
    if wf: "parser_wf p" and f: "3 * psize p + 3 \<le> Suc fuel" for p xs
  proof -
    obtain p1 where pk: "parser_peekToken p = Inr (p1, peek p1)" "parser_wf p1" "psize p1 \<le> psize p"
      by (rule parser_peek_ok [OF wf])
    have "outcome stmt_faults 1 0 p1 (parser_parseStatement fuel p1)"
      by (rule stmt [OF pk(2)]) (use pk(3) f in simp)
    then show ?thesis
    proof (cases rule: outcomeE)
      case (2 p2 node)
      have "loop_outcome p (block_loop fuel p2 ys)" if "node \<noteq> Null" for ys
        using loop [OF 2(2), of ys] 2 that pk(3) f
        by (cases "block_loop fuel p2 ys") (auto simp: loop_outcome_def)
      with 2 pk show ?thesis by (auto simp: push_statement_eq stmt_faults_def split: if_splits)
    qed (use pk in auto)
  qed
  moreover have "outcome stmt_faults 1 0 p (parser_parseBlock_fuel (Suc fuel) p)"
    if wf: "parser_wf p" and f: "3 * psize p + 3 \<le> Suc fuel" for p
  proof -
    obtain p1 where pk: "parser_peekToken p = Inr (p1, peek p1)" "parser_wf p1" "hasPeek p1" "psize p1 \<le> psize p"
      by (rule parser_peek_ok [OF wf])
    show ?thesis
    proof (cases "ttype (peek p1) = TK_CURLY_OPEN")
      case True
      then have "heavy (peek p1)" by (simp add: heavy_def)
      from parser_next_heavy [OF pk(2,3) this] obtain p2 where
        n: "parser_next p1 = Inr (p2, peek p1)" "parser_wf p2" "psize p2 < psize p1" .
      have l: "loop_outcome p2 (block_loop fuel p2 [])"
        by (rule loop [OF n(2)]) (use n pk f in simp)
      show ?thesis
      proof (cases "block_loop fuel p2 []")
        case (Inl e)
        with l n pk True show ?thesis by simp
      next
        case (Inr z)
        then obtain p3 st where p3: "block_loop fuel p2 [] = Inr (p3, st)" "parser_wf p3" "psize p3 \<le> psize p2"
          using l by (cases z) auto
        obtain p4 t where "parser_next p3 = Inr (p4, t)" "parser_wf p4" "psize p4 + (if heavy t then 1 else 0) \<le> psize p3"
          by (rule parser_next_ok [OF p3(2)])
        with p3 n pk True show ?thesis by (cases st) (auto split: if_splits)
      qed
    next
      case False
      have "outcome stmt_faults 1 0 p1 (parser_parseStatement fuel p1)"
        by (rule stmt [OF pk(2)]) (use pk(4) f in simp)
      then show ?thesis
        by (cases rule: outcomeE) (use pk False in \<open>auto simp: push_statement_eq split: if_splits\<close>)
    qed
  qed
  ultimately show ?case by blast
qed

lemma block_outcome: "parser_wf p \<Longrightarrow> outcome stmt_faults 1 0 p (parser_parseBlock p)"
  using block_outcome_all [of "parser_fuel p"] psize_le [of p]
  by (simp add: parser_parseBlock_def parser_fuel_def)

lemma block_fuel_Suc:
  assumes "\<And>p. fuel_le (parser_parseIf n p) (parser_parseIf m p)"
    and "\<And>p. fuel_le (parser_parseWhile n p) (parser_parseWhile m p)"
    and "\<And>p. fuel_le (parser_parseStatement n p) (parser_parseStatement m p)"
    and "\<And>p xs. fuel_le (block_loop n p xs) (block_loop m p xs)"
    and "\<And>p. fuel_le (parser_parseBlock_fuel n p) (parser_parseBlock_fuel m p)"
  shows "fuel_le (parser_parseIf (Suc n) p) (parser_parseIf (Suc m) p)"
    and "fuel_le (parser_parseWhile (Suc n) p) (parser_parseWhile (Suc m) p)"
    and "fuel_le (parser_parseStatement (Suc n) p) (parser_parseStatement (Suc m) p)"
    and "fuel_le (block_loop (Suc n) p xs) (block_loop (Suc m) p xs)"
    and "fuel_le (parser_parseBlock_fuel (Suc n) p) (parser_parseBlock_fuel (Suc m) p)"
  unfolding parser_parseIf.simps parser_parseWhile.simps parser_parseStatement.simps block_loop.simps
    parser_parseBlock_fuel.simps parser_steps Let_def
  by (intro fuel_intros assms)+

lemma block_fuel_step:
  "fuel_le (parser_parseIf fuel p) (parser_parseIf (Suc fuel) p)"
  "fuel_le (parser_parseWhile fuel p) (parser_parseWhile (Suc fuel) p)"
  "fuel_le (parser_parseStatement fuel p) (parser_parseStatement (Suc fuel) p)"
  "fuel_le (block_loop fuel p xs) (block_loop (Suc fuel) p xs)"
  "fuel_le (parser_parseBlock_fuel fuel p) (parser_parseBlock_fuel (Suc fuel) p)"
proof (induction fuel arbitrary: p xs)
  case 0
  show "fuel_le (parser_parseIf 0 p) (parser_parseIf (Suc 0) p)"
    "fuel_le (parser_parseWhile 0 p) (parser_parseWhile (Suc 0) p)"
    "fuel_le (parser_parseStatement 0 p) (parser_parseStatement (Suc 0) p)"
    "fuel_le (block_loop 0 p xs) (block_loop (Suc 0) p xs)"
    "fuel_le (parser_parseBlock_fuel 0 p) (parser_parseBlock_fuel (Suc 0) p)" for p xs
    by (simp_all add: fuel_le_out del: parser_parseIf.simps(2) parser_parseWhile.simps(2)
        parser_parseStatement.simps(2) block_loop.simps(2) parser_parseBlock_fuel.simps(2))
next
  case (Suc fuel)
  show "fuel_le (parser_parseIf (Suc fuel) p) (parser_parseIf (Suc (Suc fuel)) p)"
    "fuel_le (parser_parseWhile (Suc fuel) p) (parser_parseWhile (Suc (Suc fuel)) p)"
    "fuel_le (parser_parseStatement (Suc fuel) p) (parser_parseStatement (Suc (Suc fuel)) p)"
    "fuel_le (block_loop (Suc fuel) p xs) (block_loop (Suc (Suc fuel)) p xs)"
    "fuel_le (parser_parseBlock_fuel (Suc fuel) p) (parser_parseBlock_fuel (Suc (Suc fuel)) p)" for p xs
    using block_fuel_Suc [OF Suc] by blast+
qed

lemma block_fuel:
  assumes "parser_parseBlock_fuel fuel p = r" and "r \<noteq> Inl OutOfFuel" and "parser_wf p"
  shows "parser_parseBlock p = r"
proof -
  let ?f = "\<lambda>n. parser_parseBlock_fuel n p"
  have step: "fuel_le (?f n) (?f (Suc n))" for n by (rule block_fuel_step)
  have "parser_parseBlock p \<noteq> Inl OutOfFuel"
    using block_outcome [OF assms(3)] by (auto simp: stmt_faults_def)
  then show ?thesis
    using fuel_leD [OF fuel_mono [of ?f, OF step, of fuel "max fuel (parser_fuel p)"]]
      fuel_leD [OF fuel_mono [of ?f, OF step, of "parser_fuel p" "max fuel (parser_fuel p)"]] assms(1,2)
    by (simp add: parser_parseBlock_def)
qed

lemma function_outcome:
  assumes "parser_wf p"
  shows "outcome stmt_faults 1 0 p (parser_parseFunction p)"
proof -
  obtain p1 t1 where n1: "parser_next p = Inr (p1, t1)" "parser_wf p1" "psize p1 + (if heavy t1 then 1 else 0) \<le> psize p"
    by (rule parser_next_ok [OF assms])
  obtain p2 t2 where n2: "parser_next p1 = Inr (p2, t2)" "parser_wf p2" "psize p2 + (if heavy t2 then 1 else 0) \<le> psize p1"
    by (rule parser_next_ok [OF n1(2)])
  have le: "psize p1 \<le> psize p" "psize p2 \<le> psize p" using n1(3) n2(3) by (auto split: if_splits)
  have "outcome stmt_faults 1 0 p (parser_expect TK_PARAN_OPEN ''expteced a '(' for function argument list'' p2 (\<lambda>p.
     parser_expect TK_PARAN_CLOSE ''expteced ')' to terminate a function argument list.'' p (\<lambda>p.
       bindE (parser_parseBlock p) (\<lambda>(p, block).
         parser_check_silent p block (Inr (p, FUNCTION (trange t2) (ttype t1) 0 [block]))))))"
  proof (rule outcome_expect, goal_cases)
    case (4 p3)
    show ?case
    proof (rule outcome_expect, goal_cases)
      case (4 p4)
      show ?case
        by (rule outcome_bind [OF block_outcome [OF 4(1)]])
          (use 4 \<open>psize p3 < psize p2\<close> le in \<open>auto simp: parser_check_silent_def number_ok_def split: if_splits\<close>)
    qed (use 4 le in auto)
  qed (use n2 le in auto)
  with n1 n2 le show ?thesis by (simp add: parser_parseFunction_def parser_check_def parser_fail_def)
qed


section \<open>Operator precedence\<close>

text \<open>
  Expressions without the source ranges, and what the rotations of \<open>parser_parseBinary\<close> make of a
  first operand and a list of operators with their right operands.
\<close>

datatype expr = Num nat | Var string | Bin token_type expr expr

fun abs_expr :: "ast_node \<Rightarrow> expr option" where
  "abs_expr (NUMBER n) = (if 0 \<le> n then Some (Num (nat n)) else None)"
| "abs_expr (VARIABLE v) = Some (Var (range_view v))"
| "abs_expr (BINARY_EXP op l r) =
     (case (abs_expr l, abs_expr r) of (Some a, Some b) \<Rightarrow> Some (Bin op a b) | _ \<Rightarrow> None)"
| "abs_expr _ = None"

fun rot :: "int \<Rightarrow> expr \<Rightarrow> expr" where
  "rot k (Bin ro (Bin lo a z) r) =
     (if k < getPresedence ro then Bin lo a (Bin ro z r) else Bin ro (Bin lo a z) r)"
| "rot k e = e"

fun climb :: "expr \<Rightarrow> (token_type \<times> expr) list \<Rightarrow> expr" where
  "climb l [] = l"
| "climb l ((op, a) # ops) = rot (getPresedence op) (climb (Bin op l a) ops)"

text \<open>The operands and operators of a tree from left to right.\<close>

fun inorder :: "expr \<Rightarrow> expr list \<times> token_type list" where
  "inorder (Bin op l r) =
     (case (inorder l, inorder r) of ((as, ops), (bs, ops')) \<Rightarrow> (as @ bs, ops @ op # ops'))"
| "inorder e = ([e], [])"

lemma inorder_rot [simp]: "inorder (rot k e) = inorder e"
  by (induction k e rule: rot.induct) (auto split: prod.splits)

lemma inorder_Bin:
  "inorder (Bin op l r) =
     (fst (inorder l) @ fst (inorder r), snd (inorder l) @ op # snd (inorder r))"
  by (simp split: prod.splits)

lemma inorder_climb:
  "inorder (climb l ops) =
     (fst (inorder l) @ concat (map (fst \<circ> inorder \<circ> snd) ops),
      snd (inorder l) @ concat (map (\<lambda>(op, a). op # snd (inorder a)) ops))"
  by (induction l ops rule: climb.induct) (simp_all add: inorder_Bin del: inorder.simps(1))

text \<open>
  The reference: the tree of an operator list by precedence, left-associative: the last operator of
  lowest precedence is the root, the operators before and behind it make the subtrees.
\<close>

definition lowest :: "(token_type \<times> expr) list \<Rightarrow> int" where
  "lowest ops = Min (set (map (getPresedence \<circ> fst) ops))"

fun split_last :: "int \<Rightarrow> (token_type \<times> expr) list \<Rightarrow>
    ((token_type \<times> expr) list \<times> (token_type \<times> expr) \<times> (token_type \<times> expr) list) option" where
  "split_last k [] = None"
| "split_last k (x # xs) =
     (case split_last k xs of
        Some (pre, y, post) \<Rightarrow> Some (x # pre, y, post)
      | None \<Rightarrow> if getPresedence (fst x) = k then Some ([], x, xs) else None)"

lemma split_last_Some: "split_last k xs = Some (pre, y, post) \<Longrightarrow>
    xs = pre @ y # post \<and> getPresedence (fst y) = k \<and> (\<forall>z \<in> set post. getPresedence (fst z) \<noteq> k)"
proof (induction xs arbitrary: pre)
  case (Cons x xs)
  show ?case
  proof (cases "split_last k xs")
    case None
    moreover have "split_last k xs = None \<Longrightarrow> \<forall>z \<in> set xs. getPresedence (fst z) \<noteq> k" for xs
      by (induction xs) (auto split: option.splits if_splits)
    ultimately show ?thesis using Cons.prems by (auto split: if_splits)
  next
    case (Some t)
    with Cons show ?thesis by (cases t) auto
  qed
qed simp

lemma split_last_unique:
  "getPresedence (fst y) = k \<Longrightarrow> \<forall>z \<in> set post. getPresedence (fst z) \<noteq> k \<Longrightarrow>
   split_last k (pre @ y # post) = Some (pre, y, post)"
proof (induction pre)
  case Nil
  have "\<forall>z \<in> set xs. getPresedence (fst z) \<noteq> k \<Longrightarrow> split_last k xs = None" for xs
    by (induction xs) auto
  with Nil show ?case by simp
qed simp

function prec_tree :: "expr \<Rightarrow> (token_type \<times> expr) list \<Rightarrow> expr" where
  "prec_tree l ops =
     (case split_last (lowest ops) ops of
        None \<Rightarrow> l
      | Some (pre, (op, a), post) \<Rightarrow> Bin op (prec_tree l pre) (prec_tree a post))"
  by pat_completeness auto
termination
  by (relation "measure (\<lambda>(l, ops). length ops)") (auto dest: split_last_Some)

declare prec_tree.simps [simp del]

lemma prec_tree_Nil [simp]: "prec_tree l [] = l"
  by (simp add: prec_tree.simps)

lemma prec_tree_split:
  assumes "\<forall>z \<in> set pre. getPresedence op \<le> getPresedence (fst z)"
    and "\<forall>z \<in> set post. getPresedence op < getPresedence (fst z)"
  shows "prec_tree l (pre @ (op, a) # post) = Bin op (prec_tree l pre) (prec_tree a post)"
proof -
  have "lowest (pre @ (op, a) # post) = getPresedence op"
    unfolding lowest_def by (rule Min_eqI) (use assms in force)+
  moreover have "split_last (getPresedence op) (pre @ (op, a) # post) = Some (pre, (op, a), post)"
    by (rule split_last_unique) (use assms(2) in auto)
  ultimately show ?thesis by (subst prec_tree.simps) simp
qed

abbreviation prec :: "token_type \<times> expr \<Rightarrow> int" where
  "prec x \<equiv> getPresedence (fst x)"

text \<open>Operators of falling precedence are built to the left, of rising precedence to the right.\<close>

lemma rot_id [simp]: "getPresedence op \<le> k \<Longrightarrow> rot k (Bin op l r) = Bin op l r"
  by (cases l) simp_all

lemma climb_rising:
  "sorted_wrt (\<lambda>x y. prec x < prec y) ((op, a) # ops) \<Longrightarrow>
   climb l ((op, a) # ops) = Bin op l (climb a ops)"
proof (induction ops arbitrary: l op a)
  case Nil
  then show ?case by simp
next
  case (Cons x ops)
  obtain op' b where x: "x = (op', b)" by (cases x)
  from Cons.prems have s: "sorted_wrt (\<lambda>x y. prec x < prec y) ((op', b) # ops)" and lt: "getPresedence op < getPresedence op'"
    by (simp_all add: x)
  have "climb (Bin op l a) ((op', b) # ops) = Bin op' (Bin op l a) (climb b ops)" by (rule Cons.IH [OF s])
  moreover have "climb a ((op', b) # ops) = Bin op' a (climb b ops)" by (rule Cons.IH [OF s])
  ultimately show ?case using lt by (simp add: x)
qed

lemma prec_tree_rising:
  "sorted_wrt (\<lambda>x y. prec x < prec y) ops \<Longrightarrow> prec_tree l ops = climb l ops"
proof (induction ops arbitrary: l)
  case (Cons x ops)
  obtain op a where x: "x = (op, a)" by (cases x)
  have "prec_tree l ([] @ (op, a) # ops) = Bin op (prec_tree l []) (prec_tree a ops)"
    by (rule prec_tree_split) (use Cons.prems x in auto)
  with Cons climb_rising [of op a ops l] show ?case by (simp add: x del: climb.simps(2))
qed simp

definition left_chain :: "expr \<Rightarrow> (token_type \<times> expr) list \<Rightarrow> expr" where
  "left_chain l ops = foldl (\<lambda>t (op, a). Bin op t a) l ops"

lemma left_chain_simps [simp]:
  "left_chain l [] = l" "left_chain l ((op, a) # ops) = left_chain (Bin op l a) ops"
  "left_chain l (ops @ [(op, a)]) = Bin op (left_chain l ops) a"
  by (simp_all add: left_chain_def)

lemma climb_falling:
  "sorted_wrt (\<lambda>x y. prec y \<le> prec x) ds \<Longrightarrow> climb l ds = left_chain l ds"
proof (induction ds arbitrary: l)
  case (Cons d ds)
  obtain op b where d: "d = (op, b)" by (cases d)
  have "rot (getPresedence op) (left_chain (Bin op l b) ds) = left_chain (Bin op l b) ds"
    using Cons.prems by (cases ds rule: rev_cases) (auto simp: d)
  with Cons show ?case by (simp add: d)
qed simp

lemma prec_tree_falling:
  "sorted_wrt (\<lambda>x y. prec y \<le> prec x) ds \<Longrightarrow> prec_tree l ds = left_chain l ds"
proof (induction ds rule: rev_induct)
  case (snoc d ds)
  obtain op a where d: "d = (op, a)" by (cases d)
  have "prec_tree l (ds @ (op, a) # []) = Bin op (prec_tree l ds) (prec_tree a [])"
    by (rule prec_tree_split) (use snoc.prems d in \<open>auto simp: sorted_wrt_append\<close>)
  with snoc show ?case by (simp add: d sorted_wrt_append)
qed simp

lemma climb_valley:
  assumes "sorted_wrt (\<lambda>x y. prec y \<le> prec x) (ds @ [(op, a)])"
    and "sorted_wrt (\<lambda>x y. prec x < prec y) ((op, a) # rs)"
  shows "climb l (ds @ (op, a) # rs) = Bin op (left_chain l ds) (climb a rs)"
  using assms(1)
proof (induction ds arbitrary: l)
  case Nil
  show ?case using climb_rising [OF assms(2)] by simp
next
  case (Cons d ds)
  obtain op' b where d: "d = (op', b)" by (cases d)
  have falling: "sorted_wrt (\<lambda>x y. prec y \<le> prec x) (ds @ [(op, a)])" and le: "getPresedence op \<le> getPresedence op'"
    using Cons.prems by (simp_all add: d)
  with Cons.IH [OF falling, of "Bin op' l b"] show ?case by (simp add: d)
qed

lemma climb_prec_tree:
  assumes "sorted_wrt (\<lambda>x y. prec y \<le> prec x) (ds @ [(op, a)])"
    and "sorted_wrt (\<lambda>x y. prec x < prec y) ((op, a) # rs)"
  shows "climb l (ds @ (op, a) # rs) = prec_tree l (ds @ (op, a) # rs)"
proof -
  have "prec_tree l (ds @ (op, a) # rs) = Bin op (prec_tree l ds) (prec_tree a rs)"
    by (rule prec_tree_split) (use assms in \<open>auto simp: sorted_wrt_append\<close>)
  also have "prec_tree l ds = left_chain l ds"
    using assms(1) by (intro prec_tree_falling) (simp add: sorted_wrt_append)
  also have "prec_tree a rs = climb a rs"
    using assms(2) by (intro prec_tree_rising) simp
  finally show ?thesis using climb_valley [OF assms] by simp
qed

section \<open>Parsing printed programs\<close>

text \<open>
  Concrete syntax: an item is a number, a name, or an expression in parentheses; an expression is an
  item followed by operators with items.
\<close>

datatype item = INum nat | IVar string | IParen item "(token_type \<times> item) list"

fun op_text :: "token_type \<Rightarrow> string" where
  "op_text TK_PLUS = ''+''"
| "op_text TK_MINUS = ''-''"
| "op_text TK_MUL = ''*''"
| "op_text TK_DIV = ''/''"
| "op_text TK_EQUALS = ''==''"
| "op_text _ = ''''"

abbreviation binary_ops :: "token_type set" where
  "binary_ops \<equiv> {TK_PLUS, TK_MINUS, TK_MUL, TK_DIV, TK_EQUALS}"

definition decimal_text :: "nat \<Rightarrow> string" where
  "decimal_text n = map byte_char (decimal_bytes n)"

fun item_tokens :: "item \<Rightarrow> (token_type \<times> string) list" where
  "item_tokens (INum n) = [(TK_NUMBER, decimal_text n)]"
| "item_tokens (IVar s) = [(TK_ID, s)]"
| "item_tokens (IParen i ops) = (TK_PARAN_OPEN, ''('') # item_tokens i @
     concat (map (\<lambda>(op, j). (op, op_text op) # item_tokens j) ops) @ [(TK_PARAN_CLOSE, '')'')]"

abbreviation ops_tokens :: "(token_type \<times> item) list \<Rightarrow> (token_type \<times> string) list" where
  "ops_tokens ops \<equiv> concat (map (\<lambda>(op, j). (op, op_text op) # item_tokens j) ops)"

fun item_tree :: "item \<Rightarrow> expr" where
  "item_tree (INum n) = Num n"
| "item_tree (IVar s) = Var s"
| "item_tree (IParen i ops) = climb (item_tree i) (map (\<lambda>(op, j). (op, item_tree j)) ops)"

abbreviation ops_trees :: "(token_type \<times> item) list \<Rightarrow> (token_type \<times> expr) list" where
  "ops_trees \<equiv> map (\<lambda>(op, j). (op, item_tree j))"

fun item_ok :: "item \<Rightarrow> bool" where
  "item_ok (INum n) \<longleftrightarrow> n < 2 ^ 31"
| "item_ok (IVar s) \<longleftrightarrow> lexeme (TK_ID, s)"
| "item_ok (IParen i ops) \<longleftrightarrow> item_ok i \<and> (\<forall>(op, j) \<in> set ops. op \<in> binary_ops \<and> item_ok j)"

abbreviation ops_ok :: "(token_type \<times> item) list \<Rightarrow> bool" where
  "ops_ok ops \<equiv> \<forall>(op, j) \<in> set ops. op \<in> binary_ops \<and> item_ok j"

text \<open>The tokens a parser will see next.\<close>

fun reader_yields :: "reader \<Rightarrow> (token_type \<times> string) list \<Rightarrow> bool" where
  "reader_yields r [] \<longleftrightarrow> True"
| "reader_yields r (tk # ts) \<longleftrightarrow>
     (\<exists>r' t. token_next r = Inr (r', t) \<and> tok_text t = tk \<and> reader_yields r' ts)"

definition yields :: "parser_t \<Rightarrow> (token_type \<times> string) list \<Rightarrow> bool" where
  "yields p ts \<longleftrightarrow> parser_wf p \<and>
     (if hasPeek p \<and> ts \<noteq> [] then tok_text (peek p) = hd ts \<and> reader_yields (preader p) (tl ts)
      else reader_yields (preader p) ts)"

lemma yields_wf: "yields p ts \<Longrightarrow> parser_wf p"
  by (simp add: yields_def)

lemma parser_wf_cases:
  "parser_wf p \<Longrightarrow> reader_wf (preader p)" "parser_wf p \<Longrightarrow> hasPeek p \<Longrightarrow> token_wf (peek p)"
  by (simp_all add: parser_wf_def)

lemma yields_next:
  assumes "yields p (tk # ts)"
  obtains p' t where "parser_next p = Inr (p', t)" and "tok_text t = tk" and "yields p' ts" and "perror p' = perror p"
proof (cases "hasPeek p")
  case True
  with assms that [of "p\<lparr>peek := zero_token TK_ERROR, hasPeek := False\<rparr>" "peek p"] show ?thesis
    by (simp add: yields_def parser_next_def parser_wf_def)
next
  case False
  have wf: "reader_wf (preader p)" using yields_wf [OF assms] by (rule parser_wf_cases)
  from assms False obtain r' t where t: "token_next (preader p) = Inr (r', t)" "tok_text t = tk" "reader_yields r' ts"
    by (auto simp: yields_def)
  moreover have "reader_wf r'" using token_next_wf [OF wf] t(1) by (metis prod.inject sum.inject(2))
  ultimately show ?thesis using that [of "p\<lparr>preader := r'\<rparr>" t] False
    by (simp add: yields_def parser_next_def parser_wf_def)
qed

lemma yields_peek:
  assumes "yields p (tk # ts)"
  obtains p' where "parser_peekToken p = Inr (p', peek p')" and "tok_text (peek p') = tk"
    and "yields p' (tk # ts)" and "perror p' = perror p"
proof (cases "hasPeek p")
  case True
  then have "p\<lparr>hasPeek := True\<rparr> = p" by simp
  with True assms that [of p] show ?thesis by (simp add: yields_def parser_peekToken_def)
next
  case False
  have wf: "reader_wf (preader p)" using yields_wf [OF assms] by (rule parser_wf_cases)
  from assms False obtain r' t where t: "token_next (preader p) = Inr (r', t)" "tok_text t = tk" "reader_yields r' ts"
    by (auto simp: yields_def)
  moreover have "reader_wf r'" "token_wf t" using token_next_wf [OF wf] t(1) by (metis prod.inject sum.inject(2))+
  ultimately show ?thesis using that [of "p\<lparr>preader := r', peek := t, hasPeek := True\<rparr>"] False
    by (simp add: yields_def parser_peekToken_def parser_wf_def)
qed

lemma yields_expect:
  assumes "yields p ((ty, s) # ts)"
  obtains p' where "\<And>msg k. parser_expect ty msg p k = k p'" and "yields p' ts" and "perror p' = perror p"
proof -
  obtain p' t where "parser_next p = Inr (p', t)" "tok_text t = (ty, s)" "yields p' ts" "perror p' = perror p"
    by (rule yields_next [OF assms])
  with that [of p'] show ?thesis by (auto simp: parser_steps tok_text_def)
qed

text \<open>
  A parser function run on \<open>p\<close> gives the node \<open>node\<close> whatever the fuel, from some amount on, and
  leaves the tokens \<open>ts\<close>.
\<close>

definition gives :: "(nat \<Rightarrow> parse) \<Rightarrow> parser_t \<Rightarrow> (token_type \<times> string) list \<Rightarrow> (ast_node \<Rightarrow> bool) \<Rightarrow> bool" where
  "gives f p ts P \<longleftrightarrow>
     (\<exists>n p' node. (\<forall>m \<ge> n. f m = Inr (p', node)) \<and> yields p' ts \<and> perror p' = perror p \<and> P node)"

lemma givesE:
  assumes "gives f p ts P"
  obtains n p' node where "\<forall>m \<ge> n. f m = Inr (p', node)" and "yields p' ts"
    and "perror p' = perror p" and "P node"
  using assms unfolding gives_def by blast

lemma gives_return:
  "yields p' ts \<Longrightarrow> perror p' = perror p \<Longrightarrow> P node \<Longrightarrow> gives (\<lambda>m. Inr (p', node)) p ts P"
  unfolding gives_def by blast

lemma gives_done: "yields p ts \<Longrightarrow> P node \<Longrightarrow> gives (\<lambda>m. Inr (p, node)) p ts P"
  by (simp add: gives_return)

lemma gives_cong: "(\<And>m. f m = g m) \<Longrightarrow> gives g p ts P \<Longrightarrow> gives f p ts P"
  unfolding gives_def by simp

lemma gives_Suc:
  assumes "\<And>m. h (Suc m) = f m" and "gives f p ts P"
  shows "gives h p ts P"
proof -
  from assms(2) obtain n p' node where f: "\<forall>m \<ge> n. f m = Inr (p', node)"
    and "yields p' ts" "perror p' = perror p" "P node" by (rule givesE)
  moreover have "\<forall>m \<ge> Suc n. h m = Inr (p', node)"
    using f assms(1) by (metis Suc_le_D Suc_le_mono)
  ultimately show ?thesis unfolding gives_def by blast
qed

lemma gives_bind:
  assumes "gives f p ts P"
    and "\<And>p' node. yields p' ts \<Longrightarrow> perror p' = perror p \<Longrightarrow> P node \<Longrightarrow> gives (\<lambda>m. k m (p', node)) p' ts' Q"
  shows "gives (\<lambda>m. bindE (f m) (k m)) p ts' Q"
proof -
  from assms(1) obtain n p' node where f: "\<forall>m \<ge> n. f m = Inr (p', node)"
    and 1: "yields p' ts" "perror p' = perror p" "P node" by (rule givesE)
  from assms(2) [OF 1] obtain n' p'' node' where g: "\<forall>m \<ge> n'. k m (p', node) = Inr (p'', node')"
    and 2: "yields p'' ts'" "perror p'' = perror p'" "Q node'" by (rule givesE)
  have "\<forall>m \<ge> max n n'. bindE (f m) (k m) = Inr (p'', node')" using f g by simp
  with 1 2 show ?thesis unfolding gives_def by metis
qed

lemma gives_perror: "gives f p' ts P \<Longrightarrow> perror p' = perror p \<Longrightarrow> gives f p ts P"
  unfolding gives_def by simp

lemma gives_next:
  assumes "yields p (tk # ts)"
    and "\<And>p' t. tok_text t = tk \<Longrightarrow> yields p' ts \<Longrightarrow> perror p' = perror p \<Longrightarrow> gives (\<lambda>m. k m (p', t)) p' ts' Q"
  shows "gives (\<lambda>m. bindE (parser_next p) (k m)) p ts' Q"
proof -
  obtain p' t where "parser_next p = Inr (p', t)" "tok_text t = tk" "yields p' ts" "perror p' = perror p"
    by (rule yields_next [OF assms(1)])
  with assms(2) gives_perror [of _ p' _ _ p] show ?thesis by simp
qed

lemma gives_peek:
  assumes "yields p (tk # ts)"
    and "\<And>p'. tok_text (peek p') = tk \<Longrightarrow> yields p' (tk # ts) \<Longrightarrow> perror p' = perror p \<Longrightarrow>
      gives (\<lambda>m. k m (p', peek p')) p' ts' Q"
  shows "gives (\<lambda>m. bindE (parser_peekToken p) (k m)) p ts' Q"
proof -
  obtain p' where "parser_peekToken p = Inr (p', peek p')" "tok_text (peek p') = tk" "yields p' (tk # ts)"
    "perror p' = perror p" by (rule yields_peek [OF assms(1)])
  with assms(2) gives_perror [of _ p' _ _ p] show ?thesis by simp
qed

lemma gives_expect:
  assumes "yields p ((ty, s) # ts)"
    and "\<And>p'. yields p' ts \<Longrightarrow> perror p' = perror p \<Longrightarrow> gives (\<lambda>m. k m p') p' ts' Q"
  shows "gives (\<lambda>m. parser_expect ty msg p (k m)) p ts' Q"
  unfolding parser_expect_def
  by (rule gives_next [OF assms(1)]) (use assms(2) in \<open>auto simp: parser_check_def tok_text_def\<close>)

definition tree_is :: "expr \<Rightarrow> ast_node \<Rightarrow> bool" where
  "tree_is e node \<longleftrightarrow> abs_expr node = Some e"

lemma tree_is_not_Null [simp]: "tree_is e node \<Longrightarrow> node \<noteq> Null"
  by (auto simp: tree_is_def)

lemma rotate_result_tree:
  assumes "tree_is e node" and "\<exists>op l r. e = Bin op l r"
  shows "\<exists>node'. rotate_result k node = Inr node' \<and> tree_is (rot k e) node'"
proof -
  from assms obtain op l r where node: "node = BINARY_EXP op l r"
    by (cases node) (auto simp: tree_is_def split: if_splits option.splits)
  with assms(1) obtain a b where ab: "abs_expr l = Some a" "abs_expr r = Some b" "e = Bin op a b"
    by (auto simp: tree_is_def split: option.splits)
  then show ?thesis
    by (cases l) (auto simp: node tree_is_def split: option.splits if_splits)
qed

lemma rot_Bin: "\<exists>op' l' r'. rot k (Bin op l r) = Bin op' l' r'"
  by (cases l) auto

lemma climb_Bin: "ops \<noteq> [] \<Longrightarrow> \<exists>op l' r. climb l ops = Bin op l' r"
proof (induction l ops rule: climb.induct)
  case (2 l op a ops)
  show ?case
  proof (cases ops)
    case Nil
    then show ?thesis using rot_Bin by simp
  next
    case (Cons x xs)
    with 2 rot_Bin show ?thesis by (metis climb.simps(2) list.distinct(1))
  qed
qed simp

lemma number_literal:
  assumes "n < 2 ^ 31" and "range_view rg = decimal_text n"
  shows "range_parseInt rg = Inr (int n)"
proof -
  from decimal_hd_digit obtain d ds where d: "decimal n = d # ds" "d < 10" by blast
  then have v: "range_view rg = byte_char (digit_byte d) # map (byte_char \<circ> digit_byte) ds"
    using assms(2) by (simp add: decimal_text_def decimal_bytes_def)
  have "parse_loop 1 0 (byte_char (digit_byte d) # map (byte_char \<circ> digit_byte) ds) = Inr (int n)"
    using parse_decimal [of 1 INT_MAX n] assms(1)
    by (simp add: INT_MAX_def decimal_bytes_def d del: parse_loop.simps)
  moreover have "longE (int n) = Inr (int n)" using assms(1) by (simp add: longE_def)
  ultimately show ?thesis
    using byte_char_digit_not_sign [OF d(2)] assms(1)
    by (simp add: range_parseInt_view [OF v] int_cast_id del: parse_loop.simps)
qed

lemma ops_parse:
  assumes "\<And>j p ts. j \<in> snd ` set ops \<Longrightarrow> yields p (item_tokens j @ ts) \<Longrightarrow>
      gives (\<lambda>m. parser_readAtomInternal m p False) p ts (tree_is (item_tree j))"
    and "\<forall>(op, j) \<in> set ops. op \<in> binary_ops"
    and "getPresedence (fst tk) = -1"
    and "tree_is l left" and "yields p (ops_tokens ops @ tk # ts)"
  shows "gives (\<lambda>m. parser_parseBinary m p left) p (tk # ts) (tree_is (climb l (ops_trees ops)))"
  using assms(1,2,4,5)
proof (induction ops arbitrary: p left l)
  case Nil
  show ?case
  proof (rule gives_Suc, rule parser_parseBinary.simps, rule gives_peek)
    show "yields p (tk # ts)" using Nil.prems(4) by simp
    fix p' assume "tok_text (peek p') = tk" "yields p' (tk # ts)" "perror p' = perror p"
    with assms(3) Nil.prems(3) show "gives (\<lambda>m. case (p', peek p') of (p, op) \<Rightarrow>
        let opPrec = getPresedence (ttype op) in
        if opPrec = -1 then Inr (p, left)
        else bindE (parser_next p) (\<lambda>(p, _).
          bindE (parser_readAtomInternal m p False) (\<lambda>(p, node).
          parser_check_silent p node
            (bindE (parser_parseBinary m p (BINARY_EXP (ttype op) left node)) (\<lambda>(p, result).
             parser_check_silent p result
               (bindE (rotate_result opPrec result) (\<lambda>result. Inr (p, result)))))))) p' (tk # ts)
        (tree_is (climb l (ops_trees [])))"
      by (auto simp: tok_text_def intro: gives_return)
  qed
next
  case (Cons x ops)
  obtain op j where x: "x = (op, j)" by (cases x)
  have op: "op \<in> binary_ops" using Cons.prems(2) x by simp
  let ?rest = "ops_tokens ops @ tk # ts"
  have y: "yields p ((op, op_text op) # item_tokens j @ ?rest)" using Cons.prems(4) by (simp add: x)
  show ?case
  proof (rule gives_Suc, rule parser_parseBinary.simps, rule gives_peek [OF y], unfold prod.case Let_def)
    fix p1 assume pk: "tok_text (peek p1) = (op, op_text op)" "yields p1 ((op, op_text op) # item_tokens j @ ?rest)"
      "perror p1 = perror p"
    have ty: "ttype (peek p1) = op" using pk(1) by (simp add: tok_text_def)
    have "gives (\<lambda>m. bindE (parser_next p1) (\<lambda>(p, _).
          bindE (parser_readAtomInternal m p False) (\<lambda>(p, node).
          parser_check_silent p node
            (bindE (parser_parseBinary m p (BINARY_EXP op left node)) (\<lambda>(p, result).
             parser_check_silent p result
               (bindE (rotate_result (getPresedence op) result) (\<lambda>result. Inr (p, result)))))))) p1 (tk # ts)
        (tree_is (climb l (ops_trees (x # ops))))"
    proof (rule gives_next [OF pk(2)], unfold prod.case, rule gives_bind, unfold prod.case)
      fix p2 t assume "yields p2 (item_tokens j @ ?rest)"
      then show "gives (\<lambda>m. parser_readAtomInternal m p2 False) p2 ?rest (tree_is (item_tree j))"
        by (intro Cons.prems(1)) (simp_all add: x)
      fix p3 node assume 3: "yields p3 ?rest" "tree_is (item_tree j) node"
      have "tree_is (Bin op l (item_tree j)) (BINARY_EXP op left node)"
        using Cons.prems(3) 3(2) by (simp add: tree_is_def)
      from Cons.IH [OF Cons.prems(1) _ this 3(1)] Cons.prems(2) have
        IH: "gives (\<lambda>m. parser_parseBinary m p3 (BINARY_EXP op left node)) p3 (tk # ts)
          (tree_is (climb (Bin op l (item_tree j)) (ops_trees ops)))" by simp
      have "gives (\<lambda>m. bindE (parser_parseBinary m p3 (BINARY_EXP op left node)) (\<lambda>(p, result).
             parser_check_silent p result
               (bindE (rotate_result (getPresedence op) result) (\<lambda>result. Inr (p, result))))) p3 (tk # ts)
             (tree_is (climb l (ops_trees (x # ops))))"
      proof (rule gives_bind [OF IH], unfold prod.case)
        fix p4 result assume 4: "yields p4 (tk # ts)" "tree_is (climb (Bin op l (item_tree j)) (ops_trees ops)) result"
        have "\<exists>op' l' r'. climb (Bin op l (item_tree j)) (ops_trees ops) = Bin op' l' r'"
          using climb_Bin [of "ops_trees ops"] by (cases ops) auto
        from rotate_result_tree [OF 4(2) this, of "getPresedence op"] obtain node' where
          "rotate_result (getPresedence op) result = Inr node'" "tree_is (climb l (ops_trees (x # ops))) node'"
          by (auto simp: x)
        with 4 show "gives (\<lambda>m. parser_check_silent p4 result
               (bindE (rotate_result (getPresedence op) result) (\<lambda>result. Inr (p4, result)))) p4 (tk # ts)
             (tree_is (climb l (ops_trees (x # ops))))"
          by (simp add: parser_check_silent_def gives_return)
      qed
      with 3(2) show "gives (\<lambda>m. parser_check_silent p3 node
            (bindE (parser_parseBinary m p3 (BINARY_EXP op left node)) (\<lambda>(p, result).
             parser_check_silent p result
               (bindE (rotate_result (getPresedence op) result) (\<lambda>result. Inr (p, result)))))) p3 (tk # ts)
             (tree_is (climb l (ops_trees (x # ops))))"
        by (simp add: parser_check_silent_def)
    qed
    with ty op pk(3) show "gives (\<lambda>m. if getPresedence (ttype (peek p1)) = - 1 then Inr (p1, left)
        else bindE (parser_next p1) (\<lambda>(p, _).
          bindE (parser_readAtomInternal m p False) (\<lambda>(p, node).
          parser_check_silent p node
            (bindE (parser_parseBinary m p (BINARY_EXP (ttype (peek p1)) left node)) (\<lambda>(p, result).
             parser_check_silent p result
               (bindE (rotate_result (getPresedence (ttype (peek p1))) result) (\<lambda>result. Inr (p, result)))))))) p1 (tk # ts)
        (tree_is (climb l (ops_trees (x # ops))))"
      by auto
  qed
qed

lemma expr_parse_ops:
  assumes "\<And>p ts. yields p (item_tokens i @ ts) \<Longrightarrow>
      gives (\<lambda>m. parser_readAtomInternal m p False) p ts (tree_is (item_tree i))"
    and "\<And>j p ts. j \<in> snd ` set ops \<Longrightarrow> yields p (item_tokens j @ ts) \<Longrightarrow>
      gives (\<lambda>m. parser_readAtomInternal m p False) p ts (tree_is (item_tree j))"
    and "\<forall>(op, j) \<in> set ops. op \<in> binary_ops"
    and "getPresedence (fst tk) = -1" and "yields p (item_tokens i @ ops_tokens ops @ tk # ts)"
  shows "gives (\<lambda>m. parser_parseExpression_fuel m p) p (tk # ts) (tree_is (climb (item_tree i) (ops_trees ops)))"
proof (rule gives_Suc, rule parser_parseExpression_fuel.simps, rule gives_bind [OF assms(1) [OF assms(5)]], unfold prod.case)
  fix p1 node assume "yields p1 (ops_tokens ops @ tk # ts)" "tree_is (item_tree i) node"
  then show "gives (\<lambda>m. parser_parseBinary m p1 node) p1 (tk # ts) (tree_is (climb (item_tree i) (ops_trees ops)))"
    using ops_parse [OF assms(2,3,4)] by blast
qed

lemma item_parse:
  "item_ok i \<Longrightarrow> yields p (item_tokens i @ ts) \<Longrightarrow>
   gives (\<lambda>m. parser_readAtomInternal m p False) p ts (tree_is (item_tree i))"
proof (induction i arbitrary: p ts)
  case (INum n)
  then have y: "yields p ((TK_NUMBER, decimal_text n) # ts)" by simp
  show ?case
  proof (rule gives_Suc, rule parser_readAtomInternal.simps, rule gives_next [OF y], unfold prod.case)
    fix p' t assume "tok_text t = (TK_NUMBER, decimal_text n)" "yields p' ts"
    moreover from this have "range_parseInt (trange t) = Inr (int n)"
      using INum.prems(1) by (intro number_literal) (simp_all add: tok_text_def)
    ultimately show "gives (\<lambda>m. if \<not> False \<and> (ttype t = TK_MINUS \<or> ttype t = TK_PLUS) then
         bindE (parser_readAtomInternal m p' True) (\<lambda>(p, node).
           if ttype t \<noteq> TK_PLUS
           then bindE (negate_number node) (\<lambda>node. Inr (p, node))
           else Inr (p, node))
       else if ttype t = TK_PARAN_OPEN then
         bindE (parser_parseExpression_fuel m p') (\<lambda>(p, node).
           parser_expect TK_PARAN_CLOSE ''expected ')' a the end of paran expression'' p (\<lambda>p.
             Inr (p, node)))
       else if ttype t = TK_NUMBER then
         bindE (range_parseInt (trange t)) (\<lambda>n. Inr (p', NUMBER n))
       else if ttype t = TK_ID then Inr (p', VARIABLE (trange t))
       else Inl NoReturn) p' ts (tree_is (item_tree (INum n)))"
      by (simp add: tok_text_def gives_return tree_is_def)
  qed
next
  case (IVar s)
  then have y: "yields p ((TK_ID, s) # ts)" by simp
  show ?case
    by (rule gives_Suc, rule parser_readAtomInternal.simps, rule gives_next [OF y])
      (simp add: tok_text_def gives_return tree_is_def)
next
  case (IParen i ops)
  let ?rest = "ops_tokens ops @ (TK_PARAN_CLOSE, '')'') # ts"
  have y: "yields p ((TK_PARAN_OPEN, ''('') # item_tokens i @ ?rest)"
    using IParen.prems(2) by (simp add: case_prod_unfold)
  have e: "gives (\<lambda>m. parser_parseExpression_fuel m p1) p1 ((TK_PARAN_CLOSE, '')'') # ts)
      (tree_is (item_tree (IParen i ops)))" if "yields p1 (item_tokens i @ ?rest)" for p1
    unfolding item_tree.simps
  proof (rule expr_parse_ops [OF _ _ _ _ that])
    show "gives (\<lambda>m. parser_readAtomInternal m p False) p ts (tree_is (item_tree i))"
      if "yields p (item_tokens i @ ts)" for p ts
      using IParen.IH(1) IParen.prems(1) that by simp
    show "gives (\<lambda>m. parser_readAtomInternal m p False) p ts (tree_is (item_tree j))"
      if "j \<in> snd ` set ops" "yields p (item_tokens j @ ts)" for j p ts
    proof -
      from that(1) obtain op where "(op, j) \<in> set ops" by auto
      with IParen.IH(2) [OF this, of j] IParen.prems(1) that(2) show ?thesis by fastforce
    qed
  qed (use IParen.prems(1) in auto)
  show ?case
  proof (rule gives_Suc, rule parser_readAtomInternal.simps, rule gives_next [OF y], unfold prod.case)
    fix p1 t assume t: "tok_text t = (TK_PARAN_OPEN, ''('')" and 1: "yields p1 (item_tokens i @ ?rest)"
    have "gives (\<lambda>m. bindE (parser_parseExpression_fuel m p1) (\<lambda>(p, node).
           parser_expect TK_PARAN_CLOSE ''expected ')' a the end of paran expression'' p (\<lambda>p.
             Inr (p, node)))) p1 ts (tree_is (item_tree (IParen i ops)))"
    proof (rule gives_bind [OF e [OF 1]], unfold prod.case)
      fix p2 node assume "yields p2 ((TK_PARAN_CLOSE, '')'') # ts)" "tree_is (item_tree (IParen i ops)) node"
      then show "gives (\<lambda>m. parser_expect TK_PARAN_CLOSE ''expected ')' a the end of paran expression'' p2 (\<lambda>p.
             Inr (p, node))) p2 ts (tree_is (item_tree (IParen i ops)))"
        by - (rule gives_expect, assumption, rule gives_done)
    qed
    with t show "gives (\<lambda>m. if \<not> False \<and> (ttype t = TK_MINUS \<or> ttype t = TK_PLUS) then
         bindE (parser_readAtomInternal m p1 True) (\<lambda>(p, node).
           if ttype t \<noteq> TK_PLUS
           then bindE (negate_number node) (\<lambda>node. Inr (p, node))
           else Inr (p, node))
       else if ttype t = TK_PARAN_OPEN then
         bindE (parser_parseExpression_fuel m p1) (\<lambda>(p, node).
           parser_expect TK_PARAN_CLOSE ''expected ')' a the end of paran expression'' p (\<lambda>p.
             Inr (p, node)))
       else if ttype t = TK_NUMBER then
         bindE (range_parseInt (trange t)) (\<lambda>n. Inr (p1, NUMBER n))
       else if ttype t = TK_ID then Inr (p1, VARIABLE (trange t))
       else Inl NoReturn) p1 ts (tree_is (item_tree (IParen i ops)))"
      by (simp add: tok_text_def)
  qed
qed

lemma expression_parse:
  assumes "item_ok i" and "ops_ok ops" and "getPresedence (fst tk) = -1"
    and "yields p (item_tokens i @ ops_tokens ops @ tk # ts)"
  obtains p' node where "parser_parseExpression p = Inr (p', node)" and "yields p' (tk # ts)"
    and "perror p' = perror p" and "tree_is (climb (item_tree i) (ops_trees ops)) node"
proof -
  have "gives (\<lambda>m. parser_parseExpression_fuel m p) p (tk # ts) (tree_is (climb (item_tree i) (ops_trees ops)))"
    by (rule expr_parse_ops [OF _ _ _ assms(3,4)]) (use assms(1,2) item_parse in auto)
  then obtain n p' node where "\<forall>m \<ge> n. parser_parseExpression_fuel m p = Inr (p', node)"
    "yields p' (tk # ts)" "perror p' = perror p" "tree_is (climb (item_tree i) (ops_trees ops)) node"
    by (rule givesE)
  with that expression_fuel [of n p "Inr (p', node)"] yields_wf [OF assms(4)] show ?thesis by auto
qed

subsection \<open>Statements, blocks and functions\<close>

datatype stmt =
    SAssign string item "(token_type \<times> item) list"
  | SDecl token_type string item "(token_type \<times> item) list"
  | SIf item "(token_type \<times> item) list" "stmt list"
  | SWhile item "(token_type \<times> item) list" "stmt list"
  | SReturn

fun type_text :: "token_type \<Rightarrow> string" where
  "type_text TK_KW_VOID = ''void''"
| "type_text _ = ''int64''"

fun stmt_tokens :: "stmt \<Rightarrow> (token_type \<times> string) list" where
  "stmt_tokens (SAssign x i ops) =
     (TK_ID, x) # (TK_ASSIGN, ''='') # item_tokens i @ ops_tokens ops @ [(TK_SEMI_COLON, '';'')]"
| "stmt_tokens (SDecl ty x i ops) =
     (ty, type_text ty) # (TK_ID, x) # (TK_ASSIGN, ''='') # item_tokens i @ ops_tokens ops @ [(TK_SEMI_COLON, '';'')]"
| "stmt_tokens (SIf i ops ss) =
     (TK_KW_IF, ''if'') # (TK_PARAN_OPEN, ''('') # item_tokens i @ ops_tokens ops @
     (TK_PARAN_CLOSE, '')'') # (TK_CURLY_OPEN, ''{'') # concat (map stmt_tokens ss) @ [(TK_CURLY_CLOSE, ''}'')]"
| "stmt_tokens (SWhile i ops ss) =
     (TK_KW_WHILE, ''while'') # (TK_PARAN_OPEN, ''('') # item_tokens i @ ops_tokens ops @
     (TK_PARAN_CLOSE, '')'') # (TK_CURLY_OPEN, ''{'') # concat (map stmt_tokens ss) @ [(TK_CURLY_CLOSE, ''}'')]"
| "stmt_tokens SReturn = [(TK_KW_RETURN, ''return''), (TK_SEMI_COLON, '';'')]"

fun stmt_ok :: "stmt \<Rightarrow> bool" where
  "stmt_ok (SAssign x i ops) \<longleftrightarrow> lexeme (TK_ID, x) \<and> item_ok i \<and> ops_ok ops"
| "stmt_ok (SDecl ty x i ops) \<longleftrightarrow> ty \<in> {TK_KW_VOID, TK_KW_INT64} \<and> lexeme (TK_ID, x) \<and> item_ok i \<and> ops_ok ops"
| "stmt_ok (SIf i ops ss) \<longleftrightarrow> item_ok i \<and> ops_ok ops \<and> length ss \<le> 16 \<and> (\<forall>s \<in> set ss. stmt_ok s)"
| "stmt_ok (SWhile i ops ss) \<longleftrightarrow> item_ok i \<and> ops_ok ops \<and> length ss \<le> 16 \<and> (\<forall>s \<in> set ss. stmt_ok s)"
| "stmt_ok SReturn \<longleftrightarrow> True"

abbreviation ops_tree :: "item \<Rightarrow> (token_type \<times> item) list \<Rightarrow> expr" where
  "ops_tree i ops \<equiv> climb (item_tree i) (ops_trees ops)"

text \<open>The node of a statement.\<close>

definition assign_is :: "string \<Rightarrow> expr \<Rightarrow> ast_node \<Rightarrow> bool" where
  "assign_is x t node =
     (case node of
        BINARY_EXP op v e \<Rightarrow> op = TK_ASSIGN \<and> tree_is t e \<and>
          (case v of VARIABLE r \<Rightarrow> range_view r = x | _ \<Rightarrow> False)
      | _ \<Rightarrow> False)"

fun stmt_is :: "stmt \<Rightarrow> ast_node \<Rightarrow> bool" where
  "stmt_is (SAssign x i ops) node = assign_is x (ops_tree i ops) node"
| "stmt_is (SDecl ty x i ops) node =
     (case node of DECLARATION ty' a \<Rightarrow> ty' = ty \<and> assign_is x (ops_tree i ops) a | _ \<Rightarrow> False)"
| "stmt_is (SIf i ops ss) node =
     (case node of IF c b els n \<Rightarrow> tree_is (ops_tree i ops) c \<and> els = Null \<and> n = 2 \<and>
          (case b of BLOCK nodes \<Rightarrow> list_all2 stmt_is ss nodes | _ \<Rightarrow> False)
      | _ \<Rightarrow> False)"
| "stmt_is (SWhile i ops ss) node =
     (case node of WHILE c b \<Rightarrow> tree_is (ops_tree i ops) c \<and>
          (case b of BLOCK nodes \<Rightarrow> list_all2 stmt_is ss nodes | _ \<Rightarrow> False)
      | _ \<Rightarrow> False)"
| "stmt_is SReturn node = (node = RETURN)"

lemma stmt_is_not_Null [simp]: "\<not> stmt_is s Null"
  by (cases s) (simp_all add: assign_is_def)

lemma gives_expr:
  assumes "yields p (item_tokens i @ ops_tokens ops @ tk # ts)" and "item_ok i" and "ops_ok ops"
    and "getPresedence (fst tk) = -1"
    and "\<And>p' node. yields p' (tk # ts) \<Longrightarrow> perror p' = perror p \<Longrightarrow> tree_is (ops_tree i ops) node \<Longrightarrow>
      gives (\<lambda>m. k m (p', node)) p' ts' Q"
  shows "gives (\<lambda>m. bindE (parser_parseExpression p) (k m)) p ts' Q"
proof -
  obtain p' node where "parser_parseExpression p = Inr (p', node)" "yields p' (tk # ts)"
    "perror p' = perror p" "tree_is (ops_tree i ops) node" by (rule expression_parse [OF assms(2,3,4,1)])
  with assms(5) gives_perror [of _ p' _ _ p] show ?thesis by simp
qed

lemma gives_check:
  "P node \<Longrightarrow> (\<And>n. P n \<Longrightarrow> n \<noteq> Null) \<Longrightarrow> gives f p ts Q \<Longrightarrow>
   gives (\<lambda>m. parser_check_silent q node (f m)) p ts Q"
  by (auto simp: parser_check_silent_def)

lemma assignment_parse:
  assumes "yields p ((TK_ASSIGN, ''='') # item_tokens i @ ops_tokens ops @ tk # ts)" and "item_ok i" and "ops_ok ops"
    and "getPresedence (fst tk) = -1"
  shows "gives (\<lambda>m. parser_parseAssignment p v) p (tk # ts)
    (\<lambda>node. \<exists>e. node = BINARY_EXP TK_ASSIGN v e \<and> tree_is (ops_tree i ops) e)"
  unfolding parser_parseAssignment_def
proof (rule gives_next [OF assms(1)], unfold prod.case, rule gives_expr [OF _ assms(2-4)], assumption, unfold prod.case)
  fix p2 e assume "yields p2 (tk # ts)" "tree_is (ops_tree i ops) e"
  then show "gives (\<lambda>m. parser_check_silent p2 e (Inr (p2, BINARY_EXP TK_ASSIGN v e))) p2 (tk # ts)
      (\<lambda>node. \<exists>e. node = BINARY_EXP TK_ASSIGN v e \<and> tree_is (ops_tree i ops) e)"
    by (simp add: parser_check_silent_def gives_done)
qed

lemma declaration_parse:
  assumes "yields p (stmt_tokens (SDecl ty x i ops) @ ts)" and "stmt_ok (SDecl ty x i ops)"
  shows "gives (\<lambda>m. parser_parseDeclaration p) p ts (stmt_is (SDecl ty x i ops))"
proof -
  have y: "yields p ((ty, type_text ty) # (TK_ID, x) # (TK_ASSIGN, ''='') # item_tokens i @ ops_tokens ops @ (TK_SEMI_COLON, '';'') # ts)"
    using assms(1) by simp
  have ok: "item_ok i" "ops_ok ops" "isDataType ty" using assms(2) by (auto simp: isDataType_def)
  show ?thesis unfolding parser_parseDeclaration_def
  proof (rule gives_next [OF y], unfold prod.case)
    fix p1 dataType assume t: "tok_text dataType = (ty, type_text ty)"
      and y1: "yields p1 ((TK_ID, x) # (TK_ASSIGN, ''='') # item_tokens i @ ops_tokens ops @ (TK_SEMI_COLON, '';'') # ts)"
    have "gives (\<lambda>m. bindE (parser_next p1) (\<lambda>(p, id).
        parser_check p True ''expected identifier while parsing declaration''
          (bindE (parser_parseAssignment p (VARIABLE (trange id))) (\<lambda>(p, assignment).
           parser_check_silent p assignment
             (parser_expect TK_SEMI_COLON ''expected semicolon after statement'' p (\<lambda>p.
                Inr (p, DECLARATION (ttype dataType) assignment))))))) p1 ts (stmt_is (SDecl ty x i ops))"
    proof (rule gives_next [OF y1], unfold prod.case parser_check_def if_True, rule gives_bind, rule assignment_parse [OF _ ok(1,2)],
        assumption, simp, unfold prod.case)
      fix p2 id p3 assignment
      assume "tok_text id = (TK_ID, x)" "yields p3 ((TK_SEMI_COLON, '';'') # ts)"
        "\<exists>e. assignment = BINARY_EXP TK_ASSIGN (VARIABLE (trange id)) e \<and> tree_is (ops_tree i ops) e"
      then show "gives (\<lambda>m. parser_check_silent p3 assignment
             (parser_expect TK_SEMI_COLON ''expected semicolon after statement'' p3 (\<lambda>p.
                Inr (p, DECLARATION (ttype dataType) assignment)))) p3 ts (stmt_is (SDecl ty x i ops))"
        using t by (auto simp: parser_check_silent_def tok_text_def assign_is_def intro!: gives_expect gives_done)
    qed
    with t ok(3) show "gives (\<lambda>m. assertE (isDataType (ttype dataType))
       (bindE (parser_next p1) (\<lambda>(p, id).
        parser_check p True ''expected identifier while parsing declaration''
          (bindE (parser_parseAssignment p (VARIABLE (trange id))) (\<lambda>(p, assignment).
           parser_check_silent p assignment
             (parser_expect TK_SEMI_COLON ''expected semicolon after statement'' p (\<lambda>p.
                Inr (p, DECLARATION (ttype dataType) assignment)))))))) p1 ts (stmt_is (SDecl ty x i ops))"
      by (simp add: tok_text_def)
  qed
qed


lemma parser_peek_again:
  assumes "yields p ts" and "hasPeek p"
  shows "parser_peekToken p = Inr (p, peek p)"
proof -
  have "p\<lparr>hasPeek := True\<rparr> = p" using assms(2) by simp
  then show ?thesis using assms(2) by (simp add: parser_peekToken_def)
qed

lemma assignmentOrCall_parse:
  assumes "yields p (stmt_tokens (SAssign x i ops) @ ts)" and "stmt_ok (SAssign x i ops)"
  shows "gives (\<lambda>m. parser_parseAssignmentOrCall p) p ts (stmt_is (SAssign x i ops))"
proof -
  let ?rest = "(TK_ASSIGN, ''='') # item_tokens i @ ops_tokens ops @ (TK_SEMI_COLON, '';'') # ts"
  have y: "yields p ((TK_ID, x) # ?rest)" using assms(1) by simp
  have ok: "item_ok i" "ops_ok ops" using assms(2) by auto
  show ?thesis unfolding parser_parseAssignmentOrCall_def
  proof (rule gives_next [OF y], unfold prod.case)
    fix p1 tok assume t: "tok_text tok = (TK_ID, x)" and y1: "yields p1 ?rest"
    have "gives (\<lambda>m. bindE (parser_peekToken p1) (\<lambda>(p, op).
        if ttype op = TK_ASSIGN then
          bindE (parser_parseAssignment p (VARIABLE (trange tok))) (\<lambda>(p, result).
          parser_expect TK_SEMI_COLON ''expected semicolon after statement'' p (\<lambda>p. Inr (p, result)))
        else parser_fail p ''unrecognized token while parsing assignment or call'')) p1 ts (stmt_is (SAssign x i ops))"
    proof (rule gives_peek [OF y1], unfold prod.case)
      fix p2 assume pk: "tok_text (peek p2) = (TK_ASSIGN, ''='')" and y2: "yields p2 ?rest"
      have "gives (\<lambda>m. bindE (parser_parseAssignment p2 (VARIABLE (trange tok))) (\<lambda>(p, result).
          parser_expect TK_SEMI_COLON ''expected semicolon after statement'' p (\<lambda>p. Inr (p, result)))) p2 ts (stmt_is (SAssign x i ops))"
        by (rule gives_bind, rule assignment_parse [OF y2 ok], simp)
          (use t in \<open>auto simp: tok_text_def assign_is_def intro!: gives_expect gives_done\<close>)
      with pk show "gives (\<lambda>m. if ttype (peek p2) = TK_ASSIGN then
          bindE (parser_parseAssignment p2 (VARIABLE (trange tok))) (\<lambda>(p, result).
          parser_expect TK_SEMI_COLON ''expected semicolon after statement'' p (\<lambda>p. Inr (p, result)))
        else parser_fail p2 ''unrecognized token while parsing assignment or call'') p2 ts (stmt_is (SAssign x i ops))"
        by (simp add: tok_text_def)
    qed
    with t show "gives (\<lambda>m. parser_check p1 (ttype tok = TK_ID) ''Expected identifier''
       (bindE (parser_peekToken p1) (\<lambda>(p, op).
        if ttype op = TK_ASSIGN then
          bindE (parser_parseAssignment p (VARIABLE (trange tok))) (\<lambda>(p, result).
          parser_expect TK_SEMI_COLON ''expected semicolon after statement'' p (\<lambda>p. Inr (p, result)))
        else parser_fail p ''unrecognized token while parsing assignment or call''))) p1 ts (stmt_is (SAssign x i ops))"
      by (simp add: parser_check_def tok_text_def)
  qed
qed

lemma return_parse:
  assumes "yields p ((TK_KW_RETURN, ''return'') # (TK_SEMI_COLON, '';'') # ts)"
  shows "gives (\<lambda>m. parser_parseReturn p) p ts (stmt_is SReturn)"
  unfolding parser_parseReturn_def
  by (rule gives_next [OF assms]) (auto intro!: gives_expect gives_done)

text \<open>The part that \<open>if\<close> and \<open>while\<close> share: a condition in parentheses before the block.\<close>

lemma condition_parse:
  assumes "yields p (kw # (TK_PARAN_OPEN, ''('') # item_tokens i @ ops_tokens ops @ (TK_PARAN_CLOSE, '')'') # ts)"
    and "item_ok i" and "ops_ok ops"
    and body: "\<And>p' c. yields p' ts \<Longrightarrow> tree_is (ops_tree i ops) c \<Longrightarrow> gives (\<lambda>m. body m p' c) p' ts' Q"
  shows "gives (\<lambda>m. bindE (parser_next p) (\<lambda>(p, _).
     parser_expect TK_PARAN_OPEN ''Expected parenthesis, while trying to parse function'' p (\<lambda>p.
     bindE (parser_parseExpression p) (\<lambda>(p, condition).
     parser_check_silent p condition
       (parser_expect TK_PARAN_CLOSE ''Expected parenthesis close, while trying to parse function'' p (\<lambda>p.
        body m p condition)))))) p ts' Q"
proof (rule gives_next [OF assms(1)], unfold prod.case, rule gives_expect, assumption, rule gives_expr [OF _ assms(2,3)],
    assumption, simp, unfold prod.case)
  fix p3 c assume "yields p3 ((TK_PARAN_CLOSE, '')'') # ts)" "tree_is (ops_tree i ops) c"
  then show "gives (\<lambda>m. parser_check_silent p3 c
       (parser_expect TK_PARAN_CLOSE ''Expected parenthesis close, while trying to parse function'' p3 (\<lambda>p.
        body m p c))) p3 ts' Q"
    using body by (auto simp: parser_check_silent_def intro!: gives_expect)
qed

lemma block_loop_parse:
  assumes "\<And>s p ts. s \<in> set ss \<Longrightarrow> yields p (stmt_tokens s @ ts) \<Longrightarrow>
      gives (\<lambda>m. parser_parseStatement m p) p ts (stmt_is s)"
    and "\<And>s. s \<in> set ss \<Longrightarrow> \<exists>tk ts. stmt_tokens s = tk # ts \<and> fst tk \<noteq> TK_EEOF \<and> fst tk \<noteq> TK_CURLY_CLOSE"
    and "yields p (concat (map stmt_tokens ss) @ (TK_CURLY_CLOSE, ''}'') # ts)"
    and "length xs + length ss \<le> 16"
  shows "\<exists>n p' nodes. (\<forall>m \<ge> n. block_loop m p xs = Inr (p', Some (xs @ nodes))) \<and>
    yields p' ((TK_CURLY_CLOSE, ''}'') # ts) \<and> perror p' = perror p \<and> list_all2 stmt_is ss nodes"
  using assms
proof (induction ss arbitrary: p xs)
  case Nil
  from Nil.prems(3) obtain p' where p': "parser_peekToken p = Inr (p', peek p')"
    "tok_text (peek p') = (TK_CURLY_CLOSE, ''}'')" "yields p' ((TK_CURLY_CLOSE, ''}'') # ts)" "perror p' = perror p"
    using yields_peek by (metis append_Nil concat.simps(1) list.map(1))
  have "\<forall>m \<ge> Suc 0. block_loop m p xs = Inr (p', Some (xs @ []))"
  proof (intro allI impI)
    fix m :: nat assume "Suc 0 \<le> m"
    then obtain k where "m = Suc k" by (metis Suc_le_D)
    with p' show "block_loop m p xs = Inr (p', Some (xs @ []))" by (simp add: tok_text_def)
  qed
  with p' show ?case by blast
next
  case (Cons s ss)
  let ?rest = "concat (map stmt_tokens ss) @ (TK_CURLY_CLOSE, ''}'') # ts"
  have y: "yields p (stmt_tokens s @ ?rest)" using Cons.prems(3) by simp
  obtain tk tks where tk: "stmt_tokens s = tk # tks" "fst tk \<noteq> TK_EEOF" "fst tk \<noteq> TK_CURLY_CLOSE"
    using Cons.prems(2) by (metis list.set_intros(1))
  with y obtain p1 where p1: "parser_peekToken p = Inr (p1, peek p1)" "tok_text (peek p1) = tk"
    "yields p1 (stmt_tokens s @ ?rest)" "perror p1 = perror p"
    using yields_peek by (metis append_Cons)
  have "gives (\<lambda>m. parser_parseStatement m p1) p1 ?rest (stmt_is s)"
    by (rule Cons.prems(1)) (use p1 in simp_all)
  then obtain n p2 node where n: "\<forall>m \<ge> n. parser_parseStatement m p1 = Inr (p2, node)" "yields p2 ?rest"
    "perror p2 = perror p1" "stmt_is s node" by (rule givesE)
  have push: "push_statement xs node = Inr (xs @ [node])" using Cons.prems(4) by (simp add: push_statement_eq)
  have "\<exists>n p' nodes. (\<forall>m \<ge> n. block_loop m p2 (xs @ [node]) = Inr (p', Some ((xs @ [node]) @ nodes))) \<and>
    yields p' ((TK_CURLY_CLOSE, ''}'') # ts) \<and> perror p' = perror p2 \<and> list_all2 stmt_is ss nodes"
    by (rule Cons.IH) (use Cons.prems n(2) in auto)
  then obtain n' p' nodes where n': "\<forall>m \<ge> n'. block_loop m p2 (xs @ [node]) = Inr (p', Some ((xs @ [node]) @ nodes))"
    "yields p' ((TK_CURLY_CLOSE, ''}'') # ts)" "perror p' = perror p2" "list_all2 stmt_is ss nodes" by blast
  have "\<forall>m \<ge> Suc (max n n'). block_loop m p xs = Inr (p', Some (xs @ node # nodes))"
  proof (intro allI impI)
    fix m assume "Suc (max n n') \<le> m"
    then obtain k where k: "m = Suc k" "n \<le> k" "n' \<le> k" by (metis Suc_le_D Suc_le_mono max.bounded_iff)
    have "node \<noteq> Null" using n(4) by auto
    with k n(1) n'(1) p1 tk push show "block_loop m p xs = Inr (p', Some (xs @ node # nodes))"
      by (simp add: tok_text_def prod_eq_iff)
  qed
  moreover have "list_all2 stmt_is (s # ss) (node # nodes)" "perror p' = perror p"
    using n n' p1 by simp_all
  ultimately show ?case using n'(2) by blast
qed

lemma stmt_tokens_head:
  "stmt_ok s \<Longrightarrow> \<exists>tk ts. stmt_tokens s = tk # ts \<and> fst tk \<noteq> TK_EEOF \<and> fst tk \<noteq> TK_CURLY_CLOSE"
  by (cases s) auto

lemma block_parse:
  assumes stmts: "\<And>s p ts. s \<in> set ss \<Longrightarrow> yields p (stmt_tokens s @ ts) \<Longrightarrow>
      gives (\<lambda>m. parser_parseStatement m p) p ts (stmt_is s)"
    and ok: "\<forall>s \<in> set ss. stmt_ok s" and "length ss \<le> 16"
    and y: "yields p ((TK_CURLY_OPEN, ''{'') # concat (map stmt_tokens ss) @ (TK_CURLY_CLOSE, ''}'') # ts)"
  shows "gives (\<lambda>m. parser_parseBlock_fuel m p) p ts (\<lambda>b. \<exists>nodes. b = BLOCK nodes \<and> list_all2 stmt_is ss nodes)"
proof (rule gives_Suc, rule parser_parseBlock_fuel.simps, rule gives_peek [OF y], unfold prod.case)
  fix p1 assume pk: "tok_text (peek p1) = (TK_CURLY_OPEN, ''{'')"
    and y1: "yields p1 ((TK_CURLY_OPEN, ''{'') # concat (map stmt_tokens ss) @ (TK_CURLY_CLOSE, ''}'') # ts)"
  obtain p2 t where p2: "parser_next p1 = Inr (p2, t)" "yields p2 (concat (map stmt_tokens ss) @ (TK_CURLY_CLOSE, ''}'') # ts)"
    "perror p2 = perror p1" by (rule yields_next [OF y1])
  from block_loop_parse [OF stmts _ p2(2), of "[]"] ok assms(3) stmt_tokens_head obtain n p3 nodes where
    n: "\<forall>m \<ge> n. block_loop m p2 [] = Inr (p3, Some nodes)" "yields p3 ((TK_CURLY_CLOSE, ''}'') # ts)"
      "perror p3 = perror p2" "list_all2 stmt_is ss nodes" by auto
  obtain p4 t' where p4: "parser_next p3 = Inr (p4, t')" "yields p4 ts" "perror p4 = perror p3"
    by (rule yields_next [OF n(2)])
  have "\<forall>m \<ge> n. (if ttype (peek p1) = TK_CURLY_OPEN then
       bindE (parser_next p1) (\<lambda>(p, _).
       bindE (block_loop m p []) (\<lambda>(p, statements).
         case statements of
           None \<Rightarrow> Inr (p, Null)
         | Some statements \<Rightarrow> bindE (parser_next p) (\<lambda>(p, _). Inr (p, BLOCK statements))))
     else bindE (parser_parseStatement m p1) (\<lambda>(p, node).
       if node = Null then Inr (p, Null)
       else bindE (push_statement [] node) (\<lambda>statements. Inr (p, BLOCK statements)))) = Inr (p4, BLOCK nodes)"
    using pk p2 n(1) p4 by (simp add: tok_text_def)
  with p2(3) n(3,4) p4(2,3) show "gives (\<lambda>m. if ttype (peek p1) = TK_CURLY_OPEN then
       bindE (parser_next p1) (\<lambda>(p, _).
       bindE (block_loop m p []) (\<lambda>(p, statements).
         case statements of
           None \<Rightarrow> Inr (p, Null)
         | Some statements \<Rightarrow> bindE (parser_next p) (\<lambda>(p, _). Inr (p, BLOCK statements))))
     else bindE (parser_parseStatement m p1) (\<lambda>(p, node).
       if node = Null then Inr (p, Null)
       else bindE (push_statement [] node) (\<lambda>statements. Inr (p, BLOCK statements)))) p1 ts
     (\<lambda>b. \<exists>nodes. b = BLOCK nodes \<and> list_all2 stmt_is ss nodes)"
    unfolding gives_def by (intro exI [of _ n] exI [of _ p4] exI [of _ "BLOCK nodes"] conjI) simp_all
qed

lemma stmt_parse:
  "stmt_ok s \<Longrightarrow> yields p (stmt_tokens s @ ts) \<Longrightarrow>
   gives (\<lambda>m. parser_parseStatement m p) p ts (stmt_is s)"
proof (induction s arbitrary: p ts)
  case (SAssign x i ops)
  from SAssign.prems(2) have y: "yields p ((TK_ID, x) # (TK_ASSIGN, ''='') # item_tokens i @ ops_tokens ops @ (TK_SEMI_COLON, '';'') # ts)"
    by simp
  show ?case
  proof (rule gives_Suc, rule parser_parseStatement.simps, rule gives_peek [OF y], unfold prod.case)
    fix p1 assume "tok_text (peek p1) = (TK_ID, x)"
      "yields p1 ((TK_ID, x) # (TK_ASSIGN, ''='') # item_tokens i @ ops_tokens ops @ (TK_SEMI_COLON, '';'') # ts)"
    with assignmentOrCall_parse [of p1 x i ops ts] SAssign.prems(1)
    show "gives (\<lambda>m. if isDataType (ttype (peek p1)) then parser_parseDeclaration p1
        else if ttype (peek p1) = TK_KW_IF then parser_parseIf m p1
        else if ttype (peek p1) = TK_KW_WHILE then parser_parseWhile m p1
        else if ttype (peek p1) = TK_KW_RETURN then parser_parseReturn p1
        else if ttype (peek p1) = TK_ID then parser_parseAssignmentOrCall p1
        else parser_fail p1 ''Unrecognized token while trying to parse statement'') p1 ts (stmt_is (SAssign x i ops))"
      by (simp add: tok_text_def isDataType_def)
  qed
next
  case (SDecl ty x i ops)
  let ?toks = "(ty, type_text ty) # (TK_ID, x) # (TK_ASSIGN, ''='') # item_tokens i @ ops_tokens ops @ (TK_SEMI_COLON, '';'') # ts"
  from SDecl.prems(2) have y: "yields p ?toks" by simp
  show ?case
  proof (rule gives_Suc, rule parser_parseStatement.simps, rule gives_peek [OF y], unfold prod.case)
    fix p1 assume "tok_text (peek p1) = (ty, type_text ty)" "yields p1 ?toks"
    with declaration_parse [of p1 ty x i ops ts] SDecl.prems(1)
    show "gives (\<lambda>m. if isDataType (ttype (peek p1)) then parser_parseDeclaration p1
        else if ttype (peek p1) = TK_KW_IF then parser_parseIf m p1
        else if ttype (peek p1) = TK_KW_WHILE then parser_parseWhile m p1
        else if ttype (peek p1) = TK_KW_RETURN then parser_parseReturn p1
        else if ttype (peek p1) = TK_ID then parser_parseAssignmentOrCall p1
        else parser_fail p1 ''Unrecognized token while trying to parse statement'') p1 ts (stmt_is (SDecl ty x i ops))"
      by (auto simp: tok_text_def isDataType_def)
  qed
next
  case SReturn
  then have y: "yields p ((TK_KW_RETURN, ''return'') # (TK_SEMI_COLON, '';'') # ts)" by simp
  show ?case
    by (rule gives_Suc, rule parser_parseStatement.simps, rule gives_peek [OF y])
      (use return_parse in \<open>simp add: tok_text_def isDataType_def del: stmt_is.simps\<close>)
next
  case (SIf i ops ss)
  let ?body = "(TK_CURLY_OPEN, ''{'') # concat (map stmt_tokens ss) @ (TK_CURLY_CLOSE, ''}'') # ts"
  let ?toks = "(TK_PARAN_OPEN, ''('') # item_tokens i @ ops_tokens ops @ (TK_PARAN_CLOSE, '')'') # ?body"
  have y: "yields p ((TK_KW_IF, ''if'') # ?toks)" using SIf.prems(2) by simp
  have ok: "item_ok i" "ops_ok ops" "length ss \<le> 16" "\<forall>s \<in> set ss. stmt_ok s" using SIf.prems(1) by auto
  have stmts: "gives (\<lambda>m. parser_parseStatement m p) p ts (stmt_is s)"
    if "s \<in> set ss" "yields p (stmt_tokens s @ ts)" for s p ts
    using SIf.IH that ok(4) by blast
  have parse: "gives (\<lambda>m. parser_parseIf m p1) p1 ts (stmt_is (SIf i ops ss))"
    if "yields p1 ((TK_KW_IF, ''if'') # ?toks)" for p1
  proof (rule gives_Suc, rule parser_parseIf.simps, rule condition_parse [OF that ok(1,2)], rule gives_bind,
      rule block_parse [OF stmts ok(4,3)], assumption+, unfold prod.case)
    fix p2 c p3 b assume "tree_is (ops_tree i ops) c" "yields p3 ts" "\<exists>nodes. b = BLOCK nodes \<and> list_all2 stmt_is ss nodes"
    then show "gives (\<lambda>m. parser_check_silent p3 b (Inr (p3, IF c b Null 2))) p3 ts (stmt_is (SIf i ops ss))"
      by (auto simp: parser_check_silent_def intro: gives_done)
  qed
  show ?case
    by (rule gives_Suc, rule parser_parseStatement.simps, rule gives_peek [OF y])
      (use parse in \<open>simp add: tok_text_def isDataType_def del: stmt_is.simps\<close>)
next
  case (SWhile i ops ss)
  let ?body = "(TK_CURLY_OPEN, ''{'') # concat (map stmt_tokens ss) @ (TK_CURLY_CLOSE, ''}'') # ts"
  let ?toks = "(TK_PARAN_OPEN, ''('') # item_tokens i @ ops_tokens ops @ (TK_PARAN_CLOSE, '')'') # ?body"
  have y: "yields p ((TK_KW_WHILE, ''while'') # ?toks)" using SWhile.prems(2) by simp
  have ok: "item_ok i" "ops_ok ops" "length ss \<le> 16" "\<forall>s \<in> set ss. stmt_ok s" using SWhile.prems(1) by auto
  have stmts: "gives (\<lambda>m. parser_parseStatement m p) p ts (stmt_is s)"
    if "s \<in> set ss" "yields p (stmt_tokens s @ ts)" for s p ts
    using SWhile.IH that ok(4) by blast
  have parse: "gives (\<lambda>m. parser_parseWhile m p1) p1 ts (stmt_is (SWhile i ops ss))"
    if "yields p1 ((TK_KW_WHILE, ''while'') # ?toks)" for p1
  proof (rule gives_Suc, rule parser_parseWhile.simps, rule condition_parse [OF that ok(1,2)], rule gives_bind,
      rule block_parse [OF stmts ok(4,3)], assumption+, unfold prod.case)
    fix p2 c p3 b assume "tree_is (ops_tree i ops) c" "yields p3 ts" "\<exists>nodes. b = BLOCK nodes \<and> list_all2 stmt_is ss nodes"
    then show "gives (\<lambda>m. parser_check_silent p3 b (Inr (p3, WHILE c b))) p3 ts (stmt_is (SWhile i ops ss))"
      by (auto simp: parser_check_silent_def intro: gives_done)
  qed
  show ?case
    by (rule gives_Suc, rule parser_parseStatement.simps, rule gives_peek [OF y])
      (use parse in \<open>simp add: tok_text_def isDataType_def del: stmt_is.simps\<close>)
qed

definition function_tokens :: "token_type \<Rightarrow> string \<Rightarrow> stmt list \<Rightarrow> (token_type \<times> string) list" where
  "function_tokens ty name body =
     (ty, type_text ty) # (TK_ID, name) # (TK_PARAN_OPEN, ''('') # (TK_PARAN_CLOSE, '')'') #
     (TK_CURLY_OPEN, ''{'') # concat (map stmt_tokens body) @ [(TK_CURLY_CLOSE, ''}'')]"

definition function_is :: "token_type \<Rightarrow> string \<Rightarrow> stmt list \<Rightarrow> ast_node \<Rightarrow> bool" where
  "function_is ty name body node \<longleftrightarrow>
     (\<exists>rg nodes. node = FUNCTION rg ty 0 [BLOCK nodes] \<and> range_view rg = name \<and> list_all2 stmt_is body nodes)"

lemma function_parse:
  assumes "yields p (function_tokens ty name body)" and "ty \<in> {TK_KW_VOID, TK_KW_INT64}"
    and "\<forall>s \<in> set body. stmt_ok s" and "length body \<le> 16"
  shows "gives (\<lambda>m. parser_parseFunction p) p [] (function_is ty name body)"
proof -
  let ?block = "(TK_CURLY_OPEN, ''{'') # concat (map stmt_tokens body) @ (TK_CURLY_CLOSE, ''}'') # []"
  have y: "yields p ((ty, type_text ty) # (TK_ID, name) # (TK_PARAN_OPEN, ''('') # (TK_PARAN_CLOSE, '')'') # ?block)"
    using assms(1) by (simp add: function_tokens_def)
  have block: "gives (\<lambda>m. parser_parseBlock q) q [] (\<lambda>b. \<exists>nodes. b = BLOCK nodes \<and> list_all2 stmt_is body nodes)"
    if "yields q ?block" for q
  proof -
    have "gives (\<lambda>m. parser_parseBlock_fuel m q) q [] (\<lambda>b. \<exists>nodes. b = BLOCK nodes \<and> list_all2 stmt_is body nodes)"
      by (rule block_parse [OF _ assms(3,4) that]) (use assms(3) stmt_parse in blast)
    then obtain n q' b where n: "\<forall>m \<ge> n. parser_parseBlock_fuel m q = Inr (q', b)" "yields q' []" "perror q' = perror q"
      "\<exists>nodes. b = BLOCK nodes \<and> list_all2 stmt_is body nodes" by (rule givesE)
    have "parser_parseBlock q = Inr (q', b)"
      by (rule block_fuel [of n]) (use n(1) yields_wf [OF that] in auto)
    with n(2-4) show ?thesis by (simp add: gives_return)
  qed
  have tail: "gives (\<lambda>m. parser_expect TK_PARAN_OPEN ''expteced a '(' for function argument list'' q (\<lambda>p.
           parser_expect TK_PARAN_CLOSE ''expteced ')' to terminate a function argument list.'' p (\<lambda>p.
           bindE (parser_parseBlock p) (\<lambda>(p, block).
           parser_check_silent p block (Inr (p, FUNCTION (trange t) ty 0 [block])))))) q [] (function_is ty name body)"
    if "yields q ((TK_PARAN_OPEN, ''('') # (TK_PARAN_CLOSE, '')'') # ?block)" "tok_text t = (TK_ID, name)" for q t
  proof (rule gives_expect [OF that(1)], rule gives_expect, assumption, rule gives_bind, rule block, assumption, unfold prod.case)
    fix p' b assume "yields p' []" "\<exists>nodes. b = BLOCK nodes \<and> list_all2 stmt_is body nodes"
    with that(2) show "gives (\<lambda>m. parser_check_silent p' b (Inr (p', FUNCTION (trange t) ty 0 [b]))) p' []
        (function_is ty name body)"
      by (auto simp: parser_check_silent_def function_is_def tok_text_def intro!: gives_done)
  qed
  show ?thesis unfolding parser_parseFunction_def
  proof (rule gives_next [OF y], unfold prod.case)
    fix p1 dt assume dt: "tok_text dt = (ty, type_text ty)"
      and y1: "yields p1 ((TK_ID, name) # (TK_PARAN_OPEN, ''('') # (TK_PARAN_CLOSE, '')'') # ?block)"
    obtain p2 t where p2: "parser_next p1 = Inr (p2, t)" "tok_text t = (TK_ID, name)"
      "yields p2 ((TK_PARAN_OPEN, ''('') # (TK_PARAN_CLOSE, '')'') # ?block)" "perror p2 = perror p1"
      by (rule yields_next [OF y1])
    have "ttype dt = ty" "isDataType ty" "ttype t = TK_ID"
      using dt p2(2) assms(2) by (auto simp: tok_text_def isDataType_def)
    with gives_perror [OF tail [OF p2(3,2)] p2(4)] p2(1)
    show "gives (\<lambda>m. parser_check p1 (isDataType (ttype dt)) ''expected datatype when parsing a function''
       (bindE (parser_next p1) (\<lambda>(p, name).
        parser_check p (ttype name = TK_ID) ''exptected a function name''
          (parser_expect TK_PARAN_OPEN ''expteced a '(' for function argument list'' p (\<lambda>p.
           parser_expect TK_PARAN_CLOSE ''expteced ')' to terminate a function argument list.'' p (\<lambda>p.
           bindE (parser_parseBlock p) (\<lambda>(p, block).
           parser_check_silent p block
             (Inr (p, FUNCTION (trange name) (ttype dt) 0 [block]))))))))) p1 [] (function_is ty name body)"
      by (simp add: parser_check_def)
  qed
qed

subsection \<open>From source text\<close>

lemma reader_yields_print_append:
  assumes "reader_wf r" and "rview r = ws @ print_tokens ts @ s" and "list_all white_char ws"
    and "\<forall>(tk, ws) \<in> set ts. lexeme tk \<and> ws \<noteq> [] \<and> list_all white_char ws"
    and rest: "\<And>r ws. reader_wf r \<Longrightarrow> rview r = ws @ s \<Longrightarrow> list_all white_char ws \<Longrightarrow> reader_yields r us"
  shows "reader_yields r (map fst ts @ us)"
  using assms(1-4)
proof (induction ts arbitrary: r ws)
  case Nil
  then show ?case using rest by (simp add: print_tokens_def)
next
  case (Cons x ts)
  obtain ty w ws' where x: "x = ((ty, w), ws')" by (cases x) auto
  have lex: "lexeme (ty, w)" "ws' \<noteq> []" "list_all white_char ws'" using Cons.prems(4) x by auto
  have v: "rview r = ws @ w @ (ws' @ print_tokens ts @ s)"
    using Cons.prems(2) by (simp add: x print_tokens_def)
  from token_next_lexeme [OF Cons.prems(1) v Cons.prems(3) lex(1) separated_print [OF lex(3,2)]]
  obtain r' t where t: "token_next r = Inr (r', t)" "reader_wf r'" "rview r' = ws' @ print_tokens ts @ s"
    "tok_text t = (ty, w)" by (auto simp: tok_text_def)
  from Cons.IH [OF t(2,3) lex(3)] Cons.prems(4) have "reader_yields r' (map fst ts @ us)" by simp
  with t show ?case by (auto simp: x)
qed

text \<open>A less-than sign is there as often as one looks.\<close>

lemma reader_yields_less:
  assumes "reader_wf r" and "rview r = ws @ CHR ''<'' # s" and "list_all white_char ws"
  shows "reader_yields r (replicate n (TK_LESS_THAN, ''<''))"
  using assms
proof (induction n arbitrary: r ws)
  case (Suc n)
  let ?r = "adv (length ws) r"
  have "takeWhile white_char (rview r) = ws"
    unfolding Suc.prems(2) by (rule takeWhile_white [OF Suc.prems(3)]) (simp add: white_char_def)
  then have t: "token_next r = Inr (token_ref ?r)" using token_next_eq [OF Suc.prems(1)] by simp
  have v: "rview ?r = CHR ''<'' # s" using Suc.prems(2) by simp
  have wf: "reader_wf ?r" using Suc.prems(1) by simp
  have "token_ref ?r = (?r, \<lparr>ttype = TK_LESS_THAN, tpos = rpos ?r, trange = (rrange ?r)\<lparr>rsize := 1\<rparr>\<rparr>)"
    using v by (simp add: token_ref_def single_chars_def)
  moreover have "range_view ((rrange ?r)\<lparr>rsize := 1\<rparr>) = ''<''"
    using range_view_sub [of 1 ?r] rview_length [OF wf v] v by simp
  moreover have "reader_yields ?r (replicate n (TK_LESS_THAN, ''<''))"
    by (rule Suc.IH [OF wf, of "[]"]) (use v in auto)
  ultimately show ?case using t by (simp add: tok_text_def)
qed simp

lemma parser_init_wf: "range_wf rg \<Longrightarrow> rsize rg < 2 ^ 64 \<Longrightarrow> parser_wf (parser_init rg)"
  by (simp add: parser_init_def parser_wf_def reader_wf_def)

lemma parser_init_yields_append:
  assumes "\<forall>(tk, ws) \<in> set ts. lexeme tk \<and> ws \<noteq> [] \<and> list_all white_char ws"
    and "length (print_tokens ts @ s) < 2 ^ 64"
    and "\<And>r ws. reader_wf r \<Longrightarrow> rview r = ws @ s \<Longrightarrow> list_all white_char ws \<Longrightarrow> reader_yields r us"
  shows "yields (parser_init (RANGE_STRING (print_tokens ts @ s))) (map fst ts @ us)"
proof -
  let ?r = "\<lparr>rpos = zero_position, rrange = RANGE_STRING (print_tokens ts @ s)\<rparr>"
  have wf: "reader_wf ?r" using assms(2) by (simp add: reader_wf_def) (simp add: RANGE_STRING_def)
  have "reader_yields ?r (map fst ts @ us)"
    by (rule reader_yields_print_append [OF wf _ _ assms(1,3), of "[]" s]) simp_all
  with wf show ?thesis by (simp add: yields_def parser_init_def parser_wf_def)
qed

lemmas parser_init_yields = parser_init_yields_append [where us = "[]" and s = "[]", simplified]

lemma lexeme_ops: "op \<in> binary_ops \<Longrightarrow> lexeme (op, op_text op)"
  by auto

lemma byte_char_digit: "d < 10 \<Longrightarrow> digit_char (byte_char (digit_byte d))"
  by (simp add: digit_char_def schar_digit schar_literals)

lemma decimal_text_digits: "decimal_text n \<noteq> [] \<and> list_all digit_char (decimal_text n)"
  using decimal_digits [of _ n]
  by (auto simp: decimal_text_def decimal_bytes_def list_all_iff byte_char_digit)

lemma item_tokens_lexemes: "item_ok i \<Longrightarrow> \<forall>tk \<in> set (item_tokens i). lexeme tk"
proof (induction i)
  case (IParen i ops)
  have "lexeme tk" if "(op, j) \<in> set ops" "tk \<in> set (item_tokens j)" for op j tk
    using IParen.IH(2) [OF that(1), of j] IParen.prems that by fastforce
  with IParen show ?case by (auto simp: lexeme_ops)
qed (simp_all add: decimal_text_digits)

lemma ops_tokens_lexemes: "ops_ok ops \<Longrightarrow> \<forall>tk \<in> set (ops_tokens ops). lexeme tk"
  using item_tokens_lexemes by (fastforce simp: lexeme_ops)

lemma stmt_tokens_lexemes: "stmt_ok s \<Longrightarrow> \<forall>tk \<in> set (stmt_tokens s). lexeme tk"
proof (induction s)
  case (SDecl ty x i ops)
  then have "lexeme (ty, type_text ty)" by auto
  with SDecl item_tokens_lexemes [of i] ops_tokens_lexemes [of ops] show ?case by auto
qed (use item_tokens_lexemes ops_tokens_lexemes in auto)

lemma function_tokens_lexemes:
  assumes "ty \<in> {TK_KW_VOID, TK_KW_INT64}" and "lexeme (TK_ID, name)" and "\<forall>s \<in> set body. stmt_ok s"
  shows "\<forall>tk \<in> set (function_tokens ty name body). lexeme tk"
proof -
  have "lexeme (ty, type_text ty)" using assms(1) by auto
  with assms stmt_tokens_lexemes show ?thesis by (auto simp: function_tokens_def)
qed

lemma print_function_yields:
  assumes "map fst ts = function_tokens ty name body"
    and "\<forall>(tk, ws) \<in> set ts. ws \<noteq> [] \<and> list_all white_char ws" and "length (print_tokens ts) < 2 ^ 64"
    and "ty \<in> {TK_KW_VOID, TK_KW_INT64}" and "lexeme (TK_ID, name)" and "\<forall>s \<in> set body. stmt_ok s"
  shows "yields (parser_init (RANGE_STRING (print_tokens ts))) (function_tokens ty name body)"
proof -
  have "\<forall>tk \<in> fst ` set ts. lexeme tk"
    using function_tokens_lexemes [OF assms(4-6)] unfolding assms(1) [symmetric] by simp
  with assms(2) have "\<forall>(tk, ws) \<in> set ts. lexeme tk \<and> ws \<noteq> [] \<and> list_all white_char ws" by fastforce
  from parser_init_yields [OF this] assms(3) show ?thesis by (simp add: assms(1))
qed

subsection \<open>Blocks that are too long\<close>

lemma block_loop_overflow:
  assumes "\<forall>s \<in> set ss. stmt_ok s" and "yields p (concat (map stmt_tokens ss) @ ts)"
    and "length xs \<le> 16" and "16 < length xs + length ss"
  shows "\<exists>n. \<forall>m \<ge> n. block_loop m p xs = Inl StatementOverflow"
  using assms
proof (induction ss arbitrary: p xs)
  case (Cons s ss)
  let ?rest = "concat (map stmt_tokens ss) @ ts"
  have s: "stmt_ok s" using Cons.prems(1) by simp
  from stmt_tokens_head [OF this] obtain tk tks where tk: "stmt_tokens s = tk # tks" "fst tk \<noteq> TK_EEOF" "fst tk \<noteq> TK_CURLY_CLOSE"
    by blast
  have y: "yields p (tk # tks @ ?rest)" using Cons.prems(2) by (simp add: tk)
  obtain p1 where p1: "parser_peekToken p = Inr (p1, peek p1)" "tok_text (peek p1) = tk"
    "yields p1 (tk # tks @ ?rest)" by (rule yields_peek [OF y])
  then have "gives (\<lambda>m. parser_parseStatement m p1) p1 ?rest (stmt_is s)"
    by (intro stmt_parse [OF s]) (simp add: tk)
  then obtain n p2 node where n: "\<forall>m \<ge> n. parser_parseStatement m p1 = Inr (p2, node)" "yields p2 ?rest"
    "stmt_is s node" by (rule givesE)
  have "node \<noteq> Null" using n(3) by auto
  then have step: "block_loop (Suc k) p xs =
      bindE (push_statement xs node) (\<lambda>statements. block_loop k p2 statements)" if "n \<le> k" for k
    using that n(1) p1 tk by (simp add: tok_text_def prod_eq_iff)
  show ?case
  proof (cases "length xs = 16")
    case True
    then have "\<forall>k \<ge> n. block_loop (Suc k) p xs = Inl StatementOverflow" using step by (simp add: push_statement_eq)
    then show ?thesis by (metis Suc_le_D Suc_le_mono)
  next
    case False
    then have len: "length (xs @ [node]) \<le> 16" "16 < length (xs @ [node]) + length ss" using Cons.prems(3,4) by auto
    from Cons.IH [OF _ n(2) len] Cons.prems(1) obtain n' where
      "\<forall>m \<ge> n'. block_loop m p2 (xs @ [node]) = Inl StatementOverflow" by auto
    then have "\<forall>k \<ge> max n n'. block_loop (Suc k) p xs = Inl StatementOverflow"
      using step len(1) by (simp add: push_statement_eq)
    then show ?thesis by (metis Suc_le_D Suc_le_mono)
  qed
qed simp

lemma block_overflow:
  assumes "\<forall>s \<in> set ss. stmt_ok s" and "yields p ((TK_CURLY_OPEN, ''{'') # concat (map stmt_tokens ss) @ ts)"
    and "16 < length ss"
  shows "parser_parseBlock p = Inl StatementOverflow"
proof -
  obtain p1 where p1: "parser_peekToken p = Inr (p1, peek p1)" "tok_text (peek p1) = (TK_CURLY_OPEN, ''{'')"
    "yields p1 ((TK_CURLY_OPEN, ''{'') # concat (map stmt_tokens ss) @ ts)" by (rule yields_peek [OF assms(2)])
  obtain p2 t where p2: "parser_next p1 = Inr (p2, t)" "yields p2 (concat (map stmt_tokens ss) @ ts)"
    by (rule yields_next [OF p1(3)])
  from block_loop_overflow [OF assms(1) p2(2), of "[]"] assms(3) obtain n where
    "\<forall>m \<ge> n. block_loop m p2 [] = Inl StatementOverflow" by auto
  with p1 p2 have "parser_parseBlock_fuel (Suc n) p = Inl StatementOverflow" by (simp add: tok_text_def)
  with block_fuel [of "Suc n" p "Inl StatementOverflow"] yields_wf [OF assms(2)] show ?thesis by simp
qed

lemma function_overflow:
  assumes "yields p (function_tokens ty name body)" and "ty \<in> {TK_KW_VOID, TK_KW_INT64}"
    and "\<forall>s \<in> set body. stmt_ok s" and "16 < length body"
  shows "parser_parseFunction p = Inl StatementOverflow"
proof -
  let ?block = "(TK_CURLY_OPEN, ''{'') # concat (map stmt_tokens body) @ [(TK_CURLY_CLOSE, ''}'')]"
  have y: "yields p ((ty, type_text ty) # (TK_ID, name) # (TK_PARAN_OPEN, ''('') # (TK_PARAN_CLOSE, '')'') # ?block)"
    using assms(1) by (simp add: function_tokens_def)
  obtain p1 t1 where 1: "parser_next p = Inr (p1, t1)" "tok_text t1 = (ty, type_text ty)"
    "yields p1 ((TK_ID, name) # (TK_PARAN_OPEN, ''('') # (TK_PARAN_CLOSE, '')'') # ?block)"
    by (rule yields_next [OF y])
  obtain p2 t2 where 2: "parser_next p1 = Inr (p2, t2)" "tok_text t2 = (TK_ID, name)"
    "yields p2 ((TK_PARAN_OPEN, ''('') # (TK_PARAN_CLOSE, '')'') # ?block)" by (rule yields_next [OF 1(3)])
  obtain p3 where 3: "\<And>msg k. parser_expect TK_PARAN_OPEN msg p2 k = k p3"
    "yields p3 ((TK_PARAN_CLOSE, '')'') # ?block)" by (rule yields_expect [OF 2(3)]) blast
  obtain p4 where 4: "\<And>msg k. parser_expect TK_PARAN_CLOSE msg p3 k = k p4"
    "yields p4 ?block" by (rule yields_expect [OF 3(2)]) blast
  have "parser_parseBlock p4 = Inl StatementOverflow" by (rule block_overflow [OF assms(3) 4(2) assms(4)])
  with 1 2 3(1) 4(1) assms(2) show ?thesis
    by (auto simp: parser_parseFunction_def parser_check_def tok_text_def isDataType_def)
qed

subsection \<open>Precedence in printed expressions\<close>

lemma climb_three_wrong_iff:
  "climb l [(op1, a), (op2, b), (op3, c)] \<noteq> prec_tree l [(op1, a), (op2, b), (op3, c)] \<longleftrightarrow>
     getPresedence op1 < getPresedence op2 \<and> getPresedence op3 \<le> getPresedence op2"
proof -
  let ?ops = "[(op1, a), (op2, b), (op3, c)]" and ?p1 = "getPresedence op1" and ?p2 = "getPresedence op2" and ?p3 = "getPresedence op3"
  consider (down) "?p2 \<le> ?p1" "?p3 \<le> ?p2" | (valley) "?p2 \<le> ?p1" "?p2 < ?p3" | (up) "?p1 < ?p2" "?p2 < ?p3"
    | (last) "?p1 < ?p2" "?p3 \<le> ?p1" | (first) "?p1 < ?p3" "?p3 \<le> ?p2"
    by linarith
  then show ?thesis
  proof cases
    case down
    with climb_prec_tree [of "[(op1, a), (op2, b)]" op3 c "[]" l] show ?thesis by (simp del: climb.simps)
  next
    case valley
    with climb_prec_tree [of "[(op1, a)]" op2 b "[(op3, c)]" l] show ?thesis by (simp del: climb.simps)
  next
    case up
    with climb_prec_tree [of "[]" op1 a "[(op2, b), (op3, c)]" l] show ?thesis by (simp del: climb.simps)
  next
    case last
    have "prec_tree l ?ops = Bin op3 (prec_tree l [(op1, a), (op2, b)]) c"
      using prec_tree_split [of "[(op1, a), (op2, b)]" op3 "[]" l c] last by simp
    moreover have "prec_tree l [(op1, a), (op2, b)] = Bin op1 l (prec_tree a [(op2, b)])"
      using prec_tree_split [of "[]" op1 "[(op2, b)]" l a] last by simp
    moreover have "climb l ?ops = Bin op3 (Bin op2 (Bin op1 l a) b) c" using last by simp
    moreover have "op1 \<noteq> op2" using last by auto
    ultimately show ?thesis using last by simp
  next
    case first
    have "prec_tree l ?ops = Bin op1 l (prec_tree a [(op2, b), (op3, c)])"
      using prec_tree_split [of "[]" op1 "[(op2, b), (op3, c)]" l a] first by simp
    moreover have "climb l ?ops = Bin op2 (Bin op1 l a) (Bin op3 b c)" using first by simp
    moreover have "op1 \<noteq> op2" using first by auto
    ultimately show ?thesis using first by simp
  qed
qed

text \<open>
  Operators of falling precedence followed by operators of rising precedence: in these sequences one
  rotation per operator is enough.
\<close>

fun falls_then_rises :: "int list \<Rightarrow> bool" where
  "falls_then_rises (k # k' # ks) \<longleftrightarrow> (if k' \<le> k then falls_then_rises (k' # ks) else sorted_wrt (<) (k # k' # ks))"
| "falls_then_rises ks \<longleftrightarrow> True"

definition valley :: "(token_type \<times> 'a) list \<Rightarrow> bool" where
  "valley ops \<longleftrightarrow> falls_then_rises (map (\<lambda>(op, x). getPresedence op) ops)"

lemma valley_map: "valley (map (\<lambda>(op, x). (op, f x)) ops) \<longleftrightarrow> valley ops"
  by (simp add: valley_def comp_def case_prod_unfold)

lemma valley_split:
  assumes "valley (x # ops)"
  shows "\<exists>ds y rs. x # ops = ds @ y # rs \<and> sorted_wrt (\<lambda>x y. prec y \<le> prec x) (ds @ [y]) \<and> sorted_wrt (\<lambda>x y. prec x < prec y) (y # rs) \<and>
    (\<forall>d \<in> set ds. prec d \<le> prec x)"
  using assms
proof (induction ops arbitrary: x)
  case Nil
  show ?case by (intro exI [of _ "[]"] exI [of _ x]) simp
next
  case (Cons y ops)
  show ?case
  proof (cases "prec y \<le> prec x")
    case True
    with Cons.prems have "valley (y # ops)" by (cases x; cases y) (simp add: valley_def)
    from Cons.IH [OF this] obtain ds z rs where s: "y # ops = ds @ z # rs" "sorted_wrt (\<lambda>x y. prec y \<le> prec x) (ds @ [z])"
      "sorted_wrt (\<lambda>x y. prec x < prec y) (z # rs)" "\<forall>d \<in> set ds. prec d \<le> prec y" by blast
    have "prec z \<le> prec y" using s(1,2) by (cases ds) (auto simp: sorted_wrt_append)
    with s True show ?thesis by (intro exI [of _ "x # ds"] exI [of _ z] exI [of _ rs]) (auto simp: sorted_wrt_append)
  next
    case False
    with Cons.prems have "sorted_wrt (<) (map prec (x # y # ops))" by (cases x; cases y) (simp add: valley_def case_prod_unfold)
    then have "sorted_wrt (\<lambda>x y. prec x < prec y) (x # y # ops)" unfolding sorted_wrt_map .
    then show ?thesis by (intro exI [of _ "[]"] exI [of _ x] exI [of _ "y # ops"]) simp
  qed
qed

lemma climb_valley_tree: "valley ops \<Longrightarrow> climb l ops = prec_tree l ops"
proof (cases ops)
  case (Cons x xs)
  assume "valley ops"
  then obtain ds y rs where "ops = ds @ y # rs" "sorted_wrt (\<lambda>x y. prec y \<le> prec x) (ds @ [y])" "sorted_wrt (\<lambda>x y. prec x < prec y) (y # rs)"
    using valley_split [of x xs] unfolding Cons by blast
  then show ?thesis using climb_prec_tree [of ds "fst y" "snd y" rs l] by simp
qed simp

text \<open>The tree of an item by precedence, and the operands and operators of an item in their order.\<close>

fun item_ref :: "item \<Rightarrow> expr" where
  "item_ref (INum n) = Num n"
| "item_ref (IVar s) = Var s"
| "item_ref (IParen i ops) = prec_tree (item_ref i) (map (\<lambda>(op, j). (op, item_ref j)) ops)"

abbreviation ops_ref :: "(token_type \<times> item) list \<Rightarrow> (token_type \<times> expr) list" where
  "ops_ref \<equiv> map (\<lambda>(op, j). (op, item_ref j))"

fun item_valley :: "item \<Rightarrow> bool" where
  "item_valley (IParen i ops) \<longleftrightarrow> item_valley i \<and> valley ops \<and> (\<forall>(op, j) \<in> set ops. item_valley j)"
| "item_valley i \<longleftrightarrow> True"

fun item_order :: "item \<Rightarrow> expr list \<times> token_type list" where
  "item_order (INum n) = ([Num n], [])"
| "item_order (IVar s) = ([Var s], [])"
| "item_order (IParen i ops) =
     (fst (item_order i) @ concat (map (\<lambda>(op, j). fst (item_order j)) ops),
      snd (item_order i) @ concat (map (\<lambda>(op, j). op # snd (item_order j)) ops))"

lemma item_tree_ref: "item_valley i \<Longrightarrow> item_tree i = item_ref i"
proof (induction i)
  case (IParen i ops)
  have e: "ops_trees ops = ops_ref ops" "item_tree i = item_ref i" using IParen.IH IParen.prems by fastforce+
  have "valley (ops_ref ops)" using IParen.prems valley_map [of item_ref ops] by simp
  from climb_valley_tree [OF this] show ?case by (simp only: item_tree.simps item_ref.simps e)
qed simp_all

lemma inorder_item: "inorder (item_tree i) = item_order i"
proof (induction i)
  case (IParen i ops)
  have "\<forall>x \<in> set ops. inorder (item_tree (snd x)) = item_order (snd x)" using IParen.IH(2) by fastforce
  with IParen.IH(1) show ?case by (simp add: inorder_climb comp_def case_prod_unfold cong: map_cong)
qed simp_all

lemma printed_expression:
  assumes "map fst ts = item_tokens i @ ops_tokens ops @ [(TK_SEMI_COLON, '';'')]" and "item_ok i" and "ops_ok ops"
    and "\<forall>(tk, ws) \<in> set ts. ws \<noteq> [] \<and> list_all white_char ws" and "length (print_tokens ts) < 2 ^ 64"
  obtains p' node where "parser_parseExpression (parser_init (RANGE_STRING (print_tokens ts))) = Inr (p', node)"
    and "tree_is (climb (item_tree i) (ops_trees ops)) node"
proof -
  have "\<forall>tk \<in> fst ` set ts. lexeme tk"
    using item_tokens_lexemes [OF assms(2)] ops_tokens_lexemes [OF assms(3)] unfolding set_map [symmetric] assms(1) by auto
  with assms(4) have "\<forall>(tk, ws) \<in> set ts. lexeme tk \<and> ws \<noteq> [] \<and> list_all white_char ws" by fastforce
  from parser_init_yields [OF this] assms(5) have "yields (parser_init (RANGE_STRING (print_tokens ts)))
      (item_tokens i @ ops_tokens ops @ (TK_SEMI_COLON, '';'') # [])" by (simp add: assms(1))
  from expression_parse [OF assms(2,3) _ this] that show thesis by auto
qed

lemma binary_less:
  assumes "ops_ok ops" and "yields p (ops_tokens ops @ [(TK_LESS_THAN, ''<''), (TK_LESS_THAN, ''<'')])"
  shows "\<exists>n. \<forall>m \<ge> n. parser_parseBinary m p left = Inl NoReturn"
  using assms
proof (induction ops arbitrary: p left)
  case Nil
  let ?lt = "(TK_LESS_THAN, ''<'')"
  obtain p2 where p2: "parser_peekToken p = Inr (p2, peek p2)" "tok_text (peek p2) = ?lt" "yields p2 [?lt, ?lt]"
    by (rule yields_peek) (use Nil.prems(2) in simp)
  obtain p3 t where p3: "parser_next p2 = Inr (p3, t)" "yields p3 [?lt]" by (rule yields_next [OF p2(3)])
  obtain p4 t' where p4: "parser_next p3 = Inr (p4, t')" "tok_text t' = ?lt" by (rule yields_next [OF p3(2)])
  have "parser_parseBinary m p left = Inl NoReturn" if "2 \<le> m" for m
  proof -
    from that obtain k where "m = Suc (Suc k)" by (auto dest!: le_Suc_ex)
    then show ?thesis using p2 p3 p4 by (simp add: tok_text_def)
  qed
  then show ?case by blast
next
  case (Cons x ops)
  obtain op j where x: "x = (op, j)" by (cases x)
  have op: "op \<in> binary_ops" "item_ok j" "ops_ok ops" using Cons.prems(1) x by auto
  let ?rest = "ops_tokens ops @ [(TK_LESS_THAN, ''<''), (TK_LESS_THAN, ''<'')]"
  have y: "yields p ((op, op_text op) # item_tokens j @ ?rest)" using Cons.prems(2) by (simp add: x)
  obtain p1 where p1: "parser_peekToken p = Inr (p1, peek p1)" "tok_text (peek p1) = (op, op_text op)"
    "yields p1 ((op, op_text op) # item_tokens j @ ?rest)" by (rule yields_peek [OF y])
  obtain p2 t where p2: "parser_next p1 = Inr (p2, t)" "yields p2 (item_tokens j @ ?rest)" by (rule yields_next [OF p1(3)])
  from item_parse [OF op(2) p2(2)] obtain n p3 node where
    n: "\<forall>m \<ge> n. parser_readAtomInternal m p2 False = Inr (p3, node)" "yields p3 ?rest" "tree_is (item_tree j) node" by (rule givesE)
  from Cons.IH [OF op(3) n(2), of "BINARY_EXP op left node"] obtain n' where
    n': "\<forall>m \<ge> n'. parser_parseBinary m p3 (BINARY_EXP op left node) = Inl NoReturn" by blast
  have "parser_parseBinary m p left = Inl NoReturn" if "Suc (max n n') \<le> m" for m
  proof -
    from that obtain k where k: "m = Suc k" "n \<le> k" "n' \<le> k" by (cases m) auto
    have "ttype (peek p1) = op" "node \<noteq> Null" using p1(2) n(3) by (auto simp: tok_text_def)
    with op(1) show ?thesis unfolding k(1) parser_parseBinary.simps(2) using p1(1) p2(1) n(1) n' k(2,3)
      by (auto simp: Let_def parser_check_silent_def)
  qed
  then show ?case by blast
qed

section \<open>Properties\<close>

text \<open>
  C1: Round trip of the parser. The text of a function, printed token by token with any white space
  between the tokens, is parsed without an error into the tree of the function: its type and name,
  and one node per statement in order, with the conditions and bodies of \<open>if\<close> and \<open>while\<close>, the
  names and the right-hand sides, where an expression is grouped by parentheses and by \<open>climb\<close>.
  Blocks have at most sixteen statements.
\<close>
theorem parser_roundtrip:
  assumes "map fst ts = function_tokens ty name body"
    and "\<forall>(tk, ws) \<in> set ts. ws \<noteq> [] \<and> list_all white_char ws" and "length (print_tokens ts) < 2 ^ 64"
    and "ty \<in> {TK_KW_VOID, TK_KW_INT64}" and "lexeme (TK_ID, name)"
    and "\<forall>s \<in> set body. stmt_ok s" and "length body \<le> 16"
  shows "\<exists>p' node. parser_parseFunction (parser_init (RANGE_STRING (print_tokens ts))) = Inr (p', node) \<and>
    perror p' = None \<and> function_is ty name body node"
  using function_parse [OF print_function_yields [OF assms(1-6)] assms(4,6,7)]
  unfolding gives_def by (auto simp: parser_init_def)

theorem parser_roundtrip_witness:
  "\<exists>p' node. parser_parseFunction (parser_init (RANGE_STRING
      ''void f ( ) { x = 1 + y ; if ( x == 2 ) { return ; } } '')) = Inr (p', node) \<and>
    perror p' = None \<and>
    function_is TK_KW_VOID ''f''
      [SAssign ''x'' (INum 1) [(TK_PLUS, IVar ''y'')], SIf (IVar ''x'') [(TK_EQUALS, INum 2)] [SReturn]] node"
proof -
  let ?body = "[SAssign ''x'' (INum 1) [(TK_PLUS, IVar ''y'')], SIf (IVar ''x'') [(TK_EQUALS, INum 2)] [SReturn]]"
  let ?ts = "map (\<lambda>tk. (tk, '' '')) (function_tokens TK_KW_VOID ''f'' ?body)"
  have dt: "decimal_text (Suc 0) = ''1''" "decimal_text 2 = ''2''" by (code_simp, code_simp)
  have src: "print_tokens ?ts = ''void f ( ) { x = 1 + y ; if ( x == 2 ) { return ; } } ''"
    by (simp add: print_tokens_def function_tokens_def dt)
  have ok: "lexeme (TK_ID, ''f'')" "\<forall>s \<in> set ?body. stmt_ok s"
    by (simp_all add: char_classes schar_def keyword_of_def)
  have fst: "map fst ?ts = function_tokens TK_KW_VOID ''f'' ?body" by (simp add: comp_def)
  have ws: "\<forall>(tk, ws) \<in> set ?ts. ws \<noteq> [] \<and> list_all white_char ws" by (auto simp: white_char_def)
  have len: "length (print_tokens ?ts) < 2 ^ 64" unfolding src by simp
  from parser_roundtrip [OF fst ws len _ ok(1,2)] show ?thesis unfolding src by simp
qed

text \<open>
  C9: On every well-formed input the parser functions return: the tree or \<open>Null\<close>, with a well-formed
  parser state that has no more left to read, or one of the four kinds of undefined behaviour the
  source allows: no return value, a node used at the wrong type, a null node, and, for a function, a push to
  the full statement buffer. No assertion fails, no number overflows, no other access leaves its memory (a read
  outside the source text would be \<open>OutOfBounds\<close>), and the recursion ends within \<open>parser_fuel\<close> calls.
\<close>
theorem parser_outcomes:
  assumes "range_wf rg" and "rsize rg < 2 ^ 64"
  shows "(case parser_parseFunction (parser_init rg) of
      Inl e \<Rightarrow> e \<in> {NoReturn, TypeConfusion, NullDeref, StatementOverflow}
    | Inr (p', node) \<Rightarrow> parser_wf p' \<and> psize p' \<le> rsize rg) \<and>
    (case parser_parseExpression (parser_init rg) of
      Inl e \<Rightarrow> e \<in> {NoReturn, TypeConfusion, NullDeref}
    | Inr (p', node) \<Rightarrow> parser_wf p' \<and> psize p' < rsize rg)"
proof -
  have wf: "parser_wf (parser_init rg)" using assms by (rule parser_init_wf)
  have "psize (parser_init rg) = rsize rg" by (simp add: psize_def parser_init_def)
  with function_outcome [OF wf] expression_outcome [OF wf] show ?thesis
    by (auto simp: outcome_def stmt_faults_def expr_faults_def split: sum.splits if_splits)
qed

theorem parser_outcomes_witness:
  "parser_parseFunction (parser_init (RANGE_STRING ''void f(){x=1<2;}'')) \<noteq> Inl OutOfFuel"
  using parser_outcomes [of "RANGE_STRING ''void f(){x=1<2;}''"]
  by (cases "parser_parseFunction (parser_init (RANGE_STRING ''void f(){x=1<2;}''))")
    (auto simp: RANGE_STRING_def range_wf_def)

text \<open>
  C17: An expression is parsed into a tree with its operands and operators in the order of the text, whatever
  the operators are. When the precedences in it, and inside each of its parentheses, first fall (weakly) and
  then rise (strictly), the tree is that of the usual grammar: the last operator of lowest precedence at the root.
\<close>
theorem expression_precedence:
  assumes "map fst ts = item_tokens i @ ops_tokens ops @ [(TK_SEMI_COLON, '';'')]" and "item_ok i" and "ops_ok ops"
    and "\<forall>(tk, ws) \<in> set ts. ws \<noteq> [] \<and> list_all white_char ws" and "length (print_tokens ts) < 2 ^ 64"
  shows "\<exists>p' node t. parser_parseExpression (parser_init (RANGE_STRING (print_tokens ts))) = Inr (p', node) \<and> abs_expr node = Some t \<and>
    inorder t = item_order (IParen i ops) \<and> (item_valley (IParen i ops) \<longrightarrow> t = prec_tree (item_ref i) (ops_ref ops))"
proof -
  obtain p' node where p: "parser_parseExpression (parser_init (RANGE_STRING (print_tokens ts))) = Inr (p', node)"
    "tree_is (item_tree (IParen i ops)) node" using printed_expression [OF assms] by auto
  with inorder_item [of "IParen i ops"] item_tree_ref [of "IParen i ops"] show ?thesis unfolding tree_is_def by auto
qed

theorem expression_precedence_witness:
  "\<exists>p' node. parser_parseExpression (parser_init (RANGE_STRING ''a * b + c * d ; '')) = Inr (p', node) \<and>
     abs_expr node = Some (Bin TK_PLUS (Bin TK_MUL (Var ''a'') (Var ''b'')) (Bin TK_MUL (Var ''c'') (Var ''d'')))"
proof -
  let ?i = "IVar ''a''" and ?ops = "[(TK_MUL, IVar ''b''), (TK_PLUS, IVar ''c''), (TK_MUL, IVar ''d'')]"
  let ?ts = "map (\<lambda>tk. (tk, '' '')) (item_tokens ?i @ ops_tokens ?ops @ [(TK_SEMI_COLON, '';'')])"
  have src: "print_tokens ?ts = ''a * b + c * d ; ''" by (simp add: print_tokens_def)
  have fst: "map fst ?ts = item_tokens ?i @ ops_tokens ?ops @ [(TK_SEMI_COLON, '';'')]" by simp
  have ok: "item_ok ?i" "ops_ok ?ops" by (simp_all add: char_classes schar_def keyword_of_def)
  have ws: "\<forall>(tk, ws) \<in> set ?ts. ws \<noteq> [] \<and> list_all white_char ws" by (auto simp: white_char_def)
  have len: "length (print_tokens ?ts) < 2 ^ 64" unfolding src by simp
  have v: "item_valley (IParen ?i ?ops)" by (simp add: valley_def)
  have "prec_tree (item_ref ?i) (ops_ref ?ops) = Bin TK_PLUS (Bin TK_MUL (Var ''a'') (Var ''b'')) (Bin TK_MUL (Var ''c'') (Var ''d''))"
    using climb_valley_tree [of "ops_ref ?ops" "item_ref ?i"] by (simp add: valley_def)
  with expression_precedence [OF fst ok ws len, unfolded src] v show ?thesis by (metis (no_types, lifting))
qed

text \<open>
  C18: With three operators the parser groups wrongly exactly when the second binds tighter than the
  first and at least as tight as the third: \<open>a + b * c - d\<close> becomes \<open>((a + b) * c) - d\<close>.
\<close>
theorem three_operators_wrong_iff:
  assumes "map fst ts = item_tokens i @ ops_tokens [(op1, a), (op2, b), (op3, c)] @ [(TK_SEMI_COLON, '';'')]"
    and "item_ok i" and "ops_ok [(op1, a), (op2, b), (op3, c)]" and "\<forall>j \<in> {i, a, b, c}. item_valley j"
    and "\<forall>(tk, ws) \<in> set ts. ws \<noteq> [] \<and> list_all white_char ws" and "length (print_tokens ts) < 2 ^ 64"
  shows "\<exists>p' node t. parser_parseExpression (parser_init (RANGE_STRING (print_tokens ts))) = Inr (p', node) \<and> abs_expr node = Some t \<and>
    (t \<noteq> prec_tree (item_ref i) [(op1, item_ref a), (op2, item_ref b), (op3, item_ref c)] \<longleftrightarrow>
      getPresedence op1 < getPresedence op2 \<and> getPresedence op3 \<le> getPresedence op2)"
proof -
  obtain p' node where p: "parser_parseExpression (parser_init (RANGE_STRING (print_tokens ts))) = Inr (p', node)"
    "tree_is (climb (item_tree i) (ops_trees [(op1, a), (op2, b), (op3, c)])) node"
    by (rule printed_expression [OF assms(1-3,5,6)])
  have "climb (item_tree i) (ops_trees [(op1, a), (op2, b), (op3, c)]) =
      climb (item_ref i) [(op1, item_ref a), (op2, item_ref b), (op3, item_ref c)]"
    using assms(4) item_tree_ref by (simp del: climb.simps)
  with p climb_three_wrong_iff [of "item_ref i" op1 "item_ref a" op2 "item_ref b" op3 "item_ref c"] show ?thesis
    unfolding tree_is_def by metis
qed

theorem three_operators_wrong_iff_witness:
  "\<exists>p' node t. parser_parseExpression (parser_init (RANGE_STRING ''a + b * c - d ; '')) = Inr (p', node) \<and>
     abs_expr node = Some t \<and> t \<noteq> Bin TK_MINUS (Bin TK_PLUS (Var ''a'') (Bin TK_MUL (Var ''b'') (Var ''c''))) (Var ''d'')"
proof -
  let ?i = "IVar ''a''" and ?ops = "[(TK_PLUS, IVar ''b''), (TK_MUL, IVar ''c''), (TK_MINUS, IVar ''d'')]"
  let ?ts = "map (\<lambda>tk. (tk, '' '')) (item_tokens ?i @ ops_tokens ?ops @ [(TK_SEMI_COLON, '';'')])"
  have src: "print_tokens ?ts = ''a + b * c - d ; ''" by (simp add: print_tokens_def)
  have fst: "map fst ?ts = item_tokens ?i @ ops_tokens ?ops @ [(TK_SEMI_COLON, '';'')]" by simp
  have ok: "item_ok ?i" "ops_ok ?ops" "\<forall>j \<in> {?i, IVar ''b'', IVar ''c'', IVar ''d''}. item_valley j"
    by (simp_all add: char_classes schar_def keyword_of_def)
  have ws: "\<forall>(tk, ws) \<in> set ?ts. ws \<noteq> [] \<and> list_all white_char ws" by (auto simp: white_char_def)
  have len: "length (print_tokens ?ts) < 2 ^ 64" unfolding src by simp
  have "prec_tree (Var ''a'') [(TK_PLUS, Var ''b''), (TK_MUL, Var ''c''), (TK_MINUS, Var ''d'')] =
      Bin TK_MINUS (Bin TK_PLUS (Var ''a'') (Bin TK_MUL (Var ''b'') (Var ''c''))) (Var ''d'')" by code_simp
  with three_operators_wrong_iff [OF fst ok ws len] show ?thesis unfolding src by simp
qed

text \<open>
  C24: The statement buffer of a block is made for eight pointers and takes sixteen. The text of a
  function with seventeen or more statements makes the parser write behind the buffer.
\<close>
theorem parser_long_block_overflows:
  assumes "map fst ts = function_tokens ty name body"
    and "\<forall>(tk, ws) \<in> set ts. ws \<noteq> [] \<and> list_all white_char ws" and "length (print_tokens ts) < 2 ^ 64"
    and "ty \<in> {TK_KW_VOID, TK_KW_INT64}" and "lexeme (TK_ID, name)"
    and "\<forall>s \<in> set body. stmt_ok s" and "16 < length body"
  shows "parser_parseFunction (parser_init (RANGE_STRING (print_tokens ts))) = Inl StatementOverflow"
  by (rule function_overflow [OF print_function_yields [OF assms(1-6)] assms(4,6,7)])

theorem parser_long_block_overflows_witness:
  "parser_parseFunction (parser_init (RANGE_STRING (print_tokens
     (map (\<lambda>tk. (tk, '' '')) (function_tokens TK_KW_VOID ''f'' (replicate 17 SReturn)))))) = Inl StatementOverflow"
proof -
  let ?body = "replicate 17 SReturn"
  let ?ts = "map (\<lambda>tk. (tk, '' '')) (function_tokens TK_KW_VOID ''f'' ?body)"
  have fst: "map fst ?ts = function_tokens TK_KW_VOID ''f'' ?body" by (simp add: comp_def)
  have ws: "\<forall>(tk, ws) \<in> set ?ts. ws \<noteq> [] \<and> list_all white_char ws" by (auto simp: white_char_def)
  have "length (print_tokens ?ts) = 168" by code_simp
  then have len: "length (print_tokens ?ts) < 2 ^ 64" by (simp only:) simp
  have f: "lexeme (TK_ID, ''f'')" by (simp add: char_classes schar_def keyword_of_def)
  from parser_long_block_overflows [OF fst ws len _ f] show ?thesis by simp
qed

text \<open>
  C25: An expression cannot be parsed when a less-than sign follows its first operand or any sequence of operands
  joined by operators. The sign that \<open>parser_parseBinary\<close> skips is there again when it reads the right operand, and the function that
  should return the operand ends without a return value, whatever text follows.
\<close>
theorem less_than_unparsable:
  assumes "map fst ts = item_tokens i @ ops_tokens ops" and "item_ok i" and "ops_ok ops"
    and "\<forall>(tk, ws) \<in> set ts. ws \<noteq> [] \<and> list_all white_char ws" and "length (print_tokens ts @ ''<'' @ s) < 2 ^ 64"
  shows "parser_parseExpression (parser_init (RANGE_STRING (print_tokens ts @ ''<'' @ s))) = Inl NoReturn"
proof -
  let ?p = "parser_init (RANGE_STRING (print_tokens ts @ ''<'' @ s))" and ?lt = "(TK_LESS_THAN, ''<'')"
  have "\<forall>tk \<in> fst ` set ts. lexeme tk"
    using item_tokens_lexemes [OF assms(2)] ops_tokens_lexemes [OF assms(3)] unfolding set_map [symmetric] assms(1) by auto
  with assms(4) have "\<forall>(tk, ws) \<in> set ts. lexeme tk \<and> ws \<noteq> [] \<and> list_all white_char ws" by fastforce
  then have "yields ?p (map fst ts @ replicate 2 ?lt)"
    by (rule parser_init_yields_append [OF _ assms(5)]) (simp only: append_Cons append_Nil reader_yields_less)
  then have y: "yields ?p (item_tokens i @ ops_tokens ops @ [?lt, ?lt])" by (simp add: assms(1) numeral_2_eq_2)
  from item_parse [OF assms(2) y] obtain n p1 node where
    n: "\<forall>m \<ge> n. parser_readAtomInternal m ?p False = Inr (p1, node)" "yields p1 (ops_tokens ops @ [?lt, ?lt])" by (rule givesE)
  obtain n' where n': "\<forall>m \<ge> n'. parser_parseBinary m p1 node = Inl NoReturn" using binary_less [OF assms(3) n(2)] by blast
  have "parser_parseExpression_fuel (Suc (max n n')) ?p = Inl NoReturn"
    using n(1) n' by (simp del: parser_parseBinary.simps parser_readAtomInternal.simps)
  from expression_fuel [OF this _ yields_wf [OF y]] show ?thesis by simp
qed

theorem less_than_unparsable_witness:
  "parser_parseExpression (parser_init (RANGE_STRING ''x + y < 1'')) = Inl NoReturn"
proof -
  have i: "item_ok (IVar ''x'')" "ops_ok [(TK_PLUS, IVar ''y'')]" by (simp_all add: char_classes schar_def keyword_of_def)
  have "map fst [((TK_ID, ''x''), '' ''), ((TK_PLUS, ''+''), '' ''), ((TK_ID, ''y''), '' '')] = item_tokens (IVar ''x'') @ ops_tokens [(TK_PLUS, IVar ''y'')]" by simp
  from less_than_unparsable [OF this i, of "'' 1''"] show ?thesis
    by (simp add: print_tokens_def white_char_def)
qed

end
