(* ===== verification/Linked_List.thy ===== *)
theory Linked_List
  imports Prelude
begin

text \<open>
  \<open>list.c\<close>: the circular intrusive list on a heap of \<open>prev\<close>/\<open>next\<close> cells. \<open>ring h l xs\<close> says that
  the list with head \<open>l\<close> holds the elements \<open>xs\<close>; every operation is shown to be the operation on
  the sequence \<open>xs\<close>, to leave other lists alone, and to touch allocated cells only. The contract is
  the locale \<open>intrusive_list\<close>, for the clients that keep their elements in such lists.
\<close>

section \<open>The heap of list heads\<close>

type_synonym ptr = nat

record list_head =
  lprev :: ptr
  lnext :: ptr

type_synonym list_heap = "ptr \<Rightarrow> list_head option"

text \<open>Null and every other pointer that is not allocated cannot be dereferenced.\<close>

definition list_deref :: "list_heap \<Rightarrow> ptr \<Rightarrow> list_head res" where
  "list_deref h p = (case h p of None \<Rightarrow> Inl NullDeref | Some n \<Rightarrow> Inr n)"

definition set_next :: "list_heap \<Rightarrow> ptr \<Rightarrow> ptr \<Rightarrow> list_heap res" where
  "set_next h p v = bindE (list_deref h p) (\<lambda>n. Inr (h(p \<mapsto> n\<lparr>lnext := v\<rparr>)))"

definition set_prev :: "list_heap \<Rightarrow> ptr \<Rightarrow> ptr \<Rightarrow> list_heap res" where
  "set_prev h p v = bindE (list_deref h p) (\<lambda>n. Inr (h(p \<mapsto> n\<lparr>lprev := v\<rparr>)))"

definition get_next :: "list_heap \<Rightarrow> ptr \<Rightarrow> ptr res" where
  "get_next h p = bindE (list_deref h p) (\<lambda>n. Inr (lnext n))"

definition get_prev :: "list_heap \<Rightarrow> ptr \<Rightarrow> ptr res" where
  "get_prev h p = bindE (list_deref h p) (\<lambda>n. Inr (lprev n))"

section \<open>The operations\<close>

definition LIST_INIT :: "list_heap \<Rightarrow> ptr \<Rightarrow> list_heap res" where
  "LIST_INIT h l = bindE (set_next h l l) (\<lambda>h. set_prev h l l)"

definition list_empty :: "list_heap \<Rightarrow> ptr \<Rightarrow> bool res" where
  "list_empty h lst = bindE (get_next h lst) (\<lambda>n. Inr (lst = n))"

definition list_add :: "list_heap \<Rightarrow> ptr \<Rightarrow> ptr \<Rightarrow> list_heap res" where
  "list_add h lst e =
     bindE (set_next h e lst) (\<lambda>h.
     bindE (get_prev h lst) (\<lambda>p.
     bindE (set_prev h e p) (\<lambda>h.
     bindE (get_prev h lst) (\<lambda>p.
     bindE (set_next h p e) (\<lambda>h.
       set_prev h lst e)))))"

definition list_addAfter :: "list_heap \<Rightarrow> ptr \<Rightarrow> ptr \<Rightarrow> list_heap res" where
  "list_addAfter h b e =
     bindE (get_next h b) (\<lambda>n.
     bindE (set_next h e n) (\<lambda>h.
     bindE (set_prev h e b) (\<lambda>h.
     bindE (get_next h b) (\<lambda>n.
     bindE (set_prev h n e) (\<lambda>h.
       set_next h b e)))))"

definition list_deattach :: "list_heap \<Rightarrow> ptr \<Rightarrow> list_heap res" where
  "list_deattach h elem =
     bindE (get_prev h elem) (\<lambda>p.
     bindE (get_next h elem) (\<lambda>n.
     bindE (set_next h p n) (\<lambda>h.
     bindE (get_next h elem) (\<lambda>n.
     bindE (get_prev h elem) (\<lambda>p.
       set_prev h n p)))))"

text \<open>\<open>LIST_FOR_EACH\<close>: the elements from \<open>c\<close> to the head, at most \<open>fuel\<close> of them.\<close>

fun list_walk :: "nat \<Rightarrow> list_heap \<Rightarrow> ptr \<Rightarrow> ptr \<Rightarrow> ptr list res" where
  "list_walk 0 h l c = Inl OutOfFuel"
| "list_walk (Suc fuel) h l c =
     (if c = l then Inr []
      else bindE (get_next h c) (\<lambda>n. bindE (list_walk fuel h l n) (\<lambda>cs. Inr (c # cs))))"

definition LIST_FOR_EACH :: "nat \<Rightarrow> list_heap \<Rightarrow> ptr \<Rightarrow> ptr list res" where
  "LIST_FOR_EACH fuel h l = bindE (get_next h l) (\<lambda>c. list_walk fuel h l c)"

section \<open>Rings\<close>

definition nx :: "list_heap \<Rightarrow> ptr \<Rightarrow> ptr option" where
  "nx h p = map_option lnext (h p)"

definition pv :: "list_heap \<Rightarrow> ptr \<Rightarrow> ptr option" where
  "pv h p = map_option lprev (h p)"

definition linked :: "list_heap \<Rightarrow> (ptr \<times> ptr) list \<Rightarrow> bool" where
  "linked h ps \<longleftrightarrow> (\<forall>(a, b) \<in> set ps. nx h a = Some b \<and> pv h b = Some a)"

definition ring :: "list_heap \<Rightarrow> ptr \<Rightarrow> ptr list \<Rightarrow> bool" where
  "ring h l xs \<longleftrightarrow> distinct (l # xs) \<and> linked h (zip (l # xs) (xs @ [l]))"

lemma get_simps [simp]:
  "nx h p = Some n \<Longrightarrow> get_next h p = Inr n"
  "pv h p = Some q \<Longrightarrow> get_prev h p = Inr q"
  by (auto simp: nx_def pv_def get_next_def get_prev_def list_deref_def)

lemma set_next_ok:
  assumes "h p \<noteq> None"
  obtains h' where "set_next h p v = Inr h'" and "nx h' = (nx h)(p \<mapsto> v)" and "pv h' = pv h"
    and "dom h' = dom h" and "\<forall>q. q \<noteq> p \<longrightarrow> h' q = h q"
proof -
  from assms obtain n where n: "h p = Some n" by auto
  show ?thesis
    by (rule that [of "h(p \<mapsto> n\<lparr>lnext := v\<rparr>)"]) (use n in \<open>auto simp: set_next_def list_deref_def nx_def pv_def\<close>)
qed

lemma set_prev_ok:
  assumes "h p \<noteq> None"
  obtains h' where "set_prev h p v = Inr h'" and "pv h' = (pv h)(p \<mapsto> v)" and "nx h' = nx h"
    and "dom h' = dom h" and "\<forall>q. q \<noteq> p \<longrightarrow> h' q = h q"
proof -
  from assms obtain n where n: "h p = Some n" by auto
  show ?thesis
    by (rule that [of "h(p \<mapsto> n\<lparr>lprev := v\<rparr>)"]) (use n in \<open>auto simp: set_prev_def list_deref_def nx_def pv_def\<close>)
qed

lemma allocated_iff: "h p \<noteq> None \<longleftrightarrow> p \<in> dom h"
  by auto

lemma ring_allocated:
  assumes "ring h l xs" and "p \<in> set (l # xs)"
  shows "p \<in> dom h"
proof -
  have "p \<in> fst ` set (zip (l # xs) (xs @ [l]))"
    using assms(2) by (metis length_append_singleton length_Cons list.set_map map_fst_zip)
  with assms(1) show ?thesis by (fastforce simp: ring_def linked_def nx_def)
qed

lemma linked_append [simp]: "linked h (ps @ qs) \<longleftrightarrow> linked h ps \<and> linked h qs"
  and linked_Cons [simp]: "linked h ((a, b) # ps) \<longleftrightarrow> nx h a = Some b \<and> pv h b = Some a \<and> linked h ps"
  and linked_Nil [simp]: "linked h []"
  by (auto simp: linked_def)

lemma linked_frame:
  assumes "linked h (zip as bs)" and "\<forall>a \<in> set as. nx h' a = nx h a" and "\<forall>b \<in> set bs. pv h' b = pv h b"
  shows "linked h' (zip as bs)"
  using assms by (fastforce simp: linked_def dest: set_zip_leftD set_zip_rightD)

text \<open>The pairs of a ring at a place: \<open>b\<close> is the node before the place, \<open>c\<close> the node behind it.\<close>

lemma place:
  obtains b us' c vs' where "l # us = us' @ [b]" and "vs @ [l] = c # vs'"
    and "b = last (l # us)" and "c = hd (vs @ [l])"
    and "zip (l # us @ vs) ((us @ vs) @ [l]) = zip us' us @ (b, c) # zip vs vs'"
    and "\<forall>e. zip (l # us @ e # vs) ((us @ e # vs) @ [l]) = zip us' us @ (b, e) # (e, c) # zip vs vs'"
proof -
  obtain us' b where us: "l # us = us' @ [b]" by (metis append_butlast_last_id list.distinct(1))
  obtain c vs' where vs: "vs @ [l] = c # vs'" by (cases vs) auto
  have len: "length us' = length us" "length vs' = length vs"
    using arg_cong [OF us, of length] arg_cong [OF vs, of length] by simp_all
  have ends: "b = last (l # us)" "c = hd (vs @ [l])" by (simp_all add: us vs del: last.simps)
  have "zip (l # us @ vs) ((us @ vs) @ [l]) = zip ((l # us) @ vs) (us @ (vs @ [l]))" by simp
  also have "\<dots> = zip us' us @ (b, c) # zip vs vs'" unfolding us vs using len by simp
  finally have 1: "zip (l # us @ vs) ((us @ vs) @ [l]) = zip us' us @ (b, c) # zip vs vs'" .
  have 2: "zip (l # us @ e # vs) ((us @ e # vs) @ [l]) = zip us' us @ (b, e) # (e, c) # zip vs vs'" for e
  proof -
    have "zip (l # us @ e # vs) ((us @ e # vs) @ [l]) = zip ((l # us) @ e # vs) (us @ e # (vs @ [l]))" by simp
    also have "\<dots> = zip us' us @ (b, e) # (e, c) # zip vs vs'" unfolding us vs using len by simp
    finally show ?thesis .
  qed
  from that [OF us vs ends 1] 2 show ?thesis by blast
qed

lemma place_distinct:
  assumes "distinct (l # us @ vs)" and "l # us = us' @ [b]" and "vs @ [l] = c # vs'"
  shows "\<forall>a \<in> set us'. a \<in> set (l # us) \<and> a \<noteq> b" and "\<forall>y \<in> set vs'. y \<in> set (vs @ [l]) \<and> y \<noteq> c"
proof -
  have "distinct (us' @ [b])" using assms(1) by (simp flip: assms(2))
  then show "\<forall>a \<in> set us'. a \<in> set (l # us) \<and> a \<noteq> b" by (auto simp: assms(2))
  have "distinct (c # vs')" using assms(1) by (auto simp flip: assms(3))
  then show "\<forall>y \<in> set vs'. y \<in> set (vs @ [l]) \<and> y \<noteq> c" by (auto simp: assms(3))
qed

lemma place_nodes:
  assumes "l # us = us' @ [b]" and "vs @ [l] = c # vs'"
  shows "b \<in> set (l # us)" and "c \<in> set (vs @ [l])"
  by (simp_all add: assms)

text \<open>A new link at a place, or one link less: what the operations do to the pointers.\<close>

lemma ring_insert:
  assumes "ring h l (us @ vs)" and "e \<notin> set (l # us @ vs)"
    and "nx h' = (nx h)(last (l # us) \<mapsto> e, e \<mapsto> hd (vs @ [l]))"
    and "pv h' = (pv h)(e \<mapsto> last (l # us), hd (vs @ [l]) \<mapsto> e)"
  shows "ring h' l (us @ e # vs)"
proof -
  obtain b us' c vs' where p: "l # us = us' @ [b]" "vs @ [l] = c # vs'"
    and bc: "b = last (l # us)" "c = hd (vs @ [l])"
    and old: "zip (l # us @ vs) ((us @ vs) @ [l]) = zip us' us @ (b, c) # zip vs vs'"
    and new: "\<forall>e. zip (l # us @ e # vs) ((us @ e # vs) @ [l]) = zip us' us @ (b, e) # (e, c) # zip vs vs'"
    by (rule place [of l us vs])
  have h': "nx h' = (nx h)(b \<mapsto> e, e \<mapsto> c)" "pv h' = (pv h)(e \<mapsto> b, c \<mapsto> e)"
    using assms(3,4) bc by simp_all
  have d: "distinct (l # us @ vs)" using assms(1) by (simp add: ring_def)
  note sets = place_distinct [OF d p] place_nodes [OF p]
  have prev: "linked h (zip us' us)" "linked h (zip vs vs')" using assms(1) old by (simp_all add: ring_def)
  have "linked h' (zip us' us)" by (rule linked_frame [OF prev(1)]; use sets d assms(2) h' in auto)
  moreover have "linked h' (zip vs vs')" by (rule linked_frame [OF prev(2)]; use sets d assms(2) h' in auto)
  moreover have "b \<noteq> e" "c \<noteq> e" using sets(3,4) assms(2) by auto
  ultimately show ?thesis
    using d assms(2) h' new by (auto simp: ring_def)
qed

lemma ring_delete:
  assumes "ring h l (us @ e # vs)"
    and "nx h' = (nx h)(last (l # us) \<mapsto> hd (vs @ [l]))"
    and "pv h' = (pv h)(hd (vs @ [l]) \<mapsto> last (l # us))"
  shows "ring h' l (us @ vs)"
proof -
  obtain b us' c vs' where p: "l # us = us' @ [b]" "vs @ [l] = c # vs'"
    and bc: "b = last (l # us)" "c = hd (vs @ [l])"
    and new: "zip (l # us @ vs) ((us @ vs) @ [l]) = zip us' us @ (b, c) # zip vs vs'"
    and old: "\<forall>e. zip (l # us @ e # vs) ((us @ e # vs) @ [l]) = zip us' us @ (b, e) # (e, c) # zip vs vs'"
    by (rule place [of l us vs])
  have h': "nx h' = (nx h)(b \<mapsto> c)" "pv h' = (pv h)(c \<mapsto> b)" using assms(2,3) bc by simp_all
  have d: "distinct (l # us @ vs)" using assms(1) by (auto simp: ring_def)
  note sets = place_distinct [OF d p] place_nodes [OF p]
  have prev: "linked h (zip us' us)" "linked h (zip vs vs')" using assms(1) old by (simp_all add: ring_def)
  have "linked h' (zip us' us)" by (rule linked_frame [OF prev(1)]; use sets d h' in auto)
  moreover have "linked h' (zip vs vs')" by (rule linked_frame [OF prev(2)]; use sets d h' in auto)
  ultimately show ?thesis
    using d h' new by (auto simp: ring_def)
qed

lemma ring_links:
  assumes "ring h l (us @ vs)"
  shows "nx h (last (l # us)) = Some (hd (vs @ [l]))" and "pv h (hd (vs @ [l])) = Some (last (l # us))"
proof -
  obtain b us' c vs' where "l # us = us' @ [b]" "vs @ [l] = c # vs'"
    and bc: "b = last (l # us)" "c = hd (vs @ [l])"
    and z: "zip (l # us @ vs) ((us @ vs) @ [l]) = zip us' us @ (b, c) # zip vs vs'"
    and "\<forall>e. zip (l # us @ e # vs) ((us @ e # vs) @ [l]) = zip us' us @ (b, e) # (e, c) # zip vs vs'"
    by (rule place [of l us vs])
  have "nx h b = Some c" "pv h c = Some b" using assms z by (simp_all add: ring_def)
  then show "nx h (last (l # us)) = Some (hd (vs @ [l]))" "pv h (hd (vs @ [l])) = Some (last (l # us))"
    using bc by simp_all
qed

text \<open>Other lists, and every list whose nodes keep their cells.\<close>

lemma ring_frame:
  assumes "ring h m ys" and "\<forall>q \<in> set (m # ys). h' q = h q"
  shows "ring h' m ys"
proof -
  have "linked h' (zip (m # ys) (ys @ [m]))"
    by (rule linked_frame [where h = h]) (use assms in \<open>auto simp: ring_def nx_def pv_def\<close>)
  with assms(1) show ?thesis by (simp add: ring_def)
qed

section \<open>The operations on rings\<close>

text \<open>What an operation guarantees: the new sequence, the same allocated cells, other lists kept.\<close>

definition changes :: "list_heap \<Rightarrow> list_heap \<Rightarrow> ptr set \<Rightarrow> bool" where
  "changes h h' A \<longleftrightarrow> dom h' = dom h \<and> (\<forall>q. q \<notin> A \<longrightarrow> h' q = h q)"

lemma changes_ring: "changes h h' A \<Longrightarrow> ring h m ys \<Longrightarrow> set (m # ys) \<inter> A = {} \<Longrightarrow> ring h' m ys"
  by (rule ring_frame) (auto simp: changes_def)

lemma LIST_INIT_ring:
  assumes "l \<in> dom h"
  obtains h' where "LIST_INIT h l = Inr h'" and "ring h' l []" and "changes h h' {l}"
proof -
  have "h l \<noteq> None" using assms by auto
  then obtain h1 where h1: "set_next h l l = Inr h1" "nx h1 = (nx h)(l \<mapsto> l)" "dom h1 = dom h" "\<forall>q. q \<noteq> l \<longrightarrow> h1 q = h q"
    by (rule set_next_ok [where v = l])
  then have "h1 l \<noteq> None" using assms by auto
  then obtain h2 where h2: "set_prev h1 l l = Inr h2" "pv h2 = (pv h1)(l \<mapsto> l)" "nx h2 = nx h1" "dom h2 = dom h1"
    "\<forall>q. q \<noteq> l \<longrightarrow> h2 q = h1 q" by (rule set_prev_ok [where v = l])
  show ?thesis
    by (rule that [of h2]) (use h1 h2 in \<open>auto simp: LIST_INIT_def ring_def changes_def\<close>)
qed

lemma list_add_ring:
  assumes r: "ring h l xs" and e: "e \<in> dom h" "e \<notin> set (l # xs)"
  obtains h' where "list_add h l e = Inr h'" and "ring h' l (xs @ [e])"
    and "changes h h' (insert e (set (l # xs)))"
proof -
  let ?z = "last (l # xs)"
  have links: "nx h ?z = Some l" "pv h l = Some ?z" using ring_links [of h l xs "[]"] r by simp_all
  have z: "?z \<in> set (l # xs)" by simp
  have ze: "?z \<noteq> e" "l \<noteq> e" using e(2) z by auto
  have alloc: "l \<in> dom h" "?z \<in> dom h" using ring_allocated [OF r] z by auto
  from e(1) have "h e \<noteq> None" by auto
  then obtain h1 where h1: "set_next h e l = Inr h1" "nx h1 = (nx h)(e \<mapsto> l)" "pv h1 = pv h" "dom h1 = dom h"
    "\<forall>q. q \<noteq> e \<longrightarrow> h1 q = h q" by (rule set_next_ok [where v = l])
  then have "h1 e \<noteq> None" using e(1) by auto
  then obtain h2 where h2: "set_prev h1 e ?z = Inr h2" "pv h2 = (pv h1)(e \<mapsto> ?z)" "nx h2 = nx h1" "dom h2 = dom h1"
    "\<forall>q. q \<noteq> e \<longrightarrow> h2 q = h1 q" by (rule set_prev_ok [where v = ?z])
  then have "h2 ?z \<noteq> None" using h1 alloc by auto
  then obtain h3 where h3: "set_next h2 ?z e = Inr h3" "nx h3 = (nx h2)(?z \<mapsto> e)" "pv h3 = pv h2" "dom h3 = dom h2"
    "\<forall>q. q \<noteq> ?z \<longrightarrow> h3 q = h2 q" by (rule set_next_ok [where v = e])
  then have "h3 l \<noteq> None" using h1 h2 alloc by auto
  then obtain h4 where h4: "set_prev h3 l e = Inr h4" "pv h4 = (pv h3)(l \<mapsto> e)" "nx h4 = nx h3" "dom h4 = dom h3"
    "\<forall>q. q \<noteq> l \<longrightarrow> h4 q = h3 q" by (rule set_prev_ok [where v = e])
  have "list_add h l e = Inr h4"
  proof -
    have "get_prev h1 l = Inr ?z" using links h1 by simp
    moreover have "get_prev h2 l = Inr ?z" using links h1 h2 ze by simp
    ultimately show ?thesis using h1(1) h2(1) h3(1) h4(1) by (simp add: list_add_def)
  qed
  moreover have "ring h4 l (xs @ e # [])"
  proof (rule ring_insert)
    show "ring h l (xs @ [])" "e \<notin> set (l # xs @ [])" using r e by simp_all
    show "nx h4 = (nx h)(?z \<mapsto> e, e \<mapsto> hd ([] @ [l]))"
      using h1(2) h2(3) h3(2) h4(3) ze by (simp add: fun_upd_twist)
    show "pv h4 = (pv h)(e \<mapsto> ?z, hd ([] @ [l]) \<mapsto> e)"
      using h1(3) h2(2) h3(3) h4(2) by simp
  qed
  moreover have "changes h h4 (insert e (set (l # xs)))"
    unfolding changes_def
  proof (intro conjI allI impI)
    fix q assume "q \<notin> insert e (set (l # xs))"
    then have "q \<noteq> e" "q \<noteq> l" "q \<noteq> ?z" using z by auto
    then show "h4 q = h q" using h1(5) h2(5) h3(5) h4(5) by simp
  qed (use h1(4) h2(4) h3(4) h4(4) in simp)
  ultimately show ?thesis using that by simp
qed

lemma list_addAfter_ring:
  assumes r: "ring h l (us @ vs)" and e: "e \<in> dom h" "e \<notin> set (l # us @ vs)"
  obtains h' where "list_addAfter h (last (l # us)) e = Inr h'" and "ring h' l (us @ e # vs)"
    and "changes h h' (insert e (set (l # us @ vs)))"
proof -
  let ?b = "last (l # us)" and ?c = "hd (vs @ [l])"
  note links = ring_links [OF r]
  have nodes: "?b \<in> set (l # us @ vs)" "?c \<in> set (l # us @ vs)" by (auto simp: hd_append)
  have ne: "?b \<noteq> e" "?c \<noteq> e" using e(2) nodes by metis+
  have alloc: "?b \<in> dom h" "?c \<in> dom h" using ring_allocated [OF r] nodes by blast+
  from e(1) have "h e \<noteq> None" by auto
  then obtain h1 where h1: "set_next h e ?c = Inr h1" "nx h1 = (nx h)(e \<mapsto> ?c)" "pv h1 = pv h" "dom h1 = dom h"
    "\<forall>q. q \<noteq> e \<longrightarrow> h1 q = h q" by (rule set_next_ok [where v = ?c])
  then have "h1 e \<noteq> None" using e(1) by auto
  then obtain h2 where h2: "set_prev h1 e ?b = Inr h2" "pv h2 = (pv h1)(e \<mapsto> ?b)" "nx h2 = nx h1" "dom h2 = dom h1"
    "\<forall>q. q \<noteq> e \<longrightarrow> h2 q = h1 q" by (rule set_prev_ok [where v = ?b])
  have "h2 ?c \<noteq> None" using h1(4) h2(4) alloc by blast
  then obtain h3 where h3: "set_prev h2 ?c e = Inr h3" "pv h3 = (pv h2)(?c \<mapsto> e)" "nx h3 = nx h2" "dom h3 = dom h2"
    "\<forall>q. q \<noteq> ?c \<longrightarrow> h3 q = h2 q" by (rule set_prev_ok [where v = e])
  have "h3 ?b \<noteq> None" using h1(4) h2(4) h3(4) alloc by blast
  then obtain h4 where h4: "set_next h3 ?b e = Inr h4" "nx h4 = (nx h3)(?b \<mapsto> e)" "pv h4 = pv h3" "dom h4 = dom h3"
    "\<forall>q. q \<noteq> ?b \<longrightarrow> h4 q = h3 q" by (rule set_next_ok [where v = e])
  have "list_addAfter h ?b e = Inr h4"
  proof -
    have "get_next h ?b = Inr ?c" "get_next h2 ?b = Inr ?c" using links h1(2) h2(3) ne by simp_all
    then show ?thesis using h1(1) h2(1) h3(1) h4(1) by (simp add: list_addAfter_def)
  qed
  moreover have "ring h4 l (us @ e # vs)"
  proof (rule ring_insert [OF r e(2)])
    show "nx h4 = (nx h)(?b \<mapsto> e, e \<mapsto> ?c)"
      using h1(2) h2(3) h3(3) h4(2) fun_upd_twist [OF ne(1), of "nx h"] by (simp del: last.simps)
    show "pv h4 = (pv h)(e \<mapsto> ?b, ?c \<mapsto> e)"
      using h1(3) h2(2) h3(2) h4(3) by simp
  qed
  moreover have "changes h h4 (insert e (set (l # us @ vs)))"
    unfolding changes_def
  proof (intro conjI allI impI)
    fix q assume "q \<notin> insert e (set (l # us @ vs))"
    then have "q \<noteq> e" "q \<noteq> ?c" "q \<noteq> ?b" using nodes by blast+
    then show "h4 q = h q" using h1(5) h2(5) h3(5) h4(5) by simp
  qed (use h1(4) h2(4) h3(4) h4(4) in simp)
  ultimately show ?thesis using that by blast
qed

lemma list_deattach_ring:
  assumes r: "ring h l (us @ e # vs)"
  obtains h' where "list_deattach h e = Inr h'" and "ring h' l (us @ vs)"
    and "changes h h' (set (l # us @ vs))"
proof -
  let ?b = "last (l # us)" and ?c = "hd (vs @ [l])"
  have links: "pv h e = Some ?b" "nx h e = Some ?c"
    using ring_links(2) [of h l us "e # vs"] ring_links(1) [of h l "us @ [e]" vs] r by simp_all
  have nodes: "?b \<in> set (l # us @ vs)" "?c \<in> set (l # us @ vs)" by (auto simp: hd_append)
  have "e \<notin> set (l # us @ vs)" using r by (auto simp: ring_def)
  then have ne: "?b \<noteq> e" "?c \<noteq> e" using nodes by metis+
  have alloc: "?b \<in> dom h" "?c \<in> dom h" using ring_allocated [OF r] nodes by auto
  then have "h ?b \<noteq> None" by auto
  then obtain h1 where h1: "set_next h ?b ?c = Inr h1" "nx h1 = (nx h)(?b \<mapsto> ?c)" "pv h1 = pv h" "dom h1 = dom h"
    "\<forall>q. q \<noteq> ?b \<longrightarrow> h1 q = h q" by (rule set_next_ok [where v = ?c])
  have "h1 ?c \<noteq> None" using h1(4) alloc by blast
  then obtain h2 where h2: "set_prev h1 ?c ?b = Inr h2" "pv h2 = (pv h1)(?c \<mapsto> ?b)" "nx h2 = nx h1" "dom h2 = dom h1"
    "\<forall>q. q \<noteq> ?c \<longrightarrow> h2 q = h1 q" by (rule set_prev_ok [where v = ?b])
  have "list_deattach h e = Inr h2"
  proof -
    have "get_next h1 e = Inr ?c" "get_prev h1 e = Inr ?b" using links h1(2,3) ne by simp_all
    then show ?thesis using links h1(1) h2(1) by (simp add: list_deattach_def)
  qed
  moreover have "ring h2 l (us @ vs)"
    by (rule ring_delete [OF r]) (use h1 h2 in simp_all)
  moreover have "changes h h2 (set (l # us @ vs))"
    unfolding changes_def
  proof (intro conjI allI impI)
    fix q assume "q \<notin> set (l # us @ vs)"
    then have "q \<noteq> ?c" "q \<noteq> ?b" using nodes by blast+
    then show "h2 q = h q" using h1(5) h2(5) by simp
  qed (use h1(4) h2(4) in simp)
  ultimately show ?thesis using that by blast
qed

lemma list_empty_ring: "ring h l xs \<Longrightarrow> list_empty h l = Inr (xs = [])"
  using ring_links(1) [of h l "[]" xs] by (cases xs) (auto simp: list_empty_def ring_def)

lemma list_walk_ring:
  "ring h l (us @ vs) \<Longrightarrow> length vs < fuel \<Longrightarrow> list_walk fuel h l (hd (vs @ [l])) = Inr vs"
proof (induction vs arbitrary: us fuel)
  case Nil
  then show ?case by (cases fuel) auto
next
  case (Cons v vs)
  from Cons.prems obtain f where f: "fuel = Suc f" "length vs < f" by (cases fuel) auto
  have "v \<noteq> l" using Cons.prems(1) by (auto simp: ring_def)
  moreover have "nx h v = Some (hd (vs @ [l]))"
    using ring_links(1) [of h l "us @ [v]" vs] Cons.prems(1) by simp
  ultimately show ?case using Cons.IH [of "us @ [v]" f] Cons.prems(1) f by simp
qed

lemma LIST_FOR_EACH_ring: "ring h l xs \<Longrightarrow> length xs < fuel \<Longrightarrow> LIST_FOR_EACH fuel h l = Inr xs"
  using ring_links(1) [of h l "[]" xs] list_walk_ring [of h l "[]" xs fuel] by (simp add: LIST_FOR_EACH_def)

section \<open>The interface the clients rely on\<close>

text \<open>
  \<open>rep h l xs\<close>: the list of head \<open>l\<close> holds \<open>xs\<close>; \<open>same h h' A\<close>: only cells in \<open>A\<close> were written.
\<close>

locale intrusive_list =
  fixes rep :: "'h \<Rightarrow> ptr \<Rightarrow> ptr list \<Rightarrow> bool"
    and cells :: "'h \<Rightarrow> ptr set"
    and same :: "'h \<Rightarrow> 'h \<Rightarrow> ptr set \<Rightarrow> bool"
    and init :: "'h \<Rightarrow> ptr \<Rightarrow> 'h res"
    and add :: "'h \<Rightarrow> ptr \<Rightarrow> ptr \<Rightarrow> 'h res"
    and addAfter :: "'h \<Rightarrow> ptr \<Rightarrow> ptr \<Rightarrow> 'h res"
    and deattach :: "'h \<Rightarrow> ptr \<Rightarrow> 'h res"
    and each :: "nat \<Rightarrow> 'h \<Rightarrow> ptr \<Rightarrow> ptr list res"
  assumes rep_distinct: "rep h l xs \<Longrightarrow> distinct (l # xs)"
    and rep_cells: "rep h l xs \<Longrightarrow> set (l # xs) \<subseteq> cells h"
    and same_rep: "same h h' A \<Longrightarrow> rep h l xs \<Longrightarrow> set (l # xs) \<inter> A = {} \<Longrightarrow> rep h' l xs"
    and same_cells: "same h h' A \<Longrightarrow> cells h' = cells h"
    and same_trans: "same h h' A \<Longrightarrow> same h' h'' B \<Longrightarrow> same h h'' (A \<union> B)"
    and init_law: "l \<in> cells h \<Longrightarrow> \<exists>h'. init h l = Inr h' \<and> rep h' l [] \<and> same h h' {l}"
    and add_law: "rep h l xs \<Longrightarrow> e \<in> cells h \<Longrightarrow> e \<notin> set (l # xs) \<Longrightarrow>
      \<exists>h'. add h l e = Inr h' \<and> rep h' l (xs @ [e]) \<and> same h h' (insert e (set (l # xs)))"
    and addAfter_law: "rep h l (us @ vs) \<Longrightarrow> e \<in> cells h \<Longrightarrow> e \<notin> set (l # us @ vs) \<Longrightarrow>
      \<exists>h'. addAfter h (last (l # us)) e = Inr h' \<and> rep h' l (us @ e # vs) \<and>
        same h h' (insert e (set (l # us @ vs)))"
    and deattach_law: "rep h l (us @ e # vs) \<Longrightarrow>
      \<exists>h'. deattach h e = Inr h' \<and> rep h' l (us @ vs) \<and> same h h' (set (l # us @ vs))"
    and each_law: "rep h l xs \<Longrightarrow> length xs < fuel \<Longrightarrow> each fuel h l = Inr xs"

text \<open>A family of lists that share no node: the buckets of a hash map, the lists of a code generator.\<close>

definition list_nodes :: "(ptr \<rightharpoonup> ptr list) \<Rightarrow> ptr \<Rightarrow> ptr set" where
  "list_nodes L l = (case L l of None \<Rightarrow> {} | Some xs \<Rightarrow> set (l # xs))"

definition separate :: "(ptr \<rightharpoonup> ptr list) \<Rightarrow> bool" where
  "separate L \<longleftrightarrow> (\<forall>l m. l \<noteq> m \<longrightarrow> list_nodes L l \<inter> list_nodes L m = {})"

definition in_lists :: "(ptr \<rightharpoonup> ptr list) \<Rightarrow> ptr \<Rightarrow> bool" where
  "in_lists L e \<longleftrightarrow> (\<exists>l. e \<in> list_nodes L l)"

lemma list_nodes_upd [simp]:
  "list_nodes (L(l \<mapsto> xs)) m = (if m = l then set (l # xs) else list_nodes L m)"
  by (simp add: list_nodes_def)

lemma list_nodes_Some: "L l = Some xs \<Longrightarrow> list_nodes L l = set (l # xs)"
  by (simp add: list_nodes_def)

lemma separateD: "separate L \<Longrightarrow> l \<noteq> m \<Longrightarrow> list_nodes L l \<inter> list_nodes L m = {}"
  by (auto simp: separate_def)

lemma separate_upd:
  assumes "separate L" and "\<forall>m. m \<noteq> l \<longrightarrow> set (l # ys) \<inter> list_nodes L m = {}"
  shows "separate (L(l \<mapsto> ys))"
  using assms by (auto simp: separate_def)

context intrusive_list
begin

lemma family_step:
  assumes rep: "\<And>m ys. L m = Some ys \<Longrightarrow> rep h m ys" and sep: "separate L"
    and h': "same h h' A" "rep h' l ys"
    and A: "\<And>m. m \<noteq> l \<Longrightarrow> A \<inter> list_nodes L m = {}"
    and ys: "\<And>m. m \<noteq> l \<Longrightarrow> set (l # ys) \<inter> list_nodes L m = {}"
  shows "(\<forall>m zs. (L(l \<mapsto> ys)) m = Some zs \<longrightarrow> rep h' m zs) \<and> separate (L(l \<mapsto> ys))"
proof (intro conjI allI impI)
  fix m zs assume m: "(L(l \<mapsto> ys)) m = Some zs"
  show "rep h' m zs"
  proof (cases "m = l")
    case True
    then show ?thesis using m h'(2) by simp
  next
    case False
    then have "L m = Some zs" using m by simp
    then show ?thesis using same_rep [OF h'(1) rep] A [OF False] by (auto simp: list_nodes_def)
  qed
next
  show "separate (L(l \<mapsto> ys))" using separate_upd [OF sep] ys by blast
qed

lemma family_init:
  assumes "\<And>m ys. L m = Some ys \<Longrightarrow> rep h m ys" and "separate L" and "l \<in> cells h" and "\<not> in_lists L l"
  shows "\<exists>h'. init h l = Inr h' \<and> same h h' {l} \<and>
    (\<forall>m ys. (L(l \<mapsto> [])) m = Some ys \<longrightarrow> rep h' m ys) \<and> separate (L(l \<mapsto> []))"
proof -
  from init_law [OF assms(3)] obtain h' where h': "init h l = Inr h'" "rep h' l []" "same h h' {l}" by auto
  from family_step [OF assms(1,2) h'(3,2)] assms(4) h' show ?thesis by (auto simp: in_lists_def)
qed

lemma family_add:
  assumes "\<And>m ys. L m = Some ys \<Longrightarrow> rep h m ys" and "separate L" and "L l = Some xs"
    and "e \<in> cells h" and "\<not> in_lists L e"
  shows "\<exists>h'. add h l e = Inr h' \<and> same h h' (insert e (set (l # xs))) \<and>
    (\<forall>m ys. (L(l \<mapsto> xs @ [e])) m = Some ys \<longrightarrow> rep h' m ys) \<and> separate (L(l \<mapsto> xs @ [e]))"
proof -
  have e: "\<And>m. e \<notin> list_nodes L m" using assms(5) by (auto simp: in_lists_def)
  have l: "\<And>m. m \<noteq> l \<Longrightarrow> set (l # xs) \<inter> list_nodes L m = {}"
    using separateD [OF assms(2)] list_nodes_Some [of L l, OF assms(3)] by metis
  have "e \<notin> set (l # xs)" using e [of l] list_nodes_Some [of L l, OF assms(3)] by simp
  from add_law [OF assms(1) [OF assms(3)] assms(4) this]
  obtain h' where h': "add h l e = Inr h'" "rep h' l (xs @ [e])" "same h h' (insert e (set (l # xs)))"
    by blast
  have "(\<forall>m ys. (L(l \<mapsto> xs @ [e])) m = Some ys \<longrightarrow> rep h' m ys) \<and> separate (L(l \<mapsto> xs @ [e]))"
    by (rule family_step [OF assms(1,2) h'(3,2)]; use e l in fastforce)
  with h' show ?thesis by blast
qed

lemma family_addAfter:
  assumes "\<And>m ys. L m = Some ys \<Longrightarrow> rep h m ys" and "separate L" and "L l = Some (us @ vs)"
    and "e \<in> cells h" and "\<not> in_lists L e"
  shows "\<exists>h'. addAfter h (last (l # us)) e = Inr h' \<and> same h h' (insert e (set (l # us @ vs))) \<and>
    (\<forall>m ys. (L(l \<mapsto> us @ e # vs)) m = Some ys \<longrightarrow> rep h' m ys) \<and> separate (L(l \<mapsto> us @ e # vs))"
proof -
  have e: "\<And>m. e \<notin> list_nodes L m" using assms(5) by (auto simp: in_lists_def)
  have l: "\<And>m. m \<noteq> l \<Longrightarrow> set (l # us @ vs) \<inter> list_nodes L m = {}"
    using separateD [OF assms(2)] list_nodes_Some [of L l, OF assms(3)] by metis
  have "e \<notin> set (l # us @ vs)" using e [of l] list_nodes_Some [of L l, OF assms(3)] by simp
  from addAfter_law [OF assms(1) [OF assms(3)] assms(4) this] obtain h' where
    h': "addAfter h (last (l # us)) e = Inr h'" "rep h' l (us @ e # vs)" "same h h' (insert e (set (l # us @ vs)))"
    by blast
  have "(\<forall>m ys. (L(l \<mapsto> us @ e # vs)) m = Some ys \<longrightarrow> rep h' m ys) \<and> separate (L(l \<mapsto> us @ e # vs))"
    by (rule family_step [OF assms(1,2) h'(3,2)]; use e l in fastforce)
  with h' show ?thesis by blast
qed

lemma family_deattach:
  assumes "\<And>m ys. L m = Some ys \<Longrightarrow> rep h m ys" and "separate L" and "L l = Some (us @ e # vs)"
  shows "\<exists>h'. deattach h e = Inr h' \<and> same h h' (set (l # us @ vs)) \<and>
    (\<forall>m ys. (L(l \<mapsto> us @ vs)) m = Some ys \<longrightarrow> rep h' m ys) \<and> separate (L(l \<mapsto> us @ vs)) \<and>
    \<not> in_lists (L(l \<mapsto> us @ vs)) e \<and> e \<in> cells h'"
proof -
  have l: "\<And>m. m \<noteq> l \<Longrightarrow> set (l # us @ e # vs) \<inter> list_nodes L m = {}"
    using separateD [OF assms(2)] list_nodes_Some [of L l, OF assms(3)] by metis
  note rep = assms(1) [OF assms(3)]
  from deattach_law [OF rep]
  obtain h' where h': "deattach h e = Inr h'" "rep h' l (us @ vs)" "same h h' (set (l # us @ vs))" by blast
  have "(\<forall>m ys. (L(l \<mapsto> us @ vs)) m = Some ys \<longrightarrow> rep h' m ys) \<and> separate (L(l \<mapsto> us @ vs))"
    by (rule family_step [OF assms(1,2) h'(3,2)]; use l in fastforce)
  moreover have "\<not> in_lists (L(l \<mapsto> us @ vs)) e"
  proof -
    have "e \<notin> set (l # us @ vs)" using rep_distinct [OF rep] by auto
    moreover have "e \<notin> list_nodes L m" if "m \<noteq> l" for m using l [OF that] by auto
    ultimately show ?thesis by (auto simp: in_lists_def split: if_splits)
  qed
  moreover have "e \<in> cells h'" using rep_cells [OF rep] same_cells [OF h'(3)] by auto
  ultimately show ?thesis using h' by blast
qed

text \<open>Moving an element: it leaves its list and joins the end of another one, or of the same.\<close>

lemma family_move:
  assumes "\<And>m ys. L m = Some ys \<Longrightarrow> rep h m ys" and "separate L" and "L l = Some (us @ e # vs)"
    and "(L(l \<mapsto> us @ vs)) m = Some xs"
  shows "\<exists>h1 h'. deattach h e = Inr h1 \<and> add h1 m e = Inr h' \<and> cells h' = cells h \<and>
    (\<forall>k ys. (L(l \<mapsto> us @ vs, m \<mapsto> xs @ [e])) k = Some ys \<longrightarrow> rep h' k ys) \<and>
    separate (L(l \<mapsto> us @ vs, m \<mapsto> xs @ [e]))"
proof -
  from family_deattach [OF assms(1-3)] obtain h1 where h1: "deattach h e = Inr h1"
    "same h h1 (set (l # us @ vs))" "\<And>m ys. (L(l \<mapsto> us @ vs)) m = Some ys \<Longrightarrow> rep h1 m ys"
    "separate (L(l \<mapsto> us @ vs))" "\<not> in_lists (L(l \<mapsto> us @ vs)) e" "e \<in> cells h1" by blast
  from family_add [OF h1(3,4) assms(4) h1(6,5)] obtain h' where "add h1 m e = Inr h'"
    "same h1 h' (insert e (set (m # xs)))"
    "\<forall>k ys. (L(l \<mapsto> us @ vs, m \<mapsto> xs @ [e])) k = Some ys \<longrightarrow> rep h' k ys"
    "separate (L(l \<mapsto> us @ vs, m \<mapsto> xs @ [e]))" by blast
  with h1(1) same_cells [OF h1(2)] same_cells [of h1] show ?thesis by metis
qed

end

lemma changes_trans: "changes h h' A \<Longrightarrow> changes h' h'' B \<Longrightarrow> changes h h'' (A \<union> B)"
  by (auto simp: changes_def)

interpretation il: intrusive_list ring dom changes LIST_INIT list_add list_addAfter list_deattach LIST_FOR_EACH
proof unfold_locales
  fix h :: list_heap and l xs assume "ring h l xs"
  then show "distinct (l # xs)" and "set (l # xs) \<subseteq> dom h"
    using ring_allocated by (simp add: ring_def, blast)
next
  fix h h' :: list_heap and A l xs
  assume "changes h h' A" "ring h l xs" "set (l # xs) \<inter> A = {}" then show "ring h' l xs" by (rule changes_ring)
next
  fix h h' :: list_heap and A assume "changes h h' A" then show "dom h' = dom h" by (simp add: changes_def)
next
  fix h h' h'' :: list_heap and A B
  assume "changes h h' A" "changes h' h'' B" then show "changes h h'' (A \<union> B)" by (rule changes_trans)
next
  fix h :: list_heap and l assume "l \<in> dom h"
  then show "\<exists>h'. LIST_INIT h l = Inr h' \<and> ring h' l [] \<and> changes h h' {l}" by (metis LIST_INIT_ring)
next
  fix h :: list_heap and l xs e assume "ring h l xs" "e \<in> dom h" "e \<notin> set (l # xs)"
  then show "\<exists>h'. list_add h l e = Inr h' \<and> ring h' l (xs @ [e]) \<and> changes h h' (insert e (set (l # xs)))"
    by (metis list_add_ring)
next
  fix h :: list_heap and l us vs e assume "ring h l (us @ vs)" "e \<in> dom h" "e \<notin> set (l # us @ vs)"
  then show "\<exists>h'. list_addAfter h (last (l # us)) e = Inr h' \<and> ring h' l (us @ e # vs) \<and>
      changes h h' (insert e (set (l # us @ vs)))" by (metis list_addAfter_ring)
next
  fix h :: list_heap and l us e vs assume "ring h l (us @ e # vs)"
  then show "\<exists>h'. list_deattach h e = Inr h' \<and> ring h' l (us @ vs) \<and> changes h h' (set (l # us @ vs))"
    by (metis list_deattach_ring)
next
  fix h :: list_heap and l xs fuel assume "ring h l xs" "length xs < (fuel::nat)"
  then show "LIST_FOR_EACH fuel h l = Inr xs" by (rule LIST_FOR_EACH_ring)
qed

section \<open>Properties of the list\<close>

text \<open>The operations, run on the heap, and what they do to a sequence; \<open>AddAfter l e\<close> inserts in front.\<close>

datatype list_op = Add ptr | AddAfter ptr ptr | Deattach ptr

fun list_run :: "ptr \<Rightarrow> list_heap \<Rightarrow> list_op list \<Rightarrow> list_heap res" where
  "list_run l h [] = Inr h"
| "list_run l h (Add e # ops) = bindE (list_add h l e) (\<lambda>h. list_run l h ops)"
| "list_run l h (AddAfter b e # ops) = bindE (list_addAfter h b e) (\<lambda>h. list_run l h ops)"
| "list_run l h (Deattach e # ops) = bindE (list_deattach h e) (\<lambda>h. list_run l h ops)"

definition seq_insert :: "ptr \<Rightarrow> ptr \<Rightarrow> ptr list \<Rightarrow> ptr list" where
  "seq_insert b e ys = takeWhile (\<lambda>x. x \<noteq> b) ys @ b # e # tl (dropWhile (\<lambda>x. x \<noteq> b) ys)"

fun seq_run :: "ptr \<Rightarrow> ptr list \<Rightarrow> list_op list \<Rightarrow> ptr list" where
  "seq_run l xs [] = xs"
| "seq_run l xs (Add e # ops) = seq_run l (xs @ [e]) ops"
| "seq_run l xs (AddAfter b e # ops) = seq_run l (tl (seq_insert b e (l # xs))) ops"
| "seq_run l xs (Deattach e # ops) = seq_run l (remove1 e xs) ops"

text \<open>The use the callers may make of them: attach what is detached, detach what is attached.\<close>

fun list_ops_ok :: "ptr set \<Rightarrow> ptr \<Rightarrow> ptr list \<Rightarrow> list_op list \<Rightarrow> bool" where
  "list_ops_ok C l xs [] = True"
| "list_ops_ok C l xs (Add e # ops) =
     (e \<in> C \<and> e \<notin> set (l # xs) \<and> list_ops_ok C l (xs @ [e]) ops)"
| "list_ops_ok C l xs (AddAfter b e # ops) =
     (e \<in> C \<and> e \<notin> set (l # xs) \<and> b \<in> set (l # xs) \<and> list_ops_ok C l (tl (seq_insert b e (l # xs))) ops)"
| "list_ops_ok C l xs (Deattach e # ops) = (e \<in> set xs \<and> list_ops_ok C l (remove1 e xs) ops)"

fun op_nodes :: "list_op \<Rightarrow> ptr set" where
  "op_nodes (Add e) = {e}"
| "op_nodes (AddAfter b e) = {b, e}"
| "op_nodes (Deattach e) = {e}"

lemma seq_insert_place:
  assumes "distinct (l # us @ vs)"
  shows "seq_insert (last (l # us)) e (l # us @ vs) = l # us @ e # vs"
proof (cases us rule: rev_cases)
  case Nil
  then show ?thesis by (simp add: seq_insert_def)
next
  case (snoc ws b)
  have "takeWhile (\<lambda>x. x \<noteq> b) (l # ws @ b # vs) = l # ws" "dropWhile (\<lambda>x. x \<noteq> b) (l # ws @ b # vs) = b # vs"
    using assms snoc by (auto simp: takeWhile_append dropWhile_append)
  then show ?thesis using snoc by (simp add: seq_insert_def)
qed

lemma attached_place:
  assumes "b \<in> set (l # xs)"
  obtains us vs where "xs = us @ vs" and "b = last (l # us)"
proof (cases "b = l")
  case True
  then show ?thesis using that [of "[]" xs] by simp
next
  case False
  then obtain us vs where "xs = us @ b # vs" using assms by (auto simp: in_set_conv_decomp)
  then show ?thesis using that [of "us @ [b]" vs] by simp
qed

text \<open>
  C13: every sequence of \<open>list_add\<close>, \<open>list_addAfter\<close> and \<open>list_deattach\<close> calls that attaches detached
  elements and detaches attached ones runs without a fault on the heap, refines the same changes of
  a sequence, and \<open>LIST_FOR_EACH\<close> then visits exactly that sequence; every other list is unchanged.
\<close>

theorem list_operations_refine_sequences:
  assumes "ring h l xs" and "list_ops_ok (dom h) l xs ops"
    and "ring h m ys" and "set (m # ys) \<inter> (set (l # xs) \<union> (\<Union>op \<in> set ops. op_nodes op)) = {}"
  shows "\<exists>h'. list_run l h ops = Inr h' \<and> ring h' l (seq_run l xs ops) \<and> dom h' = dom h \<and> ring h' m ys \<and>
    (\<forall>fuel > length (seq_run l xs ops). LIST_FOR_EACH fuel h' l = Inr (seq_run l xs ops))"
  using assms
proof (induction ops arbitrary: h xs)
  case Nil
  then show ?case using il.each_law by auto
next
  case (Cons op ops)
  have sep: "set (m # ys) \<inter> set (l # xs) = {}" "set (m # ys) \<inter> op_nodes op = {}"
    "set (m # ys) \<inter> (\<Union>op \<in> set ops. op_nodes op) = {}" using Cons.prems(4) by auto
  have go: ?case
    if "list_run l h (op # ops) = list_run l h1 ops" "seq_run l xs (op # ops) = seq_run l zs ops"
      "ring h1 l zs" "changes h h1 (set (l # xs) \<union> op_nodes op)" "list_ops_ok (dom h) l zs ops"
      "set zs \<subseteq> set xs \<union> op_nodes op" for h1 zs
  proof -
    have "dom h1 = dom h" using il.same_cells [OF that(4)] .
    moreover have "ring h1 m ys" using il.same_rep [OF that(4) Cons.prems(3)] sep by blast
    moreover have "set (m # ys) \<inter> (set (l # zs) \<union> (\<Union>op \<in> set ops. op_nodes op)) = {}"
      using sep that(6) by auto
    ultimately show ?thesis using Cons.IH [of h1 zs] that by simp
  qed
  show ?case
  proof (cases op)
    case (Add e)
    with Cons.prems(2) have e: "e \<in> dom h" "e \<notin> set (l # xs)" by auto
    from il.add_law [OF Cons.prems(1) this] obtain h1 where "list_add h l e = Inr h1" "ring h1 l (xs @ [e])"
      "changes h h1 (insert e (set (l # xs)))" by blast
    then show ?thesis using go [of h1 "xs @ [e]"] Add Cons.prems(2) by (simp add: insert_commute)
  next
    case (AddAfter b e)
    with Cons.prems(2) have e: "e \<in> dom h" "e \<notin> set (l # xs)" "b \<in> set (l # xs)" by auto
    obtain us vs where xs: "xs = us @ vs" and b: "b = last (l # us)" using attached_place [OF e(3)] .
    have d: "distinct (l # us @ vs)" using il.rep_distinct [OF Cons.prems(1)] xs by simp
    from il.addAfter_law [of h l us vs e] Cons.prems(1) e xs obtain h1 where
      h1: "list_addAfter h (last (l # us)) e = Inr h1" "ring h1 l (us @ e # vs)"
      "changes h h1 (insert e (set (l # us @ vs)))" by blast
    have ins: "tl (seq_insert b e (l # xs)) = us @ e # vs" using seq_insert_place [OF d] b xs by simp
    have "insert e (set (l # us @ vs)) \<subseteq> set (l # xs) \<union> op_nodes op" using AddAfter xs by auto
    with h1(3) have "changes h h1 (set (l # xs) \<union> op_nodes op)" by (auto simp: changes_def)
    with h1(1,2) show ?thesis using go [of h1 "us @ e # vs"] AddAfter Cons.prems(2) ins b xs by auto
  next
    case (Deattach e)
    with Cons.prems(2) have "e \<in> set xs" by simp
    then obtain us vs where xs: "xs = us @ e # vs" by (auto simp: in_set_conv_decomp)
    from il.deattach_law [of h l us e vs] Cons.prems(1) xs obtain h1 where
      h1: "list_deattach h e = Inr h1" "ring h1 l (us @ vs)" "changes h h1 (set (l # us @ vs))" by blast
    have "e \<notin> set us" using il.rep_distinct [OF Cons.prems(1)] xs by auto
    then have "remove1 e xs = us @ vs" using xs by (simp add: remove1_append)
    moreover have "changes h h1 (set (l # xs) \<union> op_nodes op)" using h1(3) xs by (auto simp: changes_def)
    ultimately show ?thesis using go [of h1 "us @ vs"] h1(1,2) Deattach Cons.prems(2) xs by auto
  qed
qed

definition list_example :: list_heap where
  "list_example = [1 \<mapsto> \<lparr>lprev = 1, lnext = 1\<rparr>, 2 \<mapsto> \<lparr>lprev = 0, lnext = 0\<rparr>, 3 \<mapsto> \<lparr>lprev = 0, lnext = 0\<rparr>,
     4 \<mapsto> \<lparr>lprev = 4, lnext = 4\<rparr>]"

theorem list_operations_refine_sequences_witness:
  "\<exists>h'. list_run 1 list_example [Add 2, AddAfter 1 3, Deattach 2] = Inr h' \<and> ring h' 1 [3] \<and>
    LIST_FOR_EACH 2 h' 1 = Inr [3] \<and> ring h' 4 []"
proof -
  have "ring list_example 1 []" "ring list_example 4 []"
    "list_ops_ok (dom list_example) 1 [] [Add 2, AddAfter 1 3, Deattach 2]"
    by (auto simp: ring_def list_example_def nx_def pv_def seq_insert_def)
  from list_operations_refine_sequences [OF this(1,3,2)] show ?thesis by (auto simp: seq_insert_def)
qed

end
