(* ===== verification/Relocation.thy ===== *)
theory Relocation
  imports Buffer
begin

text \<open>
  \<open>relocation.c\<close> and the byte writers of \<open>utils.c\<close>: labels whose address is not known yet collect
  the places that refer to them, and \<open>label_applyMemory\<close> patches these places. The lemmas say
  that the fields a label collects while code is emitted are disjoint and inside the code, and
  that patching writes exactly those fields.
\<close>

section \<open>Writing numbers into memory\<close>

fun writeLong :: "block \<Rightarrow> nat \<Rightarrow> 64 word \<Rightarrow> nat \<Rightarrow> block res" where
  "writeLong m p num 0 = Inr m"
| "writeLong m p num (Suc bytes) =
     bindE (mem_write m p [Some (ucast (num AND 0xFF))]) (\<lambda>m.
       writeLong m (p + 1) (drop_bit 8 num) bytes)"

fun writeInt :: "block \<Rightarrow> nat \<Rightarrow> 64 word \<Rightarrow> nat \<Rightarrow> block res" where
  "writeInt m p num 0 = Inr m"
| "writeInt m p num (Suc bytes) =
     bindE (mem_write m p [Some (ucast (num AND 0xFF))]) (\<lambda>m.
       writeInt m (p + 1) (drop_bit 8 num) bytes)"

lemma writeInt_eq: "writeInt m p num bytes = writeLong m p num bytes"
  by (induction m p num bytes rule: writeInt.induct) (simp_all cong: bindE_cong)

lemma mem_write_Cons:
  assumes "p + Suc (length ds) \<le> length m"
  shows "bindE (mem_write m p [d]) (\<lambda>m. mem_write m (p + 1) ds) = mem_write m p (d # ds)"
  using assms by (simp add: mem_write_ok Suc_diff_le add.commute)

lemma writeLong_ok:
  "p + n \<le> length m \<Longrightarrow> writeLong m p w n = mem_write m p (map Some (le_bytes n w))"
proof (induction m p w n rule: writeLong.induct)
  case (1 m p num)
  then show ?case by (simp add: mem_write_ok)
next
  case (2 m p num bytes)
  let ?d = "Some (ucast num :: byte)"
  from "2.prems" have ok: "mem_write m p [?d] = Inr (take p m @ [?d] @ drop (p + 1) m)"
    by (simp add: mem_write_ok)
  have "writeLong m p num (Suc bytes) =
      bindE (mem_write m p [?d]) (\<lambda>m. mem_write m (p + 1) (map Some (le_bytes bytes (drop_bit 8 num))))"
    using "2.IH" [of "take p m @ [?d] @ drop (p + 1) m"] "2.prems" ok by (simp add: ucast_mask8)
  also have "\<dots> = mem_write m p (?d # map Some (le_bytes bytes (drop_bit 8 num)))"
    using "2.prems" by (intro mem_write_Cons) simp
  finally show ?case by (simp add: le_bytes_Suc)
qed

section \<open>Relocations and labels\<close>

datatype reloc_size = INT8 | INT16 | INT32 | INT64

datatype reloc_type = RELATIVE | ABSOLUTE

record relocation_t =
  reloc_type :: reloc_type
  reloc_size :: reloc_size
  bias :: int
  reloc_offset :: size_t

record label_t =
  hasOffset :: bool
  label_offset :: "64 word"
  relocations :: "relocation_t list"

definition empty_label :: label_t where
  "empty_label = \<lparr>hasOffset = False, label_offset = 0, relocations = []\<rparr>"

fun getRelocSize :: "reloc_size \<Rightarrow> size_t" where
  "getRelocSize INT8 = 1"
| "getRelocSize INT16 = 2"
| "getRelocSize INT32 = 4"
| "getRelocSize INT64 = 8"

definition label_setOffset :: "label_t \<Rightarrow> 64 word \<Rightarrow> label_t" where
  "label_setOffset l off = l\<lparr>label_offset := off, hasOffset := True\<rparr>"

definition relocation_set ::
  "label_t \<Rightarrow> reloc_type \<Rightarrow> reloc_size \<Rightarrow> int \<Rightarrow> size_t \<Rightarrow> label_t" where
  "relocation_set l ty sz b off =
     l\<lparr>relocations :=
        \<lparr>reloc_type = ty, reloc_size = sz, bias = b, reloc_offset = off\<rparr> # relocations l\<rparr>"

definition relocation_emit ::
  "dbuffer \<Rightarrow> label_t \<Rightarrow> reloc_type \<Rightarrow> reloc_size \<Rightarrow> int \<Rightarrow> (dbuffer \<times> label_t) res" where
  "relocation_emit db l ty sz b =
     (let l = relocation_set l ty sz b (usage db) in
      bindE (dbuffer_pushChars db 0 (getRelocSize sz)) (\<lambda>db. Inr (db, l)))"

definition reloc_value :: "relocation_t \<Rightarrow> 64 word \<Rightarrow> 64 word \<Rightarrow> 64 word" where
  "reloc_value r off memLocation =
     (if reloc_type r = ABSOLUTE then off
      else off - (memLocation + of_nat (reloc_offset r) + of_int (bias r)))"

fun reloc_cast :: "reloc_size \<Rightarrow> 64 word \<Rightarrow> 64 word" where
  "reloc_cast INT8 v = ucast (ucast v :: 8 word)"
| "reloc_cast INT16 v = ucast (ucast v :: 16 word)"
| "reloc_cast INT32 v = ucast (ucast v :: 32 word)"
| "reloc_cast INT64 v = v"

definition relocation_apply :: "relocation_t \<Rightarrow> block \<Rightarrow> 64 word \<Rightarrow> 64 word \<Rightarrow> block res" where
  "relocation_apply r m off memLocation =
     writeLong m (reloc_offset r) (reloc_cast (reloc_size r) (reloc_value r off memLocation))
       (getRelocSize (reloc_size r))"

fun apply_list :: "relocation_t list \<Rightarrow> block \<Rightarrow> 64 word \<Rightarrow> 64 word \<Rightarrow> block res" where
  "apply_list [] m off memLocation = Inr m"
| "apply_list (r # rs) m off memLocation =
     bindE (relocation_apply r m off memLocation) (\<lambda>m. apply_list rs m off memLocation)"

definition label_applyMemory :: "label_t \<Rightarrow> block \<Rightarrow> 64 word \<Rightarrow> (block \<times> label_t) res" where
  "label_applyMemory l m memLocation =
     bindE (apply_list (relocations l) m (label_offset l) memLocation) (\<lambda>m.
       Inr (m, l\<lparr>relocations := []\<rparr>))"

definition label_apply :: "label_t \<Rightarrow> block \<Rightarrow> (block \<times> label_t) res" where
  "label_apply l m = label_applyMemory l m 0"

section \<open>Fields\<close>

abbreviation field_len :: "relocation_t \<Rightarrow> nat" where
  "field_len r \<equiv> getRelocSize (reloc_size r)"

definition field :: "relocation_t \<Rightarrow> block \<Rightarrow> block" where
  "field r m = take (field_len r) (drop (reloc_offset r) m)"

definition in_field :: "nat \<Rightarrow> relocation_t \<Rightarrow> bool" where
  "in_field i r \<longleftrightarrow> reloc_offset r \<le> i \<and> i < reloc_offset r + field_len r"

text \<open>
  The list of a label is in order of descending, disjoint fields, since each new relocation is put
  in front and lies behind all bytes emitted before.
\<close>

definition fields_ok :: "nat \<Rightarrow> relocation_t list \<Rightarrow> bool" where
  "fields_ok n rs \<longleftrightarrow>
     (\<forall>r \<in> set rs. reloc_offset r + field_len r \<le> n) \<and>
     sorted_wrt (\<lambda>r s. reloc_offset s + field_len s \<le> reloc_offset r) rs"

lemma fields_ok_Nil [simp]: "fields_ok n []"
  by (simp add: fields_ok_def)

lemma fields_ok_Cons:
  "fields_ok n (r # rs) \<longleftrightarrow>
     reloc_offset r + field_len r \<le> n \<and> fields_ok n rs \<and>
     (\<forall>s \<in> set rs. reloc_offset s + field_len s \<le> reloc_offset r)"
  by (auto simp: fields_ok_def)

lemma fields_ok_mono: "fields_ok n rs \<Longrightarrow> n \<le> k \<Longrightarrow> fields_ok k rs"
  by (auto simp: fields_ok_def)

lemma fields_ok_emit:
  "fields_ok n rs \<Longrightarrow> reloc_offset r = n \<Longrightarrow> fields_ok (n + field_len r) (r # rs)"
  by (auto simp: fields_ok_Cons fields_ok_def intro: order_trans)

lemma getRelocSize_le: "getRelocSize sz \<le> 8" and getRelocSize_pos: "0 < getRelocSize sz"
  by (cases sz; simp)+

lemma reloc_cast_take_bit: "reloc_cast sz v = take_bit (8 * getRelocSize sz) v"
  by (cases sz) (auto intro!: bit_word_eqI simp: bit_simps)

lemma le_bytes_take_bit: "8 * n \<le> k \<Longrightarrow> le_bytes n (take_bit k w) = le_bytes n (w :: 'a::len word)"
proof (induction n arbitrary: w k)
  case (Suc n)
  then obtain j where k: "k = 8 + j" by (metis le_add_diff_inverse mult_Suc_right add_leD1)
  have "ucast (take_bit k w) = (ucast w :: byte)"
    by (rule bit_word_eqI) (auto simp: bit_simps k)
  moreover have "drop_bit 8 (take_bit k w) = take_bit j (drop_bit 8 w)"
    by (rule bit_word_eqI) (auto simp: bit_simps k)
  ultimately show ?case using Suc k by (simp add: le_bytes_Suc)
qed simp

lemma relocation_apply_ok:
  assumes "reloc_offset r + field_len r \<le> length m"
  shows "relocation_apply r m off loc =
    mem_write m (reloc_offset r) (map Some (le_bytes (field_len r) (reloc_value r off loc)))"
  using assms
  by (simp add: relocation_apply_def writeLong_ok reloc_cast_take_bit le_bytes_take_bit)

text \<open>Patching a list of disjoint fields writes every field and nothing else.\<close>

lemma apply_list_ok:
  assumes "fields_ok (length m) rs"
  shows "\<exists>m'. apply_list rs m off loc = Inr m' \<and> length m' = length m \<and>
    (\<forall>r \<in> set rs. field r m' = map Some (le_bytes (field_len r) (reloc_value r off loc))) \<and>
    (\<forall>i < length m. (\<forall>r \<in> set rs. \<not> in_field i r) \<longrightarrow> m' ! i = m ! i)"
  using assms
proof (induction rs arbitrary: m)
  case Nil
  then show ?case by simp
next
  case (Cons r rs)
  let ?new = "map Some (le_bytes (field_len r) (reloc_value r off loc))"
  have r: "reloc_offset r + field_len r \<le> length m" and rs: "fields_ok (length m) rs"
    and below: "\<forall>s \<in> set rs. reloc_offset s + field_len s \<le> reloc_offset r"
    using Cons.prems by (auto simp: fields_ok_Cons)
  obtain m1 where m1: "relocation_apply r m off loc = Inr m1"
      "mem_write m (reloc_offset r) ?new = Inr m1"
    using r by (auto simp: relocation_apply_ok mem_write_ok)
  have len: "length m1 = length m" using m1(2) by (rule mem_write_length)
  with rs have "fields_ok (length m1) rs" by simp
  from Cons.IH [OF this] obtain m' where m': "apply_list rs m1 off loc = Inr m'" "length m' = length m1"
    "\<forall>s \<in> set rs. field s m' = map Some (le_bytes (field_len s) (reloc_value s off loc))"
    "\<forall>i < length m1. (\<forall>s \<in> set rs. \<not> in_field i s) \<longrightarrow> m' ! i = m1 ! i" by blast
  have "field r m' = ?new"
  proof (rule nth_equalityI)
    show "length (field r m') = length ?new" using r len m'(2) by (simp add: field_def)
    fix i assume "i < length (field r m')"
    then have i: "i < field_len r" by (simp add: field_def)
    have "\<forall>s \<in> set rs. \<not> in_field (reloc_offset r + i) s"
      using below by (auto simp: in_field_def)
    then have "m' ! (reloc_offset r + i) = m1 ! (reloc_offset r + i)"
      using m'(4) i r len by simp
    also have "\<dots> = ?new ! i"
      using mem_write_nth [OF m1(2), of "reloc_offset r + i"] i r by simp
    finally show "field r m' ! i = ?new ! i"
      using i r len m'(2) by (simp add: field_def)
  qed
  moreover have "m' ! i = m ! i" if "i < length m" "\<forall>s \<in> set (r # rs). \<not> in_field i s" for i
    using that m'(4) len mem_write_nth [OF m1(2) that(1)] by (auto simp: in_field_def)
  ultimately show ?case using m1(1) m'(1-3) len by auto
qed


section \<open>Sign extension\<close>

lemma sint_signed_take_bit:
  "n < LENGTH('a) \<Longrightarrow> sint (signed_take_bit n (w :: 'a::len word)) = signed_take_bit n (sint w)"
  by (rule bit_eqI)
    (auto simp: bit_signed_take_bit_iff bit_sint_iff min_def dest: bit_imp_le_length split: if_splits)

lemma signed_take_bit_word_id:
  "n < LENGTH('a) \<Longrightarrow>
   signed_take_bit n (w :: 'a::len word) = w \<longleftrightarrow> - (2 ^ n) \<le> sint w \<and> sint w < 2 ^ n"
  by (metis sint_signed_take_bit signed_take_bit_int_eq_self_iff signed_word_eqI)

text \<open>What the processor reads from an \<open>n\<close>-byte displacement: its sign extension to 64 bits.\<close>

definition read_disp :: "nat \<Rightarrow> byte list \<Rightarrow> 64 word" where
  "read_disp n bs = signed_take_bit (8 * n - 1) (bytes_word bs)"

lemma read_disp_le_bytes:
  assumes "0 < n"
  shows "read_disp n (le_bytes n (d :: 64 word)) = signed_take_bit (8 * n - 1) d"
proof -
  have "\<not> 8 * n \<le> 8 * n - 1" using assms by simp
  then show ?thesis
    by (simp add: read_disp_def bytes_word_le_bytes signed_take_bit_take_bit del: not_le)
qed

text \<open>\<open>relocation_emit\<close> keeps the fields of a label in order.\<close>

lemma relocation_emit_fields:
  assumes "dbuffer_wf db" and "fields_ok (usage db) (relocations l)"
    and "relocation_emit db l ty sz b = Inr (db', l')"
  shows "dbuffer_wf db' \<and>
    dbuffer_contents db' = dbuffer_contents db @ replicate (getRelocSize sz) 0 \<and>
    fields_ok (usage db') (relocations l') \<and>
    relocations l' =
      \<lparr>reloc_type = ty, reloc_size = sz, bias = b, reloc_offset = usage db\<rparr> # relocations l"
proof -
  have "getRelocSize sz < 2 ^ 60" using getRelocSize_le [of sz] by simp
  from sink.emitsD [OF emits_pushChars [OF this] assms(1)] assms(3)
  have db': "dbuffer_wf db'" "dbuffer_contents db' = dbuffer_contents db @ replicate (getRelocSize sz) 0"
    and l': "relocations l' =
      \<lparr>reloc_type = ty, reloc_size = sz, bias = b, reloc_offset = usage db\<rparr> # relocations l"
    by (auto simp: relocation_emit_def relocation_set_def)
  have "usage db' = usage db + getRelocSize sz"
    using length_dbuffer_contents [OF db'(1)] length_dbuffer_contents [OF assms(1)] db'(2) by simp
  with db' l' show ?thesis
    using fields_ok_emit [OF assms(2), of "\<lparr>reloc_type = ty, reloc_size = sz, bias = b, reloc_offset = usage db\<rparr>"]
    by simp
qed

section \<open>Properties\<close>

text \<open>
  C16: Applying a label whose fields are disjoint and inside the code always succeeds; it writes the
  little-endian value of every relocation into its field, leaves every other byte and the size of
  the code unchanged, and leaves the label without relocations.
\<close>
theorem label_applyMemory_correct:
  assumes "fields_ok (length m) (relocations l)"
  shows "\<exists>m' l'. label_applyMemory l m loc = Inr (m', l') \<and> relocations l' = [] \<and>
    length m' = length m \<and>
    (\<forall>r \<in> set (relocations l).
       field r m' = map Some (le_bytes (getRelocSize (reloc_size r)) (reloc_value r (label_offset l) loc))) \<and>
    (\<forall>i < length m. (\<forall>r \<in> set (relocations l). \<not> in_field i r) \<longrightarrow> m' ! i = m ! i)"
  using apply_list_ok [OF assms, of "label_offset l" loc]
  by (auto simp: label_applyMemory_def)

theorem label_applyMemory_correct_witness:
  "\<exists>m' l'. label_applyMemory
      (label_setOffset (relocation_set empty_label ABSOLUTE INT16 0 1) 0x1234)
      (replicate 4 (Some 0)) 0 = Inr (m', l') \<and>
     field \<lparr>reloc_type = ABSOLUTE, reloc_size = INT16, bias = 0, reloc_offset = 1\<rparr> m' =
       [Some 0x34, Some 0x12]"
proof -
  let ?l = "label_setOffset (relocation_set empty_label ABSOLUTE INT16 0 1) 0x1234"
  have ok: "fields_ok (length (replicate 4 (Some 0 :: byte option))) (relocations ?l)"
    by (simp add: label_setOffset_def relocation_set_def empty_label_def fields_ok_Cons)
  have b: "le_bytes 2 (0x1234 :: 64 word) = [0x34, 0x12]"
    by (simp add: le_bytes_def upt_rec drop_bit_eq_div)
  from label_applyMemory_correct [OF ok, of 0] b show ?thesis
    by (fastforce simp: label_setOffset_def relocation_set_def empty_label_def reloc_value_def)
qed

text \<open>
  A relative relocation whose bias is the size of its field (as the call and jump emitters make
  them) leads to the label: the address behind the field plus the sign-extended field is the
  label's address exactly when the distance fits into the field. A distance that does not fit is
  cut to the field without an error.
\<close>
theorem relative_relocation_target:
  assumes "reloc_type r = RELATIVE" and "bias r = int (getRelocSize (reloc_size r))"
  shows "memLocation + of_nat (reloc_offset r) + of_nat (getRelocSize (reloc_size r))
           + read_disp (getRelocSize (reloc_size r))
               (le_bytes (getRelocSize (reloc_size r)) (reloc_value r off memLocation)) = off
    \<longleftrightarrow> - (2 ^ (8 * getRelocSize (reloc_size r) - 1)) \<le> sint (reloc_value r off memLocation) \<and>
        sint (reloc_value r off memLocation) < 2 ^ (8 * getRelocSize (reloc_size r) - 1)"
proof -
  let ?n = "getRelocSize (reloc_size r)" and ?d = "reloc_value r off memLocation"
  have n: "0 < ?n" "8 * ?n - 1 < LENGTH(64)"
    using getRelocSize_pos [of "reloc_size r"] getRelocSize_le [of "reloc_size r"] by simp_all
  have d: "?d = off - (memLocation + of_nat (reloc_offset r) + of_nat ?n)"
    using assms by (simp add: reloc_value_def)
  have "memLocation + of_nat (reloc_offset r) + of_nat ?n + signed_take_bit (8 * ?n - 1) ?d = off
      \<longleftrightarrow> signed_take_bit (8 * ?n - 1) ?d = ?d"
    unfolding d by (auto simp: algebra_simps)
  with signed_take_bit_word_id [OF n(2), of ?d] show ?thesis
    by (simp add: read_disp_le_bytes [OF n(1)])
qed

theorem relative_relocation_target_witness:
  "(0x1000 :: 64 word) + of_nat 5 + of_nat 4 + read_disp 4 (le_bytes 4
     (reloc_value \<lparr>reloc_type = RELATIVE, reloc_size = INT32, bias = 4, reloc_offset = 5\<rparr> 0x800 0x1000)) = 0x800"
  using relative_relocation_target
    [of "\<lparr>reloc_type = RELATIVE, reloc_size = INT32, bias = 4, reloc_offset = 5\<rparr>" "0x1000" "0x800"]
  by (simp add: reloc_value_def)

text \<open>
  C27: \<open>relocation_emit\<close> keeps the fields of a label disjoint and inside the emitted code, reserves a
  zeroed field of the right size at the end of the code, and records exactly that field, so a
  label filled while code is emitted can always be applied.
\<close>
theorem relocation_emit_correct:
  assumes "dbuffer_wf db" and "fields_ok (usage db) (relocations l)"
    and "relocation_emit db l ty sz b = Inr (db', l')"
  shows "dbuffer_wf db' \<and>
    dbuffer_contents db' = dbuffer_contents db @ replicate (getRelocSize sz) 0 \<and>
    fields_ok (usage db') (relocations l') \<and>
    relocations l' =
      \<lparr>reloc_type = ty, reloc_size = sz, bias = b, reloc_offset = usage db\<rparr> # relocations l"
  using assms by (rule relocation_emit_fields)

theorem relocation_emit_correct_witness:
  "\<exists>db' l'. relocation_emit dbuffer_init empty_label RELATIVE INT32 4 = Inr (db', l') \<and>
     fields_ok (usage db') (relocations l') \<and> dbuffer_contents db' = [0, 0, 0, 0]"
proof -
  have room: "dbuffer_room dbuffer_init 4"
    by (simp add: dbuffer_room_def dbuffer_init_def dbuffer_initSize_def DBUFFER_INIT_def)
  have four: "(4 :: nat) < 2 ^ 60" by simp
  from sink.emits_total [OF emits_pushChars [OF four, of 0] dbuffer_init_wf room] obtain db' where
    "dbuffer_pushChars dbuffer_init 0 4 = Inr db'" by auto
  then obtain l' where ret: "relocation_emit dbuffer_init empty_label RELATIVE INT32 4 = Inr (db', l')"
    by (simp add: relocation_emit_def)
  have "fields_ok (usage dbuffer_init) (relocations empty_label)" by (simp add: empty_label_def)
  from relocation_emit_correct [OF dbuffer_init_wf this ret] ret show ?thesis
    by (auto simp: dbuffer_init_def eval_nat_numeral)
qed

end
