(* ===== verification/X86_64.thy ===== *)
theory X86_64
  imports Relocation
begin

text \<open>
  \<open>x86_64.h\<close> and the emitters of \<open>x86_64_assembly.c\<close>. Every emitter appends the bytes of one
  instruction to the code buffer. The specification is a decoder for the instruction forms the
  compiler uses, written after the encoding rules of the processor manual (REX prefix, opcode,
  ModRM byte, displacement or immediate); an emitter is correct when decoding its bytes gives
  back the instruction and the registers it was asked for.
\<close>

section \<open>Registers\<close>

datatype reg8 = AL | CL | DL | BL | AH | CH | DH | BH | SPL | BPL | SIL | DIL
  | R8L | R9L | R10L | R11L | R12L | R13L | R14L | R15L

datatype reg16 = AX | CX | DX | BX | SP | BP | SI | DI
  | R8W | R9W | R10W | R11W | R12W | R13W | R14W | R15W

datatype reg32 = EAX | ECX | EDX | EBX | ESP | EBP | ESI | EDI
  | R8DW | R9DW | R10DW | R11DW | R12DW | R13DW | R14DW | R15DW

datatype reg64 = RAX | RCX | RDX | RBX | RSP | RBP | RSI | RDI
  | R8 | R9 | R10 | R11 | R12 | R13 | R14 | R15

fun kReg8Number :: "reg8 \<Rightarrow> byte" where
  "kReg8Number AL = 0" | "kReg8Number CL = 1" | "kReg8Number DL = 2" | "kReg8Number BL = 3"
| "kReg8Number AH = 4" | "kReg8Number CH = 5" | "kReg8Number DH = 6" | "kReg8Number BH = 7"
| "kReg8Number SPL = 4" | "kReg8Number BPL = 5" | "kReg8Number SIL = 6" | "kReg8Number DIL = 7"
| "kReg8Number R8L = 8" | "kReg8Number R9L = 9" | "kReg8Number R10L = 10" | "kReg8Number R11L = 11"
| "kReg8Number R12L = 12" | "kReg8Number R13L = 13" | "kReg8Number R14L = 14" | "kReg8Number R15L = 15"

fun kReg16Number :: "reg16 \<Rightarrow> byte" where
  "kReg16Number AX = 0" | "kReg16Number CX = 1" | "kReg16Number DX = 2" | "kReg16Number BX = 3"
| "kReg16Number SP = 4" | "kReg16Number BP = 5" | "kReg16Number SI = 6" | "kReg16Number DI = 7"
| "kReg16Number R8W = 8" | "kReg16Number R9W = 9" | "kReg16Number R10W = 10" | "kReg16Number R11W = 11"
| "kReg16Number R12W = 12" | "kReg16Number R13W = 13" | "kReg16Number R14W = 14" | "kReg16Number R15W = 15"

fun kReg32Number :: "reg32 \<Rightarrow> byte" where
  "kReg32Number EAX = 0" | "kReg32Number ECX = 1" | "kReg32Number EDX = 2" | "kReg32Number EBX = 3"
| "kReg32Number ESP = 4" | "kReg32Number EBP = 5" | "kReg32Number ESI = 6" | "kReg32Number EDI = 7"
| "kReg32Number R8DW = 8" | "kReg32Number R9DW = 9" | "kReg32Number R10DW = 10" | "kReg32Number R11DW = 11"
| "kReg32Number R12DW = 12" | "kReg32Number R13DW = 13" | "kReg32Number R14DW = 14" | "kReg32Number R15DW = 15"

fun kReg64Number :: "reg64 \<Rightarrow> byte" where
  "kReg64Number RAX = 0" | "kReg64Number RCX = 1" | "kReg64Number RDX = 2" | "kReg64Number RBX = 3"
| "kReg64Number RSP = 4" | "kReg64Number RBP = 5" | "kReg64Number RSI = 6" | "kReg64Number RDI = 7"
| "kReg64Number R8 = 8" | "kReg64Number R9 = 9" | "kReg64Number R10 = 10" | "kReg64Number R11 = 11"
| "kReg64Number R12 = 12" | "kReg64Number R13 = 13" | "kReg64Number R14 = 14" | "kReg64Number R15 = 15"

text \<open>
  Enumerators are integers: \<open>kReg32Number[reg]\<close> for a \<open>reg64\<close> reads the entry at the same position,
  and \<open>(reg64)i\<close> is the \<open>i\<close>-th register.
\<close>

definition reg64_list :: "reg64 list" where
  "reg64_list = [RAX, RCX, RDX, RBX, RSP, RBP, RSI, RDI, R8, R9, R10, R11, R12, R13, R14, R15]"

fun reg64_as_reg32 :: "reg64 \<Rightarrow> reg32" where
  "reg64_as_reg32 RAX = EAX" | "reg64_as_reg32 RCX = ECX" | "reg64_as_reg32 RDX = EDX"
| "reg64_as_reg32 RBX = EBX" | "reg64_as_reg32 RSP = ESP" | "reg64_as_reg32 RBP = EBP"
| "reg64_as_reg32 RSI = ESI" | "reg64_as_reg32 RDI = EDI" | "reg64_as_reg32 R8 = R8DW"
| "reg64_as_reg32 R9 = R9DW" | "reg64_as_reg32 R10 = R10DW" | "reg64_as_reg32 R11 = R11DW"
| "reg64_as_reg32 R12 = R12DW" | "reg64_as_reg32 R13 = R13DW" | "reg64_as_reg32 R14 = R14DW"
| "reg64_as_reg32 R15 = R15DW"

fun reg32_as_reg64 :: "reg32 \<Rightarrow> reg64" where
  "reg32_as_reg64 EAX = RAX" | "reg32_as_reg64 ECX = RCX" | "reg32_as_reg64 EDX = RDX"
| "reg32_as_reg64 EBX = RBX" | "reg32_as_reg64 ESP = RSP" | "reg32_as_reg64 EBP = RBP"
| "reg32_as_reg64 ESI = RSI" | "reg32_as_reg64 EDI = RDI" | "reg32_as_reg64 R8DW = R8"
| "reg32_as_reg64 R9DW = R9" | "reg32_as_reg64 R10DW = R10" | "reg32_as_reg64 R11DW = R11"
| "reg32_as_reg64 R12DW = R12" | "reg32_as_reg64 R13DW = R13" | "reg32_as_reg64 R14DW = R14"
| "reg32_as_reg64 R15DW = R15"

section \<open>Prefix and ModRM bytes\<close>

definition bool_byte :: "bool \<Rightarrow> byte" where
  "bool_byte b = (if b then 1 else 0)"

definition rex_byte :: "byte \<Rightarrow> byte \<Rightarrow> byte \<Rightarrow> byte \<Rightarrow> byte" where
  "rex_byte w r x b = push_bit 4 0b0100 OR push_bit 3 w OR push_bit 2 r OR push_bit 1 x OR b"

definition emit_rex :: "dbuffer \<Rightarrow> byte \<Rightarrow> byte \<Rightarrow> byte \<Rightarrow> byte \<Rightarrow> dbuffer res" where
  "emit_rex db w r x b = dbuffer_pushChar db (rex_byte w r x b)"

definition modrm_byte :: "byte \<Rightarrow> byte \<Rightarrow> byte \<Rightarrow> byte" where
  "modrm_byte md regop rm = push_bit 6 md OR push_bit 3 regop OR rm"

definition emit_modrm :: "dbuffer \<Rightarrow> byte \<Rightarrow> byte \<Rightarrow> byte \<Rightarrow> dbuffer res" where
  "emit_modrm db md regop rm = dbuffer_pushChar db (modrm_byte md regop rm)"

section \<open>The emitters\<close>

text \<open>A signed \<open>char\<close> or \<open>int\<close> argument is passed as its bit pattern.\<close>

definition emit_syscall :: "dbuffer \<Rightarrow> dbuffer res" where
  "emit_syscall db = dbuffer_push db [0x0F, 0x05]"

definition emit_jumpRel8 :: "dbuffer \<Rightarrow> label_t \<Rightarrow> (dbuffer \<times> label_t) res" where
  "emit_jumpRel8 db label =
     bindE (dbuffer_push db [0xEB]) (\<lambda>db. relocation_emit db label RELATIVE INT8 1)"

definition emit_jumpZeroRel8 :: "dbuffer \<Rightarrow> label_t \<Rightarrow> (dbuffer \<times> label_t) res" where
  "emit_jumpZeroRel8 db label =
     bindE (dbuffer_push db [0x75]) (\<lambda>db. relocation_emit db label RELATIVE INT8 1)"

definition emit_checkZero32 :: "dbuffer \<Rightarrow> reg32 \<Rightarrow> dbuffer res" where
  "emit_checkZero32 db reg =
     (let regNumber = kReg32Number reg in
      bindE (if 7 < regNumber
             then bindE (emit_rex db 0 1 0 1) (\<lambda>db. Inr (db, regNumber AND 0b111))
             else Inr (db, regNumber)) (\<lambda>(db, regNumber).
      bindE (dbuffer_push db [0x85]) (\<lambda>db.
        emit_modrm db 3 regNumber regNumber)))"

definition emit_checkZero64 :: "dbuffer \<Rightarrow> reg64 \<Rightarrow> dbuffer res" where
  "emit_checkZero64 db reg =
     (let regNumber = kReg32Number (reg64_as_reg32 reg) in
      bindE (emit_rex db 1 (bool_byte (7 < regNumber)) 0 (bool_byte (7 < regNumber))) (\<lambda>db.
      let regNumber = regNumber AND 0b111 in
      bindE (dbuffer_push db [0x85]) (\<lambda>db.
        emit_modrm db 3 regNumber regNumber)))"

definition emit_loadRegRBP32 :: "dbuffer \<Rightarrow> reg32 \<Rightarrow> byte \<Rightarrow> dbuffer res" where
  "emit_loadRegRBP32 db reg disp =
     (let regNumber = kReg32Number reg in
      bindE (if 7 < regNumber
             then bindE (emit_rex db 0 1 0 0) (\<lambda>db. Inr (db, regNumber AND 0b111))
             else Inr (db, regNumber)) (\<lambda>(db, regNumber).
      bindE (dbuffer_push db [0x8B]) (\<lambda>db.
      bindE (emit_modrm db 1 regNumber (kReg64Number RBP)) (\<lambda>db.
        dbuffer_push db [scast disp]))))"

definition emit_loadRegRBP64 :: "dbuffer \<Rightarrow> reg64 \<Rightarrow> byte \<Rightarrow> dbuffer res" where
  "emit_loadRegRBP64 db reg disp =
     (let regNumber = kReg64Number reg in
      bindE (emit_rex db 1 0 0 (bool_byte (7 < regNumber))) (\<lambda>db.
      let regNumber = regNumber AND 0b111 in
      bindE (dbuffer_push db [0x8B]) (\<lambda>db.
      bindE (emit_modrm db 1 regNumber (kReg64Number RBP)) (\<lambda>db.
        dbuffer_push db [scast disp]))))"

definition emit_storeConst32 :: "dbuffer \<Rightarrow> reg32 \<Rightarrow> 32 word \<Rightarrow> dbuffer res" where
  "emit_storeConst32 db reg cons =
     (let regNumber = kReg64Number (reg32_as_reg64 reg) in
      bindE (if 7 < regNumber
             then bindE (emit_rex db 0 0 0 1) (\<lambda>db. Inr (db, regNumber AND 0b111))
             else Inr (db, regNumber)) (\<lambda>(db, regNumber).
      bindE (dbuffer_push db [0xB8 OR ucast regNumber]) (\<lambda>db.
        dbuffer_pushInt db cons 4)))"

definition emit_storeConst64 :: "dbuffer \<Rightarrow> reg64 \<Rightarrow> 64 word \<Rightarrow> dbuffer res" where
  "emit_storeConst64 db reg cons =
     (let regNumber = kReg64Number reg in
      bindE (emit_rex db 1 0 0 (bool_byte (7 < regNumber))) (\<lambda>db.
      let regNumber = regNumber AND 0b111 in
      bindE (dbuffer_push db [0xB8 OR ucast regNumber]) (\<lambda>db.
        dbuffer_pushLong db cons 8)))"

definition emit_storeLabel64 :: "dbuffer \<Rightarrow> reg64 \<Rightarrow> label_t \<Rightarrow> (dbuffer \<times> label_t) res" where
  "emit_storeLabel64 db reg label =
     (let regNumber = kReg64Number reg in
      bindE (emit_rex db 1 0 0 (bool_byte (7 < regNumber))) (\<lambda>db.
      let regNumber = regNumber AND 0b111 in
      bindE (dbuffer_push db [0xB8 OR ucast regNumber]) (\<lambda>db.
        relocation_emit db label ABSOLUTE INT64 0)))"

definition emit_storeRegRBP64 :: "dbuffer \<Rightarrow> reg64 \<Rightarrow> byte \<Rightarrow> dbuffer res" where
  "emit_storeRegRBP64 db reg disp =
     (let regNumber = kReg64Number reg in
      bindE (emit_rex db 1 (bool_byte (7 < regNumber)) 0 0) (\<lambda>db.
      let regNumber = regNumber AND 0b111 in
      bindE (dbuffer_push db [0x89]) (\<lambda>db.
      bindE (emit_modrm db 1 regNumber (kReg64Number RBP)) (\<lambda>db.
        dbuffer_push db [scast disp]))))"

definition emit_storeReg64 :: "dbuffer \<Rightarrow> reg64 \<Rightarrow> reg64 \<Rightarrow> dbuffer res" where
  "emit_storeReg64 db from_reg to_reg =
     (let fromNumber = kReg64Number from_reg; toNumber = kReg64Number to_reg in
      bindE (emit_rex db 1 (bool_byte (7 < fromNumber)) 0 (bool_byte (7 < toNumber))) (\<lambda>db.
      let fromNumber = fromNumber AND 0b111; toNumber = toNumber AND 0b111 in
      bindE (dbuffer_push db [0x89]) (\<lambda>db.
        emit_modrm db 3 fromNumber toNumber)))"

definition emit_subConst64 :: "dbuffer \<Rightarrow> reg64 \<Rightarrow> 32 word \<Rightarrow> dbuffer res" where
  "emit_subConst64 db reg imm =
     (let regNumber = kReg64Number reg in
      bindE (emit_rex db 1 0 (bool_byte (7 < regNumber)) 0) (\<lambda>db.
      let regNumber = regNumber AND 0b111 in
      bindE (dbuffer_push db [0x81]) (\<lambda>db.
      bindE (emit_modrm db 3 5 regNumber) (\<lambda>db.
        dbuffer_pushInt db imm 4))))"

definition emit_subLabel64 :: "dbuffer \<Rightarrow> reg64 \<Rightarrow> label_t \<Rightarrow> (dbuffer \<times> label_t) res" where
  "emit_subLabel64 db reg label =
     (let regNumber = kReg64Number reg in
      bindE (emit_rex db 1 0 (bool_byte (7 < regNumber)) 0) (\<lambda>db.
      let regNumber = regNumber AND 0b111 in
      bindE (dbuffer_push db [0x81]) (\<lambda>db.
      bindE (emit_modrm db 3 5 regNumber) (\<lambda>db.
        relocation_emit db label ABSOLUTE INT32 0))))"

definition emit_pushReg :: "dbuffer \<Rightarrow> reg64 \<Rightarrow> dbuffer res" where
  "emit_pushReg db reg =
     (let regNumber = kReg64Number reg in
      bindE (if 7 < regNumber
             then bindE (emit_rex db 1 0 0 1) (\<lambda>db. Inr (db, regNumber AND 0b111))
             else Inr (db, regNumber)) (\<lambda>(db, regNumber).
        dbuffer_push db [0x50 OR ucast regNumber]))"

definition emit_popReg :: "dbuffer \<Rightarrow> reg64 \<Rightarrow> dbuffer res" where
  "emit_popReg db reg =
     (let regNumber = kReg64Number reg in
      bindE (if 7 < regNumber
             then bindE (emit_rex db 1 0 0 1) (\<lambda>db. Inr (db, regNumber AND 0b111))
             else Inr (db, regNumber)) (\<lambda>(db, regNumber).
        dbuffer_push db [0x58 OR ucast regNumber]))"

definition emit_ret :: "dbuffer \<Rightarrow> dbuffer res" where
  "emit_ret db = dbuffer_pushChar db 0xC3"

definition emit_decReg64 :: "dbuffer \<Rightarrow> reg64 \<Rightarrow> dbuffer res" where
  "emit_decReg64 db reg =
     (let regNumber = kReg64Number reg in
      bindE (emit_rex db 1 0 0 (bool_byte (7 < regNumber))) (\<lambda>db.
      let regNumber = regNumber AND 0b111 in
      bindE (dbuffer_pushChar db 0xFF) (\<lambda>db.
        emit_modrm db 3 1 regNumber)))"

definition emit_call :: "dbuffer \<Rightarrow> label_t \<Rightarrow> (dbuffer \<times> label_t) res" where
  "emit_call db label =
     bindE (dbuffer_push db [0xE8]) (\<lambda>db. relocation_emit db label RELATIVE INT32 4)"

section \<open>The bytes of each emitter\<close>

lemma emits_rex: "sink.emits (\<lambda>db. emit_rex db w r x b) [rex_byte w r x b]"
  unfolding emit_rex_def by (rule emits_pushChar)

lemma emits_modrm: "sink.emits (\<lambda>db. emit_modrm db md rg rm) [modrm_byte md rg rm]"
  unfolding emit_modrm_def by (rule emits_pushChar)

lemma emits_push1: "c = ucast w \<Longrightarrow> sink.emits (\<lambda>db. dbuffer_push db [w]) [c]"
  using emits_push_args [of "[w]"] by simp

lemma ucast_scast_byte [simp]: "ucast (scast (d :: byte) :: 32 word) = d"
  by (rule bit_word_eqI) (auto simp: bit_simps)

lemma ucast_or_byte [simp]: "ucast (a OR ucast (d :: byte) :: 32 word) = (ucast a OR d :: byte)"
  by (rule bit_word_eqI) (auto simp: bit_simps)

abbreviation high :: "byte \<Rightarrow> byte" where
  "high n \<equiv> bool_byte (7 < n)"

abbreviation low :: "byte \<Rightarrow> byte" where
  "low n \<equiv> n AND 0b111"

text \<open>A REX prefix that is only there for the upper registers.\<close>

lemma emits_opt_rex:
  assumes "sink.emits (\<lambda>db. f db (low n)) bs"
  shows "sink.emits (\<lambda>db. bindE (if 7 < n then bindE (emit_rex db w r x b) (\<lambda>db. Inr (db, low n))
                                 else Inr (db, n)) (\<lambda>(db, n). f db n))
    ((if 7 < n then [rex_byte w r x b] else []) @ bs)"
proof (cases "7 < n")
  case True
  show ?thesis
    using sink.emits_bind [OF emits_rex assms] True by (simp add: bindE_assoc)
next
  case False
  have "low n = n"
  proof -
    have "n AND 7 = take_bit 3 n" by (simp add: take_bit_eq_mask mask_eq_exp_minus_1)
    moreover have "unat (take_bit 3 n) = unat n"
      using False by (simp add: take_bit_eq_mod unat_mod not_less word_le_nat_alt)
    ultimately show ?thesis by (simp add: word_unat_eq_iff)
  qed
  with assms False show ?thesis by simp
qed

lemma emits_storeReg64:
  "sink.emits (\<lambda>db. emit_storeReg64 db f t)
     [rex_byte 1 (high (kReg64Number f)) 0 (high (kReg64Number t)), 0x89,
      modrm_byte 3 (low (kReg64Number f)) (low (kReg64Number t))]"
  unfolding emit_storeReg64_def Let_def
  by (rule sink.emits_bind_eq [OF emits_rex sink.emits_bind [OF emits_push1 emits_modrm]]) simp_all

lemma emits_storeRegRBP64:
  "sink.emits (\<lambda>db. emit_storeRegRBP64 db r d)
     [rex_byte 1 (high (kReg64Number r)) 0 0, 0x89, modrm_byte 1 (low (kReg64Number r)) 5, d]"
  unfolding emit_storeRegRBP64_def Let_def
  by (rule sink.emits_bind_eq [OF emits_rex sink.emits_bind [OF emits_push1
        sink.emits_bind [OF emits_modrm emits_push1]]]) simp_all

lemma emits_loadRegRBP64:
  "sink.emits (\<lambda>db. emit_loadRegRBP64 db r d)
     [rex_byte 1 0 0 (high (kReg64Number r)), 0x8B,
      modrm_byte 1 (low (kReg64Number r)) 5, d]"
  unfolding emit_loadRegRBP64_def Let_def
  by (rule sink.emits_bind_eq [OF emits_rex sink.emits_bind [OF emits_push1
        sink.emits_bind [OF emits_modrm emits_push1]]]) simp_all

lemma emits_loadRegRBP32:
  "sink.emits (\<lambda>db. emit_loadRegRBP32 db r d)
     ((if 7 < kReg32Number r then [rex_byte 0 1 0 0] else []) @
      [0x8B, modrm_byte 1 (low (kReg32Number r)) 5, d])"
  unfolding emit_loadRegRBP32_def Let_def
  by (rule emits_opt_rex, rule sink.emits_bind_eq [OF emits_push1 sink.emits_bind [OF emits_modrm emits_push1]])
    simp_all

lemma emits_checkZero32:
  "sink.emits (\<lambda>db. emit_checkZero32 db r)
     ((if 7 < kReg32Number r then [rex_byte 0 1 0 1] else []) @
      [0x85, modrm_byte 3 (low (kReg32Number r)) (low (kReg32Number r))])"
  unfolding emit_checkZero32_def Let_def
  by (rule emits_opt_rex, rule sink.emits_bind_eq [OF emits_push1 emits_modrm]) simp_all

lemma emits_checkZero64:
  "sink.emits (\<lambda>db. emit_checkZero64 db r)
     [rex_byte 1 (high (kReg32Number (reg64_as_reg32 r))) 0 (high (kReg32Number (reg64_as_reg32 r))),
      0x85, modrm_byte 3 (low (kReg32Number (reg64_as_reg32 r))) (low (kReg32Number (reg64_as_reg32 r)))]"
  unfolding emit_checkZero64_def Let_def
  by (rule sink.emits_bind_eq [OF emits_rex sink.emits_bind [OF emits_push1 emits_modrm]]) simp_all

lemma emits_storeConst32:
  "sink.emits (\<lambda>db. emit_storeConst32 db r c)
     ((if 7 < kReg64Number (reg32_as_reg64 r) then [rex_byte 0 0 0 1] else []) @
      (0xB8 OR low (kReg64Number (reg32_as_reg64 r))) # le_bytes 4 c)"
  unfolding emit_storeConst32_def Let_def
  by (rule emits_opt_rex, rule sink.emits_bind_eq [OF emits_push1 emits_pushInt]) simp_all

lemma emits_storeConst64:
  "sink.emits (\<lambda>db. emit_storeConst64 db r c)
     (rex_byte 1 0 0 (high (kReg64Number r)) # (0xB8 OR low (kReg64Number r)) # le_bytes 8 c)"
  unfolding emit_storeConst64_def Let_def
  by (rule sink.emits_bind_eq [OF emits_rex sink.emits_bind [OF emits_push1 emits_pushLong]]) simp_all

lemma emits_subConst64:
  "sink.emits (\<lambda>db. emit_subConst64 db r c)
     (rex_byte 1 0 (high (kReg64Number r)) 0 # 0x81 # modrm_byte 3 5 (low (kReg64Number r)) # le_bytes 4 c)"
  unfolding emit_subConst64_def Let_def
  by (rule sink.emits_bind_eq [OF emits_rex sink.emits_bind [OF emits_push1
        sink.emits_bind [OF emits_modrm emits_pushInt]]]) simp_all

lemma emits_pushReg:
  "sink.emits (\<lambda>db. emit_pushReg db r)
     ((if 7 < kReg64Number r then [rex_byte 1 0 0 1] else []) @ [0x50 OR low (kReg64Number r)])"
  unfolding emit_pushReg_def Let_def
  by (rule emits_opt_rex, rule emits_push1) simp

lemma emits_popReg:
  "sink.emits (\<lambda>db. emit_popReg db r)
     ((if 7 < kReg64Number r then [rex_byte 1 0 0 1] else []) @ [0x58 OR low (kReg64Number r)])"
  unfolding emit_popReg_def Let_def
  by (rule emits_opt_rex, rule emits_push1) simp

lemma emits_decReg64:
  "sink.emits (\<lambda>db. emit_decReg64 db r)
     [rex_byte 1 0 0 (high (kReg64Number r)), 0xFF, modrm_byte 3 1 (low (kReg64Number r))]"
  unfolding emit_decReg64_def Let_def
  by (rule sink.emits_bind_eq [OF emits_rex sink.emits_bind [OF emits_pushChar emits_modrm]]) simp_all

lemma emits_ret: "sink.emits emit_ret [0xC3]"
  unfolding emit_ret_def by (rule emits_pushChar)

lemma emits_syscall: "sink.emits emit_syscall [0x0F, 0x05]"
  unfolding emit_syscall_def using emits_push_args [of "[0x0F, 0x05]"] by simp

text \<open>An emitter followed by the reservation of a label field.\<close>

lemma emit_label_ok:
  assumes f: "sink.emits f bs" and wf: "dbuffer_wf db" and fields: "fields_ok (usage db) (relocations l)"
    and ret: "bindE (f db) (\<lambda>db. relocation_emit db l ty sz b) = Inr (db', l')"
  shows "dbuffer_wf db'" and "dbuffer_contents db' = dbuffer_contents db @ bs @ replicate (getRelocSize sz) 0"
    and "fields_ok (usage db') (relocations l')"
    and "relocations l' = \<lparr>reloc_type = ty, reloc_size = sz, bias = b,
           reloc_offset = usage db + length bs\<rparr> # relocations l"
proof -
  from ret obtain db1 where f1: "f db = Inr db1" and r1: "relocation_emit db1 l ty sz b = Inr (db', l')"
    by blast
  from sink.emitsD [OF f wf f1] have db1: "dbuffer_wf db1" "dbuffer_contents db1 = dbuffer_contents db @ bs"
    by auto
  have u: "usage db1 = usage db + length bs"
    using length_dbuffer_contents [OF db1(1)] length_dbuffer_contents [OF wf] db1(2) by simp
  with fields have "fields_ok (usage db1) (relocations l)" by (auto elim: fields_ok_mono)
  from relocation_emit_fields [OF db1(1) this r1] db1(2) u
  show "dbuffer_wf db'" "dbuffer_contents db' = dbuffer_contents db @ bs @ replicate (getRelocSize sz) 0"
    "fields_ok (usage db') (relocations l')"
    "relocations l' = \<lparr>reloc_type = ty, reloc_size = sz, bias = b,
        reloc_offset = usage db + length bs\<rparr> # relocations l"
    by auto
qed

lemma emit_label_total:
  assumes f: "sink.emits f bs" and wf: "dbuffer_wf db"
    and room: "dbuffer_room db n" "length bs + getRelocSize sz \<le> n"
  obtains db' l' where "bindE (f db) (\<lambda>db. relocation_emit db l ty sz b) = Inr (db', l')"
proof -
  from room have "length bs \<le> n" by simp
  from sink.emits_total [OF f wf room(1) this] obtain db1 where
    db1: "f db = Inr db1" "dbuffer_wf db1" "dbuffer_room db1 (n - length bs)" by auto
  have "getRelocSize sz < 2 ^ 60" using getRelocSize_le [of sz] by simp
  note sink.emits_total [OF emits_pushChars [OF this, of 0] db1(2,3)]
  then obtain db' where "dbuffer_pushChars db1 0 (getRelocSize sz) = Inr db'"
    using room(2) by (metis add_le_imp_le_diff add.commute length_replicate)
  with db1(1) that show ?thesis by (auto simp: relocation_emit_def)
qed

section \<open>A decoder for the instruction forms in use\<close>

text \<open>
  Register operands are numbers below 16. \<open>True\<close> as first argument means 64-bit operands. A base
  register plus a byte displacement is the only memory operand. \<open>REX.X\<close> has no effect on these
  forms, since none has an index register.
\<close>

datatype insn =
    Mov_rr bool nat nat
  | Mov_store bool nat byte nat
  | Mov_load bool nat nat byte
  | Mov_imm64 nat "64 word"
  | Mov_imm32 nat "32 word"
  | Sub_imm bool nat "32 word"
  | Test_rr bool nat nat
  | Dec bool nat
  | Push nat
  | Pop nat
  | Ret
  | Call "32 word"
  | Jmp_rel8 byte
  | Je_rel8 byte
  | Jne_rel8 byte
  | Syscall

definition regno :: "bool \<Rightarrow> byte \<Rightarrow> nat" where
  "regno ext n = unat (n AND 7) + (if ext then 8 else 0)"

definition modrm_mod :: "byte \<Rightarrow> byte" where
  "modrm_mod m = drop_bit 6 m"

definition modrm_reg :: "byte \<Rightarrow> byte" where
  "modrm_reg m = drop_bit 3 m AND 7"

definition modrm_rm :: "byte \<Rightarrow> byte" where
  "modrm_rm m = m AND 7"

definition fetch_imm :: "nat \<Rightarrow> byte list \<Rightarrow> ('a::len word \<times> byte list) option" where
  "fetch_imm n bs = (if n \<le> length bs then Some (bytes_word (take n bs), drop n bs) else None)"

fun decode_modrm :: "bool \<Rightarrow> bool \<Rightarrow> bool \<Rightarrow> byte \<Rightarrow> byte list \<Rightarrow> (insn \<times> byte list) option" where
  "decode_modrm w r b op [] = None"
| "decode_modrm w r b op (m # bs) =
     (let reg = regno r (modrm_reg m); rm = regno b (modrm_rm m) in
      if modrm_mod m = 3 then
        (if op = 0x89 then Some (Mov_rr w rm reg, bs)
         else if op = 0x8B then Some (Mov_rr w reg rm, bs)
         else if op = 0x85 then Some (Test_rr w rm reg, bs)
         else if op = 0x81 \<and> modrm_reg m = 5 then
           map_option (\<lambda>(i, bs). (Sub_imm w rm i, bs)) (fetch_imm 4 bs)
         else if op = 0xFF \<and> modrm_reg m = 1 then Some (Dec w rm, bs)
         else None)
      else if modrm_mod m = 1 \<and> modrm_rm m \<noteq> 4 then
        (case bs of [] \<Rightarrow> None | d # bs \<Rightarrow>
           if op = 0x89 then Some (Mov_store w rm d reg, bs)
           else if op = 0x8B then Some (Mov_load w reg rm d, bs)
           else None)
      else None)"

fun decode_op :: "bool \<Rightarrow> bool \<Rightarrow> bool \<Rightarrow> byte list \<Rightarrow> (insn \<times> byte list) option" where
  "decode_op w r b [] = None"
| "decode_op w r b (op # bs) =
     (if op AND 0xF8 = 0xB8 then
        (if w then map_option (\<lambda>(i, bs). (Mov_imm64 (regno b op) i, bs)) (fetch_imm 8 bs)
         else map_option (\<lambda>(i, bs). (Mov_imm32 (regno b op) i, bs)) (fetch_imm 4 bs))
      else if op AND 0xF8 = 0x50 then Some (Push (regno b op), bs)
      else if op AND 0xF8 = 0x58 then Some (Pop (regno b op), bs)
      else if op = 0xC3 then Some (Ret, bs)
      else if op = 0xE8 then map_option (\<lambda>(i, bs). (Call i, bs)) (fetch_imm 4 bs)
      else if op = 0xEB then map_option (\<lambda>(i, bs). (Jmp_rel8 i, bs)) (fetch_imm 1 bs)
      else if op = 0x74 then map_option (\<lambda>(i, bs). (Je_rel8 i, bs)) (fetch_imm 1 bs)
      else if op = 0x75 then map_option (\<lambda>(i, bs). (Jne_rel8 i, bs)) (fetch_imm 1 bs)
      else if op = 0x0F then (case bs of [] \<Rightarrow> None | c # bs \<Rightarrow> if c = 0x05 then Some (Syscall, bs) else None)
      else decode_modrm w r b op bs)"

fun decode :: "byte list \<Rightarrow> (insn \<times> byte list) option" where
  "decode [] = None"
| "decode (b # bs) =
     (if b AND 0xF0 = 0x40 then decode_op (bit b 3) (bit b 2) (bit b 0) bs
      else decode_op False False False (b # bs))"

subsection \<open>Decoding what the emitters build\<close>

lemma and7_take_bit: "n AND 7 = take_bit 3 (n :: byte)"
  by (simp add: take_bit_eq_mask mask_eq_exp_minus_1)

lemmas modrm_bytes = modrm_byte_def modrm_mod_def modrm_reg_def modrm_rm_def

lemma modrm_fields:
  "modrm_mod (modrm_byte md (low a) (low b)) = take_bit 2 md"
  "modrm_reg (modrm_byte md (low a) (low b)) = low a"
  "modrm_rm (modrm_byte md (low a) (low b)) = low b"
  unfolding modrm_mod_def modrm_reg_def modrm_rm_def modrm_byte_def and7_take_bit
  by (rule bit_word_eqI; auto simp: bit_simps)+

lemma modrm_fields5:
  "modrm_mod (modrm_byte md (low a) 5) = take_bit 2 md"
  "modrm_reg (modrm_byte md (low a) 5) = low a"
  "modrm_rm (modrm_byte md (low a) 5) = 5"
  "modrm_mod (modrm_byte md 5 (low a)) = take_bit 2 md"
  "modrm_reg (modrm_byte md 5 (low a)) = 5"
  "modrm_rm (modrm_byte md 5 (low a)) = low a"
  "modrm_mod (modrm_byte md 1 (low a)) = take_bit 2 md"
  "modrm_reg (modrm_byte md 1 (low a)) = 1"
  "modrm_rm (modrm_byte md 1 (low a)) = low a"
  using modrm_fields [of md a 5] modrm_fields [of md 5 a] modrm_fields [of md 1 a] by simp_all

lemma rex_fields:
  "rex_byte 1 (bool_byte r) (bool_byte x) (bool_byte b) AND 0xF0 = 0x40"
  "bit (rex_byte 1 (bool_byte r) (bool_byte x) (bool_byte b)) 3"
  "bit (rex_byte 1 (bool_byte r) (bool_byte x) (bool_byte b)) 2 = r"
  "bit (rex_byte 1 (bool_byte r) (bool_byte x) (bool_byte b)) 0 = b"
  by (cases r; cases x; cases b; simp add: rex_byte_def bool_byte_def)+

lemma bool_byte_simps: "bool_byte True = 1" "bool_byte False = 0"
  by (simp_all add: bool_byte_def)

lemmas rex_fields_const =
  rex_fields [of _ False False, unfolded bool_byte_simps] rex_fields [of False False, unfolded bool_byte_simps]
  rex_fields [of _ False, unfolded bool_byte_simps] rex_fields [of False _ False, unfolded bool_byte_simps]

definition number64 :: "reg64 \<Rightarrow> nat" where
  "number64 r = unat (kReg64Number r)"

lemma regno_high_low [simp]:
  "regno (7 < kReg64Number r) (low (kReg64Number r)) = number64 r"
  "regno (7 < kReg64Number r) (kReg64Number r AND 7) = number64 r"
  by (cases r; simp add: regno_def number64_def)+

lemma kReg32_as_64 [simp]:
  "kReg32Number (reg64_as_reg32 r) = kReg64Number r"
  "kReg64Number (reg32_as_reg64 s) = kReg32Number s"
  by (cases r; simp) (cases s; simp)

lemma low_low [simp]: "low (low n) = low n"
  by (simp add: and.assoc)


definition number32 :: "reg32 \<Rightarrow> nat" where
  "number32 r = unat (kReg32Number r)"

lemma regno_high_low32 [simp]:
  "regno (7 < kReg32Number r) (low (kReg32Number r)) = number32 r"
  by (cases r; simp add: regno_def number32_def)


text \<open>
  An emitter encodes an instruction when on every well-formed buffer with room for sixteen bytes it
  returns, and what it appended decodes to the instruction, whatever follows.
\<close>

definition encodes :: "(dbuffer \<Rightarrow> dbuffer res) \<Rightarrow> insn \<Rightarrow> bool" where
  "encodes f i \<longleftrightarrow>
     (\<forall>db. dbuffer_wf db \<longrightarrow> dbuffer_room db 16 \<longrightarrow>
        (\<exists>db' bs. f db = Inr db' \<and> dbuffer_wf db' \<and>
           dbuffer_contents db' = dbuffer_contents db @ bs \<and>
           (\<forall>rest. decode (bs @ rest) = Some (i, rest))))"

lemma encodesI:
  assumes f: "sink.emits f bs" and "length bs \<le> 16"
    and d: "\<And>rest. decode (bs @ rest) = Some (i, rest)"
  shows "encodes f i"
  unfolding encodes_def
proof (intro allI impI)
  fix db assume "dbuffer_wf db" and "dbuffer_room db 16"
  from sink.emits_total [OF f this assms(2)] d
  show "\<exists>db' bs. f db = Inr db' \<and> dbuffer_wf db' \<and>
           dbuffer_contents db' = dbuffer_contents db @ bs \<and>
           (\<forall>rest. decode (bs @ rest) = Some (i, rest))" by blast
qed

text \<open>An emitter encodes at most one instruction, since a fresh buffer is a test for it.\<close>

lemma encodes_unique:
  assumes "encodes f i" and "encodes f j"
  shows "i = j"
proof -
  have "dbuffer_room dbuffer_init 16"
    by (simp add: dbuffer_room_def dbuffer_init_def dbuffer_initSize_def DBUFFER_INIT_def)
  with assms show ?thesis unfolding encodes_def
    by (metis dbuffer_init_wf option.inject prod.inject same_append_eq sum.inject(2))
qed

lemma encodes_iff: "encodes f i \<Longrightarrow> encodes f j \<longleftrightarrow> j = i"
  using encodes_unique by blast

lemma fetch_imm_le_bytes:
  "LENGTH('a) = 8 * n \<Longrightarrow> fetch_imm n (le_bytes n (w :: 'a::len word) @ rest) = Some (w, rest)"
  by (simp add: fetch_imm_def bytes_word_le_bytes_full)

lemmas fetch_imms [simp] =
  fetch_imm_le_bytes [where 'a = 8 and n = 1, simplified]
  fetch_imm_le_bytes [where 'a = 32 and n = 4, simplified]
  fetch_imm_le_bytes [where 'a = 64 and n = 8, simplified]

lemma encodes_storeReg64:
  "encodes (\<lambda>db. emit_storeReg64 db f t) (Mov_rr True (number64 t) (number64 f))"
  by (rule encodesI [OF emits_storeReg64]) (simp_all add: rex_fields_const modrm_fields)

lemma encodes_storeRegRBP64:
  "encodes (\<lambda>db. emit_storeRegRBP64 db r d) (Mov_store True 5 d (number64 r))"
  by (rule encodesI [OF emits_storeRegRBP64]) (simp_all add: rex_fields_const modrm_fields5, simp add: regno_def)

lemma encodes_loadRegRBP64:
  "encodes (\<lambda>db. emit_loadRegRBP64 db r d)
    (Mov_load True (number64 r mod 8) (if 8 \<le> number64 r then 13 else 5) d)"
  by (rule encodesI [OF emits_loadRegRBP64])
   (simp, (cases r; simp add: rex_byte_def bool_byte_def modrm_bytes number64_def regno_def))

lemma encodes_loadRegRBP32:
  "encodes (\<lambda>db. emit_loadRegRBP32 db r d) (Mov_load False (number32 r) 5 d)"
  by (rule encodesI [OF emits_loadRegRBP32])
    (simp, (cases r; simp add: number32_def regno_def rex_byte_def modrm_bytes))

lemma encodes_pushReg:
  "encodes (\<lambda>db. emit_pushReg db r) (Push (number64 r))"
  by (rule encodesI [OF emits_pushReg]) (simp, (cases r; simp add: number64_def regno_def rex_byte_def))

lemma encodes_popReg:
  "encodes (\<lambda>db. emit_popReg db r) (Pop (number64 r))"
  by (rule encodesI [OF emits_popReg]) (simp, (cases r; simp add: number64_def regno_def rex_byte_def))

lemma encodes_storeConst32:
  "encodes (\<lambda>db. emit_storeConst32 db r c) (Mov_imm32 (number32 r) c)"
  by (rule encodesI [OF emits_storeConst32]) (simp, (cases r; simp add: number32_def regno_def rex_byte_def))

lemma encodes_storeConst64:
  "encodes (\<lambda>db. emit_storeConst64 db r c) (Mov_imm64 (number64 r) c)"
  by (rule encodesI [OF emits_storeConst64])
    (simp, (cases r; simp add: rex_fields_const number64_def regno_def))

lemma encodes_subConst64:
  "encodes (\<lambda>db. emit_subConst64 db r c) (Sub_imm True (number64 r mod 8) c)"
  by (rule encodesI [OF emits_subConst64])
    (simp, (cases r; simp add: rex_byte_def bool_byte_def modrm_bytes number64_def regno_def))

lemma encodes_checkZero32:
  "encodes (\<lambda>db. emit_checkZero32 db r) (Test_rr False (number32 r) (number32 r))"
  by (rule encodesI [OF emits_checkZero32])
    (simp, (cases r; simp add: number32_def regno_def rex_byte_def modrm_bytes))

lemma encodes_checkZero64:
  "encodes (\<lambda>db. emit_checkZero64 db r) (Test_rr True (number64 r) (number64 r))"
  by (rule encodesI [OF emits_checkZero64]) (simp_all add: rex_fields_const modrm_fields)

lemma encodes_decReg64:
  "encodes (\<lambda>db. emit_decReg64 db r) (Dec True (number64 r))"
  by (rule encodesI [OF emits_decReg64]) (simp_all add: rex_fields_const modrm_fields5)

lemma encodes_ret: "encodes emit_ret Ret"
  by (rule encodesI [OF emits_ret]) simp_all

lemma encodes_syscall: "encodes emit_syscall Syscall"
  by (rule encodesI [OF emits_syscall]) simp_all

subsection \<open>Label fields after patching\<close>

lemma length_contents_map [simp]:
  "dbuffer_wf db \<Longrightarrow> length (map Some (dbuffer_contents db)) = usage db"
  by (simp add: length_dbuffer_contents)

text \<open>
  Once the label has its offset and the code is patched, the instruction stands in the code with
  the value of its relocation in place of the reserved field.
\<close>

lemma label_patched:
  assumes f: "sink.emits f bs" and wf: "dbuffer_wf db" and fields: "fields_ok (usage db) (relocations l)"
    and ret: "bindE (f db) (\<lambda>db. relocation_emit db l ty sz b) = Inr (db', l')"
  shows "\<exists>m' l''. label_applyMemory (label_setOffset l' off) (map Some (dbuffer_contents db')) loc = Inr (m', l'') \<and>
    map the (drop (usage db) m') = bs @ le_bytes (getRelocSize sz)
      (reloc_value \<lparr>reloc_type = ty, reloc_size = sz, bias = b, reloc_offset = usage db + length bs\<rparr> off loc)"
proof -
  let ?m = "map Some (dbuffer_contents db')" and ?n = "getRelocSize sz"
  let ?r = "\<lparr>reloc_type = ty, reloc_size = sz, bias = b, reloc_offset = usage db + length bs\<rparr>"
  note ok = emit_label_ok [OF f wf fields ret]
  have lm: "length ?m = usage db + length bs + ?n"
    using ok(2) length_dbuffer_contents [OF wf] by simp
  have "fields_ok (length ?m) (relocations l')" using ok(1,3) by (simp add: length_dbuffer_contents)
  from apply_list_ok [OF this, of off loc] ok(4) obtain m' where
    m': "apply_list (relocations l') ?m off loc = Inr m'" "length m' = length ?m"
      "field ?r m' = map Some (le_bytes ?n (reloc_value ?r off loc))"
      "\<forall>i < length ?m. (\<forall>r \<in> set (relocations l'). \<not> in_field i r) \<longrightarrow> m' ! i = ?m ! i"
    by auto
  have keep: "m' ! i = Some (bs ! (i - usage db))" if "usage db \<le> i" "i < usage db + length bs" for i
  proof -
    have "\<not> in_field i r" if "r \<in> set (relocations l')" for r
      using that fields \<open>usage db \<le> i\<close> \<open>i < usage db + length bs\<close>
      unfolding ok(4) by (auto simp: in_field_def fields_ok_def)
    then have "m' ! i = ?m ! i" using m'(4) that lm by simp
    moreover have "i - usage db < length bs" using that by arith
    ultimately show ?thesis using that ok(2) length_dbuffer_contents [OF wf] lm
      by (simp add: nth_append)
  qed
  have "drop (usage db) m' = map Some bs @ field ?r m'"
  proof (rule nth_equalityI)
    show "length (drop (usage db) m') = length (map Some bs @ field ?r m')"
      using m'(2,3) lm by simp
    fix i assume "i < length (drop (usage db) m')"
    then have i: "i < length bs + ?n" "usage db + i < length m'" using m'(2) lm by auto
    show "drop (usage db) m' ! i = (map Some bs @ field ?r m') ! i"
      using i keep [of "usage db + i"] m'(2) lm by (auto simp: nth_append field_def)
  qed
  then have "map the (drop (usage db) m') = bs @ le_bytes ?n (reloc_value ?r off loc)"
    using m'(3) by (simp add: comp_def)
  with m'(1) show ?thesis
    by (auto simp: label_applyMemory_def label_setOffset_def)
qed

lemma emit_label_patched:
  assumes f: "sink.emits f bs" and wf: "dbuffer_wf db" and room: "dbuffer_room db (length bs + getRelocSize sz)"
    and fields: "fields_ok (usage db) (relocations l)"
  shows "\<exists>db' l' m' l''. bindE (f db) (\<lambda>db. relocation_emit db l ty sz b) = Inr (db', l') \<and>
    label_applyMemory (label_setOffset l' off) (map Some (dbuffer_contents db')) loc = Inr (m', l'') \<and>
    map the (drop (usage db) m') = bs @ le_bytes (getRelocSize sz)
      (reloc_value \<lparr>reloc_type = ty, reloc_size = sz, bias = b, reloc_offset = usage db + length bs\<rparr> off loc)"
proof -
  from emit_label_total [OF f wf room order_refl] obtain db' l' where
    ret: "bindE (f db) (\<lambda>db. relocation_emit db l ty sz b) = Inr (db', l')" .
  from label_patched [OF f wf fields ret, of off loc] ret show ?thesis
    by (intro exI [of _ db'] exI [of _ l']) simp
qed

lemma le_bytes_ucast:
  assumes "8 * n \<le> LENGTH('a)"
  shows "le_bytes n (ucast (w :: 'b::len word) :: 'a::len word) = le_bytes n w"
proof (rule nth_equalityI)
  fix i assume "i < length (le_bytes n (ucast w :: 'a word))"
  then have i: "i < n" by simp
  then have "8 * i + 8 \<le> LENGTH('a)" using assms by simp
  then have "ucast (drop_bit (8 * i) (ucast w :: 'a word)) = (ucast (drop_bit (8 * i) w) :: byte)"
    by (intro bit_word_eqI) (auto simp: bit_simps)
  with i show "le_bytes n (ucast w :: 'a word) ! i = le_bytes n w ! i"
    by (simp add: le_bytes_def)
qed simp

lemma fetch_imm_disp:
  "LENGTH('a) = 8 * n \<Longrightarrow> fetch_imm n (le_bytes n (w :: 64 word)) = Some (ucast w :: 'a::len word, [])"
  using fetch_imm_le_bytes [where 'a = 'a and rest = "[]" and n = n and w = "ucast w"]
  by (simp add: le_bytes_ucast)

lemmas fetch_disps [simp] =
  fetch_imm_disp [where 'a = 8 and n = 1, simplified]
  fetch_imm_disp [where 'a = 32 and n = 4, simplified]

text \<open>A relative jump lands on the label exactly when the distance fits into the field.\<close>

lemma scast_ucast_word:
  "LENGTH('a) = Suc n \<Longrightarrow> n < 64 \<Longrightarrow>
   scast (ucast (v :: 64 word) :: 'a::len word) = signed_take_bit n v"
  by (rule bit_word_eqI)
    (auto simp: bit_simps bit_signed_take_bit_iff bit_signed_iff min_def dest: bit_imp_le_length)

lemma scast_disp_lands:
  assumes "LENGTH('a::len) = Suc n" and "n < 64" and v: "v = off - here"
  shows "here + scast (ucast (v :: 64 word) :: 'a word) = off \<longleftrightarrow>
    - (2 ^ n) \<le> sint (off - here) \<and> sint (off - here) < 2 ^ n"
proof -
  have "here + signed_take_bit n v = off \<longleftrightarrow> signed_take_bit n v = v"
    unfolding v by (auto simp: algebra_simps)
  with signed_take_bit_word_id [of n v] assms show ?thesis
    by (simp add: scast_ucast_word)
qed

section \<open>Properties\<close>

text \<open>
  C19: Moves encode the instruction asked for, with every register as source or destination: a move
  between two 64-bit registers, a 64-bit store into the stack frame (base RBP, one signed
  displacement byte) and a 32-bit load from it.
\<close>
theorem emit_moves_encode:
  "encodes (\<lambda>db. emit_storeReg64 db from_reg to_reg) (Mov_rr True (number64 to_reg) (number64 from_reg)) \<and>
   encodes (\<lambda>db. emit_storeRegRBP64 db r64 disp) (Mov_store True (number64 RBP) disp (number64 r64)) \<and>
   encodes (\<lambda>db. emit_loadRegRBP32 db r32 disp) (Mov_load False (number32 r32) (number64 RBP) disp)"
  using encodes_storeReg64 encodes_storeRegRBP64 encodes_loadRegRBP32 by (simp add: number64_def)

text \<open>
  C20: The instructions with a constant, the stack instructions, the zero tests, decrement, return and
  system call encode what their names say, for every register and constant.
\<close>
theorem emit_others_encode:
  "encodes (\<lambda>db. emit_storeConst32 db r32 c32) (Mov_imm32 (number32 r32) c32) \<and>
   encodes (\<lambda>db. emit_storeConst64 db r64 c64) (Mov_imm64 (number64 r64) c64) \<and>
   encodes (\<lambda>db. emit_pushReg db r64) (Push (number64 r64)) \<and>
   encodes (\<lambda>db. emit_popReg db r64) (Pop (number64 r64)) \<and>
   encodes (\<lambda>db. emit_checkZero32 db r32) (Test_rr False (number32 r32) (number32 r32)) \<and>
   encodes (\<lambda>db. emit_checkZero64 db r64) (Test_rr True (number64 r64) (number64 r64)) \<and>
   encodes (\<lambda>db. emit_decReg64 db r64) (Dec True (number64 r64)) \<and>
   encodes emit_ret Ret \<and> encodes emit_syscall Syscall"
  by (simp add: encodes_storeConst32 encodes_storeConst64 encodes_pushReg encodes_popReg
      encodes_checkZero32 encodes_checkZero64 encodes_decReg64 encodes_ret encodes_syscall)

text \<open>
  The 64-bit frame load puts the high bit of the register into the wrong extension bit of the
  prefix. It is right exactly for the eight lower registers; for R8 to R15 it loads one of the lower
  registers, from an address relative to R13.
\<close>
theorem emit_loadRegRBP64_extension:
  "(encodes (\<lambda>db. emit_loadRegRBP64 db r disp) (Mov_load True (number64 r) (number64 RBP) disp)
      \<longleftrightarrow> r \<in> {RAX, RCX, RDX, RBX, RSP, RBP, RSI, RDI}) \<and>
   encodes (\<lambda>db. emit_loadRegRBP64 db r disp)
     (Mov_load True (number64 r mod 8) (if 8 \<le> number64 r then number64 R13 else number64 RBP) disp)"
  unfolding encodes_iff [OF encodes_loadRegRBP64] by (cases r; simp add: number64_def)

text \<open>
  Subtracting a constant puts the high bit of the register into the index extension, which has
  no effect on a register operand. The instruction subtracts from the register asked for exactly for
  the eight lower registers, and from the register eight below it otherwise.
\<close>
theorem emit_subConst64_extension:
  "(encodes (\<lambda>db. emit_subConst64 db r c) (Sub_imm True (number64 r) c)
      \<longleftrightarrow> r \<in> {RAX, RCX, RDX, RBX, RSP, RBP, RSI, RDI}) \<and>
   encodes (\<lambda>db. emit_subConst64 db r c) (Sub_imm True (number64 r mod 8) c)"
  unfolding encodes_iff [OF encodes_subConst64] by (cases r; simp add: number64_def)

text \<open>
  C8: A call to a label reaches it. Emitting the call, giving the label its offset and patching the
  code that will be loaded at \<open>loc\<close> always succeeds, the patched bytes decode to a call, and the
  address behind the call plus the sign-extended displacement is the label's address exactly when
  their distance fits into 32 bits.
\<close>
theorem emit_call_reaches_label:
  assumes "dbuffer_wf db" and "dbuffer_room db 5" and "fields_ok (usage db) (relocations l)"
  shows "\<exists>db' l' m' l'' d. emit_call db l = Inr (db', l') \<and>
    label_applyMemory (label_setOffset l' off) (map Some (dbuffer_contents db')) loc = Inr (m', l'') \<and>
    decode (map the (drop (usage db) m')) = Some (Call d, []) \<and>
    (loc + of_nat (usage db) + 5 + scast d = off \<longleftrightarrow>
       - (2 ^ 31) \<le> sint (off - (loc + of_nat (usage db) + 5)) \<and>
       sint (off - (loc + of_nat (usage db) + 5)) < 2 ^ 31)"
proof -
  let ?here = "loc + of_nat (usage db) + 5"
  have e: "sink.emits (\<lambda>db. dbuffer_push db [0xE8]) [0xE8]" by (rule emits_push1) simp
  have "dbuffer_room db (length [0xE8 :: byte] + getRelocSize INT32)" using assms(2) by simp
  from emit_label_patched [OF e assms(1) this assms(3), of RELATIVE 4 off loc]
  obtain db' l' m' l'' where r: "emit_call db l = Inr (db', l')"
    "label_applyMemory (label_setOffset l' off) (map Some (dbuffer_contents db')) loc = Inr (m', l'')"
    and bytes: "map the (drop (usage db) m') = 0xE8 # le_bytes 4 (off - ?here)"
    by (auto simp: reloc_value_def algebra_simps emit_call_def)
  have "decode (map the (drop (usage db) m')) = Some (Call (ucast (off - ?here)), [])"
    unfolding bytes by simp
  with r scast_disp_lands [where 'a = 32 and n = 31, OF _ _ refl, of ?here off]
  show ?thesis by fastforce
qed

text \<open>A fresh buffer and label for the witnesses.\<close>

lemma fresh_code:
  "n \<le> 2000 \<Longrightarrow> dbuffer_room dbuffer_init n" "usage dbuffer_init = 0"
  "fields_ok (usage dbuffer_init) (relocations empty_label)"
  by (simp_all add: dbuffer_room_def dbuffer_init_def dbuffer_initSize_def DBUFFER_INIT_def empty_label_def)

theorem emit_call_reaches_label_witness:
  "\<exists>db' l' m' l'' d. emit_call dbuffer_init empty_label = Inr (db', l') \<and>
    label_applyMemory (label_setOffset l' 0x2000) (map Some (dbuffer_contents db')) 0x1000 = Inr (m', l'') \<and>
    decode (map the m') = Some (Call d, []) \<and> 0x1005 + scast d = (0x2000 :: 64 word)"
  using emit_call_reaches_label [OF dbuffer_init_wf fresh_code(1,3), of "0x2000" "0x1000"]
  by (simp add: fresh_code)

text \<open>
  C21: A short jump to a label reaches it when the distance fits into one byte, once the code is
  patched. \<open>emit_jumpZeroRel8\<close> writes opcode 0x75: what it encodes is the jump taken when the
  zero flag is clear.
\<close>
theorem emit_jumps_reach_label:
  assumes "dbuffer_wf db" and "dbuffer_room db 2" and "fields_ok (usage db) (relocations l)"
    and "(emit, insn) \<in> {(emit_jumpRel8, Jmp_rel8), (emit_jumpZeroRel8, Jne_rel8)}"
  shows "\<exists>db' l' m' l'' d. emit db l = Inr (db', l') \<and>
    label_applyMemory (label_setOffset l' off) (map Some (dbuffer_contents db')) loc = Inr (m', l'') \<and>
    decode (map the (drop (usage db) m')) = Some (insn d, []) \<and>
    (loc + of_nat (usage db) + 2 + scast d = off \<longleftrightarrow>
       - (2 ^ 7) \<le> sint (off - (loc + of_nat (usage db) + 2)) \<and>
       sint (off - (loc + of_nat (usage db) + 2)) < 2 ^ 7)"
proof -
  let ?here = "loc + of_nat (usage db) + 2"
  have "\<exists>op :: 32 word.
      emit = (\<lambda>db l. bindE (dbuffer_push db [op]) (\<lambda>db. relocation_emit db l RELATIVE INT8 1)) \<and>
      (\<forall>d. decode (ucast op # le_bytes 1 (d :: 64 word)) = Some (insn (ucast d), []))"
  proof (cases "emit = emit_jumpRel8 \<and> insn = Jmp_rel8")
    case True
    then show ?thesis by (intro exI [of _ "0xEB"]) (simp add: emit_jumpRel8_def [abs_def])
  next
    case False
    with assms(4) show ?thesis by (intro exI [of _ "0x75"]) (auto simp: emit_jumpZeroRel8_def [abs_def])
  qed
  then obtain op :: "32 word" where
    emit: "emit = (\<lambda>db l. bindE (dbuffer_push db [op]) (\<lambda>db. relocation_emit db l RELATIVE INT8 1))"
    and insn: "\<And>d. decode (ucast op # le_bytes 1 (d :: 64 word)) = Some (insn (ucast d), [])"
    by blast
  have e: "sink.emits (\<lambda>db. dbuffer_push db [op]) [ucast op]" by (rule emits_push1) simp
  have "dbuffer_room db (length [ucast op :: byte] + getRelocSize INT8)" using assms(2) by (simp add: numeral_2_eq_2)
  from emit_label_patched [OF e assms(1) this assms(3), of RELATIVE 1 off loc]
  obtain db' l' m' l'' where r: "emit db l = Inr (db', l')"
    "label_applyMemory (label_setOffset l' off) (map Some (dbuffer_contents db')) loc = Inr (m', l'')"
    and bytes: "map the (drop (usage db) m') = ucast op # le_bytes 1 (off - ?here)"
    by (auto simp: reloc_value_def algebra_simps emit)
  have "decode (map the (drop (usage db) m')) = Some (insn (ucast (off - ?here)), [])"
    unfolding bytes by (rule insn)
  with r scast_disp_lands [where 'a = 8 and n = 7, OF _ _ refl, of ?here off]
  show ?thesis by fastforce
qed

theorem emit_jumps_reach_label_witness:
  "\<exists>db' l' m' l'' d. emit_jumpZeroRel8 dbuffer_init empty_label = Inr (db', l') \<and>
    label_applyMemory (label_setOffset l' 0xFF0) (map Some (dbuffer_contents db')) 0x1000 = Inr (m', l'') \<and>
    decode (map the m') = Some (Jne_rel8 d, []) \<and> 0x1002 + scast d = (0xFF0 :: 64 word)"
  using emit_jumps_reach_label [OF dbuffer_init_wf fresh_code(1,3), of emit_jumpZeroRel8 Jne_rel8 "0xFF0" "0x1000"]
  by (simp add: fresh_code)

text \<open>
  C22: Loading the address of a label into a register: after patching, the code is the move of the
  label's 64-bit address into the register asked for.
\<close>
theorem emit_storeLabel64_loads_address:
  assumes "dbuffer_wf db" and "dbuffer_room db 10" and "fields_ok (usage db) (relocations l)"
  shows "\<exists>db' l' m' l''. emit_storeLabel64 db reg l = Inr (db', l') \<and>
    label_applyMemory (label_setOffset l' off) (map Some (dbuffer_contents db')) loc = Inr (m', l'') \<and>
    decode (map the (drop (usage db) m')) = Some (Mov_imm64 (number64 reg) off, [])"
proof -
  let ?bs = "[rex_byte 1 0 0 (high (kReg64Number reg)), 0xB8 OR low (kReg64Number reg)]"
  have e: "sink.emits (\<lambda>db. bindE (emit_rex db 1 0 0 (high (kReg64Number reg)))
      (\<lambda>db. dbuffer_push db [0xB8 OR ucast (low (kReg64Number reg))])) ?bs"
    by (rule sink.emits_bind_eq [OF emits_rex emits_push1]) simp_all
  have "dbuffer_room db (length ?bs + getRelocSize INT64)" using assms(2) by simp
  from emit_label_patched [OF e assms(1) this assms(3), of ABSOLUTE 0 off loc]
  obtain db' l' m' l'' where r: "emit_storeLabel64 db reg l = Inr (db', l')"
    "label_applyMemory (label_setOffset l' off) (map Some (dbuffer_contents db')) loc = Inr (m', l'')"
    and bytes: "map the (drop (usage db) m') = ?bs @ le_bytes 8 off"
    by (auto simp: reloc_value_def emit_storeLabel64_def bindE_assoc)
  have "decode (?bs @ le_bytes 8 off @ []) = Some (Mov_imm64 (number64 reg) off, [])"
    unfolding append_Cons append_Nil decode.simps decode_op.simps
    by (cases reg; simp add: rex_byte_def bool_byte_def number64_def regno_def del: append_Nil2)
  with r bytes show ?thesis by auto
qed

theorem emit_storeLabel64_loads_address_witness:
  "\<exists>db' l' m' l''. emit_storeLabel64 dbuffer_init R10 empty_label = Inr (db', l') \<and>
    label_applyMemory (label_setOffset l' 0x1234) (map Some (dbuffer_contents db')) 0x1000 = Inr (m', l'') \<and>
    decode (map the m') = Some (Mov_imm64 10 0x1234, [])"
  using emit_storeLabel64_loads_address [OF dbuffer_init_wf fresh_code(1,3), of R10 "0x1234" "0x1000"]
  by (simp add: fresh_code number64_def)

end
