(* ===== verification/Codegen.thy ===== *)
theory Codegen
  imports Linked_List X86_64
begin

text \<open>
  \<open>codegen.c\<close> and the last part of \<open>x86_64_assembly.c\<close>: variables of a function live in registers or in
  slots of the stack frame; the variables in registers are kept in a list by last use, and the one used
  least recently is spilled when a register is needed. The lemmas show that the allocator keeps its
  tables consistent and that the code it emits moves the values of the variables where the tables say
  they are, on a machine that executes decoded instructions.
\<close>

section \<open>State\<close>

text \<open>A variable is named by its list cell; \<open>registerStatus\<close> holds variables, 0 for a free register.\<close>

record variable =
  isTmp :: int
  var_reg :: int
  stackPos :: int

record codegen =
  registerCount :: nat
  cbuffer :: dbuffer
  frameSize :: nat
  lruVariables :: ptr
  registerStatus :: "ptr list"
  cg_cells :: list_heap
  cg_vars :: "ptr \<Rightarrow> variable option"
  cg_top :: ptr

definition get_var :: "codegen \<Rightarrow> ptr \<Rightarrow> variable res" where
  "get_var cg v = (case cg_vars cg v of None \<Rightarrow> Inl NullDeref | Some var \<Rightarrow> Inr var)"

definition set_var :: "codegen \<Rightarrow> ptr \<Rightarrow> variable \<Rightarrow> codegen" where
  "set_var cg v var = cg\<lparr>cg_vars := (cg_vars cg)(v \<mapsto> var)\<rparr>"

definition get_status :: "codegen \<Rightarrow> int \<Rightarrow> ptr res" where
  "get_status cg i =
     (if 0 \<le> i \<and> i < int (length (registerStatus cg)) then Inr (registerStatus cg ! nat i) else Inl OutOfBounds)"

definition set_status :: "codegen \<Rightarrow> int \<Rightarrow> ptr \<Rightarrow> codegen res" where
  "set_status cg i v =
     (if 0 \<le> i \<and> i < int (length (registerStatus cg))
      then Inr (cg\<lparr>registerStatus := (registerStatus cg)[nat i := v]\<rparr>) else Inl OutOfBounds)"

text \<open>The list operations on the cells of the variables.\<close>

definition lru_add :: "codegen \<Rightarrow> ptr \<Rightarrow> codegen res" where
  "lru_add cg v = bindE (list_add (cg_cells cg) (lruVariables cg) v) (\<lambda>cs. Inr (cg\<lparr>cg_cells := cs\<rparr>))"

definition lru_deattach :: "codegen \<Rightarrow> ptr \<Rightarrow> codegen res" where
  "lru_deattach cg v = bindE (list_deattach (cg_cells cg) v) (\<lambda>cs. Inr (cg\<lparr>cg_cells := cs\<rparr>))"

definition emit_code :: "(dbuffer \<Rightarrow> dbuffer res) \<Rightarrow> codegen \<Rightarrow> codegen res" where
  "emit_code f cg = bindE (f (cbuffer cg)) (\<lambda>db. Inr (cg\<lparr>cbuffer := db\<rparr>))"

section \<open>Registers of the allocator\<close>

definition realRegs :: "nat list" where
  "realRegs = [0, 1, 2, 6, 7, 8, 9, 10, 11, 12]"

definition getRealReg :: "int \<Rightarrow> reg64 res" where
  "getRealReg i =
     (if 0 \<le> i \<and> i < int (length realRegs) then Inr (reg64_list ! (realRegs ! nat i)) else Inl OutOfBounds)"

definition arch_getRealReg :: "variable \<Rightarrow> reg64 res" where
  "arch_getRealReg var = getRealReg (var_reg var)"

text \<open>The allocator's numbers of the argument registers.\<close>

definition arg_regs :: "int list" where
  "arg_regs = [4, 3, 2, 1, 5, 6]"

text \<open>\<open>-stackPos * 8\<close>, passed as a \<open>char\<close>.\<close>

definition slot_disp :: "variable \<Rightarrow> byte" where
  "slot_disp var = word_of_int (- stackPos var * 8)"

section \<open>The operations\<close>

definition codegen_init :: "nat \<Rightarrow> ptr \<Rightarrow> codegen res" where
  "codegen_init count base =
     bindE (LIST_INIT [base \<mapsto> \<lparr>lprev = 0, lnext = 0\<rparr>] base) (\<lambda>cs.
       Inr \<lparr>registerCount = count, cbuffer = dbuffer_init, frameSize = 0, lruVariables = base,
            registerStatus = replicate count 0, cg_cells = cs, cg_vars = Map.empty, cg_top = base + 1\<rparr>)"

definition codegen_pushBlock :: "codegen \<Rightarrow> label_t \<Rightarrow> label_t" where
  "codegen_pushBlock cg label = label_setOffset label (of_nat (usage (cbuffer cg)))"

definition lruBump :: "codegen \<Rightarrow> ptr \<Rightarrow> codegen res" where
  "lruBump cg v = bindE (lru_deattach cg v) (\<lambda>cg. lru_add cg v)"

definition arch_loadReg :: "codegen \<Rightarrow> ptr \<Rightarrow> codegen res" where
  "arch_loadReg cg v =
     bindE (get_var cg v) (\<lambda>var.
     assertE (0 < stackPos var)
      (bindE (arch_getRealReg var) (\<lambda>rReg.
        emit_code (\<lambda>db. emit_loadRegRBP64 db rReg (slot_disp var)) cg)))"

text \<open>
  Storing a variable refers to it and may therefore allocate a register for it first, and allocating
  one may store another variable: the three functions call each other. \<open>arch_spill\<close> is \<open>arch_store\<close>.
\<close>

fun variable_ref :: "nat \<Rightarrow> codegen \<Rightarrow> ptr \<Rightarrow> (codegen \<times> int) res"
  and codegen_allocateReg :: "nat \<Rightarrow> codegen \<Rightarrow> (codegen \<times> int) res"
  and arch_store :: "nat \<Rightarrow> codegen \<Rightarrow> ptr \<Rightarrow> codegen res"
  and variable_store :: "nat \<Rightarrow> codegen \<Rightarrow> ptr \<Rightarrow> codegen res" where
  "variable_ref 0 cg v = Inl OutOfFuel"
| "variable_ref (Suc fuel) cg v =
     bindE (get_var cg v) (\<lambda>var.
       if 0 \<le> var_reg var then bindE (lruBump cg v) (\<lambda>cg. Inr (cg, var_reg var))
       else
         bindE (codegen_allocateReg fuel cg) (\<lambda>(cg, result).
         bindE (get_var cg v) (\<lambda>var.
         let cg = set_var cg v (var\<lparr>var_reg := result\<rparr>) in
         bindE (set_status cg result v) (\<lambda>cg.
         bindE (arch_loadReg cg v) (\<lambda>cg.
         bindE (lru_add cg v) (\<lambda>cg. Inr (cg, result)))))))"
| "codegen_allocateReg 0 cg = Inl OutOfFuel"
| "codegen_allocateReg (Suc fuel) cg =
     (case find (\<lambda>i. registerStatus cg ! i = 0) [0 ..< registerCount cg] of
        Some i \<Rightarrow> Inr (cg, int i)
      | None \<Rightarrow>
          bindE (get_next (cg_cells cg) (lruVariables cg)) (\<lambda>n.
          assertE (n \<noteq> 0)
           (bindE (get_var cg n) (\<lambda>var.
            bindE (variable_store fuel cg n) (\<lambda>cg. Inr (cg, var_reg var))))))"
| "arch_store 0 cg v = Inl OutOfFuel"
| "arch_store (Suc fuel) cg v =
     bindE (get_var cg v) (\<lambda>var.
     assertE (0 \<le> stackPos var)
      (bindE (variable_ref fuel cg v) (\<lambda>(cg, _).
       bindE (get_var cg v) (\<lambda>var.
       bindE (arch_getRealReg var) (\<lambda>rReg.
         emit_code (\<lambda>db. emit_storeRegRBP64 db rReg (slot_disp var)) cg)))))"
| "variable_store 0 cg v = Inl OutOfFuel"
| "variable_store (Suc fuel) cg v =
     bindE (get_var cg v) (\<lambda>var.
     let cg = (if stackPos var < 0
               then set_var (cg\<lparr>frameSize := frameSize cg + 1\<rparr>) v (var\<lparr>stackPos := int (frameSize cg + 1)\<rparr>)
               else cg) in
     bindE (arch_store fuel cg v) (\<lambda>cg.
     bindE (lru_deattach cg v) (\<lambda>cg.
     bindE (get_var cg v) (\<lambda>var.
     bindE (set_status cg (var_reg var) 0) (\<lambda>cg.
       Inr (set_var cg v (var\<lparr>var_reg := - 1\<rparr>)))))))"

text \<open>The loop over all registers of \<open>codegen_popBlock\<close> and \<open>arch_functionCall\<close>.\<close>

fun store_registers :: "nat \<Rightarrow> codegen \<Rightarrow> nat list \<Rightarrow> codegen res" where
  "store_registers fuel cg [] = Inr cg"
| "store_registers fuel cg (i # is) =
     bindE (get_status cg (int i)) (\<lambda>var.
     bindE (if var = 0 then Inr cg else variable_store fuel cg var) (\<lambda>cg.
       store_registers fuel cg is))"

definition codegen_popBlock :: "nat \<Rightarrow> codegen \<Rightarrow> codegen res" where
  "codegen_popBlock fuel cg = store_registers fuel cg [0 ..< registerCount cg]"

definition codegen_newVarReg :: "codegen \<Rightarrow> int \<Rightarrow> (codegen \<times> ptr) res" where
  "codegen_newVarReg cg reg =
     (let v = cg_top cg;
          cg = set_var (cg\<lparr>cg_top := v + 1, cg_cells := (cg_cells cg)(v \<mapsto> \<lparr>lprev = 0, lnext = 0\<rparr>)\<rparr>) v
                 \<lparr>isTmp = 0, var_reg = reg, stackPos = - 1\<rparr> in
      bindE (set_status cg reg v) (\<lambda>cg.
      bindE (lru_add cg v) (\<lambda>cg. Inr (cg, v))))"

definition codegen_newVar :: "nat \<Rightarrow> codegen \<Rightarrow> (codegen \<times> ptr) res" where
  "codegen_newVar fuel cg = bindE (codegen_allocateReg fuel cg) (\<lambda>(cg, reg). codegen_newVarReg cg reg)"

text \<open>\<open>codegen_newTmp\<close> makes a variable but has no \<open>return\<close>: the caller gets no value it may use.\<close>

definition codegen_newTmp :: "codegen \<Rightarrow> codegen \<times> ptr option" where
  "codegen_newTmp cg =
     (let v = cg_top cg in
      (set_var (cg\<lparr>cg_top := v + 1, cg_cells := (cg_cells cg)(v \<mapsto> \<lparr>lprev = 0, lnext = 0\<rparr>)\<rparr>) v
         \<lparr>isTmp = 1, var_reg = - 1, stackPos = - 1\<rparr>, None))"

definition arch_initFunctionArg :: "codegen \<Rightarrow> nat \<Rightarrow> (codegen \<times> ptr) res" where
  "arch_initFunctionArg cg i = (if i < 6 then codegen_newVarReg cg (arg_regs ! i) else Inr (cg, 0))"

fun init_args :: "codegen \<Rightarrow> nat list \<Rightarrow> (codegen \<times> ptr list) res" where
  "init_args cg [] = Inr (cg, [])"
| "init_args cg (i # is) =
     bindE (arch_initFunctionArg cg i) (\<lambda>(cg, v).
     bindE (init_args cg is) (\<lambda>(cg, vs). Inr (cg, v # vs)))"

definition codegen_initFunction :: "codegen \<Rightarrow> nat \<Rightarrow> (codegen \<times> ptr list) res" where
  "codegen_initFunction cg argCount = init_args cg [0 ..< argCount]"

text \<open>The loop of \<open>arch_functionCall\<close> over the argument registers; it looks up each of them first.\<close>

fun load_args :: "codegen \<Rightarrow> int list \<Rightarrow> ptr list \<Rightarrow> codegen res" where
  "load_args cg [] vars = Inr cg"
| "load_args cg (r # rs) vars =
     bindE (get_status cg r) (\<lambda>_.
     bindE (case vars of
              [] \<Rightarrow> Inr cg
            | v # _ \<Rightarrow>
                bindE (get_var cg v) (\<lambda>var.
                  if var_reg var = - 1 then arch_loadReg (set_var cg v (var\<lparr>var_reg := r\<rparr>)) v
                  else bindE (getRealReg (var_reg var)) (\<lambda>from_reg.
                       bindE (getRealReg r) (\<lambda>to_reg.
                         emit_code (\<lambda>db. emit_storeReg64 db from_reg to_reg) cg)))) (\<lambda>cg.
       load_args cg rs (tl vars)))"

fun clear_regs :: "codegen \<Rightarrow> ptr list \<Rightarrow> codegen res" where
  "clear_regs cg [] = Inr cg"
| "clear_regs cg (v # vs) =
     bindE (get_var cg v) (\<lambda>var. clear_regs (set_var cg v (var\<lparr>var_reg := - 1\<rparr>)) vs)"

definition arch_functionCall :: "nat \<Rightarrow> codegen \<Rightarrow> label_t \<Rightarrow> ptr list \<Rightarrow> (codegen \<times> label_t) res" where
  "arch_functionCall fuel cg label vars =
     assertE (length vars < 7)
      (bindE (store_registers fuel cg [0 ..< registerCount cg]) (\<lambda>cg.
       bindE (load_args cg arg_regs vars) (\<lambda>cg.
       bindE (clear_regs cg vars) (\<lambda>cg.
       bindE (emit_call (cbuffer cg) label) (\<lambda>(db, label).
         Inr (cg\<lparr>cbuffer := db\<rparr>, label))))))"

section \<open>A machine for the emitted code\<close>

text \<open>
  The general registers by number, and the stack frame: \<open>mslots k\<close> is the quadword at \<open>RBP + 8 * k\<close>.
  Instructions that write \<open>RBP\<close> or address the frame at another offset have no meaning here.
\<close>

record machine =
  mregs :: "nat \<Rightarrow> 64 word"
  mslots :: "int \<Rightarrow> 64 word"

fun exec_insn :: "insn \<Rightarrow> machine \<Rightarrow> machine option" where
  "exec_insn (Mov_rr w t f) m =
     (if w \<and> t \<noteq> 5 then Some (m\<lparr>mregs := (mregs m)(t := mregs m f)\<rparr>) else None)"
| "exec_insn (Mov_store w b d r) m =
     (if w \<and> b = 5 \<and> sint d mod 8 = 0 then Some (m\<lparr>mslots := (mslots m)(sint d div 8 := mregs m r)\<rparr>) else None)"
| "exec_insn (Mov_load w r b d) m =
     (if w \<and> b = 5 \<and> r \<noteq> 5 \<and> sint d mod 8 = 0 then Some (m\<lparr>mregs := (mregs m)(r := mslots m (sint d div 8))\<rparr>) else None)"
| "exec_insn _ m = None"

fun exec_insns :: "insn list \<Rightarrow> machine \<Rightarrow> machine option" where
  "exec_insns [] m = Some m"
| "exec_insns (i # is) m = Option.bind (exec_insn i m) (exec_insns is)"

lemma exec_append: "exec_insns (is @ js) m = Option.bind (exec_insns is m) (exec_insns js)"
  by (induction "is" arbitrary: m) (auto split: Option.bind_splits)

text \<open>A whole piece of code, decoded from its bytes.\<close>

fun disassemble :: "nat \<Rightarrow> byte list \<Rightarrow> insn list option" where
  "disassemble 0 bs = (if bs = [] then Some [] else None)"
| "disassemble (Suc n) bs =
     (if bs = [] then Some []
      else case decode bs of None \<Rightarrow> None | Some (i, rest) \<Rightarrow> map_option (\<lambda>is. i # is) (disassemble n rest))"

fun code_of :: "byte list \<Rightarrow> insn list \<Rightarrow> bool" where
  "code_of bs [] \<longleftrightarrow> bs = []"
| "code_of bs (i # is) \<longleftrightarrow> (\<exists>c cs. bs = c @ cs \<and> (\<forall>rest. decode (c @ rest) = Some (i, rest)) \<and> code_of cs is)"

lemma code_of_append: "code_of bs is \<Longrightarrow> code_of cs js \<Longrightarrow> code_of (bs @ cs) (is @ js)"
proof (induction "is" arbitrary: bs)
  case (Cons i "is")
  then obtain c ds where "bs = c @ ds" "\<forall>rest. decode (c @ rest) = Some (i, rest)" "code_of ds is" by auto
  moreover have "code_of (ds @ cs) (is @ js)" using Cons.IH [OF \<open>code_of ds is\<close> Cons.prems(2)] .
  ultimately show ?case unfolding append_Cons code_of.simps by (intro exI [of _ c] exI [of _ "ds @ cs"]) simp
qed simp

lemma code_of_disassemble: "code_of bs is \<Longrightarrow> length bs \<le> n \<Longrightarrow> disassemble n bs = Some is"
proof (induction "is" arbitrary: bs n)
  case Nil
  then show ?case by (cases n) auto
next
  case (Cons i "is")
  then obtain c cs where c: "bs = c @ cs" "\<forall>rest. decode (c @ rest) = Some (i, rest)" "code_of cs is" by auto
  have "decode (c @ []) = Some (i, [])" using c(2) by blast
  then have "c \<noteq> []" by (cases c) auto
  with Cons.prems(2) c(1) obtain m where "n = Suc m" "length cs \<le> m" by (cases n) (auto simp: Suc_le_eq neq_Nil_conv)
  with Cons.IH [OF c(3)] c show ?case using \<open>c \<noteq> []\<close> by simp
qed

text \<open>What an operation adds to the code: instructions of at most four bytes each.\<close>

definition emitted :: "codegen \<Rightarrow> codegen \<Rightarrow> insn list \<Rightarrow> bool" where
  "emitted cg cg' is \<longleftrightarrow> dbuffer_wf (cbuffer cg') \<and>
     (\<exists>bs. dbuffer_contents (cbuffer cg') = dbuffer_contents (cbuffer cg) @ bs \<and> code_of bs is \<and>
        length bs \<le> 4 * length is) \<and>
     (\<forall>m. dbuffer_room (cbuffer cg) m \<longrightarrow> 4 * length is \<le> m \<longrightarrow> dbuffer_room (cbuffer cg') (m - 4 * length is))"

lemma dbuffer_room_mono: "dbuffer_room db n \<Longrightarrow> m \<le> n \<Longrightarrow> dbuffer_room db m"
  by (auto simp: dbuffer_room_def split: if_splits)

lemma emitted_refl: "dbuffer_wf (cbuffer cg) \<Longrightarrow> cbuffer cg' = cbuffer cg \<Longrightarrow> emitted cg cg' []"
  by (simp add: emitted_def)

lemma emitted_trans:
  assumes "emitted cg1 cg2 is" and "emitted cg2 cg3 js"
  shows "emitted cg1 cg3 (is @ js)"
proof -
  obtain bs cs where bs: "dbuffer_contents (cbuffer cg2) = dbuffer_contents (cbuffer cg1) @ bs" "code_of bs is"
      "length bs \<le> 4 * length is"
    and cs: "dbuffer_contents (cbuffer cg3) = dbuffer_contents (cbuffer cg2) @ cs" "code_of cs js"
      "length cs \<le> 4 * length js" using assms by (auto simp: emitted_def)
  have "dbuffer_room (cbuffer cg3) (m - 4 * length (is @ js))"
    if "dbuffer_room (cbuffer cg1) m" "4 * length (is @ js) \<le> m" for m
  proof -
    have "dbuffer_room (cbuffer cg2) (m - 4 * length is)" using assms(1) that by (simp add: emitted_def)
    moreover have "4 * length js \<le> m - 4 * length is" using that(2) by simp
    ultimately have "dbuffer_room (cbuffer cg3) (m - 4 * length is - 4 * length js)"
      using assms(2) unfolding emitted_def by blast
    then show ?thesis by (simp add: distrib_left)
  qed
  moreover have "\<exists>ds. dbuffer_contents (cbuffer cg3) = dbuffer_contents (cbuffer cg1) @ ds \<and> code_of ds (is @ js) \<and>
      length ds \<le> 4 * length (is @ js)"
    using bs cs code_of_append [OF bs(2) cs(2)] by (intro exI [of _ "bs @ cs"]) simp
  ultimately show ?thesis using assms(2) by (simp add: emitted_def)
qed

lemma emitted_cong: "cbuffer cg1' = cbuffer cg1 \<Longrightarrow> cbuffer cg2' = cbuffer cg2 \<Longrightarrow>
    emitted cg1' cg2' is = emitted cg1 cg2 is"
  by (simp add: emitted_def)

lemma encodes_bytes:
  assumes "encodes f i" and "sink.emits f bs"
  shows "decode (bs @ rest) = Some (i, rest)"
proof -
  have "dbuffer_room dbuffer_init 16"
    by (simp add: dbuffer_room_def dbuffer_init_def dbuffer_initSize_def DBUFFER_INIT_def)
  with assms(1) obtain db cs where "f dbuffer_init = Inr db" "dbuffer_contents db = dbuffer_contents dbuffer_init @ cs"
    "\<And>rest. decode (cs @ rest) = Some (i, rest)" unfolding encodes_def using dbuffer_init_wf by blast
  with sink.emitsD [OF assms(2) dbuffer_init_wf] show ?thesis by fastforce
qed

lemma emit_code_emitted:
  assumes "encodes f i" and "sink.emits f bs" and "length bs \<le> 4"
    and "dbuffer_wf (cbuffer cg)" and "dbuffer_room (cbuffer cg) n" and "4 \<le> n"
  obtains db where "emit_code f cg = Inr (cg\<lparr>cbuffer := db\<rparr>)" and "emitted cg (cg\<lparr>cbuffer := db\<rparr>) [i]"
proof -
  have "length bs \<le> n" using assms(3,6) by simp
  from sink.emits_total [OF assms(2,4,5) this] obtain db where db: "f (cbuffer cg) = Inr db" "dbuffer_wf db"
    "dbuffer_contents db = dbuffer_contents (cbuffer cg) @ bs" by auto
  have "dbuffer_room db (m - 4)" if "dbuffer_room (cbuffer cg) m" "4 \<le> m" for m
  proof -
    have "length bs \<le> m" using assms(3) that(2) by simp
    from sink.emits_total [OF assms(2,4) that(1) this] db(1) have "dbuffer_room db (m - length bs)" by auto
    then show ?thesis by (rule dbuffer_room_mono) (use assms(3) in simp)
  qed
  then have "emitted cg (cg\<lparr>cbuffer := db\<rparr>) [i]"
    using db assms(3) encodes_bytes [OF assms(1,2)] by (auto simp: emitted_def intro!: exI [of _ bs])
  with db(1) that show ?thesis by (simp add: emit_code_def)
qed

section \<open>The tables of the allocator\<close>

text \<open>
  \<open>S\<close> are the variables in registers. Every variable is in exactly one place: in the register whose
  table entry names it, or in a slot of its own.
\<close>

definition tables_ok :: "nat \<Rightarrow> ptr list \<Rightarrow> (ptr \<Rightarrow> variable option) \<Rightarrow> nat \<Rightarrow> ptr set \<Rightarrow> bool" where
  "tables_ok n st vs fs S \<longleftrightarrow> n \<le> length realRegs \<and> length st = n \<and> vs 0 = None \<and> S \<subseteq> dom vs \<and>
     (\<forall>v var. vs v = Some var \<longrightarrow> v \<in> S \<longrightarrow> 0 \<le> var_reg var \<and> var_reg var < int n \<and> st ! nat (var_reg var) = v) \<and>
     (\<forall>i < n. st ! i \<noteq> 0 \<longrightarrow> st ! i \<in> S \<and> (\<exists>var. vs (st ! i) = Some var \<and> var_reg var = int i)) \<and>
     (\<forall>v var. vs v = Some var \<longrightarrow> v \<notin> S \<longrightarrow> var_reg var = - 1 \<and> 0 < stackPos var) \<and>
     (\<forall>v var. vs v = Some var \<longrightarrow> stackPos var = - 1 \<or> 0 < stackPos var \<and> stackPos var \<le> int fs) \<and>
     (\<forall>u v var var'. vs u = Some var \<longrightarrow> vs v = Some var' \<longrightarrow> 0 < stackPos var \<longrightarrow> stackPos var = stackPos var' \<longrightarrow> u = v)"

lemma tables_okI:
  assumes "n \<le> length realRegs" and "length st = n" and "vs 0 = None" and "S \<subseteq> dom vs"
    and "\<And>v var. vs v = Some var \<Longrightarrow> v \<in> S \<Longrightarrow>
      0 \<le> var_reg var \<and> var_reg var < int n \<and> st ! nat (var_reg var) = v"
    and "\<And>i. i < n \<Longrightarrow> st ! i \<noteq> 0 \<Longrightarrow> st ! i \<in> S \<and> (\<exists>var. vs (st ! i) = Some var \<and> var_reg var = int i)"
    and "\<And>v var. vs v = Some var \<Longrightarrow> v \<notin> S \<Longrightarrow> var_reg var = - 1 \<and> 0 < stackPos var"
    and "\<And>v var. vs v = Some var \<Longrightarrow> stackPos var = - 1 \<or> 0 < stackPos var \<and> stackPos var \<le> int fs"
    and "\<And>u v var var'. vs u = Some var \<Longrightarrow> vs v = Some var' \<Longrightarrow> 0 < stackPos var \<Longrightarrow>
      stackPos var = stackPos var' \<Longrightarrow> u = v"
  shows "tables_ok n st vs fs S"
  using assms unfolding tables_ok_def by blast

lemma tables_D:
  assumes "tables_ok n st vs fs S"
  shows "n \<le> length realRegs" and "length st = n" and "vs 0 = None" and "S \<subseteq> dom vs"
    and "vs v = Some var \<Longrightarrow> v \<in> S \<Longrightarrow> 0 \<le> var_reg var \<and> var_reg var < int n \<and> st ! nat (var_reg var) = v"
    and "i < n \<Longrightarrow> st ! i \<noteq> 0 \<Longrightarrow> st ! i \<in> S \<and> (\<exists>var. vs (st ! i) = Some var \<and> var_reg var = int i)"
    and "vs v = Some var \<Longrightarrow> v \<notin> S \<Longrightarrow> var_reg var = - 1 \<and> 0 < stackPos var"
    and "vs v = Some var \<Longrightarrow> stackPos var = - 1 \<or> 0 < stackPos var \<and> stackPos var \<le> int fs"
    and "vs u = Some var \<Longrightarrow> vs v = Some var' \<Longrightarrow> 0 < stackPos var \<Longrightarrow> stackPos var = stackPos var' \<Longrightarrow> u = v"
  using assms unfolding tables_ok_def by blast+

lemma tables_nz: "tables_ok n st vs fs S \<Longrightarrow> vs v = Some var \<Longrightarrow> v \<noteq> 0"
  by (metis option.distinct(1) tables_D(3))

text \<open>A variable moves from its register to a slot.\<close>

lemma tables_store:
  assumes t: "tables_ok n st vs fs S" and v: "vs v = Some var" "v \<in> S"
    and fs: "fs' = (if stackPos var < 0 then fs + 1 else fs)"
    and sp: "sp = (if stackPos var < 0 then int fs + 1 else stackPos var)"
  shows "tables_ok n (st[nat (var_reg var) := 0]) (vs(v \<mapsto> var\<lparr>stackPos := sp, var_reg := - 1\<rparr>)) fs' (S - {v})"
proof -
  let ?r = "nat (var_reg var)" and ?vs = "vs(v \<mapsto> var\<lparr>stackPos := sp, var_reg := - 1\<rparr>)"
  have r: "0 \<le> var_reg var" "var_reg var < int n" "st ! ?r = v" using tables_D(5) [OF t v] by auto
  have sp0: "0 < sp" "sp \<le> int fs'" "int fs \<le> int fs'" using tables_D(8) [OF t v(1)] fs sp by auto
  have new: "stackPos w \<noteq> sp" if "vs u = Some w" "u \<noteq> v" for u w
  proof (cases "stackPos var < 0")
    case True
    then show ?thesis using tables_D(8) [OF t that(1)] sp by auto
  next
    case False
    then have "sp = stackPos var" "0 < stackPos var" using sp tables_D(8) [OF t v(1)] by auto
    then show ?thesis using tables_D(9) [OF t v(1) that(1)] that(2) by auto
  qed
  show ?thesis
  proof (rule tables_okI)
    show "n \<le> length realRegs" "length (st[?r := 0]) = n" using tables_D(1,2) [OF t] by auto
    show "?vs 0 = None" using tables_D(3) [OF t] tables_nz [OF t v(1)] by simp
    show "S - {v} \<subseteq> dom ?vs" using tables_D(4) [OF t] by auto
  next
    fix u w assume u: "?vs u = Some w" "u \<in> S - {v}"
    then have w: "vs u = Some w" "u \<in> S" by auto
    with tables_D(5) [OF t w] r(3) u(2) have "nat (var_reg w) \<noteq> ?r" by auto
    with tables_D(5) [OF t w] show "0 \<le> var_reg w \<and> var_reg w < int n \<and> st[?r := 0] ! nat (var_reg w) = u" by simp
  next
    fix i assume i: "i < n" "st[?r := 0] ! i \<noteq> 0"
    then have ir: "i \<noteq> ?r" using tables_D(2) [OF t] by auto
    with i obtain w where w: "st ! i \<in> S" "vs (st ! i) = Some w" "var_reg w = int i"
      using tables_D(6) [OF t i(1)] by auto
    then have "st ! i \<noteq> v" using ir v(1) by auto
    with w ir show "st[?r := 0] ! i \<in> S - {v} \<and> (\<exists>x. ?vs (st[?r := 0] ! i) = Some x \<and> var_reg x = int i)" by simp
  next
    fix u w assume "?vs u = Some w" "u \<notin> S - {v}"
    then show "var_reg w = - 1 \<and> 0 < stackPos w" using tables_D(7) [OF t] sp0 by (auto split: if_splits)
  next
    fix u w assume "?vs u = Some w"
    then show "stackPos w = - 1 \<or> 0 < stackPos w \<and> stackPos w \<le> int fs'"
      using tables_D(8) [OF t, of u w] sp0 by (auto split: if_splits)
  next
    fix u x w y assume "?vs u = Some w" "?vs x = Some y" "0 < stackPos w" "stackPos w = stackPos y"
    then show "u = x"
    proof (cases "u = v"; cases "x = v")
      assume "u = v" "x \<noteq> v"
      then show ?thesis using new [of x y] \<open>?vs u = Some w\<close> \<open>?vs x = Some y\<close> \<open>stackPos w = stackPos y\<close> by auto
    next
      assume "u \<noteq> v" "x = v"
      then show ?thesis using new [of u w] \<open>?vs u = Some w\<close> \<open>?vs x = Some y\<close> \<open>stackPos w = stackPos y\<close> by auto
    next
      assume "u \<noteq> v" "x \<noteq> v"
      then have "vs u = Some w" "vs x = Some y" using \<open>?vs u = Some w\<close> \<open>?vs x = Some y\<close> by simp_all
      from tables_D(9) [OF t this \<open>0 < stackPos w\<close> \<open>stackPos w = stackPos y\<close>] show ?thesis .
    qed simp
  qed
qed

text \<open>A variable is put into a free register: a new one, or one that was in a slot.\<close>

lemma tables_put:
  assumes t: "tables_ok n st vs fs S" and v: "v \<noteq> 0" "v \<notin> S" and i: "i < n" "st ! i = 0"
    and var: "var_reg var = int i" "stackPos var = - 1 \<or> 0 < stackPos var \<and> stackPos var \<le> int fs"
    and own: "\<And>u w. vs u = Some w \<Longrightarrow> u \<noteq> v \<Longrightarrow> 0 < stackPos var \<Longrightarrow> stackPos w \<noteq> stackPos var"
  shows "tables_ok n (st[i := v]) (vs(v \<mapsto> var)) fs (insert v S)"
proof -
  let ?vs = "vs(v \<mapsto> var)"
  show ?thesis
  proof (rule tables_okI)
    show "n \<le> length realRegs" "length (st[i := v]) = n" using tables_D(1,2) [OF t] by auto
    show "?vs 0 = None" using tables_D(3) [OF t] v(1) by simp
    show "insert v S \<subseteq> dom ?vs" using tables_D(4) [OF t] by auto
  next
    fix u w assume u: "?vs u = Some w" "u \<in> insert v S"
    show "0 \<le> var_reg w \<and> var_reg w < int n \<and> st[i := v] ! nat (var_reg w) = u"
    proof (cases "u = v")
      case True
      then show ?thesis using u i var(1) tables_D(2) [OF t] by auto
    next
      case False
      then have w: "vs u = Some w" "u \<in> S" using u by auto
      then have "u \<noteq> 0" using tables_nz [OF t] by blast
      then have "nat (var_reg w) \<noteq> i" using tables_D(5) [OF t w] i(2) by auto
      then show ?thesis using tables_D(5) [OF t w] by simp
    qed
  next
    fix k assume k: "k < n" "st[i := v] ! k \<noteq> 0"
    show "st[i := v] ! k \<in> insert v S \<and> (\<exists>x. ?vs (st[i := v] ! k) = Some x \<and> var_reg x = int k)"
    proof (cases "k = i")
      case True
      then show ?thesis using k var(1) tables_D(2) [OF t] by simp
    next
      case False
      then obtain w where "st ! k \<in> S" "vs (st ! k) = Some w" "var_reg w = int k"
        using k tables_D(6) [OF t k(1)] by auto
      then show ?thesis using False v(2) by auto
    qed
  next
    fix u w assume "?vs u = Some w" "u \<notin> insert v S"
    then show "var_reg w = - 1 \<and> 0 < stackPos w" using tables_D(7) [OF t, of u w] by auto
  next
    fix u w assume "?vs u = Some w"
    then show "stackPos w = - 1 \<or> 0 < stackPos w \<and> stackPos w \<le> int fs"
      using tables_D(8) [OF t, of u w] var(2) by (auto split: if_splits)
  next
    fix u x w y assume a: "?vs u = Some w" "?vs x = Some y" "0 < stackPos w" "stackPos w = stackPos y"
    show "u = x"
    proof (cases "u = v"; cases "x = v")
      assume "u = v" "x \<noteq> v"
      then show ?thesis using own [of x y] a by auto
    next
      assume "u \<noteq> v" "x = v"
      then show ?thesis using own [of u w] a by auto
    next
      assume "u \<noteq> v" "x \<noteq> v"
      then have "vs u = Some w" "vs x = Some y" using a by simp_all
      from tables_D(9) [OF t this a(3,4)] show ?thesis .
    qed simp
  qed
qed

lemma tables_load:
  assumes t: "tables_ok n st vs fs S" and v: "vs v = Some var" "v \<notin> S" and i: "i < n" "st ! i = 0"
  shows "tables_ok n (st[i := v]) (vs(v \<mapsto> var\<lparr>var_reg := int i\<rparr>)) fs (insert v S)"
proof (rule tables_put [OF t tables_nz [OF t v(1)] v(2) i])
  show "stackPos (var\<lparr>var_reg := int i\<rparr>) = - 1 \<or>
      0 < stackPos (var\<lparr>var_reg := int i\<rparr>) \<and> stackPos (var\<lparr>var_reg := int i\<rparr>) \<le> int fs"
    using tables_D(8) [OF t v(1)] by simp
  show "stackPos w \<noteq> stackPos (var\<lparr>var_reg := int i\<rparr>)"
    if "vs u = Some w" "u \<noteq> v" "0 < stackPos (var\<lparr>var_reg := int i\<rparr>)" for u w
    using tables_D(9) [OF t v(1) that(1)] that(2,3) by auto
qed simp

section \<open>Running what the allocator emits\<close>

text \<open>Where the tables say a variable is, the machine has its value.\<close>

definition real :: "int \<Rightarrow> nat" where
  "real i = realRegs ! nat i"

definition holds :: "codegen \<Rightarrow> machine \<Rightarrow> (ptr \<Rightarrow> 64 word) \<Rightarrow> bool" where
  "holds cg m vals \<longleftrightarrow> (\<forall>v var. cg_vars cg v = Some var \<longrightarrow>
     (if 0 \<le> var_reg var then mregs m (real (var_reg var)) else mslots m (- stackPos var)) = vals v)"

lemma holdsD: "holds cg m vals \<Longrightarrow> cg_vars cg v = Some var \<Longrightarrow>
    (if 0 \<le> var_reg var then mregs m (real (var_reg var)) else mslots m (- stackPos var)) = vals v"
  by (simp add: holds_def)

definition cg_ok :: "codegen \<Rightarrow> ptr list \<Rightarrow> bool" where
  "cg_ok cg L \<longleftrightarrow>
     tables_ok (registerCount cg) (registerStatus cg) (cg_vars cg) (frameSize cg) (set L) \<and>
     ring (cg_cells cg) (lruVariables cg) L \<and> dom (cg_vars cg) \<subseteq> dom (cg_cells cg) \<and>
     lruVariables cg \<notin> dom (cg_vars cg) \<and> (\<forall>p \<in> dom (cg_cells cg). p < cg_top cg) \<and> dbuffer_wf (cbuffer cg)"

lemma cg_ok_D:
  assumes "cg_ok cg L"
  shows "tables_ok (registerCount cg) (registerStatus cg) (cg_vars cg) (frameSize cg) (set L)"
    and "ring (cg_cells cg) (lruVariables cg) L" and "dom (cg_vars cg) \<subseteq> dom (cg_cells cg)"
    and "lruVariables cg \<notin> dom (cg_vars cg)" and "p \<in> dom (cg_cells cg) \<Longrightarrow> p < cg_top cg"
    and "dbuffer_wf (cbuffer cg)"
  using assms unfolding cg_ok_def by blast+

lemma realRegs_less: "i < length realRegs \<Longrightarrow> realRegs ! i < 13 \<and> realRegs ! i \<noteq> 5"
proof -
  have "\<forall>i < 10. realRegs ! i < 13 \<and> realRegs ! i \<noteq> 5"
    by (simp add: realRegs_def All_less_Suc2 numeral_eq_Suc)
  then show "i < length realRegs \<Longrightarrow> realRegs ! i < 13 \<and> realRegs ! i \<noteq> 5" by (simp add: realRegs_def)
qed

lemma real_inj: "0 \<le> i \<Longrightarrow> i < int (length realRegs) \<Longrightarrow> 0 \<le> j \<Longrightarrow> j < int (length realRegs) \<Longrightarrow>
    real i = real j \<longleftrightarrow> i = j"
proof -
  have "distinct realRegs" by (simp add: realRegs_def)
  then show "0 \<le> i \<Longrightarrow> i < int (length realRegs) \<Longrightarrow> 0 \<le> j \<Longrightarrow> j < int (length realRegs) \<Longrightarrow>
      real i = real j \<longleftrightarrow> i = j"
    by (simp add: real_def nth_eq_iff_index_eq nat_less_iff eq_nat_nat_iff)
qed

lemma number64_list: "n < 16 \<Longrightarrow> number64 (reg64_list ! n) = n"
proof -
  have "map number64 reg64_list = [0 ..< 16]" by (simp add: reg64_list_def number64_def regno_def upt_rec)
  then have "map number64 reg64_list ! n = [0 ..< 16] ! n" by simp
  moreover have "length reg64_list = 16" by (simp add: reg64_list_def)
  ultimately show "n < 16 \<Longrightarrow> number64 (reg64_list ! n) = n" by simp
qed

lemma getRealReg_ok:
  assumes "0 \<le> i" and "i < int (length realRegs)"
  obtains r where "getRealReg i = Inr r" and "number64 r = real i" and "real i \<noteq> 5" and "real i < 13"
proof -
  have "nat i < length realRegs" using assms by simp
  then have "real i < 13" "real i \<noteq> 5" using realRegs_less [of "nat i"] by (auto simp: real_def)
  moreover have "number64 (reg64_list ! (realRegs ! nat i)) = real i"
    using number64_list [of "real i"] \<open>real i < 13\<close> by (simp add: real_def)
  ultimately show ?thesis using that assms by (simp add: getRealReg_def)
qed

lemma real_low: "0 \<le> i \<Longrightarrow> i < 5 \<Longrightarrow> real i < 8"
proof -
  have "\<forall>i < (5::nat). realRegs ! i < 8" by (simp add: realRegs_def All_less_Suc2 numeral_eq_Suc)
  then show "0 \<le> i \<Longrightarrow> i < 5 \<Longrightarrow> real i < 8" by (simp add: real_def nat_less_iff)
qed

text \<open>A slot up to the sixteenth is in reach of the signed 8-bit displacement.\<close>

lemma sint8: "- 128 \<le> k \<Longrightarrow> k < 128 \<Longrightarrow> sint (word_of_int k :: byte) = k"
  by (simp add: signed_of_int signed_take_bit_int_eq_self)

lemma slot_disp_ok:
  assumes "0 < stackPos var" and "stackPos var \<le> 16"
  shows "sint (slot_disp var) mod 8 = 0" and "sint (slot_disp var) div 8 = - stackPos var"
proof -
  have "sint (slot_disp var) = - stackPos var * 8"
    using assms sint8 [of "- stackPos var * 8"] unfolding slot_disp_def by simp
  then show "sint (slot_disp var) mod 8 = 0" "sint (slot_disp var) div 8 = - stackPos var" by simp_all
qed

section \<open>The list of the variables in registers\<close>

lemma lru_deattach_ring:
  assumes "ring (cg_cells cg) (lruVariables cg) (us @ v # vs)"
  obtains cs where "lru_deattach cg v = Inr (cg\<lparr>cg_cells := cs\<rparr>)" and "ring cs (lruVariables cg) (us @ vs)"
    and "dom cs = dom (cg_cells cg)"
  using il.deattach_law [OF assms] il.same_cells unfolding lru_deattach_def by fastforce

lemma lru_add_ring:
  assumes "ring (cg_cells cg) (lruVariables cg) xs" and "v \<in> dom (cg_cells cg)" and "v \<notin> set (lruVariables cg # xs)"
  obtains cs where "lru_add cg v = Inr (cg\<lparr>cg_cells := cs\<rparr>)" and "ring cs (lruVariables cg) (xs @ [v])"
    and "dom cs = dom (cg_cells cg)"
  using il.add_law [OF assms] il.same_cells unfolding lru_add_def by fastforce

lemma lruBump_ring:
  assumes r: "ring (cg_cells cg) (lruVariables cg) (us @ v # vs)"
  obtains cs where "lruBump cg v = Inr (cg\<lparr>cg_cells := cs\<rparr>)" and "ring cs (lruVariables cg) (us @ vs @ [v])"
    and "dom cs = dom (cg_cells cg)"
proof -
  obtain cs where cs: "lru_deattach cg v = Inr (cg\<lparr>cg_cells := cs\<rparr>)" "ring cs (lruVariables cg) (us @ vs)"
    "dom cs = dom (cg_cells cg)" using lru_deattach_ring [OF r] .
  have v: "v \<in> dom cs" "v \<notin> set (lruVariables cg # us @ vs)"
    using il.rep_distinct [OF r] il.rep_cells [OF r] cs(3) by auto
  obtain ds where "lru_add (cg\<lparr>cg_cells := cs\<rparr>) v = Inr (cg\<lparr>cg_cells := ds\<rparr>)" "ring ds (lruVariables cg) (us @ vs @ [v])"
    "dom ds = dom cs" using lru_add_ring [of "cg\<lparr>cg_cells := cs\<rparr>" "us @ vs" v] cs(2) v by auto
  with cs(1,3) that show ?thesis by (simp add: lruBump_def)
qed

lemma remove1_place: "distinct (us @ v # vs) \<Longrightarrow> remove1 v (us @ v # vs) = us @ vs"
  by (simp add: remove1_append)

section \<open>The operations on consistent tables\<close>

text \<open>\<open>runs cg cg' is\<close>: the code added is \<open>is\<close>, and running it moves the values to where the new tables look.\<close>

definition runs :: "codegen \<Rightarrow> codegen \<Rightarrow> insn list \<Rightarrow> bool" where
  "runs cg cg' is \<longleftrightarrow> emitted cg cg' is \<and>
     (\<forall>m vals. holds cg m vals \<longrightarrow> (\<exists>m'. exec_insns is m = Some m' \<and> holds cg' m' vals))"

lemma runs_trans: "runs cg1 cg2 is \<Longrightarrow> runs cg2 cg3 js \<Longrightarrow> runs cg1 cg3 (is @ js)"
  unfolding runs_def using emitted_trans by (fastforce simp: exec_append)

lemma runs_refl: "dbuffer_wf (cbuffer cg) \<Longrightarrow> cbuffer cg' = cbuffer cg \<Longrightarrow> cg_vars cg' = cg_vars cg \<Longrightarrow> runs cg cg' []"
  by (simp add: runs_def emitted_refl holds_def)

lemma runs_room: "runs cg cg' is \<Longrightarrow> dbuffer_room (cbuffer cg) k \<Longrightarrow> 4 * length is \<le> k \<Longrightarrow>
    dbuffer_room (cbuffer cg') (k - 4 * length is)"
  unfolding runs_def emitted_def by blast

lemma runs_wf: "runs cg cg' is \<Longrightarrow> dbuffer_wf (cbuffer cg')"
  unfolding runs_def emitted_def by blast

lemma store_ok:
  assumes ok: "cg_ok cg L" and v: "cg_vars cg v = Some var" "v \<in> set L"
    and fs: "frameSize cg + length L \<le> 16" and room: "dbuffer_room (cbuffer cg) k" "4 \<le> k"
  obtains cg' i where "variable_store (Suc (Suc (Suc f))) cg v = Inr cg'" and "cg_ok cg' (remove1 v L)"
    and "runs cg cg' [i]" and "registerStatus cg' = (registerStatus cg)[nat (var_reg var) := 0]"
    and "registerCount cg' = registerCount cg" and "frameSize cg' + length (remove1 v L) \<le> 16"
    and "frameSize cg' \<le> frameSize cg + 1" and "dom (cg_vars cg') = dom (cg_vars cg)"
proof -
  let ?r = "var_reg var"
  define sp where "sp = (if stackPos var < 0 then int (frameSize cg) + 1 else stackPos var)"
  define fs' where "fs' = (if stackPos var < 0 then frameSize cg + 1 else frameSize cg)"
  define cg1 where "cg1 = cg\<lparr>cg_vars := (cg_vars cg)(v \<mapsto> var\<lparr>stackPos := sp\<rparr>), frameSize := fs'\<rparr>"
  note t = cg_ok_D(1) [OF ok] and ring = cg_ok_D(2) [OF ok]
  have L: "L \<noteq> []" using v(2) by auto
  have r: "0 \<le> ?r" "?r < int (registerCount cg)" "registerCount cg \<le> length realRegs"
    "length (registerStatus cg) = registerCount cg" using tables_D(5) [OF t v] tables_D(1,2) [OF t] by auto
  have sp: "0 < sp" "sp \<le> 16" using tables_D(8) [OF t v(1)] fs L unfolding sp_def by (cases L; auto)+
  obtain us vs where us: "L = us @ v # vs" using v(2) by (auto simp: in_set_conv_decomp)
  have rem: "remove1 v L = us @ vs" using il.rep_distinct [OF ring] unfolding us by (intro remove1_place) simp
  obtain cs where cs: "lruBump cg1 v = Inr (cg1\<lparr>cg_cells := cs\<rparr>)" "ring cs (lruVariables cg) (us @ vs @ [v])"
    "dom cs = dom (cg_cells cg)" using lruBump_ring [of cg1 us v vs] ring us by (auto simp: cg1_def)
  obtain reg where reg: "getRealReg ?r = Inr reg" "number64 reg = real ?r" "real ?r \<noteq> 5" "real ?r < 13"
    using getRealReg_ok [of ?r] r by auto
  let ?d = "slot_disp (var\<lparr>stackPos := sp\<rparr>)"
  have d: "sint ?d mod 8 = 0" "sint ?d div 8 = - sp" using slot_disp_ok [of "var\<lparr>stackPos := sp\<rparr>"] sp by auto
  let ?cg2 = "cg1\<lparr>cg_cells := cs\<rparr>"
  have buf: "cbuffer ?cg2 = cbuffer cg" by (simp add: cg1_def)
  obtain db where db: "emit_code (\<lambda>db. emit_storeRegRBP64 db reg ?d) ?cg2 = Inr (?cg2\<lparr>cbuffer := db\<rparr>)"
    "emitted ?cg2 (?cg2\<lparr>cbuffer := db\<rparr>) [Mov_store True 5 ?d (real ?r)]"
    using emit_code_emitted [OF encodes_storeRegRBP64 [of reg ?d] emits_storeRegRBP64, where cg = ?cg2 and n = k] cg_ok_D(6) [OF ok]
      room reg(2) buf by auto
  obtain ds where ds: "lru_deattach (?cg2\<lparr>cbuffer := db\<rparr>) v = Inr (?cg2\<lparr>cbuffer := db, cg_cells := ds\<rparr>)"
    "ring ds (lruVariables cg) (us @ vs)" "dom ds = dom (cg_cells cg)"
    using lru_deattach_ring [of "?cg2\<lparr>cbuffer := db\<rparr>" "us @ vs" v "[]"] cs by (auto simp: cg1_def)
  define cg' where "cg' = cg\<lparr>cg_vars := (cg_vars cg)(v \<mapsto> var\<lparr>stackPos := sp, var_reg := - 1\<rparr>), frameSize := fs',
     cbuffer := db, cg_cells := ds, registerStatus := (registerStatus cg)[nat ?r := 0]\<rparr>"
  have ref: "variable_ref (Suc f) cg1 v = Inr (?cg2, ?r)"
    using cs(1) r(1) by (simp add: get_var_def cg1_def)
  have st: "arch_store (Suc (Suc f)) cg1 v = Inr (?cg2\<lparr>cbuffer := db\<rparr>)"
    using ref sp(1) reg(1) db(1) by (simp add: get_var_def arch_getRealReg_def, simp add: cg1_def)
  have eq: "(if stackPos var < 0
        then set_var (cg\<lparr>frameSize := frameSize cg + 1\<rparr>) v (var\<lparr>stackPos := int (frameSize cg + 1)\<rparr>) else cg) = cg1"
    using v(1) by (simp add: set_var_def cg1_def sp_def fs'_def fun_upd_idem add.commute)
  have run: "variable_store (Suc (Suc (Suc f))) cg v = Inr cg'"
    unfolding variable_store.simps using v(1) st ds(1) r
    by (simp add: get_var_def eq [simplified], simp add: cg1_def cg'_def set_status_def set_var_def)
  have set: "set (us @ vs) = set L - {v}" using us il.rep_distinct [OF ring] by auto
  have "cg_ok cg' (remove1 v L)"
    using tables_store [OF t v fs'_def sp_def] ds cg_ok_D(3-5) [OF ok] db(2) v(1) unfolding rem cg_ok_def set
    by (auto simp: cg'_def emitted_def)
  moreover have "runs cg cg' [Mov_store True 5 ?d (real ?r)]"
    unfolding runs_def
  proof (intro conjI allI impI)
    show "emitted cg cg' [Mov_store True 5 ?d (real ?r)]"
      using db(2) emitted_cong [of cg ?cg2 cg' "?cg2\<lparr>cbuffer := db\<rparr>"] by (simp add: cg1_def cg'_def)
    fix m vals assume h: "holds cg m vals"
    let ?m = "m\<lparr>mslots := (mslots m)(- sp := mregs m (real ?r))\<rparr>"
    have val: "mregs m (real ?r) = vals v" using holdsD [OF h v(1)] r(1) by simp
    have "holds cg' ?m vals" unfolding holds_def
    proof (intro allI impI)
      fix u w assume u: "cg_vars cg' u = Some w"
      show "(if 0 \<le> var_reg w then mregs ?m (real (var_reg w)) else mslots ?m (- stackPos w)) = vals u"
      proof (cases "u = v")
        case True
        with u val show ?thesis by (auto simp: cg'_def)
      next
        case False
        with u have w: "cg_vars cg u = Some w" by (simp add: cg'_def)
        moreover have "stackPos w \<noteq> sp" if "\<not> 0 \<le> var_reg w"
        proof (cases "stackPos var < 0")
          case True
          then show ?thesis using tables_D(8) [OF t w] by (auto simp: sp_def)
        next
          case False
          then show ?thesis using tables_D(9) [OF t v(1) w] sp \<open>u \<noteq> v\<close> by (auto simp: sp_def)
        qed
        ultimately show ?thesis using holdsD [OF h w] by auto
      qed
    qed
    then show "\<exists>m'. exec_insns [Mov_store True 5 ?d (real ?r)] m = Some m' \<and> holds cg' m' vals" using d by simp
  qed
  moreover have "fs' + length (remove1 v L) \<le> 16" "fs' \<le> frameSize cg + 1" using fs us rem by (auto simp: fs'_def)
  ultimately show ?thesis using that [OF run] v(1) by (auto simp: cg'_def)
qed

text \<open>A register is free already, or the variable used least recently is stored.\<close>

lemma allocateReg_ok:
  assumes ok: "cg_ok cg L" and n: "0 < registerCount cg" and fs: "frameSize cg + length L \<le> 16"
    and room: "dbuffer_room (cbuffer cg) k" "4 \<le> k"
  obtains cg' L' i "is" where "codegen_allocateReg (Suc (Suc (Suc (Suc f)))) cg = Inr (cg', int i)" and "cg_ok cg' L'"
    and "runs cg cg' is" and "length is \<le> 1" and "i < registerCount cg" and "registerStatus cg' ! i = 0"
    and "registerCount cg' = registerCount cg" and "frameSize cg' + length L' \<le> 16"
    and "frameSize cg' \<le> frameSize cg + 1" and "dom (cg_vars cg') = dom (cg_vars cg)" and "set L' \<subseteq> set L"
proof (cases "find (\<lambda>i. registerStatus cg ! i = 0) [0 ..< registerCount cg]")
  case (Some i)
  then have "i < registerCount cg" "registerStatus cg ! i = 0" by (auto simp: find_Some_iff)
  with Some ok fs show ?thesis using that [of cg i L "[]"] runs_refl [OF cg_ok_D(6) [OF ok]] by simp
next
  case None
  then have full: "registerStatus cg ! 0 \<noteq> 0" using n by (auto simp: find_None_iff)
  note t = cg_ok_D(1) [OF ok] and ring = cg_ok_D(2) [OF ok]
  have "L \<noteq> []" using tables_D(6) [OF t n full] by auto
  then obtain v vs where L: "L = v # vs" by (cases L) auto
  obtain var where v: "cg_vars cg v = Some var" using tables_D(4) [OF t] L by auto
  have nx: "get_next (cg_cells cg) (lruVariables cg) = Inr v" using ring_links(1) [of "cg_cells cg" "lruVariables cg" "[]" "v # vs"] ring L by simp
  have r: "0 \<le> var_reg var" "var_reg var < int (registerCount cg)" using tables_D(5) [OF t v] L by auto
  obtain cg' i where s: "variable_store (Suc (Suc (Suc f))) cg v = Inr cg'" "cg_ok cg' (remove1 v L)" "runs cg cg' [i]"
    "registerStatus cg' = (registerStatus cg)[nat (var_reg var) := 0]" "registerCount cg' = registerCount cg"
    "frameSize cg' + length (remove1 v L) \<le> 16" "frameSize cg' \<le> frameSize cg + 1"
    "dom (cg_vars cg') = dom (cg_vars cg)"
    using store_ok [OF ok v _ fs room] L by (metis list.set_intros(1))
  have "codegen_allocateReg (Suc (Suc (Suc (Suc f)))) cg = Inr (cg', int (nat (var_reg var)))"
    using None nx v s(1) r(1) tables_nz [OF t v] by (simp add: get_var_def)
  from that [OF this s(2,3) _ _ _ s(5-8)] show ?thesis using r s(4) tables_D(2) [OF t] set_remove1_subset by force
qed

lemma ref_in_reg:
  assumes ok: "cg_ok cg L" and v: "cg_vars cg v = Some var" "0 \<le> var_reg var"
  obtains cs us vs where "L = us @ v # vs" and "variable_ref (Suc f) cg v = Inr (cg\<lparr>cg_cells := cs\<rparr>, var_reg var)"
    and "cg_ok (cg\<lparr>cg_cells := cs\<rparr>) (us @ vs @ [v])" and "runs cg (cg\<lparr>cg_cells := cs\<rparr>) []"
proof -
  have "v \<in> set L" using tables_D(7) [OF cg_ok_D(1) [OF ok] v(1)] v(2) by auto
  then obtain us vs where L: "L = us @ v # vs" by (auto simp: in_set_conv_decomp)
  obtain cs where cs: "lruBump cg v = Inr (cg\<lparr>cg_cells := cs\<rparr>)" "ring cs (lruVariables cg) (us @ vs @ [v])"
    "dom cs = dom (cg_cells cg)" using lruBump_ring cg_ok_D(2) [OF ok] L by metis
  have "set (us @ vs @ [v]) = set L" using L by auto
  then have "cg_ok (cg\<lparr>cg_cells := cs\<rparr>) (us @ vs @ [v])" using ok cs unfolding cg_ok_def by simp
  with L cs(1) v runs_refl [OF cg_ok_D(6) [OF ok]] show ?thesis by (intro that) (simp_all add: get_var_def)
qed

lemma ref_load:
  assumes ok: "cg_ok cg L" and v: "cg_vars cg v = Some var" "v \<notin> set L" and i: "i < registerCount cg" "i < 5"
    and free: "registerStatus cg ! i = 0" and fs: "frameSize cg \<le> 16"
    and room: "dbuffer_room (cbuffer cg) k" "4 \<le> k"
  obtains cg' ins where "bindE (set_status (set_var cg v (var\<lparr>var_reg := int i\<rparr>)) (int i) v) (\<lambda>cg.
      bindE (arch_loadReg cg v) (\<lambda>cg. bindE (lru_add cg v) (\<lambda>cg. Inr (cg, int i)))) = Inr (cg', int i)"
    and "cg_ok cg' (L @ [v])" and "runs cg cg' [ins]" and "registerCount cg' = registerCount cg"
    and "frameSize cg' = frameSize cg" and "cg_vars cg' = (cg_vars cg)(v \<mapsto> var\<lparr>var_reg := int i\<rparr>)"
proof -
  note t = cg_ok_D(1) [OF ok] and ring = cg_ok_D(2) [OF ok]
  let ?var = "var\<lparr>var_reg := int i\<rparr>" and ?d = "slot_disp (var\<lparr>var_reg := int i\<rparr>)"
  have var: "var_reg var = - 1" "0 < stackPos var" "stackPos var \<le> 16"
    using tables_D(7) [OF t v] tables_D(8) [OF t v(1)] fs by auto
  have n: "int i < int (length realRegs)" "length (registerStatus cg) = registerCount cg"
    using tables_D(1,2) [OF t] i by auto
  obtain reg where reg: "getRealReg (int i) = Inr reg" "number64 reg = real (int i)" "real (int i) \<noteq> 5"
    using getRealReg_ok [of "int i"] n by auto
  have low: "real (int i) < 8" using real_low [of "int i"] i by simp
  have d: "sint ?d mod 8 = 0" "sint ?d div 8 = - stackPos var" using slot_disp_ok [of ?var] var by auto
  define cg1 where "cg1 = cg\<lparr>cg_vars := (cg_vars cg)(v \<mapsto> ?var), registerStatus := (registerStatus cg)[i := v]\<rparr>"
  let ?i = "Mov_load True (real (int i)) 5 ?d"
  have "encodes (\<lambda>db. emit_loadRegRBP64 db reg ?d) ?i"
    using encodes_loadRegRBP64 [of reg ?d] reg(2) low by simp
  from emit_code_emitted [OF this emits_loadRegRBP64, where cg = cg1 and n = k] obtain db where
    db: "emit_code (\<lambda>db. emit_loadRegRBP64 db reg ?d) cg1 = Inr (cg1\<lparr>cbuffer := db\<rparr>)" "emitted cg1 (cg1\<lparr>cbuffer := db\<rparr>) [?i]"
    using cg_ok_D(6) [OF ok] room by (auto simp: cg1_def)
  have cell: "v \<in> dom (cg_cells cg)" "v \<notin> set (lruVariables cg # L)"
    using cg_ok_D(3,4) [OF ok] v by auto
  obtain cs where cs: "lru_add (cg1\<lparr>cbuffer := db\<rparr>) v = Inr (cg1\<lparr>cbuffer := db, cg_cells := cs\<rparr>)"
    "ring cs (lruVariables cg) (L @ [v])" "dom cs = dom (cg_cells cg)"
    using lru_add_ring [of "cg1\<lparr>cbuffer := db\<rparr>" L v] ring cell by (auto simp: cg1_def)
  let ?cg' = "cg1\<lparr>cbuffer := db, cg_cells := cs\<rparr>"
  have ld: "arch_loadReg cg1 v = Inr (cg1\<lparr>cbuffer := db\<rparr>)"
    using var reg(1) db(1) by (simp add: arch_loadReg_def get_var_def arch_getRealReg_def, simp add: cg1_def)
  have st: "set_status (set_var cg v ?var) (int i) v = Inr cg1"
    using n i by (simp add: set_status_def set_var_def cg1_def)
  have ok': "cg_ok ?cg' (L @ [v])"
    using tables_load [OF t v i(1) free] cs cg_ok_D(3-5) [OF ok] db(2) v unfolding cg_ok_def
    by (auto simp: cg1_def emitted_def)
  have "runs cg ?cg' [?i]" unfolding runs_def
  proof (intro conjI allI impI)
    show "emitted cg ?cg' [?i]"
      using db(2) emitted_cong [of cg cg1 ?cg' "cg1\<lparr>cbuffer := db\<rparr>"] by (simp add: cg1_def)
    fix m vals assume h: "holds cg m vals"
    let ?m = "m\<lparr>mregs := (mregs m)(real (int i) := mslots m (- stackPos var))\<rparr>"
    have "holds ?cg' ?m vals" unfolding holds_def
    proof (intro allI impI)
      fix u w assume u: "cg_vars ?cg' u = Some w"
      show "(if 0 \<le> var_reg w then mregs ?m (real (var_reg w)) else mslots ?m (- stackPos w)) = vals u"
      proof (cases "u = v")
        case True
        with u holdsD [OF h v(1)] var show ?thesis by (auto simp: cg1_def)
      next
        case False
        with u have w: "cg_vars cg u = Some w" by (simp add: cg1_def)
        have "real (var_reg w) \<noteq> real (int i)" if "0 \<le> var_reg w"
        proof -
          have "u \<in> set L" using tables_D(7) [OF t w] that by auto
          from tables_D(5) [OF t w this] have "var_reg w < int (registerCount cg)" "registerStatus cg ! nat (var_reg w) = u"
            by auto
          moreover from this have "var_reg w \<noteq> int i" using free tables_nz [OF t w] by auto
          ultimately show ?thesis using real_inj [of "var_reg w" "int i"] that n tables_D(1) [OF t] by auto
        qed
        then show ?thesis using holdsD [OF h w] by auto
      qed
    qed
    then show "\<exists>m'. exec_insns [?i] m = Some m' \<and> holds ?cg' m' vals" using d reg(3) by simp
  qed
  from that [OF _ ok' this] show ?thesis using st ld cs(1) by (simp add: cg1_def)
qed

lemma ref_ok:
  assumes ok: "cg_ok cg L" and v: "cg_vars cg v = Some var" and n: "0 < registerCount cg" "registerCount cg \<le> 5"
    and fs: "frameSize cg + length L \<le> 16" and room: "dbuffer_room (cbuffer cg) k" "8 \<le> k"
  obtains cg' r L' "is" var' where "variable_ref (Suc (Suc (Suc (Suc (Suc f))))) cg v = Inr (cg', r)" and "cg_ok cg' (L' @ [v])"
    and "runs cg cg' is" and "length is \<le> 2" and "cg_vars cg' v = Some var'" and "var_reg var' = r"
    and "registerCount cg' = registerCount cg" and "frameSize cg' \<le> frameSize cg + 1"
proof (cases "0 \<le> var_reg var")
  case True
  from ref_in_reg [OF ok v this] obtain cs us vs where "L = us @ v # vs"
    "variable_ref (Suc (Suc (Suc (Suc (Suc f))))) cg v = Inr (cg\<lparr>cg_cells := cs\<rparr>, var_reg var)"
    "cg_ok (cg\<lparr>cg_cells := cs\<rparr>) (us @ vs @ [v])" "runs cg (cg\<lparr>cg_cells := cs\<rparr>) []" .
  with that [of "cg\<lparr>cg_cells := cs\<rparr>" "var_reg var" "us @ vs" "[]" var] v show ?thesis by simp
next
  case False
  then have vL: "v \<notin> set L" using tables_D(5) [OF cg_ok_D(1) [OF ok] v] by auto
  have "4 \<le> k" using room(2) by simp
  obtain cg1 L1 i "is" where a: "codegen_allocateReg (Suc (Suc (Suc (Suc f)))) cg = Inr (cg1, int i)" "cg_ok cg1 L1"
    "runs cg cg1 is" "length is \<le> 1" "i < registerCount cg" "registerStatus cg1 ! i = 0"
    "registerCount cg1 = registerCount cg" "frameSize cg1 + length L1 \<le> 16" "frameSize cg1 \<le> frameSize cg + 1"
    "dom (cg_vars cg1) = dom (cg_vars cg)" "set L1 \<subseteq> set L"
    using allocateReg_ok [OF ok n(1) fs room(1) \<open>4 \<le> k\<close>] .
  obtain var1 where v1: "cg_vars cg1 v = Some var1" using a(10) v by blast
  have vL1: "v \<notin> set L1" using vL a(11) by auto
  have "dbuffer_room (cbuffer cg1) (k - 4 * length is)" "4 \<le> k - 4 * length is"
    using runs_room [OF a(3) room(1)] a(4) room(2) by auto
  moreover have "i < registerCount cg1" "i < 5" "frameSize cg1 \<le> 16" using a n by auto
  ultimately obtain cg' ins where l: "bindE (set_status (set_var cg1 v (var1\<lparr>var_reg := int i\<rparr>)) (int i) v) (\<lambda>cg.
      bindE (arch_loadReg cg v) (\<lambda>cg. bindE (lru_add cg v) (\<lambda>cg. Inr (cg, int i)))) = Inr (cg', int i)"
    "cg_ok cg' (L1 @ [v])" "runs cg1 cg' [ins]" "registerCount cg' = registerCount cg1"
    "frameSize cg' = frameSize cg1" "cg_vars cg' = (cg_vars cg1)(v \<mapsto> var1\<lparr>var_reg := int i\<rparr>)"
    using ref_load [OF a(2) v1 vL1 _ _ a(6)] by metis
  have "variable_ref (Suc (Suc (Suc (Suc (Suc f))))) cg v = Inr (cg', int i)"
    unfolding variable_ref.simps using v v1 False a(1) l(1) by (simp add: get_var_def del: codegen_allocateReg.simps)
  from that [OF this l(2) runs_trans [OF a(3) l(3)]] show ?thesis using l a by simp
qed

lemma store_registers_ok:
  assumes "cg_ok cg L" and "frameSize cg + length L \<le> 16" and "dbuffer_room (cbuffer cg) k" and "4 * length L \<le> k"
    and "set is \<subseteq> {..< registerCount cg}" and "\<forall>j < registerCount cg. registerStatus cg ! j \<noteq> 0 \<longrightarrow> j \<in> set is"
  shows "\<exists>cg' js. store_registers (Suc (Suc (Suc f))) cg is = Inr cg' \<and> cg_ok cg' [] \<and> runs cg cg' js \<and>
    length js \<le> length L \<and> registerCount cg' = registerCount cg \<and> frameSize cg' \<le> frameSize cg + length L \<and>
    dom (cg_vars cg') = dom (cg_vars cg)"
  using assms
proof (induction "is" arbitrary: cg L k)
  case Nil
  note t = cg_ok_D(1) [OF Nil.prems(1)]
  have "L = []"
  proof (cases L)
    case (Cons v vs)
    then obtain var where v: "cg_vars cg v = Some var" using tables_D(4) [OF t] by auto
    have "v \<in> set L" using Cons by simp
    from tables_D(5) [OF t v this] tables_nz [OF t v] Nil.prems(6) have False by (auto simp: nat_less_iff)
    then show ?thesis ..
  qed simp
  with Nil.prems(1) runs_refl [OF cg_ok_D(6) [OF Nil.prems(1)]] show ?case by auto
next
  case (Cons i "is")
  note t = cg_ok_D(1) [OF Cons.prems(1)]
  have i: "i < registerCount cg" "length (registerStatus cg) = registerCount cg"
    using Cons.prems(5) tables_D(2) [OF t] by auto
  then have get: "get_status cg (int i) = Inr (registerStatus cg ! i)" by (simp add: get_status_def)
  show ?case
  proof (cases "registerStatus cg ! i = 0")
    case True
    then have "\<forall>j < registerCount cg. registerStatus cg ! j \<noteq> 0 \<longrightarrow> j \<in> set is" using Cons.prems(6) by auto
    from Cons.IH [OF Cons.prems(1-4) _ this] Cons.prems(5) show ?thesis using get True by simp
  next
    case False
    let ?v = "registerStatus cg ! i"
    obtain var where v: "?v \<in> set L" "cg_vars cg ?v = Some var" "var_reg var = int i"
      using tables_D(6) [OF t i(1) False] by auto
    have L: "0 < length L" using v(1) by auto
    with Cons.prems(4) have "4 \<le> k" by linarith
    obtain cg1 j where s: "variable_store (Suc (Suc (Suc f))) cg ?v = Inr cg1" "cg_ok cg1 (remove1 ?v L)"
      "runs cg cg1 [j]" "registerStatus cg1 = (registerStatus cg)[nat (var_reg var) := 0]"
      "registerCount cg1 = registerCount cg" "frameSize cg1 + length (remove1 ?v L) \<le> 16"
      "frameSize cg1 \<le> frameSize cg + 1" "dom (cg_vars cg1) = dom (cg_vars cg)"
      using store_ok [OF Cons.prems(1) v(2,1) Cons.prems(2,3) \<open>4 \<le> k\<close>] .
    have len: "length (remove1 ?v L) = length L - 1" using v(1) by (simp add: length_remove1)
    have "dbuffer_room (cbuffer cg1) (k - 4)" using runs_room [OF s(3) Cons.prems(3)] \<open>4 \<le> k\<close> by simp
    moreover have "4 * length (remove1 ?v L) \<le> k - 4" using Cons.prems(4) len by simp
    moreover have "set is \<subseteq> {..< registerCount cg1}" using Cons.prems(5) s(5) by auto
    moreover have "\<forall>j < registerCount cg1. registerStatus cg1 ! j \<noteq> 0 \<longrightarrow> j \<in> set is"
    proof (intro allI impI)
      fix j assume j: "j < registerCount cg1" "registerStatus cg1 ! j \<noteq> 0"
      then have "j \<noteq> i" using s(4,5) v(3) i(2) by auto
      with j show "j \<in> set is" using Cons.prems(6) s(4,5) v(3) by auto
    qed
    ultimately obtain cg' js where r: "store_registers (Suc (Suc (Suc f))) cg1 is = Inr cg'" "cg_ok cg' []" "runs cg1 cg' js"
      "length js \<le> length (remove1 ?v L)" "registerCount cg' = registerCount cg1"
      "frameSize cg' \<le> frameSize cg1 + length (remove1 ?v L)" "dom (cg_vars cg') = dom (cg_vars cg1)"
      using Cons.IH [OF s(2,6)] by metis
    have "store_registers (Suc (Suc (Suc f))) cg (i # is) = Inr cg'"
      using get s(1) r(1) False by (simp del: variable_store.simps)
    moreover have "runs cg cg' (j # js)" using runs_trans [OF s(3) r(3)] by simp
    moreover have "length (j # js) \<le> length L" "frameSize cg' \<le> frameSize cg + length L"
      using r(4,6) len L s(7) by (unfold list.size) linarith+
    ultimately show ?thesis using r(2,5,7) s(5,8) by metis
  qed
qed

text \<open>
  Loading the arguments: every variable is in a slot, or in the register of an argument before it, so an
  argument given twice is copied from the first register.
\<close>

definition args_loaded :: "codegen \<Rightarrow> codegen \<Rightarrow> int list \<Rightarrow> ptr list \<Rightarrow> insn list \<Rightarrow> bool" where
  "args_loaded cg cg' rs vs is \<longleftrightarrow> emitted cg cg' is \<and> length is \<le> length vs \<and>
    (\<forall>u. cg_vars cg' u = cg_vars cg u \<or>
       u \<in> set vs \<and> (\<exists>w r. cg_vars cg u = Some w \<and> cg_vars cg' u = Some (w\<lparr>var_reg := r\<rparr>))) \<and>
    (\<forall>m vals. holds cg m vals \<longrightarrow> (\<exists>m'. exec_insns is m = Some m' \<and> mslots m' = mslots m \<and>
       (\<forall>j < length vs. mregs m' (real (rs ! j)) = vals (vs ! j)) \<and>
       (\<forall>q. q \<notin> real ` set rs \<longrightarrow> mregs m' q = mregs m q)))"

lemma args_loaded_nil:
  assumes "dbuffer_wf (cbuffer cg)"
  shows "args_loaded cg cg rs [] []"
  unfolding args_loaded_def by (auto intro: emitted_refl [OF assms])

lemma load_args_ok:
  assumes "\<forall>u w. cg_vars cg u = Some w \<longrightarrow> var_reg w = - 1 \<and> 0 < stackPos w \<and> stackPos w \<le> 16 \<or>
      0 \<le> var_reg w \<and> var_reg w < 10 \<and> var_reg w \<notin> set rs"
    and "distinct rs" and "\<forall>r \<in> set rs. 0 \<le> r \<and> r < 10 \<and> r < int (length (registerStatus cg))"
    and "set vs \<subseteq> dom (cg_vars cg)" and "\<forall>r \<in> set (take (length vs) rs). r < 5" and "length vs \<le> length rs"
    and "dbuffer_wf (cbuffer cg)" and "dbuffer_room (cbuffer cg) k" and "4 * length vs \<le> k"
  shows "\<exists>db vs' is. load_args cg rs vs = Inr (cg\<lparr>cg_vars := vs', cbuffer := db\<rparr>) \<and>
    args_loaded cg (cg\<lparr>cg_vars := vs', cbuffer := db\<rparr>) rs vs is"
  using assms
proof (induction rs arbitrary: cg vs k)
  case Nil
  then show ?case using args_loaded_nil [of cg "[]"]
    by (intro exI [of _ "cbuffer cg"] exI [of _ "cg_vars cg"] exI [of _ "[]"]) simp
next
  case (Cons r rs)
  have r: "0 \<le> r" "r < 10" "get_status cg r = Inr (registerStatus cg ! nat r)"
    using Cons.prems(3) by (auto simp: get_status_def)
  have len: "length realRegs = 10" by (simp add: realRegs_def)
  obtain reg where reg: "getRealReg r = Inr reg" "number64 reg = real r" "real r \<noteq> 5"
    using getRealReg_ok [of r] r len by auto
  show ?case
  proof (cases vs)
    case Nil
    have "load_args cg rs [] = Inr cg" using Cons.prems(3)
      by (induction rs) (auto simp: get_status_def)
    then show ?thesis using Nil r(3) args_loaded_nil [OF Cons.prems(7)]
      by (intro exI [of _ "cbuffer cg"] exI [of _ "cg_vars cg"] exI [of _ "[]"]) simp
  next
    case (Cons v vs1)
    note prems = Cons.prems [unfolded Cons]
    obtain w where w: "cg_vars cg v = Some w" using prems(4) by auto
    have "4 \<le> k" using prems(9) by simp
    define cg0 where "cg0 = (if var_reg w = - 1 then cg\<lparr>cg_vars := (cg_vars cg)(v \<mapsto> w\<lparr>var_reg := r\<rparr>)\<rparr> else cg)"
    have buf: "cbuffer cg0 = cbuffer cg" by (simp add: cg0_def)
    obtain i db where step: "(if var_reg w = - 1 then arch_loadReg (set_var cg v (w\<lparr>var_reg := r\<rparr>)) v
          else bindE (getRealReg (var_reg w)) (\<lambda>from_reg. bindE (getRealReg r) (\<lambda>to_reg.
                 emit_code (\<lambda>db. emit_storeReg64 db from_reg to_reg) cg))) = Inr (cg0\<lparr>cbuffer := db\<rparr>)"
      and em: "emitted cg (cg0\<lparr>cbuffer := db\<rparr>) [i]"
      and ex: "\<And>m vals. holds cg m vals \<Longrightarrow> exec_insn i m = Some (m\<lparr>mregs := (mregs m)(real r := vals v)\<rparr>)"
    proof (cases "var_reg w = - 1")
      case True
      let ?d = "slot_disp (w\<lparr>var_reg := r\<rparr>)"
      have sp: "0 < stackPos w" "stackPos w \<le> 16" using prems(1) w True by force+
      have d: "sint ?d mod 8 = 0" "sint ?d div 8 = - stackPos w" using slot_disp_ok [of "w\<lparr>var_reg := r\<rparr>"] sp by auto
      have low: "real r < 8" using real_low [of r] prems(5) r(1) by simp
      have "encodes (\<lambda>db. emit_loadRegRBP64 db reg ?d) (Mov_load True (real r) 5 ?d)"
        using encodes_loadRegRBP64 [of reg ?d] reg(2) low by simp
      from emit_code_emitted [OF this emits_loadRegRBP64, where cg = cg0 and n = k] obtain db where
        db: "emit_code (\<lambda>db. emit_loadRegRBP64 db reg ?d) cg0 = Inr (cg0\<lparr>cbuffer := db\<rparr>)"
        "emitted cg0 (cg0\<lparr>cbuffer := db\<rparr>) [Mov_load True (real r) 5 ?d]"
        using prems(7,8) \<open>4 \<le> k\<close> by (auto simp: buf)
      have eq: "set_var cg v (w\<lparr>var_reg := r\<rparr>) = cg0" using True by (simp add: cg0_def set_var_def)
      have g: "get_var cg0 v = Inr (w\<lparr>var_reg := r\<rparr>)" using True by (simp add: cg0_def get_var_def)
      show ?thesis
      proof (rule that)
        show "(if var_reg w = - 1 then arch_loadReg (set_var cg v (w\<lparr>var_reg := r\<rparr>)) v
          else bindE (getRealReg (var_reg w)) (\<lambda>from_reg. bindE (getRealReg r) (\<lambda>to_reg.
                 emit_code (\<lambda>db. emit_storeReg64 db from_reg to_reg) cg))) = Inr (cg0\<lparr>cbuffer := db\<rparr>)"
          using True eq g db(1) reg(1) sp(1) by (simp add: arch_loadReg_def arch_getRealReg_def)
        show "emitted cg (cg0\<lparr>cbuffer := db\<rparr>) [Mov_load True (real r) 5 ?d]"
          using db(2) emitted_cong [OF buf refl] by simp
        show "exec_insn (Mov_load True (real r) 5 ?d) m = Some (m\<lparr>mregs := (mregs m)(real r := vals v)\<rparr>)"
          if "holds cg m vals" for m vals using holdsD [OF that w] True d reg(3) by simp
      qed
    next
      case False
      have wr: "0 \<le> var_reg w" "var_reg w < 10" using prems(1) w False by force+
      obtain from_reg where f: "getRealReg (var_reg w) = Inr from_reg" "number64 from_reg = real (var_reg w)"
        using getRealReg_ok [of "var_reg w"] wr len by auto
      have "encodes (\<lambda>db. emit_storeReg64 db from_reg reg) (Mov_rr True (real r) (real (var_reg w)))"
        using encodes_storeReg64 [of from_reg reg] f(2) reg(2) by simp
      from emit_code_emitted [OF this emits_storeReg64, where cg = cg0 and n = k] obtain db where
        db: "emit_code (\<lambda>db. emit_storeReg64 db from_reg reg) cg0 = Inr (cg0\<lparr>cbuffer := db\<rparr>)"
        "emitted cg0 (cg0\<lparr>cbuffer := db\<rparr>) [Mov_rr True (real r) (real (var_reg w))]"
        using prems(7,8) \<open>4 \<le> k\<close> by (auto simp: buf)
      have eq: "cg0 = cg" using False by (simp add: cg0_def)
      show ?thesis
      proof (rule that)
        show "(if var_reg w = - 1 then arch_loadReg (set_var cg v (w\<lparr>var_reg := r\<rparr>)) v
          else bindE (getRealReg (var_reg w)) (\<lambda>from_reg. bindE (getRealReg r) (\<lambda>to_reg.
                 emit_code (\<lambda>db. emit_storeReg64 db from_reg to_reg) cg))) = Inr (cg0\<lparr>cbuffer := db\<rparr>)"
          using False eq f(1) reg(1) db(1) by simp
        show "emitted cg (cg0\<lparr>cbuffer := db\<rparr>) [Mov_rr True (real r) (real (var_reg w))]"
          using db(2) emitted_cong [OF buf refl] by simp
        show "exec_insn (Mov_rr True (real r) (real (var_reg w))) m = Some (m\<lparr>mregs := (mregs m)(real r := vals v)\<rparr>)"
          if "holds cg m vals" for m vals using holdsD [OF that w] wr reg(3) by simp
      qed
    qed
    let ?cg1 = "cg0\<lparr>cbuffer := db\<rparr>"
    have inj: "real q \<noteq> real r" if "0 \<le> q" "q < 10" "q \<noteq> r" for q using real_inj [of q r] that r(1,2) len by simp
    have new: "holds ?cg1 (m\<lparr>mregs := (mregs m)(real r := vals v)\<rparr>) vals" if h: "holds cg m vals" for m vals
      unfolding holds_def
    proof (intro allI impI)
      fix u x assume u: "cg_vars ?cg1 u = Some x"
      show "(if 0 \<le> var_reg x then mregs (m\<lparr>mregs := (mregs m)(real r := vals v)\<rparr>) (real (var_reg x))
          else mslots (m\<lparr>mregs := (mregs m)(real r := vals v)\<rparr>) (- stackPos x)) = vals u"
      proof (cases "u = v \<and> var_reg w = - 1")
        case True
        with u r(1) show ?thesis by (auto simp: cg0_def)
      next
        case False
        with u have x: "cg_vars cg u = Some x" by (auto simp: cg0_def split: if_splits)
        have "real (var_reg x) \<noteq> real r" if "0 \<le> var_reg x" using prems(1) x that inj by force
        then show ?thesis using holdsD [OF h x] by auto
      qed
    qed
    have vars1: "cg_vars ?cg1 u = cg_vars cg u \<or>
        u = v \<and> (\<exists>w r. cg_vars cg u = Some w \<and> cg_vars ?cg1 u = Some (w\<lparr>var_reg := r\<rparr>))" for u
      using w by (auto simp: cg0_def)
    have dom1: "dom (cg_vars ?cg1) = dom (cg_vars cg)" using w by (auto simp: cg0_def)
    have st1: "registerStatus ?cg1 = registerStatus cg" by (simp add: cg0_def)
    have inv1: "\<forall>u x. cg_vars ?cg1 u = Some x \<longrightarrow> var_reg x = - 1 \<and> 0 < stackPos x \<and> stackPos x \<le> 16 \<or>
        0 \<le> var_reg x \<and> var_reg x < 10 \<and> var_reg x \<notin> set rs"
    proof (intro allI impI)
      fix u x assume u: "cg_vars ?cg1 u = Some x"
      show "var_reg x = - 1 \<and> 0 < stackPos x \<and> stackPos x \<le> 16 \<or> 0 \<le> var_reg x \<and> var_reg x < 10 \<and> var_reg x \<notin> set rs"
      proof (cases "u = v \<and> var_reg w = - 1")
        case True
        with u r(1,2) prems(2) show ?thesis by (auto simp: cg0_def)
      next
        case False
        with u have "cg_vars cg u = Some x" by (auto simp: cg0_def split: if_splits)
        with prems(1) show ?thesis by force
      qed
    qed
    have wf1: "dbuffer_wf (cbuffer ?cg1)" "dbuffer_room (cbuffer ?cg1) (k - 4)"
      using em prems(8) \<open>4 \<le> k\<close> unfolding emitted_def by auto
    have "\<exists>db' vs' is. load_args ?cg1 rs vs1 = Inr (?cg1\<lparr>cg_vars := vs', cbuffer := db'\<rparr>) \<and>
        args_loaded ?cg1 (?cg1\<lparr>cg_vars := vs', cbuffer := db'\<rparr>) rs vs1 is"
      by (rule Cons.IH [OF inv1 _ _ _ _ _ wf1]) (use prems dom1 st1 in auto)
    then obtain db' vs' "is" where load: "load_args ?cg1 rs vs1 = Inr (?cg1\<lparr>cg_vars := vs', cbuffer := db'\<rparr>)"
      and rest: "args_loaded ?cg1 (?cg1\<lparr>cg_vars := vs', cbuffer := db'\<rparr>) rs vs1 is" by blast
    have same: "?cg1\<lparr>cg_vars := vs', cbuffer := db'\<rparr> = cg\<lparr>cg_vars := vs', cbuffer := db'\<rparr>" by (simp add: cg0_def)
    have "load_args cg (r # rs) vs = Inr (cg\<lparr>cg_vars := vs', cbuffer := db'\<rparr>)"
      using r(3) w step load unfolding same Cons by (simp add: get_var_def split del: if_split)
    moreover have "emitted cg (cg\<lparr>cg_vars := vs', cbuffer := db'\<rparr>) (i # is)"
      using emitted_trans [OF em] rest unfolding args_loaded_def same by fastforce
    moreover have "vs' u = cg_vars cg u \<or> u \<in> set vs \<and> (\<exists>w r. cg_vars cg u = Some w \<and> vs' u = Some (w\<lparr>var_reg := r\<rparr>))" for u
    proof -
      have "vs' u = cg_vars ?cg1 u \<or> u \<in> set vs1 \<and> (\<exists>w r. cg_vars ?cg1 u = Some w \<and> vs' u = Some (w\<lparr>var_reg := r\<rparr>))"
        using rest by (simp add: args_loaded_def)
      with vars1 [of u] Cons show ?thesis by (elim disjE exE conjE; simp; blast)
    qed
    moreover have "\<exists>m'. exec_insns (i # is) m = Some m' \<and> mslots m' = mslots m \<and>
       (\<forall>j < length vs. mregs m' (real ((r # rs) ! j)) = vals (vs ! j)) \<and>
       (\<forall>q. q \<notin> real ` set (r # rs) \<longrightarrow> mregs m' q = mregs m q)" if h: "holds cg m vals" for m vals
    proof -
      obtain m' where m': "exec_insns is (m\<lparr>mregs := (mregs m)(real r := vals v)\<rparr>) = Some m'" "mslots m' = mslots m"
        "\<forall>j < length vs1. mregs m' (real (rs ! j)) = vals (vs1 ! j)"
        "\<And>q. q \<notin> real ` set rs \<Longrightarrow> mregs m' q = ((mregs m)(real r := vals v)) q"
        using rest new [OF h] unfolding args_loaded_def by fastforce
      have "real r \<notin> real ` set rs" using inj prems(2,3) by fastforce
      with m'(4) have "mregs m' (real r) = vals v" by simp
      with m' ex [OF h] show ?thesis unfolding Cons by (auto simp: nth_Cons split: nat.split)
    qed
    moreover have "length (i # is) \<le> length vs" using rest Cons by (simp add: args_loaded_def)
    ultimately show ?thesis
      by (intro exI [of _ db'] exI [of _ vs'] exI [of _ "i # is"]) (simp add: args_loaded_def)
  qed
qed

lemma clear_regs_ok:
  "set vs \<subseteq> dom (cg_vars cg) \<Longrightarrow> clear_regs cg vs = Inr (cg\<lparr>cg_vars :=
     \<lambda>u. if u \<in> set vs then map_option (\<lambda>w. w\<lparr>var_reg := - 1\<rparr>) (cg_vars cg u) else cg_vars cg u\<rparr>)"
proof (induction vs arbitrary: cg)
  case (Cons v vs)
  then obtain w where w: "cg_vars cg v = Some w" by auto
  let ?cg = "set_var cg v (w\<lparr>var_reg := - 1\<rparr>)" and ?f = "\<lambda>w. w\<lparr>var_reg := - 1\<rparr>"
  have "set vs \<subseteq> dom (cg_vars ?cg)" using Cons.prems by (auto simp: set_var_def)
  note Cons.IH [OF this]
  moreover have "(\<lambda>u. if u \<in> set vs then map_option ?f (cg_vars ?cg u) else cg_vars ?cg u) =
      (\<lambda>u. if u \<in> set (v # vs) then map_option ?f (cg_vars cg u) else cg_vars cg u)"
    using w by (auto simp: fun_eq_iff set_var_def)
  ultimately show ?case using w by (simp add: get_var_def, simp add: set_var_def)
qed simp

lemma emitted_bytes:
  assumes "emitted cg cg' is"
  obtains bs where "dbuffer_contents (cbuffer cg') = dbuffer_contents (cbuffer cg) @ bs" and "disassemble (length bs) bs = Some is"
  using assms code_of_disassemble unfolding emitted_def by blast

lemma all_in_slots: "cg_ok cg [] \<Longrightarrow> cg_vars cg u = Some w \<Longrightarrow> var_reg w = - 1 \<and> 0 < stackPos w \<and> stackPos w \<le> int (frameSize cg)"
  using tables_D(7,8) [OF cg_ok_D(1)] by fastforce

lemma functionCall_ok:
  assumes ok: "cg_ok cg L" and n: "7 \<le> registerCount cg" and vs: "length vs \<le> 4" "set vs \<subseteq> dom (cg_vars cg)"
    and fs: "frameSize cg + length L \<le> 16" and room: "dbuffer_room (cbuffer cg) k" "4 * (length L + length vs) \<le> k"
  obtains cg' "is" where "\<And>label. arch_functionCall (Suc (Suc (Suc f))) cg label vs =
      bindE (emit_call (cbuffer cg') label) (\<lambda>(db, label). Inr (cg'\<lparr>cbuffer := db\<rparr>, label))"
    and "cg_ok cg' []" and "emitted cg cg' is"
    and "\<And>m vals. holds cg m vals \<Longrightarrow> \<exists>m'. exec_insns is m = Some m' \<and> holds cg' m' vals \<and>
      (\<forall>j < length vs. mregs m' (real (arg_regs ! j)) = vals (vs ! j))"
proof -
  have regs: "\<forall>j < registerCount cg. registerStatus cg ! j \<noteq> 0 \<longrightarrow> j \<in> set [0 ..< registerCount cg]"
    "set [0 ..< registerCount cg] \<subseteq> {..< registerCount cg}" by auto
  have "4 * length L \<le> k" using room(2) by simp
  from store_registers_ok [OF ok fs room(1) this regs(2,1)] obtain cg1 js where
    s: "store_registers (Suc (Suc (Suc f))) cg [0 ..< registerCount cg] = Inr cg1" "cg_ok cg1 []" "runs cg cg1 js"
    "length js \<le> length L" "registerCount cg1 = registerCount cg" "frameSize cg1 \<le> frameSize cg + length L"
    "dom (cg_vars cg1) = dom (cg_vars cg)" by metis
  note slots = all_in_slots [OF s(2)]
  have inv: "\<forall>u w. cg_vars cg1 u = Some w \<longrightarrow> var_reg w = - 1 \<and> 0 < stackPos w \<and> stackPos w \<le> 16 \<or>
      0 \<le> var_reg w \<and> var_reg w < 10 \<and> var_reg w \<notin> set arg_regs"
    using slots s(6) fs by fastforce
  have "length (registerStatus cg1) = registerCount cg" using tables_D(2) [OF cg_ok_D(1) [OF s(2)]] s(5) by simp
  then have ids: "\<forall>r \<in> set arg_regs. 0 \<le> r \<and> r < 10 \<and> r < int (length (registerStatus cg1))"
    using n by (auto simp: arg_regs_def)
  have low: "\<forall>r \<in> set (take (length vs) arg_regs). r < 5"
    using vs(1) set_take_subset_set_take [of "length vs" 4 arg_regs] by (auto simp: arg_regs_def)
  have dist: "distinct arg_regs" and six: "length vs \<le> length arg_regs" using vs(1) by (auto simp: arg_regs_def)
  have sub: "set vs \<subseteq> dom (cg_vars cg1)" using vs(2) s(7) by simp
  have "4 * length vs \<le> k - 4 * length js" "4 * length js \<le> k" using room(2) s(4) by auto
  from load_args_ok [OF inv dist ids sub low six cg_ok_D(6) [OF s(2)] runs_room [OF s(3) room(1) this(2)] this(1)]
  obtain db vs' "is" where l: "load_args cg1 arg_regs vs = Inr (cg1\<lparr>cg_vars := vs', cbuffer := db\<rparr>)"
    "args_loaded cg1 (cg1\<lparr>cg_vars := vs', cbuffer := db\<rparr>) arg_regs vs is" by blast
  define cg' where "cg' = cg1\<lparr>cbuffer := db\<rparr>"
  have vars: "vs' u = cg_vars cg1 u \<or> u \<in> set vs \<and> (\<exists>w r. cg_vars cg1 u = Some w \<and> vs' u = Some (w\<lparr>var_reg := r\<rparr>))" for u
    using l(2) by (simp add: args_loaded_def)
  have "set vs \<subseteq> dom vs'" 
  proof
    fix u assume "u \<in> set vs"
    then obtain w where "cg_vars cg1 u = Some w" using sub by auto
    then show "u \<in> dom vs'" using vars [of u] by auto
  qed
  moreover have "(\<lambda>u. if u \<in> set vs then map_option (\<lambda>w. w\<lparr>var_reg := - 1\<rparr>) (vs' u) else vs' u) = cg_vars cg1"
  proof
    fix u
    have "map_option (\<lambda>w. w\<lparr>var_reg := - 1\<rparr>) (cg_vars cg1 u) = cg_vars cg1 u"
      using slots [of u] by (cases "cg_vars cg1 u") auto
    then show "(if u \<in> set vs then map_option (\<lambda>w. w\<lparr>var_reg := - 1\<rparr>) (vs' u) else vs' u) = cg_vars cg1 u"
      using vars [of u] by auto
  qed
  ultimately have clear: "clear_regs (cg1\<lparr>cg_vars := vs', cbuffer := db\<rparr>) vs = Inr cg'"
    using clear_regs_ok [of vs "cg1\<lparr>cg_vars := vs', cbuffer := db\<rparr>"] by (simp add: cg'_def cong: if_cong)
  have em: "emitted cg1 cg' is"
    using l(2) emitted_cong [of cg1 cg1 cg' "cg1\<lparr>cg_vars := vs', cbuffer := db\<rparr>"] by (simp add: args_loaded_def cg'_def)
  show ?thesis
  proof (rule that)
    show "arch_functionCall (Suc (Suc (Suc f))) cg label vs =
      bindE (emit_call (cbuffer cg') label) (\<lambda>(db, label). Inr (cg'\<lparr>cbuffer := db\<rparr>, label))" for label
      using s(1) l(1) clear vs(1) by (simp add: arch_functionCall_def)
    show "cg_ok cg' []" using s(2) em unfolding cg_ok_def emitted_def by (simp add: cg'_def)
    show "emitted cg cg' (js @ is)" using s(3) em emitted_trans unfolding runs_def by blast
    fix m vals assume "holds cg m vals"
    then obtain m1 where m1: "exec_insns js m = Some m1" "holds cg1 m1 vals" using s(3) unfolding runs_def by blast
    then obtain m' where m': "exec_insns is m1 = Some m'" "mslots m' = mslots m1"
      "\<forall>j < length vs. mregs m' (real (arg_regs ! j)) = vals (vs ! j)" using l(2) unfolding args_loaded_def by blast
    have "holds cg' m' vals" unfolding holds_def
    proof (intro allI impI)
      fix u w assume "cg_vars cg' u = Some w"
      then have u: "cg_vars cg1 u = Some w" by (simp add: cg'_def)
      show "(if 0 \<le> var_reg w then mregs m' (real (var_reg w)) else mslots m' (- stackPos w)) = vals u"
        using holdsD [OF m1(2) u] slots [OF u] m'(2) by simp
    qed
    then show "\<exists>m'. exec_insns (js @ is) m = Some m' \<and> holds cg' m' vals \<and>
      (\<forall>j < length vs. mregs m' (real (arg_regs ! j)) = vals (vs ! j))" using m1(1) m'(1,3) by (auto simp: exec_append)
  qed
qed

lemma newVarReg_ok:
  assumes ok: "cg_ok cg L" and i: "i < registerCount cg" "registerStatus cg ! i = 0"
  obtains cs cg' where "codegen_newVarReg cg (int i) = Inr (cg', cg_top cg)" and "cg_ok cg' (L @ [cg_top cg])"
    and "cg' = cg\<lparr>cg_top := cg_top cg + 1, cg_cells := cs, registerStatus := (registerStatus cg)[i := cg_top cg],
      cg_vars := (cg_vars cg)(cg_top cg \<mapsto> \<lparr>isTmp = 0, var_reg = int i, stackPos = - 1\<rparr>)\<rparr>"
    and "cg_vars cg (cg_top cg) = None"
proof -
  note t = cg_ok_D(1) [OF ok] and ring = cg_ok_D(2) [OF ok]
  let ?v = "cg_top cg" and ?cell = "\<lparr>lprev = 0, lnext = 0\<rparr>"
  define cg1 where "cg1 = cg\<lparr>cg_top := ?v + 1, cg_cells := (cg_cells cg)(?v \<mapsto> ?cell),
      cg_vars := (cg_vars cg)(?v \<mapsto> \<lparr>isTmp = 0, var_reg = int i, stackPos = - 1\<rparr>),
      registerStatus := (registerStatus cg)[i := ?v]\<rparr>"
  have fresh: "?v \<notin> dom (cg_cells cg)" using cg_ok_D(5) [OF ok] by blast
  then have new: "cg_vars cg ?v = None" using cg_ok_D(3) [OF ok] by auto
  have L: "?v \<notin> set (lruVariables cg # L)" using il.rep_cells [OF ring] fresh by auto
  then have vL: "?v \<notin> set L" by simp
  have "lruVariables cg \<in> dom (cg_cells cg)" using il.rep_cells [OF ring] by simp
  from cg_ok_D(5) [OF ok this] have v0: "?v \<noteq> 0" by simp
  have "ring ((cg_cells cg)(?v \<mapsto> ?cell)) (lruVariables cg) L" by (rule ring_frame [OF ring]) (use L in auto)
  then obtain cs where cs: "lru_add cg1 ?v = Inr (cg1\<lparr>cg_cells := cs\<rparr>)" "ring cs (lruVariables cg) (L @ [?v])"
    "dom cs = insert ?v (dom (cg_cells cg))"
    using lru_add_ring [of cg1 L ?v] L by (auto simp: cg1_def)
  have tab: "tables_ok (registerCount cg) ((registerStatus cg)[i := ?v])
      ((cg_vars cg)(?v \<mapsto> \<lparr>isTmp = 0, var_reg = int i, stackPos = - 1\<rparr>)) (frameSize cg) (insert ?v (set L))"
    by (rule tables_put [OF t v0 vL i]) simp_all
  have "cg_ok (cg1\<lparr>cg_cells := cs\<rparr>) (L @ [?v])"
    unfolding cg_ok_def using tab cs(2,3) cg_ok_D(3-6) [OF ok] L by (auto simp: cg1_def less_Suc_eq)
  moreover have "codegen_newVarReg cg (int i) = Inr (cg1\<lparr>cg_cells := cs\<rparr>, ?v)"
    using cs(1) i(1) tables_D(2) [OF t]
    by (simp add: codegen_newVarReg_def Let_def set_var_def set_status_def cg1_def)
  ultimately show ?thesis using that [of "cg1\<lparr>cg_cells := cs\<rparr>" cs] new by (simp add: cg1_def)
qed

lemma init_ok: "\<exists>cg. codegen_init n base = Inr cg \<and> (n \<le> length realRegs \<longrightarrow> cg_ok cg []) \<and>
    registerCount cg = n \<and> registerStatus cg = replicate n 0"
proof -
  from il.init_law [of base "[base \<mapsto> \<lparr>lprev = 0, lnext = 0\<rparr>]"] obtain cs where
    cs: "LIST_INIT [base \<mapsto> \<lparr>lprev = 0, lnext = 0\<rparr>] base = Inr cs" "ring cs base []"
    "changes [base \<mapsto> \<lparr>lprev = 0, lnext = 0\<rparr>] cs {base}" by auto
  have "dom cs = {base}" using il.same_cells [OF cs(3)] by simp
  with cs show ?thesis
    by (auto simp: codegen_init_def cg_ok_def dbuffer_init_wf intro!: tables_okI)
qed

lemma init_args_ok:
  assumes "cg_ok cg L" and "distinct is" and "\<forall>i \<in> set is. i < 6" and "7 \<le> registerCount cg"
    and "\<forall>i \<in> set is. registerStatus cg ! nat (arg_regs ! i) = 0"
  shows "\<exists>cg' vs L'. init_args cg is = Inr (cg', vs) \<and> cg_ok cg' L' \<and> length vs = length is \<and>
    cbuffer cg' = cbuffer cg \<and> (\<forall>u w. cg_vars cg u = Some w \<longrightarrow> cg_vars cg' u = Some w) \<and>
    (\<forall>j < length is. \<exists>w. cg_vars cg' (vs ! j) = Some w \<and> var_reg w = arg_regs ! (is ! j))"
  using assms
proof (induction "is" arbitrary: cg L)
  case (Cons i "is")
  have arg: "\<forall>i < 6. 0 \<le> arg_regs ! i \<and> arg_regs ! i < 7" and "distinct arg_regs" "length arg_regs = 6"
    by (simp_all add: arg_regs_def All_less_Suc2 numeral_eq_Suc)
  then have i: "i < 6" "0 \<le> arg_regs ! i" "nat (arg_regs ! i) < registerCount cg"
    using Cons.prems(3,4) by force+
  have "registerStatus cg ! nat (arg_regs ! i) = 0" using Cons.prems(5) by simp
  from newVarReg_ok [OF Cons.prems(1) i(3) this] obtain cs cg1 where
    v: "codegen_newVarReg cg (arg_regs ! i) = Inr (cg1, cg_top cg)" "cg_ok cg1 (L @ [cg_top cg])"
    "cg1 = cg\<lparr>cg_top := cg_top cg + 1, cg_cells := cs, registerStatus := (registerStatus cg)[nat (arg_regs ! i) := cg_top cg],
      cg_vars := (cg_vars cg)(cg_top cg \<mapsto> \<lparr>isTmp = 0, var_reg = arg_regs ! i, stackPos = - 1\<rparr>)\<rparr>"
    "cg_vars cg (cg_top cg) = None" unfolding nat_0_le [OF i(2)] .
  have "registerStatus cg1 ! nat (arg_regs ! k) = 0" if "k \<in> set is" for k
  proof -
    have "k < 6" "k \<noteq> i" using that Cons.prems(2,3) by auto
    then have "arg_regs ! k \<noteq> arg_regs ! i" "0 \<le> arg_regs ! k"
      using arg \<open>distinct arg_regs\<close> \<open>length arg_regs = 6\<close> i(1) nth_eq_iff_index_eq by (metis, blast)
    then have "nat (arg_regs ! k) \<noteq> nat (arg_regs ! i)" using i(2) by simp
    then show ?thesis using Cons.prems(5) that v(3) by simp
  qed
  moreover have "7 \<le> registerCount cg1" using Cons.prems(4) v(3) by simp
  moreover have "distinct is" "\<forall>i \<in> set is. i < 6" using Cons.prems(2,3) by auto
  ultimately have "\<exists>cg' vs L'. init_args cg1 is = Inr (cg', vs) \<and> cg_ok cg' L' \<and> length vs = length is \<and>
      cbuffer cg' = cbuffer cg1 \<and> (\<forall>u w. cg_vars cg1 u = Some w \<longrightarrow> cg_vars cg' u = Some w) \<and>
      (\<forall>j < length is. \<exists>w. cg_vars cg' (vs ! j) = Some w \<and> var_reg w = arg_regs ! (is ! j))"
    by (intro Cons.IH [OF v(2)]) auto
  then obtain cg' vs L' where r: "init_args cg1 is = Inr (cg', vs)" "cg_ok cg' L'" "length vs = length is"
    "cbuffer cg' = cbuffer cg1" "\<forall>u w. cg_vars cg1 u = Some w \<longrightarrow> cg_vars cg' u = Some w"
    "\<forall>j < length is. \<exists>w. cg_vars cg' (vs ! j) = Some w \<and> var_reg w = arg_regs ! (is ! j)" by blast
  have run: "init_args cg (i # is) = Inr (cg', cg_top cg # vs)" using v(1) r(1) i(1) by (simp add: arch_initFunctionArg_def)
  have "cg_vars cg' u = Some w" if "cg_vars cg u = Some w" for u w
  proof -
    have "cg_vars cg1 u = Some w" using that v(3,4) by auto
    then show ?thesis using r(5) by blast
  qed
  moreover have "\<exists>w. cg_vars cg' ((cg_top cg # vs) ! j) = Some w \<and> var_reg w = arg_regs ! ((i # is) ! j)"
    if j: "j < length (i # is)" for j
  proof (cases j)
    case 0
    have "cg_vars cg1 (cg_top cg) = Some \<lparr>isTmp = 0, var_reg = arg_regs ! i, stackPos = - 1\<rparr>" using v(3) by simp
    with r(5) 0 show ?thesis by simp
  next
    case (Suc k)
    then show ?thesis using r(6) j by simp
  qed
  moreover have "cbuffer cg' = cbuffer cg" using r(4) v(3) by simp
  ultimately show ?case using run r(2,3) by (intro exI [of _ cg'] exI [of _ "cg_top cg # vs"] exI [of _ L']) simp
qed auto

section \<open>Properties of the code generator\<close>

lemma fuel_3: "3 \<le> fuel \<Longrightarrow> \<exists>f. fuel = Suc (Suc (Suc f))"
  by (intro exI [of _ "fuel - 3"]) simp

text \<open>A function with one variable in register 0 and one in slot 1.\<close>

definition cg_example :: "nat \<Rightarrow> codegen" where
  "cg_example n = \<lparr>registerCount = n, cbuffer = dbuffer_init, frameSize = 1, lruVariables = 1,
     registerStatus = (replicate n 0)[0 := 2],
     cg_cells = [1 \<mapsto> \<lparr>lprev = 2, lnext = 2\<rparr>, 2 \<mapsto> \<lparr>lprev = 1, lnext = 1\<rparr>, 3 \<mapsto> \<lparr>lprev = 0, lnext = 0\<rparr>],
     cg_vars = [2 \<mapsto> \<lparr>isTmp = 0, var_reg = 0, stackPos = - 1\<rparr>, 3 \<mapsto> \<lparr>isTmp = 0, var_reg = - 1, stackPos = 1\<rparr>],
     cg_top = 4\<rparr>"

lemma cg_example_ok:
  assumes "0 < n" and "n \<le> 10"
  shows "cg_ok (cg_example n) [2]" and "dbuffer_room (cbuffer (cg_example n)) 100"
proof -
  have "ring (cg_cells (cg_example n)) 1 [2]" by (auto simp: cg_example_def ring_def linked_def nx_def pv_def)
  moreover have "tables_ok n (registerStatus (cg_example n)) (cg_vars (cg_example n)) 1 {2}"
    by (rule tables_okI) (use assms in \<open>auto simp: cg_example_def realRegs_def nth_list_update split: if_splits\<close>)
  ultimately show "cg_ok (cg_example n) [2]"
    unfolding cg_ok_def by (auto simp: cg_example_def dbuffer_init_wf)
  show "dbuffer_room (cbuffer (cg_example n)) 100"
    by (simp add: cg_example_def dbuffer_room_def dbuffer_init_def dbuffer_initSize_def DBUFFER_INIT_def)
qed

text \<open>
  C7: with up to five registers and at most sixteen slots, \<open>variable_ref\<close> gives a variable a register,
  spilling the variable used least recently when none is free, and keeps the allocator's tables
  consistent: it returns, the variable becomes the most recently used one, and the machine code it
  emitted, decoded and executed from any state in which the tables tell where each variable's value is,
  ends in a state in which the new tables do, for every variable.
\<close>

theorem variable_ref_keeps_values:
  assumes "cg_ok cg L" and "cg_vars cg v = Some var" and "0 < registerCount cg" and "registerCount cg \<le> 5"
    and "frameSize cg + length L \<le> 16" and "dbuffer_room (cbuffer cg) 8" and "5 \<le> fuel"
  shows "\<exists>cg' r L' is bs var'. variable_ref fuel cg v = Inr (cg', r) \<and> cg_ok cg' (L' @ [v]) \<and>
    cg_vars cg' v = Some var' \<and> var_reg var' = r \<and>
    dbuffer_contents (cbuffer cg') = dbuffer_contents (cbuffer cg) @ bs \<and> disassemble (length bs) bs = Some is \<and>
    (\<forall>m vals. holds cg m vals \<longrightarrow>
       (\<exists>m'. exec_insns is m = Some m' \<and> holds cg' m' vals \<and> mregs m' (real r) = vals v))"
proof -
  have f: "fuel = Suc (Suc (Suc (Suc (Suc (fuel - 5)))))" using assms(7) by simp
  obtain cg' r L' "is" var' where r: "variable_ref fuel cg v = Inr (cg', r)" "cg_ok cg' (L' @ [v])" "runs cg cg' is"
    "cg_vars cg' v = Some var'" "var_reg var' = r"
    using ref_ok [OF assms(1-6) order_refl, of "fuel - 5"] f by metis
  obtain bs where bs: "dbuffer_contents (cbuffer cg') = dbuffer_contents (cbuffer cg) @ bs" "disassemble (length bs) bs = Some is"
    using emitted_bytes r(3) unfolding runs_def by blast
  have "0 \<le> r" using tables_D(5) [OF cg_ok_D(1) [OF r(2)] r(4)] r(5) by simp
  have "\<exists>m'. exec_insns is m = Some m' \<and> holds cg' m' vals \<and> mregs m' (real r) = vals v" if "holds cg m vals" for m vals
    using r(3) that holdsD [OF _ r(4)] r(5) \<open>0 \<le> r\<close> unfolding runs_def by fastforce
  with r bs show ?thesis by blast
qed

theorem variable_ref_keeps_values_witness:
  "\<exists>cg' r is bs. variable_ref 5 (cg_example 1) 3 = Inr (cg', r) \<and>
    dbuffer_contents (cbuffer cg') = dbuffer_contents (cbuffer (cg_example 1)) @ bs \<and> disassemble (length bs) bs = Some is \<and>
    (\<forall>m vals. holds (cg_example 1) m vals \<longrightarrow>
       (\<exists>m'. exec_insns is m = Some m' \<and> holds cg' m' vals \<and> mregs m' (real r) = vals 3))"
proof -
  have ok: "cg_ok (cg_example 1) [2]" "dbuffer_room (cbuffer (cg_example 1)) 8"
    using cg_example_ok [of 1] dbuffer_room_mono by fastforce+
  have v: "cg_vars (cg_example 1) 3 = Some \<lparr>isTmp = 0, var_reg = - 1, stackPos = 1\<rparr>" by (simp add: cg_example_def)
  from variable_ref_keeps_values [OF ok(1) v _ _ _ ok(2), of 5] show ?thesis by (auto simp: cg_example_def)
qed

text \<open>
  C34: \<open>codegen_popBlock\<close> leaves no variable in a register: afterwards every register is free and
  every variable of the function has a slot of its own, and the code it emitted, decoded and executed,
  has moved the value of every variable to its slot. This holds while the slots in use and the variables in
  registers are at most sixteen together: the displacement of the seventeenth slot does not fit into its byte.
\<close>

theorem popBlock_spills_everything:
  assumes "cg_ok cg L" and "frameSize cg + length L \<le> 16" and "dbuffer_room (cbuffer cg) (4 * length L)" and "3 \<le> fuel"
  shows "\<exists>cg' is bs. codegen_popBlock fuel cg = Inr cg' \<and> cg_ok cg' [] \<and>
    registerStatus cg' = replicate (registerCount cg) 0 \<and> dom (cg_vars cg') = dom (cg_vars cg) \<and>
    (\<forall>v var. cg_vars cg' v = Some var \<longrightarrow> var_reg var = - 1 \<and> 1 \<le> stackPos var \<and> stackPos var \<le> int (frameSize cg')) \<and>
    inj_on (\<lambda>v. map_option stackPos (cg_vars cg' v)) (dom (cg_vars cg')) \<and>
    dbuffer_contents (cbuffer cg') = dbuffer_contents (cbuffer cg) @ bs \<and> disassemble (length bs) bs = Some is \<and>
    (\<forall>m vals. holds cg m vals \<longrightarrow> (\<exists>m'. exec_insns is m = Some m' \<and>
       (\<forall>v var. cg_vars cg' v = Some var \<longrightarrow> mslots m' (- stackPos var) = vals v)))"
proof -
  obtain f where f: "fuel = Suc (Suc (Suc f))" using fuel_3 [OF assms(4)] by blast
  have regs: "\<forall>j < registerCount cg. registerStatus cg ! j \<noteq> 0 \<longrightarrow> j \<in> set [0 ..< registerCount cg]"
    "set [0 ..< registerCount cg] \<subseteq> {..< registerCount cg}" by auto
  from store_registers_ok [OF assms(1-3) order_refl regs(2,1)] obtain cg' js where
    s: "store_registers fuel cg [0 ..< registerCount cg] = Inr cg'" "cg_ok cg' []" "runs cg cg' js"
    "registerCount cg' = registerCount cg" "dom (cg_vars cg') = dom (cg_vars cg)" unfolding f by blast
  note t = cg_ok_D(1) [OF s(2)]
  obtain bs where bs: "dbuffer_contents (cbuffer cg') = dbuffer_contents (cbuffer cg) @ bs" "disassemble (length bs) bs = Some js"
    using emitted_bytes s(3) unfolding runs_def by blast
  have slots: "\<forall>v var. cg_vars cg' v = Some var \<longrightarrow> var_reg var = - 1 \<and> 1 \<le> stackPos var \<and> stackPos var \<le> int (frameSize cg')"
    using all_in_slots [OF s(2)] by fastforce
  have free: "registerStatus cg' = replicate (registerCount cg) 0"
    using tables_D(2,6) [OF t] s(4) by (intro nth_equalityI) auto
  have "inj_on (\<lambda>v. map_option stackPos (cg_vars cg' v)) (dom (cg_vars cg'))"
  proof (rule inj_onI)
    fix u v assume a: "u \<in> dom (cg_vars cg')" "v \<in> dom (cg_vars cg')"
      "map_option stackPos (cg_vars cg' u) = map_option stackPos (cg_vars cg' v)"
    then obtain x y where "cg_vars cg' u = Some x" "cg_vars cg' v = Some y" by blast
    with a(3) tables_D(9) [OF t this] all_in_slots [OF s(2)] show "u = v" by simp
  qed
  moreover have "\<exists>m'. exec_insns js m = Some m' \<and>
      (\<forall>v var. cg_vars cg' v = Some var \<longrightarrow> mslots m' (- stackPos var) = vals v)" if "holds cg m vals" for m vals
    using s(3) that holdsD slots unfolding runs_def by (metis neg_0_le_iff_le not_one_le_zero)
  ultimately show ?thesis using s(1,2,5) free slots bs unfolding codegen_popBlock_def by blast
qed

theorem popBlock_spills_everything_witness:
  "\<exists>cg' is bs. codegen_popBlock 3 (cg_example 2) = Inr cg' \<and> registerStatus cg' = [0, 0] \<and>
    disassemble (length bs) bs = Some is \<and>
    (\<forall>m vals. holds (cg_example 2) m vals \<longrightarrow> (\<exists>m'. exec_insns is m = Some m' \<and>
       (\<forall>v var. cg_vars cg' v = Some var \<longrightarrow> mslots m' (- stackPos var) = vals v)))"
proof -
  have ok: "cg_ok (cg_example 2) [2]" "dbuffer_room (cbuffer (cg_example 2)) (4 * length [2 :: ptr])"
    using cg_example_ok [of 2] dbuffer_room_mono by fastforce+
  have "frameSize (cg_example 2) + length [2 :: ptr] \<le> 16" "registerCount (cg_example 2) = 2" by (simp_all add: cg_example_def)
  from popBlock_spills_everything [OF ok(1) this(1) ok(2), of 3] this(2) show ?thesis by (auto simp: numeral_2_eq_2)
qed

text \<open>
  C35: the caller's and the callee's side of the calling convention fit. With at least seven registers
  and up to four arguments, \<open>arch_functionCall\<close> emits code that, decoded and executed up to its call
  instruction, leaves every variable of the caller in a slot with its value and the arguments in RDI, RSI,
  RDX and RCX, an argument given twice included; and \<open>codegen_initFunction\<close> on a fresh code generator makes
  variables whose registers are those, so that each of them has the value of the argument passed for it.
  As before, slots in use and variables in registers are at most sixteen together.
\<close>

theorem functionCall_passes_arguments:
  assumes "cg_ok cg L" and "7 \<le> registerCount cg" and "length vs \<le> 4" and "set vs \<subseteq> dom (cg_vars cg)"
    and "frameSize cg + length L \<le> 16" and "dbuffer_room (cbuffer cg) (4 * (length L + length vs))" and "3 \<le> fuel"
    and "7 \<le> n" and "n \<le> length realRegs"
  shows "\<exists>cg' is bs callee0 callee ws. arch_functionCall fuel cg label vs =
      bindE (emit_call (cbuffer cg') label) (\<lambda>(db, label). Inr (cg'\<lparr>cbuffer := db\<rparr>, label)) \<and> cg_ok cg' [] \<and>
    dbuffer_contents (cbuffer cg') = dbuffer_contents (cbuffer cg) @ bs \<and> disassemble (length bs) bs = Some is \<and>
    codegen_init n base = Inr callee0 \<and> codegen_initFunction callee0 (length vs) = Inr (callee, ws) \<and>
    length ws = length vs \<and>
    (\<forall>m vals. holds cg m vals \<longrightarrow> (\<exists>m'. exec_insns is m = Some m' \<and> holds cg' m' vals \<and>
       (\<forall>j < length vs. \<exists>w. cg_vars callee (ws ! j) = Some w \<and> 0 \<le> var_reg w \<and>
          real (var_reg w) = [7, 6, 2, 1] ! j \<and> mregs m' (real (var_reg w)) = vals (vs ! j))))"
proof -
  obtain f where f: "fuel = Suc (Suc (Suc f))" using fuel_3 [OF assms(7)] by blast
  obtain cg' "is" where c: "\<And>label. arch_functionCall fuel cg label vs =
      bindE (emit_call (cbuffer cg') label) (\<lambda>(db, label). Inr (cg'\<lparr>cbuffer := db\<rparr>, label))"
    "cg_ok cg' []" "emitted cg cg' is"
    "\<And>m vals. holds cg m vals \<Longrightarrow> \<exists>m'. exec_insns is m = Some m' \<and> holds cg' m' vals \<and>
      (\<forall>j < length vs. mregs m' (real (arg_regs ! j)) = vals (vs ! j))"
    using functionCall_ok [OF assms(1-6) order_refl, of f] unfolding f by blast
  obtain bs where bs: "dbuffer_contents (cbuffer cg') = dbuffer_contents (cbuffer cg) @ bs" "disassemble (length bs) bs = Some is"
    using emitted_bytes [OF c(3)] by blast
  obtain callee0 where c0: "codegen_init n base = Inr callee0" "cg_ok callee0 []" "registerCount callee0 = n"
    "registerStatus callee0 = replicate n 0" using init_ok [of n base] assms(9) by blast
  have arg: "0 \<le> arg_regs ! i \<and> arg_regs ! i < 7" if "i < 6" for i
    using that by (auto simp: arg_regs_def less_Suc_eq numeral_eq_Suc)
  have sysv: "\<forall>j < (4::nat). real (arg_regs ! j) = [7, 6, 2, 1] ! j"
    by (simp add: All_less_Suc2 numeral_eq_Suc arg_regs_def real_def realRegs_def)
  have "\<exists>cg' vs' L'. init_args callee0 [0 ..< length vs] = Inr (cg', vs') \<and> cg_ok cg' L' \<and> length vs' = length [0 ..< length vs] \<and>
    cbuffer cg' = cbuffer callee0 \<and> (\<forall>u w. cg_vars callee0 u = Some w \<longrightarrow> cg_vars cg' u = Some w) \<and>
    (\<forall>j < length [0 ..< length vs]. \<exists>w. cg_vars cg' (vs' ! j) = Some w \<and> var_reg w = arg_regs ! ([0 ..< length vs] ! j))"
  proof (rule init_args_ok [OF c0(2)])
    show "\<forall>i \<in> set [0 ..< length vs]. registerStatus callee0 ! nat (arg_regs ! i) = 0"
    proof
      fix i assume "i \<in> set [0 ..< length vs]"
      with assms(3) have "i < 6" by simp
      with arg [of i] assms(8) have "nat (arg_regs ! i) < n" by auto
      then show "registerStatus callee0 ! nat (arg_regs ! i) = 0" using c0(4) by simp
    qed
  qed (use assms c0 in auto)
  then obtain callee ws where w: "codegen_initFunction callee0 (length vs) = Inr (callee, ws)" "length ws = length vs"
    "\<forall>j < length vs. \<exists>w. cg_vars callee (ws ! j) = Some w \<and> var_reg w = arg_regs ! j"
    unfolding codegen_initFunction_def by auto
  have run: "\<exists>m'. exec_insns is m = Some m' \<and> holds cg' m' vals \<and>
      (\<forall>j < length vs. \<exists>w. cg_vars callee (ws ! j) = Some w \<and> 0 \<le> var_reg w \<and>
        real (var_reg w) = [7, 6, 2, 1] ! j \<and> mregs m' (real (var_reg w)) = vals (vs ! j))" if h: "holds cg m vals" for m vals
  proof -
    obtain m' where m': "exec_insns is m = Some m'" "holds cg' m' vals"
      "\<And>j. j < length vs \<Longrightarrow> mregs m' (real (arg_regs ! j)) = vals (vs ! j)" using c(4) [OF h] by blast
    have "\<exists>w. cg_vars callee (ws ! j) = Some w \<and> 0 \<le> var_reg w \<and>
        real (var_reg w) = [7, 6, 2, 1] ! j \<and> mregs m' (real (var_reg w)) = vals (vs ! j)"
      if j: "j < length vs" for j
    proof -
      obtain w where "cg_vars callee (ws ! j) = Some w" "var_reg w = arg_regs ! j" using w(3) j by blast
      moreover have "real (arg_regs ! j) = [7, 6, 2, 1] ! j" using sysv j assms(3) by simp
      ultimately show ?thesis using m'(3) [OF j] arg [of j] j assms(3) by (intro exI [of _ w]) simp
    qed
    with m'(1,2) show ?thesis by blast
  qed
  show ?thesis
    by (rule exI [of _ cg'], rule exI [of _ "is"], rule exI [of _ bs], rule exI [of _ callee0],
        rule exI [of _ callee], rule exI [of _ ws]) (use c(1) [of label] c(2) bs c0(1) w(1,2) run in blast)
qed

theorem functionCall_passes_arguments_witness:
  "\<exists>cg' is bs callee0 callee ws. arch_functionCall 3 (cg_example 7) empty_label [3, 2, 3] =
      bindE (emit_call (cbuffer cg') empty_label) (\<lambda>(db, label). Inr (cg'\<lparr>cbuffer := db\<rparr>, label)) \<and> cg_ok cg' [] \<and>
    dbuffer_contents (cbuffer cg') = dbuffer_contents (cbuffer (cg_example 7)) @ bs \<and>
    disassemble (length bs) bs = Some is \<and>
    codegen_init 10 1 = Inr callee0 \<and> codegen_initFunction callee0 (length [3, 2, 3 :: ptr]) = Inr (callee, ws) \<and>
    length ws = length [3, 2, 3 :: ptr] \<and>
    (\<forall>m vals. holds (cg_example 7) m vals \<longrightarrow> (\<exists>m'. exec_insns is m = Some m' \<and> holds cg' m' vals \<and>
       (\<forall>j < length [3, 2, 3 :: ptr]. \<exists>w. cg_vars callee (ws ! j) = Some w \<and> 0 \<le> var_reg w \<and>
          real (var_reg w) = [7, 6, 2, 1] ! j \<and> mregs m' (real (var_reg w)) = vals ([3, 2, 3] ! j))))"
proof (rule functionCall_passes_arguments)
  show "cg_ok (cg_example 7) [2]" by (rule cg_example_ok) simp_all
  show "dbuffer_room (cbuffer (cg_example 7)) (4 * (length [2 :: ptr] + length [3, 2, 3 :: ptr]))"
    using cg_example_ok(2) [of 7] by (rule dbuffer_room_mono) simp_all
qed (simp_all add: cg_example_def realRegs_def)

end
