(* ===== verification/Hashmap.thy ===== *)
theory Hashmap
  imports Linked_List Buffer "HOL-Library.Multiset"
begin

text \<open>
  \<open>hashmap.c\<close>: the intrusive hash map. The buckets are an array of list heads that are set up when the
  first entry arrives; an entry carries its key and its list cell. The model runs on the heap of
  \<open>Linked_List\<close>; \<open>hm_inv\<close> relates a map on the heap to the sequences of entries in its buckets and
  \<open>hm_map\<close> reads them as a finite map, which every operation is shown to implement. What the map needs
  of a key type is the locale \<open>hm_key_laws\<close>, interpreted for the three key types of the program.
\<close>

section \<open>Keys\<close>

text \<open>The union of \<open>hm_key\<close> holds an \<open>int\<close>, a range or a pointer.\<close>

datatype key_union = IKey "32 word" | RangeKey range_t | PtrKey "64 word"

record hm_key =
  kunion :: key_union
  khash :: "64 word"

record hm_key_type =
  isKeyEqual :: "hm_key \<Rightarrow> hm_key \<Rightarrow> bool res"
  hashKey :: "hm_key \<Rightarrow> hm_key res"

text \<open>Reading \<open>i_key\<close> of a pointer gives its lower 32 bits; the other mixed reads are not determined.\<close>

definition read_i_key :: "hm_key \<Rightarrow> 32 word res" where
  "read_i_key k = (case kunion k of IKey w \<Rightarrow> Inr w | PtrKey p \<Rightarrow> Inr (ucast p) | RangeKey r \<Rightarrow> Inl TypeConfusion)"

definition read_ptr_key :: "hm_key \<Rightarrow> 64 word res" where
  "read_ptr_key k = (case kunion k of PtrKey p \<Rightarrow> Inr p | _ \<Rightarrow> Inl TypeConfusion)"

definition read_range_key :: "hm_key \<Rightarrow> range_t res" where
  "read_range_key k = (case kunion k of RangeKey r \<Rightarrow> Inr r | _ \<Rightarrow> Inl TypeConfusion)"

definition ptr_hashKey :: "hm_key \<Rightarrow> hm_key res" where
  "ptr_hashKey key = bindE (read_i_key key) (\<lambda>w. Inr (key\<lparr>khash := scast w\<rparr>))"

definition ptr_isKeyEqual :: "hm_key \<Rightarrow> hm_key \<Rightarrow> bool res" where
  "ptr_isKeyEqual a b = bindE (read_ptr_key a) (\<lambda>p. bindE (read_ptr_key b) (\<lambda>q. Inr (p = q)))"

definition int_hashKey :: "hm_key \<Rightarrow> hm_key res" where
  "int_hashKey key = bindE (read_i_key key) (\<lambda>w. Inr (key\<lparr>khash := scast w\<rparr>))"

definition int_isKeyEqual :: "hm_key \<Rightarrow> hm_key \<Rightarrow> bool res" where
  "int_isKeyEqual a b = bindE (read_i_key a) (\<lambda>v. bindE (read_i_key b) (\<lambda>w. Inr (v = w)))"

text \<open>A plain \<open>char\<close> is signed, so a byte above 127 is subtracted.\<close>

fun djb_loop :: "64 word \<Rightarrow> string \<Rightarrow> 64 word" where
  "djb_loop hash [] = hash"
| "djb_loop hash (c # cs) = djb_loop ((push_bit 5 hash + hash) + word_of_int (schar c)) cs"

definition range_djb :: "hm_key \<Rightarrow> hm_key res" where
  "range_djb key = bindE (read_range_key key) (\<lambda>r.
     if rsize r \<le> length (rmem r) then Inr (key\<lparr>khash := djb_loop 5381 (range_view r)\<rparr>)
     else Inl OutOfBounds)"

definition range_isKeyEqual :: "hm_key \<Rightarrow> hm_key \<Rightarrow> bool res" where
  "range_isKeyEqual a b =
     bindE (read_range_key a) (\<lambda>r. bindE (read_range_key b) (\<lambda>s. Inr (range_cmp r s)))"

definition intKeyType :: hm_key_type where
  "intKeyType = \<lparr>isKeyEqual = int_isKeyEqual, hashKey = int_hashKey\<rparr>"

definition rangeKeyType :: hm_key_type where
  "rangeKeyType = \<lparr>isKeyEqual = range_isKeyEqual, hashKey = range_djb\<rparr>"

definition ptrKeyType :: hm_key_type where
  "ptrKeyType = \<lparr>isKeyEqual = ptr_isKeyEqual, hashKey = ptr_hashKey\<rparr>"

section \<open>The heap of a map\<close>

text \<open>
  An entry is named by its list cell (\<open>containerof\<close> goes back and forth between the two); list heads of
  an array have consecutive numbers. \<open>heap_top\<close> is above everything allocated so far.
\<close>

record hm_heap =
  cells :: list_heap
  entry_key :: "ptr \<Rightarrow> hm_key option"
  heap_top :: ptr

record hashmap_t =
  buckets :: ptr
  bucketCount :: size_t
  hm_size :: size_t
  keyType :: hm_key_type

text \<open>\<open>dzmalloc\<close> of \<open>n\<close> list heads, all null, and \<open>free\<close> of such an array.\<close>

definition alloc_heads :: "hm_heap \<Rightarrow> nat \<Rightarrow> ptr \<times> hm_heap" where
  "alloc_heads h n = (heap_top h,
     h\<lparr>cells := (\<lambda>p. if heap_top h \<le> p \<and> p < heap_top h + n then Some \<lparr>lprev = 0, lnext = 0\<rparr> else cells h p),
       heap_top := heap_top h + n\<rparr>)"

definition free_heads :: "hm_heap \<Rightarrow> ptr \<Rightarrow> nat \<Rightarrow> hm_heap" where
  "free_heads h base n = h\<lparr>cells := (\<lambda>p. if base \<le> p \<and> p < base + n then None else cells h p)\<rparr>"

definition read_key :: "hm_heap \<Rightarrow> ptr \<Rightarrow> hm_key res" where
  "read_key h e = (case entry_key h e of None \<Rightarrow> Inl NullDeref | Some k \<Rightarrow> Inr k)"

section \<open>The operations\<close>

definition hm_key_init :: "hashmap_t \<Rightarrow> hm_key \<Rightarrow> hm_key res" where
  "hm_key_init hm key = hashKey (keyType hm) key"

definition hm_key_compare :: "hashmap_t \<Rightarrow> hm_key \<Rightarrow> hm_key \<Rightarrow> bool res" where
  "hm_key_compare hm a b = isKeyEqual (keyType hm) a b"

definition HM_INITIAL_BUCKET_SIZE :: nat where
  "HM_INITIAL_BUCKET_SIZE = 100"

definition hashmap_inits :: "hm_heap \<Rightarrow> hm_key_type \<Rightarrow> nat \<Rightarrow> hm_heap \<times> hashmap_t" where
  "hashmap_inits h kType n =
     (let (b, h) = alloc_heads h n in (h, \<lparr>buckets = b, bucketCount = n, hm_size = 0, keyType = kType\<rparr>))"

definition hashmap_init :: "hm_heap \<Rightarrow> hm_key_type \<Rightarrow> hm_heap \<times> hashmap_t" where
  "hashmap_init h kType = hashmap_inits h kType HM_INITIAL_BUCKET_SIZE"

definition hashmap_locateBucket :: "hashmap_t \<Rightarrow> hm_key \<Rightarrow> ptr res" where
  "hashmap_locateBucket hm key =
     (if bucketCount hm = 0 then Inl DivByZero else Inr (buckets hm + unat (khash key) mod bucketCount hm))"

fun find_loop :: "nat \<Rightarrow> hm_heap \<Rightarrow> hashmap_t \<Rightarrow> ptr \<Rightarrow> hm_key \<Rightarrow> ptr \<Rightarrow> ptr option res" where
  "find_loop 0 h hm bucket key c = Inl OutOfFuel"
| "find_loop (Suc fuel) h hm bucket key c =
     (if c = bucket then Inr None
      else bindE (read_key h c) (\<lambda>k.
           bindE (hm_key_compare hm key k) (\<lambda>eq.
             if eq then Inr (Some c)
             else bindE (get_next (cells h) c) (\<lambda>n. find_loop fuel h hm bucket key n))))"

definition hashmap_findInBucket :: "nat \<Rightarrow> hm_heap \<Rightarrow> hashmap_t \<Rightarrow> ptr \<Rightarrow> hm_key \<Rightarrow> ptr option res" where
  "hashmap_findInBucket fuel h hm bucket key =
     bindE (get_next (cells h) bucket) (\<lambda>n.
       if n = 0 then Inr None else find_loop fuel h hm bucket key n)"

text \<open>Both \<open>hashmap_set\<close> and \<open>hashmap_rehash\<close> set up a bucket that is not yet in use.\<close>

definition bucket_add :: "list_heap \<Rightarrow> ptr \<Rightarrow> ptr \<Rightarrow> list_heap res" where
  "bucket_add h bucket e =
     bindE (get_next h bucket) (\<lambda>n.
     bindE (if n = 0 then LIST_INIT h bucket else Inr h) (\<lambda>h. list_add h bucket e))"

fun move_loop :: "nat \<Rightarrow> hm_heap \<Rightarrow> hashmap_t \<Rightarrow> ptr \<Rightarrow> ptr \<Rightarrow> hm_heap res" where
  "move_loop 0 h hm head c = Inl OutOfFuel"
| "move_loop (Suc fuel) h hm head c =
     (if c = head then Inr h
      else bindE (get_next (cells h) c) (\<lambda>next.
           bindE (read_key h c) (\<lambda>k.
           bindE (hashmap_locateBucket hm k) (\<lambda>newBucket.
           bindE (bucket_add (cells h) newBucket c) (\<lambda>cs.
             move_loop fuel (h\<lparr>cells := cs\<rparr>) hm head next)))))"

text \<open>The outer loop of \<open>hashmap_rehash\<close>, from bucket \<open>i\<close>, for \<open>n\<close> buckets.\<close>

fun rehash_loop :: "nat \<Rightarrow> hm_heap \<Rightarrow> hashmap_t \<Rightarrow> ptr \<Rightarrow> nat \<Rightarrow> nat \<Rightarrow> hm_heap res" where
  "rehash_loop fuel h hm old i 0 = Inr h"
| "rehash_loop fuel h hm old i (Suc n) =
     bindE (get_next (cells h) (old + i)) (\<lambda>first.
     bindE (if first = 0 then Inr h
            else bindE (get_next (cells h) first) (\<lambda>next. move_loop fuel h hm (old + i) first)) (\<lambda>h.
       rehash_loop fuel h hm old (i + 1) n))"

definition hashmap_rehash :: "nat \<Rightarrow> hm_heap \<Rightarrow> hashmap_t \<Rightarrow> (hm_heap \<times> hashmap_t) res" where
  "hashmap_rehash fuel h hm =
     (let size = bucketCount hm;
          oldCount = int_cast (int (bucketCount hm));
          count = mul64 (bucketCount hm) 2;
          old = buckets hm;
          (b, h) = alloc_heads h count;
          hm = hm\<lparr>bucketCount := count, buckets := b\<rparr> in
      bindE (rehash_loop fuel h hm old 0 (nat oldCount)) (\<lambda>h.
        Inr (free_heads h old size, hm)))"

definition hashmap_set :: "nat \<Rightarrow> hm_heap \<Rightarrow> hashmap_t \<Rightarrow> hm_key \<Rightarrow> ptr \<Rightarrow> (hm_heap \<times> hashmap_t) res" where
  "hashmap_set fuel h hm key entry =
     bindE (hashmap_locateBucket hm key) (\<lambda>bucket.
     bindE (hashmap_findInBucket fuel h hm bucket key) (\<lambda>found.
     bindE (case found of
              None \<Rightarrow> Inr (h, hm)
            | Some e \<Rightarrow> bindE (list_deattach (cells h) e) (\<lambda>cs.
                Inr (h\<lparr>cells := cs\<rparr>, hm\<lparr>hm_size := sub64 (hm_size hm) 1\<rparr>))) (\<lambda>(h, hm).
     bindE (list_deref (cells h) entry) (\<lambda>_.
     let h = h\<lparr>entry_key := (entry_key h)(entry \<mapsto> key)\<rparr> in
     bindE (bucket_add (cells h) bucket entry) (\<lambda>cs.
     let h = h\<lparr>cells := cs\<rparr>; hm = hm\<lparr>hm_size := add64 (hm_size hm) 1\<rparr> in
     if mul64 (hm_size hm) 100 div bucketCount hm < 80 then Inr (h, hm)
     else hashmap_rehash fuel h hm)))))"

definition hashmap_get :: "nat \<Rightarrow> hm_heap \<Rightarrow> hashmap_t \<Rightarrow> hm_key \<Rightarrow> ptr option res" where
  "hashmap_get fuel h hm key =
     bindE (hashmap_locateBucket hm key) (\<lambda>bucket. hashmap_findInBucket fuel h hm bucket key)"

definition hashmap_remove :: "nat \<Rightarrow> hm_heap \<Rightarrow> hashmap_t \<Rightarrow> hm_key \<Rightarrow> (hm_heap \<times> hashmap_t) res" where
  "hashmap_remove fuel h hm key =
     bindE (hashmap_locateBucket hm key) (\<lambda>bucket.
     bindE (hashmap_findInBucket fuel h hm bucket key) (\<lambda>found.
       case found of
         None \<Rightarrow> Inr (h, hm)
       | Some e \<Rightarrow> bindE (list_deattach (cells h) e) (\<lambda>cs.
           Inr (h\<lparr>cells := cs\<rparr>, hm\<lparr>hm_size := sub64 (hm_size hm) 1\<rparr>))))"

text \<open>The variants for a kind of key build the key and its hash first; \<open>hash\<close> is not set before.\<close>

definition new_key :: "hashmap_t \<Rightarrow> key_union \<Rightarrow> hm_key res" where
  "new_key hm u = hm_key_init hm \<lparr>kunion = u, khash = 0\<rparr>"

definition hashmap_setRange :: "nat \<Rightarrow> hm_heap \<Rightarrow> hashmap_t \<Rightarrow> range_t \<Rightarrow> ptr \<Rightarrow> (hm_heap \<times> hashmap_t) res" where
  "hashmap_setRange fuel h hm r entry = bindE (new_key hm (RangeKey r)) (\<lambda>key. hashmap_set fuel h hm key entry)"

definition hashmap_getRange :: "nat \<Rightarrow> hm_heap \<Rightarrow> hashmap_t \<Rightarrow> range_t \<Rightarrow> ptr option res" where
  "hashmap_getRange fuel h hm r = bindE (new_key hm (RangeKey r)) (\<lambda>key. hashmap_get fuel h hm key)"

definition hashmap_removeRange :: "nat \<Rightarrow> hm_heap \<Rightarrow> hashmap_t \<Rightarrow> range_t \<Rightarrow> (hm_heap \<times> hashmap_t) res" where
  "hashmap_removeRange fuel h hm r = bindE (new_key hm (RangeKey r)) (\<lambda>key. hashmap_remove fuel h hm key)"

definition hashmap_setInt :: "nat \<Rightarrow> hm_heap \<Rightarrow> hashmap_t \<Rightarrow> 32 word \<Rightarrow> ptr \<Rightarrow> (hm_heap \<times> hashmap_t) res" where
  "hashmap_setInt fuel h hm ikey entry = bindE (new_key hm (IKey ikey)) (\<lambda>key. hashmap_set fuel h hm key entry)"

definition hashmap_getInt :: "nat \<Rightarrow> hm_heap \<Rightarrow> hashmap_t \<Rightarrow> 32 word \<Rightarrow> ptr option res" where
  "hashmap_getInt fuel h hm ikey = bindE (new_key hm (IKey ikey)) (\<lambda>key. hashmap_get fuel h hm key)"

definition hashmap_removeInt :: "nat \<Rightarrow> hm_heap \<Rightarrow> hashmap_t \<Rightarrow> 32 word \<Rightarrow> (hm_heap \<times> hashmap_t) res" where
  "hashmap_removeInt fuel h hm ikey = bindE (new_key hm (IKey ikey)) (\<lambda>key. hashmap_remove fuel h hm key)"

definition hashmap_setPtr :: "nat \<Rightarrow> hm_heap \<Rightarrow> hashmap_t \<Rightarrow> 64 word \<Rightarrow> ptr \<Rightarrow> (hm_heap \<times> hashmap_t) res" where
  "hashmap_setPtr fuel h hm p entry = bindE (new_key hm (PtrKey p)) (\<lambda>key. hashmap_set fuel h hm key entry)"

definition hashmap_getPtr :: "nat \<Rightarrow> hm_heap \<Rightarrow> hashmap_t \<Rightarrow> 64 word \<Rightarrow> ptr option res" where
  "hashmap_getPtr fuel h hm p = bindE (new_key hm (PtrKey p)) (\<lambda>key. hashmap_get fuel h hm key)"

definition hashmap_removePtr :: "nat \<Rightarrow> hm_heap \<Rightarrow> hashmap_t \<Rightarrow> 64 word \<Rightarrow> (hm_heap \<times> hashmap_t) res" where
  "hashmap_removePtr fuel h hm p = bindE (new_key hm (PtrKey p)) (\<lambda>key. hashmap_remove fuel h hm key)"

section \<open>Buckets on the heap\<close>

definition bucket_list :: "ptr list option \<Rightarrow> ptr list" where
  "bucket_list b = (case b of None \<Rightarrow> [] | Some xs \<Rightarrow> xs)"

definition entries :: "ptr list option list \<Rightarrow> ptr list" where
  "entries B = concat (map bucket_list B)"

definition bucket_rep :: "list_heap \<Rightarrow> ptr \<Rightarrow> ptr list option \<Rightarrow> bool" where
  "bucket_rep h p b = (case b of None \<Rightarrow> nx h p = Some 0 | Some xs \<Rightarrow> ring h p xs)"

definition buckets_rep :: "list_heap \<Rightarrow> ptr \<Rightarrow> ptr list option list \<Rightarrow> bool" where
  "buckets_rep h base B \<longleftrightarrow> h 0 = None \<and> 0 < base \<and>
     (\<forall>i < length B. bucket_rep h (base + i) (B ! i)) \<and> distinct (entries B) \<and>
     set (entries B) \<inter> {base ..< base + length B} = {}"

lemma bucket_list_simps [simp]: "bucket_list None = []" "bucket_list (Some xs) = xs"
  by (simp_all add: bucket_list_def)

lemma entries_simps [simp]:
  "entries [] = []" "entries (b # B) = bucket_list b @ entries B" "entries (B @ C) = entries B @ entries C"
  "entries (replicate n None) = []"
  by (simp_all add: entries_def)

lemma entries_nth: "e \<in> set (entries B) \<longleftrightarrow> (\<exists>i < length B. e \<in> set (bucket_list (B ! i)))"
  by (auto simp: entries_def) (metis in_set_conv_nth)

lemma bucket_rep_simps [simp]:
  "bucket_rep h p None \<longleftrightarrow> nx h p = Some 0" "bucket_rep h p (Some xs) \<longleftrightarrow> ring h p xs"
  by (simp_all add: bucket_rep_def)

lemma bucket_rep_cells: "bucket_rep h p b \<Longrightarrow> set (p # bucket_list b) \<subseteq> dom h"
  using il.rep_cells by (cases b) (auto simp: nx_def dom_def)

lemma bucket_rep_frame:
  "changes h h' A \<Longrightarrow> bucket_rep h p b \<Longrightarrow> set (p # bucket_list b) \<inter> A = {} \<Longrightarrow> bucket_rep h' p b"
  using il.same_rep by (cases b) (auto simp: changes_def nx_def)

lemma buckets_rep_nth:
  assumes "buckets_rep h base B" and "i < length B"
  shows "bucket_rep h (base + i) (B ! i)" and "set (bucket_list (B ! i)) \<subseteq> set (entries B)"
    and "base + i \<in> dom h" and "set (bucket_list (B ! i)) \<subseteq> dom h"
proof -
  show 1: "bucket_rep h (base + i) (B ! i)" using assms by (simp add: buckets_rep_def)
  show "set (bucket_list (B ! i)) \<subseteq> set (entries B)" using assms(2) nth_mem by (fastforce simp: entries_def)
  show "base + i \<in> dom h" "set (bucket_list (B ! i)) \<subseteq> dom h" using bucket_rep_cells [OF 1] by auto
qed

lemma entries_cells: "buckets_rep h base B \<Longrightarrow> set (entries B) \<subseteq> dom h"
  using buckets_rep_nth(4) by (fastforce simp: entries_def in_set_conv_nth)

text \<open>The general step: one bucket changes; nothing of the others is written.\<close>

lemma buckets_rep_step:
  assumes rep: "buckets_rep h base (B1 @ b # B2)" and ch: "changes h h' A"
    and new: "bucket_rep h' (base + length B1) b'" "distinct (bucket_list b')"
    and frame: "A \<inter> (set (entries B1) \<union> set (entries B2)) = {}"
      "A \<inter> {base ..< base + length (B1 @ b # B2)} \<subseteq> {base + length B1}"
    and fresh: "set (bucket_list b') \<inter> (set (entries B1) \<union> set (entries B2)) = {}"
      "set (bucket_list b') \<inter> {base ..< base + length (B1 @ b # B2)} = {}"
  shows "buckets_rep h' base (B1 @ b' # B2)"
proof -
  have others: "bucket_rep h' (base + i) ((B1 @ b' # B2) ! i)" if i: "i < length (B1 @ b # B2)" "i \<noteq> length B1" for i
  proof -
    have nth: "(B1 @ b' # B2) ! i = (B1 @ b # B2) ! i" using i by (auto simp: nth_append nth_Cons split: nat.splits)
    have "(B1 @ b # B2) ! i \<in> set B1 \<union> set B2"
      using i by (auto simp: nth_append nth_Cons split: nat.splits)
    then have "set (bucket_list ((B1 @ b # B2) ! i)) \<subseteq> set (entries B1) \<union> set (entries B2)"
      by (auto simp: entries_def)
    moreover have "base + i \<notin> A" using i frame(2) by auto
    ultimately have "set ((base + i) # bucket_list ((B1 @ b # B2) ! i)) \<inter> A = {}" using frame(1) by auto
    from bucket_rep_frame [OF ch buckets_rep_nth(1) [OF rep i(1)] this] show ?thesis unfolding nth .
  qed
  have "bucket_rep h' (base + i) ((B1 @ b' # B2) ! i)" if "i < length (B1 @ b' # B2)" for i
    using that others [of i] new(1) by (cases "i = length B1") auto
  moreover have "h' 0 = None" using rep ch by (auto simp: buckets_rep_def changes_def domIff)
  moreover have "distinct (entries (B1 @ b' # B2))"
    using rep new(2) fresh(1) by (auto simp: buckets_rep_def)
  ultimately show ?thesis using rep fresh(2) by (auto simp: buckets_rep_def)
qed

lemma bucket_add_rep:
  assumes rep: "buckets_rep h base (B1 @ b # B2)"
    and e: "e \<in> dom h" "e \<notin> set (entries (B1 @ b # B2))" "e \<notin> {base ..< base + length (B1 @ b # B2)}"
  obtains h' where "bucket_add h (base + length B1) e = Inr h'"
    and "buckets_rep h' base (B1 @ Some (bucket_list b @ [e]) # B2)"
    and "changes h h' ({e, base + length B1} \<union> set (bucket_list b))"
proof -
  let ?p = "base + length B1" and ?A = "{e, base + length B1} \<union> set (bucket_list b)"
  have b: "bucket_rep h ?p b" using buckets_rep_nth(1) [OF rep, of "length B1"] by simp
  have p0: "?p \<noteq> 0" using rep by (simp add: buckets_rep_def)
  have "\<exists>h'. bucket_add h ?p e = Inr h' \<and> ring h' ?p (bucket_list b @ [e]) \<and> changes h h' ?A"
  proof (cases b)
    case None
    with b have n: "nx h ?p = Some 0" by simp
    then have "?p \<in> dom h" by (auto simp: nx_def)
    from il.init_law [OF this] obtain h1 where h1: "LIST_INIT h ?p = Inr h1" "ring h1 ?p []" "changes h h1 {?p}"
      by blast
    have "e \<in> dom h1" "e \<notin> set (?p # [])" using e il.same_cells [OF h1(3)] by auto
    from il.add_law [OF h1(2) this] obtain h2 where
      h2: "list_add h1 ?p e = Inr h2" "ring h2 ?p ([] @ [e])" "changes h1 h2 (insert e (set [?p]))" by blast
    have "changes h h2 ?A" using changes_trans [OF h1(3) h2(3)] None by (simp add: insert_commute)
    then show ?thesis using n h1(1) h2(1,2) None by (simp add: bucket_add_def)
  next
    case (Some xs)
    with b have r: "ring h ?p xs" by simp
    have n: "nx h ?p = Some (hd (xs @ [?p]))" using ring_links(1) [of h ?p "[]" xs] r by simp
    have "hd (xs @ [?p]) \<in> dom h" using il.rep_cells [OF r] by (cases xs) auto
    then have "hd (xs @ [?p]) \<noteq> 0" using rep by (metis buckets_rep_def domIff)
    moreover have "e \<notin> set (?p # xs)" using e Some by auto
    ultimately show ?thesis using il.add_law [OF r e(1)] n Some by (auto simp: bucket_add_def)
  qed
  then obtain h' where h': "bucket_add h ?p e = Inr h'" "ring h' ?p (bucket_list b @ [e])" "changes h h' ?A" by blast
  have d: "distinct (entries (B1 @ b # B2))" "set (entries (B1 @ b # B2)) \<inter> {base ..< base + length (B1 @ b # B2)} = {}"
    using rep by (simp_all add: buckets_rep_def)
  have "buckets_rep h' base (B1 @ Some (bucket_list b @ [e]) # B2)"
    by (rule buckets_rep_step [OF rep h'(3)]) (use h'(2) d e in auto)
  with h' that show ?thesis by blast
qed

lemma bucket_deattach_rep:
  assumes rep: "buckets_rep h base (B1 @ Some (us @ e # vs) # B2)"
  obtains h' where "list_deattach h e = Inr h'" and "buckets_rep h' base (B1 @ Some (us @ vs) # B2)"
    and "changes h h' (insert (base + length B1) (set (us @ vs)))" and "e \<notin> set (entries (B1 @ Some (us @ vs) # B2))"
proof -
  let ?p = "base + length B1"
  have "ring h ?p (us @ e # vs)" using buckets_rep_nth(1) [OF rep, of "length B1"] by simp
  from il.deattach_law [OF this] obtain h' where
    h': "list_deattach h e = Inr h'" "ring h' ?p (us @ vs)" "changes h h' (set (?p # us @ vs))" by blast
  have d: "distinct (entries (B1 @ Some (us @ e # vs) # B2))"
    "set (entries (B1 @ Some (us @ e # vs) # B2)) \<inter> {base ..< base + length (B1 @ Some (us @ e # vs) # B2)} = {}"
    using rep unfolding buckets_rep_def by blast+
  have "buckets_rep h' base (B1 @ Some (us @ vs) # B2)"
    by (rule buckets_rep_step [OF rep h'(3)]) (use h'(2) d in auto)
  moreover have "e \<notin> set (entries (B1 @ Some (us @ vs) # B2))" using d(1) by auto
  ultimately show ?thesis using that h' by simp
qed

section \<open>Rehashing\<close>

text \<open>The bucket of an entry among \<open>n\<close>, and buckets that hold the right entries, counted from \<open>i\<close>.\<close>

definition key_bucket :: "hm_heap \<Rightarrow> nat \<Rightarrow> ptr \<Rightarrow> nat" where
  "key_bucket h n e = unat (khash (the (entry_key h e))) mod n"

fun placed :: "hm_heap \<Rightarrow> nat \<Rightarrow> nat \<Rightarrow> ptr list option list \<Rightarrow> bool" where
  "placed h n i [] = True"
| "placed h n i (b # B) = ((\<forall>e \<in> set (bucket_list b). key_bucket h n e = i) \<and> placed h n (i + 1) B)"

lemma placed_append [simp]: "placed h n i (B @ C) \<longleftrightarrow> placed h n i B \<and> placed h n (i + length B) C"
  by (induction B arbitrary: i) auto

lemma placed_nth: "placed h n i B \<Longrightarrow> j < length B \<Longrightarrow> e \<in> set (bucket_list (B ! j)) \<Longrightarrow> key_bucket h n e = i + j"
  by (induction B arbitrary: i j) (auto simp: nth_Cons split: nat.splits)

lemma placed_cong: "(\<And>e. e \<in> set (entries B) \<Longrightarrow> key_bucket h' n e = key_bucket h n e) \<Longrightarrow> placed h' n i B = placed h n i B"
  by (induction B arbitrary: i) auto

lemma placed_empty [simp]: "placed h n i (replicate m None)"
  by (induction m arbitrary: i) auto

lemma key_bucket_cells [simp]: "key_bucket (h\<lparr>cells := cs\<rparr>) = key_bucket h"
  by (auto simp: fun_eq_iff key_bucket_def)


text \<open>The bucket an entry moves to.\<close>

definition place_entry :: "hm_heap \<Rightarrow> ptr list option list \<Rightarrow> ptr \<Rightarrow> ptr list option list" where
  "place_entry h N e = (let i = key_bucket h (length N) e in N[i := Some (bucket_list (N ! i) @ [e])])"

lemma length_place_entry [simp]: "length (place_entry h N e) = length N"
  by (simp add: place_entry_def Let_def)

lemma length_place_entries [simp]: "length (foldl (place_entry h) N es) = length N"
  by (induction es arbitrary: N) simp_all

lemma place_entry_cells [simp]: "place_entry (h\<lparr>cells := cs\<rparr>) = place_entry h"
  by (auto simp: fun_eq_iff place_entry_def)

lemma place_entry_split:
  assumes "0 < length N"
  obtains N1 b N2 where "N = N1 @ b # N2" and "length N1 = key_bucket h (length N) e"
    and "place_entry h N e = N1 @ Some (bucket_list b @ [e]) # N2"
proof -
  let ?i = "key_bucket h (length N) e"
  have i: "?i < length N" using assms by (simp add: key_bucket_def)
  show ?thesis
    by (rule that [of "take ?i N" "N ! ?i" "drop (Suc ?i) N"])
      (use i in \<open>simp_all add: id_take_nth_drop [symmetric] place_entry_def Let_def upd_conv_take_nth_drop\<close>)
qed

lemma place_entries_mset: "0 < length N \<Longrightarrow> mset (entries (foldl (place_entry h) N es)) = mset (entries N) + mset es"
proof (induction es arbitrary: N)
  case (Cons e es)
  obtain N1 b N2 where "N = N1 @ b # N2" "place_entry h N e = N1 @ Some (bucket_list b @ [e]) # N2"
    by (rule place_entry_split [OF Cons.prems, of h e])
  then have "mset (entries (place_entry h N e)) = add_mset e (mset (entries N))" by simp
  with Cons.IH [of "place_entry h N e"] Cons.prems show ?case by simp
qed simp

lemma place_entries_placed: "0 < length N \<Longrightarrow> placed h (length N) 0 N \<Longrightarrow> placed h (length N) 0 (foldl (place_entry h) N es)"
proof (induction es arbitrary: N)
  case (Cons e es)
  obtain N1 b N2 where "N = N1 @ b # N2" "length N1 = key_bucket h (length N) e"
    "place_entry h N e = N1 @ Some (bucket_list b @ [e]) # N2" by (rule place_entry_split [OF Cons.prems(1), of h e])
  then have "placed h (length N) 0 (place_entry h N e)" using Cons.prems(2) by auto
  with Cons.IH [of "place_entry h N e"] Cons.prems show ?case by simp
qed simp

lemma bucket_add_place:
  assumes "buckets_rep cs base N" and "0 < length N" and "e \<in> dom cs" and "e \<notin> set (entries N)"
    and "e \<notin> {base ..< base + length N}"
  obtains cs' where "bucket_add cs (base + key_bucket h (length N) e) e = Inr cs'"
    and "buckets_rep cs' base (place_entry h N e)"
    and "changes cs cs' (insert e ({base ..< base + length N} \<union> set (entries N)))"
proof -
  obtain N1 b N2 where N: "N = N1 @ b # N2" "length N1 = key_bucket h (length N) e"
    "place_entry h N e = N1 @ Some (bucket_list b @ [e]) # N2" by (rule place_entry_split [OF assms(2), of h e])
  have rep: "buckets_rep cs base (N1 @ b # N2)" "e \<notin> set (entries (N1 @ b # N2))"
    "e \<notin> {base ..< base + length (N1 @ b # N2)}" using assms(1,4,5) N(1) by simp_all
  obtain cs' where cs': "bucket_add cs (base + length N1) e = Inr cs'"
    "buckets_rep cs' base (N1 @ Some (bucket_list b @ [e]) # N2)"
    "changes cs cs' ({e, base + length N1} \<union> set (bucket_list b))"
    by (rule bucket_add_rep [OF rep(1) assms(3) rep(2,3)])
  have "changes cs cs' (insert e ({base ..< base + length N} \<union> set (entries N)))"
    using cs'(3) by (auto simp: changes_def N(1))
  with cs' N(2,3) that show ?thesis by simp
qed

text \<open>The old ring is read through its \<open>next\<close> pointers only, while its entries move away.\<close>

fun next_path :: "list_heap \<Rightarrow> ptr \<Rightarrow> ptr list \<Rightarrow> ptr \<Rightarrow> bool" where
  "next_path h c [] l \<longleftrightarrow> c = l"
| "next_path h c (y # ys) l \<longleftrightarrow> c = y \<and> (\<exists>n. nx h y = Some n \<and> next_path h n ys l)"

lemma ring_next_path: "ring h p (us @ vs) \<Longrightarrow> next_path h (hd (vs @ [p])) vs p"
proof (induction vs arbitrary: us)
  case (Cons v vs)
  have "nx h v = Some (hd (vs @ [p]))" using ring_links(1) [of h p "us @ [v]" vs] Cons.prems by simp
  then show ?case using Cons.IH [of "us @ [v]"] Cons.prems by simp
qed simp

lemma next_path_frame: "changes h h' A \<Longrightarrow> set ys \<inter> A = {} \<Longrightarrow> next_path h c ys l \<Longrightarrow> next_path h' c ys l"
  by (induction ys arbitrary: c) (auto simp: changes_def nx_def)

lemma move_loop_place:
  assumes "next_path (cells h) c ys head" and "head \<notin> set ys" and "distinct ys"
    and "buckets_rep (cells h) (buckets hm) N" and "bucketCount hm = length N" and "0 < length N"
    and "set ys \<subseteq> dom (cells h)" and "set ys \<inter> (set (entries N) \<union> {buckets hm ..< buckets hm + length N}) = {}"
    and "\<forall>y \<in> set ys. entry_key h y \<noteq> None" and "length ys < fuel"
  shows "\<exists>cs. move_loop fuel h hm head c = Inr (h\<lparr>cells := cs\<rparr>) \<and>
    buckets_rep cs (buckets hm) (foldl (place_entry h) N ys) \<and>
    changes (cells h) cs (set ys \<union> ({buckets hm ..< buckets hm + length N} \<union> set (entries N)))"
  using assms
proof (induction ys arbitrary: h c N fuel)
  case Nil
  then show ?case by (cases fuel) (auto simp: changes_def intro!: exI [of _ "cells h"])
next
  case (Cons y ys)
  let ?heads = "{buckets hm ..< buckets hm + length N}"
  from Cons.prems(10) obtain f where f: "fuel = Suc f" "length ys < f" by (cases fuel) auto
  from Cons.prems(1) obtain n where n: "c = y" "nx (cells h) y = Some n" "next_path (cells h) n ys head" by auto
  from Cons.prems(9) obtain k where k: "entry_key h y = Some k" by auto
  have "y \<in> dom (cells h)" "y \<notin> set (entries N)" "y \<notin> ?heads" using Cons.prems(7,8) by auto
  from bucket_add_place [OF Cons.prems(4,6) this, where h = h] obtain cs where
    cs: "bucket_add (cells h) (buckets hm + key_bucket h (length N) y) y = Inr cs"
      "buckets_rep cs (buckets hm) (place_entry h N y)" "changes (cells h) cs (insert y (?heads \<union> set (entries N)))" .
  have dom: "dom cs = dom (cells h)" using il.same_cells [OF cs(3)] .
  have ents: "set (entries (place_entry h N y)) = insert y (set (entries N))"
    using arg_cong [OF place_entries_mset [OF Cons.prems(6), of h "[y]"], of set_mset] by simp
  have ys: "set ys \<inter> insert y (?heads \<union> set (entries N)) = {}" using Cons.prems(3,8) by auto
  have "\<exists>cs'. move_loop f (h\<lparr>cells := cs\<rparr>) hm head n = Inr (h\<lparr>cells := cs\<rparr>\<lparr>cells := cs'\<rparr>) \<and>
      buckets_rep cs' (buckets hm) (foldl (place_entry (h\<lparr>cells := cs\<rparr>)) (place_entry h N y) ys) \<and>
      changes (cells (h\<lparr>cells := cs\<rparr>)) cs' (set ys \<union>
        ({buckets hm ..< buckets hm + length (place_entry h N y)} \<union> set (entries (place_entry h N y))))"
  proof (rule Cons.IH)
    show "next_path (cells (h\<lparr>cells := cs\<rparr>)) n ys head" using next_path_frame [OF cs(3) ys n(3)] by simp
  qed (use Cons.prems cs(2) dom f(2) ents ys in auto)
  then obtain cs' where cs': "move_loop f (h\<lparr>cells := cs\<rparr>) hm head n = Inr (h\<lparr>cells := cs'\<rparr>)"
    "buckets_rep cs' (buckets hm) (foldl (place_entry h) (place_entry h N y) ys)"
    "changes cs cs' (set ys \<union> (?heads \<union> insert y (set (entries N))))" using ents by auto
  have "changes (cells h) cs' (set (y # ys) \<union> (?heads \<union> set (entries N)))"
    using changes_trans [OF cs(3) cs'(3)] by (auto simp: changes_def)
  moreover have "hashmap_locateBucket hm k = Inr (buckets hm + key_bucket h (length N) y)"
    using Cons.prems(5,6) k by (auto simp: hashmap_locateBucket_def key_bucket_def)
  moreover have "c \<noteq> head" using n(1) Cons.prems(2) by auto
  ultimately show ?case using n f(1) k cs(1) cs'(1,2) by (auto simp: read_key_def)
qed

lemma rehash_loop_place:
  assumes "\<forall>j < length C. bucket_rep (cells h) (old + i + j) (C ! j)" and "distinct (entries C)"
    and "buckets_rep (cells h) (buckets hm) N" and "bucketCount hm = length N" and "0 < length N"
    and "(set (entries C) \<union> {old + i ..< old + i + length C}) \<inter>
      (set (entries N) \<union> {buckets hm ..< buckets hm + length N}) = {}"
    and "{old + i ..< old + i + length C} \<inter> set (entries C) = {}"
    and "\<forall>e \<in> set (entries C). entry_key h e \<noteq> None" and "length (entries C) < fuel"
  shows "\<exists>cs. rehash_loop fuel h hm old i (length C) = Inr (h\<lparr>cells := cs\<rparr>) \<and>
    buckets_rep cs (buckets hm) (foldl (place_entry h) N (entries C)) \<and> dom cs = dom (cells h)"
  using assms
proof (induction C arbitrary: h N i)
  case Nil
  then show ?case by (auto intro!: exI [of _ "cells h"])
next
  case (Cons b C)
  let ?p = "old + i" and ?heads = "{buckets hm ..< buckets hm + length N}"
  have b: "bucket_rep (cells h) ?p b" using Cons.prems(1) by auto
  have null: "cells h 0 = None" using Cons.prems(3) by (simp add: buckets_rep_def)
  have step: "\<exists>first cs. get_next (cells h) ?p = Inr first \<and>
      (if first = 0 then Inr h else bindE (get_next (cells h) first) (\<lambda>next. move_loop fuel h hm ?p first)) = Inr (h\<lparr>cells := cs\<rparr>) \<and>
      buckets_rep cs (buckets hm) (foldl (place_entry h) N (bucket_list b)) \<and>
      changes (cells h) cs (set (bucket_list b) \<union> (?heads \<union> set (entries N)))"
  proof (cases b)
    case None
    with b Cons.prems(3) show ?thesis by (auto simp: changes_def intro!: exI [of _ "cells h"])
  next
    case (Some xs)
    then have r: "ring (cells h) ?p ([] @ xs)" using b by simp
    let ?first = "hd (xs @ [?p])"
    have n: "nx (cells h) ?p = Some ?first" using ring_links(1) [OF r] by simp
    have "?first \<in> dom (cells h)" using il.rep_cells [OF r] by (cases xs) auto
    then have first: "?first \<noteq> 0" "\<exists>m. get_next (cells h) ?first = Inr m"
      using null by (metis domIff, auto simp: get_next_def list_deref_def)
    have "\<exists>cs. move_loop fuel h hm ?p ?first = Inr (h\<lparr>cells := cs\<rparr>) \<and>
        buckets_rep cs (buckets hm) (foldl (place_entry h) N xs) \<and>
        changes (cells h) cs (set xs \<union> (?heads \<union> set (entries N)))"
      by (rule move_loop_place [OF ring_next_path [OF r]])
        (use il.rep_distinct [OF r] il.rep_cells [OF r] Cons.prems Some in auto)
    with n first Some show ?thesis by (intro exI [of _ ?first]) auto
  qed
  then obtain first cs where 1: "get_next (cells h) ?p = Inr first"
    "(if first = 0 then Inr h else bindE (get_next (cells h) first) (\<lambda>next. move_loop fuel h hm ?p first)) = Inr (h\<lparr>cells := cs\<rparr>)"
    "buckets_rep cs (buckets hm) (foldl (place_entry h) N (bucket_list b))"
    "changes (cells h) cs (set (bucket_list b) \<union> (?heads \<union> set (entries N)))" by blast
  let ?N = "foldl (place_entry h) N (bucket_list b)"
  have ents: "set (entries ?N) = set (entries N) \<union> set (bucket_list b)"
    using arg_cong [OF place_entries_mset [OF Cons.prems(5), of h "bucket_list b"], of set_mset] by simp
  have dom: "dom cs = dom (cells h)" using il.same_cells [OF 1(4)] .
  have "\<exists>cs'. rehash_loop fuel (h\<lparr>cells := cs\<rparr>) hm old (i + 1) (length C) = Inr (h\<lparr>cells := cs\<rparr>\<lparr>cells := cs'\<rparr>) \<and>
      buckets_rep cs' (buckets hm) (foldl (place_entry (h\<lparr>cells := cs\<rparr>)) ?N (entries C)) \<and> dom cs' = dom (cells (h\<lparr>cells := cs\<rparr>))"
  proof (rule Cons.IH)
    show "\<forall>j < length C. bucket_rep (cells (h\<lparr>cells := cs\<rparr>)) (old + (i + 1) + j) (C ! j)"
    proof (intro allI impI)
      fix j assume j: "j < length C"
      then have old: "bucket_rep (cells h) (old + (i + 1) + j) (C ! j)" using Cons.prems(1) by (auto dest: spec [of _ "Suc j"])
      have "set (bucket_list (C ! j)) \<subseteq> set (entries C)" using j by (auto simp: entries_nth)
      moreover have "old + (i + 1) + j \<in> {old + i ..< old + i + length (b # C)}" using j by auto
      ultimately have "set ((old + (i + 1) + j) # bucket_list (C ! j)) \<inter>
          (set (bucket_list b) \<union> (?heads \<union> set (entries N))) = {}"
        using Cons.prems(2,6,7) by (simp add: disjoint_iff) blast
      from bucket_rep_frame [OF 1(4) old this]
      show "bucket_rep (cells (h\<lparr>cells := cs\<rparr>)) (old + (i + 1) + j) (C ! j)" by simp
    qed
  qed (use Cons.prems 1(3) ents in \<open>auto simp: disjoint_iff\<close>)
  then show ?case using 1(1,2) dom by auto
qed

section \<open>What the map needs of a key type\<close>

text \<open>
  \<open>kvalue\<close> is the value a key stands for: two keys are equal when they stand for the same value, and
  then they must have the same hash.
\<close>

locale hm_key_laws =
  fixes kt :: hm_key_type
    and kvalid :: "key_union \<Rightarrow> bool"
    and kvalue :: "key_union \<Rightarrow> 'v"
    and hash_of :: "key_union \<Rightarrow> 64 word"
  assumes hash_law: "kvalid (kunion k) \<Longrightarrow> hashKey kt k = Inr (k\<lparr>khash := hash_of (kunion k)\<rparr>)"
    and equal_law: "kvalid (kunion a) \<Longrightarrow> kvalid (kunion b) \<Longrightarrow>
      isKeyEqual kt a b = Inr (kvalue (kunion a) = kvalue (kunion b))"
    and same_hash: "kvalid u \<Longrightarrow> kvalid v \<Longrightarrow> kvalue u = kvalue v \<Longrightarrow> hash_of u = hash_of v"

text \<open>A key that has been given its hash.\<close>

definition key_ok :: "(key_union \<Rightarrow> bool) \<Rightarrow> (key_union \<Rightarrow> 64 word) \<Rightarrow> hm_key \<Rightarrow> bool" where
  "key_ok kvalid hash_of k \<longleftrightarrow> kvalid (kunion k) \<and> khash k = hash_of (kunion k)"

definition entry_ok :: "(key_union \<Rightarrow> bool) \<Rightarrow> (key_union \<Rightarrow> 64 word) \<Rightarrow> hm_heap \<Rightarrow> ptr \<Rightarrow> bool" where
  "entry_ok kvalid hash_of h e \<longleftrightarrow> (\<exists>k. entry_key h e = Some k \<and> key_ok kvalid hash_of k)"

definition entry_value :: "(key_union \<Rightarrow> 'v) \<Rightarrow> hm_heap \<Rightarrow> ptr \<Rightarrow> 'v" where
  "entry_value kvalue h e = kvalue (kunion (the (entry_key h e)))"

definition hm_inv :: "hm_key_type \<Rightarrow> (key_union \<Rightarrow> bool) \<Rightarrow> (key_union \<Rightarrow> 'v) \<Rightarrow> (key_union \<Rightarrow> 64 word) \<Rightarrow>
    hm_heap \<Rightarrow> hashmap_t \<Rightarrow> ptr list option list \<Rightarrow> bool" where
  "hm_inv kt kvalid kvalue hash_of h hm B \<longleftrightarrow>
     keyType hm = kt \<and> bucketCount hm = length B \<and> 0 < length B \<and> length B < 2 ^ 31 \<and>
     buckets_rep (cells h) (buckets hm) B \<and>
     (\<forall>e \<in> set (entries B). entry_ok kvalid hash_of h e) \<and>
     placed h (length B) 0 B \<and>
     distinct (map (entry_value kvalue h) (entries B)) \<and>
     hm_size hm = length (entries B) \<and> hm_size hm < 2 ^ 64 \<and>
     (\<forall>p \<in> dom (cells h). p < heap_top h)"

lemma cells_upd [simp]:
  "entry_value kvalue (h\<lparr>cells := cs\<rparr>) = entry_value kvalue h"
  "entry_ok kvalid hash_of (h\<lparr>cells := cs\<rparr>) = entry_ok kvalid hash_of h"
  by (auto simp: fun_eq_iff entry_value_def entry_ok_def)

lemma key_upd [simp]:
  "entry_value kvalue (h\<lparr>entry_key := (entry_key h)(e \<mapsto> k)\<rparr>) x =
     (if x = e then kvalue (kunion k) else entry_value kvalue h x)"
  "entry_ok kvalid hash_of (h\<lparr>entry_key := (entry_key h)(e \<mapsto> k)\<rparr>) x =
     (if x = e then key_ok kvalid hash_of k else entry_ok kvalid hash_of h x)"
  "key_bucket (h\<lparr>entry_key := (entry_key h)(e \<mapsto> k)\<rparr>) n x =
     (if x = e then unat (khash k) mod n else key_bucket h n x)"
  by (auto simp: entry_value_def entry_ok_def key_bucket_def)

lemma placed_upd [simp]:
  "placed (h\<lparr>cells := cs\<rparr>) n i B = placed h n i B"
  "e \<notin> set (entries B) \<Longrightarrow> placed (h\<lparr>entry_key := (entry_key h)(e \<mapsto> k)\<rparr>) n i B = placed h n i B"
  by (rule placed_cong; simp; fail) (rule placed_cong; auto)

text \<open>What has to be shown for an operation that changes one bucket.\<close>

lemma hm_invI:
  assumes "hm_inv kt kvalid kvalue hash_of h hm B" and "buckets_rep (cells h') (buckets hm) C"
    and "dom (cells h') = dom (cells h)" and "heap_top h' = heap_top h" and "length C = length B"
    and "placed h' (length B) 0 C" and "\<forall>x \<in> set (entries C). entry_ok kvalid hash_of h' x"
    and "distinct (map (entry_value kvalue h') (entries C))" and "n = length (entries C)" and "n < 2 ^ 64"
  shows "hm_inv kt kvalid kvalue hash_of h' (hm\<lparr>hm_size := n\<rparr>) C"
  using assms unfolding hm_inv_def by (intro conjI) simp_all

text \<open>The finite map a hash map stands for.\<close>

definition hm_map :: "(key_union \<Rightarrow> 'v) \<Rightarrow> hm_heap \<Rightarrow> ptr list option list \<Rightarrow> 'v \<rightharpoonup> ptr" where
  "hm_map kvalue h B = map_of (map (\<lambda>e. (entry_value kvalue h e, e)) (entries B))"

lemma hm_map_Some:
  "distinct (map (entry_value kvalue h) (entries B)) \<Longrightarrow>
   hm_map kvalue h B v = Some e \<longleftrightarrow> e \<in> set (entries B) \<and> entry_value kvalue h e = v"
  unfolding hm_map_def by (subst map_of_eq_Some_iff) (auto simp: comp_def)

lemma option_eqI: "(\<And>x. a = Some x \<longleftrightarrow> b = Some x) \<Longrightarrow> a = b"
  by (cases a) (auto, metis)

lemma find_map_of: "find (\<lambda>e. f e = v) xs = map_of (map (\<lambda>e. (f e, e)) xs) v"
  by (induction xs) auto

context hm_key_laws
begin

abbreviation "kinv \<equiv> hm_inv kt kvalid kvalue hash_of"
abbreviation "ok_key \<equiv> key_ok kvalid hash_of"
abbreviation "ok_entry \<equiv> entry_ok kvalid hash_of"
abbreviation "abs_map \<equiv> hm_map kvalue"
abbreviation "val \<equiv> entry_value kvalue"

lemma new_key_ok: "kvalid u \<Longrightarrow> keyType hm = kt \<Longrightarrow>
    new_key hm u = Inr \<lparr>kunion = u, khash = hash_of u\<rparr> \<and> ok_key \<lparr>kunion = u, khash = hash_of u\<rparr>"
  by (simp add: new_key_def hm_key_init_def hash_law key_ok_def)

lemma find_loop_ring:
  assumes "ring (cells h) p (us @ vs)" and "length vs < fuel" and "\<forall>e \<in> set vs. ok_entry h e"
    and "ok_key key" and "keyType hm = kt"
  shows "find_loop fuel h hm p key (hd (vs @ [p])) = Inr (find (\<lambda>e. val h e = kvalue (kunion key)) vs)"
  using assms(1-3)
proof (induction vs arbitrary: us fuel)
  case Nil
  then show ?case by (cases fuel) auto
next
  case (Cons v vs)
  from Cons.prems(2) obtain f where f: "fuel = Suc f" "length vs < f" by (cases fuel) auto
  from Cons.prems(3) obtain k where k: "entry_key h v = Some k" "ok_key k" by (auto simp: entry_ok_def)
  have "v \<noteq> p" using Cons.prems(1) by (auto simp: ring_def)
  moreover have "nx (cells h) v = Some (hd (vs @ [p]))"
    using ring_links(1) [of "cells h" p "us @ [v]" vs] Cons.prems(1) by simp
  moreover have "hm_key_compare hm key k = Inr (val h v = kvalue (kunion key))"
    using assms(4,5) k by (auto simp: hm_key_compare_def key_ok_def equal_law entry_value_def)
  ultimately show ?case using Cons.IH [of "us @ [v]" f] Cons.prems f k by (simp add: read_key_def)
qed

lemma find_in_bucket:
  assumes "bucket_rep (cells h) p b" and "cells h 0 = None" and "length (bucket_list b) < fuel"
    and "\<forall>e \<in> set (bucket_list b). ok_entry h e" and "ok_key key" and "keyType hm = kt"
  shows "hashmap_findInBucket fuel h hm p key = Inr (find (\<lambda>e. val h e = kvalue (kunion key)) (bucket_list b))"
proof (cases b)
  case None
  with assms(1) show ?thesis by (simp add: hashmap_findInBucket_def)
next
  case (Some xs)
  then have r: "ring (cells h) p ([] @ xs)" using assms(1) by simp
  have n: "nx (cells h) p = Some (hd (xs @ [p]))" using ring_links(1) [OF r] by simp
  have "hd (xs @ [p]) \<in> dom (cells h)" using il.rep_cells [OF r] by (cases xs) auto
  then have "hd (xs @ [p]) \<noteq> 0" using assms(2) by (metis domIff)
  then show ?thesis using find_loop_ring [OF r, of fuel] assms(3-6) n Some by (simp add: hashmap_findInBucket_def)
qed

text \<open>Entries with the value of a key are in the bucket of that key.\<close>

lemma value_bucket:
  assumes "kinv h hm B" and "ok_key key" and "e \<in> set (entries B)" and "val h e = kvalue (kunion key)"
  shows "key_bucket h (length B) e = unat (khash key) mod length B"
proof -
  from assms(1,3) obtain k where k: "entry_key h e = Some k" "ok_key k" by (auto simp: hm_inv_def entry_ok_def)
  with assms(2,4) have "khash k = khash key" by (auto simp: key_ok_def entry_value_def intro: same_hash)
  with k show ?thesis by (simp add: key_bucket_def)
qed

lemma find_is_map:
  assumes "kinv h hm B" and "ok_key key" and "length (entries B) < fuel"
  shows "hashmap_findInBucket fuel h hm (buckets hm + unat (khash key) mod length B) key =
    Inr (abs_map h B (kvalue (kunion key)))"
proof -
  let ?i = "unat (khash key) mod length B" and ?v = "kvalue (kunion key)"
  have i: "?i < length B" using assms(1) by (simp add: hm_inv_def)
  have rep: "buckets_rep (cells h) (buckets hm) B" using assms(1) by (simp add: hm_inv_def)
  have B: "B = take ?i B @ B ! ?i # drop (Suc ?i) B" by (rule id_take_nth_drop [OF i])
  have "length (bucket_list (B ! ?i)) \<le> length (entries B)" by (subst (2) B) simp
  then have "hashmap_findInBucket fuel h hm (buckets hm + ?i) key =
      Inr (find (\<lambda>e. val h e = ?v) (bucket_list (B ! ?i)))"
    using buckets_rep_nth(2) [OF rep i] assms rep
    by (intro find_in_bucket [OF buckets_rep_nth(1) [OF rep i]]) (auto simp: hm_inv_def buckets_rep_def)
  also have "find (\<lambda>e. val h e = ?v) (bucket_list (B ! ?i)) = abs_map h B ?v"
  proof (cases "find (\<lambda>e. val h e = ?v) (bucket_list (B ! ?i))")
    case None
    have "abs_map h B ?v \<noteq> Some e" for e
    proof
      assume "abs_map h B ?v = Some e"
      then have e: "e \<in> set (entries B)" "val h e = ?v" using assms(1) by (simp_all add: hm_inv_def hm_map_Some)
      then obtain j where j: "j < length B" "e \<in> set (bucket_list (B ! j))" by (auto simp: entries_nth)
      then have "j = ?i" using value_bucket [OF assms(1,2) e] assms(1) placed_nth [of h "length B" 0 B j e]
        by (auto simp: hm_inv_def)
      with j(2) e(2) None show False by (auto simp: find_None_iff)
    qed
    with None show ?thesis by (cases "abs_map h B ?v") auto
  next
    case (Some e)
    then have "e \<in> set (bucket_list (B ! ?i))" "val h e = ?v" by (auto simp: find_Some_iff)
    then have "abs_map h B ?v = Some e"
      using buckets_rep_nth(2) [OF rep i] assms(1) by (auto simp: hm_inv_def hm_map_Some)
    with Some show ?thesis by simp
  qed
  finally show ?thesis .
qed

lemma get_correct:
  assumes "kinv h hm B" and "ok_key key" and "length (entries B) < fuel"
  shows "hashmap_get fuel h hm key = Inr (abs_map h B (kvalue (kunion key)))"
  using find_is_map [OF assms] assms(1) by (auto simp: hashmap_get_def hashmap_locateBucket_def hm_inv_def)

lemma deattach_correct:
  assumes inv: "kinv h hm B" and e: "e \<in> set (entries B)"
  obtains cs B' where "list_deattach (cells h) e = Inr cs"
    and "kinv (h\<lparr>cells := cs\<rparr>) (hm\<lparr>hm_size := sub64 (hm_size hm) 1\<rparr>) B'"
    and "set (entries B') = set (entries B) - {e}" and "length B' = length B" and "dom cs = dom (cells h)"
    and "length (entries B') < length (entries B)"
proof -
  obtain i where i: "i < length B" "e \<in> set (bucket_list (B ! i))" using e by (auto simp: entries_nth)
  then obtain xs where "B ! i = Some xs" "e \<in> set xs" by (cases "B ! i") auto
  then obtain us vs where uv: "B ! i = Some (us @ e # vs)" by (auto simp: in_set_conv_decomp)
  define B1 B2 where "B1 = take i B" and "B2 = drop (Suc i) B"
  have B: "B = B1 @ Some (us @ e # vs) # B2" using id_take_nth_drop [OF i(1)] uv by (simp add: B1_def B2_def)
  have rep: "buckets_rep (cells h) (buckets hm) (B1 @ Some (us @ e # vs) # B2)"
    using inv by (simp add: hm_inv_def B)
  obtain cs where cs: "list_deattach (cells h) e = Inr cs" "buckets_rep cs (buckets hm) (B1 @ Some (us @ vs) # B2)"
    "changes (cells h) cs (insert (buckets hm + length B1) (set (us @ vs)))"
    "e \<notin> set (entries (B1 @ Some (us @ vs) # B2))" by (rule bucket_deattach_rep [OF rep])
  let ?B = "B1 @ Some (us @ vs) # B2"
  have dom: "dom cs = dom (cells h)" using il.same_cells [OF cs(3)] .
  have set: "set (entries ?B) = set (entries B) - {e}" using cs(4) by (auto simp: B)
  have "kinv (h\<lparr>cells := cs\<rparr>) (hm\<lparr>hm_size := sub64 (hm_size hm) 1\<rparr>) ?B"
  proof (rule hm_invI [OF inv])
    show "sub64 (hm_size hm) 1 = length (entries ?B)" "sub64 (hm_size hm) 1 < 2 ^ 64"
      using inv by (simp_all add: hm_inv_def B sub64_def)
    show "placed (h\<lparr>cells := cs\<rparr>) (length B) 0 ?B" using inv by (simp add: hm_inv_def B)
    show "\<forall>x \<in> set (entries ?B). ok_entry (h\<lparr>cells := cs\<rparr>) x" using inv by (auto simp: hm_inv_def B)
    show "distinct (map (val (h\<lparr>cells := cs\<rparr>)) (entries ?B))" using inv by (auto simp: hm_inv_def B)
  qed (use cs(2) dom in \<open>simp_all add: B\<close>)
  from that [OF cs(1) this set _ dom] show ?thesis by (simp add: B)
qed

lemma bucket_add_correct:
  assumes inv: "kinv h hm B" and key: "ok_key key" and none: "abs_map h B (kvalue (kunion key)) = None"
    and e: "e \<in> dom (cells h)" "e \<notin> set (entries B)" "e \<notin> {buckets hm ..< buckets hm + length B}"
    and bound: "hm_size hm + 1 < 2 ^ 64"
  obtains cs B' where
    "bucket_add (cells h) (buckets hm + unat (khash key) mod length B) e = Inr cs"
    and "kinv (h\<lparr>entry_key := (entry_key h)(e \<mapsto> key), cells := cs\<rparr>) (hm\<lparr>hm_size := add64 (hm_size hm) 1\<rparr>) B'"
    and "set (entries B') = insert e (set (entries B))" and "length B' = length B" and "dom cs = dom (cells h)"
proof -
  let ?i = "unat (khash key) mod length B" and ?v = "kvalue (kunion key)"
  have i: "?i < length B" using inv by (simp add: hm_inv_def)
  define B1 B2 b where "B1 = take ?i B" and "B2 = drop (Suc ?i) B" and "b = B ! ?i"
  have B: "B = B1 @ b # B2" using id_take_nth_drop [OF i] by (simp add: B1_def B2_def b_def)
  have len: "length B1 = ?i" using i by (simp add: B1_def)
  have rep: "buckets_rep (cells h) (buckets hm) (B1 @ b # B2)" using inv by (simp add: hm_inv_def B)
  have out: "e \<notin> set (entries (B1 @ b # B2))" "e \<notin> {buckets hm ..< buckets hm + length (B1 @ b # B2)}"
    using e by (simp_all add: B)
  let ?B = "B1 @ Some (bucket_list b @ [e]) # B2"
  obtain cs where cs: "bucket_add (cells h) (buckets hm + length B1) e = Inr cs" "buckets_rep cs (buckets hm) ?B"
    "changes (cells h) cs ({e, buckets hm + length B1} \<union> set (bucket_list b))"
    by (rule bucket_add_rep [OF rep e(1) out])
  have dom: "dom cs = dom (cells h)" using il.same_cells [OF cs(3)] .
  let ?h = "h\<lparr>entry_key := (entry_key h)(e \<mapsto> key), cells := cs\<rparr>"
  have new: "\<forall>x \<in> set (entries B). val h x \<noteq> ?v"
    using none inv by (metis hm_inv_def hm_map_Some option.distinct(1))
  have old: "distinct (map (val h) (entries B))" using inv by (simp add: hm_inv_def)
  have eq: "map (val ?h) (entries ?B) = map (val h) (entries B1) @ map (val h) (bucket_list b) @ ?v # map (val h) (entries B2)"
    using e(2) by (auto simp: B)
  have distinct: "distinct (map (val ?h) (entries ?B))" unfolding eq using new old by (auto simp: B)
  have "kinv ?h (hm\<lparr>hm_size := add64 (hm_size hm) 1\<rparr>) ?B"
  proof (rule hm_invI [OF inv])
    show "add64 (hm_size hm) 1 = length (entries ?B)" "add64 (hm_size hm) 1 < 2 ^ 64"
      using inv bound by (simp_all add: hm_inv_def B add64_def)
    have "placed h (length B) 0 (B1 @ b # B2)" using inv by (simp add: hm_inv_def flip: B)
    then show "placed ?h (length B) 0 ?B" using out(1) by (auto simp: len)
    show "\<forall>x \<in> set (entries ?B). ok_entry ?h x" using inv key by (auto simp: hm_inv_def B)
  qed (use cs(2) dom distinct in \<open>simp_all add: B\<close>)
  with that [OF cs(1) [unfolded len] _ _ _ dom] show ?thesis by (auto simp: B)
qed

end

text \<open>Memory that is taken or given back elsewhere does not matter.\<close>

lemma buckets_rep_same:
  assumes "buckets_rep h base B" and "\<forall>q \<in> {base ..< base + length B} \<union> set (entries B). h' q = h q" and "h' 0 = None"
  shows "buckets_rep h' base B"
proof -
  have "bucket_rep h' (base + i) (B ! i)" if i: "i < length B" for i
  proof -
    have "set (bucket_list (B ! i)) \<subseteq> set (entries B)" using i by (auto simp: entries_nth)
    then have same: "\<forall>q \<in> set ((base + i) # bucket_list (B ! i)). h' q = h q" using assms(2) i by auto
    show ?thesis
      using buckets_rep_nth(1) [OF assms(1) i] same ring_frame [of h "base + i" "bucket_list (B ! i)" h']
      by (cases "B ! i") (auto simp: nx_def)
  qed
  with assms show ?thesis by (simp add: buckets_rep_def)
qed

lemma alloc_heads_rep:
  assumes "alloc_heads h n = (b, h')" and "\<forall>p \<in> dom (cells h). p < heap_top h" and "cells h 0 = None" and "0 < heap_top h"
  shows "buckets_rep (cells h') b (replicate n None)" and "b = heap_top h" and "heap_top h' = b + n"
    and "\<forall>q. q < b \<longrightarrow> cells h' q = cells h q" and "dom (cells h') = dom (cells h) \<union> {b ..< b + n}"
    and "entry_key h' = entry_key h"
  using assms by (auto simp: alloc_heads_def buckets_rep_def nx_def dom_def)

text \<open>Cells a client may use for a new entry.\<close>

definition spare :: "hm_heap \<Rightarrow> hashmap_t \<Rightarrow> ptr list option list \<Rightarrow> ptr \<Rightarrow> bool" where
  "spare h hm B e \<longleftrightarrow> e \<in> dom (cells h) \<and> e \<notin> set (entries B) \<and> e \<notin> {buckets hm ..< buckets hm + length B}"

context hm_key_laws
begin

lemma init_correct:
  assumes "\<forall>p \<in> dom (cells h). p < heap_top h" and "cells h 0 = None" and "0 < heap_top h"
    and "0 < n" and "n < 2 ^ 31" and "hashmap_inits h kt n = (h', hm)"
  shows "kinv h' hm (replicate n None)" and "entry_key h' = entry_key h" and "bucketCount hm = n"
    and "\<forall>x \<in> dom (cells h). spare h' hm (replicate n None) x"
proof -
  obtain b h1 where a: "alloc_heads h n = (b, h1)" by (cases "alloc_heads h n")
  note al = alloc_heads_rep [OF a assms(1-3)]
  have h': "h' = h1" "hm = \<lparr>buckets = b, bucketCount = n, hm_size = 0, keyType = kt\<rparr>"
    using assms(6) a by (simp_all add: hashmap_inits_def)
  have "\<forall>p \<in> dom (cells h1). p < heap_top h1"
    unfolding al(5) al(3) using assms(1) al(2) by (auto intro: trans_less_add1)
  then show "kinv h' hm (replicate n None)"
    using al(1) assms(4,5) unfolding hm_inv_def h' by simp
  show "entry_key h' = entry_key h" "bucketCount hm = n" using al(6) h' by simp_all
  show "\<forall>x \<in> dom (cells h). spare h' hm (replicate n None) x"
  proof
    fix x assume x: "x \<in> dom (cells h)"
    then have "x < b" using al(2) assms(1) by blast
    then show "spare h' hm (replicate n None) x" using x al(5) by (simp add: h' spare_def)
  qed
qed

lemma rehash_correct:
  assumes inv: "kinv h hm B" and bound: "2 * length B < 2 ^ 31" and fuel: "length (entries B) < fuel"
  obtains h' hm' B' where "hashmap_rehash fuel h hm = Inr (h', hm')" and "kinv h' hm' B'"
    and "set (entries B') = set (entries B)" and "length B' = 2 * length B" and "entry_key h' = entry_key h"
    and "\<forall>x. spare h hm B x \<longrightarrow> spare h' hm' B' x" and "hm_size hm' = hm_size hm"
proof -
  let ?n = "2 * length B"
  have old: "0 < length B" "bucketCount hm = length B" "buckets_rep (cells h) (buckets hm) B" "keyType hm = kt"
    "\<forall>e \<in> set (entries B). ok_entry h e" "distinct (map (val h) (entries B))" "hm_size hm = length (entries B)"
    "hm_size hm < 2 ^ 64" and top: "\<forall>p \<in> dom (cells h). p < heap_top h"
    using inv unfolding hm_inv_def by blast+
  have null: "cells h 0 = None" using old(3) by (simp add: buckets_rep_def)
  have "buckets hm + 0 \<in> dom (cells h)" by (rule buckets_rep_nth(3) [OF old(3,1)])
  then have top0: "0 < heap_top h" using top by fastforce
  obtain b h1 where a: "alloc_heads h ?n = (b, h1)" by (cases "alloc_heads h ?n")
  note al = alloc_heads_rep [OF a top null top0]
  have nodes: "set (entries B) \<union> {buckets hm ..< buckets hm + length B} \<subseteq> dom (cells h)"
    using entries_cells [OF old(3)] buckets_rep_nth(3) [OF old(3)] by (force simp: le_iff_add)
  then have low: "\<forall>q \<in> set (entries B) \<union> {buckets hm ..< buckets hm + length B}. q < b"
    using top al(2) by blast
  let ?hm = "hm\<lparr>bucketCount := ?n, buckets := b\<rparr>" and ?N = "replicate ?n (None :: ptr list option)"
  have null1: "cells h1 0 = None" using al(1) by (simp add: buckets_rep_def)
  have rep1: "buckets_rep (cells h1) (buckets hm) B"
    by (rule buckets_rep_same [OF old(3)]) (use null1 low al(4) in auto)
  have "\<exists>cs. rehash_loop fuel h1 ?hm (buckets hm) 0 (length B) = Inr (h1\<lparr>cells := cs\<rparr>) \<and>
      buckets_rep cs (buckets ?hm) (foldl (place_entry h1) ?N (entries B)) \<and> dom cs = dom (cells h1)"
  proof (rule rehash_loop_place)
    show "\<forall>j < length B. bucket_rep (cells h1) (buckets hm + 0 + j) (B ! j)"
      using buckets_rep_nth(1) [OF rep1] by simp
    show "\<forall>e \<in> set (entries B). entry_key h1 e \<noteq> None" using old(5) al(6) by (auto simp: entry_ok_def)
    show "distinct (entries B)" "{buckets hm + 0 ..< buckets hm + 0 + length B} \<inter> set (entries B) = {}"
      using old(3) by (auto simp: buckets_rep_def)
    show "(set (entries B) \<union> {buckets hm + 0 ..< buckets hm + 0 + length B}) \<inter>
        (set (entries ?N) \<union> {buckets ?hm ..< buckets ?hm + length ?N}) = {}"
    proof -
      have "(set (entries B) \<union> {buckets hm ..< buckets hm + length B}) \<inter> {b ..< b + ?n} = {}"
        using low by (meson atLeastLessThan_iff disjoint_iff not_le)
      then show ?thesis by simp
    qed
  qed (use al(1) old(1) fuel in simp_all)
  then obtain cs where cs: "rehash_loop fuel h1 ?hm (buckets hm) 0 (length B) = Inr (h1\<lparr>cells := cs\<rparr>)"
    "buckets_rep cs b (foldl (place_entry h1) ?N (entries B))" "dom cs = dom (cells h1)" by auto
  define B' where "B' = foldl (place_entry h1) ?N (entries B)"
  have len: "length B' = ?n" by (simp add: B'_def)
  have ms: "mset (entries B') = mset (entries B)"
    using place_entries_mset [of ?N h1 "entries B"] old(1) by (simp add: B'_def)
  then have set: "set (entries B') = set (entries B)" and sz: "length (entries B') = length (entries B)"
    by (metis set_mset_mset, metis size_mset)
  define h2 where "h2 = free_heads (h1\<lparr>cells := cs\<rparr>) (buckets hm) (length B)"
  have cells2: "cells h2 = (\<lambda>p. if buckets hm \<le> p \<and> p < buckets hm + length B then None else cs p)"
    and key2: "entry_key h2 = entry_key h" and top2: "heap_top h2 = heap_top h1"
    using al(6) by (simp_all add: h2_def free_heads_def cong: if_cong)
  have "cs 0 = None" using cs(2) by (simp add: buckets_rep_def)
  then have null2: "cells h2 0 = None" by (simp add: cells2)
  have apart: "q \<notin> {buckets hm ..< buckets hm + length B}" if "q \<in> {b ..< b + length B'} \<union> set (entries B')" for q
  proof (cases "q \<in> set (entries B')")
    case True
    then have "q \<in> set (entries B)" using set by simp
    moreover have "set (entries B) \<inter> {buckets hm ..< buckets hm + length B} = {}"
      using old(3) by (simp add: buckets_rep_def)
    ultimately show ?thesis by blast
  next
    case False
    then have "b \<le> q" using that by simp
    then show ?thesis using low by (meson UnI2 not_le)
  qed
  have rep2: "buckets_rep (cells h2) b B'"
  proof (rule buckets_rep_same [OF cs(2) [folded B'_def]])
    show "\<forall>q \<in> {b ..< b + length B'} \<union> set (entries B'). cells h2 q = cs q"
      using apart unfolding cells2 by (metis atLeastLessThan_iff)
  qed (rule null2)
  have run: "hashmap_rehash fuel h hm = Inr (h2, ?hm)"
  proof -
    have "int_cast (int (bucketCount hm)) = int (length B)" using old(2) bound by (subst int_cast_id) auto
    moreover have "mul64 (bucketCount hm) 2 = ?n" using old(2) bound by simp
    ultimately show ?thesis using a cs(1) old(2) by (simp add: hashmap_rehash_def Let_def h2_def)
  qed
  have val2: "val h2 = val h" "ok_entry h2 = ok_entry h"
    using key2 by (auto simp: fun_eq_iff entry_value_def entry_ok_def)
  have "placed h1 ?n 0 B'" using place_entries_placed [of ?N h1 "entries B"] old(1) by (simp add: B'_def)
  then have "placed h2 ?n 0 B'" using key2 al(6) by (simp add: placed_cong [of B' h2 _ h1] key_bucket_def)
  moreover have "distinct (map (val h) (entries B'))"
  proof -
    have "mset (map (val h) (entries B')) = mset (map (val h) (entries B))" using ms by simp
    then show ?thesis using old(6) mset_eq_imp_distinct_iff by blast
  qed
  moreover have "\<forall>p \<in> dom (cells h2). p < heap_top h2"
  proof
    fix p assume "p \<in> dom (cells h2)"
    then have "p \<in> dom cs" by (auto simp: cells2 dom_def split: if_splits)
    then have "p \<in> dom (cells h) \<union> {b ..< b + ?n}" using cs(3) al(5) by simp
    then show "p < heap_top h2" using top al(2,3) top2 by (auto intro: trans_less_add1)
  qed
  ultimately have "kinv h2 ?hm B'"
    unfolding hm_inv_def using old rep2 bound len set sz val2 by simp
  moreover have "\<forall>x. spare h hm B x \<longrightarrow> spare h2 ?hm B' x"
  proof (intro allI impI)
    fix x assume x: "spare h hm B x"
    then have "x \<in> dom cs" "x < b" using cs(3) al(2,5) top by (auto simp: spare_def)
    then show "spare h2 ?hm B' x" using x set by (auto simp: spare_def cells2 dom_def)
  qed
  ultimately show ?thesis using that [OF run _ set len key2] by simp
qed

text \<open>An entry can be set when it is not in the map, or in it under the same key.\<close>

lemma set_correct:
  assumes inv: "kinv h hm B" and key: "ok_key key" and fuel: "length (entries B) + 1 < fuel"
    and entry: "spare h hm B entry \<or> abs_map h B (kvalue (kunion key)) = Some entry"
    and bound: "2 * length B < 2 ^ 31" "hm_size hm + 1 < 2 ^ 64"
  obtains h' hm' B' where "hashmap_set fuel h hm key entry = Inr (h', hm')" and "kinv h' hm' B'"
    and "abs_map h' B' = (abs_map h B)(kvalue (kunion key) \<mapsto> entry)"
    and "\<forall>x. x \<noteq> entry \<longrightarrow> spare h hm B x \<longrightarrow> spare h' hm' B' x"
    and "length (entries B') \<le> length (entries B) + 1"
    and "length B' \<le> length B \<or> 2 * length B' \<le> 5 * (length (entries B) + 1)"
proof -
  let ?v = "kvalue (kunion key)" and ?i = "unat (khash key) mod length B"
  have B: "0 < length B" "bucketCount hm = length B" "buckets_rep (cells h) (buckets hm) B"
    "distinct (map (val h) (entries B))" using inv by (simp_all add: hm_inv_def)
  have locate: "hashmap_locateBucket hm key = Inr (buckets hm + ?i)" using B by (simp add: hashmap_locateBucket_def)
  have found: "hashmap_findInBucket fuel h hm (buckets hm + ?i) key = Inr (abs_map h B ?v)"
    using find_is_map [OF inv key] fuel by simp
  have "\<exists>h1 hm1 B1. (case abs_map h B ?v of
        None \<Rightarrow> Inr (h, hm)
      | Some e \<Rightarrow> bindE (list_deattach (cells h) e) (\<lambda>cs. Inr (h\<lparr>cells := cs\<rparr>, hm\<lparr>hm_size := sub64 (hm_size hm) 1\<rparr>))) =
        Inr (h1, hm1) \<and> kinv h1 hm1 B1 \<and> abs_map h1 B1 ?v = None \<and> length B1 = length B \<and>
      set (entries B1) = {e \<in> set (entries B). val h e \<noteq> ?v} \<and> val h1 = val h \<and> dom (cells h1) = dom (cells h) \<and>
      buckets hm1 = buckets hm \<and> hm_size hm1 + 1 < 2 ^ 64 \<and> length (entries B1) \<le> length (entries B)"
  proof (cases "abs_map h B ?v")
    case None
    then have "\<forall>e \<in> set (entries B). val h e \<noteq> ?v" using hm_map_Some [OF B(4)] by (metis option.distinct(1))
    with None inv bound show ?thesis by (intro exI [of _ h] exI [of _ hm] exI [of _ B]) auto
  next
    case (Some e)
    then have e: "e \<in> set (entries B)" "val h e = ?v" using hm_map_Some [OF B(4)] by auto
    obtain cs B1 where d: "list_deattach (cells h) e = Inr cs"
      "kinv (h\<lparr>cells := cs\<rparr>) (hm\<lparr>hm_size := sub64 (hm_size hm) 1\<rparr>) B1"
      "set (entries B1) = set (entries B) - {e}" "length B1 = length B" "dom cs = dom (cells h)"
      "length (entries B1) < length (entries B)" by (rule deattach_correct [OF inv e(1)])
    have only: "\<forall>x \<in> set (entries B). val h x = ?v \<longrightarrow> x = e" using B(4) e by (auto simp: distinct_map inj_on_def)
    have "abs_map (h\<lparr>cells := cs\<rparr>) B1 ?v = None"
    proof (rule ccontr)
      assume "abs_map (h\<lparr>cells := cs\<rparr>) B1 ?v \<noteq> None"
      then obtain x where "abs_map (h\<lparr>cells := cs\<rparr>) B1 ?v = Some x" by auto
      then have "x \<in> set (entries B1)" "val h x = ?v" using d(2) by (simp_all add: hm_inv_def hm_map_Some)
      then show False using only d(3) by auto
    qed
    moreover have "set (entries B1) = {x \<in> set (entries B). val h x \<noteq> ?v}" using d(3) only e(2) by auto
    moreover have "sub64 (hm_size hm) 1 + 1 < 2 ^ 64" using d(2,6) inv bound(2) by (simp add: hm_inv_def)
    ultimately show ?thesis using Some d
      by (intro exI [of _ "h\<lparr>cells := cs\<rparr>"] exI [of _ "hm\<lparr>hm_size := sub64 (hm_size hm) 1\<rparr>"] exI [of _ B1] conjI) simp_all
  qed
  then obtain h1 hm1 B1 where 1: "(case abs_map h B ?v of None \<Rightarrow> Inr (h, hm)
      | Some e \<Rightarrow> bindE (list_deattach (cells h) e) (\<lambda>cs. Inr (h\<lparr>cells := cs\<rparr>, hm\<lparr>hm_size := sub64 (hm_size hm) 1\<rparr>))) =
        Inr (h1, hm1)" "kinv h1 hm1 B1" "abs_map h1 B1 ?v = None" "length B1 = length B"
    and ents1: "set (entries B1) = {e \<in> set (entries B). val h e \<noteq> ?v}" "val h1 = val h" "dom (cells h1) = dom (cells h)"
    and rest1: "buckets hm1 = buckets hm" "hm_size hm1 + 1 < 2 ^ 64" "length (entries B1) \<le> length (entries B)" by blast
  have spare1: "spare h1 hm1 B1 x" if "spare h hm B x" for x
    using that ents1 1(4) rest1(1) by (auto simp: spare_def)
  have "spare h1 hm1 B1 entry"
    using entry
  proof
    assume "abs_map h B ?v = Some entry"
    then have e: "entry \<in> set (entries B)" "val h entry = ?v" using hm_map_Some [OF B(4)] by auto
    moreover have "entry \<in> dom (cells h)" "entry \<notin> {buckets hm ..< buckets hm + length B}"
      using e(1) entries_cells [OF B(3)] B(3) unfolding buckets_rep_def by blast+
    ultimately show ?thesis using ents1 1(4) rest1(1) by (simp add: spare_def)
  qed (rule spare1)
  then have e1: "entry \<in> dom (cells h1)" "entry \<notin> set (entries B1)" "entry \<notin> {buckets hm1 ..< buckets hm1 + length B1}"
    by (simp_all add: spare_def)
  obtain cs B2 where 2: "bucket_add (cells h1) (buckets hm1 + unat (khash key) mod length B1) entry = Inr cs"
    "kinv (h1\<lparr>entry_key := (entry_key h1)(entry \<mapsto> key), cells := cs\<rparr>) (hm1\<lparr>hm_size := add64 (hm_size hm1) 1\<rparr>) B2"
    "set (entries B2) = insert entry (set (entries B1))" "length B2 = length B1" "dom cs = dom (cells h1)"
    by (rule bucket_add_correct [OF 1(2) key 1(3) e1 rest1(2)])
  let ?h2 = "h1\<lparr>entry_key := (entry_key h1)(entry \<mapsto> key), cells := cs\<rparr>" and ?hm2 = "hm1\<lparr>hm_size := add64 (hm_size hm1) 1\<rparr>"
  have map2: "abs_map h' B' = (abs_map h B)(?v \<mapsto> entry)"
    if "kinv h' hm' B'" "set (entries B') = set (entries B2)" "entry_key h' = entry_key ?h2" for h' hm' B'
  proof
    fix v
    have dist: "distinct (map (val h') (entries B'))" using that(1) by (simp add: hm_inv_def)
    have vals: "val h' x = (if x = entry then ?v else val h x)" for x
      using that(3) ents1(2) by (auto simp: entry_value_def fun_eq_iff)
    have "abs_map h' B' v = Some x \<longleftrightarrow> ((abs_map h B)(?v \<mapsto> entry)) v = Some x" for x
      using hm_map_Some [OF dist, of v x] hm_map_Some [OF B(4), of v x] that(2) 2(3) ents1(1) e1(2) vals [of x] by auto
    then show "abs_map h' B' v = ((abs_map h B)(?v \<mapsto> entry)) v" by (rule option_eqI)
  qed
  have deref: "\<exists>n. list_deref (cells h1) entry = Inr n" using e1(1) by (auto simp: list_deref_def)
  have size2: "hm_size ?hm2 = length (entries B2)" "bucketCount ?hm2 = length B" using 2(2,4) 1(4) by (simp_all add: hm_inv_def)
  have le2: "length (entries B2) \<le> length (entries B) + 1"
    using 2(2) 1(2) rest1(2,3) by (simp add: hm_inv_def add64_def)
  have spare2: "spare ?h2 ?hm2 B2 x" if "x \<noteq> entry" "spare h hm B x" for x
    using spare1 [OF that(2)] that(1) 2(3-5) by (auto simp: spare_def)
  have run: "hashmap_set fuel h hm key entry =
      (if mul64 (hm_size ?hm2) 100 div bucketCount ?hm2 < 80 then Inr (?h2, ?hm2) else hashmap_rehash fuel ?h2 ?hm2)"
    using locate found 1(1,4) deref 2(1) rest1(1) by (auto simp: hashmap_set_def Let_def)
  show ?thesis
  proof (cases "mul64 (hm_size ?hm2) 100 div bucketCount ?hm2 < 80")
    case True
    with run that [of ?h2 ?hm2 B2] 2(2) map2 [OF 2(2)] spare2 le2 2(4) 1(4) show ?thesis by simp
  next
    case False
    have "2 * length B2 < 2 ^ 31" "length (entries B2) < fuel" using bound(1) 2(4) 1(4) le2 fuel by simp_all
    from rehash_correct [OF 2(2) this] obtain h3 hm3 B3 where 3: "hashmap_rehash fuel ?h2 ?hm2 = Inr (h3, hm3)"
      "kinv h3 hm3 B3" "set (entries B3) = set (entries B2)" "length B3 = 2 * length B2" "entry_key h3 = entry_key ?h2"
      "\<forall>x. spare ?h2 ?hm2 B2 x \<longrightarrow> spare h3 hm3 B3 x" "hm_size hm3 = hm_size ?hm2" by metis
    have le3: "length (entries B3) = length (entries B2)" using 3(2,7) size2(1) by (simp add: hm_inv_def)
    have load: "80 * length B \<le> length (entries B2) * 100"
    proof -
      have "80 \<le> mul64 (length (entries B2)) 100 div length B" using False size2 by simp
      also have "\<dots> \<le> (length (entries B2) * 100) div length B" by (intro div_le_mono) (simp add: mul64_def)
      finally have "80 * length B \<le> (length (entries B2) * 100) div length B * length B" by (rule mult_right_mono) simp
      also have "\<dots> \<le> length (entries B2) * 100" by (rule div_times_less_eq_dividend)
      finally show ?thesis .
    qed
    show ?thesis
    proof (rule that)
      show "hashmap_set fuel h hm key entry = Inr (h3, hm3)" using run False 3(1) by simp
      show "abs_map h3 B3 = (abs_map h B)(?v \<mapsto> entry)" by (rule map2 [OF 3(2,3,5)])
      show "length B3 \<le> length B \<or> 2 * length B3 \<le> 5 * (length (entries B) + 1)"
        using load le2 3(4) 2(4) 1(4) by simp
    qed (use 3(2,6) spare2 le3 le2 in auto)
  qed
qed

lemma remove_correct:
  assumes inv: "kinv h hm B" and key: "ok_key key" and fuel: "length (entries B) < fuel"
  obtains h' hm' B' where "hashmap_remove fuel h hm key = Inr (h', hm')" and "kinv h' hm' B'"
    and "abs_map h' B' = (abs_map h B)(kvalue (kunion key) := None)"
    and "\<forall>x. spare h hm B x \<longrightarrow> spare h' hm' B' x" and "length (entries B') \<le> length (entries B)" and "length B' = length B"
proof -
  let ?v = "kvalue (kunion key)" and ?i = "unat (khash key) mod length B"
  have B: "0 < length B" "bucketCount hm = length B" "distinct (map (val h) (entries B))" using inv by (simp_all add: hm_inv_def)
  have locate: "hashmap_locateBucket hm key = Inr (buckets hm + ?i)" using B by (simp add: hashmap_locateBucket_def)
  note found = find_is_map [OF inv key fuel]
  show ?thesis
  proof (cases "abs_map h B ?v")
    case None
    then have "(abs_map h B)(?v := None) = abs_map h B" by auto
    with that [of h hm B] None locate found inv show ?thesis by (simp add: hashmap_remove_def)
  next
    case (Some e)
    then have e: "e \<in> set (entries B)" "val h e = ?v" using hm_map_Some [OF B(3)] by auto
    obtain cs B1 where d: "list_deattach (cells h) e = Inr cs"
      "kinv (h\<lparr>cells := cs\<rparr>) (hm\<lparr>hm_size := sub64 (hm_size hm) 1\<rparr>) B1"
      "set (entries B1) = set (entries B) - {e}" "length B1 = length B" "dom cs = dom (cells h)"
      "length (entries B1) < length (entries B)" by (rule deattach_correct [OF inv e(1)])
    have only: "\<forall>x \<in> set (entries B). val h x = ?v \<longrightarrow> x = e" using B(3) e by (auto simp: distinct_map inj_on_def)
    have "abs_map (h\<lparr>cells := cs\<rparr>) B1 = (abs_map h B)(?v := None)"
    proof
      fix v
      have dist: "distinct (map (val (h\<lparr>cells := cs\<rparr>)) (entries B1))" using d(2) by (simp add: hm_inv_def)
      have new: "abs_map (h\<lparr>cells := cs\<rparr>) B1 v = Some x \<longleftrightarrow> x \<in> set (entries B) \<and> x \<noteq> e \<and> val h x = v" for x
        using hm_map_Some [OF dist, of v x] d(3) by simp
      have "abs_map (h\<lparr>cells := cs\<rparr>) B1 v = Some x \<longleftrightarrow> ((abs_map h B)(?v := None)) v = Some x" for x
      proof (cases "v = ?v")
        case True
        then show ?thesis using new [of x] only by auto
      next
        case False
        then show ?thesis using new [of x] hm_map_Some [OF B(3), of v x] e(2) by auto
      qed
      then show "abs_map (h\<lparr>cells := cs\<rparr>) B1 v = ((abs_map h B)(?v := None)) v" by (rule option_eqI)
    qed
    moreover have "\<forall>x. spare h hm B x \<longrightarrow> spare (h\<lparr>cells := cs\<rparr>) (hm\<lparr>hm_size := sub64 (hm_size hm) 1\<rparr>) B1 x"
      using d(3-5) by (auto simp: spare_def)
    ultimately show ?thesis
      using that [of "h\<lparr>cells := cs\<rparr>" "hm\<lparr>hm_size := sub64 (hm_size hm) 1\<rparr>" B1] d locate found Some
      by (simp add: hashmap_remove_def)
  qed
qed

end

section \<open>Sequences of operations\<close>

datatype 'k map_op = MSet 'k ptr | MRemove 'k

fun hm_run :: "nat \<Rightarrow> hm_heap \<Rightarrow> hashmap_t \<Rightarrow> key_union map_op list \<Rightarrow> (hm_heap \<times> hashmap_t) res" where
  "hm_run fuel h hm [] = Inr (h, hm)"
| "hm_run fuel h hm (MSet u e # ops) =
     bindE (bindE (new_key hm u) (\<lambda>key. hashmap_set fuel h hm key e)) (\<lambda>(h, hm). hm_run fuel h hm ops)"
| "hm_run fuel h hm (MRemove u # ops) =
     bindE (bindE (new_key hm u) (\<lambda>key. hashmap_remove fuel h hm key)) (\<lambda>(h, hm). hm_run fuel h hm ops)"

fun map_run :: "('k \<Rightarrow> 'v) \<Rightarrow> ('v \<rightharpoonup> ptr) \<Rightarrow> 'k map_op list \<Rightarrow> ('v \<rightharpoonup> ptr)" where
  "map_run f m [] = m"
| "map_run f m (MSet k e # ops) = map_run f (m(f k \<mapsto> e)) ops"
| "map_run f m (MRemove k # ops) = map_run f (m(f k := None)) ops"

text \<open>The cells the operations bring along.\<close>

fun new_entries :: "'k map_op list \<Rightarrow> ptr list" where
  "new_entries [] = []"
| "new_entries (MSet k e # ops) = e # new_entries ops"
| "new_entries (MRemove k # ops) = new_entries ops"

fun op_key :: "'k map_op \<Rightarrow> 'k" where
  "op_key (MSet k e) = k"
| "op_key (MRemove k) = k"

context hm_key_laws
begin

lemma run_correct:
  assumes "kinv h hm B" and "\<forall>op \<in> set ops. kvalid (op_key op)" and "distinct (new_entries ops)"
    and "\<forall>e \<in> set (new_entries ops). spare h hm B e"
    and "length (entries B) \<le> n" and "length B \<le> 100 \<or> 2 * length B \<le> 5 * n"
    and "n + length ops < 2 ^ 20" and "n + length ops < fuel"
  shows "\<exists>h' hm'. hm_run fuel h hm ops = Inr (h', hm') \<and>
    (\<forall>u. kvalid u \<longrightarrow> bindE (new_key hm' u) (\<lambda>key. hashmap_get fuel h' hm' key) =
      Inr (map_run kvalue (abs_map h B) ops (kvalue u)))"
  using assms
proof (induction ops arbitrary: h hm B n)
  case Nil
  then have "keyType hm = kt" "length (entries B) < fuel" by (simp_all add: hm_inv_def)
  then show ?case using get_correct [OF Nil.prems(1)] new_key_ok by simp
next
  case (Cons op ops)
  have kt: "keyType hm = kt" using Cons.prems(1) by (simp add: hm_inv_def)
  have size: "hm_size hm = length (entries B)" using Cons.prems(1) by (simp add: hm_inv_def)
  have small: "n + 1 < 2 ^ 20" "length (entries B) + 1 < fuel" using Cons.prems(5,7,8) by auto
  have lenB: "2 * length B < 2 ^ 31" using Cons.prems(6) small(1) by auto
  show ?case
  proof (cases op)
    case (MSet u e)
    with Cons.prems(2) have u: "kvalid u" by simp
    note key = new_key_ok [OF u kt]
    have e: "spare h hm B e" using Cons.prems(4) MSet by simp
    have "hm_size hm + 1 < 2 ^ 64" using size Cons.prems(5) small(1) by simp
    from set_correct [OF Cons.prems(1) key [THEN conjunct2] small(2) disjI1 [OF e] lenB this]
    obtain h1 hm1 B1 where 1: "hashmap_set fuel h hm \<lparr>kunion = u, khash = hash_of u\<rparr> e = Inr (h1, hm1)"
      "kinv h1 hm1 B1" "abs_map h1 B1 = (abs_map h B)(kvalue u \<mapsto> e)"
      "\<forall>x. x \<noteq> e \<longrightarrow> spare h hm B x \<longrightarrow> spare h1 hm1 B1 x" "length (entries B1) \<le> length (entries B) + 1"
      "length B1 \<le> length B \<or> 2 * length B1 \<le> 5 * (length (entries B) + 1)" by (metis hm_key.simps(1))
    have "length B1 \<le> 100 \<or> 2 * length B1 \<le> 5 * (n + 1)" using 1(6) Cons.prems(5,6) by auto
    moreover have "\<forall>x \<in> set (new_entries ops). spare h1 hm1 B1 x" using 1(4) Cons.prems(3,4) MSet by auto
    ultimately have "\<exists>h' hm'. hm_run fuel h1 hm1 ops = Inr (h', hm') \<and>
        (\<forall>u. kvalid u \<longrightarrow> bindE (new_key hm' u) (\<lambda>key. hashmap_get fuel h' hm' key) =
          Inr (map_run kvalue (abs_map h1 B1) ops (kvalue u)))"
      using Cons.IH [OF 1(2), of "n + 1"] Cons.prems(2,3,5,7,8) 1(5) MSet by simp
    then show ?thesis using MSet key 1(1,3) by simp
  next
    case (MRemove u)
    with Cons.prems(2) have u: "kvalid u" by simp
    note key = new_key_ok [OF u kt]
    have "length (entries B) < fuel" using small(2) by simp
    from remove_correct [OF Cons.prems(1) key [THEN conjunct2] this]
    obtain h1 hm1 B1 where 1: "hashmap_remove fuel h hm \<lparr>kunion = u, khash = hash_of u\<rparr> = Inr (h1, hm1)"
      "kinv h1 hm1 B1" "abs_map h1 B1 = (abs_map h B)(kvalue u := None)"
      "\<forall>x. spare h hm B x \<longrightarrow> spare h1 hm1 B1 x" "length (entries B1) \<le> length (entries B)" "length B1 = length B"
      by (metis hm_key.simps(1))
    have "\<exists>h' hm'. hm_run fuel h1 hm1 ops = Inr (h', hm') \<and>
        (\<forall>u. kvalid u \<longrightarrow> bindE (new_key hm' u) (\<lambda>key. hashmap_get fuel h' hm' key) =
          Inr (map_run kvalue (abs_map h1 B1) ops (kvalue u)))"
      using Cons.IH [OF 1(2), of "n + 1"] Cons.prems 1(4,5,6) MRemove by auto
    then show ?thesis using MRemove key 1(1,3) by simp
  qed
qed

text \<open>From a new map.\<close>

lemma init_run_correct:
  assumes "\<forall>p \<in> dom (cells h). p < heap_top h" and "cells h 0 = None" and "0 < heap_top h"
    and "\<forall>op \<in> set ops. kvalid (op_key op)" and "distinct (new_entries ops)"
    and "set (new_entries ops) \<subseteq> dom (cells h)" and "length ops < 2 ^ 20" and "length ops < fuel"
    and "hashmap_init h kt = (h0, hm0)"
  shows "\<exists>h' hm'. hm_run fuel h0 hm0 ops = Inr (h', hm') \<and>
    (\<forall>u. kvalid u \<longrightarrow> bindE (new_key hm' u) (\<lambda>key. hashmap_get fuel h' hm' key) =
      Inr (map_run kvalue Map.empty ops (kvalue u)))"
proof -
  note init = init_correct [OF assms(1-3) _ _ assms(9) [unfolded hashmap_init_def]]
  let ?B = "replicate HM_INITIAL_BUCKET_SIZE (None :: ptr list option)"
  have n: "0 < HM_INITIAL_BUCKET_SIZE" "HM_INITIAL_BUCKET_SIZE < 2 ^ 31" by (simp_all add: HM_INITIAL_BUCKET_SIZE_def)
  have "abs_map h0 ?B = Map.empty" by (simp add: hm_map_def)
  moreover have "\<forall>e \<in> set (new_entries ops). spare h0 hm0 ?B e" using init(4) [OF n] assms(6) by blast
  moreover have "length (entries ?B) \<le> 0" "length ?B \<le> 100 \<or> 2 * length ?B \<le> 5 * 0"
    by (simp_all add: HM_INITIAL_BUCKET_SIZE_def)
  ultimately show ?thesis using run_correct [OF init(1) [OF n] assms(4,5), of 0 fuel] assms(7,8) by simp
qed

end

section \<open>The key types of the program\<close>

definition int_valid :: "key_union \<Rightarrow> bool" where
  "int_valid u \<longleftrightarrow> (\<exists>w. u = IKey w)"

definition int_value :: "key_union \<Rightarrow> 32 word" where
  "int_value u = (case u of IKey w \<Rightarrow> w | _ \<Rightarrow> 0)"

definition ptr_valid :: "key_union \<Rightarrow> bool" where
  "ptr_valid u \<longleftrightarrow> (\<exists>p. u = PtrKey p)"

definition ptr_value :: "key_union \<Rightarrow> 64 word" where
  "ptr_value u = (case u of PtrKey p \<Rightarrow> p | _ \<Rightarrow> 0)"

definition range_valid :: "key_union \<Rightarrow> bool" where
  "range_valid u \<longleftrightarrow> (\<exists>r. u = RangeKey r \<and> range_wf r)"

definition range_value :: "key_union \<Rightarrow> string" where
  "range_value u = (case u of RangeKey r \<Rightarrow> range_view r | _ \<Rightarrow> [])"

interpretation int_keys: hm_key_laws intKeyType int_valid int_value "\<lambda>u. scast (int_value u)"
  by unfold_locales
    (auto simp: int_valid_def int_value_def intKeyType_def int_hashKey_def int_isKeyEqual_def read_i_key_def)

text \<open>The hash of a pointer is made of its lower half: different pointers may share it, equal ones must.\<close>

interpretation ptr_keys: hm_key_laws ptrKeyType ptr_valid ptr_value "\<lambda>u. scast (ucast (ptr_value u) :: 32 word)"
  by unfold_locales
    (auto simp: ptr_valid_def ptr_value_def ptrKeyType_def ptr_hashKey_def ptr_isKeyEqual_def read_i_key_def read_ptr_key_def)

interpretation range_keys: hm_key_laws rangeKeyType range_valid range_value "\<lambda>u. djb_loop 5381 (range_value u)"
  by unfold_locales
    (auto simp: range_valid_def range_value_def rangeKeyType_def range_djb_def range_isKeyEqual_def
      read_range_key_def range_cmp_view range_wf_def [symmetric])

section \<open>Iterators\<close>

record hashmap_it =
  it_bucket :: nat
  it_pos :: ptr

definition hashmap_it_init :: "hm_heap \<Rightarrow> hashmap_t \<Rightarrow> hashmap_it res" where
  "hashmap_it_init h hm =
     bindE (get_next (cells h) (buckets hm)) (\<lambda>p. Inr \<lparr>it_bucket = 0, it_pos = p\<rparr>)"

definition hashmap_it_bucketEnd :: "hm_heap \<Rightarrow> hashmap_t \<Rightarrow> hashmap_it \<Rightarrow> bool res" where
  "hashmap_it_bucketEnd h hm it =
     (if bucketCount hm \<le> it_bucket it then Inr True
      else bindE (get_next (cells h) (it_pos it)) (\<lambda>n.
        Inr (n = 0 \<or> it_pos it = buckets hm + it_bucket it)))"

function nonempty_loop :: "hm_heap \<Rightarrow> hashmap_t \<Rightarrow> hashmap_it \<Rightarrow> hashmap_it res" where
  "nonempty_loop h hm it =
     (if it_bucket it < bucketCount hm then
        bindE (get_next (cells h) (buckets hm + it_bucket it)) (\<lambda>p.
        let it = it\<lparr>it_pos := p\<rparr> in
        bindE (if p \<noteq> 0 then bindE (hashmap_it_bucketEnd h hm it) (\<lambda>e. Inr (\<not> e)) else Inr False) (\<lambda>stop.
          if stop then Inr it else nonempty_loop h hm (it\<lparr>it_bucket := it_bucket it + 1\<rparr>)))
      else Inr it)"
  by pat_completeness auto
termination
  by (relation "measure (\<lambda>(h, hm, it). bucketCount hm - it_bucket it)") auto

declare nonempty_loop.simps [simp del]

definition hashmap_it_findNonEmptyBucket :: "hm_heap \<Rightarrow> hashmap_t \<Rightarrow> hashmap_it \<Rightarrow> hashmap_it res" where
  "hashmap_it_findNonEmptyBucket h hm it = nonempty_loop h hm (it\<lparr>it_bucket := it_bucket it + 1\<rparr>)"

definition hashmap_it_end :: "hm_heap \<Rightarrow> hashmap_t \<Rightarrow> hashmap_it \<Rightarrow> (bool \<times> hashmap_it) res" where
  "hashmap_it_end h hm it =
     bindE (hashmap_it_bucketEnd h hm it) (\<lambda>e.
     bindE (if e then hashmap_it_findNonEmptyBucket h hm it else Inr it) (\<lambda>it.
     bindE (hashmap_it_bucketEnd h hm it) (\<lambda>e. Inr (e, it))))"

definition hashmap_it_next :: "hm_heap \<Rightarrow> hashmap_t \<Rightarrow> hashmap_it \<Rightarrow> hashmap_it res" where
  "hashmap_it_next h hm it =
     bindE (hashmap_it_end h hm it) (\<lambda>(e, it).
     assertE (\<not> e)
      (bindE (hashmap_it_bucketEnd h hm it) (\<lambda>b.
        if b then hashmap_it_findNonEmptyBucket h hm it
        else bindE (get_next (cells h) (it_pos it)) (\<lambda>p. Inr (it\<lparr>it_pos := p\<rparr>)))))"

definition hashmap_it_get :: "hm_heap \<Rightarrow> hashmap_t \<Rightarrow> hashmap_it \<Rightarrow> ptr res" where
  "hashmap_it_get h hm it =
     bindE (hashmap_it_bucketEnd h hm it) (\<lambda>e. assertE (\<not> e) (Inr (it_pos it)))"

text \<open>The loop of the callers: \<open>for (it = init; !end(&it); next(&it))\<close>, with the entries it gets.\<close>

fun hashmap_iterate :: "nat \<Rightarrow> hm_heap \<Rightarrow> hashmap_t \<Rightarrow> hashmap_it \<Rightarrow> ptr list res" where
  "hashmap_iterate 0 h hm it = Inl OutOfFuel"
| "hashmap_iterate (Suc fuel) h hm it =
     bindE (hashmap_it_end h hm it) (\<lambda>(e, it).
       if e then Inr []
       else bindE (hashmap_it_get h hm it) (\<lambda>x.
            bindE (hashmap_it_next h hm it) (\<lambda>it.
            bindE (hashmap_iterate fuel h hm it) (\<lambda>xs. Inr (x # xs)))))"

text \<open>An iterator inside bucket \<open>i\<close>, with the elements \<open>vs\<close> of the bucket still to come.\<close>

definition it_at :: "hashmap_t \<Rightarrow> ptr list option list \<Rightarrow> hashmap_it \<Rightarrow> nat \<Rightarrow> ptr list \<Rightarrow> bool" where
  "it_at hm B it i vs \<longleftrightarrow> i < length B \<and> (\<exists>us. B ! i = Some (us @ vs)) \<and>
     it = \<lparr>it_bucket = i, it_pos = hd (vs @ [buckets hm + i])\<rparr>"

lemma it_at_bucket:
  assumes "buckets_rep (cells h) (buckets hm) B" and "bucketCount hm = length B" and "it_at hm B it i vs"
  shows "hashmap_it_bucketEnd h hm it = Inr (vs = [])"
    and "\<And>v ws. vs = v # ws \<Longrightarrow> nx (cells h) v = Some (hd (ws @ [buckets hm + i]))"
proof -
  from assms(3) obtain us where i: "i < length B" "B ! i = Some (us @ vs)"
    and it: "it = \<lparr>it_bucket = i, it_pos = hd (vs @ [buckets hm + i])\<rparr>" by (auto simp: it_at_def)
  let ?p = "buckets hm + i"
  have r: "ring (cells h) ?p (us @ vs)" using buckets_rep_nth(1) [OF assms(1) i(1)] i(2) by simp
  show step: "nx (cells h) v = Some (hd (ws @ [?p]))" if "vs = v # ws" for v ws
    using ring_links(1) [of "cells h" ?p "us @ [v]" ws] r that by simp
  have cell: "x \<noteq> 0" if "x \<in> set (?p # us @ vs)" for x
    using il.rep_cells [OF r] that assms(1) by (auto simp: buckets_rep_def)
  show "hashmap_it_bucketEnd h hm it = Inr (vs = [])"
  proof (cases vs)
    case Nil
    have "nx (cells h) ?p = Some (hd (us @ [?p]))" using ring_links(1) [of "cells h" ?p "[]" us] r Nil by simp
    then show ?thesis using it Nil i(1) assms(2) by (simp add: hashmap_it_bucketEnd_def)
  next
    case (Cons v ws)
    have "hd (ws @ [?p]) \<noteq> 0" using cell Cons by (cases ws) auto
    moreover have "v \<noteq> ?p" using il.rep_distinct [OF r] Cons by auto
    ultimately show ?thesis using it Cons i(1) assms(2) step [OF Cons] by (simp add: hashmap_it_bucketEnd_def)
  qed
qed

lemma nonempty_loop_correct:
  assumes rep: "buckets_rep (cells h) (buckets hm) B" and count: "bucketCount hm = length B"
    and "it_bucket it + n = length B"
  shows "\<exists>it'. nonempty_loop h hm it = Inr it' \<and>
    (case entries (drop (it_bucket it) B) of
       [] \<Rightarrow> it_bucket it' = length B
     | x # _ \<Rightarrow> \<exists>i vs. it_at hm B it' i (x # vs) \<and> entries (drop (it_bucket it) B) = x # vs @ entries (drop (i + 1) B))"
  using assms(3)
proof (induction n arbitrary: it)
  case 0
  then show ?case using count by (subst nonempty_loop.simps) simp
next
  case (Suc n)
  let ?i = "it_bucket it"
  have i: "?i < length B" using Suc.prems by simp
  have drop: "drop ?i B = B ! ?i # drop (?i + 1) B" using Cons_nth_drop_Suc [OF i] by simp
  have skip: "\<exists>it'. nonempty_loop h hm (it\<lparr>it_pos := p, it_bucket := ?i + 1\<rparr>) = Inr it' \<and>
      (case entries (drop (?i + 1) B) of [] \<Rightarrow> it_bucket it' = length B
       | x # _ \<Rightarrow> \<exists>i vs. it_at hm B it' i (x # vs) \<and> entries (drop (?i + 1) B) = x # vs @ entries (drop (i + 1) B))" for p
    using Suc.IH [of "it\<lparr>it_pos := p, it_bucket := ?i + 1\<rparr>"] Suc.prems by (simp cong: list.case_cong)
  have loop: "nonempty_loop h hm it = bindE (get_next (cells h) (buckets hm + ?i)) (\<lambda>p.
      bindE (if p \<noteq> 0 then bindE (hashmap_it_bucketEnd h hm (it\<lparr>it_pos := p\<rparr>)) (\<lambda>e. Inr (\<not> e)) else Inr False) (\<lambda>stop.
        if stop then Inr (it\<lparr>it_pos := p\<rparr>) else nonempty_loop h hm (it\<lparr>it_pos := p, it_bucket := ?i + 1\<rparr>)))"
    using i count by (subst nonempty_loop.simps) (simp add: Let_def cong: if_cong)
  show ?case
  proof (cases "B ! ?i")
    case None
    then have "get_next (cells h) (buckets hm + ?i) = Inr 0" using buckets_rep_nth(1) [OF rep i] by simp
    then show ?thesis using loop skip [of 0] drop None by (simp cong: list.case_cong)
  next
    case (Some xs)
    let ?p = "buckets hm + ?i"
    have r: "ring (cells h) ?p ([] @ xs)" using buckets_rep_nth(1) [OF rep i] Some by simp
    have n: "nx (cells h) ?p = Some (hd (xs @ [?p]))" using ring_links(1) [OF r] by simp
    have "hd (xs @ [?p]) \<in> dom (cells h)" using il.rep_cells [OF r] by (cases xs) auto
    then have nz: "hd (xs @ [?p]) \<noteq> 0" using rep by (metis buckets_rep_def domIff)
    have at: "it_at hm B (it\<lparr>it_pos := hd (xs @ [?p])\<rparr>) ?i xs" using i Some by (simp add: it_at_def)
    note e = it_at_bucket(1) [OF rep count at]
    show ?thesis
    proof (cases xs)
      case Nil
      then show ?thesis using loop skip [of ?p] drop Some n e nz by (simp cong: list.case_cong)
    next
      case (Cons x vs)
      then show ?thesis using loop drop Some n e nz at by (auto intro!: exI [of _ ?i] exI [of _ vs])
    qed
  qed
qed

lemma it_end_at:
  assumes rep: "buckets_rep (cells h) (buckets hm) B" and count: "bucketCount hm = length B" and at: "it_at hm B it i vs"
  shows "\<exists>e it'. hashmap_it_end h hm it = Inr (e, it') \<and>
    (case vs @ entries (drop (i + 1) B) of [] \<Rightarrow> e
     | x # rest \<Rightarrow> \<not> e \<and> (\<exists>j ws. it_at hm B it' j (x # ws) \<and> rest = ws @ entries (drop (j + 1) B)))"
proof (cases vs)
  case (Cons v ws)
  then show ?thesis using it_at_bucket(1) [OF rep count at] at by (auto simp: hashmap_it_end_def)
next
  case Nil
  have i: "it_bucket it = i" "i < length B" using at by (auto simp: it_at_def)
  then have "it_bucket (it\<lparr>it_bucket := i + 1\<rparr>) + (length B - (i + 1)) = length B" by simp
  from nonempty_loop_correct [OF rep count this] obtain it' where
    it': "nonempty_loop h hm (it\<lparr>it_bucket := i + 1\<rparr>) = Inr it'"
    "case entries (drop (i + 1) B) of [] \<Rightarrow> it_bucket it' = length B
     | x # _ \<Rightarrow> \<exists>j vs. it_at hm B it' j (x # vs) \<and> entries (drop (i + 1) B) = x # vs @ entries (drop (j + 1) B)"
    by (auto cong: list.case_cong)
  show ?thesis
  proof (cases "entries (drop (i + 1) B)")
    case N: Nil
    then show ?thesis using it' it_at_bucket(1) [OF rep count at] Nil i count
      by (intro exI [of _ True] exI [of _ it'])
        (simp add: hashmap_it_end_def hashmap_it_findNonEmptyBucket_def hashmap_it_bucketEnd_def [of h hm it'])
  next
    case C: (Cons x rest)
    then obtain j ws where j: "it_at hm B it' j (x # ws)" "rest = ws @ entries (drop (j + 1) B)" using it'(2) by auto
    show ?thesis using it'(1) it_at_bucket(1) [OF rep count at] it_at_bucket(1) [OF rep count j(1)] Nil C j i
      by (auto simp: hashmap_it_end_def hashmap_it_findNonEmptyBucket_def)
  qed
qed

lemma iterate_at:
  assumes rep: "buckets_rep (cells h) (buckets hm) B" and count: "bucketCount hm = length B"
  shows "it_at hm B it i vs \<Longrightarrow> length (vs @ entries (drop (i + 1) B)) < fuel \<Longrightarrow>
    hashmap_iterate fuel h hm it = Inr (vs @ entries (drop (i + 1) B))"
proof (induction fuel arbitrary: it i vs)
  case (Suc fuel)
  from it_end_at [OF rep count Suc.prems(1)] obtain e it' where
    e: "hashmap_it_end h hm it = Inr (e, it')"
      "case vs @ entries (drop (i + 1) B) of [] \<Rightarrow> e
       | x # rest \<Rightarrow> \<not> e \<and> (\<exists>j ws. it_at hm B it' j (x # ws) \<and> rest = ws @ entries (drop (j + 1) B))" by blast
  show ?case
  proof (cases "vs @ entries (drop (i + 1) B)")
    case Nil
    then show ?thesis using e by simp
  next
    case (Cons x rest)
    then obtain j ws where j: "\<not> e" "it_at hm B it' j (x # ws)" "rest = ws @ entries (drop (j + 1) B)" using e(2) by auto
    note b = it_at_bucket(1) [OF rep count j(2)] and n = it_at_bucket(2) [OF rep count j(2) refl]
    have pos: "it_pos it' = x" "it_bucket it' = j" using j(2) by (simp_all add: it_at_def)
    have at': "it_at hm B (it'\<lparr>it_pos := hd (ws @ [buckets hm + j])\<rparr>) j ws"
      using j(2) unfolding it_at_def by (auto intro: exI [of _ "_ @ [x]"])
    have "hashmap_it_end h hm it' = Inr (False, it')" using b by (simp add: hashmap_it_end_def)
    then have "hashmap_it_next h hm it' = Inr (it'\<lparr>it_pos := hd (ws @ [buckets hm + j])\<rparr>)"
      using b n pos by (simp add: hashmap_it_next_def)
    moreover have "hashmap_it_get h hm it' = Inr x" using b pos by (simp add: hashmap_it_get_def)
    moreover have "hashmap_iterate fuel h hm (it'\<lparr>it_pos := hd (ws @ [buckets hm + j])\<rparr>) = Inr rest"
    proof -
      have "length (x # rest) < Suc fuel" using Suc.prems(2) by (simp only: Cons)
      then show ?thesis using Suc.IH [OF at'] j(3) by simp
    qed
    ultimately show ?thesis using e(1) j(1) Cons by simp
  qed
qed simp

section \<open>Properties of the hash map\<close>

definition heap_ok :: "hm_heap \<Rightarrow> bool" where
  "heap_ok h \<longleftrightarrow> (\<forall>p \<in> dom (cells h). p < heap_top h) \<and> cells h 0 = None \<and> 0 < heap_top h"

fun int_run :: "nat \<Rightarrow> hm_heap \<Rightarrow> hashmap_t \<Rightarrow> 32 word map_op list \<Rightarrow> (hm_heap \<times> hashmap_t) res" where
  "int_run fuel h hm [] = Inr (h, hm)"
| "int_run fuel h hm (MSet k e # ops) = bindE (hashmap_setInt fuel h hm k e) (\<lambda>(h, hm). int_run fuel h hm ops)"
| "int_run fuel h hm (MRemove k # ops) = bindE (hashmap_removeInt fuel h hm k) (\<lambda>(h, hm). int_run fuel h hm ops)"

fun range_run :: "nat \<Rightarrow> hm_heap \<Rightarrow> hashmap_t \<Rightarrow> range_t map_op list \<Rightarrow> (hm_heap \<times> hashmap_t) res" where
  "range_run fuel h hm [] = Inr (h, hm)"
| "range_run fuel h hm (MSet k e # ops) = bindE (hashmap_setRange fuel h hm k e) (\<lambda>(h, hm). range_run fuel h hm ops)"
| "range_run fuel h hm (MRemove k # ops) = bindE (hashmap_removeRange fuel h hm k) (\<lambda>(h, hm). range_run fuel h hm ops)"

lemma int_run_eq: "int_run fuel h hm ops = hm_run fuel h hm (map (map_map_op IKey) ops)"
  by (induction fuel h hm ops rule: int_run.induct)
    (auto simp: hashmap_setInt_def hashmap_removeInt_def bindE_def split: sum.splits)

lemma range_run_eq: "range_run fuel h hm ops = hm_run fuel h hm (map (map_map_op RangeKey) ops)"
  by (induction fuel h hm ops rule: range_run.induct)
    (auto simp: hashmap_setRange_def hashmap_removeRange_def bindE_def split: sum.splits)

lemma map_run_map: "map_run f m (map (map_map_op g) ops) = map_run (f \<circ> g) m ops"
  by (induction "f \<circ> g" m ops rule: map_run.induct) auto

lemma new_entries_map [simp]: "new_entries (map (map_map_op g) ops) = new_entries ops"
  by (induction ops rule: new_entries.induct) auto

lemma op_key_map [simp]: "op_key (map_map_op g op) = g (op_key op)"
  by (cases op) auto

text \<open>
  C6: a hash map with \<open>int\<close> keys is a finite map. Whatever keys are set and removed after
  \<open>hashmap_init\<close>, with a new entry for every set, no operation faults, across rehashing, and
  \<open>hashmap_getInt\<close> then finds for every key the entry that was set last, or nothing when there is none
  or it was removed.
\<close>

theorem hashmap_int_refines_map:
  assumes "heap_ok h" and "distinct (new_entries ops)" and "set (new_entries ops) \<subseteq> dom (cells h)"
    and "length ops < 2 ^ 20" and "length ops < fuel" and "hashmap_init h intKeyType = (h0, hm0)"
  shows "\<exists>h' hm'. int_run fuel h0 hm0 ops = Inr (h', hm') \<and>
    (\<forall>k. hashmap_getInt fuel h' hm' k = Inr (map_run (\<lambda>k. k) Map.empty ops k))"
proof -
  let ?ops = "map (map_map_op IKey) ops"
  have "\<forall>op \<in> set ?ops. int_valid (op_key op)" by (auto simp: int_valid_def)
  from int_keys.init_run_correct [of h ?ops fuel h0 hm0, OF _ _ _ this] assms obtain h' hm' where
    "hm_run fuel h0 hm0 ?ops = Inr (h', hm')"
    and get: "\<forall>u. int_valid u \<longrightarrow> bindE (new_key hm' u) (\<lambda>key. hashmap_get fuel h' hm' key) =
      Inr (map_run int_value Map.empty ?ops (int_value u))" by (auto simp: heap_ok_def)
  moreover have "int_value \<circ> IKey = (\<lambda>k. k)" by (auto simp: int_value_def)
  ultimately show ?thesis
    by (auto simp: int_run_eq hashmap_getInt_def map_run_map int_valid_def int_value_def)
qed

definition example_heap :: hm_heap where
  "example_heap = \<lparr>cells = (\<lambda>p. if p = 1 \<or> p = 2 then Some \<lparr>lprev = 0, lnext = 0\<rparr> else None),
     entry_key = Map.empty, heap_top = 3\<rparr>"

lemma example_heap_ok: "heap_ok example_heap" "dom (cells example_heap) = {1, 2}"
  by (auto simp: heap_ok_def example_heap_def split: if_splits)

theorem hashmap_int_refines_map_witness:
  "\<exists>h' hm'. int_run 5 (fst (hashmap_init example_heap intKeyType)) (snd (hashmap_init example_heap intKeyType))
      [MSet 7 1, MSet 107 2, MRemove 7] = Inr (h', hm') \<and>
    hashmap_getInt 5 h' hm' 107 = Inr (Some 2) \<and> hashmap_getInt 5 h' hm' 7 = Inr None"
proof -
  obtain h0 hm0 where 0: "hashmap_init example_heap intKeyType = (h0, hm0)" by (cases "hashmap_init example_heap intKeyType")
  have "distinct (new_entries [MSet (7 :: 32 word) 1, MSet 107 2, MRemove 7])"
    "set (new_entries [MSet (7 :: 32 word) 1, MSet 107 2, MRemove 7]) \<subseteq> dom (cells example_heap)"
    by (simp_all add: example_heap_ok)
  from hashmap_int_refines_map [OF example_heap_ok(1) this _ _ 0, of 5] 0 show ?thesis by auto
qed

text \<open>
  C31: a hash map with range keys is a finite map on the texts the ranges show: two ranges with equal
  text are the same key, wherever they point. Sets, removals and rehashing keep that, as for integers.
\<close>

theorem hashmap_range_refines_map:
  assumes "heap_ok h" and "\<forall>op \<in> set ops. range_wf (op_key op)" and "distinct (new_entries ops)"
    and "set (new_entries ops) \<subseteq> dom (cells h)" and "length ops < 2 ^ 20" and "length ops < fuel"
    and "hashmap_init h rangeKeyType = (h0, hm0)"
  shows "\<exists>h' hm'. range_run fuel h0 hm0 ops = Inr (h', hm') \<and>
    (\<forall>r. range_wf r \<longrightarrow> hashmap_getRange fuel h' hm' r = Inr (map_run range_view Map.empty ops (range_view r)))"
proof -
  let ?ops = "map (map_map_op RangeKey) ops"
  have "\<forall>op \<in> set ?ops. range_valid (op_key op)" using assms(2) by (auto simp: range_valid_def)
  from range_keys.init_run_correct [of h ?ops fuel h0 hm0, OF _ _ _ this] assms obtain h' hm' where
    "hm_run fuel h0 hm0 ?ops = Inr (h', hm')"
    and get: "\<forall>u. range_valid u \<longrightarrow> bindE (new_key hm' u) (\<lambda>key. hashmap_get fuel h' hm' key) =
      Inr (map_run range_value Map.empty ?ops (range_value u))" by (auto simp: heap_ok_def)
  moreover have "range_value \<circ> RangeKey = range_view" by (auto simp: range_value_def)
  ultimately show ?thesis
    by (auto simp: range_run_eq hashmap_getRange_def map_run_map range_valid_def range_value_def)
qed

theorem hashmap_range_refines_map_witness:
  "\<exists>h' hm'. range_run 3 (fst (hashmap_init example_heap rangeKeyType)) (snd (hashmap_init example_heap rangeKeyType))
      [MSet (RANGE_STRING ''a'') 1, MSet (RANGE_STRING ''a'') 2] = Inr (h', hm') \<and>
    hashmap_getRange 3 h' hm' (RANGE_STRING ''a'') = Inr (Some 2)"
proof -
  obtain h0 hm0 where 0: "hashmap_init example_heap rangeKeyType = (h0, hm0)" by (cases "hashmap_init example_heap rangeKeyType")
  let ?ops = "[MSet (RANGE_STRING ''a'') 1, MSet (RANGE_STRING ''a'') 2]"
  have "\<forall>op \<in> set ?ops. range_wf (op_key op)" "distinct (new_entries ?ops)"
    "set (new_entries ?ops) \<subseteq> dom (cells example_heap)" by (simp_all add: example_heap_ok)
  from hashmap_range_refines_map [OF example_heap_ok(1) this _ _ 0, of 3] 0 show ?thesis by auto
qed

text \<open>
  C32: the iterator visits every entry of the map exactly once, in the order of the buckets, and ends;
  unless the first bucket was never used: then it starts at a null pointer and its first step
  dereferences it, however many entries the map has.
\<close>

theorem hashmap_iterator_visits_all:
  assumes "buckets_rep (cells h) (buckets hm) B" and "bucketCount hm = length B" and "0 < length B"
    and "length (entries B) < fuel"
  shows "bindE (hashmap_it_init h hm) (hashmap_iterate fuel h hm) =
    (if B ! 0 = None then Inl NullDeref else Inr (entries B))"
proof (cases "B ! 0")
  case None
  obtain f where f: "fuel = Suc f" using assms(4) by (cases fuel) auto
  have "nx (cells h) (buckets hm) = Some 0" using buckets_rep_nth(1) [OF assms(1,3)] None by simp
  moreover have "cells h 0 = None" using assms(1) by (simp add: buckets_rep_def)
  ultimately show ?thesis using None f assms(2,3)
    by (simp add: hashmap_it_init_def hashmap_it_end_def hashmap_it_bucketEnd_def get_next_def [of _ 0] list_deref_def)
next
  case (Some xs)
  have "nx (cells h) (buckets hm) = Some (hd (xs @ [buckets hm]))"
    using ring_links(1) [of "cells h" "buckets hm" "[]" xs] buckets_rep_nth(1) [OF assms(1,3)] Some by simp
  moreover have "it_at hm B \<lparr>it_bucket = 0, it_pos = hd (xs @ [buckets hm])\<rparr> 0 xs" using Some assms(3) by (simp add: it_at_def)
  moreover have "entries B = xs @ entries (drop (0 + 1) B)"
    using Some assms(3) by (cases B) simp_all
  ultimately show ?thesis using iterate_at [OF assms(1,2)] Some assms(4) by (simp add: hashmap_it_init_def)
qed

theorem hashmap_iterator_visits_all_witness:
  "bindE (hashmap_it_init (fst (hashmap_init example_heap intKeyType)) (snd (hashmap_init example_heap intKeyType)))
     (hashmap_iterate 1 (fst (hashmap_init example_heap intKeyType)) (snd (hashmap_init example_heap intKeyType))) = Inl NullDeref"
proof -
  obtain h0 hm0 where 0: "hashmap_init example_heap intKeyType = (h0, hm0)" by (cases "hashmap_init example_heap intKeyType")
  have "int_keys.kinv h0 hm0 (replicate HM_INITIAL_BUCKET_SIZE None)"
    using example_heap_ok(1) 0 by (intro int_keys.init_correct(1) [of example_heap])
      (auto simp: heap_ok_def HM_INITIAL_BUCKET_SIZE_def hashmap_init_def)
  then have "buckets_rep (cells h0) (buckets hm0) (replicate HM_INITIAL_BUCKET_SIZE None)"
    "bucketCount hm0 = length (replicate HM_INITIAL_BUCKET_SIZE (None :: ptr list option))"
    "0 < length (replicate HM_INITIAL_BUCKET_SIZE (None :: ptr list option))"
    "length (entries (replicate HM_INITIAL_BUCKET_SIZE None)) < 1" unfolding hm_inv_def by simp_all
  from hashmap_iterator_visits_all [OF this] 0 show ?thesis by (simp add: HM_INITIAL_BUCKET_SIZE_def)
qed

section \<open>Hash sets\<close>

text \<open>
  A hash set owns the entries of its map and takes them from a zone: what it needs of the zone is a cell
  that nobody else uses (\<open>Zone_Alloc\<close>), with arbitrary contents (\<open>junk\<close>).
\<close>

definition new_entry :: "list_head \<Rightarrow> hm_heap \<Rightarrow> ptr \<times> hm_heap" where
  "new_entry junk h = (heap_top h, h\<lparr>cells := (cells h)(heap_top h \<mapsto> junk), heap_top := heap_top h + 1\<rparr>)"

definition hashset_init :: "hm_heap \<Rightarrow> hm_key_type \<Rightarrow> hm_heap \<times> hashmap_t" where
  "hashset_init h kType = hashmap_init h kType"

definition hashset_insertPtr :: "nat \<Rightarrow> list_head \<Rightarrow> hm_heap \<Rightarrow> hashmap_t \<Rightarrow> 64 word \<Rightarrow> (bool \<times> hm_heap \<times> hashmap_t) res" where
  "hashset_insertPtr fuel junk h hs p =
     bindE (hashmap_getPtr fuel h hs p) (\<lambda>found.
       if found \<noteq> None then Inr (False, h, hs)
       else let (e, h) = new_entry junk h in
            bindE (hashmap_setPtr fuel h hs p e) (\<lambda>(h, hs). Inr (True, h, hs)))"

definition hashset_existsPtr :: "nat \<Rightarrow> hm_heap \<Rightarrow> hashmap_t \<Rightarrow> 64 word \<Rightarrow> bool res" where
  "hashset_existsPtr fuel h hs p = bindE (hashmap_getPtr fuel h hs p) (\<lambda>found. Inr (found \<noteq> None))"

definition hashset_insertInt :: "nat \<Rightarrow> list_head \<Rightarrow> hm_heap \<Rightarrow> hashmap_t \<Rightarrow> 32 word \<Rightarrow> (bool \<times> hm_heap \<times> hashmap_t) res" where
  "hashset_insertInt fuel junk h hs k =
     bindE (hashmap_getInt fuel h hs k) (\<lambda>found.
       if found \<noteq> None then Inr (False, h, hs)
       else let (e, h) = new_entry junk h in
            bindE (hashmap_setInt fuel h hs k e) (\<lambda>(h, hs). Inr (True, h, hs)))"

definition hashset_existsInt :: "nat \<Rightarrow> hm_heap \<Rightarrow> hashmap_t \<Rightarrow> 32 word \<Rightarrow> bool res" where
  "hashset_existsInt fuel h hs k = bindE (hashmap_getInt fuel h hs k) (\<lambda>found. Inr (found \<noteq> None))"

definition hashset_remove :: "nat \<Rightarrow> hm_heap \<Rightarrow> hashmap_t \<Rightarrow> hm_key \<Rightarrow> (hm_heap \<times> hashmap_t) res" where
  "hashset_remove fuel h hs key = hashmap_remove fuel h hs key"

text \<open>Inserting any number of pointers, with the results of the calls.\<close>

fun insert_ptrs :: "nat \<Rightarrow> list_head \<Rightarrow> hm_heap \<Rightarrow> hashmap_t \<Rightarrow> 64 word list \<Rightarrow> (bool list \<times> hm_heap \<times> hashmap_t) res" where
  "insert_ptrs fuel junk h hs [] = Inr ([], h, hs)"
| "insert_ptrs fuel junk h hs (p # ps) =
     bindE (hashset_insertPtr fuel junk h hs p) (\<lambda>(b, h, hs).
     bindE (insert_ptrs fuel junk h hs ps) (\<lambda>(bs, h, hs). Inr (b # bs, h, hs)))"

fun fresh_flags :: "'a set \<Rightarrow> 'a list \<Rightarrow> bool list" where
  "fresh_flags S [] = []"
| "fresh_flags S (x # xs) = (x \<notin> S) # fresh_flags (insert x S) xs"

context hm_key_laws
begin

lemma new_entry_correct:
  assumes inv: "kinv h hm B" and new: "new_entry junk h = (e, h')"
  shows "kinv h' hm B" and "spare h' hm B e" and "abs_map h' B = abs_map h B"
proof -
  have B: "buckets_rep (cells h) (buckets hm) B" "\<forall>p \<in> dom (cells h). p < heap_top h" "0 < length B"
    using inv unfolding hm_inv_def by blast+
  have h': "e = heap_top h" "cells h' = (cells h)(e \<mapsto> junk)" "entry_key h' = entry_key h" "heap_top h' = heap_top h + 1"
    using new by (auto simp: new_entry_def)
  have "buckets hm + 0 \<in> dom (cells h)" by (rule buckets_rep_nth(3) [OF B(1,3)])
  then have top: "0 < heap_top h" using B(2) by fastforce
  have nodes: "q \<in> dom (cells h)" if "q \<in> {buckets hm ..< buckets hm + length B} \<union> set (entries B)" for q
  proof (cases "q \<in> set (entries B)")
    case True
    then show ?thesis using entries_cells [OF B(1)] by blast
  next
    case False
    then have "q = buckets hm + (q - buckets hm)" "q - buckets hm < length B" using that by auto
    then show ?thesis using buckets_rep_nth(3) [OF B(1)] by metis
  qed
  then have low: "q \<noteq> e" if "q \<in> {buckets hm ..< buckets hm + length B} \<union> set (entries B)" for q
    using that B(2) h'(1) by blast
  have rep: "buckets_rep (cells h') (buckets hm) B"
    by (rule buckets_rep_same [OF B(1)]) (use low h'(1,2) top B(1) in \<open>simp_all add: buckets_rep_def\<close>)
  have same: "val h' = val h" "ok_entry h' = ok_entry h" "placed h' n i C = placed h n i C" for n i C
    using h'(3) by (simp_all add: fun_eq_iff entry_value_def entry_ok_def key_bucket_def placed_cong [of C h' n h])
  have "\<forall>p \<in> dom (cells h'). p < heap_top h'" using B(2) h' by (auto intro: less_SucI)
  then show "kinv h' hm B" using inv rep same unfolding hm_inv_def by simp
  show "spare h' hm B e" using low h'(2) by (auto simp: spare_def)
  show "abs_map h' B = abs_map h B" by (simp add: hm_map_def same)
qed

end

lemma insert_ptrs_correct:
  assumes "ptr_keys.kinv h hs B" and "length (entries B) \<le> n" and "length B \<le> 100 \<or> 2 * length B \<le> 5 * n"
    and "n + length ps < 2 ^ 20" and "n + length ps + 1 < fuel"
  shows "\<exists>h' hs'. insert_ptrs fuel junk h hs ps = Inr (fresh_flags (dom (hm_map ptr_value h B)) ps, h', hs') \<and>
    (\<forall>q. hashset_existsPtr fuel h' hs' q = Inr (q \<in> dom (hm_map ptr_value h B) \<union> set ps))"
  using assms
proof (induction ps arbitrary: h hs B n)
  case Nil
  have kt: "keyType hs = ptrKeyType" using Nil.prems(1) by (simp add: hm_inv_def)
  have get: "hashmap_getPtr fuel h hs q = Inr (hm_map ptr_value h B q)" for q
    using ptr_keys.new_key_ok [of "PtrKey q" hs] kt ptr_keys.get_correct [OF Nil.prems(1), of _ fuel] Nil.prems(2,5)
    by (simp add: hashmap_getPtr_def ptr_valid_def ptr_value_def)
  then show ?case by (auto simp: hashset_existsPtr_def)
next
  case (Cons p ps)
  have kt: "keyType hs = ptrKeyType" using Cons.prems(1) by (simp add: hm_inv_def)
  let ?key = "\<lparr>kunion = PtrKey p, khash = scast (ucast p :: 32 word)\<rparr>" and ?m = "hm_map ptr_value h B"
  have key: "new_key hs (PtrKey p) = Inr ?key" "ptr_keys.ok_key ?key"
    using ptr_keys.new_key_ok [of "PtrKey p" hs] kt by (simp_all add: ptr_valid_def ptr_value_def)
  have get: "hashmap_getPtr fuel h hs p = Inr (?m p)"
    using key ptr_keys.get_correct [OF Cons.prems(1) key(2), of fuel] Cons.prems(2,5)
    by (simp add: hashmap_getPtr_def ptr_value_def)
  show ?case
  proof (cases "?m p")
    case (Some e)
    then have p: "p \<in> dom ?m" "insert p (dom ?m) = dom ?m" by auto
    have "n + length ps < 2 ^ 20" "n + length ps + 1 < fuel" using Cons.prems(4,5) by simp_all
    from Cons.IH [OF Cons.prems(1-3) this] obtain h' hs' where
      "insert_ptrs fuel junk h hs ps = Inr (fresh_flags (dom ?m) ps, h', hs')"
      "\<forall>q. hashset_existsPtr fuel h' hs' q = Inr (q \<in> dom ?m \<union> set ps)" by blast
    moreover have "hashset_insertPtr fuel junk h hs p = Inr (False, h, hs)"
      using get Some by (simp add: hashset_insertPtr_def)
    moreover have "dom ?m \<union> set (p # ps) = dom ?m \<union> set ps" using p(1) by auto
    ultimately show ?thesis using p by simp
  next
    case None
    obtain e h1 where new: "new_entry junk h = (e, h1)" by (cases "new_entry junk h")
    note n1 = ptr_keys.new_entry_correct [OF Cons.prems(1) new]
    have "hm_size hs + 1 < 2 ^ 64" "2 * length B < 2 ^ 31" "length (entries B) + 1 < fuel"
      using Cons.prems by (auto simp: hm_inv_def)
    from ptr_keys.set_correct [OF n1(1) key(2) this(3) disjI1 [OF n1(2)] this(2,1)] obtain h2 hs2 B2 where
      2: "hashmap_set fuel h1 hs ?key e = Inr (h2, hs2)" "ptr_keys.kinv h2 hs2 B2"
        "hm_map ptr_value h2 B2 = (hm_map ptr_value h1 B)(ptr_value (kunion ?key) \<mapsto> e)"
        "length (entries B2) \<le> length (entries B) + 1"
        "length B2 \<le> length B \<or> 2 * length B2 \<le> 5 * (length (entries B) + 1)" by metis
    have dom: "dom (hm_map ptr_value h2 B2) = insert p (dom ?m)" using 2(3) n1(3) by (simp add: ptr_value_def)
    have "length B2 \<le> 100 \<or> 2 * length B2 \<le> 5 * (n + 1)" "length (entries B2) \<le> n + 1"
      using 2(4,5) Cons.prems(2,3) by auto
    from Cons.IH [OF 2(2) this(2,1)] Cons.prems(4,5) obtain h' hs' where
      "insert_ptrs fuel junk h2 hs2 ps = Inr (fresh_flags (insert p (dom ?m)) ps, h', hs')"
      "\<forall>q. hashset_existsPtr fuel h' hs' q = Inr (q \<in> insert p (dom ?m) \<union> set ps)" by (auto simp: dom)
    moreover have "hashset_insertPtr fuel junk h hs p = Inr (True, h2, hs2)"
      using get None new key(1) 2(1) by (simp add: hashset_insertPtr_def hashmap_setPtr_def)
    moreover have "p \<notin> dom ?m" using None by auto
    ultimately show ?thesis by auto
  qed
qed

text \<open>
  C33: a hash set of pointers is a set: every insertion reports whether the pointer was new, and
  \<open>hashset_existsPtr\<close> answers membership, although pointers that agree in their lower 32 bits share a
  hash.
\<close>

theorem hashset_ptr_refines_set:
  assumes "heap_ok h" and "length ps < 2 ^ 20" and "length ps + 1 < fuel" and "hashset_init h ptrKeyType = (h0, hs0)"
  shows "\<exists>h' hs'. insert_ptrs fuel junk h0 hs0 ps = Inr (fresh_flags {} ps, h', hs') \<and>
    (\<forall>q. hashset_existsPtr fuel h' hs' q = Inr (q \<in> set ps))"
proof -
  have "ptr_keys.kinv h0 hs0 (replicate HM_INITIAL_BUCKET_SIZE None)"
    using assms(1,4) by (intro ptr_keys.init_correct(1) [of h])
      (auto simp: heap_ok_def HM_INITIAL_BUCKET_SIZE_def hashmap_init_def hashset_init_def)
  from insert_ptrs_correct [OF this, of 0 ps fuel junk] assms(2,3) show ?thesis
    by (simp add: HM_INITIAL_BUCKET_SIZE_def hm_map_def)
qed

theorem hashset_ptr_refines_set_witness:
  "\<exists>h' hs'. insert_ptrs 5 \<lparr>lprev = 9, lnext = 9\<rparr> (fst (hashset_init example_heap ptrKeyType))
      (snd (hashset_init example_heap ptrKeyType)) [5, 2 ^ 32 + 5, 5] = Inr ([True, True, False], h', hs') \<and>
    hashset_existsPtr 5 h' hs' 6 = Inr False"
proof -
  obtain h0 hs0 where 0: "hashset_init example_heap ptrKeyType = (h0, hs0)" by (cases "hashset_init example_heap ptrKeyType")
  from hashset_ptr_refines_set [OF example_heap_ok(1) _ _ 0, of "[5, 2 ^ 32 + 5, 5]" 5 "\<lparr>lprev = 9, lnext = 9\<rparr>"]
  obtain h' hs' where "insert_ptrs 5 \<lparr>lprev = 9, lnext = 9\<rparr> h0 hs0 [5, 2 ^ 32 + 5, 5] =
      Inr (fresh_flags {} [5 :: 64 word, 2 ^ 32 + 5, 5], h', hs')"
    "\<forall>q. hashset_existsPtr 5 h' hs' q = Inr (q \<in> set [5, 2 ^ 32 + 5, 5])" by auto
  moreover have "fresh_flags {} [5 :: 64 word, 2 ^ 32 + 5, 5] = [True, True, False]" by simp
  moreover have "(6 :: 64 word) \<notin> set [5, 2 ^ 32 + 5, 5]" by simp
  ultimately show ?thesis unfolding 0 fst_conv snd_conv by (intro exI [of _ h'] exI [of _ hs']) (simp only: simp_thms)
qed

end
