(* ===== verification/Zone_Alloc.thy ===== *)
theory Zone_Alloc
  imports Prelude
begin

text \<open>
  \<open>zone_alloc.c\<close>: the arena allocator. A block of \<open>ZONE_SIZE\<close> bytes starts with a header that points
  to the block allocated before it; requests are cut off the newest block from front to back. A pointer
  is a block and an offset into it. The lemmas show that the regions handed out never overlap each
  other or a header, and that \<open>zone_free\<close> ends and frees every block of the zone exactly once.
\<close>

section \<open>Blocks and headers\<close>

text \<open>\<open>zone_headers\<close> are the live blocks with the \<open>next\<close> field of their header; 0 is the null pointer.\<close>

type_synonym block = nat

record zone_memory =
  zone_headers :: "block \<Rightarrow> block option"
  fresh_block :: block

record zone_allocator =
  topZone :: block
  zptr :: "block \<times> nat"
  remaining :: nat

definition ZONE_SIZE :: nat where
  "ZONE_SIZE = 4096"

definition zone_header_size :: nat where
  "zone_header_size = 8"

definition MAX_ZONE_ALLOCATION :: nat where
  "MAX_ZONE_ALLOCATION = ZONE_SIZE - zone_header_size"

lemmas zone_sizes = ZONE_SIZE_def zone_header_size_def MAX_ZONE_ALLOCATION_def

section \<open>The operations\<close>

text \<open>\<open>dmalloc\<close> does not return when there is no memory: its result is a block that was not in use.\<close>

definition new_zone :: "zone_memory \<Rightarrow> zone_allocator \<Rightarrow> zone_memory \<times> zone_allocator" where
  "new_zone m alloc =
     (let ptr = fresh_block m in
      (\<lparr>zone_headers = (zone_headers m)(ptr \<mapsto> topZone alloc), fresh_block = ptr + 1\<rparr>,
       \<lparr>topZone = ptr, zptr = (ptr, zone_header_size), remaining = MAX_ZONE_ALLOCATION\<rparr>))"

definition zone_init :: "zone_memory \<Rightarrow> zone_memory \<times> zone_allocator" where
  "zone_init m = new_zone m \<lparr>topZone = 0, zptr = (0, 0), remaining = 0\<rparr>"

definition zone_alloc :: "zone_memory \<Rightarrow> zone_allocator \<Rightarrow> nat \<Rightarrow>
    (zone_memory \<times> zone_allocator \<times> (block \<times> nat)) res" where
  "zone_alloc m alloc n =
     assertE (n \<le> MAX_ZONE_ALLOCATION)
       (let (m, alloc) = (if n > remaining alloc then new_zone m alloc else (m, alloc)) in
        Inr (m, alloc\<lparr>zptr := (fst (zptr alloc), snd (zptr alloc) + n), remaining := remaining alloc - n\<rparr>,
             zptr alloc))"

text \<open>The loop of \<open>zone_free\<close>: it reads the header of a block, then frees the block.\<close>

fun zone_free_loop :: "nat \<Rightarrow> zone_memory \<Rightarrow> block \<Rightarrow> zone_memory res" where
  "zone_free_loop 0 m current = Inl OutOfFuel"
| "zone_free_loop (Suc fuel) m current =
     (if current = 0 then Inr m
      else case zone_headers m current of
        None \<Rightarrow> Inl NullDeref
      | Some next \<Rightarrow>
          zone_free_loop fuel (m\<lparr>zone_headers := (zone_headers m)(current := None)\<rparr>) next)"

definition zone_free :: "nat \<Rightarrow> zone_memory \<Rightarrow> zone_allocator \<Rightarrow> zone_memory res" where
  "zone_free fuel m alloc = zone_free_loop fuel m (topZone alloc)"

text \<open>Any number of allocations.\<close>

fun zone_allocs :: "zone_memory \<Rightarrow> zone_allocator \<Rightarrow> nat list \<Rightarrow>
    (zone_memory \<times> zone_allocator \<times> (block \<times> nat) list) res" where
  "zone_allocs m alloc [] = Inr (m, alloc, [])"
| "zone_allocs m alloc (n # ns) =
     bindE (zone_alloc m alloc n) (\<lambda>(m, alloc, p).
     bindE (zone_allocs m alloc ns) (\<lambda>(m, alloc, ps). Inr (m, alloc, p # ps)))"

section \<open>The invariant\<close>

text \<open>\<open>bs\<close> are the blocks of the zone, newest first, \<open>h0\<close> the memory of everybody else.\<close>

fun zone_chain :: "(block \<Rightarrow> block option) \<Rightarrow> block \<Rightarrow> block list \<Rightarrow> bool" where
  "zone_chain h p [] \<longleftrightarrow> p = 0"
| "zone_chain h p (b # bs) \<longleftrightarrow> p = b \<and> b \<noteq> 0 \<and> (\<exists>q. h b = Some q \<and> zone_chain h q bs)"

definition memory_ok :: "zone_memory \<Rightarrow> bool" where
  "memory_ok m \<longleftrightarrow> 0 < fresh_block m \<and> (\<forall>b \<ge> fresh_block m. zone_headers m b = None)"

definition zone_inv :: "(block \<Rightarrow> block option) \<Rightarrow> zone_memory \<Rightarrow> zone_allocator \<Rightarrow> block list \<Rightarrow> bool" where
  "zone_inv h0 m alloc bs \<longleftrightarrow>
     memory_ok m \<and> zone_chain (zone_headers m) (topZone alloc) bs \<and> distinct bs \<and> bs \<noteq> [] \<and>
     fst (zptr alloc) = topZone alloc \<and> zone_header_size \<le> snd (zptr alloc) \<and>
     snd (zptr alloc) + remaining alloc = ZONE_SIZE \<and>
     dom h0 \<inter> set bs = {} \<and> (\<forall>b. b \<notin> set bs \<longrightarrow> zone_headers m b = h0 b)"

lemma zone_chain_dom: "zone_chain h p bs \<Longrightarrow> set bs \<subseteq> dom h"
  by (induction bs arbitrary: p) auto

lemma zone_chain_upd [simp]: "b \<notin> set bs \<Longrightarrow> zone_chain (h(b := v)) p bs = zone_chain h p bs"
  by (induction bs arbitrary: p) auto

lemma zone_inv_top: "zone_inv h0 m alloc bs \<Longrightarrow> topZone alloc = hd bs"
  by (cases bs) (auto simp: zone_inv_def)

lemma zone_init_inv:
  assumes "memory_ok m" and "zone_init m = (m', alloc)"
  shows "zone_inv (zone_headers m) m' alloc [fresh_block m]"
  using assms by (auto simp: zone_inv_def memory_ok_def zone_init_def new_zone_def Let_def zone_sizes less_Suc_eq)

lemma new_zone_inv:
  assumes "zone_inv h0 m alloc bs" and "new_zone m alloc = (m', alloc')"
  shows "zone_inv h0 m' alloc' (fresh_block m # bs) \<and> fresh_block m \<notin> set bs \<and>
    remaining alloc' = MAX_ZONE_ALLOCATION"
proof -
  have "set bs \<subseteq> dom (zone_headers m)" using assms(1) by (auto simp: zone_inv_def dest!: zone_chain_dom)
  moreover have "dom h0 \<subseteq> dom (zone_headers m)" using assms(1) by (force simp: zone_inv_def)
  ultimately have new: "fresh_block m \<notin> set bs" "fresh_block m \<notin> dom h0"
    using assms(1) by (force simp: zone_inv_def memory_ok_def)+
  with assms show ?thesis
    by (auto simp: zone_inv_def new_zone_def Let_def zone_sizes memory_ok_def less_Suc_eq)
qed

text \<open>One allocation: it takes a region of the newest block, which may be a new one.\<close>

lemma zone_alloc_inv:
  assumes "zone_inv h0 m alloc bs" and "n \<le> MAX_ZONE_ALLOCATION"
  obtains m' alloc' p bs' where "zone_alloc m alloc n = Inr (m', alloc', p)" and "zone_inv h0 m' alloc' bs'"
    and "fst p = hd bs'" and "bs' = bs \<or> bs' = fst p # bs \<and> fst p \<notin> set bs" and "zone_header_size \<le> snd p"
    and "snd (zptr alloc') = snd p + n" and "snd p + n \<le> ZONE_SIZE"
    and "bs' = bs \<Longrightarrow> snd p = snd (zptr alloc)"
proof (cases "n > remaining alloc")
  case True
  obtain m1 a1 where 1: "new_zone m alloc = (m1, a1)" by (cases "new_zone m alloc")
  let ?a = "a1\<lparr>zptr := (fst (zptr a1), snd (zptr a1) + n), remaining := remaining a1 - n\<rparr>"
  from new_zone_inv [OF assms(1) 1] have inv: "zone_inv h0 m1 a1 (fresh_block m # bs)"
    and fresh: "fresh_block m \<notin> set bs" "remaining a1 = MAX_ZONE_ALLOCATION" by auto
  have sum: "snd (zptr a1) + remaining a1 = ZONE_SIZE" "zone_header_size \<le> snd (zptr a1)"
    using inv by (auto simp: zone_inv_def)
  have hd: "fst (zptr a1) = fresh_block m" using zone_inv_top [OF inv] inv by (simp add: zone_inv_def)
  show ?thesis
  proof (rule that)
    show "zone_alloc m alloc n = Inr (m1, ?a, zptr a1)" using True 1 assms(2) by (simp add: zone_alloc_def)
    show "zone_inv h0 m1 ?a (fresh_block m # bs)"
      using inv sum fresh(2) assms(2) by (simp add: zone_inv_def)
  qed (use fresh sum hd assms(2) in simp_all)
next
  case False
  let ?a = "alloc\<lparr>zptr := (fst (zptr alloc), snd (zptr alloc) + n), remaining := remaining alloc - n\<rparr>"
  have sum: "snd (zptr alloc) + remaining alloc = ZONE_SIZE" "zone_header_size \<le> snd (zptr alloc)"
    using assms(1) by (auto simp: zone_inv_def)
  have hd: "fst (zptr alloc) = hd bs" using zone_inv_top [OF assms(1)] assms(1) by (simp add: zone_inv_def)
  show ?thesis
  proof (rule that)
    show "zone_alloc m alloc n = Inr (m, ?a, zptr alloc)" using False assms(2) by (simp add: zone_alloc_def)
    show "zone_inv h0 m ?a bs" using assms(1) sum False by (simp add: zone_inv_def)
  qed (use sum hd False in simp_all)
qed

section \<open>The regions handed out\<close>

definition region :: "block \<times> nat \<Rightarrow> nat \<Rightarrow> (block \<times> nat) set" where
  "region p n = {fst p} \<times> {snd p ..< snd p + n}"

text \<open>Everything behind \<open>zptr\<close> in the newest block, and every later block, is not handed out yet.\<close>

definition unused :: "zone_allocator \<Rightarrow> block list \<Rightarrow> (block \<times> nat) set" where
  "unused alloc bs = {(b, i). b \<notin> set bs \<or> b = hd bs \<and> snd (zptr alloc) \<le> i}"

lemma zone_allocs_regions:
  assumes "zone_inv h0 m alloc bs" and "\<forall>n \<in> set ns. n \<le> MAX_ZONE_ALLOCATION"
  shows "\<exists>m' alloc' ps bs'. zone_allocs m alloc ns = Inr (m', alloc', ps) \<and> zone_inv h0 m' alloc' bs' \<and>
    length ps = length ns \<and> set bs \<subseteq> set bs' \<and> length bs' \<le> length bs + length ns \<and>
    (\<forall>i < length ns. region (ps ! i) (ns ! i) \<subseteq> set bs' \<times> {zone_header_size ..< ZONE_SIZE} \<inter> unused alloc bs) \<and>
    (\<forall>i j. i < j \<longrightarrow> j < length ns \<longrightarrow> region (ps ! i) (ns ! i) \<inter> region (ps ! j) (ns ! j) = {})"
  using assms
proof (induction ns arbitrary: m alloc bs)
  case Nil
  then show ?case by auto
next
  case (Cons n ns)
  from Cons.prems(2) have "n \<le> MAX_ZONE_ALLOCATION" by simp
  from zone_alloc_inv [OF Cons.prems(1) this] obtain m1 a1 p bs1 where
    1: "zone_alloc m alloc n = Inr (m1, a1, p)" "zone_inv h0 m1 a1 bs1" "fst p = hd bs1"
      "bs1 = bs \<or> bs1 = fst p # bs \<and> fst p \<notin> set bs" "zone_header_size \<le> snd p"
      "snd (zptr a1) = snd p + n" "snd p + n \<le> ZONE_SIZE" "bs1 = bs \<Longrightarrow> snd p = snd (zptr alloc)" by metis
  from Cons.IH [OF 1(2)] Cons.prems(2) obtain m2 a2 ps bs2 where
    2: "zone_allocs m1 a1 ns = Inr (m2, a2, ps)" "zone_inv h0 m2 a2 bs2" "length ps = length ns"
      "set bs1 \<subseteq> set bs2" "length bs2 \<le> length bs1 + length ns"
    and in2: "\<forall>i < length ns. region (ps ! i) (ns ! i) \<subseteq> set bs2 \<times> {zone_header_size ..< ZONE_SIZE} \<inter> unused a1 bs1"
    and dis2: "\<forall>i j. i < j \<longrightarrow> j < length ns \<longrightarrow> region (ps ! i) (ns ! i) \<inter> region (ps ! j) (ns ! j) = {}"
    by auto
  have "bs1 \<noteq> []" using 1(2) by (simp add: zone_inv_def)
  then have p: "fst p \<in> set bs1" using 1(3) by simp
  have unused: "unused a1 bs1 \<subseteq> unused alloc bs" using 1(4)
  proof
    assume "bs1 = bs"
    then show ?thesis using 1(6,8) by (auto simp: unused_def)
  next
    assume "bs1 = fst p # bs \<and> fst p \<notin> set bs"
    then show ?thesis by (auto simp: unused_def)
  qed
  have "region p n \<subseteq> set bs2 \<times> {zone_header_size ..< ZONE_SIZE}"
    using 1(5,7) 2(4) p by (auto simp: region_def)
  moreover have "region p n \<subseteq> unused alloc bs"
    using 1(4)
  proof
    assume "bs1 = bs"
    then show ?thesis using 1(3,8) by (auto simp: region_def unused_def)
  next
    assume "bs1 = fst p # bs \<and> fst p \<notin> set bs"
    then show ?thesis by (auto simp: region_def unused_def)
  qed
  ultimately have first: "region p n \<subseteq> set bs2 \<times> {zone_header_size ..< ZONE_SIZE} \<inter> unused alloc bs" by blast
  have apart: "region p n \<inter> unused a1 bs1 = {}" using 1(3,6) p by (auto simp: region_def unused_def)
  have "region ((p # ps) ! i) ((n # ns) ! i) \<subseteq> set bs2 \<times> {zone_header_size ..< ZONE_SIZE} \<inter> unused alloc bs"
    if "i < length (n # ns)" for i using that first in2 unused by (cases i) auto
  moreover have "region ((p # ps) ! i) ((n # ns) ! i) \<inter> region ((p # ps) ! j) ((n # ns) ! j) = {}"
    if "i < j" "j < length (n # ns)" for i j
  proof -
    from that(1) obtain j' where j: "j = Suc j'" by (cases j) auto
    then show ?thesis using that apart in2 dis2 by (cases i) (auto; blast)+
  qed
  moreover have "length bs2 \<le> length bs + length (n # ns)" "set bs \<subseteq> set bs2" using 1(4) 2(4,5) by auto
  ultimately show ?case using 1(1) 2(1-3) by (intro exI [of _ m2] exI [of _ a2] exI [of _ "p # ps"] exI [of _ bs2]) auto
qed

lemma zone_free_chain:
  "zone_chain (zone_headers m) p bs \<Longrightarrow> distinct bs \<Longrightarrow> length bs < fuel \<Longrightarrow>
   \<exists>m'. zone_free_loop fuel m p = Inr m' \<and>
     zone_headers m' = (\<lambda>b. if b \<in> set bs then None else zone_headers m b)"
proof (induction bs arbitrary: m p fuel)
  case Nil
  then show ?case by (cases fuel) auto
next
  case (Cons b bs)
  from Cons.prems(3) obtain f where f: "fuel = Suc f" "length bs < f" by (cases fuel) auto
  from Cons.prems(1) obtain q where q: "p = b" "b \<noteq> 0" "zone_headers m b = Some q"
    "zone_chain (zone_headers m) q bs" by auto
  let ?m = "m\<lparr>zone_headers := (zone_headers m)(b := None)\<rparr>"
  have "zone_chain (zone_headers ?m) q bs" using q(4) Cons.prems(2) by simp
  from Cons.IH [OF this _ f(2)] Cons.prems(2) obtain m' where "zone_free_loop f ?m q = Inr m'"
    "zone_headers m' = (\<lambda>a. if a \<in> set bs then None else zone_headers ?m a)" by auto
  then show ?case using q f(1) by (intro exI [of _ m']) (auto simp: fun_eq_iff)
qed

section \<open>Properties of the allocator\<close>

text \<open>
  C15: any sequence of requests of at most \<open>MAX_ZONE_ALLOCATION\<close> bytes to a new zone succeeds; the
  regions handed out lie in live blocks behind the header and inside the \<open>ZONE_SIZE\<close> bytes, no two of
  them overlap, and no block that was live before is among them.
\<close>

theorem zone_allocations_disjoint:
  assumes "memory_ok m" and "\<forall>n \<in> set ns. n \<le> MAX_ZONE_ALLOCATION"
  shows "case zone_init m of (m0, alloc) \<Rightarrow> \<exists>m' alloc' ps. zone_allocs m0 alloc ns = Inr (m', alloc', ps) \<and>
    length ps = length ns \<and>
    (\<forall>i < length ns. region (ps ! i) (ns ! i) \<subseteq>
       (dom (zone_headers m') - dom (zone_headers m)) \<times> {zone_header_size ..< ZONE_SIZE}) \<and>
    (\<forall>i j. i < j \<longrightarrow> j < length ns \<longrightarrow> region (ps ! i) (ns ! i) \<inter> region (ps ! j) (ns ! j) = {})"
proof -
  obtain m0 alloc where 0: "zone_init m = (m0, alloc)" by (cases "zone_init m")
  from zone_allocs_regions [OF zone_init_inv [OF assms(1) 0] assms(2)] obtain m' alloc' ps bs' where
    1: "zone_allocs m0 alloc ns = Inr (m', alloc', ps)" "zone_inv (zone_headers m) m' alloc' bs'"
      "length ps = length ns"
    and inside: "\<forall>i < length ns. region (ps ! i) (ns ! i) \<subseteq>
      set bs' \<times> {zone_header_size ..< ZONE_SIZE} \<inter> unused alloc [fresh_block m]"
    and apart: "\<forall>i j. i < j \<longrightarrow> j < length ns \<longrightarrow> region (ps ! i) (ns ! i) \<inter> region (ps ! j) (ns ! j) = {}"
    by (elim exE conjE) (rule that; assumption)
  have "set bs' \<subseteq> dom (zone_headers m')" "dom (zone_headers m) \<inter> set bs' = {}"
    using 1(2) zone_chain_dom unfolding zone_inv_def by blast+
  then have "set bs' \<times> {zone_header_size ..< ZONE_SIZE} \<subseteq>
      (dom (zone_headers m') - dom (zone_headers m)) \<times> {zone_header_size ..< ZONE_SIZE}" by blast
  with inside have "\<forall>i < length ns. region (ps ! i) (ns ! i) \<subseteq>
      (dom (zone_headers m') - dom (zone_headers m)) \<times> {zone_header_size ..< ZONE_SIZE}" by fast
  with 1(1,3) apart show ?thesis unfolding 0 prod.case by blast
qed

theorem zone_allocations_disjoint_witness:
  "\<exists>m' alloc' ps. zone_allocs (fst (zone_init \<lparr>zone_headers = Map.empty, fresh_block = 1\<rparr>))
      (snd (zone_init \<lparr>zone_headers = Map.empty, fresh_block = 1\<rparr>)) [4000, 88, 1] = Inr (m', alloc', ps) \<and>
    region (ps ! 0) 4000 \<inter> region (ps ! 1) 88 = {}"
proof -
  have "memory_ok \<lparr>zone_headers = Map.empty, fresh_block = 1\<rparr>" "\<forall>n \<in> set [4000, 88, 1]. n \<le> MAX_ZONE_ALLOCATION"
    by (auto simp: memory_ok_def zone_sizes)
  from zone_allocations_disjoint [OF this] obtain m' alloc' ps where
    "zone_allocs (fst (zone_init \<lparr>zone_headers = Map.empty, fresh_block = 1\<rparr>))
      (snd (zone_init \<lparr>zone_headers = Map.empty, fresh_block = 1\<rparr>)) [4000, 88, 1] = Inr (m', alloc', ps)"
    "\<forall>i j. i < j \<longrightarrow> j < length [4000, 88, 1] \<longrightarrow>
       region (ps ! i) ([4000, 88, 1] ! i) \<inter> region (ps ! j) ([4000, 88, 1] ! j) = {}"
    by (auto split: prod.splits)
  from this(1) this(2) [rule_format, of 0 1] show ?thesis
    by (intro exI [of _ m'] exI [of _ alloc'] exI [of _ ps] conjI) simp_all
qed

text \<open>
  C29: \<open>zone_free\<close> after any requests ends, with one round more than there are blocks, and gives the
  memory back as it was before \<open>zone_init\<close>: every block of the zone is freed once, read before and not
  after it is freed, and no other block is touched.
\<close>

theorem zone_free_releases_all:
  assumes "memory_ok m" and "zone_init m = (m0, alloc)" and "zone_allocs m0 alloc ns = Inr (m', alloc', ps)"
    and "\<forall>n \<in> set ns. n \<le> MAX_ZONE_ALLOCATION" and "length ns + 1 < fuel"
  shows "\<exists>m''. zone_free fuel m' alloc' = Inr m'' \<and> zone_headers m'' = zone_headers m"
proof -
  from zone_allocs_regions [OF zone_init_inv [OF assms(1,2)] assms(4)] assms(3) obtain bs' where
    inv: "zone_inv (zone_headers m) m' alloc' bs'" and len: "length bs' \<le> 1 + length ns" by auto
  then have "zone_chain (zone_headers m') (topZone alloc') bs'" "distinct bs'" "length bs' < fuel"
    using assms(5) by (auto simp: zone_inv_def)
  from zone_free_chain [OF this] obtain m'' where 1: "zone_free fuel m' alloc' = Inr m''"
    "zone_headers m'' = (\<lambda>b. if b \<in> set bs' then None else zone_headers m' b)"
    by (auto simp: zone_free_def)
  have "zone_headers m'' b = zone_headers m b" for b
  proof (cases "b \<in> set bs'")
    case True
    then have "zone_headers m b = None" using inv by (auto simp: zone_inv_def disjoint_iff dom_def)
    with True 1(2) show ?thesis by simp
  qed (use inv 1(2) in \<open>simp add: zone_inv_def\<close>)
  with 1(1) show ?thesis by blast
qed

theorem zone_free_releases_all_witness:
  "\<exists>m' alloc' ps m''. zone_allocs (fst (zone_init \<lparr>zone_headers = [5 \<mapsto> 7], fresh_block = 8\<rparr>))
      (snd (zone_init \<lparr>zone_headers = [5 \<mapsto> 7], fresh_block = 8\<rparr>)) [4000, 89] = Inr (m', alloc', ps) \<and>
    zone_free 4 m' alloc' = Inr m'' \<and> zone_headers m'' = [5 \<mapsto> 7]"
proof -
  let ?m = "\<lparr>zone_headers = [5 \<mapsto> 7], fresh_block = 8\<rparr> :: zone_memory"
  have ok: "memory_ok ?m" "\<forall>n \<in> set [4000, 89]. n \<le> MAX_ZONE_ALLOCATION"
    by (auto simp: memory_ok_def zone_sizes)
  obtain m0 alloc where 0: "zone_init ?m = (m0, alloc)" by (cases "zone_init ?m")
  then obtain m' alloc' ps where 1: "zone_allocs m0 alloc [4000, 89] = Inr (m', alloc', ps)"
    by (auto simp: zone_init_def new_zone_def zone_alloc_def Let_def zone_sizes)
  from zone_free_releases_all [OF ok(1) 0 1 ok(2), of 4] 0 1 show ?thesis by auto
qed

end
