(* ===== verification/Format.thy ===== *)
theory Format
  imports Buffer
begin

text \<open>
  \<open>format.c\<close>: the template language of the messages. A template is text with directives \<open>{name}\<close>;
  the tokenizer cuts it into pieces and each piece is pushed to a \<open>dbuffer_t\<close>. The lemmas show what a
  template renders to, through the contract \<open>sink.emits\<close> of the buffer, and what happens to templates
  that are not well formed.
\<close>

section \<open>Tokens\<close>

datatype format_token_type =
    EEOF | ERROR | STRING
  | HEX_INT | HEX_UINT | INT_DIR | UINT | DBUFFER | RANGE | PRINTER | LIST_DIR | NULL_STR | CURLY_OPEN | CURLY_CLOSE

record format_token =
  ftype :: format_token_type
  fcontents :: range_t

text \<open>\<open>NAME_TOKENS\<close>: the names are compared in this order.\<close>

definition NAME_TOKENS :: "(format_token_type \<times> string) list" where
  "NAME_TOKENS =
     [(HEX_INT, ''hex_int''), (HEX_UINT, ''hex_uint''), (INT_DIR, ''int''), (UINT, ''uint''),
      (DBUFFER, ''dbuffer''), (RANGE, ''range''), (PRINTER, ''printer''), (LIST_DIR, ''list''),
      (NULL_STR, ''str''), (CURLY_OPEN, ''co''), (CURLY_CLOSE, ''cc'')]"

fun first_name :: "(format_token_type \<times> string) list \<Rightarrow> range_t \<Rightarrow> format_token_type" where
  "first_name [] rng = ERROR"
| "first_name ((t, s) # ts) rng = (if range_cmp rng (RANGE_STRING s) then t else first_name ts rng)"

definition format_getTokenType :: "range_t \<Rightarrow> format_token_type" where
  "format_getTokenType rng = first_name NAME_TOKENS rng"

text \<open>
  The loops of \<open>format_nextToken\<close>: they look at \<open>*ptr\<close> before they look at the size, so they read
  the character behind the range, too.
\<close>

function scan_until :: "char \<Rightarrow> range_t \<Rightarrow> size_t \<Rightarrow> (range_t \<times> size_t) res" where
  "scan_until stop rng n =
     bindE (range_deref rng) (\<lambda>c.
       if c \<noteq> stop \<and> rsize rng \<noteq> 0
       then bindE (range_skip rng 1) (\<lambda>rng'. scan_until stop rng' (n + 1))
       else Inr (rng, n))"
  by pat_completeness auto
termination
  by (relation "measure (\<lambda>(stop, rng, n). rsize rng)") (auto simp: range_skip_def assertE_def split: if_splits)

declare scan_until.simps [simp del]

definition format_nextToken :: "range_t \<Rightarrow> (range_t \<times> format_token) res" where
  "format_nextToken rng =
     (if rsize rng = 0 then Inr (rng, \<lparr>ftype = EEOF, fcontents = rng\<lparr>rsize := 0\<rparr>\<rparr>)
      else bindE (scan_until CHR ''{'' rng 0) (\<lambda>(range1, n).
        if n \<noteq> 0 then Inr (range1, \<lparr>ftype = STRING, fcontents = rng\<lparr>rsize := n\<rparr>\<rparr>)
        else bindE (range_skip range1 1) (\<lambda>range2.
          let start = \<lparr>rmem = drop 1 (rmem rng), rsize = 0\<rparr> in
          bindE (scan_until CHR ''}'' range2 0) (\<lambda>(range3, m).
            let contents = start\<lparr>rsize := m\<rparr> in
            if m = 0 then Inr (range3, \<lparr>ftype = ERROR, fcontents = contents\<rparr>)
            else bindE (range_skip range3 1) (\<lambda>range4.
              Inr (range4, \<lparr>ftype = format_getTokenType contents, fcontents = contents\<rparr>))))))"

lemma scan_until_size: "scan_until stop rng n = Inr (rng', m) \<Longrightarrow> rsize rng' \<le> rsize rng \<and> rsize rng + n = rsize rng' + m"
proof (induction stop rng n rule: scan_until.induct)
  case (1 stop rng n)
  from "1.prems" obtain c where c: "range_deref rng = Inr c"
    and s: "(if c \<noteq> stop \<and> rsize rng \<noteq> 0
       then bindE (range_skip rng 1) (\<lambda>rng'. scan_until stop rng' (n + 1)) else Inr (rng, n)) = Inr (rng', m)"
    by (subst (asm) scan_until.simps) blast
  show ?case
  proof (cases "c \<noteq> stop \<and> rsize rng \<noteq> 0")
    case True
    with s obtain r where r: "range_skip rng 1 = Inr r" "scan_until stop r (n + 1) = Inr (rng', m)" by auto
    from "1.IH" [OF c True r] r(1) show ?thesis by (auto simp: range_skip_def assertE_def split: if_splits)
  qed (use s in auto)
qed

lemma format_nextToken_consumes:
  assumes "format_nextToken rng = Inr (rng', token)" and "ftype token \<notin> {ERROR, EEOF}"
  shows "rsize rng' < rsize rng"
  using assms
  by (auto simp: format_nextToken_def range_skip_def assertE_def Let_def split: if_splits prod.splits
      dest!: scan_until_size) linarith

text \<open>The tokens of a template, as \<open>format_dumpTokens\<close> lists them.\<close>

function format_tokens :: "range_t \<Rightarrow> format_token list res" where
  "format_tokens rng =
     bindE (format_nextToken rng) (\<lambda>(rng', token).
       if ftype token \<in> {ERROR, EEOF} then Inr [token]
       else bindE (format_tokens rng') (\<lambda>tokens. Inr (token # tokens)))"
  by pat_completeness auto
termination
  by (relation "measure rsize") (auto dest: format_nextToken_consumes)

declare format_tokens.simps [simp del]

definition format_dumpTokens :: "string \<Rightarrow> format_token list res" where
  "format_dumpTokens format = bindE (range_fromString format) format_tokens"

section \<open>Rendering\<close>

text \<open>
  The variable arguments: \<open>va_arg\<close> with a type the next argument does not have, or without a next
  argument, is undefined. \<open>int\<close> and \<open>unsigned int\<close> are the same 32 bits.
\<close>

datatype format_arg = ArgInt "32 word" | ArgStr string | ArgRange range_t

definition va_int :: "format_arg list \<Rightarrow> ((32 word) \<times> format_arg list) res" where
  "va_int args = (case args of ArgInt w # rest \<Rightarrow> Inr (w, rest) | _ \<Rightarrow> Inl TypeConfusion)"

definition va_str :: "format_arg list \<Rightarrow> (string \<times> format_arg list) res" where
  "va_str args = (case args of ArgStr s # rest \<Rightarrow> Inr (s, rest) | _ \<Rightarrow> Inl TypeConfusion)"

definition va_range :: "format_arg list \<Rightarrow> (range_t \<times> format_arg list) res" where
  "va_range args = (case args of ArgRange r # rest \<Rightarrow> Inr (r, rest) | _ \<Rightarrow> Inl TypeConfusion)"

definition format_token_emit :: "format_token \<Rightarrow> format_arg list \<Rightarrow> dbuffer \<Rightarrow> (dbuffer \<times> format_arg list) res" where
  "format_token_emit token args db =
     (let keep = (\<lambda>push. bindE push (\<lambda>db. Inr (db, args))) in
      case ftype token of
        HEX_UINT \<Rightarrow> bindE (va_int args) (\<lambda>(num, args). bindE (dbuffer_pushUIntStr db num) (\<lambda>db. Inr (db, args)))
      | UINT \<Rightarrow> bindE (va_int args) (\<lambda>(num, args). bindE (dbuffer_pushUIntStr db num) (\<lambda>db. Inr (db, args)))
      | INT_DIR \<Rightarrow> bindE (va_int args) (\<lambda>(num, args). bindE (dbuffer_pushIntStr db num) (\<lambda>db. Inr (db, args)))
      | NULL_STR \<Rightarrow> bindE (va_str args) (\<lambda>(ptr, args).
          bindE (range_fromString ptr) (\<lambda>rng. bindE (dbuffer_pushRange db rng) (\<lambda>db. Inr (db, args))))
      | RANGE \<Rightarrow> bindE (va_range args) (\<lambda>(rng, args). bindE (dbuffer_pushRange db rng) (\<lambda>db. Inr (db, args)))
      | STRING \<Rightarrow> keep (dbuffer_pushRange db (fcontents token))
      | CURLY_OPEN \<Rightarrow> keep (dbuffer_pushChar db (of_char CHR ''{''))
      | CURLY_CLOSE \<Rightarrow> keep (dbuffer_pushChar db (of_char CHR ''}''))
      | _ \<Rightarrow> Inr (db, args))"

function format_loop :: "range_t \<Rightarrow> format_arg list \<Rightarrow> dbuffer \<Rightarrow> dbuffer res" where
  "format_loop rng args result =
     bindE (format_nextToken rng) (\<lambda>(rng', token).
     bindE (format_token_emit token args result) (\<lambda>(result', args').
       if ftype token \<noteq> ERROR \<and> ftype token \<noteq> EEOF then format_loop rng' args' result' else Inr result'))"
  by pat_completeness auto
termination
  by (relation "measure (\<lambda>(rng, _). rsize rng)") (auto dest: format_nextToken_consumes)

declare format_loop.simps [simp del]

definition format_listDbuffer :: "string \<Rightarrow> format_arg list \<Rightarrow> dbuffer \<Rightarrow> dbuffer res" where
  "format_listDbuffer fmt args result =
     bindE (range_fromString fmt) (\<lambda>rng. format_loop rng args result)"

definition format_list :: "string \<Rightarrow> bool \<Rightarrow> format_arg list \<Rightarrow> range_t res" where
  "format_list fmt emitZero args =
     bindE (format_listDbuffer fmt args dbuffer_init) (\<lambda>result.
     bindE (if emitZero then dbuffer_pushChar result 0 else Inr result) (\<lambda>result.
       Inr (dbuffer_asRange result)))"

definition format :: "string \<Rightarrow> format_arg list \<Rightarrow> string res" where
  "format fmt args = bindE (format_list fmt True args) (\<lambda>result. Inr (rmem result))"

definition format_range :: "string \<Rightarrow> format_arg list \<Rightarrow> range_t res" where
  "format_range fmt args = format_list fmt False args"

definition format_dbuffer :: "string \<Rightarrow> dbuffer \<Rightarrow> format_arg list \<Rightarrow> dbuffer res" where
  "format_dbuffer fmt db args = format_listDbuffer fmt args db"

text \<open>What \<open>format_print\<close> writes: \<open>%.*s\<close> stops at a zero byte.\<close>

definition format_print :: "string \<Rightarrow> format_arg list \<Rightarrow> string res" where
  "format_print fmt args =
     bindE (format_list fmt False args) (\<lambda>rng. Inr (takeWhile (\<lambda>c. c \<noteq> NUL) (range_view rng)))"

section \<open>Reading a template\<close>

text \<open>A range that ends before the end of its object, as every template does at its zero byte.\<close>

definition text_range :: "string \<Rightarrow> string \<Rightarrow> range_t" where
  "text_range s zs = \<lparr>rmem = s @ zs, rsize = length s\<rparr>"

lemma text_range_sel [simp]: "rmem (text_range s zs) = s @ zs" "rsize (text_range s zs) = length s"
  by (simp_all add: text_range_def)

lemma text_range_view [simp]: "range_view (text_range s zs) = s" "range_wf (text_range s zs)"
  by (simp_all add: range_view_def range_wf_def)

lemma range_skip_text_range [simp]: "range_skip (text_range (c # s) zs) (Suc 0) = Inr (text_range s zs)"
  by (simp add: range_skip_def text_range_def)

lemma text_range_of: "\<lparr>rmem = s @ zs, rsize = length s\<rparr> = text_range s zs"
  by (simp add: text_range_def)

lemma range_fromString_text:
  "NUL \<notin> set s \<Longrightarrow> range_fromString (s @ NUL # zs) = Inr (text_range s (NUL # zs))"
  by (simp add: range_fromString_def text_range_def takeWhile_append)

lemma scan_until_text:
  assumes "stop \<notin> set p" and "q = [] \<or> hd q = stop" and "zs \<noteq> []"
  shows "scan_until stop (text_range (p @ q) zs) n = Inr (text_range q zs, n + length p)"
  using assms(1)
proof (induction p arbitrary: n)
  case Nil
  then show ?case using assms(2,3)
    by (cases q; cases zs) (simp_all add: scan_until.simps range_deref_def)
next
  case (Cons c p)
  then show ?case by (auto simp: scan_until.simps [of _ "text_range (c # _) _"] range_deref_def)
qed

lemma getTokenType_text:
  "format_getTokenType (text_range s zs) =
     (case find (\<lambda>(t, n). n = s) NAME_TOKENS of None \<Rightarrow> ERROR | Some (t, n) \<Rightarrow> t)"
proof -
  have "first_name ts (text_range s zs) =
      (case find (\<lambda>(t, n). n = s) ts of None \<Rightarrow> ERROR | Some (t, n) \<Rightarrow> t)" for ts
    by (induction ts) (auto simp: range_cmp_view)
  then show ?thesis by (simp add: format_getTokenType_def)
qed

lemma nextToken_end: "format_nextToken (text_range [] zs) = Inr (text_range [] zs, \<lparr>ftype = EEOF, fcontents = text_range [] zs\<rparr>)"
  by (simp add: format_nextToken_def text_range_def)

lemma nextToken_literal:
  assumes "s \<noteq> []" and "CHR ''{'' \<notin> set s" and "q = [] \<or> hd q = CHR ''{''" and "zs \<noteq> []"
  shows "format_nextToken (text_range (s @ q) zs) =
    Inr (text_range q zs, \<lparr>ftype = STRING, fcontents = text_range s (q @ zs)\<rparr>)"
  using assms scan_until_text [OF assms(2-4), of 0]
  by (simp add: format_nextToken_def text_range_def)

lemma nextToken_directive:
  assumes "name \<noteq> []" and "CHR ''}'' \<notin> set name" and "zs \<noteq> []"
  shows "format_nextToken (text_range (CHR ''{'' # name @ CHR ''}'' # q) zs) =
    Inr (text_range q zs, \<lparr>ftype = format_getTokenType (text_range name (CHR ''}'' # q @ zs)),
                           fcontents = text_range name (CHR ''}'' # q @ zs)\<rparr>)"
proof -
  have 1: "scan_until CHR ''{'' (text_range (CHR ''{'' # name @ CHR ''}'' # q) zs) 0 =
      Inr (text_range (CHR ''{'' # name @ CHR ''}'' # q) zs, 0)"
    using scan_until_text [of "CHR ''{''" "[]" "CHR ''{'' # name @ CHR ''}'' # q" zs 0] assms(3) by simp
  have 2: "scan_until CHR ''}'' (text_range (name @ CHR ''}'' # q) zs) 0 =
      Inr (text_range (CHR ''}'' # q) zs, length name)"
    using scan_until_text [of "CHR ''}''" name "CHR ''}'' # q" zs 0] assms(2,3) by simp
  show ?thesis using assms(1) by (simp add: format_nextToken_def 1 2 Let_def) (simp add: text_range_def)
qed

lemma nextToken_unclosed:
  assumes "name \<noteq> []" and "CHR ''}'' \<notin> set name" and "zs \<noteq> []"
  shows "format_nextToken (text_range (CHR ''{'' # name) zs) = Inl AssertFail"
proof -
  have 1: "scan_until CHR ''{'' (text_range (CHR ''{'' # name) zs) 0 = Inr (text_range (CHR ''{'' # name) zs, 0)"
    using scan_until_text [of "CHR ''{''" "[]" "CHR ''{'' # name" zs 0] assms(3) by simp
  have 2: "scan_until CHR ''}'' (text_range name zs) 0 = Inr (text_range [] zs, length name)"
    using scan_until_text [of "CHR ''}''" name "[]" zs 0] assms(2,3) by simp
  show ?thesis using assms(1) by (simp add: format_nextToken_def 1 2) (simp add: range_skip_def)
qed

lemma nextToken_empty:
  assumes "zs \<noteq> []"
  shows "\<exists>r token. format_nextToken (text_range (CHR ''{'' # CHR ''}'' # q) zs) = Inr (r, token) \<and> ftype token = ERROR"
proof -
  have 1: "scan_until CHR ''{'' (text_range (CHR ''{'' # CHR ''}'' # q) zs) 0 =
      Inr (text_range (CHR ''{'' # CHR ''}'' # q) zs, 0)"
    using scan_until_text [of "CHR ''{''" "[]" "CHR ''{'' # CHR ''}'' # q" zs 0] assms by simp
  have 2: "scan_until CHR ''}'' (text_range (CHR ''}'' # q) zs) 0 = Inr (text_range (CHR ''}'' # q) zs, 0)"
    using scan_until_text [of "CHR ''}''" "[]" "CHR ''}'' # q" zs 0] assms by simp
  show ?thesis by (simp add: format_nextToken_def 1 2)
qed

section \<open>What a template renders to\<close>

text \<open>The directives with the argument each takes and the bytes it stands for.\<close>

datatype field = FInt "32 word" | FUInt "32 word" | FHexUInt "32 word" | FStr string | FRange range_t | FOpen | FClose

fun field_name :: "field \<Rightarrow> string" where
  "field_name (FInt w) = ''int''"
| "field_name (FUInt w) = ''uint''"
| "field_name (FHexUInt w) = ''hex_uint''"
| "field_name (FStr s) = ''str''"
| "field_name (FRange r) = ''range''"
| "field_name FOpen = ''co''"
| "field_name FClose = ''cc''"

fun field_args :: "field \<Rightarrow> format_arg list" where
  "field_args (FInt w) = [ArgInt w]"
| "field_args (FUInt w) = [ArgInt w]"
| "field_args (FHexUInt w) = [ArgInt w]"
| "field_args (FStr s) = [ArgStr (s @ [NUL])]"
| "field_args (FRange r) = [ArgRange r]"
| "field_args FOpen = []"
| "field_args FClose = []"

fun field_bytes :: "field \<Rightarrow> byte list" where
  "field_bytes (FInt w) = int_text (sint w)"
| "field_bytes (FUInt w) = decimal_bytes (unat w)"
| "field_bytes (FHexUInt w) = decimal_bytes (unat w)"
| "field_bytes (FStr s) = map of_char s"
| "field_bytes (FRange r) = map of_char (range_view r)"
| "field_bytes FOpen = [of_char CHR ''{'']"
| "field_bytes FClose = [of_char CHR ''}'']"

fun field_ok :: "field \<Rightarrow> bool" where
  "field_ok (FInt w) = (sint w \<noteq> - (2 ^ 31))"
| "field_ok (FStr s) = (NUL \<notin> set s \<and> length s < 2 ^ 60)"
| "field_ok (FRange r) = (range_wf r \<and> rsize r < 2 ^ 60)"
| "field_ok _ = True"

fun field_push :: "field \<Rightarrow> dbuffer \<Rightarrow> dbuffer res" where
  "field_push (FInt w) = (\<lambda>db. dbuffer_pushIntStr db w)"
| "field_push (FUInt w) = (\<lambda>db. dbuffer_pushUIntStr db w)"
| "field_push (FHexUInt w) = (\<lambda>db. dbuffer_pushUIntStr db w)"
| "field_push (FStr s) = (\<lambda>db. dbuffer_pushRange db (text_range s [NUL]))"
| "field_push (FRange r) = (\<lambda>db. dbuffer_pushRange db r)"
| "field_push FOpen = (\<lambda>db. dbuffer_pushChar db (of_char CHR ''{''))"
| "field_push FClose = (\<lambda>db. dbuffer_pushChar db (of_char CHR ''}''))"

lemma emits_field_push: "field_ok f \<Longrightarrow> sink.emits (field_push f) (field_bytes f)"
  using emits_pushRange [of "text_range _ [NUL]"]
  by (cases f) (simp_all add: emits_pushIntStr emits_pushUIntStr emits_pushChar emits_pushRange)

lemma field_name_ok: "field_name f \<noteq> []" "CHR ''}'' \<notin> set (field_name f)"
  by (cases f; simp)+

lemma field_type: "format_getTokenType (text_range (field_name f) zs) \<notin> {ERROR, EEOF}"
  by (cases f; simp add: getTokenType_text NAME_TOKENS_def)

lemma field_emit:
  assumes "field_ok f"
  shows "format_token_emit \<lparr>ftype = format_getTokenType (text_range (field_name f) zs), fcontents = c\<rparr>
      (field_args f @ rest) db = bindE (field_push f db) (\<lambda>db. Inr (db, rest))"
  using assms
  by (cases f; simp add: getTokenType_text NAME_TOKENS_def format_token_emit_def va_int_def va_str_def
      va_range_def range_fromString_text)

text \<open>A template is literal text and directives in turn; \<open>push_fields\<close> is what the code does for it.\<close>

fun template :: "(string \<times> field) list \<Rightarrow> string" where
  "template [] = []"
| "template ((s, f) # fs) = s @ CHR ''{'' # field_name f @ CHR ''}'' # template fs"

fun template_args :: "(string \<times> field) list \<Rightarrow> format_arg list" where
  "template_args [] = []"
| "template_args ((s, f) # fs) = field_args f @ template_args fs"

fun template_bytes :: "(string \<times> field) list \<Rightarrow> byte list" where
  "template_bytes [] = []"
| "template_bytes ((s, f) # fs) = map of_char s @ field_bytes f @ template_bytes fs"

definition literal_ok :: "string \<Rightarrow> bool" where
  "literal_ok s \<longleftrightarrow> CHR ''{'' \<notin> set s \<and> NUL \<notin> set s \<and> length s < 2 ^ 60"

definition template_ok :: "(string \<times> field) list \<Rightarrow> bool" where
  "template_ok fs \<longleftrightarrow> (\<forall>(s, f) \<in> set fs. literal_ok s \<and> field_ok f)"

definition push_literal :: "string \<Rightarrow> dbuffer \<Rightarrow> dbuffer res" where
  "push_literal s db = (if s = [] then Inr db else dbuffer_pushData db (map of_char s))"

fun push_fields :: "(string \<times> field) list \<Rightarrow> dbuffer \<Rightarrow> dbuffer res" where
  "push_fields [] db = Inr db"
| "push_fields ((s, f) # fs) db =
     bindE (push_literal s db) (\<lambda>db. bindE (field_push f db) (\<lambda>db. push_fields fs db))"

lemma emits_push_literal: "literal_ok s \<Longrightarrow> sink.emits (push_literal s) (map of_char s)"
proof (cases "s = []")
  case True
  then have "push_literal s = Inr" by (auto simp: push_literal_def)
  with True show ?thesis by (simp add: sink.emits_skip)
next
  case False
  assume "literal_ok s"
  then have "sink.emits (\<lambda>db. dbuffer_pushData db (map of_char s)) (map of_char s)"
    by (intro sink.emits_push) (simp add: literal_ok_def)
  moreover have "push_literal s = (\<lambda>db. dbuffer_pushData db (map of_char s))"
    using False by (auto simp: push_literal_def)
  ultimately show ?thesis by simp
qed

lemma emits_push_fields: "template_ok fs \<Longrightarrow> sink.emits (push_fields fs) (template_bytes fs)"
proof (induction fs)
  case Nil
  have "push_fields [] = Inr" by auto
  then show ?case by (simp add: sink.emits_skip)
next
  case (Cons sf fs)
  obtain s f where sf: "sf = (s, f)" by (cases sf)
  from Cons.prems have ok: "literal_ok s" "field_ok f" "template_ok fs" by (auto simp: template_ok_def sf)
  have "sink.emits (\<lambda>db. bindE (field_push f db) (\<lambda>db. push_fields fs db)) (field_bytes f @ template_bytes fs)"
    by (rule sink.emits_bind [OF emits_field_push [OF ok(2)] Cons.IH [OF ok(3)]])
  from sink.emits_bind [OF emits_push_literal [OF ok(1)] this]
  have "sink.emits (\<lambda>db. push_fields (sf # fs) db) (template_bytes (sf # fs))" by (simp add: sf)
  then show ?case .
qed

lemma loop_literal:
  assumes "literal_ok s" and "q = [] \<or> hd q = CHR ''{''" and "zs \<noteq> []"
  shows "format_loop (text_range (s @ q) zs) args db =
    bindE (push_literal s db) (\<lambda>db. format_loop (text_range q zs) args db)"
proof (cases "s = []")
  case False
  show ?thesis
    using nextToken_literal [OF False _ assms(2,3)] assms(1) False
    by (subst format_loop.simps)
      (simp add: literal_ok_def format_token_emit_def push_literal_def dbuffer_pushRange_def bindE_assoc)
qed (simp add: push_literal_def)

lemma loop_field:
  assumes "field_ok f" and "zs \<noteq> []"
  shows "format_loop (text_range (CHR ''{'' # field_name f @ CHR ''}'' # q) zs) (field_args f @ rest) db =
    bindE (field_push f db) (\<lambda>db. format_loop (text_range q zs) rest db)"
  using nextToken_directive [OF field_name_ok assms(2), of f q] field_type [of f] assms(1)
  by (subst format_loop.simps) (simp add: field_emit bindE_assoc)

lemma loop_template:
  assumes "template_ok fs" and "zs \<noteq> []"
  shows "format_loop (text_range (template fs @ q) zs) (template_args fs @ rest) db =
    bindE (push_fields fs db) (\<lambda>db. format_loop (text_range q zs) rest db)"
  using assms(1)
proof (induction fs arbitrary: db)
  case (Cons sf fs)
  obtain s f where sf: "sf = (s, f)" by (cases sf)
  from Cons.prems have ok: "literal_ok s" "field_ok f" "template_ok fs" by (auto simp: template_ok_def sf)
  have "format_loop (text_range (CHR ''{'' # field_name f @ CHR ''}'' # template fs @ q) zs)
      (field_args f @ template_args fs @ rest) =
    (\<lambda>db. bindE (field_push f db) (\<lambda>db. bindE (push_fields fs db) (\<lambda>db. format_loop (text_range q zs) rest db)))"
    using loop_field [OF ok(2) assms(2), of "template fs @ q"] Cons.IH [OF ok(3)] by (simp add: fun_eq_iff)
  then show ?case
    using loop_literal [OF ok(1) _ assms(2), of "CHR ''{'' # field_name f @ CHR ''}'' # template fs @ q"]
    by (simp add: sf bindE_assoc)
qed simp

lemma loop_end: "format_loop (text_range [] zs) args db = Inr db"
  by (subst format_loop.simps) (simp add: nextToken_end format_token_emit_def)

lemma loop_stop:
  assumes "format_nextToken r = Inr (r', token)" and "ftype token = ERROR"
  shows "format_loop r args db = Inr db"
  by (subst format_loop.simps) (simp add: assms format_token_emit_def)

section \<open>Properties of the formatter\<close>

lemma byte_char_0: "byte_char 0 = NUL"
  using byte_char_of_char [of NUL] by (simp add: NUL_def)

text \<open>A buffer as \<open>format_list\<close> starts with takes twice \<open>DBUFFER_INIT\<close> bytes before a push leaves its block.\<close>

lemma format_list_push:
  assumes "sink.emits (\<lambda>db. format_listDbuffer fmt args db) bs" and "length bs < 2 * DBUFFER_INIT"
  shows "\<exists>r. format_list fmt emitZero args = Inr r \<and>
    range_view r = map byte_char bs @ (if emitZero then [NUL] else [])"
proof -
  let ?k = "\<lambda>db. if emitZero then dbuffer_pushChar db 0 else Inr db"
  have "sink.emits ?k (if emitZero then [0] else [])"
    by (cases emitZero) (simp_all add: emits_pushChar sink.emits_skip)
  note emits = sink.emits_bind [OF assms(1) this]
  have room: "dbuffer_room dbuffer_init (2 * DBUFFER_INIT)"
    by (simp add: dbuffer_room_def dbuffer_init_def dbuffer_initSize_def)
  have "length (bs @ (if emitZero then [0] else [])) \<le> 2 * DBUFFER_INIT" using assms(2) by simp
  from sink.emits_total [OF emits dbuffer_init_wf room this] obtain db where
    db: "bindE (format_listDbuffer fmt args dbuffer_init) ?k = Inr db" "dbuffer_wf db"
    "dbuffer_contents db = dbuffer_contents dbuffer_init @ bs @ (if emitZero then [0] else [])" .
  from db(1) have "format_list fmt emitZero args = Inr (dbuffer_asRange db)"
    by (auto simp: format_list_def)
  moreover have "range_view (dbuffer_asRange db) = map byte_char bs @ (if emitZero then [NUL] else [])"
    using dbuffer_asRange_view [OF db(2)] db(3) by (simp add: dbuffer_init_def byte_char_0)
  ultimately show ?thesis by blast
qed

lemma format_listDbuffer_text:
  "NUL \<notin> set s \<Longrightarrow> format_listDbuffer (s @ [NUL]) args db = format_loop (text_range s [NUL]) args db"
  by (simp add: format_listDbuffer_def range_fromString_text)

lemma template_no_NUL: "template_ok fs \<Longrightarrow> NUL \<notin> set (template fs)"
proof (induction fs)
  case (Cons sf fs)
  obtain s f where sf: "sf = (s, f)" by (cases sf)
  have "NUL \<notin> set (field_name f)" by (cases f) (simp_all add: NUL_def)
  with Cons show ?case by (auto simp: sf template_ok_def literal_ok_def NUL_def)
qed simp

text \<open>
  C30: a template of literal text and well-formed directives renders to the literals with every
  argument printed in its place, in order, ended by a zero byte when asked for; arguments that no
  directive names are ignored, and nothing faults while the text is shorter than twice the initial
  capacity of the buffer.
\<close>

theorem format_list_renders:
  assumes "template_ok fs" and "literal_ok lit"
    and "length (template_bytes fs) + length lit < 2 * DBUFFER_INIT"
  shows "\<exists>r. format_list (template fs @ lit @ [NUL]) emitZero (template_args fs @ rest) = Inr r \<and>
    range_view r = map byte_char (template_bytes fs) @ lit @ (if emitZero then [NUL] else [])"
proof -
  have eq: "format_listDbuffer (template fs @ lit @ [NUL]) (template_args fs @ rest) db =
      bindE (push_fields fs db) (push_literal lit)" for db
  proof -
    have "NUL \<notin> set (template fs @ lit)"
      using template_no_NUL [OF assms(1)] assms(2) by (simp add: literal_ok_def)
    then show ?thesis
      using format_listDbuffer_text [of "template fs @ lit"] loop_template [OF assms(1), of "[NUL]" lit rest]
        loop_literal [OF assms(2), of "[]" "[NUL]" rest] by (simp add: loop_end bindE_def split: sum.splits)
  qed
  have "sink.emits (\<lambda>db. format_listDbuffer (template fs @ lit @ [NUL]) (template_args fs @ rest) db)
      (template_bytes fs @ map of_char lit)"
    unfolding eq by (rule sink.emits_bind [OF emits_push_fields [OF assms(1)] emits_push_literal [OF assms(2)]])
  from format_list_push [OF this] assms(3) show ?thesis by (simp add: comp_def)
qed

theorem format_list_renders_witness:
  "\<exists>r. format_list (''Kuter {int},{str}!'' @ [NUL]) True [ArgInt 10, ArgStr (''test'' @ [NUL])] = Inr r \<and>
    range_view r = ''Kuter 10,test!'' @ [NUL]"
proof -
  have "template_ok [(''Kuter '', FInt 10), ('','', FStr ''test'')]" "literal_ok ''!''"
    by (simp_all add: template_ok_def literal_ok_def NUL_def)
  moreover have bytes: "template_bytes [(''Kuter '', FInt 10), ('','', FStr ''test'')] = map of_char ''Kuter 10,test''"
    by (simp add: int_text_def decimal_bytes_def decimal.simps digit_byte_def)
  moreover have "map byte_char (map of_char ''Kuter 10,test'') = ''Kuter 10,test''"
    by (simp only: list.map byte_char_of_char)
  ultimately show ?thesis
    using format_list_renders [of "[(''Kuter '', FInt 10), ('','', FStr ''test'')]" "''!''" True "[]"]
    by (simp only: bytes) (simp add: DBUFFER_INIT_def)
qed

text \<open>
  a directive with an unknown or empty name silently ends the message: everything behind it is
  dropped and the text rendered so far is the result. A directive without its closing brace stops the
  program at an assertion.
\<close>

theorem format_malformed:
  assumes "template_ok fs" and "literal_ok lit"
    and "length (template_bytes fs) + length lit < 2 * DBUFFER_INIT"
    and "CHR ''}'' \<notin> set name" and "NUL \<notin> set name" and "NUL \<notin> set tail"
  shows "(name \<notin> set (map snd NAME_TOKENS) \<longrightarrow>
      (\<exists>r. format_list (template fs @ lit @ CHR ''{'' # name @ CHR ''}'' # tail @ [NUL]) emitZero
          (template_args fs @ rest) = Inr r \<and>
        range_view r = map byte_char (template_bytes fs) @ lit @ (if emitZero then [NUL] else []))) \<and>
    (name \<noteq> [] \<longrightarrow>
      format_list (template fs @ lit @ CHR ''{'' # name @ [NUL]) emitZero (template_args fs @ rest) = Inl AssertFail)"
proof (intro conjI impI)
  let ?push = "\<lambda>db. bindE (push_fields fs db) (push_literal lit)"
  have emits: "sink.emits ?push (template_bytes fs @ map of_char lit)"
    by (rule sink.emits_bind [OF emits_push_fields [OF assms(1)] emits_push_literal [OF assms(2)]])
  have loop: "format_listDbuffer (template fs @ lit @ q @ [NUL]) (template_args fs @ rest) db =
      bindE (?push db) (\<lambda>db. format_loop (text_range q [NUL]) rest db)"
    if "hd q = CHR ''{''" "NUL \<notin> set q" for q db
  proof -
    have "NUL \<notin> set (template fs @ lit @ q)"
      using template_no_NUL [OF assms(1)] assms(2) that(2) by (simp add: literal_ok_def)
    then show ?thesis
      using format_listDbuffer_text [of "template fs @ lit @ q"] loop_template [OF assms(1), of "[NUL]" "lit @ q" rest]
        loop_literal [OF assms(2), of q "[NUL]" rest] that(1) by (simp add: bindE_assoc)
  qed
  {
    assume unknown: "name \<notin> set (map snd NAME_TOKENS)"
    let ?q = "CHR ''{'' # name @ CHR ''}'' # tail"
    have stop: "format_loop (text_range ?q [NUL]) args db = Inr db" for args db
    proof (cases "name = []")
      case True
      then show ?thesis using nextToken_empty [of "[NUL]" tail] loop_stop by fastforce
    next
      case False
      have "find (\<lambda>(t, n). n = name) NAME_TOKENS = None"
        using unknown by (force simp: find_None_iff)
      with nextToken_directive [OF False assms(4), of "[NUL]" tail] show ?thesis
        by (simp add: getTokenType_text loop_stop)
    qed
    have "NUL \<notin> set ?q" using assms(5,6) by (simp add: NUL_def)
    from loop [OF _ this] stop
    have "format_listDbuffer (template fs @ lit @ ?q @ [NUL]) (template_args fs @ rest) db = ?push db" for db
      by (simp add: bindE_def split: sum.splits)
    then have "sink.emits (\<lambda>db. format_listDbuffer (template fs @ lit @ ?q @ [NUL]) (template_args fs @ rest) db)
        (template_bytes fs @ map of_char lit)" using emits by simp
    from format_list_push [OF this] assms(3)
    show "\<exists>r. format_list (template fs @ lit @ CHR ''{'' # name @ CHR ''}'' # tail @ [NUL]) emitZero
          (template_args fs @ rest) = Inr r \<and>
        range_view r = map byte_char (template_bytes fs) @ lit @ (if emitZero then [NUL] else [])"
      by (simp add: comp_def)
  next
    assume name: "name \<noteq> []"
    let ?q = "CHR ''{'' # name"
    have room: "dbuffer_room dbuffer_init (2 * DBUFFER_INIT)"
      by (simp add: dbuffer_room_def dbuffer_init_def dbuffer_initSize_def)
    have "length (template_bytes fs @ map of_char lit) \<le> 2 * DBUFFER_INIT" using assms(3) by simp
    with sink.emits_total [OF emits dbuffer_init_wf room]
    obtain db where db: "?push dbuffer_init = Inr db" by metis
    have "format_loop (text_range ?q [NUL]) rest db = Inl AssertFail"
      using nextToken_unclosed [OF name assms(4), of "[NUL]"] by (subst format_loop.simps) simp
    moreover have "NUL \<notin> set ?q" using assms(5) by (simp add: NUL_def)
    ultimately have "format_listDbuffer (template fs @ lit @ ?q @ [NUL]) (template_args fs @ rest) dbuffer_init = Inl AssertFail"
      using loop [of ?q] db by simp
    then show "format_list (template fs @ lit @ CHR ''{'' # name @ [NUL]) emitZero (template_args fs @ rest) = Inl AssertFail"
      by (simp add: format_list_def)
  }
qed

theorem format_malformed_witness:
  "(\<exists>r. format_list (''a{nope}b'' @ [NUL]) False [] = Inr r \<and> range_view r = ''a'') \<and>
   format_list (''a{nope'' @ [NUL]) False [] = Inl AssertFail"
proof -
  have "template_ok []" "literal_ok ''a''" "length (template_bytes []) + length ''a'' < 2 * DBUFFER_INIT"
    "CHR ''}'' \<notin> set ''nope''" "NUL \<notin> set ''nope''" "NUL \<notin> set ''b''"
    by (simp_all add: template_ok_def literal_ok_def NUL_def DBUFFER_INIT_def)
  note both = format_malformed [OF this, of False "[]"]
  have "''nope'' \<notin> set (map snd NAME_TOKENS)" by (simp add: NAME_TOKENS_def)
  with both [THEN conjunct1] have "\<exists>r. format_list (''a{nope}b'' @ [NUL]) False [] = Inr r \<and> range_view r = ''a''"
    by simp
  moreover from both [THEN conjunct2] have "format_list (''a{nope'' @ [NUL]) False [] = Inl AssertFail" by simp
  ultimately show ?thesis by blast
qed

end
