(* ===== verification/Ir.thy ===== *)
theory Ir
  imports Linked_List Format Zone_Alloc
begin

text \<open>
  \<open>ir.c\<close>: the intermediate representation. Values, instructions, blocks, uses and functions are
  objects of the zone of a context; an object is named by its address, and the list heads inside it
  have addresses of their own, so that \<open>containerof\<close> is a subtraction as in the source. This
  theory holds the definitions; \<open>Ir_Graph\<close> has the lemmas on them.
\<close>

section \<open>Objects\<close>

datatype data_type = VOID | INT64 | PTR | DT_BLOCK

datatype value_type = INST | V_CONST | UNKNOWN_CONST | ARGUMENT | V_BLOCK

datatype instruction_type =
    INST_PHI | INST_LOAD_VAR | INST_ASSIGN_VAR | INST_BINARY | INST_JUMP | INST_JUMP_COND
  | INST_FUNCTION_CALL | INST_RETURN

datatype binary_ops =
    BO_ADD | BO_SUB | BO_MUL | BO_DIV | BO_EQUALS | BO_LESS | BO_GREATER | BO_LESS_EQ | BO_GREATER_EQ

text \<open>The name of a value is indeterminate until it is written: zone memory is not cleared.\<close>

record value_t =
  v_dataType :: data_type
  v_type :: value_type
  v_name :: "range_t option"

text \<open>
  \<open>i_uses\<close> is the array of uses inside an instruction, or the contents of \<open>useBuffer\<close> of a phi, made
  for \<open>i_useReserve\<close> pointers; \<open>i_usesSet\<close> tells whether the pointer \<open>uses\<close> points at it.
\<close>

record instruction_t =
  i_type :: instruction_type
  i_parent :: ptr
  i_num :: nat
  i_rId :: nat
  i_op :: binary_ops
  i_uses :: "ptr list"
  i_useCount :: nat
  i_usesSet :: bool
  i_useReserve :: nat

record use_t =
  u_inst :: ptr
  u_value :: ptr

record function_t =
  f_entry :: "ptr option"
  f_valueNameCounter :: nat

record ir_context =
  ir_cells :: list_heap
  ir_values :: "ptr \<Rightarrow> value_t option"
  ir_insts :: "ptr \<Rightarrow> instruction_t option"
  ir_blocks :: "ptr \<Rightarrow> ptr option"
  ir_uses :: "ptr \<Rightarrow> use_t option"
  ir_consts :: "ptr \<Rightarrow> 64 word option"
  ir_functions :: "ptr \<Rightarrow> function_t option"
  ir_top :: ptr

text \<open>
  Addresses inside an object at \<open>p\<close>: the list \<open>uses\<close> of a value and the link \<open>useList\<close> of a use are
  at \<open>p\<close>, the link \<open>inst_list\<close> of an instruction, the list \<open>instructions\<close> of a block and the link
  \<open>functions\<close> of a function at \<open>p + 1\<close>, the link \<open>specialList\<close> of a phi at \<open>p + 2\<close>. The two lists of
  the context are at 1 and 2.
\<close>

definition ctx_functions :: ptr where "ctx_functions = 1"
definition ctx_specialInstructions :: ptr where "ctx_specialInstructions = 2"

definition get_value :: "ir_context \<Rightarrow> ptr \<Rightarrow> value_t res" where
  "get_value ir v = (case ir_values ir v of None \<Rightarrow> Inl NullDeref | Some x \<Rightarrow> Inr x)"

definition get_inst :: "ir_context \<Rightarrow> ptr \<Rightarrow> instruction_t res" where
  "get_inst ir i = (case ir_insts ir i of None \<Rightarrow> Inl NullDeref | Some x \<Rightarrow> Inr x)"

definition get_block :: "ir_context \<Rightarrow> ptr \<Rightarrow> ptr res" where
  "get_block ir b = (case ir_blocks ir b of None \<Rightarrow> Inl NullDeref | Some x \<Rightarrow> Inr x)"

definition get_use :: "ir_context \<Rightarrow> ptr \<Rightarrow> use_t res" where
  "get_use ir u = (case ir_uses ir u of None \<Rightarrow> Inl NullDeref | Some x \<Rightarrow> Inr x)"

definition get_function :: "ir_context \<Rightarrow> ptr \<Rightarrow> function_t res" where
  "get_function ir f = (case ir_functions ir f of None \<Rightarrow> Inl NullDeref | Some x \<Rightarrow> Inr x)"

definition set_inst :: "ir_context \<Rightarrow> ptr \<Rightarrow> instruction_t \<Rightarrow> ir_context" where
  "set_inst ir i inst = ir\<lparr>ir_insts := (ir_insts ir)(i \<mapsto> inst)\<rparr>"

definition set_use :: "ir_context \<Rightarrow> ptr \<Rightarrow> use_t \<Rightarrow> ir_context" where
  "set_use ir u use = ir\<lparr>ir_uses := (ir_uses ir)(u \<mapsto> use)\<rparr>"

definition on_lists :: "(list_heap \<Rightarrow> list_heap res) \<Rightarrow> ir_context \<Rightarrow> ir_context res" where
  "on_lists f ir = bindE (f (ir_cells ir)) (\<lambda>cs. Inr (ir\<lparr>ir_cells := cs\<rparr>))"

text \<open>\<open>znnew\<close>: a fresh object.\<close>

definition ir_new :: "ir_context \<Rightarrow> ir_context \<times> ptr" where
  "ir_new ir = (let p = ir_top ir; c = \<lparr>lprev = 0, lnext = 0\<rparr> in
     (ir\<lparr>ir_top := p + 4, ir_cells := (ir_cells ir)(p \<mapsto> c, p + 1 \<mapsto> c, p + 2 \<mapsto> c)\<rparr>, p))"

section \<open>Contexts, values and uses\<close>

definition ir_context_init :: "ir_context res" where
  "ir_context_init =
     (let c = \<lparr>lprev = 0, lnext = 0\<rparr>;
          ir = \<lparr>ir_cells = [ctx_functions \<mapsto> c, ctx_specialInstructions \<mapsto> c], ir_values = Map.empty,
                ir_insts = Map.empty, ir_blocks = Map.empty, ir_uses = Map.empty, ir_consts = Map.empty,
                ir_functions = Map.empty, ir_top = 4\<rparr> in
      bindE (on_lists (\<lambda>h. LIST_INIT h ctx_functions) ir) (\<lambda>ir.
        on_lists (\<lambda>h. LIST_INIT h ctx_specialInstructions) ir))"

definition value_init :: "ir_context \<Rightarrow> ptr \<Rightarrow> value_type \<Rightarrow> data_type \<Rightarrow> range_t option \<Rightarrow> ir_context res" where
  "value_init ir v type dataType name =
     on_lists (\<lambda>h. LIST_INIT h v)
       (ir\<lparr>ir_values := (ir_values ir)(v \<mapsto> \<lparr>v_dataType = dataType, v_type = type, v_name = name\<rparr>)\<rparr>)"

definition ir_constant_value :: "ir_context \<Rightarrow> 64 word \<Rightarrow> (ir_context \<times> ptr) res" where
  "ir_constant_value ir n =
     (let (ir, p) = ir_new ir in
      bindE (value_init ir p V_CONST INT64 None) (\<lambda>ir.
        Inr (ir\<lparr>ir_consts := (ir_consts ir)(p \<mapsto> n)\<rparr>, p)))"

text \<open>
  The array of the uses and their number. A return has no case: the function then ends without a
  \<open>return\<close>, and the count stays at the 0 the callers set it to.
\<close>

definition inst_getUses :: "instruction_t \<Rightarrow> ptr list option \<times> nat" where
  "inst_getUses inst = (let uses = (if i_usesSet inst then Some (i_uses inst) else None) in
     case i_type inst of
       INST_LOAD_VAR \<Rightarrow> (uses, 0)
     | INST_ASSIGN_VAR \<Rightarrow> (uses, 1)
     | INST_BINARY \<Rightarrow> (uses, 2)
     | INST_JUMP \<Rightarrow> (uses, 1)
     | INST_JUMP_COND \<Rightarrow> (uses, 3)
     | INST_PHI \<Rightarrow> (uses, i_useCount inst)
     | INST_FUNCTION_CALL \<Rightarrow> (uses, i_useCount inst)
     | INST_RETURN \<Rightarrow> (None, 0))"

definition read_use :: "ptr list option \<Rightarrow> nat \<Rightarrow> ptr res" where
  "read_use uses k = (case uses of None \<Rightarrow> Inl OutOfBounds
     | Some us \<Rightarrow> if k < length us then Inr (us ! k) else Inl OutOfBounds)"

definition inst_setUse :: "ir_context \<Rightarrow> ptr \<Rightarrow> nat \<Rightarrow> ptr \<Rightarrow> ir_context res" where
  "inst_setUse ir i useOffset value =
     bindE (get_inst ir i) (\<lambda>inst.
       case inst_getUses inst of (uses, useCount) \<Rightarrow>
       assertE (useOffset < useCount)
        (bindE (read_use uses useOffset) (\<lambda>use.
         bindE (if use = 0 then Inr (ir_new ir)
                else bindE (on_lists (\<lambda>h. list_deattach h use) ir) (\<lambda>ir. Inr (ir, use))) (\<lambda>(ir, use).
         let ir = set_use ir use \<lparr>u_inst = i, u_value = value\<rparr> in
         bindE (on_lists (\<lambda>h. list_add h value use) ir) (\<lambda>ir.
           Inr (set_inst ir i (inst\<lparr>i_uses := (i_uses inst)[useOffset := use]\<rparr>)))))))"

definition inst_insertAfter :: "ir_context \<Rightarrow> ptr \<Rightarrow> ptr \<Rightarrow> ir_context res" where
  "inst_insertAfter ir inst add = on_lists (\<lambda>h. list_addAfter h (inst + 1) (add + 1)) ir"

definition inst_remove :: "ir_context \<Rightarrow> ptr \<Rightarrow> ir_context res" where
  "inst_remove ir inst = on_lists (\<lambda>h. list_deattach h (inst + 1)) ir"

text \<open>\<open>block_new\<close> makes a block but has no \<open>return\<close>: the caller gets no value it may use.\<close>

definition block_new :: "ir_context \<Rightarrow> ptr \<Rightarrow> (ir_context \<times> ptr option) res" where
  "block_new ir fn =
     (let (ir, block) = ir_new ir;
          ir = ir\<lparr>ir_blocks := (ir_blocks ir)(block \<mapsto> fn)\<rparr> in
      bindE (value_init ir block V_BLOCK DT_BLOCK None) (\<lambda>ir.
      bindE (on_lists (\<lambda>h. LIST_INIT h (block + 1)) ir) (\<lambda>ir. Inr (ir, None))))"

section \<open>Names\<close>

definition value_getFunction :: "ir_context \<Rightarrow> ptr \<Rightarrow> ptr res" where
  "value_getFunction ir v =
     bindE (get_value ir v) (\<lambda>value.
       if v_type value = V_BLOCK then get_block ir v
       else if v_type value = INST then bindE (get_inst ir v) (\<lambda>inst. get_block ir (i_parent inst))
       else Inr 0)"

definition value_setName :: "ir_context \<Rightarrow> ptr \<Rightarrow> range_t \<Rightarrow> ir_context res" where
  "value_setName ir v name =
     assertE (rsize name \<le> MAX_ZONE_ALLOCATION)
      (if length (rmem name) < rsize name then Inl OutOfBounds
       else bindE (get_value ir v) (\<lambda>value.
         Inr (ir\<lparr>ir_values := (ir_values ir)(v \<mapsto>
           value\<lparr>v_name := Some \<lparr>rmem = range_view name, rsize = rsize name\<rparr>\<rparr>)\<rparr>)))"

definition value_getName :: "ir_context \<Rightarrow> ptr \<Rightarrow> (ir_context \<times> range_t) res" where
  "value_getName ir v =
     bindE (get_value ir v) (\<lambda>value.
       case v_name value of
         None \<Rightarrow> Inl Indeterminate
       | Some n \<Rightarrow>
           if rsize n \<noteq> 0 then Inr (ir, n)
           else
             bindE (value_getFunction ir v) (\<lambda>func.
             bindE (get_function ir func) (\<lambda>f.
             let num = f_valueNameCounter f;
                 ir = ir\<lparr>ir_functions := (ir_functions ir)(func \<mapsto> f\<lparr>f_valueNameCounter := add64 num 1\<rparr>)\<rparr> in
             bindE (format_range (''{int}'' @ [NUL]) [ArgInt (of_nat num)]) (\<lambda>name.
             bindE (value_setName ir v name) (\<lambda>ir.
             bindE (get_value ir v) (\<lambda>value.
               case v_name value of None \<Rightarrow> Inl Indeterminate | Some n \<Rightarrow> Inr (ir, n)))))))"

section \<open>Uses of a value\<close>

fun replace_loop :: "nat \<Rightarrow> ir_context \<Rightarrow> ptr \<Rightarrow> ptr \<Rightarrow> ptr \<Rightarrow> ir_context res" where
  "replace_loop 0 ir v r current = Inl OutOfFuel"
| "replace_loop (Suc fuel) ir v r current =
     (if current = v then Inr ir
      else
        bindE (get_use ir current) (\<lambda>use.
        bindE (get_next (ir_cells ir) current) (\<lambda>n.
        bindE (on_lists (\<lambda>h. list_deattach h current) ir) (\<lambda>ir.
        bindE (on_lists (\<lambda>h. list_add h r current) ir) (\<lambda>ir.
          replace_loop fuel (set_use ir current (use\<lparr>u_value := r\<rparr>)) v r n)))))"

definition value_replaceAllUses :: "nat \<Rightarrow> ir_context \<Rightarrow> ptr \<Rightarrow> ptr \<Rightarrow> ir_context res" where
  "value_replaceAllUses fuel ir v r =
     bindE (get_next (ir_cells ir) v) (\<lambda>current. replace_loop fuel ir v r current)"

definition value_hasUse :: "ir_context \<Rightarrow> ptr \<Rightarrow> bool res" where
  "value_hasUse ir v = bindE (list_empty (ir_cells ir) v) (\<lambda>e. Inr (\<not> e))"

section \<open>Instructions of a block\<close>

definition block_insertTop :: "ir_context \<Rightarrow> ptr \<Rightarrow> ptr \<Rightarrow> ir_context res" where
  "block_insertTop ir block inst =
     bindE (on_lists (\<lambda>h. list_addAfter h (block + 1) (inst + 1)) ir) (\<lambda>ir.
     bindE (get_inst ir inst) (\<lambda>x. Inr (set_inst ir inst (x\<lparr>i_parent := block\<rparr>))))"

definition block_insert :: "ir_context \<Rightarrow> ptr \<Rightarrow> ptr \<Rightarrow> ir_context res" where
  "block_insert ir block add =
     bindE (get_inst ir add) (\<lambda>x.
       on_lists (\<lambda>h. list_add h (block + 1) (add + 1)) (set_inst ir add (x\<lparr>i_parent := block\<rparr>)))"

fun number_loop :: "ir_context \<Rightarrow> nat \<Rightarrow> ptr list \<Rightarrow> ir_context res" where
  "number_loop ir i [] = Inr ir"
| "number_loop ir i (c # cs) =
     bindE (get_inst ir (c - 1)) (\<lambda>x. number_loop (set_inst ir (c - 1) (x\<lparr>i_num := i\<rparr>)) (i + 1) cs)"

definition block_numberInst :: "nat \<Rightarrow> ir_context \<Rightarrow> ptr \<Rightarrow> ir_context res" where
  "block_numberInst fuel ir block =
     bindE (LIST_FOR_EACH fuel (ir_cells ir) (block + 1)) (\<lambda>cs. number_loop ir 0 cs)"

definition block_lastInstruction :: "ir_context \<Rightarrow> ptr \<Rightarrow> ptr res" where
  "block_lastInstruction ir block =
     bindE (list_empty (ir_cells ir) (block + 1)) (\<lambda>e.
       if e then Inr 0 else bindE (get_prev (ir_cells ir) (block + 1)) (\<lambda>c. Inr (c - 1)))"

section \<open>Making functions and instructions\<close>

text \<open>\<open>ir_new_function\<close> does not use the name it is given; the entry is not set.\<close>

definition ir_new_function :: "ir_context \<Rightarrow> range_t \<Rightarrow> (ir_context \<times> ptr) res" where
  "ir_new_function ir name =
     (let (ir, fn) = ir_new ir;
          ir = ir\<lparr>ir_functions := (ir_functions ir)(fn \<mapsto> \<lparr>f_entry = None, f_valueNameCounter = 0\<rparr>)\<rparr> in
      bindE (on_lists (\<lambda>h. list_add h ctx_functions (fn + 1)) ir) (\<lambda>ir. Inr (ir, fn)))"

text \<open>The sizes of the arrays \<open>uses\<close> in the structs.\<close>

fun use_slots :: "instruction_type \<Rightarrow> nat" where
  "use_slots INST_ASSIGN_VAR = 1"
| "use_slots INST_BINARY = 2"
| "use_slots INST_JUMP = 1"
| "use_slots INST_JUMP_COND = 3"
| "use_slots INST_RETURN = 1"
| "use_slots INST_PHI = 0"
| "use_slots INST_LOAD_VAR = 0"
| "use_slots INST_FUNCTION_CALL = 0"

definition inst_new :: "ir_context \<Rightarrow> instruction_type \<Rightarrow> data_type \<Rightarrow> (ir_context \<times> ptr) res" where
  "inst_new ir enu type =
     (let (ir, i) = ir_new ir;
          inst = \<lparr>i_type = enu, i_parent = 0, i_num = 0, i_rId = 0, i_op = BO_ADD,
                  i_uses = replicate (use_slots enu) 0, i_useCount = 0,
                  i_usesSet = (enu \<noteq> INST_PHI \<and> enu \<noteq> INST_FUNCTION_CALL), i_useReserve = 0\<rparr> in
      bindE (value_init (set_inst ir i inst) i INST type (Some \<lparr>rmem = [], rsize = 0\<rparr>)) (\<lambda>ir. Inr (ir, i)))"

definition update_inst :: "ir_context \<Rightarrow> ptr \<Rightarrow> (instruction_t \<Rightarrow> instruction_t) \<Rightarrow> ir_context res" where
  "update_inst ir i f = bindE (get_inst ir i) (\<lambda>inst. Inr (set_inst ir i (f inst)))"

definition inst_new_load_var :: "ir_context \<Rightarrow> nat \<Rightarrow> data_type \<Rightarrow> (ir_context \<times> ptr) res" where
  "inst_new_load_var ir rId type =
     bindE (inst_new ir INST_LOAD_VAR type) (\<lambda>(ir, var).
     bindE (update_inst ir var (i_rId_update (\<lambda>_. rId))) (\<lambda>ir. Inr (ir, var)))"

definition inst_new_assign_var :: "ir_context \<Rightarrow> nat \<Rightarrow> ptr \<Rightarrow> (ir_context \<times> ptr) res" where
  "inst_new_assign_var ir rId value =
     bindE (inst_new ir INST_ASSIGN_VAR VOID) (\<lambda>(ir, var).
     bindE (update_inst ir var (i_rId_update (\<lambda>_. rId))) (\<lambda>ir.
     bindE (inst_setUse ir var 0 value) (\<lambda>ir. Inr (ir, var))))"

definition inst_new_binary :: "ir_context \<Rightarrow> binary_ops \<Rightarrow> ptr \<Rightarrow> ptr \<Rightarrow> (ir_context \<times> ptr) res" where
  "inst_new_binary ir type a b =
     bindE (get_value ir a) (\<lambda>va.
     bindE (get_value ir b) (\<lambda>vb.
     assertE (v_dataType va = v_dataType vb)
      (bindE (inst_new ir INST_BINARY (v_dataType va)) (\<lambda>(ir, bin).
       bindE (update_inst ir bin (i_op_update (\<lambda>_. type))) (\<lambda>ir.
       bindE (inst_setUse ir bin 0 a) (\<lambda>ir.
       bindE (inst_setUse ir bin 1 b) (\<lambda>ir. Inr (ir, bin))))))))"

definition inst_new_jump :: "ir_context \<Rightarrow> ptr \<Rightarrow> (ir_context \<times> ptr) res" where
  "inst_new_jump ir block =
     bindE (inst_new ir INST_JUMP VOID) (\<lambda>(ir, jump).
     bindE (inst_setUse ir jump 0 block) (\<lambda>ir. Inr (ir, jump)))"

definition inst_new_jump_cond :: "ir_context \<Rightarrow> ptr \<Rightarrow> ptr \<Rightarrow> ptr \<Rightarrow> (ir_context \<times> ptr) res" where
  "inst_new_jump_cond ir a b cond =
     bindE (inst_new ir INST_JUMP_COND VOID) (\<lambda>(ir, jump).
     bindE (inst_setUse ir jump 0 a) (\<lambda>ir.
     bindE (inst_setUse ir jump 1 b) (\<lambda>ir.
     bindE (inst_setUse ir jump 2 cond) (\<lambda>ir. Inr (ir, jump)))))"

definition inst_new_return :: "ir_context \<Rightarrow> (ir_context \<times> ptr) res" where
  "inst_new_return ir = inst_new ir INST_RETURN VOID"

text \<open>
  A new phi counts \<open>2 * valueCount\<close> uses although its buffer is empty, and \<open>uses\<close> is the address of
  the pointer to the buffer and not the pointer.
\<close>

definition inst_new_phi :: "ir_context \<Rightarrow> data_type \<Rightarrow> nat \<Rightarrow> (ir_context \<times> ptr) res" where
  "inst_new_phi ir type valueCount =
     bindE (inst_new ir INST_PHI type) (\<lambda>(ir, phi).
     bindE (update_inst ir phi (\<lambda>inst. inst\<lparr>i_useReserve := max valueCount 8 * 2, i_useCount := valueCount * 2,
              i_usesSet := False\<rparr>)) (\<lambda>ir.
     bindE (on_lists (\<lambda>h. list_add h ctx_specialInstructions (phi + 2)) ir) (\<lambda>ir. Inr (ir, phi))))"

text \<open>The loop of \<open>inst_phi_insertValue\<close> over the pairs: is the pair there already?\<close>

fun phi_search :: "ir_context \<Rightarrow> ptr list option \<Rightarrow> ptr \<Rightarrow> ptr \<Rightarrow> nat list \<Rightarrow> bool res" where
  "phi_search ir uses block value [] = Inr False"
| "phi_search ir uses block value (k # ks) =
     bindE (read_use uses (2 * k)) (\<lambda>u1.
     bindE (get_use ir u1) (\<lambda>use1.
       if u_value use1 \<noteq> block then phi_search ir uses block value ks
       else
         bindE (read_use uses (2 * k + 1)) (\<lambda>u2.
         bindE (get_use ir u2) (\<lambda>use2.
           if u_value use2 = value then Inr True else phi_search ir uses block value ks))))"

definition inst_phi_insertValue :: "ir_context \<Rightarrow> ptr \<Rightarrow> ptr \<Rightarrow> ptr \<Rightarrow> ir_context res" where
  "inst_phi_insertValue ir phi block value =
     bindE (get_inst ir phi) (\<lambda>inst.
     bindE (phi_search ir (if i_usesSet inst then Some (i_uses inst) else None) block value
              [0 ..< (i_useCount inst + 1) div 2]) (\<lambda>found.
       if found then Inr ir
       else
         bindE (ptrs_push (i_useReserve inst) (i_uses inst) 0) (\<lambda>us.
         bindE (ptrs_push (i_useReserve inst) us 0) (\<lambda>us.
         let n = i_useCount inst + 2;
             ir = set_inst ir phi (inst\<lparr>i_uses := us, i_usesSet := True, i_useCount := n\<rparr>) in
         bindE (inst_setUse ir phi (n - 2) block) (\<lambda>ir. inst_setUse ir phi (n - 1) value)))))"

section \<open>Iterators\<close>

record block_predecessor_it =
  pit_list :: ptr
  pit_current :: ptr

definition block_predecessor_begin :: "ir_context \<Rightarrow> ptr \<Rightarrow> block_predecessor_it res" where
  "block_predecessor_begin ir block =
     bindE (get_next (ir_cells ir) block) (\<lambda>n. Inr \<lparr>pit_list = block, pit_current = n\<rparr>)"

definition block_predecessor_end :: "block_predecessor_it \<Rightarrow> bool" where
  "block_predecessor_end it \<longleftrightarrow> pit_list it = pit_current it"

definition block_predecessor_next :: "ir_context \<Rightarrow> block_predecessor_it \<Rightarrow> block_predecessor_it res" where
  "block_predecessor_next ir it =
     assertE (\<not> block_predecessor_end it)
      (bindE (get_next (ir_cells ir) (pit_current it)) (\<lambda>n. Inr (it\<lparr>pit_current := n\<rparr>)))"

definition block_predecessor_get :: "ir_context \<Rightarrow> block_predecessor_it \<Rightarrow> ptr res" where
  "block_predecessor_get ir it =
     assertE (\<not> block_predecessor_end it)
      (bindE (get_use ir (pit_current it)) (\<lambda>u. bindE (get_inst ir (u_inst u)) (\<lambda>inst. Inr (i_parent inst))))"

text \<open>What a loop over the iterator sees.\<close>

fun predecessor_loop :: "nat \<Rightarrow> ir_context \<Rightarrow> block_predecessor_it \<Rightarrow> ptr list res" where
  "predecessor_loop 0 ir it = Inl OutOfFuel"
| "predecessor_loop (Suc fuel) ir it =
     (if block_predecessor_end it then Inr []
      else bindE (block_predecessor_get ir it) (\<lambda>b.
           bindE (block_predecessor_next ir it) (\<lambda>it.
           bindE (predecessor_loop fuel ir it) (\<lambda>bs. Inr (b # bs)))))"

definition block_predecessors :: "nat \<Rightarrow> ir_context \<Rightarrow> ptr \<Rightarrow> ptr list res" where
  "block_predecessors fuel ir block = bindE (block_predecessor_begin ir block) (predecessor_loop fuel ir)"

record block_successor_it =
  sit_next :: ptr
  sit_inst :: ptr
  sit_i :: nat

fun successor_scan :: "ir_context \<Rightarrow> ptr list option \<Rightarrow> nat \<Rightarrow> nat list \<Rightarrow> (ptr \<times> nat) res" where
  "successor_scan ir uses i [] = Inr (0, i)"
| "successor_scan ir uses i (k # ks) =
     bindE (read_use uses k) (\<lambda>u.
     bindE (get_use ir u) (\<lambda>use.
     bindE (get_value ir (u_value use)) (\<lambda>value.
       if v_type value = V_BLOCK then Inr (u_value use, k + 1) else successor_scan ir uses (k + 1) ks)))"

definition block_successor_read :: "ir_context \<Rightarrow> block_successor_it \<Rightarrow> block_successor_it res" where
  "block_successor_read ir it =
     (if sit_inst it = 0 then Inr it
      else
        bindE (get_inst ir (sit_inst it)) (\<lambda>inst.
          case inst_getUses inst of (uses, count) \<Rightarrow>
          bindE (successor_scan ir uses (sit_i it) [sit_i it ..< count]) (\<lambda>(n, i).
            Inr (it\<lparr>sit_next := n, sit_i := i\<rparr>))))"

definition block_successor_begin :: "ir_context \<Rightarrow> ptr \<Rightarrow> block_successor_it res" where
  "block_successor_begin ir block =
     bindE (block_lastInstruction ir block) (\<lambda>inst.
     bindE (if inst = 0 then Inr 0
            else bindE (get_inst ir inst) (\<lambda>x. Inr (if i_type x = INST_PHI then 0 else inst))) (\<lambda>inst.
       block_successor_read ir \<lparr>sit_next = 0, sit_inst = inst, sit_i = 0\<rparr>))"

definition block_successor_end :: "block_successor_it \<Rightarrow> bool" where
  "block_successor_end it \<longleftrightarrow> sit_next it = 0"

definition block_successor_next :: "ir_context \<Rightarrow> block_successor_it \<Rightarrow> block_successor_it res" where
  "block_successor_next ir it = assertE (\<not> block_successor_end it) (block_successor_read ir it)"

definition block_successor_get :: "block_successor_it \<Rightarrow> ptr res" where
  "block_successor_get it = assertE (\<not> block_successor_end it) (Inr (sit_next it))"

fun successor_loop :: "nat \<Rightarrow> ir_context \<Rightarrow> block_successor_it \<Rightarrow> ptr list res" where
  "successor_loop 0 ir it = Inl OutOfFuel"
| "successor_loop (Suc fuel) ir it =
     (if block_successor_end it then Inr []
      else bindE (block_successor_get it) (\<lambda>b.
           bindE (block_successor_next ir it) (\<lambda>it.
           bindE (successor_loop fuel ir it) (\<lambda>bs. Inr (b # bs)))))"

definition block_successors :: "nat \<Rightarrow> ir_context \<Rightarrow> ptr \<Rightarrow> ptr list res" where
  "block_successors fuel ir block = bindE (block_successor_begin ir block) (successor_loop fuel ir)"

section \<open>Postorder\<close>

text \<open>
  The buffer of blocks holds what a buffer of the initial capacity takes; the hash set of visited
  blocks is a set, as the theory of hash maps justifies.
\<close>

definition buffer_pointers :: nat where
  "buffer_pointers = DBUFFER_INIT div 8"

fun pre_visit :: "nat \<Rightarrow> ir_context \<Rightarrow> ptr \<Rightarrow> ptr list \<times> ptr set \<Rightarrow> (ptr list \<times> ptr set) res"
  and pre_visits :: "nat \<Rightarrow> ir_context \<Rightarrow> ptr list \<Rightarrow> ptr list \<times> ptr set \<Rightarrow> (ptr list \<times> ptr set) res" where
  "pre_visit 0 ir block st = Inl OutOfFuel"
| "pre_visit (Suc fuel) ir block (dbuf, visited) =
     (if block \<in> visited then Inr (dbuf, visited)
      else
        bindE (block_successors 4 ir block) (\<lambda>succs.
        bindE (pre_visits fuel ir succs (dbuf, insert block visited)) (\<lambda>(dbuf, visited).
        bindE (ptrs_push buffer_pointers dbuf block) (\<lambda>dbuf. Inr (dbuf, visited)))))"
| "pre_visits fuel ir [] st = Inr st"
| "pre_visits 0 ir (b # bs) st = Inl OutOfFuel"
| "pre_visits (Suc fuel) ir (b # bs) st = bindE (pre_visit fuel ir b st) (\<lambda>st. pre_visits fuel ir bs st)"

definition block_computePostorder :: "nat \<Rightarrow> ir_context \<Rightarrow> ptr \<Rightarrow> ptr list res" where
  "block_computePostorder fuel ir fn =
     bindE (get_function ir fn) (\<lambda>f.
       case f_entry f of
         None \<Rightarrow> Inl Indeterminate
       | Some entry \<Rightarrow> bindE (pre_visit fuel ir entry ([], {})) (\<lambda>(postorder, _). Inr postorder))"

end
