(* ===== verification/Ir_Graph.thy ===== *)
theory Ir_Graph
  imports Ir
begin

text \<open>
  The graph of uses and definitions of \<open>Ir\<close>: the invariant that ties the operands of the instructions to
  the use lists of the values, its preservation by every operation of \<open>ir.c\<close>, and what the operations
  do to the operands.
\<close>

section \<open>Lists of a context\<close>

text \<open>\<open>L\<close> tells the elements of every list of the context: uses of values, instructions of blocks and the rest.\<close>

definition ir_lists :: "list_heap \<Rightarrow> (ptr \<rightharpoonup> ptr list) \<Rightarrow> bool" where
  "ir_lists h L \<longleftrightarrow> (\<forall>l xs. L l = Some xs \<longrightarrow> ring h l xs) \<and> separate L"

lemma on_lists_iff: "on_lists f ir = Inr (ir\<lparr>ir_cells := cs\<rparr>) \<longleftrightarrow> f (ir_cells ir) = Inr cs"
  by (cases "f (ir_cells ir)") (auto simp: on_lists_def dest: arg_cong [of _ _ ir_cells])

lemma lists_init:
  assumes "ir_lists (ir_cells ir) L" and "l \<in> dom (ir_cells ir)" and "\<not> in_lists L l"
  obtains cs where "on_lists (\<lambda>h. LIST_INIT h l) ir = Inr (ir\<lparr>ir_cells := cs\<rparr>)" and "ir_lists cs (L(l \<mapsto> []))"
    and "dom cs = dom (ir_cells ir)"
  using il.family_init [of L "ir_cells ir" l] il.same_cells assms unfolding ir_lists_def on_lists_def by fastforce

lemma lists_add:
  assumes "ir_lists (ir_cells ir) L" and "L l = Some xs" and "e \<in> dom (ir_cells ir)" and "\<not> in_lists L e"
  obtains cs where "on_lists (\<lambda>h. list_add h l e) ir = Inr (ir\<lparr>ir_cells := cs\<rparr>)" and "ir_lists cs (L(l \<mapsto> xs @ [e]))"
    and "dom cs = dom (ir_cells ir)"
  using il.family_add [of L "ir_cells ir" l xs e] il.same_cells assms unfolding ir_lists_def on_lists_def by fastforce

lemma lists_addAfter:
  assumes "ir_lists (ir_cells ir) L" and "L l = Some (us @ vs)" and "e \<in> dom (ir_cells ir)" and "\<not> in_lists L e"
  obtains cs where "on_lists (\<lambda>h. list_addAfter h (last (l # us)) e) ir = Inr (ir\<lparr>ir_cells := cs\<rparr>)"
    and "ir_lists cs (L(l \<mapsto> us @ e # vs))" and "dom cs = dom (ir_cells ir)"
  using il.family_addAfter [of L "ir_cells ir" l us vs e] il.same_cells assms unfolding ir_lists_def on_lists_def
  by fastforce

lemma lists_deattach:
  assumes "ir_lists (ir_cells ir) L" and "L l = Some (us @ e # vs)"
  obtains cs where "on_lists (\<lambda>h. list_deattach h e) ir = Inr (ir\<lparr>ir_cells := cs\<rparr>)" and "ir_lists cs (L(l \<mapsto> us @ vs))"
    and "dom cs = dom (ir_cells ir)" and "\<not> in_lists (L(l \<mapsto> us @ vs)) e" and "e \<in> dom cs"
  using il.family_deattach [of L "ir_cells ir" l us e vs] il.same_cells assms unfolding ir_lists_def on_lists_def
  by fastforce

lemma lists_in_cells: "ir_lists h L \<Longrightarrow> in_lists L e \<Longrightarrow> e \<in> dom h"
  using il.rep_cells unfolding ir_lists_def in_lists_def list_nodes_def by (fastforce split: option.splits)

lemma in_listsI: "L l = Some xs \<Longrightarrow> e \<in> set (l # xs) \<Longrightarrow> in_lists L e"
  unfolding in_lists_def using list_nodes_Some [of L l xs] by blast

lemma not_in_lists: "\<not> in_lists L l \<Longrightarrow> L l = None"
  by (cases "L l") (auto dest: in_listsI)

lemma lists_unique: "ir_lists h L \<Longrightarrow> L l = Some xs \<Longrightarrow> L m = Some ys \<Longrightarrow> e \<in> set (l # xs) \<Longrightarrow> e \<in> set (m # ys) \<Longrightarrow> l = m"
  using separateD [of L l m] list_nodes_Some [of L l xs] list_nodes_Some [of L m ys] unfolding ir_lists_def by blast

lemma lists_frame:
  assumes "ir_lists h L" and "\<And>p. p \<in> dom h \<Longrightarrow> h' p = h p"
  shows "ir_lists h' L"
proof -
  have "ring h' l xs" if "L l = Some xs" for l xs
  proof (rule ring_frame)
    show "ring h l xs" using assms(1) that by (simp add: ir_lists_def)
    then show "\<forall>q \<in> set (l # xs). h' q = h q" using il.rep_cells assms(2) by blast
  qed
  then show ?thesis using assms(1) by (simp add: ir_lists_def)
qed

section \<open>Consistency of uses and definitions\<close>

text \<open>The use \<open>u\<close> is operand \<open>k\<close> of the instruction \<open>i\<close>.\<close>

definition slot :: "ir_context \<Rightarrow> ptr \<Rightarrow> nat \<Rightarrow> ptr \<Rightarrow> bool" where
  "slot ir i k u \<longleftrightarrow> (\<exists>inst. ir_insts ir i = Some inst \<and> k < length (i_uses inst) \<and> i_uses inst ! k = u \<and> u \<noteq> 0)"

text \<open>The value of each operand; \<open>None\<close> where none is set.\<close>

definition operands :: "ir_context \<Rightarrow> ptr \<Rightarrow> ptr option list" where
  "operands ir i = (case ir_insts ir i of None \<Rightarrow> []
     | Some inst \<Rightarrow> map (\<lambda>u. if u = 0 then None else map_option u_value (ir_uses ir u)) (i_uses inst))"

definition uses_ok :: "ir_context \<Rightarrow> (ptr \<rightharpoonup> ptr list) \<Rightarrow> bool" where
  "uses_ok ir L \<longleftrightarrow> ir_lists (ir_cells ir) L \<and>
     (\<forall>v. ir_values ir v \<noteq> None \<longrightarrow> L v \<noteq> None) \<and>
     (\<forall>i k u. slot ir i k u \<longrightarrow> (\<exists>v us. ir_uses ir u = Some \<lparr>u_inst = i, u_value = v\<rparr> \<and> ir_values ir v \<noteq> None \<and>
        L v = Some us \<and> u \<in> set us)) \<and>
     (\<forall>v us u. ir_values ir v \<noteq> None \<longrightarrow> L v = Some us \<longrightarrow> u \<in> set us \<longrightarrow> (\<exists>i k. slot ir i k u)) \<and>
     (\<forall>i k j m u. slot ir i k u \<longrightarrow> slot ir j m u \<longrightarrow> i = j \<and> k = m)"

text \<open>Addresses: objects are four apart, and above the top nothing is in use.\<close>

definition objects :: "ir_context \<Rightarrow> ptr set" where
  "objects ir = dom (ir_values ir) \<union> dom (ir_insts ir) \<union> dom (ir_blocks ir) \<union> dom (ir_uses ir) \<union> dom (ir_functions ir)"

definition object_at :: "ptr set \<Rightarrow> ptr \<Rightarrow> ptr \<Rightarrow> bool" where
  "object_at C t v \<longleftrightarrow> 4 dvd v \<and> 4 \<le> v \<and> v < t \<and> {v, v + 1, v + 2} \<subseteq> C"

definition heap_ok :: "ir_context \<Rightarrow> bool" where
  "heap_ok ir \<longleftrightarrow> 4 dvd ir_top ir \<and> 4 \<le> ir_top ir \<and> (\<forall>p \<in> dom (ir_cells ir). p \<noteq> 0 \<and> p < ir_top ir) \<and>
     (\<forall>v \<in> objects ir. object_at (dom (ir_cells ir)) (ir_top ir) v)"

lemma objectsI:
  "ir_values ir v = Some x1 \<Longrightarrow> v \<in> objects ir" "ir_insts ir v = Some x2 \<Longrightarrow> v \<in> objects ir"
  "ir_blocks ir v = Some x3 \<Longrightarrow> v \<in> objects ir" "ir_uses ir v = Some x4 \<Longrightarrow> v \<in> objects ir"
  "ir_functions ir v = Some x5 \<Longrightarrow> v \<in> objects ir"
  by (auto simp: objects_def)

lemma object_atD: "object_at C t v \<Longrightarrow> 4 dvd v \<and> v \<noteq> 0 \<and> v < t \<and> v \<in> C \<and> v + 1 \<in> C \<and> v + 2 \<in> C"
  by (auto simp: object_at_def)

lemma heap_D:
  assumes "heap_ok ir"
  shows "4 dvd ir_top ir" and "4 \<le> ir_top ir" and "p \<in> dom (ir_cells ir) \<Longrightarrow> p \<noteq> 0 \<and> p < ir_top ir"
    and "v \<in> objects ir \<Longrightarrow> object_at (dom (ir_cells ir)) (ir_top ir) v"
  using assms unfolding heap_ok_def by blast+

lemma uses_D:
  assumes "uses_ok ir L"
  shows "ir_lists (ir_cells ir) L" and "ir_values ir v \<noteq> None \<Longrightarrow> \<exists>us. L v = Some us"
    and "slot ir i k u \<Longrightarrow> \<exists>v us. ir_uses ir u = Some \<lparr>u_inst = i, u_value = v\<rparr> \<and> ir_values ir v \<noteq> None \<and>
        L v = Some us \<and> u \<in> set us"
    and "ir_values ir v \<noteq> None \<Longrightarrow> L v = Some us \<Longrightarrow> u \<in> set us \<Longrightarrow> \<exists>i k. slot ir i k u"
    and "slot ir i k u \<Longrightarrow> slot ir j m u \<Longrightarrow> i = j \<and> k = m"
  using assms unfolding uses_ok_def by blast+

lemma uses_okI:
  assumes "ir_lists (ir_cells ir) L" and "\<And>v. ir_values ir v \<noteq> None \<Longrightarrow> L v \<noteq> None"
    and "\<And>i k u. slot ir i k u \<Longrightarrow> \<exists>v us. ir_uses ir u = Some \<lparr>u_inst = i, u_value = v\<rparr> \<and> ir_values ir v \<noteq> None \<and>
        L v = Some us \<and> u \<in> set us"
    and "\<And>v us u. ir_values ir v \<noteq> None \<Longrightarrow> L v = Some us \<Longrightarrow> u \<in> set us \<Longrightarrow> \<exists>i k. slot ir i k u"
    and "\<And>i k j m u. slot ir i k u \<Longrightarrow> slot ir j m u \<Longrightarrow> i = j \<and> k = m"
  shows "uses_ok ir L"
  using assms unfolding uses_ok_def by blast

lemma slot_upd:
  "slot (set_inst ir i inst) j k u \<longleftrightarrow>
     (if j = i then k < length (i_uses inst) \<and> i_uses inst ! k = u \<and> u \<noteq> 0 else slot ir j k u)"
  by (simp add: slot_def set_inst_def)

lemma slot_cong: "ir_insts ir' = ir_insts ir \<Longrightarrow> slot ir' i k u = slot ir i k u"
  by (simp add: slot_def)

lemma set_inst_simps [simp]:
  "ir_cells (set_inst ir i x) = ir_cells ir" "ir_values (set_inst ir i x) = ir_values ir"
  "ir_blocks (set_inst ir i x) = ir_blocks ir" "ir_uses (set_inst ir i x) = ir_uses ir"
  "ir_functions (set_inst ir i x) = ir_functions ir" "ir_top (set_inst ir i x) = ir_top ir"
  "ir_insts (set_inst ir i x) = (ir_insts ir)(i \<mapsto> x)"
  by (simp_all add: set_inst_def)

lemma set_use_simps [simp]:
  "ir_cells (set_use ir u y) = ir_cells ir" "ir_values (set_use ir u y) = ir_values ir"
  "ir_blocks (set_use ir u y) = ir_blocks ir" "ir_insts (set_use ir u y) = ir_insts ir"
  "ir_functions (set_use ir u y) = ir_functions ir" "ir_top (set_use ir u y) = ir_top ir"
  "ir_uses (set_use ir u y) = (ir_uses ir)(u \<mapsto> y)"
  by (simp_all add: set_use_def)

text \<open>A use leaves the list of its value, and its operand is empty.\<close>

lemma detach_use:
  assumes ok: "uses_ok ir L" and i: "ir_insts ir i = Some inst" "k < length (i_uses inst)" "i_uses inst ! k = u" "u \<noteq> 0"
  obtains cs w as bs where "on_lists (\<lambda>h. list_deattach h u) ir = Inr (ir\<lparr>ir_cells := cs\<rparr>)"
    and "uses_ok (set_inst (ir\<lparr>ir_cells := cs\<rparr>) i (inst\<lparr>i_uses := (i_uses inst)[k := 0]\<rparr>)) (L(w \<mapsto> as @ bs))"
    and "ir_values ir w \<noteq> None" and "L w = Some (as @ u # bs)" and "dom cs = dom (ir_cells ir)"
    and "\<not> in_lists (L(w \<mapsto> as @ bs)) u" and "u \<in> dom cs"
proof -
  have s: "slot ir i k u" using i by (simp add: slot_def)
  obtain w us where w: "ir_uses ir u = Some \<lparr>u_inst = i, u_value = w\<rparr>" "ir_values ir w \<noteq> None" "L w = Some us" "u \<in> set us"
    using uses_D(3) [OF ok s] by blast
  then obtain as bs where us: "L w = Some (as @ u # bs)" by (auto simp: in_set_conv_decomp)
  have "ring (ir_cells ir) w (as @ u # bs)" using uses_D(1) [OF ok] us by (simp add: ir_lists_def)
  then have d: "u \<notin> set (as @ bs)" using il.rep_distinct by fastforce
  obtain cs where cs: "on_lists (\<lambda>h. list_deattach h u) ir = Inr (ir\<lparr>ir_cells := cs\<rparr>)" "ir_lists cs (L(w \<mapsto> as @ bs))"
    "dom cs = dom (ir_cells ir)" "\<not> in_lists (L(w \<mapsto> as @ bs)) u" "u \<in> dom cs"
    using lists_deattach [OF uses_D(1) [OF ok] us] .
  let ?ir = "set_inst (ir\<lparr>ir_cells := cs\<rparr>) i (inst\<lparr>i_uses := (i_uses inst)[k := 0]\<rparr>)"
  have slots: "slot ?ir j m x \<longleftrightarrow> slot ir j m x \<and> x \<noteq> u" for j m x
  proof
    assume "slot ?ir j m x"
    then have "slot ir j m x" "\<not> (j = i \<and> m = k)"
      using i by (auto simp: slot_def set_inst_def nth_list_update split: if_splits)
    with uses_D(5) [OF ok _ s] show "slot ir j m x \<and> x \<noteq> u" by blast
  next
    assume a: "slot ir j m x \<and> x \<noteq> u"
    then have "\<not> (j = i \<and> m = k)" using i by (auto simp: slot_def)
    with a i show "slot ?ir j m x" by (auto simp: slot_def set_inst_def nth_list_update)
  qed
  have "uses_ok ?ir (L(w \<mapsto> as @ bs))"
  proof (rule uses_okI)
    show "ir_lists (ir_cells ?ir) (L(w \<mapsto> as @ bs))" using cs(2) by simp
    show "(L(w \<mapsto> as @ bs)) v \<noteq> None" if "ir_values ?ir v \<noteq> None" for v
      using uses_D(2) [OF ok, of v] that by auto
    show "\<exists>v us. ir_uses ?ir x = Some \<lparr>u_inst = j, u_value = v\<rparr> \<and> ir_values ?ir v \<noteq> None \<and>
        (L(w \<mapsto> as @ bs)) v = Some us \<and> x \<in> set us" if "slot ?ir j m x" for j m x
    proof -
      from that slots have "slot ir j m x" "x \<noteq> u" by auto
      with uses_D(3) [OF ok this(1)] us show ?thesis by (auto split: if_splits)
    qed
    show "\<exists>i k. slot ?ir i k x" if "ir_values ?ir v \<noteq> None" "(L(w \<mapsto> as @ bs)) v = Some us" "x \<in> set us" for v us x
    proof -
      have "x \<noteq> u" using that(2,3) cs(4) in_listsI [of "L(w \<mapsto> as @ bs)" v us] by auto
      have "\<exists>us. L v = Some us \<and> x \<in> set us" using that us by (auto split: if_splits)
      moreover have "ir_values ir v \<noteq> None" using that(1) by simp
      ultimately have "\<exists>j m. slot ir j m x" using uses_D(4) [OF ok] by blast
      then show ?thesis unfolding slots using \<open>x \<noteq> u\<close> by blast
    qed
    show "j = j' \<and> m = m'" if "slot ?ir j m x" "slot ?ir j' m' x" for j m j' m' x
      using uses_D(5) [OF ok] that unfolding slots by blast
  qed
  with that cs w(2) us show ?thesis by blast
qed

lemma in_lists_snoc: "L v = Some xs \<Longrightarrow> in_lists (L(v \<mapsto> xs @ [u])) p \<Longrightarrow> in_lists L p \<or> p = u"
proof -
  assume L: "L v = Some xs" and "in_lists (L(v \<mapsto> xs @ [u])) p"
  then obtain l where l: "p \<in> list_nodes (L(v \<mapsto> xs @ [u])) l" by (auto simp: in_lists_def)
  then have "p \<in> list_nodes L l \<or> p = u" using list_nodes_Some [of L v, OF L] by (auto split: if_splits)
  then show ?thesis by (auto simp: in_lists_def)
qed

lemma in_lists_del: "L v = Some (as @ u # bs) \<Longrightarrow> in_lists (L(v \<mapsto> as @ bs)) p \<Longrightarrow> in_lists L p"
proof -
  assume L: "L v = Some (as @ u # bs)" and "in_lists (L(v \<mapsto> as @ bs)) p"
  then obtain l where l: "p \<in> list_nodes (L(v \<mapsto> as @ bs)) l" by (auto simp: in_lists_def)
  then have "p \<in> list_nodes L l" using list_nodes_Some [of L v, OF L] by (auto split: if_splits)
  then show ?thesis by (auto simp: in_lists_def)
qed

lemma slot_in_lists: "uses_ok ir L \<Longrightarrow> slot ir i k u \<Longrightarrow> in_lists L u"
  using uses_D(3) [of ir L i k u] in_listsI [of L _ _ u] by fastforce

text \<open>A detached use becomes an operand, and joins the list of its value.\<close>

lemma attach_use:
  assumes ok: "uses_ok ir L" and i: "ir_insts ir i = Some inst" "k < length (i_uses inst)" "i_uses inst ! k = 0"
    and u: "u \<noteq> 0" "u \<in> dom (ir_cells ir)" "\<not> in_lists L u" and v: "ir_values ir v \<noteq> None" "L v = Some xs"
  obtains cs where "on_lists (\<lambda>h. list_add h v u) (set_use ir u \<lparr>u_inst = i, u_value = v\<rparr>) =
      Inr ((set_use ir u \<lparr>u_inst = i, u_value = v\<rparr>)\<lparr>ir_cells := cs\<rparr>)"
    and "uses_ok (set_inst ((set_use ir u \<lparr>u_inst = i, u_value = v\<rparr>)\<lparr>ir_cells := cs\<rparr>) i
      (inst\<lparr>i_uses := (i_uses inst)[k := u]\<rparr>)) (L(v \<mapsto> xs @ [u]))"
    and "dom cs = dom (ir_cells ir)"
proof -
  let ?ir1 = "set_use ir u \<lparr>u_inst = i, u_value = v\<rparr>"
  obtain cs where cs: "on_lists (\<lambda>h. list_add h v u) ?ir1 = Inr (?ir1\<lparr>ir_cells := cs\<rparr>)" "ir_lists cs (L(v \<mapsto> xs @ [u]))"
    "dom cs = dom (ir_cells ir)" using lists_add [of ?ir1 L v xs u] uses_D(1) [OF ok] v(2) u by auto
  let ?ir = "set_inst (?ir1\<lparr>ir_cells := cs\<rparr>) i (inst\<lparr>i_uses := (i_uses inst)[k := u]\<rparr>)"
  have none: "\<not> slot ir j m u" for j m using slot_in_lists [OF ok] u(3) by blast
  have slots: "slot ?ir j m x \<longleftrightarrow> slot ir j m x \<or> j = i \<and> m = k \<and> x = u" for j m x
    using i u(1) by (auto simp: slot_def set_inst_def set_use_def nth_list_update split: if_splits)
  have "uses_ok ?ir (L(v \<mapsto> xs @ [u]))"
  proof (rule uses_okI)
    show "ir_lists (ir_cells ?ir) (L(v \<mapsto> xs @ [u]))" using cs(2) by simp
    show "(L(v \<mapsto> xs @ [u])) w \<noteq> None" if "ir_values ?ir w \<noteq> None" for w
      using uses_D(2) [OF ok, of w] that by auto
    show "\<exists>w us. ir_uses ?ir x = Some \<lparr>u_inst = j, u_value = w\<rparr> \<and> ir_values ?ir w \<noteq> None \<and>
        (L(v \<mapsto> xs @ [u])) w = Some us \<and> x \<in> set us" if "slot ?ir j m x" for j m x
    proof (cases "slot ir j m x")
      case True
      moreover from this none have "x \<noteq> u" by blast
      ultimately show ?thesis using uses_D(3) [OF ok True] v(2) by auto
    next
      case False
      with that slots v show ?thesis by auto
    qed
    show "\<exists>i k. slot ?ir i k x" if "ir_values ?ir w \<noteq> None" "(L(v \<mapsto> xs @ [u])) w = Some us" "x \<in> set us" for w us x
    proof (cases "x = u")
      case True
      then show ?thesis unfolding slots by blast
    next
      case False
      then have "\<exists>us. L w = Some us \<and> x \<in> set us" using that v(2) by (auto split: if_splits)
      moreover have "ir_values ir w \<noteq> None" using that(1) by simp
      ultimately show ?thesis unfolding slots using uses_D(4) [OF ok] by blast
    qed
    show "j = j' \<and> m = m'" if "slot ?ir j m x" "slot ?ir j' m' x" for j m j' m' x
      using uses_D(5) [OF ok] none that unfolding slots by blast
  qed
  with that cs show ?thesis by blast
qed

text \<open>A fresh object.\<close>

lemma new_ok:
  assumes heap: "heap_ok ir" and new: "ir_new ir = (ir', p)"
  shows "heap_ok ir'" and "p = ir_top ir" and "ir_top ir' = p + 4"
    and "dom (ir_cells ir') = dom (ir_cells ir) \<union> {p, p + 1, p + 2}"
    and "\<And>q. q \<in> dom (ir_cells ir) \<Longrightarrow> ir_cells ir' q = ir_cells ir q" and "{p, p + 1, p + 2} \<inter> dom (ir_cells ir) = {}"
    and "ir_values ir' = ir_values ir" and "ir_insts ir' = ir_insts ir" and "ir_blocks ir' = ir_blocks ir"
    and "ir_uses ir' = ir_uses ir" and "ir_functions ir' = ir_functions ir" and "p \<noteq> 0" and "4 dvd p" and "4 \<le> p"
proof -
  show p: "p = ir_top ir" and top: "ir_top ir' = p + 4" using new by (auto simp: ir_new_def Let_def)
  show dom: "dom (ir_cells ir') = dom (ir_cells ir) \<union> {p, p + 1, p + 2}" using new by (auto simp: ir_new_def Let_def)
  show same: "ir_values ir' = ir_values ir" "ir_insts ir' = ir_insts ir" "ir_blocks ir' = ir_blocks ir"
    "ir_uses ir' = ir_uses ir" "ir_functions ir' = ir_functions ir" using new by (auto simp: ir_new_def Let_def)
  have "q \<notin> dom (ir_cells ir)" if "p \<le> q" for q using heap_D(3) [OF heap, of q] that p by linarith
  then have f: "p \<notin> dom (ir_cells ir)" "p + 1 \<notin> dom (ir_cells ir)" "p + 2 \<notin> dom (ir_cells ir)" by simp_all
  then show "{p, p + 1, p + 2} \<inter> dom (ir_cells ir) = {}" by blast
  show "ir_cells ir' q = ir_cells ir q" if "q \<in> dom (ir_cells ir)" for q
  proof -
    have "q \<noteq> p" "q \<noteq> p + 1" "q \<noteq> p + 2" using f that by blast+
    then show ?thesis using new p by (auto simp: ir_new_def Let_def)
  qed
  show "4 dvd p" "4 \<le> p" using p heap_D(1,2) [OF heap] by simp_all
  then show p0: "p \<noteq> 0" by simp
  have obj: "objects ir' = objects ir" by (simp add: objects_def same)
  show "heap_ok ir'"
    unfolding heap_ok_def obj top
  proof (intro conjI ballI)
    show "4 dvd p + 4" using \<open>4 dvd p\<close> by simp
    fix q assume "q \<in> dom (ir_cells ir')"
    then have "q \<in> dom (ir_cells ir) \<or> q = p \<or> q = p + 1 \<or> q = p + 2" unfolding dom by blast
    then have "q \<noteq> 0 \<and> q < p \<or> q = p \<or> q = p + 1 \<or> q = p + 2" using heap_D(3) [OF heap, of q] p by blast
    then show "q \<noteq> 0" "q < p + 4" using p0 by auto
  next
    fix v assume "v \<in> objects ir"
    from heap_D(4) [OF heap this] show "object_at (dom (ir_cells ir')) (p + 4) v"
      unfolding dom object_at_def p by auto
  qed simp
qed

lemma uses_ok_frame:
  assumes "uses_ok ir L" and "\<And>q. q \<in> dom (ir_cells ir) \<Longrightarrow> ir_cells ir' q = ir_cells ir q"
    and "ir_values ir' = ir_values ir" and "ir_insts ir' = ir_insts ir" and "ir_uses ir' = ir_uses ir"
  shows "uses_ok ir' L"
  using assms lists_frame [of "ir_cells ir" L "ir_cells ir'"] slot_cong [of ir' ir] unfolding uses_ok_def by auto

lemma heap_ok_cong:
  assumes "heap_ok ir" and "dom (ir_cells ir') = dom (ir_cells ir)" and "ir_top ir' = ir_top ir"
    and "objects ir' \<subseteq> objects ir"
  shows "heap_ok ir'"
  using assms unfolding heap_ok_def by (simp only: assms(2,3)) blast

lemma heap_ok_add:
  assumes "heap_ok ir" and "object_at (dom (ir_cells ir)) (ir_top ir) u"
    and "dom (ir_cells ir') = dom (ir_cells ir)" and "ir_top ir' = ir_top ir" and "objects ir' \<subseteq> insert u (objects ir)"
  shows "heap_ok ir'"
  using assms unfolding heap_ok_def by (simp only: assms(3,4)) blast

text \<open>Reading the operands through a slot.\<close>

lemma operands_nth:
  "ir_insts ir i = Some inst \<Longrightarrow> k < length (i_uses inst) \<Longrightarrow> length (operands ir i) = length (i_uses inst) \<and>
   operands ir i ! k = (if i_uses inst ! k = 0 then None else map_option u_value (ir_uses ir (i_uses inst ! k)))"
  by (simp add: operands_def)

lemma length_operands: "ir_insts ir i = Some inst \<Longrightarrow> length (operands ir i) = length (i_uses inst)"
  by (simp add: operands_def)

lemma operands_set:
  assumes "ir_insts ir i = Some inst" and "k < length (i_uses inst)" and "u \<noteq> 0"
    and "\<And>j m. slot ir j m u \<Longrightarrow> j = i \<and> m = k"
    and "ir_insts ir' = (ir_insts ir)(i \<mapsto> inst\<lparr>i_uses := (i_uses inst)[k := u]\<rparr>)"
    and "ir_uses ir' = (ir_uses ir)(u \<mapsto> \<lparr>u_inst = i, u_value = v\<rparr>)"
  shows "operands ir' i = (operands ir i)[k := Some v]" and "j \<noteq> i \<Longrightarrow> operands ir' j = operands ir j"
proof -
  have other: "i_uses x ! m \<noteq> u" if "ir_insts ir j = Some x" "m < length (i_uses x)" "\<not> (j = i \<and> m = k)" for j m x
    using assms(3) assms(4) [of j m] that by (auto simp: slot_def)
  show "operands ir' i = (operands ir i)[k := Some v]"
  proof (rule nth_equalityI)
    show "length (operands ir' i) = length ((operands ir i)[k := Some v])" using assms(1,5) by (simp add: operands_def)
    fix m assume "m < length (operands ir' i)"
    then have m: "m < length (i_uses inst)" using assms(5) by (simp add: operands_def)
    show "operands ir' i ! m = (operands ir i)[k := Some v] ! m"
      using other [OF assms(1) m] assms(1-3,5,6) m by (cases "m = k") (simp_all add: operands_def)
  qed
  show "operands ir' j = operands ir j" if "j \<noteq> i"
  proof (cases "ir_insts ir j")
    case (Some x)
    have "u \<notin> set (i_uses x)" using other [OF Some] that by (metis in_set_conv_nth)
    then have "\<forall>y \<in> set (i_uses x). y \<noteq> u" by blast
    then show ?thesis using that assms(5,6) Some by (auto simp: operands_def)
  qed (use that assms(5) in \<open>simp add: operands_def\<close>)
qed

text \<open>\<open>inst_setUse\<close>: one operand becomes the value, whatever it was before.\<close>

lemma setUse_ok:
  assumes ok: "uses_ok ir L" and heap: "heap_ok ir" and i: "ir_insts ir i = Some inst"
    and n: "inst_getUses inst = (Some (i_uses inst), n)" "k < n" "n \<le> length (i_uses inst)"
    and v: "ir_values ir v \<noteq> None"
  obtains ir' L' u where "inst_setUse ir i k v = Inr ir'" and "uses_ok ir' L'" and "heap_ok ir'"
    and "operands ir' i = (operands ir i)[k := Some v]" and "\<And>j. j \<noteq> i \<Longrightarrow> operands ir' j = operands ir j"
    and "ir_insts ir' = (ir_insts ir)(i \<mapsto> inst\<lparr>i_uses := (i_uses inst)[k := u]\<rparr>)" and "u \<noteq> 0"
    and "ir_values ir' = ir_values ir" and "ir_blocks ir' = ir_blocks ir" and "ir_functions ir' = ir_functions ir"
    and "\<And>l. ir_values ir l = None \<Longrightarrow> L' l = L l" and "dom (ir_cells ir) \<subseteq> dom (ir_cells ir')"
    and "\<And>p. in_lists L' p \<Longrightarrow> in_lists L p \<or> p = u" and "4 dvd u"
proof -
  have k: "k < length (i_uses inst)" using n by simp
  have read: "read_use (Some (i_uses inst)) k = Inr (i_uses inst ! k)" using k by (simp add: read_use_def)
  obtain xs where xs: "L v = Some xs" using uses_D(2) [OF ok v] by blast
  show ?thesis
  proof (cases "i_uses inst ! k = 0")
    case True
    obtain u ir1 where e: "ir_new ir = (ir1, u)" by fastforce
    note new = new_ok [OF heap e]
    have ok1: "uses_ok ir1 L" using uses_ok_frame [OF ok new(5,7,8,10)] .
    have u: "u \<noteq> 0" "u \<in> dom (ir_cells ir1)" "4 dvd u" using new(4,12,13) by auto
    have nl: "\<not> in_lists L u" using lists_in_cells [OF uses_D(1) [OF ok]] new(6) by blast
    have i1: "ir_insts ir1 i = Some inst" "ir_values ir1 v \<noteq> None" using new(7,8) i v by simp_all
    let ?ir1 = "set_use ir1 u \<lparr>u_inst = i, u_value = v\<rparr>"
    obtain cs where cs: "on_lists (\<lambda>h. list_add h v u) ?ir1 = Inr (?ir1\<lparr>ir_cells := cs\<rparr>)"
      "uses_ok (set_inst (?ir1\<lparr>ir_cells := cs\<rparr>) i (inst\<lparr>i_uses := (i_uses inst)[k := u]\<rparr>)) (L(v \<mapsto> xs @ [u]))"
      "dom cs = dom (ir_cells ir1)"
      using attach_use [OF ok1 i1(1) k True u(1,2) nl i1(2) xs] .
    define ir' where "ir' = set_inst (?ir1\<lparr>ir_cells := cs\<rparr>) i (inst\<lparr>i_uses := (i_uses inst)[k := u]\<rparr>)"
    have run: "inst_setUse ir i k v = Inr ir'"
      using i n(1,2) read True e cs(1) by (simp add: inst_setUse_def get_inst_def ir'_def)
    have insts: "ir_insts ir' = (ir_insts ir)(i \<mapsto> inst\<lparr>i_uses := (i_uses inst)[k := u]\<rparr>)"
      and uses: "ir_uses ir' = (ir_uses ir)(u \<mapsto> \<lparr>u_inst = i, u_value = v\<rparr>)" using new(8,10) by (simp_all add: ir'_def)
    have none: "slot ir j m u \<Longrightarrow> j = i \<and> m = k" for j m using slot_in_lists [OF ok] nl by blast
    have heap': "heap_ok ir'"
    proof -
      have "objects ir' \<subseteq> insert u (objects ir1)" using i1(1) by (auto simp: ir'_def objects_def)
      moreover have "object_at (dom (ir_cells ir1)) (ir_top ir1) u" using new(3,4,13,14) by (simp add: object_at_def)
      ultimately show ?thesis using heap_ok_add [OF new(1)] cs(3) by (simp add: ir'_def)
    qed
    show ?thesis
    proof (rule that [OF run _ heap'])
      show "uses_ok ir' (L(v \<mapsto> xs @ [u]))" using cs(2) by (simp add: ir'_def)
      show "operands ir' i = (operands ir i)[k := Some v]" by (rule operands_set(1) [OF i k u(1) none insts uses])
      show "operands ir' j = operands ir j" if "j \<noteq> i" for j by (rule operands_set(2) [OF i k u(1) none insts uses that])
      show "(L(v \<mapsto> xs @ [u])) l = L l" if "ir_values ir l = None" for l using that v by auto
      show "dom (ir_cells ir) \<subseteq> dom (ir_cells ir')" using cs(3) new(4) by (simp add: ir'_def) blast
      show "in_lists L p \<or> p = u" if "in_lists (L(v \<mapsto> xs @ [u])) p" for p using in_lists_snoc [OF xs that] by blast
    qed (use insts u new in \<open>simp_all add: ir'_def\<close>)
  next
    case False
    define u where "u = i_uses inst ! k"
    have u0: "u \<noteq> 0" "i_uses inst ! k = u" using False by (simp_all add: u_def)
    have s: "slot ir i k u" using i k u0 by (simp add: slot_def)
    obtain cs w as bs where d: "on_lists (\<lambda>h. list_deattach h u) ir = Inr (ir\<lparr>ir_cells := cs\<rparr>)"
      "uses_ok (set_inst (ir\<lparr>ir_cells := cs\<rparr>) i (inst\<lparr>i_uses := (i_uses inst)[k := 0]\<rparr>)) (L(w \<mapsto> as @ bs))"
      "ir_values ir w \<noteq> None" "L w = Some (as @ u # bs)" "dom cs = dom (ir_cells ir)"
      "\<not> in_lists (L(w \<mapsto> as @ bs)) u" "u \<in> dom cs" using detach_use [OF ok i k u0(2,1)] .
    let ?inst1 = "inst\<lparr>i_uses := (i_uses inst)[k := 0]\<rparr>" and ?L1 = "L(w \<mapsto> as @ bs)"
    let ?ir1 = "set_inst (ir\<lparr>ir_cells := cs\<rparr>) i ?inst1"
    obtain xs1 where xs1: "?L1 v = Some xs1" using xs by (cases "v = w") auto
    have k1: "ir_insts ?ir1 i = Some ?inst1" "k < length (i_uses ?inst1)" "i_uses ?inst1 ! k = 0"
      "u \<in> dom (ir_cells ?ir1)" "ir_values ?ir1 v \<noteq> None" using k d(7) v by simp_all
    let ?ir2 = "set_use ?ir1 u \<lparr>u_inst = i, u_value = v\<rparr>"
    obtain ds where a: "on_lists (\<lambda>h. list_add h v u) ?ir2 = Inr (?ir2\<lparr>ir_cells := ds\<rparr>)"
      "uses_ok (set_inst (?ir2\<lparr>ir_cells := ds\<rparr>) i (?inst1\<lparr>i_uses := (i_uses ?inst1)[k := u]\<rparr>)) (?L1(v \<mapsto> xs1 @ [u]))"
      "dom ds = dom (ir_cells ?ir1)"
      using attach_use [OF d(2) k1(1-3) u0(1) k1(4) d(6) k1(5) xs1] .
    let ?ir3 = "set_use (ir\<lparr>ir_cells := cs\<rparr>) u \<lparr>u_inst = i, u_value = v\<rparr>"
    have add: "on_lists (\<lambda>h. list_add h v u) ?ir3 = Inr (?ir3\<lparr>ir_cells := ds\<rparr>)"
      using a(1) unfolding on_lists_iff by simp
    define ir' where "ir' = set_inst (?ir3\<lparr>ir_cells := ds\<rparr>) i (inst\<lparr>i_uses := (i_uses inst)[k := u]\<rparr>)"
    have ir': "ir' = set_inst (?ir2\<lparr>ir_cells := ds\<rparr>) i (?inst1\<lparr>i_uses := (i_uses ?inst1)[k := u]\<rparr>)"
      by (simp add: ir'_def set_use_def set_inst_def)
    have run: "inst_setUse ir i k v = Inr ir'"
      using i n(1,2) read u0 d(1) add by (simp add: inst_setUse_def get_inst_def ir'_def)
    have insts: "ir_insts ir' = (ir_insts ir)(i \<mapsto> inst\<lparr>i_uses := (i_uses inst)[k := u]\<rparr>)"
      and uses: "ir_uses ir' = (ir_uses ir)(u \<mapsto> \<lparr>u_inst = i, u_value = v\<rparr>)" by (simp_all add: ir'_def)
    have one: "slot ir j m u \<Longrightarrow> j = i \<and> m = k" for j m using uses_D(5) [OF ok _ s] by blast
    obtain w' us where wu: "ir_uses ir u = Some \<lparr>u_inst = i, u_value = w'\<rparr>" using uses_D(3) [OF ok s] by blast
    have "objects ir' \<subseteq> objects ir" using wu i by (auto simp: ir'_def objects_def)
    then have heap': "heap_ok ir'" using heap_ok_cong [OF heap] d(5) a(3) by (simp add: ir'_def)
    show ?thesis
    proof (rule that [OF run _ heap'])
      show "uses_ok ir' (?L1(v \<mapsto> xs1 @ [u]))" unfolding ir' by (rule a(2))
      show "operands ir' i = (operands ir i)[k := Some v]" by (rule operands_set(1) [OF i k u0(1) one insts uses])
      show "operands ir' j = operands ir j" if "j \<noteq> i" for j by (rule operands_set(2) [OF i k u0(1) one insts uses that])
      show "(?L1(v \<mapsto> xs1 @ [u])) l = L l" if "ir_values ir l = None" for l using that d(3) v by auto
      show "dom (ir_cells ir) \<subseteq> dom (ir_cells ir')" using a(3) d(5) by (simp add: ir'_def)
      show "in_lists L p \<or> p = u" if "in_lists (?L1(v \<mapsto> xs1 @ [u])) p" for p
        using in_lists_snoc [OF xs1 that] in_lists_del [of L w as u bs p] d(4) by blast
      show "4 dvd u" using heap_D(4) [OF heap objectsI(4) [OF wu]] object_atD by blast
    qed (use insts u0 in \<open>simp_all add: ir'_def\<close>)
  qed
qed

section \<open>The invariant of a context\<close>

text \<open>What the constructors make of the arrays of uses.\<close>

definition inst_shape :: "instruction_t \<Rightarrow> bool" where
  "inst_shape inst \<longleftrightarrow>
     (case i_type inst of
        INST_PHI \<Rightarrow> i_useCount inst = length (i_uses inst) \<and> (i_usesSet inst \<or> i_uses inst = [])
      | INST_FUNCTION_CALL \<Rightarrow> i_useCount inst = 0 \<and> i_uses inst = []
      | t \<Rightarrow> i_usesSet inst \<and> length (i_uses inst) = use_slots t)"

definition inst_count :: "instruction_t \<Rightarrow> nat" where
  "inst_count inst = snd (inst_getUses inst)"

lemma shape_uses:
  assumes "inst_shape inst"
  shows "0 < inst_count inst \<Longrightarrow> inst_getUses inst = (Some (i_uses inst), inst_count inst)"
    and "inst_count inst \<le> length (i_uses inst)"
  using assms by (auto simp: inst_shape_def inst_getUses_def inst_count_def split: instruction_type.splits)

lemma shape_upd [simp]: "length us = length (i_uses inst) \<Longrightarrow> inst_shape (inst\<lparr>i_uses := us\<rparr>) = inst_shape inst"
  "inst_shape (inst\<lparr>i_rId := r\<rparr>) = inst_shape inst" "inst_shape (inst\<lparr>i_op := o'\<rparr>) = inst_shape inst"
  "inst_shape (inst\<lparr>i_num := n\<rparr>) = inst_shape inst" "inst_shape (inst\<lparr>i_parent := p\<rparr>) = inst_shape inst"
  by (auto simp: inst_shape_def split: instruction_type.splits)

lemma count_upd [simp]: "inst_count (inst\<lparr>i_uses := us\<rparr>) = inst_count inst"
  "inst_count (inst\<lparr>i_rId := r\<rparr>) = inst_count inst" "inst_count (inst\<lparr>i_op := o'\<rparr>) = inst_count inst"
  "inst_count (inst\<lparr>i_num := n\<rparr>) = inst_count inst" "inst_count (inst\<lparr>i_parent := p\<rparr>) = inst_count inst"
  by (auto simp: inst_count_def inst_getUses_def split: instruction_type.splits)

definition blocks_ok :: "ir_context \<Rightarrow> (ptr \<rightharpoonup> ptr list) \<Rightarrow> bool" where
  "blocks_ok ir L \<longleftrightarrow>
     (\<forall>b f. ir_blocks ir b = Some f \<longrightarrow> (\<exists>x. ir_values ir b = Some x \<and> v_type x = V_BLOCK) \<and>
        (\<exists>cs. L (b + 1) = Some cs \<and> (\<forall>c \<in> set cs. \<exists>i inst. c = i + 1 \<and> ir_insts ir i = Some inst \<and> i_parent inst = b))) \<and>
     (\<forall>v x. ir_values ir v = Some x \<longrightarrow> v_type x = V_BLOCK \<longrightarrow> ir_blocks ir v \<noteq> None) \<and>
     (\<forall>i inst. ir_insts ir i = Some inst \<longrightarrow> inst_shape inst \<and> (\<exists>x. ir_values ir i = Some x \<and> v_type x = INST)) \<and>
     L ctx_functions \<noteq> None \<and> L ctx_specialInstructions \<noteq> None"

definition ir_ok :: "ir_context \<Rightarrow> (ptr \<rightharpoonup> ptr list) \<Rightarrow> bool" where
  "ir_ok ir L \<longleftrightarrow> heap_ok ir \<and> uses_ok ir L \<and> blocks_ok ir L"

lemma blocks_okI:
  assumes "\<And>b f. ir_blocks ir b = Some f \<Longrightarrow> \<exists>x. ir_values ir b = Some x \<and> v_type x = V_BLOCK"
    and "\<And>b f. ir_blocks ir b = Some f \<Longrightarrow> \<exists>cs. L (b + 1) = Some cs \<and>
      (\<forall>c \<in> set cs. \<exists>i inst. c = i + 1 \<and> ir_insts ir i = Some inst \<and> i_parent inst = b)"
    and "\<And>v x. ir_values ir v = Some x \<Longrightarrow> v_type x = V_BLOCK \<Longrightarrow> ir_blocks ir v \<noteq> None"
    and "\<And>i inst. ir_insts ir i = Some inst \<Longrightarrow> inst_shape inst \<and> (\<exists>x. ir_values ir i = Some x \<and> v_type x = INST)"
    and "L ctx_functions \<noteq> None" and "L ctx_specialInstructions \<noteq> None"
  shows "blocks_ok ir L"
  using assms unfolding blocks_ok_def by blast

lemma blocks_D:
  assumes "blocks_ok ir L"
  shows "ir_blocks ir b = Some f \<Longrightarrow> \<exists>x. ir_values ir b = Some x \<and> v_type x = V_BLOCK"
    and "ir_blocks ir b = Some f \<Longrightarrow> \<exists>cs. L (b + 1) = Some cs \<and>
      (\<forall>c \<in> set cs. \<exists>i inst. c = i + 1 \<and> ir_insts ir i = Some inst \<and> i_parent inst = b)"
    and "ir_values ir v = Some x \<Longrightarrow> v_type x = V_BLOCK \<Longrightarrow> ir_blocks ir v \<noteq> None"
    and "ir_insts ir i = Some inst \<Longrightarrow> inst_shape inst \<and> (\<exists>x. ir_values ir i = Some x \<and> v_type x = INST)"
    and "L ctx_functions \<noteq> None" and "L ctx_specialInstructions \<noteq> None"
  using assms unfolding blocks_ok_def by blast+

text \<open>Objects are four apart, so the list of a block and the links of instructions and uses do not meet.\<close>

lemma object_offsets:
  assumes "4 dvd (a :: nat)" and "4 dvd b"
  shows "a + 1 \<noteq> b" and "a + 2 \<noteq> b" and "a + 1 \<noteq> b + 2" and "a + 1 = b + 1 \<longleftrightarrow> a = b"
  using assms by presburger+

lemma ctx_offsets: "4 dvd (a :: nat) \<Longrightarrow> 4 \<le> a \<Longrightarrow>
    a \<noteq> ctx_functions \<and> a + 1 \<noteq> ctx_functions \<and> a \<noteq> ctx_specialInstructions \<and> a + 1 \<noteq> ctx_specialInstructions"
  by (auto simp: ctx_functions_def ctx_specialInstructions_def)

lemma no_value_off: "heap_ok ir \<Longrightarrow> v \<in> objects ir \<Longrightarrow> ir_values ir (v + 1) = None"
proof (rule ccontr)
  assume h: "heap_ok ir" "v \<in> objects ir" and "ir_values ir (v + 1) \<noteq> None"
  then have "v + 1 \<in> objects ir" by (auto simp: objects_def)
  from object_atD [OF heap_D(4) [OF h(1) this]] object_atD [OF heap_D(4) [OF h]] object_offsets(1) [of v "v + 1"]
  show False by blast
qed

lemma no_value_ctx: "heap_ok ir \<Longrightarrow> ir_values ir ctx_functions = None \<and> ir_values ir ctx_specialInstructions = None"
proof -
  assume h: "heap_ok ir"
  have "ir_values ir v = None" if "\<not> 4 dvd v" for v
    using object_atD [OF heap_D(4) [OF h objectsI(1)]] that by (cases "ir_values ir v") auto
  then show ?thesis by (simp add: ctx_functions_def ctx_specialInstructions_def)
qed

text \<open>The uses are not concerned when other lists, or other fields, change, or a value without uses is added.\<close>

lemma uses_ok_other:
  assumes ok: "uses_ok ir L" and "ir_lists (ir_cells ir') L'" and "\<And>v. ir_values ir v \<noteq> None \<Longrightarrow> L' v = L v"
    and "\<And>v. ir_values ir v \<noteq> None \<Longrightarrow> ir_values ir' v \<noteq> None"
    and "\<And>v. ir_values ir' v \<noteq> None \<Longrightarrow> ir_values ir v \<noteq> None \<or> L' v = Some []"
    and slots: "\<And>i k u. slot ir' i k u = slot ir i k u" and "ir_uses ir' = ir_uses ir"
  shows "uses_ok ir' L'"
proof (rule uses_okI)
  show "ir_lists (ir_cells ir') L'" by (rule assms(2))
  show "L' v \<noteq> None" if "ir_values ir' v \<noteq> None" for v
    using assms(5) [OF that] assms(3) [of v] uses_D(2) [OF ok, of v] by auto
  show "\<exists>v us. ir_uses ir' u = Some \<lparr>u_inst = i, u_value = v\<rparr> \<and> ir_values ir' v \<noteq> None \<and> L' v = Some us \<and> u \<in> set us"
    if "slot ir' i k u" for i k u
    using uses_D(3) [OF ok that [unfolded slots]] assms(3,4,7) by metis
  show "\<exists>i k. slot ir' i k u" if "ir_values ir' v \<noteq> None" "L' v = Some us" "u \<in> set us" for v us u
    using assms(5) [OF that(1)]
  proof
    assume "ir_values ir v \<noteq> None"
    with assms(3) uses_D(4) [OF ok this] that(2,3) show ?thesis unfolding slots by auto
  next
    assume "L' v = Some []"
    with that(2,3) show ?thesis by simp
  qed
  show "i = j \<and> k = m" if "slot ir' i k u" "slot ir' j m u" for i k j m u
    using uses_D(5) [OF ok] that unfolding slots by blast
qed

lemma slot_same_uses:
  assumes "\<And>j. map_option i_uses (ir_insts ir' j) = map_option i_uses (ir_insts ir j)"
  shows "slot ir' i k u = slot ir i k u" and "ir_uses ir' = ir_uses ir \<Longrightarrow> operands ir' i = operands ir i"
  using assms [of i] by (cases "ir_insts ir i"; cases "ir_insts ir' i"; simp add: slot_def operands_def)+

lemma blocks_ok_other:
  assumes ok: "blocks_ok ir L" and "ir_values ir' = ir_values ir" and "ir_blocks ir' = ir_blocks ir"
    and i: "\<And>i inst. ir_insts ir i = Some inst \<Longrightarrow> \<exists>inst'. ir_insts ir' i = Some inst' \<and> i_parent inst' = i_parent inst"
    and i': "\<And>i inst. ir_insts ir' i = Some inst \<Longrightarrow> inst_shape inst \<and> ir_insts ir i \<noteq> None"
    and "\<And>b f. ir_blocks ir b = Some f \<Longrightarrow> L' (b + 1) = L (b + 1)"
    and "L' ctx_functions \<noteq> None" and "L' ctx_specialInstructions \<noteq> None"
  shows "blocks_ok ir' L'"
proof (rule blocks_okI)
  show "\<exists>cs. L' (b + 1) = Some cs \<and> (\<forall>c \<in> set cs. \<exists>i inst. c = i + 1 \<and> ir_insts ir' i = Some inst \<and> i_parent inst = b)"
    if b: "ir_blocks ir' b = Some f" for b f
  proof -
    have b': "ir_blocks ir b = Some f" using b assms(3) by simp
    obtain cs where cs: "L (b + 1) = Some cs"
      "\<forall>c \<in> set cs. \<exists>i inst. c = i + 1 \<and> ir_insts ir i = Some inst \<and> i_parent inst = b"
      using blocks_D(2) [OF ok b'] by blast
    have "\<forall>c \<in> set cs. \<exists>i inst. c = i + 1 \<and> ir_insts ir' i = Some inst \<and> i_parent inst = b"
      using cs(2) i by metis
    then show ?thesis using cs(1) assms(6) [OF b'] by simp
  qed
  show "inst_shape inst \<and> (\<exists>x. ir_values ir' i = Some x \<and> v_type x = INST)" if "ir_insts ir' i = Some inst" for i inst
    using i' [OF that] blocks_D(4) [OF ok] assms(2) by auto
  show "\<exists>x. ir_values ir' b = Some x \<and> v_type x = V_BLOCK" if "ir_blocks ir' b = Some f" for b f
    using blocks_D(1) [OF ok] that assms(2,3) by simp
  show "ir_blocks ir' v \<noteq> None" if "ir_values ir' v = Some x" "v_type x = V_BLOCK" for v x
    using blocks_D(3) [OF ok, of v x] that assms(2,3) by simp
qed (use assms(7,8) in auto)

lemma ir_ok_setUse:
  assumes ok: "ir_ok ir L" and i: "ir_insts ir i = Some inst" "k < inst_count inst" and v: "ir_values ir v \<noteq> None"
  obtains ir' L' u where "inst_setUse ir i k v = Inr ir'" and "ir_ok ir' L'" and "u \<noteq> 0"
    and "operands ir' i = (operands ir i)[k := Some v]" and "\<And>j. j \<noteq> i \<Longrightarrow> operands ir' j = operands ir j"
    and "ir_insts ir' = (ir_insts ir)(i \<mapsto> inst\<lparr>i_uses := (i_uses inst)[k := u]\<rparr>)"
    and "ir_values ir' = ir_values ir" and "ir_blocks ir' = ir_blocks ir" and "ir_functions ir' = ir_functions ir"
    and "\<And>l. ir_values ir l = None \<Longrightarrow> L' l = L l" and "\<And>p. in_lists L' p \<Longrightarrow> in_lists L p \<or> p = u" and "4 dvd u"
proof -
  have h: "heap_ok ir" and u: "uses_ok ir L" and b: "blocks_ok ir L" using ok by (simp_all add: ir_ok_def)
  have shape: "inst_shape inst" using blocks_D(4) [OF b i(1)] by blast
  have n: "inst_getUses inst = (Some (i_uses inst), inst_count inst)" using shape_uses(1) [OF shape] i(2) by simp
  obtain ir' L' u where s: "inst_setUse ir i k v = Inr ir'" "uses_ok ir' L'" "heap_ok ir'"
    "operands ir' i = (operands ir i)[k := Some v]" "\<And>j. j \<noteq> i \<Longrightarrow> operands ir' j = operands ir j"
    "ir_insts ir' = (ir_insts ir)(i \<mapsto> inst\<lparr>i_uses := (i_uses inst)[k := u]\<rparr>)" "u \<noteq> 0"
    "ir_values ir' = ir_values ir" "ir_blocks ir' = ir_blocks ir" "ir_functions ir' = ir_functions ir"
    "\<And>l. ir_values ir l = None \<Longrightarrow> L' l = L l" "dom (ir_cells ir) \<subseteq> dom (ir_cells ir')"
    "\<And>p. in_lists L' p \<Longrightarrow> in_lists L p \<or> p = u" "4 dvd u"
    by (rule setUse_ok [OF u h i(1) n i(2) shape_uses(2) [OF shape] v]) (rule that; assumption)
  have "blocks_ok ir' L'"
  proof (rule blocks_ok_other [OF b s(8,9)])
    show "L' (a + 1) = L (a + 1)" if "ir_blocks ir a = Some f" for a f
      using s(11) no_value_off [OF h objectsI(3) [OF that]] by simp
  qed (use s(6,11) i(1) shape blocks_D(4-6) [OF b] no_value_ctx [OF h] in \<open>auto split: if_splits\<close>)
  with s show ?thesis by (intro that [of ir' L' u]) (auto simp: ir_ok_def)
qed

section \<open>The constructors\<close>

lemma fresh_facts:
  assumes ok: "ir_ok ir L" and e: "ir_new ir = (ir1, p)"
  shows "ir_values ir p = None" and "ir_insts ir p = None" and "ir_blocks ir p = None" and "ir_uses ir p = None"
    and "ir_functions ir p = None" and "\<not> in_lists L p" and "\<not> in_lists L (p + 1)" and "\<not> in_lists L (p + 2)"
    and "ir_blocks ir b = Some f \<Longrightarrow> b + 1 \<noteq> p" and "L p = None" and "L (p + 1) = None"
proof -
  have h: "heap_ok ir" and u: "uses_ok ir L" using ok by (simp_all add: ir_ok_def)
  note new = new_ok [OF h e]
  have no: "p \<notin> objects ir" using object_atD [OF heap_D(4) [OF h]] new(2) by blast
  then show "ir_values ir p = None" "ir_insts ir p = None" "ir_blocks ir p = None" "ir_uses ir p = None" "ir_functions ir p = None"
    by (auto simp: objects_def)
  show l: "\<not> in_lists L p" "\<not> in_lists L (p + 1)" "\<not> in_lists L (p + 2)"
    using lists_in_cells [OF uses_D(1) [OF u]] new(6) by blast+
  show "b + 1 \<noteq> p" if "ir_blocks ir b = Some f"
    using object_atD [OF heap_D(4) [OF h objectsI(3) [OF that]]] object_offsets(1) new(13) by blast
  show "L p = None" "L (p + 1) = None" by (rule not_in_lists [OF l(1)], rule not_in_lists [OF l(2)])
qed

text \<open>A fresh object becomes a value without uses.\<close>

lemma value_new_ok:
  assumes ok: "ir_ok ir L" and e: "ir_new ir = (ir1, p)"
    and ir2: "ir_cells ir2 = ir_cells ir1" "ir_top ir2 = ir_top ir1" "ir_values ir2 = ir_values ir" "ir_uses ir2 = ir_uses ir"
      "objects ir2 \<subseteq> insert p (objects ir)" "\<And>i k u. slot ir2 i k u = slot ir i k u"
  obtains cs where "value_init ir2 p t dt nm =
      Inr (ir2\<lparr>ir_values := (ir_values ir)(p \<mapsto> \<lparr>v_dataType = dt, v_type = t, v_name = nm\<rparr>), ir_cells := cs\<rparr>)"
    and "heap_ok (ir2\<lparr>ir_values := (ir_values ir)(p \<mapsto> \<lparr>v_dataType = dt, v_type = t, v_name = nm\<rparr>), ir_cells := cs\<rparr>)"
    and "uses_ok (ir2\<lparr>ir_values := (ir_values ir)(p \<mapsto> \<lparr>v_dataType = dt, v_type = t, v_name = nm\<rparr>), ir_cells := cs\<rparr>) (L(p \<mapsto> []))"
    and "dom cs = dom (ir_cells ir1)"
proof -
  have h: "heap_ok ir" and u: "uses_ok ir L" using ok by (simp_all add: ir_ok_def)
  note new = new_ok [OF h e] and fresh = fresh_facts [OF ok e]
  let ?v = "\<lparr>v_dataType = dt, v_type = t, v_name = nm\<rparr>"
  let ?ir3 = "ir2\<lparr>ir_values := (ir_values ir)(p \<mapsto> ?v)\<rparr>"
  have "ir_lists (ir_cells ?ir3) L" using lists_frame [OF uses_D(1) [OF u]] new(5) ir2(1) by simp
  moreover have "p \<in> dom (ir_cells ?ir3)" using new(4) ir2(1) by simp
  ultimately obtain cs where cs: "on_lists (\<lambda>h. LIST_INIT h p) ?ir3 = Inr (?ir3\<lparr>ir_cells := cs\<rparr>)" "ir_lists cs (L(p \<mapsto> []))"
    "dom cs = dom (ir_cells ir1)" using lists_init [of ?ir3 L p] fresh(6) ir2(1) by auto
  let ?ir = "?ir3\<lparr>ir_cells := cs\<rparr>"
  have "uses_ok ?ir (L(p \<mapsto> []))"
  proof (rule uses_ok_other [OF u])
    show "slot ?ir i k x = slot ir i k x" for i k x using ir2(6) [of i k x] by (simp add: slot_def)
  qed (use cs(2) fresh(1) ir2(4) in auto)
  moreover have "objects ?ir \<subseteq> insert p (objects ir1)"
    using ir2(3,5) new(7-11) by (auto simp: objects_def)
  then have "heap_ok ?ir"
    by (intro heap_ok_add [OF new(1)]) (use new(2-4,13,14) cs(3) ir2 in \<open>auto simp: object_at_def\<close>)
  moreover have "value_init ir2 p t dt nm = Inr ?ir" using cs(1) ir2(3) by (simp add: value_init_def)
  ultimately show ?thesis using that cs(3) by simp
qed

lemma inst_new_ok:
  assumes ok: "ir_ok ir L"
  obtains ir' i where "inst_new ir t dt = Inr (ir', i)" and "ir_ok ir' (L(i \<mapsto> []))"
    and "ir_insts ir' = (ir_insts ir)(i \<mapsto> \<lparr>i_type = t, i_parent = 0, i_num = 0, i_rId = 0, i_op = BO_ADD,
                  i_uses = replicate (use_slots t) 0, i_useCount = 0,
                  i_usesSet = (t \<noteq> INST_PHI \<and> t \<noteq> INST_FUNCTION_CALL), i_useReserve = 0\<rparr>)"
    and "ir_insts ir i = None" and "ir_values ir i = None"
    and "ir_values ir' = (ir_values ir)(i \<mapsto> \<lparr>v_dataType = dt, v_type = INST, v_name = Some \<lparr>rmem = [], rsize = 0\<rparr>\<rparr>)"
    and "ir_blocks ir' = ir_blocks ir" and "ir_functions ir' = ir_functions ir" and "ir_uses ir' = ir_uses ir"
    and "\<not> in_lists (L(i \<mapsto> [])) (i + 1)" and "\<not> in_lists (L(i \<mapsto> [])) (i + 2)" and "4 dvd i"
proof -
  have h: "heap_ok ir" and u: "uses_ok ir L" and b: "blocks_ok ir L" using ok by (simp_all add: ir_ok_def)
  obtain ir1 p where e: "ir_new ir = (ir1, p)" by fastforce
  note new = new_ok [OF h e] and fresh = fresh_facts [OF ok e]
  let ?inst = "\<lparr>i_type = t, i_parent = 0, i_num = 0, i_rId = 0, i_op = BO_ADD,
                  i_uses = replicate (use_slots t) 0, i_useCount = 0,
                  i_usesSet = (t \<noteq> INST_PHI \<and> t \<noteq> INST_FUNCTION_CALL), i_useReserve = 0\<rparr>"
  let ?ir2 = "set_inst ir1 p ?inst" and ?v = "\<lparr>v_dataType = dt, v_type = INST, v_name = Some \<lparr>rmem = [], rsize = 0\<rparr>\<rparr>"
  obtain cs where cs: "value_init ?ir2 p INST dt (Some \<lparr>rmem = [], rsize = 0\<rparr>) = Inr (?ir2\<lparr>ir_values := (ir_values ir)(p \<mapsto> ?v), ir_cells := cs\<rparr>)"
    "heap_ok (?ir2\<lparr>ir_values := (ir_values ir)(p \<mapsto> ?v), ir_cells := cs\<rparr>)"
    "uses_ok (?ir2\<lparr>ir_values := (ir_values ir)(p \<mapsto> ?v), ir_cells := cs\<rparr>) (L(p \<mapsto> []))" "dom cs = dom (ir_cells ir1)"
  proof (rule value_new_ok [OF ok e, of ?ir2 INST dt "Some \<lparr>rmem = [], rsize = 0\<rparr>"])
    show "objects ?ir2 \<subseteq> insert p (objects ir)" using new(7-11) by (auto simp: objects_def)
    show "slot ?ir2 i k u = slot ir i k u" for i k u using fresh(2) new(8) by (auto simp: slot_def)
  qed (use new in auto)
  let ?ir' = "?ir2\<lparr>ir_values := (ir_values ir)(p \<mapsto> ?v), ir_cells := cs\<rparr>"
  have "blocks_ok ?ir' (L(p \<mapsto> []))"
  proof (rule blocks_okI)
    fix c f assume c: "ir_blocks ?ir' c = Some f"
    then have c': "ir_blocks ir c = Some f" using new(9) by simp
    have "c \<noteq> p" using c' fresh(3) by auto
    then show "\<exists>x. ir_values ?ir' c = Some x \<and> v_type x = V_BLOCK" using blocks_D(1) [OF b c'] by simp
    obtain xs where "L (c + 1) = Some xs" "\<forall>d \<in> set xs. \<exists>i inst. d = i + 1 \<and> ir_insts ir i = Some inst \<and> i_parent inst = c"
      using blocks_D(2) [OF b c'] by blast
    moreover from this have "\<forall>d \<in> set xs. \<exists>i inst. d = i + 1 \<and> ir_insts ?ir' i = Some inst \<and> i_parent inst = c"
      using fresh(2) new(8) by (auto 0 3)
    ultimately show "\<exists>xs. (L(p \<mapsto> [])) (c + 1) = Some xs \<and>
        (\<forall>d \<in> set xs. \<exists>i inst. d = i + 1 \<and> ir_insts ?ir' i = Some inst \<and> i_parent inst = c)"
      using fresh(9) [OF c'] by simp
  next
    show "ir_blocks ?ir' v \<noteq> None" if "ir_values ?ir' v = Some x" "v_type x = V_BLOCK" for v x
      using that blocks_D(3) [OF b, of v x] new(9) by (auto split: if_splits)
    show "inst_shape inst \<and> (\<exists>x. ir_values ?ir' i = Some x \<and> v_type x = INST)" if "ir_insts ?ir' i = Some inst" for i inst
      using that blocks_D(4) [OF b, of i inst] new(8) fresh(2)
      by (cases t) (auto simp: inst_shape_def split: if_splits)
  qed (use blocks_D(5,6) [OF b] in auto)
  then have "ir_ok ?ir' (L(p \<mapsto> []))" using cs by (simp add: ir_ok_def)
  moreover have "inst_new ir t dt = Inr (?ir', p)" using e cs(1) by (simp add: inst_new_def)
  moreover have "\<not> in_lists (L(p \<mapsto> [])) (p + 1)" "\<not> in_lists (L(p \<mapsto> [])) (p + 2)"
    using fresh(7,8) by (auto simp: in_lists_def split: if_splits)
  ultimately show ?thesis using that [of ?ir' p] new(7-11,13) fresh(1,2) by (simp add: set_inst_def)
qed

lemma constant_ok:
  assumes ok: "ir_ok ir L"
  obtains ir' v where "ir_constant_value ir n = Inr (ir', v)" and "ir_ok ir' (L(v \<mapsto> []))" and "ir_values ir v = None"
    and "ir_values ir' = (ir_values ir)(v \<mapsto> \<lparr>v_dataType = INT64, v_type = V_CONST, v_name = None\<rparr>)"
    and "ir_insts ir' = ir_insts ir" and "ir_blocks ir' = ir_blocks ir" and "ir_uses ir' = ir_uses ir"
    and "ir_functions ir' = ir_functions ir" and "4 dvd v" and "ir_consts ir' v = Some n"
proof -
  have h: "heap_ok ir" and b: "blocks_ok ir L" using ok by (simp_all add: ir_ok_def)
  obtain ir1 p where e: "ir_new ir = (ir1, p)" by fastforce
  note new = new_ok [OF h e] and fresh = fresh_facts [OF ok e]
  let ?v = "\<lparr>v_dataType = INT64, v_type = V_CONST, v_name = None\<rparr>"
  obtain cs where cs: "value_init ir1 p V_CONST INT64 None = Inr (ir1\<lparr>ir_values := (ir_values ir)(p \<mapsto> ?v), ir_cells := cs\<rparr>)"
    "heap_ok (ir1\<lparr>ir_values := (ir_values ir)(p \<mapsto> ?v), ir_cells := cs\<rparr>)"
    "uses_ok (ir1\<lparr>ir_values := (ir_values ir)(p \<mapsto> ?v), ir_cells := cs\<rparr>) (L(p \<mapsto> []))" "dom cs = dom (ir_cells ir1)"
  proof (rule value_new_ok [OF ok e, of ir1 V_CONST INT64 None])
    show "objects ir1 \<subseteq> insert p (objects ir)" using new(7-11) by (auto simp: objects_def)
    show "slot ir1 i k u = slot ir i k u" for i k u using new(8) by (simp add: slot_def)
  qed (use new in auto)
  let ?ir' = "ir1\<lparr>ir_values := (ir_values ir)(p \<mapsto> ?v), ir_cells := cs, ir_consts := (ir_consts ir1)(p \<mapsto> n)\<rparr>"
  have "blocks_ok ?ir' (L(p \<mapsto> []))"
  proof (rule blocks_okI)
    fix c f assume "ir_blocks ?ir' c = Some f"
    then have c': "ir_blocks ir c = Some f" using new(9) by simp
    have "c \<noteq> p" using c' fresh(3) by auto
    then show "\<exists>x. ir_values ?ir' c = Some x \<and> v_type x = V_BLOCK" using blocks_D(1) [OF b c'] by simp
    show "\<exists>xs. (L(p \<mapsto> [])) (c + 1) = Some xs \<and>
        (\<forall>d \<in> set xs. \<exists>i inst. d = i + 1 \<and> ir_insts ?ir' i = Some inst \<and> i_parent inst = c)"
      using blocks_D(2) [OF b c'] fresh(9) [OF c'] new(8) by simp
  next
    show "ir_blocks ?ir' v \<noteq> None" if "ir_values ?ir' v = Some x" "v_type x = V_BLOCK" for v x
      using that blocks_D(3) [OF b, of v x] new(9) by (auto split: if_splits)
    show "inst_shape inst \<and> (\<exists>x. ir_values ?ir' i = Some x \<and> v_type x = INST)" if "ir_insts ?ir' i = Some inst" for i inst
      using that blocks_D(4) [OF b, of i inst] new(8) fresh(1) by auto
  qed (use blocks_D(5,6) [OF b] in auto)
  moreover have "heap_ok ?ir'" using cs(2) by (simp add: heap_ok_def objects_def)
  moreover have "uses_ok ?ir' (L(p \<mapsto> []))" by (rule uses_ok_frame [OF cs(3)]) simp_all
  ultimately have "ir_ok ?ir' (L(p \<mapsto> []))" by (simp add: ir_ok_def)
  moreover have "ir_constant_value ir n = Inr (?ir', p)" using e cs(1) by (simp add: ir_constant_value_def)
  ultimately show ?thesis using that [of ?ir' p] new(7-11,13) fresh(1) by simp
qed

lemma block_new_ok:
  assumes ok: "ir_ok ir L"
  obtains ir' b where "block_new ir fn = Inr (ir', None)" and "ir_ok ir' (L(b \<mapsto> [], b + 1 \<mapsto> []))"
    and "b = ir_top ir" and "ir_blocks ir b = None" and "ir_values ir b = None"
    and "ir_values ir' = (ir_values ir)(b \<mapsto> \<lparr>v_dataType = DT_BLOCK, v_type = V_BLOCK, v_name = None\<rparr>)"
    and "ir_insts ir' = ir_insts ir" and "ir_blocks ir' = (ir_blocks ir)(b \<mapsto> fn)" and "ir_uses ir' = ir_uses ir"
    and "ir_functions ir' = ir_functions ir" and "4 dvd b"
proof -
  have h: "heap_ok ir" and b: "blocks_ok ir L" using ok by (simp_all add: ir_ok_def)
  obtain ir1 p where e: "ir_new ir = (ir1, p)" by fastforce
  note new = new_ok [OF h e] and fresh = fresh_facts [OF ok e]
  let ?v = "\<lparr>v_dataType = DT_BLOCK, v_type = V_BLOCK, v_name = None\<rparr>"
  let ?ir2 = "ir1\<lparr>ir_blocks := (ir_blocks ir1)(p \<mapsto> fn)\<rparr>"
  obtain cs where cs: "value_init ?ir2 p V_BLOCK DT_BLOCK None = Inr (?ir2\<lparr>ir_values := (ir_values ir)(p \<mapsto> ?v), ir_cells := cs\<rparr>)"
    "heap_ok (?ir2\<lparr>ir_values := (ir_values ir)(p \<mapsto> ?v), ir_cells := cs\<rparr>)"
    "uses_ok (?ir2\<lparr>ir_values := (ir_values ir)(p \<mapsto> ?v), ir_cells := cs\<rparr>) (L(p \<mapsto> []))" "dom cs = dom (ir_cells ir1)"
  proof (rule value_new_ok [OF ok e, of ?ir2 V_BLOCK DT_BLOCK None])
    show "objects ?ir2 \<subseteq> insert p (objects ir)" using new(7-11) by (auto simp: objects_def)
    show "slot ?ir2 i k u = slot ir i k u" for i k u using new(8) by (simp add: slot_def)
  qed (use new in auto)
  let ?ir3 = "?ir2\<lparr>ir_values := (ir_values ir)(p \<mapsto> ?v), ir_cells := cs\<rparr>"
  have "p + 1 \<in> dom (ir_cells ?ir3)" using cs(4) new(4) by simp
  moreover have "\<not> in_lists (L(p \<mapsto> [])) (p + 1)" using fresh(7) by (auto simp: in_lists_def split: if_splits)
  ultimately obtain ds where ds: "on_lists (\<lambda>h. LIST_INIT h (p + 1)) ?ir3 = Inr (?ir3\<lparr>ir_cells := ds\<rparr>)"
    "ir_lists ds (L(p \<mapsto> [], p + 1 \<mapsto> []))" "dom ds = dom (ir_cells ?ir3)"
    using lists_init [of ?ir3 "L(p \<mapsto> [])" "p + 1"] uses_D(1) [OF cs(3)] by auto
  let ?ir' = "?ir3\<lparr>ir_cells := ds\<rparr>"
  have np: "ir_values ?ir3 (p + 1) = None"
    using no_value_off [OF cs(2), of p] by (simp add: objects_def)
  have "blocks_ok ?ir' (L(p \<mapsto> [], p + 1 \<mapsto> []))"
  proof (rule blocks_okI)
    fix c f assume c: "ir_blocks ?ir' c = Some f"
    show "\<exists>x. ir_values ?ir' c = Some x \<and> v_type x = V_BLOCK"
      using c blocks_D(1) [OF b, of c f] new(9) by (auto split: if_splits)
    show "\<exists>xs. (L(p \<mapsto> [], p + 1 \<mapsto> [])) (c + 1) = Some xs \<and>
        (\<forall>d \<in> set xs. \<exists>i inst. d = i + 1 \<and> ir_insts ?ir' i = Some inst \<and> i_parent inst = c)"
    proof (cases "c = p")
      case False
      then have c': "ir_blocks ir c = Some f" using c new(9) by simp
      show ?thesis using blocks_D(2) [OF b c'] fresh(9) [OF c'] new(8) False by simp
    qed simp
  next
    show "ir_blocks ?ir' v \<noteq> None" if "ir_values ?ir' v = Some x" "v_type x = V_BLOCK" for v x
      using that blocks_D(3) [OF b, of v x] new(9) by (auto split: if_splits)
    show "inst_shape inst \<and> (\<exists>x. ir_values ?ir' i = Some x \<and> v_type x = INST)" if "ir_insts ?ir' i = Some inst" for i inst
      using that blocks_D(4) [OF b, of i inst] new(8) fresh(1) by auto
  qed (use blocks_D(5,6) [OF b] in auto)
  moreover have "heap_ok ?ir'" using cs(2) ds(3) by (simp add: heap_ok_def objects_def)
  moreover have "uses_ok ?ir' (L(p \<mapsto> [], p + 1 \<mapsto> []))"
    by (rule uses_ok_other [OF cs(3)]) (use ds(2) np in \<open>auto simp: slot_def\<close>)
  ultimately have "ir_ok ?ir' (L(p \<mapsto> [], p + 1 \<mapsto> []))" by (simp add: ir_ok_def)
  moreover have "block_new ir fn = Inr (?ir', None)" using e cs(1) ds(1) by (simp add: block_new_def)
  ultimately show ?thesis using that [of ?ir' p] new(2,7-11,13) fresh(1,3) by simp
qed

section \<open>Fields and lists of instructions\<close>

lemma ir_ok_D:
  assumes "ir_ok ir L"
  shows "heap_ok ir" and "uses_ok ir L" and "blocks_ok ir L" and "ir_lists (ir_cells ir) L"
  using assms uses_D(1) by (auto simp: ir_ok_def)

text \<open>
  Other values for fields of an instruction, and room for more operands; the parent may change while it
  is in no block.
\<close>

lemma ir_ok_extend:
  assumes ok: "ir_ok ir L" and i: "ir_insts ir i = Some inst" and x: "i_uses x = i_uses inst @ replicate n 0" "inst_shape x"
    and p: "i_parent x = i_parent inst \<or> \<not> in_lists L (i + 1)"
  shows "ir_ok (set_inst ir i x) L"
proof -
  note h = ir_ok_D(1) [OF ok] and u = ir_ok_D(2) [OF ok] and b = ir_ok_D(3) [OF ok]
  have "uses_ok (set_inst ir i x) L"
    by (rule uses_ok_other [OF u]) (use uses_D(1) [OF u] i x(1) in \<open>auto simp: slot_def nth_append\<close>)
  moreover have "blocks_ok (set_inst ir i x) L"
  proof (rule blocks_okI)
    fix c f assume "ir_blocks (set_inst ir i x) c = Some f"
    then have c: "ir_blocks ir c = Some f" by simp
    obtain cs where cs: "L (c + 1) = Some cs" "\<forall>d \<in> set cs. \<exists>i inst. d = i + 1 \<and> ir_insts ir i = Some inst \<and> i_parent inst = c"
      using blocks_D(2) [OF b c] by blast
    have "\<exists>j inst. d = j + 1 \<and> ir_insts (set_inst ir i x) j = Some inst \<and> i_parent inst = c" if d: "d \<in> set cs" for d
    proof -
      obtain j y where j: "d = j + 1" "ir_insts ir j = Some y" "i_parent y = c" using cs(2) d by blast
      have "in_lists L d" using in_listsI [of L "c + 1" cs d] cs(1) d by simp
      then have "j = i \<Longrightarrow> i_parent x = c" using p i j by auto
      then show ?thesis using j by (intro exI [of _ j]) auto
    qed
    with cs(1) show "\<exists>cs. L (c + 1) = Some cs \<and>
        (\<forall>d \<in> set cs. \<exists>j inst. d = j + 1 \<and> ir_insts (set_inst ir i x) j = Some inst \<and> i_parent inst = c)" by blast
  qed (use blocks_D [OF b] i x(2) in \<open>auto split: if_splits\<close>)
  moreover have "heap_ok (set_inst ir i x)"
    by (rule heap_ok_cong [OF h]) (use i in \<open>auto simp: objects_def\<close>)
  ultimately show ?thesis by (simp add: ir_ok_def)
qed

lemma ir_ok_update:
  assumes "ir_ok ir L" and "ir_insts ir i = Some inst" and "i_uses x = i_uses inst" "inst_shape x"
    and "i_parent x = i_parent inst \<or> \<not> in_lists L (i + 1)"
  shows "ir_ok (set_inst ir i x) L"
  using ir_ok_extend [of ir L i inst x 0] assms by simp

text \<open>Another order of the instructions of a block, or other instructions that name it as their parent.\<close>

lemma ir_ok_relink:
  assumes ok: "ir_ok ir L" and c: "ir_blocks ir c = Some f" "L (c + 1) = Some xs"
    and h': "ir_lists h' (L(c + 1 \<mapsto> ys))" "dom h' = dom (ir_cells ir)"
    and ys: "\<forall>d \<in> set ys. d \<in> set xs \<or> (\<exists>i inst. d = i + 1 \<and> ir_insts ir i = Some inst \<and> i_parent inst = c)"
  shows "ir_ok (ir\<lparr>ir_cells := h'\<rparr>) (L(c + 1 \<mapsto> ys))"
proof -
  note h = ir_ok_D(1) [OF ok] and u = ir_ok_D(2) [OF ok] and b = ir_ok_D(3) [OF ok]
  let ?ir = "ir\<lparr>ir_cells := h'\<rparr>"
  have nv: "ir_values ir (c + 1) = None" using no_value_off [OF h objectsI(3) [OF c(1)]] .
  have "uses_ok ?ir (L(c + 1 \<mapsto> ys))"
    by (rule uses_ok_other [OF u]) (use h'(1) nv in \<open>auto simp: slot_def\<close>)
  moreover have "blocks_ok ?ir (L(c + 1 \<mapsto> ys))"
  proof (rule blocks_okI)
    fix a g assume "ir_blocks ?ir a = Some g"
    then have a: "ir_blocks ir a = Some g" by simp
    show "\<exists>cs. (L(c + 1 \<mapsto> ys)) (a + 1) = Some cs \<and>
        (\<forall>d \<in> set cs. \<exists>i inst. d = i + 1 \<and> ir_insts ?ir i = Some inst \<and> i_parent inst = a)"
      using blocks_D(2) [OF b a] blocks_D(2) [OF b c(1)] c(2) ys by (cases "a = c") auto
  qed (use blocks_D [OF b] in auto)
  moreover have "heap_ok ?ir" by (rule heap_ok_cong [OF h]) (use h'(2) in \<open>auto simp: objects_def\<close>)
  ultimately show ?thesis by (simp add: ir_ok_def)
qed

text \<open>A list that is not the use list of a value and not a block: those of the context.\<close>

lemma ir_ok_ctx_list:
  assumes ok: "ir_ok ir L" and l: "ir_values ir l = None" "\<And>b f. ir_blocks ir b = Some f \<Longrightarrow> l \<noteq> b + 1"
    and h': "ir_lists h' (L(l \<mapsto> ys))" "dom h' = dom (ir_cells ir)"
  shows "ir_ok (ir\<lparr>ir_cells := h'\<rparr>) (L(l \<mapsto> ys))"
proof -
  note h = ir_ok_D(1) [OF ok] and u = ir_ok_D(2) [OF ok] and b = ir_ok_D(3) [OF ok]
  let ?ir = "ir\<lparr>ir_cells := h'\<rparr>"
  have "uses_ok ?ir (L(l \<mapsto> ys))"
    by (rule uses_ok_other [OF u]) (use h'(1) l(1) in \<open>auto simp: slot_def\<close>)
  moreover have "blocks_ok ?ir (L(l \<mapsto> ys))"
    by (rule blocks_ok_other [OF b]) (use l(2) blocks_D(4-6) [OF b] in auto)
  moreover have "heap_ok ?ir" by (rule heap_ok_cong [OF h]) (use h'(2) in \<open>auto simp: objects_def\<close>)
  ultimately show ?thesis by (simp add: ir_ok_def)
qed

lemma ctx_list_off:
  assumes "ir_ok ir L" and "l = ctx_functions \<or> l = ctx_specialInstructions"
  shows "ir_values ir l = None" and "ir_blocks ir b = Some f \<Longrightarrow> l \<noteq> b + 1"
proof -
  note h = ir_ok_D(1) [OF assms(1)]
  show "ir_values ir l = None" using no_value_ctx [OF h] assms(2) by auto
  show "l \<noteq> b + 1" if "ir_blocks ir b = Some f"
    using object_atD [OF heap_D(4) [OF h objectsI(3) [OF that]]] assms(2)
    by (auto simp: ctx_functions_def ctx_specialInstructions_def)
qed

lemma inst_cell: "ir_ok ir L \<Longrightarrow> ir_insts ir i = Some inst \<Longrightarrow> i + 1 \<in> dom (ir_cells ir) \<and> i + 2 \<in> dom (ir_cells ir) \<and> 4 dvd i"
  using object_atD [OF heap_D(4) [OF ir_ok_D(1) objectsI(2)]] by blast

lemma block_list:
  assumes "ir_ok ir L" and "ir_blocks ir b = Some f"
  obtains cs where "L (b + 1) = Some cs" and "\<forall>c \<in> set cs. \<exists>i inst. c = i + 1 \<and> ir_insts ir i = Some inst \<and> i_parent inst = b"
  using blocks_D(2) [OF ir_ok_D(3) [OF assms(1)] assms(2)] by blast

lemma block_insert_ok:
  assumes ok: "ir_ok ir L" and b: "ir_blocks ir b = Some f" "L (b + 1) = Some cs" and i: "ir_insts ir i = Some inst"
    and d: "\<not> in_lists L (i + 1)"
  obtains h where "block_insert ir b i = Inr ((set_inst ir i (inst\<lparr>i_parent := b\<rparr>))\<lparr>ir_cells := h\<rparr>)"
    and "ir_ok ((set_inst ir i (inst\<lparr>i_parent := b\<rparr>))\<lparr>ir_cells := h\<rparr>) (L(b + 1 \<mapsto> cs @ [i + 1]))"
proof -
  let ?ir = "set_inst ir i (inst\<lparr>i_parent := b\<rparr>)"
  have ok1: "ir_ok ?ir L"
    by (rule ir_ok_update [OF ok i]) (use d blocks_D(4) [OF ir_ok_D(3) [OF ok] i] in auto)
  have c: "i + 1 \<in> dom (ir_cells ?ir)" using inst_cell [OF ok i] by simp
  obtain h where h: "on_lists (\<lambda>h. list_add h (b + 1) (i + 1)) ?ir = Inr (?ir\<lparr>ir_cells := h\<rparr>)"
    "ir_lists h (L(b + 1 \<mapsto> cs @ [i + 1]))" "dom h = dom (ir_cells ?ir)"
    using lists_add [OF ir_ok_D(4) [OF ok1] b(2) c d] .
  have "ir_ok (?ir\<lparr>ir_cells := h\<rparr>) (L(b + 1 \<mapsto> cs @ [i + 1]))"
    by (rule ir_ok_relink [OF ok1 _ b(2) h(2,3)]) (use b(1) in auto)
  moreover have "block_insert ir b i = Inr (?ir\<lparr>ir_cells := h\<rparr>)" using i h(1) by (simp add: block_insert_def get_inst_def)
  ultimately show ?thesis using that by blast
qed

lemma block_insertTop_ok:
  assumes ok: "ir_ok ir L" and b: "ir_blocks ir b = Some f" "L (b + 1) = Some cs" and i: "ir_insts ir i = Some inst"
    and d: "\<not> in_lists L (i + 1)"
  obtains h where "block_insertTop ir b i = Inr ((set_inst ir i (inst\<lparr>i_parent := b\<rparr>))\<lparr>ir_cells := h\<rparr>)"
    and "ir_ok ((set_inst ir i (inst\<lparr>i_parent := b\<rparr>))\<lparr>ir_cells := h\<rparr>) (L(b + 1 \<mapsto> (i + 1) # cs))"
proof -
  let ?ir = "set_inst ir i (inst\<lparr>i_parent := b\<rparr>)"
  have ok1: "ir_ok ?ir L"
    by (rule ir_ok_update [OF ok i]) (use d blocks_D(4) [OF ir_ok_D(3) [OF ok] i] in auto)
  have c: "i + 1 \<in> dom (ir_cells ?ir)" "L (b + 1) = Some ([] @ cs)" using inst_cell [OF ok i] b(2) by simp_all
  obtain h where h: "on_lists (\<lambda>h. list_addAfter h (last [b + 1]) (i + 1)) ?ir = Inr (?ir\<lparr>ir_cells := h\<rparr>)"
    "ir_lists h (L(b + 1 \<mapsto> [] @ (i + 1) # cs))" "dom h = dom (ir_cells ?ir)"
    using lists_addAfter [OF ir_ok_D(4) [OF ok1] c(2,1) d] .
  have "ir_ok (?ir\<lparr>ir_cells := h\<rparr>) (L(b + 1 \<mapsto> [] @ (i + 1) # cs))"
    by (rule ir_ok_relink [OF ok1 _ b(2) h(2,3)]) (use b(1) in auto)
  moreover have "on_lists (\<lambda>h. list_addAfter h (b + 1) (i + 1)) ir = Inr (ir\<lparr>ir_cells := h\<rparr>)"
    using h(1) unfolding on_lists_iff by simp
  then have "block_insertTop ir b i = Inr (?ir\<lparr>ir_cells := h\<rparr>)"
    using i by (simp add: block_insertTop_def get_inst_def set_inst_def)
  ultimately show ?thesis using that by simp
qed

lemma inst_insertAfter_ok:
  assumes ok: "ir_ok ir L" and b: "ir_blocks ir b = Some f" "L (b + 1) = Some (us @ (i + 1) # vs)"
    and a: "ir_insts ir a = Some inst" "i_parent inst = b" and d: "\<not> in_lists L (a + 1)"
  obtains h where "inst_insertAfter ir i a = Inr (ir\<lparr>ir_cells := h\<rparr>)"
    and "ir_ok (ir\<lparr>ir_cells := h\<rparr>) (L(b + 1 \<mapsto> us @ (i + 1) # (a + 1) # vs))"
proof -
  have c: "a + 1 \<in> dom (ir_cells ir)" "L (b + 1) = Some ((us @ [i + 1]) @ vs)" using inst_cell [OF ok a(1)] b(2) by simp_all
  obtain h where h: "on_lists (\<lambda>h. list_addAfter h (last ((b + 1) # us @ [i + 1])) (a + 1)) ir = Inr (ir\<lparr>ir_cells := h\<rparr>)"
    "ir_lists h (L(b + 1 \<mapsto> (us @ [i + 1]) @ (a + 1) # vs))" "dom h = dom (ir_cells ir)"
    using lists_addAfter [OF ir_ok_D(4) [OF ok] c(2,1) d] .
  have "ir_ok (ir\<lparr>ir_cells := h\<rparr>) (L(b + 1 \<mapsto> (us @ [i + 1]) @ (a + 1) # vs))"
    by (rule ir_ok_relink [OF ok b h(2,3)]) (use a in auto)
  then show ?thesis using that h(1) by (simp add: inst_insertAfter_def)
qed

lemma inst_remove_ok:
  assumes ok: "ir_ok ir L" and b: "ir_blocks ir b = Some f" "L (b + 1) = Some (us @ (i + 1) # vs)"
  obtains h where "inst_remove ir i = Inr (ir\<lparr>ir_cells := h\<rparr>)" and "ir_ok (ir\<lparr>ir_cells := h\<rparr>) (L(b + 1 \<mapsto> us @ vs))"
    and "\<not> in_lists (L(b + 1 \<mapsto> us @ vs)) (i + 1)"
proof -
  obtain h where h: "on_lists (\<lambda>h. list_deattach h (i + 1)) ir = Inr (ir\<lparr>ir_cells := h\<rparr>)" "ir_lists h (L(b + 1 \<mapsto> us @ vs))"
    "dom h = dom (ir_cells ir)" "\<not> in_lists (L(b + 1 \<mapsto> us @ vs)) (i + 1)" "i + 1 \<in> dom h"
    using lists_deattach [OF ir_ok_D(4) [OF ok] b(2)] .
  have "ir_ok (ir\<lparr>ir_cells := h\<rparr>) (L(b + 1 \<mapsto> us @ vs))"
    by (rule ir_ok_relink [OF ok b h(2,3)]) auto
  then show ?thesis using that h(1,4) by (simp add: inst_remove_def)
qed

lemma new_function_ok:
  assumes ok: "ir_ok ir L"
  obtains ir' fn xs where "ir_new_function ir name = Inr (ir', fn)" and "ir_ok ir' (L(ctx_functions \<mapsto> xs @ [fn + 1]))"
    and "L ctx_functions = Some xs"
    and "ir_functions ir' = (ir_functions ir)(fn \<mapsto> \<lparr>f_entry = None, f_valueNameCounter = 0\<rparr>)"
    and "ir_values ir' = ir_values ir" and "ir_insts ir' = ir_insts ir" and "ir_blocks ir' = ir_blocks ir"
    and "ir_uses ir' = ir_uses ir" and "ir_functions ir fn = None" and "ir_insts ir fn = None"
proof -
  note h = ir_ok_D(1) [OF ok] and u = ir_ok_D(2) [OF ok] and b = ir_ok_D(3) [OF ok]
  obtain ir1 p where e: "ir_new ir = (ir1, p)" by fastforce
  note new = new_ok [OF h e] and fresh = fresh_facts [OF ok e]
  let ?ir2 = "ir1\<lparr>ir_functions := (ir_functions ir1)(p \<mapsto> \<lparr>f_entry = None, f_valueNameCounter = 0\<rparr>)\<rparr>"
  have "uses_ok ?ir2 L" by (rule uses_ok_frame [OF u]) (use new in auto)
  moreover have "blocks_ok ?ir2 L"
    by (rule blocks_ok_other [OF b]) (use new(7-9) blocks_D(4-6) [OF b] in auto)
  moreover have "heap_ok ?ir2"
  proof (rule heap_ok_add [OF new(1)])
    show "object_at (dom (ir_cells ir1)) (ir_top ir1) p" using new(3,4,13,14) by (simp add: object_at_def)
    show "objects ?ir2 \<subseteq> insert p (objects ir1)" by (auto simp: objects_def)
  qed simp_all
  ultimately have ok2: "ir_ok ?ir2 L" by (simp add: ir_ok_def)
  obtain xs where xs: "L ctx_functions = Some xs" using blocks_D(5) [OF b] by blast
  have "p + 1 \<in> dom (ir_cells ?ir2)" using new(4) by simp
  then obtain hp where hp: "on_lists (\<lambda>h. list_add h ctx_functions (p + 1)) ?ir2 = Inr (?ir2\<lparr>ir_cells := hp\<rparr>)"
    "ir_lists hp (L(ctx_functions \<mapsto> xs @ [p + 1]))" "dom hp = dom (ir_cells ?ir2)"
    using lists_add [OF ir_ok_D(4) [OF ok2] xs _ fresh(7)] by blast
  have "ir_ok (?ir2\<lparr>ir_cells := hp\<rparr>) (L(ctx_functions \<mapsto> xs @ [p + 1]))"
  proof (rule ir_ok_ctx_list [OF ok2 _ _ hp(2,3)])
    show "ir_values ?ir2 ctx_functions = None" by (rule ctx_list_off(1) [OF ok2]) simp
    show "ctx_functions \<noteq> b + 1" if "ir_blocks ?ir2 b = Some f" for b f by (rule ctx_list_off(2) [OF ok2 _ that]) simp
  qed
  moreover have "ir_new_function ir name = Inr (?ir2\<lparr>ir_cells := hp\<rparr>, p)" using e hp(1) by (simp add: ir_new_function_def)
  ultimately show ?thesis using that xs new(7-11) fresh(2,5) by simp
qed

section \<open>Replacing a value\<close>

text \<open>One use moves from the list of its value to the list of another one.\<close>

lemma move_use:
  assumes ok: "uses_ok ir L" and v: "ir_values ir v \<noteq> None" "L v = Some (as @ u # bs)"
    and r: "ir_values ir r \<noteq> None" "L r = Some ws" "r \<noteq> v"
  obtains h1 h2 i where "list_deattach (ir_cells ir) u = Inr h1" and "list_add h1 r u = Inr h2"
    and "ir_uses ir u = Some \<lparr>u_inst = i, u_value = v\<rparr>"
    and "uses_ok ((set_use ir u \<lparr>u_inst = i, u_value = r\<rparr>)\<lparr>ir_cells := h2\<rparr>) (L(v \<mapsto> as @ bs, r \<mapsto> ws @ [u]))"
    and "dom h2 = dom (ir_cells ir)"
proof -
  have "u \<in> set (as @ u # bs)" by simp
  from uses_D(4) [OF ok v this] obtain i k where s: "slot ir i k u" by blast
  then obtain inst where i: "ir_insts ir i = Some inst" "k < length (i_uses inst)" "i_uses inst ! k = u" "u \<noteq> 0"
    by (auto simp: slot_def)
  obtain w us where w: "ir_uses ir u = Some \<lparr>u_inst = i, u_value = w\<rparr>" "L w = Some us" "u \<in> set us"
    using uses_D(3) [OF ok s] by blast
  have wv: "w = v" by (rule lists_unique [OF uses_D(1) [OF ok] w(2) v(2), of u]) (use w(3) in auto)
  obtain h1 w' as' bs' where d: "on_lists (\<lambda>h. list_deattach h u) ir = Inr (ir\<lparr>ir_cells := h1\<rparr>)"
    "uses_ok (set_inst (ir\<lparr>ir_cells := h1\<rparr>) i (inst\<lparr>i_uses := (i_uses inst)[k := 0]\<rparr>)) (L(w' \<mapsto> as' @ bs'))"
    "ir_values ir w' \<noteq> None" "L w' = Some (as' @ u # bs')" "dom h1 = dom (ir_cells ir)"
    "\<not> in_lists (L(w' \<mapsto> as' @ bs')) u" "u \<in> dom h1" using detach_use [OF ok i] .
  have w'v: "w' = v" by (rule lists_unique [OF uses_D(1) [OF ok] d(4) v(2), of u]) auto
  have dis: "distinct (as @ u # bs)" using uses_D(1) [OF ok] v(2) il.rep_distinct unfolding ir_lists_def by fastforce
  have ab: "as' @ bs' = as @ bs"
  proof -
    have eq: "as' @ u # bs' = as @ u # bs" using d(4) v(2) w'v by simp
    with dis have "distinct (as' @ u # bs')" by simp
    then show ?thesis using arg_cong [OF eq, of "remove1 u"] dis by (simp add: remove1_append)
  qed
  let ?inst1 = "inst\<lparr>i_uses := (i_uses inst)[k := 0]\<rparr>" and ?L1 = "L(v \<mapsto> as @ bs)"
  let ?ir1 = "set_inst (ir\<lparr>ir_cells := h1\<rparr>) i ?inst1"
  have k1: "ir_insts ?ir1 i = Some ?inst1" "k < length (i_uses ?inst1)" "i_uses ?inst1 ! k = 0"
    "u \<in> dom (ir_cells ?ir1)" "ir_values ?ir1 r \<noteq> None" "?L1 r = Some ws" using i(2) d(7) r by simp_all
  have ok1: "uses_ok ?ir1 ?L1" and nl: "\<not> in_lists ?L1 u" using d(2,6) ab w'v by simp_all
  let ?ir2 = "set_use ?ir1 u \<lparr>u_inst = i, u_value = r\<rparr>"
  obtain h2 where a: "on_lists (\<lambda>h. list_add h r u) ?ir2 = Inr (?ir2\<lparr>ir_cells := h2\<rparr>)"
    "uses_ok (set_inst (?ir2\<lparr>ir_cells := h2\<rparr>) i (?inst1\<lparr>i_uses := (i_uses ?inst1)[k := u]\<rparr>)) (?L1(r \<mapsto> ws @ [u]))"
    "dom h2 = dom (ir_cells ?ir1)"
    using attach_use [OF ok1 k1(1-3) i(4) k1(4) nl k1(5,6)] .
  have "?inst1\<lparr>i_uses := (i_uses ?inst1)[k := u]\<rparr> = inst" using i(3) by (simp add: list_update_same_conv i(2))
  then have "set_inst (?ir2\<lparr>ir_cells := h2\<rparr>) i (?inst1\<lparr>i_uses := (i_uses ?inst1)[k := u]\<rparr>) =
      (set_use ir u \<lparr>u_inst = i, u_value = r\<rparr>)\<lparr>ir_cells := h2\<rparr>"
    using i(1) by (simp add: set_inst_def set_use_def fun_upd_idem)
  with a(2) have "uses_ok ((set_use ir u \<lparr>u_inst = i, u_value = r\<rparr>)\<lparr>ir_cells := h2\<rparr>) (L(v \<mapsto> as @ bs, r \<mapsto> ws @ [u]))"
    by simp
  moreover have "list_deattach (ir_cells ir) u = Inr h1" using d(1) unfolding on_lists_iff .
  moreover have "list_add h1 r u = Inr h2" using a(1) unfolding on_lists_iff by simp
  ultimately show ?thesis using that w(1) wv a(3) d(5) by simp
qed

lemma cells_uses_comm: "ir\<lparr>ir_cells := h, ir_uses := us\<rparr> = ir\<lparr>ir_uses := us, ir_cells := h\<rparr>"
  by simp

lemma replace_loop_ok:
  assumes "uses_ok ir L" and "ir_values ir v \<noteq> None" and "L v = Some us"
    and "ir_values ir r \<noteq> None" and "L r = Some ws" and "r \<noteq> v" and "length us < fuel"
  shows "\<exists>h. replace_loop fuel ir v r (hd (us @ [v])) =
      Inr (ir\<lparr>ir_uses := \<lambda>u. if u \<in> set us then map_option (\<lambda>x. x\<lparr>u_value := r\<rparr>) (ir_uses ir u) else ir_uses ir u,
        ir_cells := h\<rparr>) \<and>
    uses_ok (ir\<lparr>ir_uses := \<lambda>u. if u \<in> set us then map_option (\<lambda>x. x\<lparr>u_value := r\<rparr>) (ir_uses ir u) else ir_uses ir u,
        ir_cells := h\<rparr>) (L(v \<mapsto> [], r \<mapsto> ws @ us)) \<and> dom h = dom (ir_cells ir)"
  using assms
proof (induction us arbitrary: ir L ws fuel)
  case Nil
  then obtain f where "fuel = Suc f" by (cases fuel) auto
  moreover have "L(v \<mapsto> [], r \<mapsto> ws @ []) = L" using Nil.prems(3,5) by (auto simp: fun_eq_iff)
  ultimately show ?case using Nil.prems(1) by (intro exI [of _ "ir_cells ir"]) (simp only:, simp)
next
  case (Cons u us)
  obtain f where f: "fuel = Suc f" "length us < f" using Cons.prems(7) by (cases fuel) auto
  have us: "L v = Some ([] @ u # us)" using Cons.prems(3) by simp
  obtain h1 h2 i where m: "list_deattach (ir_cells ir) u = Inr h1" "list_add h1 r u = Inr h2"
    "ir_uses ir u = Some \<lparr>u_inst = i, u_value = v\<rparr>"
    "uses_ok ((set_use ir u \<lparr>u_inst = i, u_value = r\<rparr>)\<lparr>ir_cells := h2\<rparr>) (L(v \<mapsto> [] @ us, r \<mapsto> ws @ [u]))"
    "dom h2 = dom (ir_cells ir)" using move_use [OF Cons.prems(1,2) us Cons.prems(4,5,6)] .
  have ring: "ring (ir_cells ir) v (u # us)" using uses_D(1) [OF Cons.prems(1)] Cons.prems(3) by (simp add: ir_lists_def)
  then have d: "distinct (v # u # us)" using il.rep_distinct by blast
  have nx: "get_next (ir_cells ir) u = Inr (hd (us @ [v]))"
    using ring_links(1) [of "ir_cells ir" v "[u]" us] ring by simp
  let ?ir1 = "(set_use ir u \<lparr>u_inst = i, u_value = r\<rparr>)\<lparr>ir_cells := h2\<rparr>" and ?L1 = "L(v \<mapsto> us, r \<mapsto> ws @ [u])"
  have p1: "uses_ok ?ir1 ?L1" "ir_values ?ir1 v \<noteq> None" "?L1 v = Some us" "ir_values ?ir1 r \<noteq> None" "?L1 r = Some (ws @ [u])"
    using m(4) Cons.prems(2,4,6) by simp_all
  let ?U = "\<lambda>us u. if u \<in> set us then map_option (\<lambda>x. x\<lparr>u_value := r\<rparr>) (ir_uses ?ir1 u) else ir_uses ?ir1 u"
  obtain h where h: "replace_loop f ?ir1 v r (hd (us @ [v])) = Inr (?ir1\<lparr>ir_uses := ?U us, ir_cells := h\<rparr>)"
    "uses_ok (?ir1\<lparr>ir_uses := ?U us, ir_cells := h\<rparr>) (?L1(v \<mapsto> [], r \<mapsto> (ws @ [u]) @ us))" "dom h = dom (ir_cells ?ir1)"
    using Cons.IH [OF p1 Cons.prems(6) f(2)] by blast
  have "?U us = (\<lambda>x. if x \<in> set (u # us) then map_option (\<lambda>x. x\<lparr>u_value := r\<rparr>) (ir_uses ir x) else ir_uses ir x)"
    using m(3) d by (auto simp: fun_eq_iff)
  then have same: "?ir1\<lparr>ir_uses := ?U us, ir_cells := h\<rparr> =
      ir\<lparr>ir_uses := \<lambda>x. if x \<in> set (u # us) then map_option (\<lambda>x. x\<lparr>u_value := r\<rparr>) (ir_uses ir x) else ir_uses ir x, ir_cells := h\<rparr>"
    by (simp add: set_use_def)
  have "?L1(v \<mapsto> [], r \<mapsto> (ws @ [u]) @ us) = L(v \<mapsto> [], r \<mapsto> ws @ u # us)" using Cons.prems(6) by (auto simp: fun_eq_iff)
  moreover have "replace_loop fuel ir v r (hd ((u # us) @ [v])) = replace_loop f ?ir1 v r (hd (us @ [v]))"
    using f(1) d m(1-3) nx by (simp add: get_use_def on_lists_def set_use_def cells_uses_comm)
  moreover have "dom h = dom (ir_cells ir)" using h(3) m(5) by simp
  ultimately show ?case using h(1,2) same by (intro exI [of _ h]) (simp only:, blast?)
qed

lemma replaceAllUses_ok:
  assumes ok: "ir_ok ir L" and v: "ir_values ir v \<noteq> None" "L v = Some us" and r: "ir_values ir r \<noteq> None" "L r = Some ws" "r \<noteq> v"
    and fuel: "length us < fuel"
  obtains ir' where "value_replaceAllUses fuel ir v r = Inr ir'" and "ir_ok ir' (L(v \<mapsto> [], r \<mapsto> ws @ us))"
    and "\<And>i. operands ir' i = map (\<lambda>x. if x = Some v then Some r else x) (operands ir i)"
    and "ir_insts ir' = ir_insts ir" and "ir_values ir' = ir_values ir" and "ir_blocks ir' = ir_blocks ir"
    and "ir_functions ir' = ir_functions ir"
proof -
  note h = ir_ok_D(1) [OF ok] and u = ir_ok_D(2) [OF ok] and b = ir_ok_D(3) [OF ok]
  have ring: "ring (ir_cells ir) v us" using uses_D(1) [OF u] v(2) by (simp add: ir_lists_def)
  have nx: "get_next (ir_cells ir) v = Inr (hd (us @ [v]))"
    using ring_links(1) [of "ir_cells ir" v "[]" us] ring by simp
  let ?U = "\<lambda>u. if u \<in> set us then map_option (\<lambda>x. x\<lparr>u_value := r\<rparr>) (ir_uses ir u) else ir_uses ir u"
  obtain hp where l: "replace_loop fuel ir v r (hd (us @ [v])) = Inr (ir\<lparr>ir_uses := ?U, ir_cells := hp\<rparr>)"
    "uses_ok (ir\<lparr>ir_uses := ?U, ir_cells := hp\<rparr>) (L(v \<mapsto> [], r \<mapsto> ws @ us))" "dom hp = dom (ir_cells ir)"
    using replace_loop_ok [OF u v r fuel] by blast
  let ?ir = "ir\<lparr>ir_uses := ?U, ir_cells := hp\<rparr>"
  have "blocks_ok ?ir (L(v \<mapsto> [], r \<mapsto> ws @ us))"
  proof (rule blocks_ok_other [OF b])
    show "(L(v \<mapsto> [], r \<mapsto> ws @ us)) (c + 1) = L (c + 1)" if "ir_blocks ir c = Some f" for c f
      using no_value_off [OF h objectsI(3) [OF that]] v(1) r(1) by auto
  qed (use blocks_D(4-6) [OF b] v r in auto)
  moreover have "objects ?ir \<subseteq> objects ir" by (auto simp: objects_def split: if_splits)
  then have "heap_ok ?ir" using heap_ok_cong [OF h, of ?ir] l(3) by simp
  ultimately have "ir_ok ?ir (L(v \<mapsto> [], r \<mapsto> ws @ us))" using l(2) by (simp add: ir_ok_def)
  moreover have "operands ?ir i = map (\<lambda>x. if x = Some v then Some r else x) (operands ir i)" for i
  proof (cases "ir_insts ir i")
    case (Some inst)
    let ?f = "\<lambda>y. if y = Some v then Some r else y" and ?g = "\<lambda>x. if x = 0 then None else map_option u_value (ir_uses ir x)"
    have e: "(if x = 0 then None else map_option u_value (?U x)) = ?f (?g x)"
      if x: "x \<in> set (i_uses inst)" for x
    proof (cases "x = 0")
      case False
      obtain k where "k < length (i_uses inst)" "i_uses inst ! k = x" using x by (auto simp: in_set_conv_nth)
      with Some False have s: "slot ir i k x" by (simp add: slot_def)
      obtain w xs where w: "ir_uses ir x = Some \<lparr>u_inst = i, u_value = w\<rparr>" "L w = Some xs" "x \<in> set xs"
        using uses_D(3) [OF u s] by blast
      have "x \<in> set us \<longleftrightarrow> w = v"
        using lists_unique [OF uses_D(1) [OF u] w(2) v(2), of x] w(2,3) v(2) by auto
      with w(1) False show ?thesis by auto
    qed simp
    have "operands ?ir i = map (\<lambda>x. if x = 0 then None else map_option u_value (?U x)) (i_uses inst)"
      using Some by (simp add: operands_def)
    also have "\<dots> = map (\<lambda>x. ?f (?g x)) (i_uses inst)" by (rule map_cong [OF refl]) (rule e)
    also have "\<dots> = map ?f (operands ir i)" using Some by (simp only: operands_def option.case map_map comp_def)
    finally show ?thesis .
  qed (simp add: operands_def)
  moreover have "value_replaceAllUses fuel ir v r = Inr ?ir" using nx l(1) by (simp add: value_replaceAllUses_def)
  ultimately show ?thesis using that [of ?ir] by simp
qed

end
