(* ===== verification/Ir_Calls.thy ===== *)
theory Ir_Calls
  imports Ir_Graph
begin

text \<open>
  Programs that build and change the intermediate representation: the calls a client of \<open>ir.c\<close> may
  make, what each of them requires, and the invariant every sequence of such calls keeps.
\<close>

section \<open>Instructions in blocks\<close>

definition block_instructions :: "ir_context \<Rightarrow> ptr \<Rightarrow> ptr list" where
  "block_instructions ir b = (case LIST_FOR_EACH (ir_top ir) (ir_cells ir) (b + 1) of
     Inl e \<Rightarrow> [] | Inr cs \<Rightarrow> map (\<lambda>c. c - 1) cs)"

definition inserted :: "ir_context \<Rightarrow> ptr \<Rightarrow> bool" where
  "inserted ir i \<longleftrightarrow> (case ir_insts ir i of None \<Rightarrow> False
     | Some inst \<Rightarrow> ir_blocks ir (i_parent inst) \<noteq> None \<and> i \<in> set (block_instructions ir (i_parent inst)))"

text \<open>An instruction that is in a list is in the list of the block it names as its parent.\<close>

definition links_ok :: "ir_context \<Rightarrow> (ptr \<rightharpoonup> ptr list) \<Rightarrow> bool" where
  "links_ok ir L \<longleftrightarrow> (\<forall>i inst. ir_insts ir i = Some inst \<longrightarrow> in_lists L (i + 1) \<longrightarrow>
     ir_blocks ir (i_parent inst) \<noteq> None \<and> (\<exists>cs. L (i_parent inst + 1) = Some cs \<and> i + 1 \<in> set cs))"

lemma links_D:
  assumes "links_ok ir L" and "ir_insts ir i = Some inst" and "in_lists L (i + 1)"
  obtains f cs where "ir_blocks ir (i_parent inst) = Some f" and "L (i_parent inst + 1) = Some cs" and "i + 1 \<in> set cs"
  using assms unfolding links_ok_def by blast

lemma links_frame:
  assumes "links_ok ir L"
    and b: "\<And>b f. ir_blocks ir b = Some f \<Longrightarrow> ir_blocks ir' b \<noteq> None \<and> L' (b + 1) = L (b + 1)"
    and i: "\<And>i inst. ir_insts ir' i = Some inst \<Longrightarrow> in_lists L' (i + 1) \<Longrightarrow>
      in_lists L (i + 1) \<and> (\<exists>x. ir_insts ir i = Some x \<and> i_parent x = i_parent inst)"
  shows "links_ok ir' L'"
  unfolding links_ok_def
proof (intro allI impI)
  fix i inst assume "ir_insts ir' i = Some inst" "in_lists L' (i + 1)"
  from i [OF this] obtain x where x: "ir_insts ir i = Some x" "i_parent x = i_parent inst" "in_lists L (i + 1)" by blast
  obtain f cs where "ir_blocks ir (i_parent x) = Some f" "L (i_parent x + 1) = Some cs" "i + 1 \<in> set cs"
    using links_D [OF assms(1) x(1,3)] .
  with b x(2) show "ir_blocks ir' (i_parent inst) \<noteq> None \<and> (\<exists>cs. L' (i_parent inst + 1) = Some cs \<and> i + 1 \<in> set cs)" by auto
qed

lemma in_lists_upd: "in_lists (L(l \<mapsto> xs)) e \<Longrightarrow> e \<in> set (l # xs) \<or> (\<exists>m. m \<noteq> l \<and> e \<in> list_nodes L m)"
  unfolding in_lists_def by (auto split: if_splits)

lemma inst_not_block: "ir_ok ir L \<Longrightarrow> ir_insts ir i = Some inst \<Longrightarrow> ir_blocks ir i = None"
  using blocks_D(1,4) [OF ir_ok_D(3)] by (cases "ir_blocks ir i") fastforce+

lemma links_relink:
  assumes links: "links_ok ir L" and ok: "ir_ok ir' (L(c + 1 \<mapsto> ys))" and c: "ir_blocks ir c = Some f"
    and same: "ir_insts ir' = ir_insts ir" "ir_blocks ir' = ir_blocks ir" and sep: "separate L"
  shows "links_ok ir' (L(c + 1 \<mapsto> ys))"
  unfolding links_ok_def same
proof (intro allI impI)
  fix i inst assume i: "ir_insts ir i = Some inst" and l: "in_lists (L(c + 1 \<mapsto> ys)) (i + 1)"
  have c': "ir_blocks ir' c = Some f" and i': "ir_insts ir' i = Some inst" using c i same by simp_all
  from in_lists_upd [OF l]
  show "ir_blocks ir (i_parent inst) \<noteq> None \<and> (\<exists>cs. (L(c + 1 \<mapsto> ys)) (i_parent inst + 1) = Some cs \<and> i + 1 \<in> set cs)"
  proof (elim disjE exE conjE)
    assume "i + 1 \<in> set ((c + 1) # ys)"
    moreover have "i \<noteq> c" using inst_not_block [OF ok i'] c' by auto
    ultimately have y: "i + 1 \<in> set ys" by simp
    have "i_parent inst = c" using blocks_D(2) [OF ir_ok_D(3) [OF ok] c'] y i' by auto
    with y c show ?thesis by simp
  next
    fix m assume m: "m \<noteq> c + 1" "i + 1 \<in> list_nodes L m"
    then have "in_lists L (i + 1)" unfolding in_lists_def by blast
    then obtain g cs where p: "ir_blocks ir (i_parent inst) = Some g" "L (i_parent inst + 1) = Some cs" "i + 1 \<in> set cs"
      using links_D [OF links i] by blast
    have "i_parent inst \<noteq> c"
    proof
      assume "i_parent inst = c"
      then have "i + 1 \<in> list_nodes L (c + 1)" using p(2,3) list_nodes_Some by auto
      with m sep show False by (auto simp: separate_def)
    qed
    with p show ?thesis by auto
  qed
qed

lemma list_length_top:
  assumes ok: "ir_ok ir L" and l: "L l = Some xs"
  shows "length xs < ir_top ir"
proof -
  have r: "ring (ir_cells ir) l xs" using ir_ok_D(4) [OF ok] l by (simp add: ir_lists_def)
  have "set (l # xs) \<subseteq> {..< ir_top ir}"
    using ring_allocated [OF r] heap_D(3) [OF ir_ok_D(1) [OF ok]] by fastforce
  then have "card (set (l # xs)) \<le> card {..< ir_top ir}" by (rule card_mono [rotated]) simp
  then show ?thesis using r distinct_card [of "l # xs"] by (simp add: ring_def)
qed

lemma block_instructions_eq:
  assumes ok: "ir_ok ir L" and b: "L (b + 1) = Some cs"
  shows "LIST_FOR_EACH (ir_top ir) (ir_cells ir) (b + 1) = Inr cs" and "block_instructions ir b = map (\<lambda>c. c - 1) cs"
proof -
  have r: "ring (ir_cells ir) (b + 1) cs" using ir_ok_D(4) [OF ok] b by (simp add: ir_lists_def)
  have "length cs < ir_top ir" using list_length_top [OF ok b] .
  then show "LIST_FOR_EACH (ir_top ir) (ir_cells ir) (b + 1) = Inr cs" using LIST_FOR_EACH_ring [OF r] by blast
  then show "block_instructions ir b = map (\<lambda>c. c - 1) cs" by (simp add: block_instructions_def)
qed

lemma inserted_iff:
  assumes ok: "ir_ok ir L" and l: "links_ok ir L" and i: "ir_insts ir i = Some inst"
  shows "inserted ir i \<longleftrightarrow> in_lists L (i + 1)"
proof
  assume "inserted ir i"
  then obtain f where f: "ir_blocks ir (i_parent inst) = Some f" "i \<in> set (block_instructions ir (i_parent inst))"
    using i by (auto simp: inserted_def)
  obtain cs where cs: "L (i_parent inst + 1) = Some cs" "\<forall>c \<in> set cs. \<exists>i inst'. c = i + 1 \<and> ir_insts ir i = Some inst' \<and> i_parent inst' = i_parent inst"
    using block_list [OF ok f(1)] .
  obtain c where "c \<in> set cs" "i = c - 1" using f(2) block_instructions_eq(2) [OF ok cs(1)] by auto
  with cs(2) have "i + 1 \<in> set cs" by auto
  then show "in_lists L (i + 1)" using in_listsI [of L "i_parent inst + 1" cs "i + 1"] cs(1) by simp
next
  assume "in_lists L (i + 1)"
  then obtain f cs where p: "ir_blocks ir (i_parent inst) = Some f" "L (i_parent inst + 1) = Some cs" "i + 1 \<in> set cs"
    using links_D [OF l i] by blast
  from p(3) have "i \<in> set (map (\<lambda>c. c - 1) cs)" by force
  with p i show "inserted ir i" using block_instructions_eq(2) [OF ok p(2)] by (simp add: inserted_def)
qed

section \<open>What every call keeps\<close>

definition ir_inv :: "ir_context \<Rightarrow> (ptr \<rightharpoonup> ptr list) \<Rightarrow> bool" where
  "ir_inv ir L \<longleftrightarrow> ir_ok ir L \<and> links_ok ir L"

lemma ir_inv_D: "ir_inv ir L \<Longrightarrow> ir_ok ir L" "ir_inv ir L \<Longrightarrow> links_ok ir L"
  by (simp_all add: ir_inv_def)

text \<open>Every operand the iterators look at is set, and a phi has pairs of them.\<close>

definition inst_complete :: "instruction_t \<Rightarrow> bool" where
  "inst_complete inst \<longleftrightarrow> (\<forall>k < inst_count inst. i_uses inst ! k \<noteq> 0) \<and>
     (i_type inst = INST_PHI \<longrightarrow> i_useReserve inst = 16 \<and> even (i_useCount inst))"

definition ir_complete :: "ir_context \<Rightarrow> bool" where
  "ir_complete ir \<longleftrightarrow> (\<forall>i inst. ir_insts ir i = Some inst \<longrightarrow> inst_complete inst)"

lemma complete_upd: "ir_complete ir \<Longrightarrow> inst_complete x \<Longrightarrow> ir_insts ir' = (ir_insts ir)(i \<mapsto> x) \<Longrightarrow> ir_complete ir'"
  by (simp add: ir_complete_def)

lemma complete_same: "ir_complete ir \<Longrightarrow> ir_insts ir' = ir_insts ir \<Longrightarrow> ir_complete ir'"
  by (simp add: ir_complete_def)

lemma inst_complete_upd [simp]: "inst_complete (inst\<lparr>i_num := n\<rparr>) = inst_complete inst"
  "inst_complete (inst\<lparr>i_parent := p\<rparr>) = inst_complete inst"
  by (simp_all add: inst_complete_def)

lemma setUse_inv:
  assumes inv: "ir_inv ir L" and i: "ir_insts ir i = Some inst" "k < inst_count inst" and v: "ir_values ir v \<noteq> None"
  obtains ir' L' u where "inst_setUse ir i k v = Inr ir'" and "ir_inv ir' L'" and "u \<noteq> 0"
    and "operands ir' i = (operands ir i)[k := Some v]" and "\<And>j. j \<noteq> i \<Longrightarrow> operands ir' j = operands ir j"
    and "ir_insts ir' = (ir_insts ir)(i \<mapsto> inst\<lparr>i_uses := (i_uses inst)[k := u]\<rparr>)"
    and "ir_values ir' = ir_values ir" and "ir_blocks ir' = ir_blocks ir" and "ir_functions ir' = ir_functions ir"
    and "\<And>l. ir_values ir l = None \<Longrightarrow> L' l = L l"
proof -
  note ok = ir_inv_D(1) [OF inv] and l = ir_inv_D(2) [OF inv]
  obtain ir' L' u where s: "inst_setUse ir i k v = Inr ir'" "ir_ok ir' L'" "u \<noteq> 0"
    "operands ir' i = (operands ir i)[k := Some v]" "\<And>j. j \<noteq> i \<Longrightarrow> operands ir' j = operands ir j"
    "ir_insts ir' = (ir_insts ir)(i \<mapsto> inst\<lparr>i_uses := (i_uses inst)[k := u]\<rparr>)"
    "ir_values ir' = ir_values ir" "ir_blocks ir' = ir_blocks ir" "ir_functions ir' = ir_functions ir"
    "\<And>l. ir_values ir l = None \<Longrightarrow> L' l = L l" "\<And>p. in_lists L' p \<Longrightarrow> in_lists L p \<or> p = u" "4 dvd u"
    by (rule ir_ok_setUse [OF ok i v]) (rule that; assumption)
  have "links_ok ir' L'"
  proof (rule links_frame [OF l])
    show "ir_blocks ir' b \<noteq> None \<and> L' (b + 1) = L (b + 1)" if "ir_blocks ir b = Some f" for b f
      using s(9,10) no_value_off [OF ir_ok_D(1) [OF ok] objectsI(3) [OF that]] that s(8) by simp
    fix j x assume j: "ir_insts ir' j = Some x" "in_lists L' (j + 1)"
    then have "j + 1 \<noteq> u" using inst_cell [OF s(2) j(1)] s(12) object_offsets(1) by blast
    with j s(6,11) i show "in_lists L (j + 1) \<and> (\<exists>x'. ir_insts ir j = Some x' \<and> i_parent x' = i_parent x)"
      by (auto split: if_splits)
  qed
  with s show ?thesis by (intro that [of ir' L' u]) (simp_all add: ir_inv_def)
qed

lemma update_inv:
  assumes inv: "ir_inv ir L" and i: "ir_insts ir i = Some inst" and x: "i_uses x = i_uses inst" "inst_shape x"
    "i_parent x = i_parent inst"
  shows "ir_inv (set_inst ir i x) L"
proof -
  have "links_ok (set_inst ir i x) L"
    by (rule links_frame [OF ir_inv_D(2) [OF inv]]) (use i x(3) in \<open>auto split: if_splits\<close>)
  with ir_ok_update [OF ir_inv_D(1) [OF inv] i x(1,2)] x(3) show ?thesis by (simp add: ir_inv_def)
qed

lemma inst_new_inv:
  assumes inv: "ir_inv ir L"
  obtains ir' i where "inst_new ir t dt = Inr (ir', i)" and "ir_inv ir' (L(i \<mapsto> []))"
    and "ir_insts ir' = (ir_insts ir)(i \<mapsto> \<lparr>i_type = t, i_parent = 0, i_num = 0, i_rId = 0, i_op = BO_ADD,
                  i_uses = replicate (use_slots t) 0, i_useCount = 0,
                  i_usesSet = (t \<noteq> INST_PHI \<and> t \<noteq> INST_FUNCTION_CALL), i_useReserve = 0\<rparr>)"
    and "ir_insts ir i = None" and "ir_values ir i = None"
    and "ir_values ir' = (ir_values ir)(i \<mapsto> \<lparr>v_dataType = dt, v_type = INST, v_name = Some \<lparr>rmem = [], rsize = 0\<rparr>\<rparr>)"
    and "ir_blocks ir' = ir_blocks ir" and "ir_functions ir' = ir_functions ir" and "ir_uses ir' = ir_uses ir"
    and "\<not> in_lists (L(i \<mapsto> [])) (i + 1)" and "\<not> in_lists (L(i \<mapsto> [])) (i + 2)" and "4 dvd i"
proof -
  note ok = ir_inv_D(1) [OF inv]
  obtain ir' i where n: "inst_new ir t dt = Inr (ir', i)" "ir_ok ir' (L(i \<mapsto> []))"
    "ir_insts ir' = (ir_insts ir)(i \<mapsto> \<lparr>i_type = t, i_parent = 0, i_num = 0, i_rId = 0, i_op = BO_ADD,
                  i_uses = replicate (use_slots t) 0, i_useCount = 0,
                  i_usesSet = (t \<noteq> INST_PHI \<and> t \<noteq> INST_FUNCTION_CALL), i_useReserve = 0\<rparr>)"
    "ir_insts ir i = None" "ir_values ir i = None"
    "ir_values ir' = (ir_values ir)(i \<mapsto> \<lparr>v_dataType = dt, v_type = INST, v_name = Some \<lparr>rmem = [], rsize = 0\<rparr>\<rparr>)"
    "ir_blocks ir' = ir_blocks ir" "ir_functions ir' = ir_functions ir" "ir_uses ir' = ir_uses ir"
    "\<not> in_lists (L(i \<mapsto> [])) (i + 1)" "\<not> in_lists (L(i \<mapsto> [])) (i + 2)" "4 dvd i"
    by (rule inst_new_ok [OF ok]) (rule that; assumption)
  have "links_ok ir' (L(i \<mapsto> []))"
  proof (rule links_frame [OF ir_inv_D(2) [OF inv]])
    show "ir_blocks ir' b \<noteq> None \<and> (L(i \<mapsto> [])) (b + 1) = L (b + 1)" if "ir_blocks ir b = Some f" for b f
      using that n(7,12) object_atD [OF heap_D(4) [OF ir_ok_D(1) [OF ok] objectsI(3) [OF that]]] object_offsets(1) [of b i] by auto
    fix j x assume j: "ir_insts ir' j = Some x" "in_lists (L(i \<mapsto> [])) (j + 1)"
    then have "j \<noteq> i" "j + 1 \<noteq> i" using n(10) inst_cell [OF n(2) j(1)] n(12) object_offsets(1) by blast+
    with j n(3) in_lists_upd [OF j(2)] show "in_lists L (j + 1) \<and> (\<exists>x'. ir_insts ir j = Some x' \<and> i_parent x' = i_parent x)"
      by (auto simp: in_lists_def)
  qed
  with n show ?thesis by (intro that [of ir' i]) (simp_all add: ir_inv_def)
qed

section \<open>The calls\<close>

text \<open>
  A client calls the functions of \<open>ir.h\<close> and sets the entry of a function; it names an object by its
  address, a block too, as if \<open>block_new\<close> returned it. The number of nodes the loops over lists may pass is
  bounded by the top of the zone. \<open>valid_call\<close> is what a call requires: the arguments are objects of the right
  kind, an instruction is inserted only while it is in no block and removed only while it is in one,
  and a phi takes at most the pairs its buffer has room for.
\<close>

datatype ir_call =
    New_function range_t
  | New_block ptr
  | Constant "64 word"
  | Load_var nat data_type
  | Assign_var nat ptr
  | Binary binary_ops ptr ptr
  | Jump ptr
  | Jump_cond ptr ptr ptr
  | Return
  | Phi data_type
  | Phi_insert ptr ptr ptr
  | Set_use ptr nat ptr
  | Insert ptr ptr
  | Insert_top ptr ptr
  | Insert_after ptr ptr
  | Remove ptr
  | Replace ptr ptr
  | Set_name ptr range_t
  | Number ptr
  | Set_entry ptr ptr

fun run_call :: "ir_context \<Rightarrow> ir_call \<Rightarrow> ir_context res" where
  "run_call ir (New_function name) = bindE (ir_new_function ir name) (\<lambda>(ir, _). Inr ir)"
| "run_call ir (New_block f) = bindE (block_new ir f) (\<lambda>(ir, _). Inr ir)"
| "run_call ir (Constant n) = bindE (ir_constant_value ir n) (\<lambda>(ir, _). Inr ir)"
| "run_call ir (Load_var r t) = bindE (inst_new_load_var ir r t) (\<lambda>(ir, _). Inr ir)"
| "run_call ir (Assign_var r v) = bindE (inst_new_assign_var ir r v) (\<lambda>(ir, _). Inr ir)"
| "run_call ir (Binary t a b) = bindE (inst_new_binary ir t a b) (\<lambda>(ir, _). Inr ir)"
| "run_call ir (Jump b) = bindE (inst_new_jump ir b) (\<lambda>(ir, _). Inr ir)"
| "run_call ir (Jump_cond a b c) = bindE (inst_new_jump_cond ir a b c) (\<lambda>(ir, _). Inr ir)"
| "run_call ir Return = bindE (inst_new_return ir) (\<lambda>(ir, _). Inr ir)"
| "run_call ir (Phi t) = bindE (inst_new_phi ir t 0) (\<lambda>(ir, _). Inr ir)"
| "run_call ir (Phi_insert p b v) = inst_phi_insertValue ir p b v"
| "run_call ir (Set_use i k v) = inst_setUse ir i k v"
| "run_call ir (Insert b i) = block_insert ir b i"
| "run_call ir (Insert_top b i) = block_insertTop ir b i"
| "run_call ir (Insert_after i a) = inst_insertAfter ir i a"
| "run_call ir (Remove i) = inst_remove ir i"
| "run_call ir (Replace v r) = value_replaceAllUses (ir_top ir) ir v r"
| "run_call ir (Set_name v name) = value_setName ir v name"
| "run_call ir (Number b) = block_numberInst (ir_top ir) ir b"
| "run_call ir (Set_entry fn b) = bindE (get_function ir fn) (\<lambda>f.
     Inr (ir\<lparr>ir_functions := (ir_functions ir)(fn \<mapsto> f\<lparr>f_entry := Some b\<rparr>)\<rparr>))"

definition is_value :: "ir_context \<Rightarrow> ptr \<Rightarrow> bool" where
  "is_value ir v \<longleftrightarrow> ir_values ir v \<noteq> None"

definition is_inst :: "ir_context \<Rightarrow> ptr \<Rightarrow> bool" where
  "is_inst ir i \<longleftrightarrow> ir_insts ir i \<noteq> None"

definition is_block :: "ir_context \<Rightarrow> ptr \<Rightarrow> bool" where
  "is_block ir b \<longleftrightarrow> ir_blocks ir b \<noteq> None"

definition parent_of :: "ir_context \<Rightarrow> ptr \<Rightarrow> ptr" where
  "parent_of ir i = (case ir_insts ir i of None \<Rightarrow> 0 | Some inst \<Rightarrow> i_parent inst)"

fun valid_call :: "ir_context \<Rightarrow> ir_call \<Rightarrow> bool" where
  "valid_call ir (Assign_var r v) \<longleftrightarrow> is_value ir v"
| "valid_call ir (Binary t a b) \<longleftrightarrow> is_value ir a \<and> is_value ir b \<and>
     map_option v_dataType (ir_values ir a) = map_option v_dataType (ir_values ir b)"
| "valid_call ir (Jump b) \<longleftrightarrow> is_block ir b"
| "valid_call ir (Jump_cond a b c) \<longleftrightarrow> is_block ir a \<and> is_block ir b \<and> is_value ir c"
| "valid_call ir (Phi_insert p b v) \<longleftrightarrow> is_block ir b \<and> is_value ir v \<and>
     (case ir_insts ir p of None \<Rightarrow> False | Some inst \<Rightarrow> i_type inst = INST_PHI \<and> i_useCount inst < 32)"
| "valid_call ir (Set_use i k v) \<longleftrightarrow> is_value ir v \<and> (case ir_insts ir i of None \<Rightarrow> False | Some inst \<Rightarrow> k < inst_count inst)"
| "valid_call ir (Insert b i) \<longleftrightarrow> is_block ir b \<and> is_inst ir i \<and> \<not> inserted ir i"
| "valid_call ir (Insert_top b i) \<longleftrightarrow> is_block ir b \<and> is_inst ir i \<and> \<not> inserted ir i"
| "valid_call ir (Insert_after i a) \<longleftrightarrow> inserted ir i \<and> is_inst ir a \<and> \<not> inserted ir a \<and> parent_of ir a = parent_of ir i"
| "valid_call ir (Remove i) \<longleftrightarrow> inserted ir i"
| "valid_call ir (Replace v r) \<longleftrightarrow> is_value ir v \<and> is_value ir r \<and> v \<noteq> r"
| "valid_call ir (Set_name v name) \<longleftrightarrow> is_value ir v \<and> rsize name \<le> MAX_ZONE_ALLOCATION \<and> rsize name \<le> length (rmem name)"
| "valid_call ir (Number b) \<longleftrightarrow> is_block ir b"
| "valid_call ir (Set_entry fn b) \<longleftrightarrow> ir_functions ir fn \<noteq> None \<and> is_block ir b"
| "valid_call ir _ \<longleftrightarrow> True"

text \<open>The state after a call is again one.\<close>

definition keeps :: "ir_context res \<Rightarrow> bool" where
  "keeps r \<longleftrightarrow> (\<exists>ir L. r = Inr ir \<and> ir_inv ir L \<and> ir_complete ir)"

lemma keepsI: "r = Inr ir \<Longrightarrow> ir_inv ir L \<Longrightarrow> ir_complete ir \<Longrightarrow> keeps r"
  unfolding keeps_def by blast

lemma keeps_Inr [simp]: "keeps (Inr ir) \<longleftrightarrow> (\<exists>L. ir_inv ir L) \<and> ir_complete ir"
  by (auto simp: keeps_def)

lemma block_value: "ir_inv ir L \<Longrightarrow> is_block ir b \<Longrightarrow> ir_values ir b \<noteq> None"
  using blocks_D(1) [OF ir_ok_D(3) [OF ir_inv_D(1)]] by (fastforce simp: is_block_def)

lemma links_value:
  assumes inv: "ir_inv ir L" and ok: "ir_ok ir' L'" and L': "L' = L \<or> L' = L(v \<mapsto> []) \<or> (L' = L(v \<mapsto> [], v + 1 \<mapsto> []) \<and> ir_insts ir v = None)"
    and v: "4 dvd v" and i: "ir_insts ir' = ir_insts ir" and b: "\<And>b f. ir_blocks ir b = Some f \<Longrightarrow> ir_blocks ir' b \<noteq> None \<and> b \<noteq> v"
  shows "links_ok ir' L'"
proof (rule links_frame [OF ir_inv_D(2) [OF inv]])
  note ok0 = ir_inv_D(1) [OF inv]
  show "ir_blocks ir' b \<noteq> None \<and> L' (b + 1) = L (b + 1)" if "ir_blocks ir b = Some f" for b f
    using L' b [OF that] object_offsets(1) [of b v] v object_atD [OF heap_D(4) [OF ir_ok_D(1) [OF ok0] objectsI(3) [OF that]]] by auto
  fix j x assume j: "ir_insts ir' j = Some x" "in_lists L' (j + 1)"
  then have "j + 1 \<noteq> v" "ir_insts ir j = Some x" using i inst_cell [OF ok j(1)] object_offsets(1) [of j v] v by auto
  with j(2) L' show "in_lists L (j + 1) \<and> (\<exists>x'. ir_insts ir j = Some x' \<and> i_parent x' = i_parent x)"
    by (auto simp: in_lists_def split: if_splits)
qed

lemma keeps_function:
  assumes inv: "ir_inv ir L" and c: "ir_complete ir"
  shows "keeps (run_call ir (New_function name))"
proof -
  note ok = ir_inv_D(1) [OF inv]
  obtain ir' fn xs where n: "ir_new_function ir name = Inr (ir', fn)" "ir_ok ir' (L(ctx_functions \<mapsto> xs @ [fn + 1]))"
    "L ctx_functions = Some xs" "ir_insts ir' = ir_insts ir" "ir_blocks ir' = ir_blocks ir" "ir_insts ir fn = None"
    by (rule new_function_ok [OF ok]) (rule that; assumption)
  have "links_ok ir' (L(ctx_functions \<mapsto> xs @ [fn + 1]))"
  proof (rule links_frame [OF ir_inv_D(2) [OF inv]])
    show "ir_blocks ir' b \<noteq> None \<and> (L(ctx_functions \<mapsto> xs @ [fn + 1])) (b + 1) = L (b + 1)" if "ir_blocks ir b = Some f" for b f
      using that n(5) ctx_list_off(2) [OF ok _ that] by auto
    fix j x assume j: "ir_insts ir' j = Some x" "in_lists (L(ctx_functions \<mapsto> xs @ [fn + 1])) (j + 1)"
    have "j \<noteq> fn" using n(4,6) j(1) by auto
    with in_lists_upd [OF j(2)] have "in_lists L (j + 1)"
      using in_listsI [of L ctx_functions xs "j + 1"] n(3) unfolding in_lists_def by auto
    then show "in_lists L (j + 1) \<and> (\<exists>x'. ir_insts ir j = Some x' \<and> i_parent x' = i_parent x)" using n(4) j(1) by simp
  qed
  with n(1,2) complete_same [OF c n(4)] show ?thesis by (intro keepsI [of _ ir']) (simp_all add: ir_inv_def)
qed

lemma keeps_block:
  assumes inv: "ir_inv ir L" and c: "ir_complete ir"
  shows "keeps (run_call ir (New_block f))"
proof -
  note ok = ir_inv_D(1) [OF inv]
  obtain ir' b where n: "block_new ir f = Inr (ir', None)" "ir_ok ir' (L(b \<mapsto> [], b + 1 \<mapsto> []))"
    "ir_blocks ir b = None" "ir_values ir b = None" "ir_insts ir' = ir_insts ir" "ir_blocks ir' = (ir_blocks ir)(b \<mapsto> f)" "4 dvd b"
    by (rule block_new_ok [OF ok]) (rule that; assumption)
  have "ir_insts ir b = None" using blocks_D(4) [OF ir_ok_D(3) [OF ok], of b] n(4) by (cases "ir_insts ir b") auto
  then have "links_ok ir' (L(b \<mapsto> [], b + 1 \<mapsto> []))"
    by (intro links_value [OF inv n(2) _ n(7,5)]) (use n(3,6) in auto)
  with n(1,2) complete_same [OF c n(5)] show ?thesis by (intro keepsI [of _ ir']) (simp_all add: ir_inv_def)
qed

lemma keeps_constant:
  assumes inv: "ir_inv ir L" and c: "ir_complete ir"
  shows "keeps (run_call ir (Constant k))"
proof -
  note ok = ir_inv_D(1) [OF inv]
  obtain ir' v where n: "ir_constant_value ir k = Inr (ir', v)" "ir_ok ir' (L(v \<mapsto> []))" "ir_values ir v = None"
    "ir_insts ir' = ir_insts ir" "ir_blocks ir' = ir_blocks ir" "4 dvd v"
    by (rule constant_ok [OF ok]) (rule that; assumption)
  have "b \<noteq> v" if "ir_blocks ir b = Some f" for b f using blocks_D(1) [OF ir_ok_D(3) [OF ok] that] n(3) by auto
  then have "links_ok ir' (L(v \<mapsto> []))" by (intro links_value [OF inv n(2) _ n(6,4)]) (use n(5) in auto)
  with n(1,2) complete_same [OF c n(4)] show ?thesis by (intro keepsI [of _ ir']) (simp_all add: ir_inv_def)
qed

text \<open>The constructors of instructions: a fresh instruction, some fields, then its operands one by one.\<close>

definition fresh_inst :: "instruction_type \<Rightarrow> instruction_t" where
  "fresh_inst t = \<lparr>i_type = t, i_parent = 0, i_num = 0, i_rId = 0, i_op = BO_ADD,
     i_uses = replicate (use_slots t) 0, i_useCount = 0,
     i_usesSet = (t \<noteq> INST_PHI \<and> t \<noteq> INST_FUNCTION_CALL), i_useReserve = 0\<rparr>"

lemma inst_make:
  assumes inv: "ir_inv ir L" and f: "i_uses (f (fresh_inst t)) = i_uses (fresh_inst t)" "i_parent (f (fresh_inst t)) = 0"
    "inst_shape (f (fresh_inst t))"
  obtains ir1 i ir2 where "inst_new ir t dt = Inr (ir1, i)" and "update_inst ir1 i f = Inr ir2" and "ir_inv ir2 (L(i \<mapsto> []))"
    and "ir_inv ir1 (L(i \<mapsto> []))" and "ir_insts ir1 = (ir_insts ir)(i \<mapsto> fresh_inst t)"
    and "ir_insts ir2 = (ir_insts ir)(i \<mapsto> f (fresh_inst t))" and "\<And>v. ir_values ir v \<noteq> None \<Longrightarrow> ir_values ir2 v \<noteq> None"
    and "\<not> in_lists (L(i \<mapsto> [])) (i + 2)" and "ir_insts ir i = None" and "\<And>j. j \<noteq> i \<Longrightarrow> operands ir2 j = operands ir j"
    and "ir_blocks ir2 = ir_blocks ir" and "operands ir2 i = replicate (use_slots t) None"
    and "ir_functions ir2 = ir_functions ir" and "ir_values ir2 = (ir_values ir)(i \<mapsto> \<lparr>v_dataType = dt, v_type = INST, v_name = Some \<lparr>rmem = [], rsize = 0\<rparr>\<rparr>)"
    and "ir_values ir i = None" and "\<not> in_lists (L(i \<mapsto> [])) (i + 1)" and "4 dvd i"
proof -
  obtain ir1 i where n: "inst_new ir t dt = Inr (ir1, i)" "ir_inv ir1 (L(i \<mapsto> []))"
    "ir_insts ir1 = (ir_insts ir)(i \<mapsto> \<lparr>i_type = t, i_parent = 0, i_num = 0, i_rId = 0, i_op = BO_ADD,
                  i_uses = replicate (use_slots t) 0, i_useCount = 0,
                  i_usesSet = (t \<noteq> INST_PHI \<and> t \<noteq> INST_FUNCTION_CALL), i_useReserve = 0\<rparr>)"
    "ir_insts ir i = None" "ir_values ir i = None"
    "ir_values ir1 = (ir_values ir)(i \<mapsto> \<lparr>v_dataType = dt, v_type = INST, v_name = Some \<lparr>rmem = [], rsize = 0\<rparr>\<rparr>)"
    "ir_blocks ir1 = ir_blocks ir" "ir_functions ir1 = ir_functions ir" "ir_uses ir1 = ir_uses ir"
    "\<not> in_lists (L(i \<mapsto> [])) (i + 1)" "\<not> in_lists (L(i \<mapsto> [])) (i + 2)" "4 dvd i"
    by (rule inst_new_inv [OF inv]) (rule that; assumption)
  have i: "ir_insts ir1 i = Some (fresh_inst t)" and all: "ir_insts ir1 = (ir_insts ir)(i \<mapsto> fresh_inst t)"
    using n(3) by (simp_all add: fresh_inst_def)
  let ?ir2 = "set_inst ir1 i (f (fresh_inst t))"
  show ?thesis
  proof (rule that [of ir1 i ?ir2])
    show "update_inst ir1 i f = Inr ?ir2" using i by (simp add: update_inst_def get_inst_def)
    show "ir_inv ?ir2 (L(i \<mapsto> []))" by (rule update_inv [OF n(2) i f(1,3)]) (use f(2) in \<open>simp add: fresh_inst_def\<close>)
    show "ir_insts ?ir2 = (ir_insts ir)(i \<mapsto> f (fresh_inst t))" using all by simp
    show "ir_values ?ir2 v \<noteq> None" if "ir_values ir v \<noteq> None" for v using that n(6) by simp
    show "operands ?ir2 j = operands ir j" if "j \<noteq> i" for j
      using that all n(9) by (simp add: operands_def split: option.split)
    show "operands ?ir2 i = replicate (use_slots t) None" using f(1) by (simp add: operands_def fresh_inst_def)
  qed (use n all in simp_all)
qed

lemma fresh_shape: "t \<noteq> INST_PHI \<Longrightarrow> t \<noteq> INST_FUNCTION_CALL \<Longrightarrow>
    inst_shape (fresh_inst t) \<and> inst_shape (fresh_inst t\<lparr>i_rId := r\<rparr>) \<and> inst_shape (fresh_inst t\<lparr>i_op := o'\<rparr>)"
  by (cases t) (auto simp: inst_shape_def fresh_inst_def)

lemma fresh_fields [simp]: "i_uses (fresh_inst t) = replicate (use_slots t) 0" "i_parent (fresh_inst t) = 0"
  "i_type (fresh_inst t) = t" "i_useCount (fresh_inst t) = 0" "i_useReserve (fresh_inst t) = 0"
  by (simp_all add: fresh_inst_def)

lemma fresh_count [simp]: "inst_count (fresh_inst INST_ASSIGN_VAR) = 1" "inst_count (fresh_inst INST_BINARY) = 2"
  "inst_count (fresh_inst INST_JUMP) = 1" "inst_count (fresh_inst INST_JUMP_COND) = 3"
  "inst_count (fresh_inst INST_LOAD_VAR) = 0" "inst_count (fresh_inst INST_RETURN) = 0"
  by (simp_all add: inst_count_def inst_getUses_def fresh_inst_def)

text \<open>
  What a constructor adds to a context: an instruction at a fresh address, in no block, with the fields of \<open>x\<close>
  and the operands \<open>ops\<close>; all else stays.
\<close>

definition makes :: "ir_context \<Rightarrow> ir_context \<Rightarrow> ptr \<Rightarrow> instruction_t \<Rightarrow> data_type \<Rightarrow> ptr option list \<Rightarrow> bool" where
  "makes ir ir' i x dt ops \<longleftrightarrow> (\<exists>us. ir_insts ir' = (ir_insts ir)(i \<mapsto> x\<lparr>i_uses := us\<rparr>)) \<and> ir_insts ir i = None \<and> ir_values ir i = None \<and>
     ir_values ir' = (ir_values ir)(i \<mapsto> \<lparr>v_dataType = dt, v_type = INST, v_name = Some \<lparr>rmem = [], rsize = 0\<rparr>\<rparr>) \<and>
     ir_blocks ir' = ir_blocks ir \<and> ir_functions ir' = ir_functions ir \<and> operands ir' i = ops \<and>
     (\<forall>j. j \<noteq> i \<longrightarrow> operands ir' j = operands ir j) \<and> \<not> inserted ir' i \<and>
     (\<forall>b. is_block ir b \<longrightarrow> block_instructions ir' b = block_instructions ir b)"

lemma makesD:
  assumes "makes ir ir' i x dt ops"
  shows "\<exists>us. ir_insts ir' i = Some (x\<lparr>i_uses := us\<rparr>)" and "j \<noteq> i \<Longrightarrow> ir_insts ir' j = ir_insts ir j" and "ir_insts ir i = None"
    and "ir_values ir i = None" and "is_value ir' v \<longleftrightarrow> is_value ir v \<or> v = i"
    and "ir_blocks ir' = ir_blocks ir" and "ir_functions ir' = ir_functions ir" and "operands ir' i = ops"
    and "j \<noteq> i \<Longrightarrow> operands ir' j = operands ir j" and "\<not> inserted ir' i"
    and "is_block ir b \<Longrightarrow> block_instructions ir' b = block_instructions ir b" and "is_block ir' b = is_block ir b"
    and "ir_values ir' i = Some \<lparr>v_dataType = dt, v_type = INST, v_name = Some \<lparr>rmem = [], rsize = 0\<rparr>\<rparr>"
    and "v \<noteq> i \<Longrightarrow> ir_values ir' v = ir_values ir v"
  using assms unfolding makes_def by (auto simp: is_value_def is_block_def)

lemma instructions_same:
  assumes ok: "ir_ok ir L" and ok': "ir_ok ir' L'" and b: "is_block ir b" and L: "L' (b + 1) = L (b + 1)"
  shows "block_instructions ir' b = block_instructions ir b"
proof -
  obtain f where f: "ir_blocks ir b = Some f" using b by (auto simp: is_block_def)
  obtain cs where cs: "L (b + 1) = Some cs" using block_list [OF ok f] by blast
  with L block_instructions_eq(2) [OF ok] block_instructions_eq(2) [OF ok'] show ?thesis by simp
qed

fun set_uses :: "ir_context \<Rightarrow> ptr \<Rightarrow> nat \<Rightarrow> ptr list \<Rightarrow> ir_context res" where
  "set_uses ir i k [] = Inr ir"
| "set_uses ir i k (v # vs) = bindE (inst_setUse ir i k v) (\<lambda>ir. set_uses ir i (k + 1) vs)"

lemma set_uses_ok:
  assumes "ir_inv ir L" and "ir_insts ir i = Some x" and "k + length vs \<le> inst_count x" and "\<forall>v \<in> set vs. ir_values ir v \<noteq> None"
  shows "\<exists>ir' L' us. set_uses ir i k vs = Inr ir' \<and> ir_inv ir' L' \<and> ir_insts ir' = (ir_insts ir)(i \<mapsto> x\<lparr>i_uses := us\<rparr>) \<and>
    length us = length (i_uses x) \<and> (\<forall>j < length us. us ! j \<noteq> 0 \<or> (us ! j = i_uses x ! j \<and> \<not> (k \<le> j \<and> j < k + length vs))) \<and>
    operands ir' i = take k (operands ir i) @ map Some vs @ drop (k + length vs) (operands ir i) \<and>
    (\<forall>j. j \<noteq> i \<longrightarrow> operands ir' j = operands ir j) \<and> ir_values ir' = ir_values ir \<and> ir_blocks ir' = ir_blocks ir \<and>
    ir_functions ir' = ir_functions ir \<and> (\<forall>l. ir_values ir l = None \<longrightarrow> L' l = L l)"
  using assms
proof (induction vs arbitrary: ir L x k)
  case Nil
  then have "(ir_insts ir)(i \<mapsto> x\<lparr>i_uses := i_uses x\<rparr>) = ir_insts ir" by (simp add: map_upd_triv)
  with Nil show ?case by (intro exI [of _ ir] exI [of _ L] exI [of _ "i_uses x"]) simp
next
  case (Cons v vs)
  note inv = Cons.prems(1) and x = Cons.prems(2)
  have k: "k < inst_count x" and v: "ir_values ir v \<noteq> None" using Cons.prems by simp_all
  have len: "inst_count x \<le> length (i_uses x)" "length (operands ir i) = length (i_uses x)"
    using shape_uses(2) blocks_D(4) [OF ir_ok_D(3) [OF ir_inv_D(1) [OF inv]] x] length_operands [OF x] by blast+
  obtain ir1 L1 u where s: "inst_setUse ir i k v = Inr ir1" "ir_inv ir1 L1" "u \<noteq> 0"
    "operands ir1 i = (operands ir i)[k := Some v]" "\<And>j. j \<noteq> i \<Longrightarrow> operands ir1 j = operands ir j"
    "ir_insts ir1 = (ir_insts ir)(i \<mapsto> x\<lparr>i_uses := (i_uses x)[k := u]\<rparr>)"
    "ir_values ir1 = ir_values ir" "ir_blocks ir1 = ir_blocks ir" "ir_functions ir1 = ir_functions ir"
    "\<And>l. ir_values ir l = None \<Longrightarrow> L1 l = L l"
    by (rule setUse_inv [OF inv x k v]) (rule that; assumption)
  let ?x = "x\<lparr>i_uses := (i_uses x)[k := u]\<rparr>"
  have "ir_insts ir1 i = Some ?x" "k + 1 + length vs \<le> inst_count ?x" "\<forall>v \<in> set vs. ir_values ir1 v \<noteq> None"
    using s Cons.prems by simp_all
  from Cons.IH [OF s(2) this] obtain ir2 L2 us where t: "set_uses ir1 i (k + 1) vs = Inr ir2" "ir_inv ir2 L2"
    "ir_insts ir2 = (ir_insts ir1)(i \<mapsto> ?x\<lparr>i_uses := us\<rparr>)" "length us = length (i_uses ?x)"
    "\<forall>j < length us. us ! j \<noteq> 0 \<or> (us ! j = i_uses ?x ! j \<and> \<not> (k + 1 \<le> j \<and> j < k + 1 + length vs))"
    "operands ir2 i = take (k + 1) (operands ir1 i) @ map Some vs @ drop (k + 1 + length vs) (operands ir1 i)"
    "\<forall>j. j \<noteq> i \<longrightarrow> operands ir2 j = operands ir1 j" "ir_values ir2 = ir_values ir1" "ir_blocks ir2 = ir_blocks ir1"
    "ir_functions ir2 = ir_functions ir1" "\<forall>l. ir_values ir1 l = None \<longrightarrow> L2 l = L1 l" by blast
  have "operands ir2 i = take k (operands ir i) @ map Some (v # vs) @ drop (k + length (v # vs)) (operands ir i)"
    using t(6) s(4) len k by (simp add: take_Suc_conv_app_nth)
  moreover have "\<forall>j < length us. us ! j \<noteq> 0 \<or> (us ! j = i_uses x ! j \<and> \<not> (k \<le> j \<and> j < k + length (v # vs)))"
  proof (intro allI impI)
    fix j assume "j < length us"
    with t(4,5) s(3) show "us ! j \<noteq> 0 \<or> (us ! j = i_uses x ! j \<and> \<not> (k \<le> j \<and> j < k + length (v # vs)))"
      by (cases "j = k") (auto simp: nth_list_update)
  qed
  moreover have "set_uses ir i k (v # vs) = Inr ir2" using s(1) t(1) by simp
  ultimately show ?case using s t by (intro exI [of _ ir2] exI [of _ L2] exI [of _ us]) simp
qed

lemma construct_ok:
  assumes inv: "ir_inv ir L" and c: "ir_complete ir" and t: "t \<noteq> INST_PHI"
    and f: "i_uses (f (fresh_inst t)) = i_uses (fresh_inst t)" "i_parent (f (fresh_inst t)) = 0" "inst_shape (f (fresh_inst t))"
      "i_type (f (fresh_inst t)) = t"
    and n: "inst_count (f (fresh_inst t)) = length vs" and vs: "\<forall>v \<in> set vs. ir_values ir v \<noteq> None"
  obtains ir1 i ir2 ir3 L' where "inst_new ir t dt = Inr (ir1, i)" and "update_inst ir1 i f = Inr ir2" and "set_uses ir2 i 0 vs = Inr ir3"
    and "ir_inv ir3 L'" and "ir_complete ir3"
    and "makes ir ir3 i (f (fresh_inst t)) dt (map Some vs @ replicate (use_slots t - length vs) None)"
proof -
  let ?x = "f (fresh_inst t)"
  obtain ir1 i ir2 where m: "inst_new ir t dt = Inr (ir1, i)" "update_inst ir1 i f = Inr ir2" "ir_inv ir2 (L(i \<mapsto> []))"
    "ir_insts ir2 = (ir_insts ir)(i \<mapsto> ?x)" "ir_insts ir i = None" "\<And>j. j \<noteq> i \<Longrightarrow> operands ir2 j = operands ir j"
    "ir_blocks ir2 = ir_blocks ir" "operands ir2 i = replicate (use_slots t) None" "ir_functions ir2 = ir_functions ir"
    "ir_values ir2 = (ir_values ir)(i \<mapsto> \<lparr>v_dataType = dt, v_type = INST, v_name = Some \<lparr>rmem = [], rsize = 0\<rparr>\<rparr>)"
    "ir_values ir i = None" "\<not> in_lists (L(i \<mapsto> [])) (i + 1)" "4 dvd i"
    by (rule inst_make [OF inv, of f t dt, OF f(1-3)]) (rule that; assumption)
  note ok = ir_inv_D(1) [OF inv]
  have i: "ir_insts ir2 i = Some ?x" and vs2: "\<forall>v \<in> set vs. ir_values ir2 v \<noteq> None" using m(4,10) vs by auto
  from set_uses_ok [OF m(3) i _ vs2, of 0] n obtain ir3 L3 us where s: "set_uses ir2 i 0 vs = Inr ir3" "ir_inv ir3 L3"
    "ir_insts ir3 = (ir_insts ir2)(i \<mapsto> ?x\<lparr>i_uses := us\<rparr>)" "length us = length (i_uses ?x)"
    "\<forall>j < length us. us ! j \<noteq> 0 \<or> (us ! j = i_uses ?x ! j \<and> \<not> (0 \<le> j \<and> j < 0 + length vs))"
    "operands ir3 i = take 0 (operands ir2 i) @ map Some vs @ drop (0 + length vs) (operands ir2 i)"
    "\<forall>j. j \<noteq> i \<longrightarrow> operands ir3 j = operands ir2 j" "ir_values ir3 = ir_values ir2" "ir_blocks ir3 = ir_blocks ir2"
    "ir_functions ir3 = ir_functions ir2" "\<forall>l. ir_values ir2 l = None \<longrightarrow> L3 l = (L(i \<mapsto> [])) l" by auto
  have "length vs \<le> length us" using shape_uses(2) [OF f(3)] n s(4) by simp
  then have "us ! k \<noteq> 0" if "k < length vs" for k using s(5) that by (metis add_0 le0 order.strict_trans2)
  then have "inst_complete (?x\<lparr>i_uses := us\<rparr>)" using n t f(4) by (simp add: inst_complete_def)
  then have compl: "ir_complete ir3" by (rule complete_upd [OF c, of _ _ i]) (use s(3) m(4) in simp)
  have lists: "L3 (b + 1) = L (b + 1)" if blk: "is_block ir b" for b
  proof -
    obtain fn where b: "ir_blocks ir b = Some fn" using blk by (auto simp: is_block_def)
    have "b + 1 \<noteq> i" using object_atD [OF heap_D(4) [OF ir_ok_D(1) [OF ok] objectsI(3) [OF b]]] m(13) object_offsets(1) by blast
    with s(11) m(10) no_value_off [OF ir_ok_D(1) [OF ok] objectsI(3) [OF b]] show ?thesis by simp
  qed
  have i3: "ir_insts ir3 i = Some (?x\<lparr>i_uses := us\<rparr>)" using s(3) by simp
  have "\<not> inserted ir3 i"
  proof
    assume "inserted ir3 i"
    then have blk: "is_block ir3 0" using i3 f(2) by (simp add: inserted_def is_block_def)
    then obtain fn where "ir_blocks ir3 0 = Some fn" by (auto simp: is_block_def)
    from object_atD [OF heap_D(4) [OF ir_ok_D(1) [OF ir_inv_D(1) [OF s(2)]] objectsI(3) [OF this]]] show False by simp
  qed
  moreover have "block_instructions ir3 b = block_instructions ir b" if "is_block ir b" for b
    by (rule instructions_same [OF ok ir_inv_D(1) [OF s(2)] that lists [OF that]])
  ultimately have "makes ir ir3 i ?x dt (map Some vs @ replicate (use_slots t - length vs) None)"
    using m s unfolding makes_def by auto
  with that m(1,2) s(1,2) compl show thesis by blast
qed

lemma update_none: "inst_new ir t dt = Inr (ir1, i) \<Longrightarrow> update_inst ir1 i (\<lambda>x. x) = Inr ir2 \<Longrightarrow> ir2 = ir1"
  by (auto simp: update_inst_def get_inst_def set_inst_def map_upd_triv split: option.splits)

lemma inst_new_load_var_ok:
  assumes inv: "ir_inv ir L" and c: "ir_complete ir"
  obtains ir' L' i where "inst_new_load_var ir r t = Inr (ir', i)" and "ir_inv ir' L'" and "ir_complete ir'"
    and "makes ir ir' i (fresh_inst INST_LOAD_VAR\<lparr>i_rId := r\<rparr>) t []"
proof (rule construct_ok [OF inv c, of INST_LOAD_VAR "i_rId_update (\<lambda>_. r)" "[]" "t"])
  fix ir1 i ir2 ir3 L'
  assume 1: "inst_new ir INST_LOAD_VAR (t) = Inr (ir1, i)" and 2: "update_inst ir1 i (i_rId_update (\<lambda>_. r)) = Inr ir2" and 3: "set_uses ir2 i 0 [] = Inr ir3"
    and inv: "ir_inv ir3 L'" "ir_complete ir3"
    and m: "makes ir ir3 i ((i_rId_update (\<lambda>_. r)) (fresh_inst INST_LOAD_VAR)) (t) (map Some [] @ replicate (use_slots INST_LOAD_VAR - length []) None)"
  have "bindE (set_uses ir2 i 0 []) (\<lambda>ir. Inr (ir, i)) = Inr (ir3, i)" using 3 by simp
  then have "inst_new_load_var ir r t = Inr (ir3, i)" using 1 2  by (simp add: inst_new_load_var_def bindE_assoc)
  with m inv show thesis by (intro that [of ir3 i L']) simp_all
qed (use fresh_shape inv in simp_all)

lemma inst_new_assign_var_ok:
  assumes inv: "ir_inv ir L" and c: "ir_complete ir" and v: "ir_values ir v \<noteq> None"
  obtains ir' L' i where "inst_new_assign_var ir r v = Inr (ir', i)" and "ir_inv ir' L'" and "ir_complete ir'"
    and "makes ir ir' i (fresh_inst INST_ASSIGN_VAR\<lparr>i_rId := r\<rparr>) VOID [Some v]"
proof (rule construct_ok [OF inv c, of INST_ASSIGN_VAR "i_rId_update (\<lambda>_. r)" "[v]" "VOID"])
  fix ir1 i ir2 ir3 L'
  assume 1: "inst_new ir INST_ASSIGN_VAR (VOID) = Inr (ir1, i)" and 2: "update_inst ir1 i (i_rId_update (\<lambda>_. r)) = Inr ir2" and 3: "set_uses ir2 i 0 [v] = Inr ir3"
    and inv: "ir_inv ir3 L'" "ir_complete ir3"
    and m: "makes ir ir3 i ((i_rId_update (\<lambda>_. r)) (fresh_inst INST_ASSIGN_VAR)) (VOID) (map Some [v] @ replicate (use_slots INST_ASSIGN_VAR - length [v]) None)"
  have "bindE (set_uses ir2 i 0 [v]) (\<lambda>ir. Inr (ir, i)) = Inr (ir3, i)" using 3 by simp
  then have "inst_new_assign_var ir r v = Inr (ir3, i)" using 1 2 v by (simp add: inst_new_assign_var_def bindE_assoc)
  with m inv show thesis by (intro that [of ir3 i L']) simp_all
qed (use fresh_shape v in simp_all)

lemma inst_new_binary_ok:
  assumes inv: "ir_inv ir L" and c: "ir_complete ir" and a: "ir_values ir a = Some va" and b: "ir_values ir b = Some vb"
    and t: "v_dataType va = v_dataType vb"
  obtains ir' L' i where "inst_new_binary ir op a b = Inr (ir', i)" and "ir_inv ir' L'" and "ir_complete ir'"
    and "makes ir ir' i (fresh_inst INST_BINARY\<lparr>i_op := op\<rparr>) (v_dataType va) [Some a, Some b]"
proof (rule construct_ok [OF inv c, of INST_BINARY "i_op_update (\<lambda>_. op)" "[a, b]" "v_dataType va"])
  fix ir1 i ir2 ir3 L'
  assume 1: "inst_new ir INST_BINARY (v_dataType va) = Inr (ir1, i)" and 2: "update_inst ir1 i (i_op_update (\<lambda>_. op)) = Inr ir2" and 3: "set_uses ir2 i 0 [a, b] = Inr ir3"
    and inv: "ir_inv ir3 L'" "ir_complete ir3"
    and m: "makes ir ir3 i ((i_op_update (\<lambda>_. op)) (fresh_inst INST_BINARY)) (v_dataType va) (map Some [a, b] @ replicate (use_slots INST_BINARY - length [a, b]) None)"
  have "bindE (set_uses ir2 i 0 [a, b]) (\<lambda>ir. Inr (ir, i)) = Inr (ir3, i)" using 3 by simp
  then have "inst_new_binary ir op a b = Inr (ir3, i)" using 1 2 a b t by (simp add: inst_new_binary_def get_value_def bindE_assoc)
  with m inv show thesis by (intro that [of ir3 i L']) simp_all
qed (use fresh_shape a b t in simp_all)

lemma inst_new_jump_ok:
  assumes inv: "ir_inv ir L" and c: "ir_complete ir" and b: "ir_values ir b \<noteq> None"
  obtains ir' L' i where "inst_new_jump ir b = Inr (ir', i)" and "ir_inv ir' L'" and "ir_complete ir'"
    and "makes ir ir' i (fresh_inst INST_JUMP) VOID [Some b]"
proof (rule construct_ok [OF inv c, of INST_JUMP "\<lambda>x. x" "[b]" "VOID"])
  fix ir1 i ir2 ir3 L'
  assume 1: "inst_new ir INST_JUMP (VOID) = Inr (ir1, i)" and 2: "update_inst ir1 i (\<lambda>x. x) = Inr ir2" and 3: "set_uses ir2 i 0 [b] = Inr ir3"
    and inv: "ir_inv ir3 L'" "ir_complete ir3"
    and m: "makes ir ir3 i ((\<lambda>x. x) (fresh_inst INST_JUMP)) (VOID) (map Some [b] @ replicate (use_slots INST_JUMP - length [b]) None)"
  have "ir2 = ir1" using update_none [OF 1 2] .
  have "bindE (set_uses ir2 i 0 [b]) (\<lambda>ir. Inr (ir, i)) = Inr (ir3, i)" using 3 by simp
  then have "inst_new_jump ir b = Inr (ir3, i)" using 1 2 \<open>ir2 = ir1\<close> b by (simp add: inst_new_jump_def bindE_assoc)
  with m inv show thesis by (intro that [of ir3 i L']) simp_all
qed (use fresh_shape b in simp_all)

lemma inst_new_jump_cond_ok:
  assumes inv: "ir_inv ir L" and c: "ir_complete ir" and a: "ir_values ir a \<noteq> None" and b: "ir_values ir b \<noteq> None"
    and d: "ir_values ir d \<noteq> None"
  obtains ir' L' i where "inst_new_jump_cond ir a b d = Inr (ir', i)" and "ir_inv ir' L'" and "ir_complete ir'"
    and "makes ir ir' i (fresh_inst INST_JUMP_COND) VOID [Some a, Some b, Some d]"
proof (rule construct_ok [OF inv c, of INST_JUMP_COND "\<lambda>x. x" "[a, b, d]" "VOID"])
  fix ir1 i ir2 ir3 L'
  assume 1: "inst_new ir INST_JUMP_COND (VOID) = Inr (ir1, i)" and 2: "update_inst ir1 i (\<lambda>x. x) = Inr ir2" and 3: "set_uses ir2 i 0 [a, b, d] = Inr ir3"
    and inv: "ir_inv ir3 L'" "ir_complete ir3"
    and m: "makes ir ir3 i ((\<lambda>x. x) (fresh_inst INST_JUMP_COND)) (VOID) (map Some [a, b, d] @ replicate (use_slots INST_JUMP_COND - length [a, b, d]) None)"
  have "ir2 = ir1" using update_none [OF 1 2] .
  have "bindE (set_uses ir2 i 0 [a, b, d]) (\<lambda>ir. Inr (ir, i)) = Inr (ir3, i)" using 3 by simp
  then have "inst_new_jump_cond ir a b d = Inr (ir3, i)" using 1 2 \<open>ir2 = ir1\<close> a b d by (simp add: inst_new_jump_cond_def numeral_2_eq_2 bindE_assoc)
  with m inv show thesis by (intro that [of ir3 i L']) simp_all
qed (use fresh_shape a b d in simp_all)

lemma inst_new_return_ok:
  assumes inv: "ir_inv ir L" and c: "ir_complete ir"
  obtains ir' L' i where "inst_new_return ir = Inr (ir', i)" and "ir_inv ir' L'" and "ir_complete ir'"
    and "makes ir ir' i (fresh_inst INST_RETURN) VOID [None]"
proof (rule construct_ok [OF inv c, of INST_RETURN "\<lambda>x. x" "[]" "VOID"])
  fix ir1 i ir2 ir3 L'
  assume 1: "inst_new ir INST_RETURN (VOID) = Inr (ir1, i)" and 2: "update_inst ir1 i (\<lambda>x. x) = Inr ir2" and 3: "set_uses ir2 i 0 [] = Inr ir3"
    and inv: "ir_inv ir3 L'" "ir_complete ir3"
    and m: "makes ir ir3 i ((\<lambda>x. x) (fresh_inst INST_RETURN)) (VOID) (map Some [] @ replicate (use_slots INST_RETURN - length []) None)"
  have "ir2 = ir1" using update_none [OF 1 2] .
  have "bindE (set_uses ir2 i 0 []) (\<lambda>ir. Inr (ir, i)) = Inr (ir3, i)" using 3 by simp
  then have "inst_new_return ir = Inr (ir3, i)" using 1 2 \<open>ir2 = ir1\<close>  by (simp add: inst_new_return_def bindE_assoc)
  with m inv show thesis by (intro that [of ir3 i L']) simp_all
qed (use fresh_shape inv in simp_all)

lemma inst_new_phi_ok:
  assumes inv: "ir_inv ir L" and c: "ir_complete ir"
  obtains ir' L' i where "inst_new_phi ir t 0 = Inr (ir', i)" and "ir_inv ir' L'" and "ir_complete ir'"
    and "makes ir ir' i ((fresh_inst INST_PHI)\<lparr>i_useReserve := 16, i_useCount := 0, i_usesSet := False\<rparr>) t []"
proof -
  let ?f = "\<lambda>inst. inst\<lparr>i_useReserve := 16, i_useCount := 0, i_usesSet := False\<rparr>"
  obtain ir1 i ir2 where n: "inst_new ir INST_PHI t = Inr (ir1, i)" "update_inst ir1 i ?f = Inr ir2" "ir_inv ir2 (L(i \<mapsto> []))"
    "ir_insts ir2 = (ir_insts ir)(i \<mapsto> ?f (fresh_inst INST_PHI))" "\<not> in_lists (L(i \<mapsto> [])) (i + 2)"
    "ir_insts ir i = None" "\<And>j. j \<noteq> i \<Longrightarrow> operands ir2 j = operands ir j" "ir_blocks ir2 = ir_blocks ir" "ir_functions ir2 = ir_functions ir"
    "ir_values ir2 = (ir_values ir)(i \<mapsto> \<lparr>v_dataType = t, v_type = INST, v_name = Some \<lparr>rmem = [], rsize = 0\<rparr>\<rparr>)" "ir_values ir i = None"
    by (rule inst_make [OF inv, of ?f INST_PHI t]) (use that in \<open>auto simp: inst_shape_def\<close>)
  note ok2 = ir_inv_D(1) [OF n(3)]
  have i: "ir_insts ir2 i = Some (?f (fresh_inst INST_PHI))" using n(4) by simp
  obtain xs where xs: "(L(i \<mapsto> [])) ctx_specialInstructions = Some xs" using blocks_D(6) [OF ir_ok_D(3) [OF ok2]] by blast
  have cell: "i + 2 \<in> dom (ir_cells ir2)" "4 dvd i" using inst_cell [OF ok2 i] by simp_all
  obtain hp where hp: "on_lists (\<lambda>h. list_add h ctx_specialInstructions (i + 2)) ir2 = Inr (ir2\<lparr>ir_cells := hp\<rparr>)"
    "ir_lists hp (L(i \<mapsto> [], ctx_specialInstructions \<mapsto> xs @ [i + 2]))" "dom hp = dom (ir_cells ir2)"
    using lists_add [OF ir_ok_D(4) [OF ok2] xs cell(1) n(5)] .
  let ?L = "L(i \<mapsto> [], ctx_specialInstructions \<mapsto> xs @ [i + 2])" and ?ir3 = "ir2\<lparr>ir_cells := hp\<rparr>"
  have ok3: "ir_ok ?ir3 ?L"
  proof (rule ir_ok_ctx_list [OF ok2 _ _ hp(2,3)])
    show "ir_values ir2 ctx_specialInstructions = None" by (rule ctx_list_off(1) [OF ok2]) simp
    show "ctx_specialInstructions \<noteq> b + 1" if "ir_blocks ir2 b = Some f" for b f by (rule ctx_list_off(2) [OF ok2 _ that]) simp
  qed
  have links: "links_ok ?ir3 ?L"
  proof (rule links_frame [OF ir_inv_D(2) [OF n(3)]])
    show "ir_blocks ?ir3 b \<noteq> None \<and> ?L (b + 1) = (L(i \<mapsto> [])) (b + 1)" if "ir_blocks ir2 b = Some f" for b f
      using that ctx_list_off(2) [OF ok2 _ that] by auto
    fix j x assume j: "ir_insts ?ir3 j = Some x" "in_lists ?L (j + 1)"
    have "j + 1 \<noteq> i + 2" using inst_cell [OF ok3 j(1)] cell(2) object_offsets(3) by blast
    then have "in_lists (L(i \<mapsto> [])) (j + 1)"
      using in_lists_upd [OF j(2)] in_listsI [of "L(i \<mapsto> [])" ctx_specialInstructions xs "j + 1", OF xs]
      by (elim disjE) (auto simp only: set_append set_simps Un_iff insert_iff in_lists_def)
    with j(1) show "in_lists (L(i \<mapsto> [])) (j + 1) \<and> (\<exists>x'. ir_insts ir2 j = Some x' \<and> i_parent x' = i_parent x)" by simp
  qed
  have compl: "ir_complete ?ir3"
    by (rule complete_upd [OF c, of _ _ i]) (use n(4) in \<open>simp_all add: inst_complete_def inst_count_def inst_getUses_def\<close>)
  have "\<not> inserted ?ir3 i"
  proof
    assume "inserted ?ir3 i"
    then have "\<exists>fn. ir_blocks ir2 0 = Some fn" using i by (auto simp: inserted_def)
    then obtain fn where "ir_blocks ir2 0 = Some fn" ..
    from object_atD [OF heap_D(4) [OF ir_ok_D(1) [OF ok2] objectsI(3) [OF this]]] show False by simp
  qed
  moreover have "block_instructions ?ir3 b = block_instructions ir b" if b: "is_block ir b" for b
  proof (rule instructions_same [OF ir_inv_D(1) [OF inv] ok3 b])
    obtain fn where fn: "ir_blocks ir b = Some fn" using b by (auto simp: is_block_def)
    then have "b + 1 \<noteq> ctx_specialInstructions" using ctx_list_off(2) [OF ok2, of ctx_specialInstructions] n(8) by metis
    moreover have "b + 1 \<noteq> i"
      using object_atD [OF heap_D(4) [OF ir_ok_D(1) [OF ir_inv_D(1) [OF inv]] objectsI(3) [OF fn]]] cell(2) object_offsets(1) by blast
    ultimately show "?L (b + 1) = L (b + 1)" by simp
  qed
  moreover have "operands ?ir3 j = operands ir2 j" for j by (cases "ir_insts ir2 j") (simp_all add: operands_def)
  moreover have "operands ?ir3 i = []" using i by (simp add: operands_def)
  moreover have "ir_insts ?ir3 = (ir_insts ir)(i \<mapsto> (?f (fresh_inst INST_PHI))\<lparr>i_uses := []\<rparr>)" using n(4) by (simp add: fresh_inst_def)
  ultimately have "makes ir ?ir3 i (?f (fresh_inst INST_PHI)) t []"
    using n(6-11) unfolding makes_def by (intro conjI exI [of _ "[]"]) simp_all
  then show ?thesis using n(1,2) hp(1) ok3 links compl
    by (intro that [of ?ir3 i ?L]) (simp_all add: inst_new_phi_def ir_inv_def)
qed

lemma complete_use:
  assumes inv: "ir_inv ir L" and i: "ir_insts ir i = Some inst" and k: "k < length (i_uses inst)" "i_uses inst ! k \<noteq> 0"
  obtains v where "ir_uses ir (i_uses inst ! k) = Some \<lparr>u_inst = i, u_value = v\<rparr>" and "ir_values ir v \<noteq> None"
    and "operands ir i ! k = Some v"
proof -
  have "slot ir i k (i_uses inst ! k)" using i k by (simp add: slot_def)
  from uses_D(3) [OF ir_ok_D(2) [OF ir_inv_D(1) [OF inv]] this]
  obtain v where v: "ir_uses ir (i_uses inst ! k) = Some \<lparr>u_inst = i, u_value = v\<rparr>" "ir_values ir v \<noteq> None" by blast
  with that i k show ?thesis by (simp add: operands_def)
qed

lemma phi_search_ok:
  assumes inv: "ir_inv ir L" and i: "ir_insts ir p = Some inst" and ks: "\<forall>k \<in> set ks. 2 * k + 1 < length (i_uses inst)"
    and c: "\<forall>k < length (i_uses inst). i_uses inst ! k \<noteq> 0"
  shows "phi_search ir (Some (i_uses inst)) b v ks =
    Inr (\<exists>k \<in> set ks. operands ir p ! (2 * k) = Some b \<and> operands ir p ! (2 * k + 1) = Some v)"
  using ks
proof (induction ks)
  case (Cons k ks)
  then have k: "2 * k < length (i_uses inst)" "2 * k + 1 < length (i_uses inst)" by simp_all
  with c have nz: "i_uses inst ! (2 * k) \<noteq> 0" "i_uses inst ! (2 * k + 1) \<noteq> 0" by blast+
  obtain v1 where 1: "ir_uses ir (i_uses inst ! (2 * k)) = Some \<lparr>u_inst = p, u_value = v1\<rparr>" "operands ir p ! (2 * k) = Some v1"
    using complete_use [OF inv i k(1) nz(1)] .
  obtain v2 where 2: "ir_uses ir (i_uses inst ! (2 * k + 1)) = Some \<lparr>u_inst = p, u_value = v2\<rparr>"
    "operands ir p ! (2 * k + 1) = Some v2" using complete_use [OF inv i k(2) nz(2)] .
  show ?case using Cons k 1 2 by (simp add: read_use_def get_use_def)
qed simp

text \<open>The pair of a block and a value is among the operands of a phi.\<close>

definition has_pair :: "'a list \<Rightarrow> 'a \<Rightarrow> 'a \<Rightarrow> bool" where
  "has_pair xs x y \<longleftrightarrow> (\<exists>k \<in> set [0 ..< length xs div 2]. xs ! (2 * k) = x \<and> xs ! (2 * k + 1) = y)"

lemma extend_inv:
  assumes inv: "ir_inv ir L" and i: "ir_insts ir i = Some inst" and x: "i_uses x = i_uses inst @ replicate n 0" "inst_shape x"
    "i_parent x = i_parent inst"
  shows "ir_inv (set_inst ir i x) L"
proof -
  have "links_ok (set_inst ir i x) L"
    by (rule links_frame [OF ir_inv_D(2) [OF inv]]) (use i x(3) in \<open>auto split: if_splits\<close>)
  with ir_ok_extend [OF ir_inv_D(1) [OF inv] i x(1,2)] x(3) show ?thesis by (simp add: ir_inv_def)
qed

lemma phi_count: "i_type inst = INST_PHI \<Longrightarrow> inst_count inst = i_useCount inst"
  by (simp add: inst_count_def inst_getUses_def)

lemma operands_set_inst_other: "j \<noteq> i \<Longrightarrow> operands (set_inst ir i x) j = operands ir j"
  by (simp add: operands_def split: option.split)

lemma inst_phi_insertValue_ok:
  assumes inv: "ir_inv ir L" and c: "ir_complete ir" and p: "ir_insts ir p = Some inst" "i_type inst = INST_PHI" "i_useCount inst < 32"
    and b: "ir_values ir b \<noteq> None" and v: "ir_values ir v \<noteq> None"
  obtains ir' L' where "inst_phi_insertValue ir p b v = Inr ir'" and "ir_inv ir' L'" and "ir_complete ir'"
    and "operands ir' p = (if has_pair (operands ir p) (Some b) (Some v) then operands ir p else operands ir p @ [Some b, Some v])"
    and "\<And>j. j \<noteq> p \<Longrightarrow> operands ir' j = operands ir j"
    and "\<exists>us set n. ir_insts ir' = (ir_insts ir)(p \<mapsto> inst\<lparr>i_usesSet := set, i_useCount := n, i_uses := us\<rparr>)"
    and "ir_values ir' = ir_values ir" and "ir_blocks ir' = ir_blocks ir" and "ir_functions ir' = ir_functions ir"
    and "\<And>c. is_block ir c \<Longrightarrow> block_instructions ir' c = block_instructions ir c"
proof -
  note ok = ir_inv_D(1) [OF inv]
  have shape: "inst_shape inst" using blocks_D(4) [OF ir_ok_D(3) [OF ok] p(1)] by blast
  with p(2) have n: "i_useCount inst = length (i_uses inst)" "i_usesSet inst \<or> i_uses inst = []" by (auto simp: inst_shape_def)
  have cnt: "inst_count inst = length (i_uses inst)" using p(2) n(1) by (simp add: inst_count_def inst_getUses_def)
  have full: "\<forall>k < length (i_uses inst). i_uses inst ! k \<noteq> 0" "i_useReserve inst = 16" "even (length (i_uses inst))"
    using c [unfolded ir_complete_def, rule_format, OF p(1)] p(2) n(1) cnt by (auto simp: inst_complete_def)
  from full(3) obtain m where m: "length (i_uses inst) = 2 * m" by (elim evenE)
  let ?us = "if i_usesSet inst then Some (i_uses inst) else None" and ?ks = "[0 ..< (i_useCount inst + 1) div 2]"
  have search: "phi_search ir ?us b v ?ks = Inr (has_pair (operands ir p) (Some b) (Some v))"
  proof (cases "i_uses inst = []")
    case False
    moreover have "\<forall>k \<in> set ?ks. 2 * k + 1 < length (i_uses inst)" using m n(1) by auto
    moreover have "length (operands ir p) div 2 = (i_useCount inst + 1) div 2" using length_operands [OF p(1)] m n(1) by simp
    ultimately show ?thesis using phi_search_ok [OF inv p(1) _ full(1), of ?ks b v] n(2) by (simp add: has_pair_def)
  qed (use n(1) length_operands [OF p(1)] in \<open>simp add: has_pair_def\<close>)
  show ?thesis
  proof (cases "has_pair (operands ir p) (Some b) (Some v)")
    case True
    have "ir_insts ir = (ir_insts ir)(p \<mapsto> inst\<lparr>i_usesSet := i_usesSet inst, i_useCount := i_useCount inst, i_uses := i_uses inst\<rparr>)"
      using p(1) by (simp add: map_upd_triv)
    then have "\<exists>us set n. ir_insts ir = (ir_insts ir)(p \<mapsto> inst\<lparr>i_usesSet := set, i_useCount := n, i_uses := us\<rparr>)" by blast
    with True search p(1) inv c show ?thesis by (intro that [of ir L]) (simp_all add: inst_phi_insertValue_def get_inst_def)
  next
    case False
    let ?x = "inst\<lparr>i_uses := i_uses inst @ [0, 0], i_usesSet := True, i_useCount := i_useCount inst + 2\<rparr>"
    let ?ir1 = "set_inst ir p ?x"
    have inv1: "ir_inv ?ir1 L"
      by (rule extend_inv [OF inv p(1), where n = 2]) (use p(2) n in \<open>auto simp: inst_shape_def numeral_2_eq_2\<close>)
    have i1: "ir_insts ?ir1 p = Some ?x" and cx: "inst_count ?x = length (i_uses inst) + 2" and v1: "ir_values ?ir1 b \<noteq> None"
      using p(2) n(1) b by (simp_all add: inst_count_def inst_getUses_def)
    have o1: "operands ?ir1 p = operands ir p @ [None, None]" using p(1) by (simp add: operands_def)
    obtain ir2 L2 u1 where s: "inst_setUse ?ir1 p (length (i_uses inst)) b = Inr ir2" "ir_inv ir2 L2" "u1 \<noteq> 0"
      "operands ir2 p = (operands ?ir1 p)[length (i_uses inst) := Some b]" "\<And>j. j \<noteq> p \<Longrightarrow> operands ir2 j = operands ?ir1 j"
      "ir_insts ir2 = (ir_insts ?ir1)(p \<mapsto> ?x\<lparr>i_uses := i_uses inst @ [u1, 0]\<rparr>)" "ir_values ir2 = ir_values ?ir1" "ir_blocks ir2 = ir_blocks ?ir1" "ir_functions ir2 = ir_functions ?ir1"
      "\<And>l. ir_values ?ir1 l = None \<Longrightarrow> L2 l = L l"
      by (rule setUse_inv [OF inv1 i1 _ v1, of "length (i_uses inst)"]) (use that cx in \<open>auto simp: list_update_append\<close>)
    have i2: "ir_insts ir2 p = Some (?x\<lparr>i_uses := i_uses inst @ [u1, 0]\<rparr>)" and v2: "ir_values ir2 v \<noteq> None" using s v by simp_all
    obtain ir3 L3 u2 where s2: "inst_setUse ir2 p (length (i_uses inst) + 1) v = Inr ir3" "ir_inv ir3 L3" "u2 \<noteq> 0"
      "operands ir3 p = (operands ir2 p)[length (i_uses inst) + 1 := Some v]" "\<And>j. j \<noteq> p \<Longrightarrow> operands ir3 j = operands ir2 j"
      "ir_insts ir3 = (ir_insts ir2)(p \<mapsto> ?x\<lparr>i_uses := i_uses inst @ [u1, u2]\<rparr>)"
      "ir_values ir3 = ir_values ir2" "ir_blocks ir3 = ir_blocks ir2" "ir_functions ir3 = ir_functions ir2"
      "\<And>l. ir_values ir2 l = None \<Longrightarrow> L3 l = L2 l"
      by (rule setUse_inv [OF s(2) i2 _ v2, of "length (i_uses inst) + 1"])
        (use that p(2) n(1) in \<open>auto simp: list_update_append phi_count\<close>)
    have "inst_complete (?x\<lparr>i_uses := i_uses inst @ [u1, u2]\<rparr>)"
      using full n(1) s(3) s2(3) p(2) by (auto simp: inst_complete_def nth_append less_Suc_eq phi_count)
    then have "ir_complete ir3" by (rule complete_upd [OF c, of _ _ p]) (use s(6) s2(6) in simp)
    moreover have "operands ir3 p = operands ir p @ [Some b, Some v]"
      using s2(4) s(4) o1 length_operands [OF p(1)] by (simp add: list_update_append)
    moreover have "operands ir3 j = operands ir j" if "j \<noteq> p" for j
      using s2(5) [OF that] s(5) [OF that] operands_set_inst_other [OF that] by simp
    moreover have "length (i_uses inst) < 31" using m p(3) n(1) by presburger
    then have "inst_phi_insertValue ir p b v = Inr ir3"
      using search False p(1,3) n(1) full(2) s(1) s2(1) by (simp add: inst_phi_insertValue_def get_inst_def ptrs_push_def)
    moreover have "block_instructions ir3 d = block_instructions ir d" if d: "is_block ir d" for d
    proof (rule instructions_same [OF ok ir_inv_D(1) [OF s2(2)] d])
      obtain f where "ir_blocks ir d = Some f" using d by (auto simp: is_block_def)
      then have "ir_values ir (d + 1) = None" using no_value_off [OF ir_ok_D(1) [OF ok] objectsI(3)] by blast
      then show "L3 (d + 1) = L (d + 1)" using s(7,10) s2(7,10) by simp
    qed
    moreover have "ir_insts ir3 = (ir_insts ir)(p \<mapsto> inst\<lparr>i_usesSet := True, i_useCount := i_useCount inst + 2, i_uses := i_uses inst @ [u1, u2]\<rparr>)"
      using s(6) s2(6) by simp
    then have "\<exists>us set n. ir_insts ir3 = (ir_insts ir)(p \<mapsto> inst\<lparr>i_usesSet := set, i_useCount := n, i_uses := us\<rparr>)" by blast
    ultimately show ?thesis using s(7-9) s2(2,7-9) False by (intro that [of ir3 L3]) simp_all
  qed
qed

section \<open>Instructions move, values are replaced\<close>

lemma separate_of: "ir_inv ir L \<Longrightarrow> separate L"
  using ir_ok_D(4) [OF ir_inv_D(1)] by (simp add: ir_lists_def)

lemma reparent_links:
  assumes inv: "ir_inv ir L" and i: "ir_insts ir i = Some inst" and d: "\<not> in_lists L (i + 1)"
  shows "links_ok (set_inst ir i (inst\<lparr>i_parent := b\<rparr>)) L"
  by (rule links_frame [OF ir_inv_D(2) [OF inv]]) (use d in \<open>auto split: if_splits\<close>)

lemma insert_keeps:
  assumes inv: "ir_inv ir L" and c: "ir_complete ir" and b: "is_block ir b" and i: "ir_insts ir i = Some inst" and d: "\<not> inserted ir i"
  shows "keeps (block_insert ir b i)" and "keeps (block_insertTop ir b i)"
proof -
  note ok = ir_inv_D(1) [OF inv]
  obtain f where f: "ir_blocks ir b = Some f" using b by (auto simp: is_block_def)
  obtain cs where cs: "L (b + 1) = Some cs" using block_list [OF ok f] by blast
  have nl: "\<not> in_lists L (i + 1)" using inserted_iff [OF ok ir_inv_D(2) [OF inv] i] d by simp
  let ?ir = "set_inst ir i (inst\<lparr>i_parent := b\<rparr>)"
  have compl: "ir_complete (?ir\<lparr>ir_cells := h\<rparr>)" for h
    by (rule complete_upd [OF c, of "inst\<lparr>i_parent := b\<rparr>" _ i]) (use c i in \<open>auto simp: ir_complete_def\<close>)
  have links: "links_ok (?ir\<lparr>ir_cells := h\<rparr>) (L(b + 1 \<mapsto> ys))" if "ir_ok (?ir\<lparr>ir_cells := h\<rparr>) (L(b + 1 \<mapsto> ys))" for h ys
    by (rule links_relink [OF reparent_links [OF inv i nl] that _ _ _ separate_of [OF inv]]) (use f in simp_all)
  obtain h where "block_insert ir b i = Inr (?ir\<lparr>ir_cells := h\<rparr>)" "ir_ok (?ir\<lparr>ir_cells := h\<rparr>) (L(b + 1 \<mapsto> cs @ [i + 1]))"
    using block_insert_ok [OF ok f cs i nl] .
  with links compl show "keeps (block_insert ir b i)" unfolding keeps_def ir_inv_def by blast
  obtain h' where "block_insertTop ir b i = Inr (?ir\<lparr>ir_cells := h'\<rparr>)" "ir_ok (?ir\<lparr>ir_cells := h'\<rparr>) (L(b + 1 \<mapsto> (i + 1) # cs))"
    using block_insertTop_ok [OF ok f cs i nl] .
  with links compl show "keeps (block_insertTop ir b i)" unfolding keeps_def ir_inv_def by blast
qed

lemma inserted_place:
  assumes inv: "ir_inv ir L" and "inserted ir i"
  obtains inst f us vs where "ir_insts ir i = Some inst" and "ir_blocks ir (i_parent inst) = Some f"
    and "L (i_parent inst + 1) = Some (us @ (i + 1) # vs)"
proof -
  obtain inst where i: "ir_insts ir i = Some inst" using assms(2) by (auto simp: inserted_def split: option.splits)
  with assms(2) inserted_iff [OF ir_inv_D(1) [OF inv] ir_inv_D(2) [OF inv] i] have "in_lists L (i + 1)" by simp
  then obtain f cs where p: "ir_blocks ir (i_parent inst) = Some f" "L (i_parent inst + 1) = Some cs" "i + 1 \<in> set cs"
    using links_D [OF ir_inv_D(2) [OF inv] i] by blast
  from split_list [OF p(3)] obtain us vs where "cs = us @ (i + 1) # vs" by blast
  with that i p show ?thesis by blast
qed

lemma insertAfter_keeps:
  assumes inv: "ir_inv ir L" and c: "ir_complete ir" and i: "inserted ir i" and a: "ir_insts ir a = Some inst"
    and d: "\<not> inserted ir a" "parent_of ir a = parent_of ir i"
  shows "keeps (inst_insertAfter ir i a)"
proof -
  note ok = ir_inv_D(1) [OF inv]
  obtain x f us vs where p: "ir_insts ir i = Some x" "ir_blocks ir (i_parent x) = Some f" "L (i_parent x + 1) = Some (us @ (i + 1) # vs)"
    using inserted_place [OF inv i] .
  have pa: "i_parent inst = i_parent x" using d(2) a p(1) by (simp add: parent_of_def)
  have nl: "\<not> in_lists L (a + 1)" using inserted_iff [OF ok ir_inv_D(2) [OF inv] a] d(1) by simp
  obtain h where h: "inst_insertAfter ir i a = Inr (ir\<lparr>ir_cells := h\<rparr>)"
    "ir_ok (ir\<lparr>ir_cells := h\<rparr>) (L(i_parent x + 1 \<mapsto> us @ (i + 1) # (a + 1) # vs))"
    using inst_insertAfter_ok [OF ok p(2,3) a pa nl] .
  have "links_ok (ir\<lparr>ir_cells := h\<rparr>) (L(i_parent x + 1 \<mapsto> us @ (i + 1) # (a + 1) # vs))"
    by (rule links_relink [OF ir_inv_D(2) [OF inv] h(2) p(2) _ _ separate_of [OF inv]]) simp_all
  with h show ?thesis by (intro keepsI [OF h(1)] complete_same [OF c]) (auto simp: ir_inv_def)
qed

lemma remove_keeps:
  assumes inv: "ir_inv ir L" and c: "ir_complete ir" and i: "inserted ir i"
  shows "keeps (inst_remove ir i)"
proof -
  note ok = ir_inv_D(1) [OF inv]
  obtain x f us vs where p: "ir_insts ir i = Some x" "ir_blocks ir (i_parent x) = Some f" "L (i_parent x + 1) = Some (us @ (i + 1) # vs)"
    using inserted_place [OF inv i] .
  obtain h where h: "inst_remove ir i = Inr (ir\<lparr>ir_cells := h\<rparr>)" "ir_ok (ir\<lparr>ir_cells := h\<rparr>) (L(i_parent x + 1 \<mapsto> us @ vs))"
    using inst_remove_ok [OF ok p(2,3)] by blast
  have "links_ok (ir\<lparr>ir_cells := h\<rparr>) (L(i_parent x + 1 \<mapsto> us @ vs))"
    by (rule links_relink [OF ir_inv_D(2) [OF inv] h(2) p(2) _ _ separate_of [OF inv]]) simp_all
  with h show ?thesis by (intro keepsI [OF h(1)] complete_same [OF c]) (auto simp: ir_inv_def)
qed

lemma replace_keeps:
  assumes inv: "ir_inv ir L" and c: "ir_complete ir" and v: "is_value ir v" "is_value ir r" "v \<noteq> r"
  shows "keeps (value_replaceAllUses (ir_top ir) ir v r)"
proof -
  note ok = ir_inv_D(1) [OF inv]
  have v': "ir_values ir v \<noteq> None" "ir_values ir r \<noteq> None" "r \<noteq> v" using v by (auto simp: is_value_def)
  obtain us where us: "L v = Some us" using uses_D(2) [OF ir_ok_D(2) [OF ok] v'(1)] by blast
  obtain ws where ws: "L r = Some ws" using uses_D(2) [OF ir_ok_D(2) [OF ok] v'(2)] by blast
  obtain ir' where s: "value_replaceAllUses (ir_top ir) ir v r = Inr ir'" "ir_ok ir' (L(v \<mapsto> [], r \<mapsto> ws @ us))"
    "ir_insts ir' = ir_insts ir" "ir_blocks ir' = ir_blocks ir"
    using replaceAllUses_ok [OF ok v'(1) us v'(2) ws v'(3) list_length_top [OF ok us]] by blast
  have "links_ok ir' (L(v \<mapsto> [], r \<mapsto> ws @ us))"
  proof (rule links_frame [OF ir_inv_D(2) [OF inv]])
    show "ir_blocks ir' b \<noteq> None \<and> (L(v \<mapsto> [], r \<mapsto> ws @ us)) (b + 1) = L (b + 1)" if "ir_blocks ir b = Some f" for b f
      using no_value_off [OF ir_ok_D(1) [OF ok] objectsI(3) [OF that]] that s(4) v' by auto
    fix j x assume j: "ir_insts ir' j = Some x" "in_lists (L(v \<mapsto> [], r \<mapsto> ws @ us)) (j + 1)"
    have "in_lists L (j + 1)"
      using in_lists_upd [OF j(2)] in_listsI [of L v us "j + 1"] us in_listsI [of L r ws "j + 1"] ws
      by (auto simp: in_lists_def split: if_splits)
    with j(1) s(3) show "in_lists L (j + 1) \<and> (\<exists>x'. ir_insts ir j = Some x' \<and> i_parent x' = i_parent x)" by simp
  qed
  with s(1,2) complete_same [OF c s(3)] show ?thesis by (intro keepsI [of _ ir']) (simp_all add: ir_inv_def)
qed

text \<open>A value gets other fields; its type stays.\<close>

lemma update_value_inv:
  assumes inv: "ir_inv ir L" and v: "ir_values ir v = Some x" and t: "v_type y = v_type x"
  shows "ir_inv (ir\<lparr>ir_values := (ir_values ir)(v \<mapsto> y)\<rparr>) L"
proof -
  note ok = ir_inv_D(1) [OF inv]
  note b = blocks_D [OF ir_ok_D(3) [OF ok]]
  let ?ir = "ir\<lparr>ir_values := (ir_values ir)(v \<mapsto> y)\<rparr>"
  have "uses_ok ?ir L"
    by (rule uses_ok_other [OF ir_ok_D(2) [OF ok]]) (use ir_ok_D(4) [OF ok] v in \<open>auto simp: slot_def split: if_splits\<close>)
  moreover have "heap_ok ?ir" by (rule heap_ok_cong [OF ir_ok_D(1) [OF ok]]) (use v in \<open>auto simp: objects_def\<close>)
  moreover have "blocks_ok ?ir L"
  proof (rule blocks_okI)
    show "\<exists>x. ir_values ?ir b = Some x \<and> v_type x = V_BLOCK" if "ir_blocks ?ir b = Some f" for b f
      using b(1) [of b f] that v t by auto
    show "\<exists>cs. L (b + 1) = Some cs \<and> (\<forall>c \<in> set cs. \<exists>i inst. c = i + 1 \<and> ir_insts ?ir i = Some inst \<and> i_parent inst = b)"
      if "ir_blocks ?ir b = Some f" for b f using b(2) [of b f] that by simp
    show "ir_blocks ?ir w \<noteq> None" if "ir_values ?ir w = Some z" "v_type z = V_BLOCK" for w z
      using b(3) [of w] that v t by (auto split: if_splits)
    show "inst_shape inst \<and> (\<exists>x. ir_values ?ir i = Some x \<and> v_type x = INST)" if "ir_insts ?ir i = Some inst" for i inst
      using b(4) [of i inst] that v t by auto
  qed (use b(5,6) in auto)
  moreover have "links_ok ?ir L" by (rule links_frame [OF ir_inv_D(2) [OF inv]]) auto
  ultimately show ?thesis by (simp add: ir_inv_def ir_ok_def)
qed

lemma set_entry_keeps:
  assumes inv: "ir_inv ir L" and c: "ir_complete ir" and f: "ir_functions ir fn = Some f"
  shows "keeps (run_call ir (Set_entry fn b))"
proof -
  note ok = ir_inv_D(1) [OF inv]
  let ?ir = "ir\<lparr>ir_functions := (ir_functions ir)(fn \<mapsto> f\<lparr>f_entry := Some b\<rparr>)\<rparr>"
  have "uses_ok ?ir L" by (rule uses_ok_frame [OF ir_ok_D(2) [OF ok]]) simp_all
  moreover have "heap_ok ?ir" by (rule heap_ok_cong [OF ir_ok_D(1) [OF ok]]) (use f in \<open>auto simp: objects_def\<close>)
  moreover have "blocks_ok ?ir L"
    by (rule blocks_ok_other [OF ir_ok_D(3) [OF ok]]) (use blocks_D(4-6) [OF ir_ok_D(3) [OF ok]] in auto)
  moreover have "links_ok ?ir L" by (rule links_frame [OF ir_inv_D(2) [OF inv]]) auto
  moreover have "ir_complete ?ir" by (rule complete_same [OF c]) simp
  ultimately show ?thesis using f by (intro keepsI [of _ ?ir L]) (simp_all add: ir_inv_def ir_ok_def get_function_def)
qed

lemma setName_keeps:
  assumes inv: "ir_inv ir L" and c: "ir_complete ir" and v: "is_value ir v"
    and n: "rsize name \<le> MAX_ZONE_ALLOCATION" "rsize name \<le> length (rmem name)"
  shows "keeps (value_setName ir v name)"
proof -
  obtain x where x: "ir_values ir v = Some x" using v by (auto simp: is_value_def)
  let ?y = "x\<lparr>v_name := Some \<lparr>rmem = range_view name, rsize = rsize name\<rparr>\<rparr>"
  have "value_setName ir v name = Inr (ir\<lparr>ir_values := (ir_values ir)(v \<mapsto> ?y)\<rparr>)"
    using x n by (simp add: value_setName_def get_value_def)
  moreover have "ir_inv (ir\<lparr>ir_values := (ir_values ir)(v \<mapsto> ?y)\<rparr>) L" by (rule update_value_inv [OF inv x]) simp
  ultimately show ?thesis by (rule keepsI) (rule complete_same [OF c], simp)
qed

lemma number_loop_ok:
  assumes "ir_inv ir L" and "ir_complete ir" and "\<forall>c \<in> set cs. ir_insts ir (c - 1) \<noteq> None" and "distinct (map (\<lambda>c. c - 1) cs)"
  shows "\<exists>ir'. number_loop ir n cs = Inr ir' \<and> ir_inv ir' L \<and> ir_complete ir' \<and>
    (\<forall>k < length cs. map_option i_num (ir_insts ir' (cs ! k - 1)) = Some (n + k)) \<and>
    (\<forall>i. i \<notin> set (map (\<lambda>c. c - 1) cs) \<longrightarrow> ir_insts ir' i = ir_insts ir i)"
  using assms
proof (induction cs arbitrary: ir n)
  case (Cons c cs)
  obtain x where x: "ir_insts ir (c - 1) = Some x" using Cons.prems(3) by auto
  let ?ir = "set_inst ir (c - 1) (x\<lparr>i_num := n\<rparr>)"
  have "inst_shape (x\<lparr>i_num := n\<rparr>)" using blocks_D(4) [OF ir_ok_D(3) [OF ir_inv_D(1) [OF Cons.prems(1)]] x] by simp
  then have inv: "ir_inv ?ir L" using update_inv [OF Cons.prems(1) x, of "x\<lparr>i_num := n\<rparr>"] by simp
  have compl: "ir_complete ?ir"
    by (rule complete_upd [OF Cons.prems(2), of "x\<lparr>i_num := n\<rparr>" _ "c - 1"]) (use Cons.prems(2) x in \<open>auto simp: ir_complete_def\<close>)
  have h: "\<forall>d \<in> set cs. ir_insts ?ir (d - 1) \<noteq> None" "distinct (map (\<lambda>c. c - 1) cs)" using Cons.prems(3,4) by auto
  obtain ir' where s: "number_loop ?ir (n + 1) cs = Inr ir'" "ir_inv ir' L" "ir_complete ir'"
    "\<forall>k < length cs. map_option i_num (ir_insts ir' (cs ! k - 1)) = Some (n + 1 + k)"
    "\<forall>i. i \<notin> set (map (\<lambda>c. c - 1) cs) \<longrightarrow> ir_insts ir' i = ir_insts ?ir i"
    using Cons.IH [OF inv compl h, of "n + 1"] by blast
  have "map_option i_num (ir_insts ir' ((c # cs) ! k - 1)) = Some (n + k)" if "k < length (c # cs)" for k
    using s(4,5) Cons.prems(4) that by (cases k) auto
  moreover have "number_loop ir n (c # cs) = Inr ir'" using s(1) x by (simp add: get_inst_def)
  ultimately show ?case using s(2,3,5) by (intro exI [of _ ir']) auto
qed simp

lemma block_inst_nodes:
  assumes ok: "ir_ok ir L" and b: "ir_blocks ir b = Some f" and cs: "L (b + 1) = Some cs"
  shows "\<forall>c \<in> set cs. c - 1 + 1 = c \<and> (\<exists>inst. ir_insts ir (c - 1) = Some inst \<and> i_parent inst = b)"
    and "distinct (map (\<lambda>c. c - 1) cs)"
proof -
  show *: "\<forall>c \<in> set cs. c - 1 + 1 = c \<and> (\<exists>inst. ir_insts ir (c - 1) = Some inst \<and> i_parent inst = b)"
    using blocks_D(2) [OF ir_ok_D(3) [OF ok] b] cs by auto
  have "ring (ir_cells ir) (b + 1) cs" using ir_ok_D(4) [OF ok] cs by (simp add: ir_lists_def)
  then have "distinct cs" by (simp add: ring_def)
  moreover have "inj_on (\<lambda>c. c - 1) (set cs)" by (rule inj_onI) (metis *)
  ultimately show "distinct (map (\<lambda>c. c - 1) cs)" by (simp add: distinct_map)
qed

lemma numberInst_ok:
  assumes inv: "ir_inv ir L" and c: "ir_complete ir" and b: "is_block ir b"
  shows "\<exists>ir'. block_numberInst (ir_top ir) ir b = Inr ir' \<and> ir_inv ir' L \<and> ir_complete ir' \<and>
    (\<forall>k < length (block_instructions ir b). map_option i_num (ir_insts ir' (block_instructions ir b ! k)) = Some k)"
proof -
  note ok = ir_inv_D(1) [OF inv]
  obtain f where f: "ir_blocks ir b = Some f" using b by (auto simp: is_block_def)
  obtain cs where cs: "L (b + 1) = Some cs" using block_list [OF ok f] by blast
  note n = block_inst_nodes [OF ok f cs] and e = block_instructions_eq [OF ok cs]
  obtain ir' where "number_loop ir 0 cs = Inr ir'" "ir_inv ir' L" "ir_complete ir'"
    "\<forall>k < length cs. map_option i_num (ir_insts ir' (cs ! k - 1)) = Some (0 + k)"
    using number_loop_ok [OF inv c _ n(2), of 0] n(1) by fastforce
  then show ?thesis using e by (intro exI [of _ ir']) (simp add: block_numberInst_def)
qed

section \<open>Sequences of calls\<close>

lemma init_keeps: "keeps ir_context_init"
proof -
  let ?c = "\<lparr>lprev = 0, lnext = 0\<rparr>"
  let ?ir = "\<lparr>ir_cells = [ctx_functions \<mapsto> ?c, ctx_specialInstructions \<mapsto> ?c], ir_values = Map.empty,
      ir_insts = Map.empty, ir_blocks = Map.empty, ir_uses = Map.empty, ir_consts = Map.empty,
      ir_functions = Map.empty, ir_top = 4\<rparr>"
  have ne: "ctx_specialInstructions \<noteq> ctx_functions" by (simp add: ctx_functions_def ctx_specialInstructions_def)
  have e: "\<not> in_lists Map.empty p" for p by (simp add: in_lists_def list_nodes_def)
  have "ir_lists (ir_cells ?ir) Map.empty" by (simp add: ir_lists_def separate_def list_nodes_def)
  then obtain h1 where 1: "on_lists (\<lambda>h. LIST_INIT h ctx_functions) ?ir = Inr (?ir\<lparr>ir_cells := h1\<rparr>)"
    "ir_lists h1 [ctx_functions \<mapsto> []]" "dom h1 = dom (ir_cells ?ir)"
    by (rule lists_init [OF _ _ e, of ?ir ctx_functions]) simp_all
  let ?ir1 = "?ir\<lparr>ir_cells := h1\<rparr>"
  have "ir_lists (ir_cells ?ir1) [ctx_functions \<mapsto> []]" "ctx_specialInstructions \<in> dom (ir_cells ?ir1)"
    "\<not> in_lists [ctx_functions \<mapsto> []] ctx_specialInstructions"
    using 1(2,3) ne by (auto simp: in_lists_def list_nodes_def split: if_splits option.splits)
  then obtain h2 where 2: "on_lists (\<lambda>h. LIST_INIT h ctx_specialInstructions) ?ir1 = Inr (?ir1\<lparr>ir_cells := h2\<rparr>)"
    "ir_lists h2 [ctx_functions \<mapsto> [], ctx_specialInstructions \<mapsto> []]" "dom h2 = dom (ir_cells ?ir1)"
    by (rule lists_init [of ?ir1 "[ctx_functions \<mapsto> []]" ctx_specialInstructions]) auto
  let ?ir2 = "?ir1\<lparr>ir_cells := h2\<rparr>" and ?L = "[ctx_functions \<mapsto> [], ctx_specialInstructions \<mapsto> []]"
  have "uses_ok ?ir2 ?L" by (rule uses_okI) (use 2(2) in \<open>auto simp: slot_def\<close>)
  moreover have "heap_ok ?ir2"
    using 1(3) 2(3) by (auto simp: heap_ok_def objects_def ctx_functions_def ctx_specialInstructions_def)
  moreover have "blocks_ok ?ir2 ?L" by (rule blocks_okI) (use ne in auto)
  moreover have "links_ok ?ir2 ?L" "ir_complete ?ir2" by (auto simp: links_ok_def ir_complete_def)
  moreover have "ir_context_init = Inr ?ir2" using 1(1) 2(1) by (simp add: ir_context_init_def)
  ultimately show ?thesis by (intro keepsI [of _ ?ir2 ?L]) (simp_all add: ir_inv_def ir_ok_def)
qed

lemma keeps_of: "f = Inr (ir', x) \<Longrightarrow> ir_inv ir' L \<Longrightarrow> ir_complete ir' \<Longrightarrow> keeps (bindE f (\<lambda>(ir, _). Inr ir))"
  by (intro keepsI [of _ ir' L]) simp_all

lemma call_keeps:
  assumes inv: "ir_inv ir L" and c: "ir_complete ir" and v: "valid_call ir call"
  shows "keeps (run_call ir call)"
proof (cases call)
  case (Assign_var r v)
  with v show ?thesis by (auto simp: is_value_def intro: inst_new_assign_var_ok [OF inv c] keeps_of)
next
  case (Binary t a b)
  with v obtain va vb where "ir_values ir a = Some va" "ir_values ir b = Some vb" "v_dataType va = v_dataType vb"
    by (auto simp: is_value_def)
  then show ?thesis using inst_new_binary_ok [OF inv c] keeps_of Binary by (metis run_call.simps(6))
next
  case (Jump b)
  with v block_value [OF inv] show ?thesis using inst_new_jump_ok [OF inv c] keeps_of by (metis run_call.simps(7) valid_call.simps(3))
next
  case (Jump_cond a b d)
  with v block_value [OF inv] show ?thesis using inst_new_jump_cond_ok [OF inv c] keeps_of
    by (metis run_call.simps(8) valid_call.simps(4) is_value_def)
next
  case (Phi_insert p b v')
  with v obtain inst where p: "ir_insts ir p = Some inst" "i_type inst = INST_PHI" "i_useCount inst < 32" "is_block ir b" "ir_values ir v' \<noteq> None"
    by (auto simp: is_value_def split: option.splits)
  obtain ir' L' where "inst_phi_insertValue ir p b v' = Inr ir'" "ir_inv ir' L'" "ir_complete ir'"
    by (rule inst_phi_insertValue_ok [OF inv c p(1-3) block_value [OF inv p(4)] p(5)])
  with Phi_insert show ?thesis by (intro keepsI [of _ ir' L']) simp_all
next
  case (Set_use i k v')
  with v obtain inst where i: "ir_insts ir i = Some inst" "k < inst_count inst" and v': "ir_values ir v' \<noteq> None"
    by (auto simp: is_value_def split: option.splits)
  obtain ir' L' u where s: "inst_setUse ir i k v' = Inr ir'" "ir_inv ir' L'" "u \<noteq> 0"
    "ir_insts ir' = (ir_insts ir)(i \<mapsto> inst\<lparr>i_uses := (i_uses inst)[k := u]\<rparr>)"
    by (rule setUse_inv [OF inv i v']) (rule that; assumption)
  have ci: "inst_complete inst" using c i(1) by (simp add: ir_complete_def)
  have "inst_count inst \<le> length (i_uses inst)"
    using shape_uses(2) blocks_D(4) [OF ir_ok_D(3) [OF ir_inv_D(1) [OF inv]] i(1)] by blast
  then have "(i_uses inst)[k := u] ! j \<noteq> 0" if "j < inst_count inst" for j
    using ci s(3) that by (cases "j = k") (auto simp: inst_complete_def)
  with ci have "inst_complete (inst\<lparr>i_uses := (i_uses inst)[k := u]\<rparr>)" by (simp add: inst_complete_def)
  from complete_upd [OF c this s(4)] s Set_use show ?thesis by (intro keepsI [of _ ir' L']) simp_all
next
  case (Insert_after i a)
  with v show ?thesis using insertAfter_keeps [OF inv c] by (auto simp: is_inst_def)
next
  case (Insert b i)
  with v show ?thesis using insert_keeps(1) [OF inv c] by (auto simp: is_inst_def)
next
  case (Insert_top b i)
  with v show ?thesis using insert_keeps(2) [OF inv c] by (auto simp: is_inst_def)
next
  case (Number b)
  with v numberInst_ok [OF inv c, of b] obtain ir' where
    "block_numberInst (ir_top ir) ir b = Inr ir'" "ir_inv ir' L" "ir_complete ir'" by auto
  with Number show ?thesis by auto
next
  case (Load_var r t)
  then show ?thesis using inst_new_load_var_ok [OF inv c] keeps_of by (metis run_call.simps(4))
next
  case Return
  then show ?thesis using inst_new_return_ok [OF inv c] keeps_of by (metis run_call.simps(9))
next
  case (Phi t)
  then show ?thesis using inst_new_phi_ok [OF inv c] keeps_of by (metis run_call.simps(10))
qed (use v keeps_function [OF inv c] keeps_block [OF inv c] keeps_constant [OF inv c] remove_keeps [OF inv c]
  replace_keeps [OF inv c] setName_keeps [OF inv c] set_entry_keeps [OF inv c] in auto)

text \<open>The states a client reaches from a fresh context.\<close>

inductive ir_reachable :: "ir_context \<Rightarrow> bool" where
  reach_init: "ir_context_init = Inr ir \<Longrightarrow> ir_reachable ir"
| reach_call: "ir_reachable ir \<Longrightarrow> valid_call ir call \<Longrightarrow> run_call ir call = Inr ir' \<Longrightarrow> ir_reachable ir'"

lemma reachable_inv:
  assumes "ir_reachable ir"
  obtains L where "ir_inv ir L" and "ir_complete ir"
proof -
  from assms have "\<exists>L. ir_inv ir L \<and> ir_complete ir"
  proof (induction)
    case (reach_init ir)
    have "keeps (Inr ir)" using init_keeps unfolding reach_init .
    then show ?case by simp
  next
    case (reach_call ir call ir')
    then show ?case using call_keeps [of ir _ call] by auto
  qed
  with that show thesis by blast
qed

text \<open>
  The uses in the list of a value are exactly the operands with that value, each once, and every operand
  is in the list of its value.
\<close>

definition use_list :: "ir_context \<Rightarrow> ptr \<Rightarrow> ptr list" where
  "use_list ir v = (case LIST_FOR_EACH (ir_top ir) (ir_cells ir) v of Inl e \<Rightarrow> [] | Inr us \<Rightarrow> us)"

definition uses_consistent :: "ir_context \<Rightarrow> bool" where
  "uses_consistent ir \<longleftrightarrow>
     (\<forall>v. is_value ir v \<longrightarrow> distinct (use_list ir v) \<and>
        (\<forall>u. u \<in> set (use_list ir v) \<longleftrightarrow> (\<exists>i k. slot ir i k u \<and> ir_uses ir u = Some \<lparr>u_inst = i, u_value = v\<rparr>))) \<and>
     (\<forall>i k u. slot ir i k u \<longrightarrow> (\<exists>v. ir_uses ir u = Some \<lparr>u_inst = i, u_value = v\<rparr> \<and> is_value ir v)) \<and>
     (\<forall>i k j m u. slot ir i k u \<longrightarrow> slot ir j m u \<longrightarrow> i = j \<and> k = m)"

lemma use_list_eq: "ir_ok ir L \<Longrightarrow> L v = Some us \<Longrightarrow> use_list ir v = us \<and> distinct us"
  using LIST_FOR_EACH_ring [OF _ list_length_top] ir_ok_D(4) il.rep_distinct
  by (fastforce simp: use_list_def ir_lists_def)

lemma inv_uses_consistent:
  assumes ok: "ir_ok ir L"
  shows "uses_consistent ir"
  unfolding uses_consistent_def
proof (intro conjI allI impI)
  note u = uses_D [OF ir_ok_D(2) [OF ok]]
  fix v assume v: "is_value ir v"
  then obtain us where us: "L v = Some us" using u(2) by (auto simp: is_value_def)
  note e = use_list_eq [OF ok us]
  then show "distinct (use_list ir v)" by simp
  fix x
  show "x \<in> set (use_list ir v) \<longleftrightarrow> (\<exists>i k. slot ir i k x \<and> ir_uses ir x = Some \<lparr>u_inst = i, u_value = v\<rparr>)"
  proof
    assume x: "x \<in> set (use_list ir v)"
    with e have x': "x \<in> set us" by simp
    obtain i k where s: "slot ir i k x" using u(4) [of v us x] us x' v by (auto simp: is_value_def)
    obtain w ws where w: "ir_uses ir x = Some \<lparr>u_inst = i, u_value = w\<rparr>" "L w = Some ws" "x \<in> set ws" using u(3) [OF s] by blast
    have "w = v" by (rule lists_unique [OF u(1) w(2) us, of x]) (use w(3) x' in simp_all)
    with s w(1) show "\<exists>i k. slot ir i k x \<and> ir_uses ir x = Some \<lparr>u_inst = i, u_value = v\<rparr>" by blast
  next
    assume "\<exists>i k. slot ir i k x \<and> ir_uses ir x = Some \<lparr>u_inst = i, u_value = v\<rparr>"
    then obtain i k where s: "slot ir i k x" "ir_uses ir x = Some \<lparr>u_inst = i, u_value = v\<rparr>" by blast
    from u(3) [OF s(1)] s(2) us e show "x \<in> set (use_list ir v)" by auto
  qed
next
  fix i k x assume "slot ir i k x"
  from uses_D(3) [OF ir_ok_D(2) [OF ok] this] show "\<exists>v. ir_uses ir x = Some \<lparr>u_inst = i, u_value = v\<rparr> \<and> is_value ir v"
    by (auto simp: is_value_def)
next
  fix i k j m x assume "slot ir i k x" "slot ir j m x"
  from uses_D(5) [OF ir_ok_D(2) [OF ok] this] show "i = j" and "k = m" by simp_all
qed

text \<open>Programs of calls, stopped at the first one that does not keep its requirements.\<close>

fun run_calls :: "ir_context \<Rightarrow> ir_call list \<Rightarrow> ir_context res" where
  "run_calls ir [] = Inr ir"
| "run_calls ir (c # cs) = (if valid_call ir c then bindE (run_call ir c) (\<lambda>ir. run_calls ir cs) else Inl AssertFail)"

definition ir_program :: "ir_call list \<Rightarrow> ir_context res" where
  "ir_program cs = bindE ir_context_init (\<lambda>ir. run_calls ir cs)"

lemma run_calls_reachable: "ir_reachable ir \<Longrightarrow> run_calls ir cs = Inr ir' \<Longrightarrow> ir_reachable ir'"
  by (induction cs arbitrary: ir) (auto simp: bindE_def split: if_splits sum.splits dest: reach_call)

lemma ir_program_reachable: "ir_program cs = Inr ir \<Longrightarrow> ir_reachable ir"
  by (auto simp: ir_program_def bindE_def split: sum.splits intro: run_calls_reachable reach_init)

definition check_program :: "ir_call list \<Rightarrow> (ir_context \<Rightarrow> bool) \<Rightarrow> bool" where
  "check_program cs P = (case ir_program cs of Inl e \<Rightarrow> False | Inr ir \<Rightarrow> P ir)"

lemma check_programD: "check_program cs P \<Longrightarrow> \<exists>ir. ir_program cs = Inr ir \<and> ir_reachable ir \<and> P ir"
  using ir_program_reachable by (auto simp: check_program_def split: sum.splits)

lemmas list_ops = LIST_INIT_def list_add_def list_addAfter_def list_deattach_def set_next_def set_prev_def get_next_def get_prev_def
  list_deref_def LIST_FOR_EACH_def list_empty_def

lemma list_walk_pos: "0 < fuel \<Longrightarrow> list_walk fuel h l c =
    (if c = l then Inr [] else bindE (get_next h c) (\<lambda>n. bindE (list_walk (fuel - 1) h l n) (\<lambda>cs. Inr (c # cs))))"
  by (cases fuel) auto

lemmas ir_ops = check_program_def ir_program_def ir_context_init_def on_lists_def ir_new_def value_init_def
  ir_constant_value_def block_new_def ir_new_function_def inst_new_def update_inst_def get_inst_def get_value_def
  get_use_def get_block_def get_function_def set_inst_def set_use_def inst_new_assign_var_def inst_new_load_var_def inst_new_binary_def
  inst_new_jump_def inst_new_jump_cond_def inst_new_return_def inst_new_phi_def inst_setUse_def inst_getUses_def
  Let_def inst_count_def read_use_def block_insert_def block_insertTop_def ctx_functions_def ctx_specialInstructions_def
  is_value_def is_block_def is_inst_def inserted_def block_instructions_def


section \<open>Properties\<close>

text \<open>
  C5: In every state a client reaches through the calls of \<open>ir.h\<close>, made as they require, the use lists and the
  operands agree: the list of a value holds each operand with that value once and nothing else, and no
  operand that an iterator reads is unset. Every further call that keeps the requirements returns.
\<close>
theorem calls_keep_uses:
  assumes "ir_reachable ir"
  shows "uses_consistent ir \<and> ir_complete ir \<and> (valid_call ir call \<longrightarrow> (\<exists>ir'. run_call ir call = Inr ir' \<and> ir_reachable ir'))"
proof -
  obtain L where inv: "ir_inv ir L" and c: "ir_complete ir" using reachable_inv [OF assms] .
  have "\<exists>ir'. run_call ir call = Inr ir' \<and> ir_reachable ir'" if v: "valid_call ir call"
    using call_keeps [OF inv c v] reach_call [OF assms v] by (auto simp: keeps_def)
  with inv_uses_consistent [OF ir_inv_D(1) [OF inv]] c show ?thesis by blast
qed

theorem calls_keep_uses_witness:
  "\<exists>ir. ir_program [New_function \<lparr>rmem = [], rsize = 0\<rparr>, New_block 4, Constant 7, Assign_var 0 12, Jump 8,
      Insert 8 16, Insert 8 24] = Inr ir \<and> use_list ir 8 = [28] \<and> uses_consistent ir \<and>
     (\<exists>ir'. run_call ir (Remove 16) = Inr ir' \<and> ir_reachable ir')"
proof -
  have "check_program [New_function \<lparr>rmem = [], rsize = 0\<rparr>, New_block 4, Constant 7, Assign_var 0 12, Jump 8,
      Insert 8 16, Insert 8 24] (\<lambda>ir. use_list ir 8 = [28] \<and> valid_call ir (Remove 16))"
    by (simp add: ir_ops list_ops use_list_def list_walk_pos cong: bindE_weak_cong)
  from check_programD [OF this] calls_keep_uses [of _ "Remove 16"] show ?thesis by blast
qed

text \<open>
  C36: \<open>value_replaceAllUses\<close>: every operand that had the value has the replacement, no other operand
  changes, and the value has no uses left.
\<close>
theorem replaceAllUses_replaces:
  assumes "ir_reachable ir" and "is_value ir v" and "is_value ir r" and "v \<noteq> r"
  shows "\<exists>ir'. value_replaceAllUses (ir_top ir) ir v r = Inr ir' \<and>
    (\<forall>i. operands ir' i = map (\<lambda>x. if x = Some v then Some r else x) (operands ir i)) \<and>
    value_hasUse ir' v = Inr False \<and> use_list ir' r = use_list ir r @ use_list ir v"
proof -
  obtain L where inv: "ir_inv ir L" and c: "ir_complete ir" using reachable_inv [OF assms(1)] .
  note ok = ir_inv_D(1) [OF inv]
  have v': "ir_values ir v \<noteq> None" "ir_values ir r \<noteq> None" "r \<noteq> v" using assms by (auto simp: is_value_def)
  obtain us where us: "L v = Some us" using uses_D(2) [OF ir_ok_D(2) [OF ok] v'(1)] by blast
  obtain ws where ws: "L r = Some ws" using uses_D(2) [OF ir_ok_D(2) [OF ok] v'(2)] by blast
  obtain ir' where s: "value_replaceAllUses (ir_top ir) ir v r = Inr ir'" "ir_ok ir' (L(v \<mapsto> [], r \<mapsto> ws @ us))"
    "\<And>i. operands ir' i = map (\<lambda>x. if x = Some v then Some r else x) (operands ir i)"
    using replaceAllUses_ok [OF ok v'(1) us v'(2) ws v'(3) list_length_top [OF ok us]] by blast
  have "ring (ir_cells ir') v []" using ir_ok_D(4) [OF s(2)] v'(3) by (auto simp: ir_lists_def)
  then have "value_hasUse ir' v = Inr False" using list_empty_ring by (simp add: value_hasUse_def)
  moreover have "use_list ir' r = ws @ us" using use_list_eq [OF s(2), of r "ws @ us"] by simp
  ultimately show ?thesis using s use_list_eq [OF ok us] use_list_eq [OF ok ws] by auto
qed

theorem replaceAllUses_replaces_witness:
  "\<exists>ir ir'. ir_program [Constant 7, Constant 8, Assign_var 0 4, Binary BO_ADD 4 4] = Inr ir \<and>
     value_replaceAllUses (ir_top ir) ir 4 8 = Inr ir' \<and> operands ir' 12 = [Some 8] \<and> operands ir' 20 = [Some 8, Some 8] \<and>
     value_hasUse ir' 4 = Inr False"
proof -
  have "check_program [Constant 7, Constant 8, Assign_var 0 4, Binary BO_ADD 4 4]
      (\<lambda>ir. operands ir 12 = [Some 4] \<and> operands ir 20 = [Some 4, Some 4] \<and> is_value ir 4 \<and> is_value ir 8)"
    by (simp add: ir_ops list_ops operands_def numeral_2_eq_2 cong: bindE_weak_cong)
  from check_programD [OF this] obtain ir where p: "ir_program [Constant 7, Constant 8, Assign_var 0 4, Binary BO_ADD 4 4] = Inr ir"
    "ir_reachable ir" "operands ir 12 = [Some 4]" "operands ir 20 = [Some 4, Some 4]" "is_value ir 4" "is_value ir 8" by blast
  with replaceAllUses_replaces [of ir 4 8] show ?thesis by auto
qed

text \<open>
  C37: \<open>inst_phi_insertValue\<close> appends the pair of block and value to the operands of a phi that has room for it,
  unless the pair is already there, and changes no other operand.
\<close>
theorem phi_insertValue_appends:
  assumes "ir_reachable ir" and "valid_call ir (Phi_insert p b v)"
  shows "\<exists>ir'. inst_phi_insertValue ir p b v = Inr ir' \<and>
    operands ir' p = (if has_pair (operands ir p) (Some b) (Some v) then operands ir p else operands ir p @ [Some b, Some v]) \<and>
    (\<forall>j. j \<noteq> p \<longrightarrow> operands ir' j = operands ir j)"
proof -
  obtain L where inv: "ir_inv ir L" and c: "ir_complete ir" using reachable_inv [OF assms(1)] .
  obtain inst where p: "ir_insts ir p = Some inst" "i_type inst = INST_PHI" "i_useCount inst < 32" "is_block ir b" "ir_values ir v \<noteq> None"
    using assms(2) by (auto simp: is_value_def split: option.splits)
  show ?thesis by (rule inst_phi_insertValue_ok [OF inv c p(1-3) block_value [OF inv p(4)] p(5)]) blast
qed

theorem phi_insertValue_appends_witness:
  "\<exists>ir ir'. ir_program [New_function \<lparr>rmem = [], rsize = 0\<rparr>, New_block 4, Constant 7, Phi INT64, Phi_insert 16 8 12, Constant 9] = Inr ir \<and>
     inst_phi_insertValue ir 16 8 28 = Inr ir' \<and> operands ir' 16 = [Some 8, Some 12, Some 8, Some 28]"
proof -
  have "check_program [New_function \<lparr>rmem = [], rsize = 0\<rparr>, New_block 4, Constant 7, Phi INT64, Phi_insert 16 8 12, Constant 9]
      (\<lambda>ir. operands ir 16 = [Some 8, Some 12] \<and> valid_call ir (Phi_insert 16 8 28))"
    by (simp add: ir_ops list_ops operands_def inst_phi_insertValue_def ptrs_push_def cong: bindE_weak_cong)
  from check_programD [OF this] obtain ir where p: "ir_reachable ir" "operands ir 16 = [Some 8, Some 12]"
    "valid_call ir (Phi_insert 16 8 28)"
    "ir_program [New_function \<lparr>rmem = [], rsize = 0\<rparr>, New_block 4, Constant 7, Phi INT64, Phi_insert 16 8 12, Constant 9] = Inr ir" by blast
  have "\<not> has_pair [Some 8, Some 12] (Some 8) (Some (28 :: ptr))" by (simp add: has_pair_def)
  with phi_insertValue_appends [OF p(1,3)] p show ?thesis by auto
qed

end
