(* ===== verification/Flow_Graph.thy ===== *)
theory Flow_Graph
  imports Prelude
begin

text \<open>
  What the passes over the control flow compute, without their data structures: depth first search and
  the order in which it leaves the nodes, dominators, and dominance frontiers. \<open>G\<close> gives the successors
  of a node.
\<close>

section \<open>Depth first search\<close>

definition edges :: "('a \<Rightarrow> 'a list) \<Rightarrow> ('a \<times> 'a) set" where
  "edges G = {(x, y). y \<in> set (G x)}"

lemma edges_iff [simp]: "(x, y) \<in> edges G \<longleftrightarrow> y \<in> set (G x)"
  by (simp add: edges_def)

text \<open>The nodes left so far, in order, and the nodes seen so far; \<open>None\<close> when the fuel is used up.\<close>

fun dfs :: "nat \<Rightarrow> ('a \<Rightarrow> 'a list) \<Rightarrow> 'a \<Rightarrow> 'a list \<times> 'a set \<Rightarrow> ('a list \<times> 'a set) option"
  and dfss :: "nat \<Rightarrow> ('a \<Rightarrow> 'a list) \<Rightarrow> 'a list \<Rightarrow> 'a list \<times> 'a set \<Rightarrow> ('a list \<times> 'a set) option" where
  "dfs 0 G x st = None"
| "dfs (Suc fuel) G x (ps, seen) =
     (if x \<in> seen then Some (ps, seen)
      else case dfss fuel G (G x) (ps, insert x seen) of None \<Rightarrow> None
           | Some (ps, seen) \<Rightarrow> Some (ps @ [x], seen))"
| "dfss fuel G [] st = Some st"
| "dfss 0 G (x # xs) st = None"
| "dfss (Suc fuel) G (x # xs) st = (case dfs fuel G x st of None \<Rightarrow> None | Some st \<Rightarrow> dfss fuel G xs st)"

text \<open>A node is left after its successors, but for those on a cycle with it.\<close>

definition post_ordered :: "('a \<Rightarrow> 'a list) \<Rightarrow> 'a list \<Rightarrow> bool" where
  "post_ordered G ps \<longleftrightarrow> (\<forall>us x vs. ps = us @ x # vs \<longrightarrow> (\<forall>y \<in> set (G x). y \<in> set us \<or> (y, x) \<in> (edges G)\<^sup>*))"

lemma post_orderedD: "post_ordered G (us @ x # vs) \<Longrightarrow> y \<in> set (G x) \<Longrightarrow> y \<in> set us \<or> (y, x) \<in> (edges G)\<^sup>*"
  unfolding post_ordered_def by blast

lemma post_ordered_snoc:
  assumes "post_ordered G ps" and "\<forall>y \<in> set (G x). y \<in> set ps \<or> (y, x) \<in> (edges G)\<^sup>*"
  shows "post_ordered G (ps @ [x])"
  unfolding post_ordered_def
proof (intro allI impI)
  fix us z vs assume e: "ps @ [x] = us @ z # vs"
  show "\<forall>y \<in> set (G z). y \<in> set us \<or> (y, z) \<in> (edges G)\<^sup>*"
  proof (cases vs rule: rev_cases)
    case Nil
    with e assms(2) show ?thesis by simp
  next
    case (snoc vs' v)
    with e have "ps = us @ z # vs'" by (metis append.assoc append_Cons butlast_snoc)
    with assms(1) show ?thesis unfolding post_ordered_def by blast
  qed
qed

text \<open>
  What a search does to its state: \<open>search G xs st st'\<close> collects what holds of a search from \<open>xs\<close> that
  starts with every open node leading to \<open>xs\<close>.
\<close>

definition search :: "('a \<Rightarrow> 'a list) \<Rightarrow> 'a list \<Rightarrow> 'a list \<times> 'a set \<Rightarrow> 'a list \<times> 'a set \<Rightarrow> bool" where
  "search G xs st st' \<longleftrightarrow>
     (\<exists>qs. fst st' = fst st @ qs \<and> snd st' = snd st \<union> set qs \<and> distinct qs \<and> set qs \<inter> snd st = {}) \<and>
     set xs \<subseteq> snd st' \<and> snd st' \<subseteq> snd st \<union> (edges G)\<^sup>* `` set xs \<and>
     (\<forall>x \<in> snd st' - snd st. set (G x) \<subseteq> snd st')"

definition open_to :: "('a \<Rightarrow> 'a list) \<Rightarrow> 'a list \<Rightarrow> 'a list \<times> 'a set \<Rightarrow> bool" where
  "open_to G xs st \<longleftrightarrow> set (fst st) \<subseteq> snd st \<and> (\<forall>p \<in> snd st - set (fst st). \<forall>x \<in> set xs. (p, x) \<in> (edges G)\<^sup>*)"

lemma search_open:
  assumes "search G xs st st'" and "open_to G zs st"
  shows "open_to G zs st'"
proof -
  obtain qs where "fst st' = fst st @ qs" "snd st' = snd st \<union> set qs" using assms(1) unfolding search_def by blast
  with assms(2) show ?thesis unfolding open_to_def by auto
qed

lemma search_trans:
  assumes 1: "search G [x] st st1" and 2: "search G xs st1 st2"
  shows "search G (x # xs) st st2"
proof -
  obtain q1 where q1: "fst st1 = fst st @ q1" "snd st1 = snd st \<union> set q1" "distinct q1" "set q1 \<inter> snd st = {}"
    using 1 unfolding search_def by blast
  obtain q2 where q2: "fst st2 = fst st1 @ q2" "snd st2 = snd st1 \<union> set q2" "distinct q2" "set q2 \<inter> snd st1 = {}"
    using 2 unfolding search_def by blast
  have "fst st2 = fst st @ (q1 @ q2)" "snd st2 = snd st \<union> set (q1 @ q2)" "distinct (q1 @ q2)" "set (q1 @ q2) \<inter> snd st = {}"
    using q1 q2 by auto
  moreover have m: "x \<in> snd st1" "set xs \<subseteq> snd st2" and r: "snd st1 \<subseteq> snd st \<union> (edges G)\<^sup>* `` {x}"
    "snd st2 \<subseteq> snd st1 \<union> (edges G)\<^sup>* `` set xs" using 1 2 unfolding search_def by simp_all
  have "set (x # xs) \<subseteq> snd st2" using m q2(2) by simp
  moreover have "snd st2 \<subseteq> snd st \<union> ((edges G)\<^sup>* `` {x} \<union> (edges G)\<^sup>* `` set xs)" using r by blast
  then have "snd st2 \<subseteq> snd st \<union> (edges G)\<^sup>* `` set (x # xs)" by (simp only: Image_Un [symmetric] list.set) simp
  moreover have "set (G z) \<subseteq> snd st2" if "z \<in> snd st2 - snd st" for z
  proof (cases "z \<in> snd st1")
    case True
    then have "set (G z) \<subseteq> snd st1" using that 1 unfolding search_def by blast
    then show ?thesis using q2(2) by blast
  next
    case False
    then show ?thesis using that 2 unfolding search_def by blast
  qed
  ultimately show ?thesis unfolding search_def by blast
qed

lemma search_enter:
  assumes s: "search G (G x) (ps, insert x seen) (ps', seen')" and x: "x \<notin> seen" "x \<notin> set ps"
  shows "search G [x] (ps, seen) (ps' @ [x], seen')"
proof -
  obtain qs where q: "ps' = ps @ qs" "seen' = insert x seen \<union> set qs" "distinct qs" "set qs \<inter> insert x seen = {}"
    using s unfolding search_def by auto
  have "ps' @ [x] = ps @ (qs @ [x])" "seen' = seen \<union> set (qs @ [x])" "distinct (qs @ [x])" "set (qs @ [x]) \<inter> seen = {}"
    using q x by auto
  moreover have "seen' \<subseteq> seen \<union> (edges G)\<^sup>* `` {x}"
  proof
    fix z assume "z \<in> seen'"
    then consider "z = x" | "z \<in> seen" | y where "y \<in> set (G x)" "(y, z) \<in> (edges G)\<^sup>*"
      using s unfolding search_def by auto
    then show "z \<in> seen \<union> (edges G)\<^sup>* `` {x}"
    proof cases
      case 3
      then have "(x, z) \<in> (edges G)\<^sup>*" by (intro converse_rtrancl_into_rtrancl [of x y]) simp_all
      then show ?thesis by blast
    qed simp_all
  qed
  moreover have "set (G z) \<subseteq> seen'" if "z \<in> seen' - seen" for z
    using s that unfolding search_def by (cases "z = x") auto
  ultimately show ?thesis unfolding search_def by auto
qed

lemma dfs_longer:
  "dfs fuel G x st = Some st' \<Longrightarrow> length (fst st) \<le> length (fst st')"
  "dfss fuel G xs st = Some st' \<Longrightarrow> length (fst st) \<le> length (fst st')"
  by (induction fuel G x st and fuel G xs st arbitrary: st' and st' rule: dfs_dfss.induct)
    (fastforce split: option.splits if_splits)+

lemma dfs_mono:
  "dfs fuel G x st = Some st' \<Longrightarrow> fuel \<le> fuel' \<Longrightarrow> dfs fuel' G x st = Some st'"
  "dfss fuel G xs st = Some st' \<Longrightarrow> fuel \<le> fuel' \<Longrightarrow> dfss fuel' G xs st = Some st'"
proof (induction fuel G x st and fuel G xs st arbitrary: fuel' st' and fuel' st' rule: dfs_dfss.induct)
  case (2 fuel G x ps seen)
  from "2.prems"(2) obtain f where f: "fuel' = Suc f" "fuel \<le> f" by (cases fuel') auto
  show ?case
  proof (cases "x \<in> seen")
    case False
    with "2.prems"(1) obtain ps' seen' where s: "dfss fuel G (G x) (ps, insert x seen) = Some (ps', seen')" "st' = (ps' @ [x], seen')"
      by (auto split: option.splits)
    with False f(1) "2.IH" [OF False s(1) f(2)] show ?thesis by simp
  qed (use "2.prems"(1) f(1) in auto)
next
  case (5 fuel G x xs st)
  from "5.prems"(2) obtain f where f: "fuel' = Suc f" "fuel \<le> f" by (cases fuel') auto
  obtain st1 where s: "dfs fuel G x st = Some st1" "dfss fuel G xs st1 = Some st'" using "5.prems"(1) by (auto split: option.splits)
  with f "5.IH"(1) [OF s(1) f(2)] "5.IH"(2) [OF s f(2)] show ?case by simp
qed simp_all

lemma dfs_search:
  "dfs fuel G x st = Some st' \<Longrightarrow> set (fst st) \<subseteq> snd st \<Longrightarrow> search G [x] st st'"
  "dfss fuel G xs st = Some st' \<Longrightarrow> set (fst st) \<subseteq> snd st \<Longrightarrow> search G xs st st'"
proof (induction fuel G x st and fuel G xs st arbitrary: st' and st' rule: dfs_dfss.induct)
  case (2 fuel G x ps seen)
  show ?case
  proof (cases "x \<in> seen")
    case True
    with "2.prems" show ?thesis by (auto simp: search_def)
  next
    case False
    with "2.prems" obtain ps' seen' where s: "dfss fuel G (G x) (ps, insert x seen) = Some (ps', seen')" "st' = (ps' @ [x], seen')"
      by (auto split: option.splits)
    have "search G (G x) (ps, insert x seen) (ps', seen')" using "2.IH" [OF False s(1)] "2.prems"(2) by auto
    then show ?thesis unfolding s(2) using False "2.prems"(2) by (intro search_enter) auto
  qed
next
  case (5 fuel G x xs st)
  then obtain st1 where s: "dfs fuel G x st = Some st1" "dfss fuel G xs st1 = Some st'" by (auto split: option.splits)
  have 1: "search G [x] st st1" using "5.IH"(1) [OF s(1)] "5.prems"(2) .
  then have "set (fst st1) \<subseteq> snd st1" using "5.prems"(2) unfolding search_def by auto
  with "5.IH"(2) [OF s] have "search G xs st1 st'" .
  then show ?case by (rule search_trans [OF 1])
qed (auto simp: search_def)

lemma dfs_post_ordered:
  "dfs fuel G x st = Some st' \<Longrightarrow> open_to G [x] st \<Longrightarrow> post_ordered G (fst st) \<Longrightarrow> post_ordered G (fst st')"
  "dfss fuel G xs st = Some st' \<Longrightarrow> open_to G xs st \<Longrightarrow> post_ordered G (fst st) \<Longrightarrow> post_ordered G (fst st')"
proof (induction fuel G x st and fuel G xs st arbitrary: st' and st' rule: dfs_dfss.induct)
  case (2 fuel G x ps seen)
  show ?case
  proof (cases "x \<in> seen")
    case True
    with "2.prems" show ?thesis by simp
  next
    case False
    with "2.prems" obtain ps' seen' where s: "dfss fuel G (G x) (ps, insert x seen) = Some (ps', seen')" "st' = (ps' @ [x], seen')"
      by (auto split: option.splits)
    have o: "set ps \<subseteq> seen" "\<And>p. p \<in> seen - set ps \<Longrightarrow> (p, x) \<in> (edges G)\<^sup>*" using "2.prems"(2) by (auto simp: open_to_def)
    have "open_to G (G x) (ps, insert x seen)"
      unfolding open_to_def
    proof (intro conjI ballI)
      fix p y assume p: "p \<in> snd (ps, insert x seen) - set (fst (ps, insert x seen))" and y: "y \<in> set (G x)"
      then have "(p, x) \<in> (edges G)\<^sup>*" using o(2) by (cases "p = x") auto
      with y show "(p, y) \<in> (edges G)\<^sup>*" by (auto intro: rtrancl_into_rtrancl)
    qed (use o(1) in auto)
    from "2.IH" [OF False s(1) this] "2.prems"(3) have "post_ordered G ps'" by simp
    moreover have "search G (G x) (ps, insert x seen) (ps', seen')" using dfs_search(2) [OF s(1)] o(1) by auto
    then obtain qs where q: "ps' = ps @ qs" "seen' = insert x seen \<union> set qs" "set (G x) \<subseteq> seen'"
      unfolding search_def by auto
    have "y \<in> set ps' \<or> (y, x) \<in> (edges G)\<^sup>*" if y: "y \<in> set (G x)" for y
    proof (cases "y \<in> set ps' \<or> y = x")
      case False
      with q y have "y \<in> seen - set ps" by auto
      with o(2) show ?thesis by blast
    qed auto
    ultimately have "post_ordered G (ps' @ [x])" by (intro post_ordered_snoc) blast+
    then show ?thesis using s(2) by simp
  qed
next
  case (5 fuel G x xs st)
  then obtain st1 where s: "dfs fuel G x st = Some st1" "dfss fuel G xs st1 = Some st'" by (auto split: option.splits)
  have o: "open_to G [x] st" "open_to G xs st" using "5.prems"(2) by (auto simp: open_to_def)
  have "search G [x] st st1" using dfs_search(1) [OF s(1)] o(1) by (simp add: open_to_def)
  from search_open [OF this o(2)] show ?case using "5.IH"(1) [OF s(1) o(1) "5.prems"(3)] "5.IH"(2) [OF s] by blast
qed auto

text \<open>Fuel that is enough: one step for each entry of a successor list of each node.\<close>

lemma dfs_enough:
  assumes fin: "finite N" and closed: "\<And>x. x \<in> N \<Longrightarrow> set (G x) \<subseteq> N \<and> length (G x) \<le> d"
  shows "x \<in> N \<Longrightarrow> set (fst st) \<subseteq> snd st \<Longrightarrow> card (N - snd st) * (d + 2) < fuel \<Longrightarrow> \<exists>st'. dfs fuel G x st = Some st'"
    and "set xs \<subseteq> N \<Longrightarrow> set (fst st) \<subseteq> snd st \<Longrightarrow> card (N - snd st) * (d + 2) + length xs < fuel \<Longrightarrow> \<exists>st'. dfss fuel G xs st = Some st'"
proof (induction fuel arbitrary: x xs st)
  case (Suc fuel)
  {
    case 1
    obtain ps seen where st: "st = (ps, seen)" by fastforce
    show ?case
    proof (cases "x \<in> seen")
      case False
      then have x: "x \<in> N - seen" using 1(1) by simp
      have "N - insert x seen = N - seen - {x}" by blast
      then have "card (N - seen) = Suc (card (N - insert x seen))" using card_Suc_Diff1 [OF _ x] fin by simp
      then have "card (N - snd st) * (d + 2) = card (N - insert x seen) * (d + 2) + (d + 2)" using st by (simp only: snd_conv mult_Suc)
      then have "card (N - insert x seen) * (d + 2) + length (G x) < fuel" using 1(3) closed [OF 1(1)] by linarith
      moreover have "set (G x) \<subseteq> N" "set ps \<subseteq> insert x seen" using closed [OF 1(1)] 1(2) st by auto
      ultimately have "\<exists>st'. dfss fuel G (G x) (ps, insert x seen) = Some st'"
        by (intro Suc(2)) simp_all
      then obtain st' where "dfss fuel G (G x) (ps, insert x seen) = Some st'" ..
      then show ?thesis using st False by (cases st') simp
    qed (simp add: st)
  next
    case 2
    show ?case
    proof (cases xs)
      case (Cons y ys)
      obtain st1 where 1: "dfs fuel G y st = Some st1" using Suc(1) [of y st] 2 Cons by auto
      from dfs_search(1) [OF this 2(2)] obtain qs where q: "fst st1 = fst st @ qs" "snd st1 = snd st \<union> set qs"
        unfolding search_def by blast
      have "card (N - snd st1) \<le> card (N - snd st)" by (rule card_mono) (use fin q in auto)
      then have "card (N - snd st1) * (d + 2) \<le> card (N - snd st) * (d + 2)" by (rule mult_le_mono1)
      moreover have "set (fst st1) \<subseteq> snd st1" using q 2(2) by auto
      ultimately obtain st' where "dfss fuel G ys st1 = Some st'" using Suc(2) [of ys st1] 2 Cons by auto
      with 1 Cons show ?thesis by simp
    qed simp
  }
qed simp_all

text \<open>A search from a node without anything seen.\<close>

theorem dfs_from:
  assumes fin: "finite N" and closed: "\<And>x. x \<in> N \<Longrightarrow> set (G x) \<subseteq> N \<and> length (G x) \<le> d" and e: "e \<in> N"
    and fuel: "card N * (d + 2) < fuel"
  obtains ps where "dfs fuel G e ([], {}) = Some (ps, set ps)" and "distinct ps" and "set ps = (edges G)\<^sup>* `` {e}"
    and "ps \<noteq> []" and "last ps = e" and "post_ordered G ps"
proof -
  obtain st where st: "dfs fuel G e ([], {}) = Some st" 
    using dfs_enough(1) [of N G d e "([], {})" fuel] fin closed e fuel by auto
  have s: "search G [e] ([], {}) st" using dfs_search(1) [OF st] by simp
  then obtain ps where ps: "st = (ps, set ps)" "distinct ps" "e \<in> set ps" "set ps \<subseteq> (edges G)\<^sup>* `` {e}"
    "\<forall>x \<in> set ps. set (G x) \<subseteq> set ps" unfolding search_def by (cases st) auto
  have "y \<in> set ps" if "(e, y) \<in> (edges G)\<^sup>*" for y
    using that by (induction rule: rtrancl_induct) (use ps(3,5) in auto)
  with ps(4) have "set ps = (edges G)\<^sup>* `` {e}" by auto
  moreover have "post_ordered G ps" using dfs_post_ordered(1) [OF st] ps(1) by (auto simp: open_to_def post_ordered_def)
  moreover obtain f where "fuel = Suc f" using fuel by (cases fuel) auto
  then have "\<exists>qs. ps = qs @ [e]" using st ps(1) by (auto split: option.splits)
  ultimately show ?thesis using that [of ps] st ps by auto
qed

section \<open>Dominators\<close>

text \<open>\<open>x\<close> dominates \<open>y\<close> when every path from the entry \<open>e\<close> to \<open>y\<close> goes through \<open>x\<close>.\<close>

definition avoiding :: "('a \<times> 'a) set \<Rightarrow> 'a \<Rightarrow> ('a \<times> 'a) set" where
  "avoiding E x = {(a, b) \<in> E. a \<noteq> x \<and> b \<noteq> x}"

definition dominates :: "('a \<times> 'a) set \<Rightarrow> 'a \<Rightarrow> 'a \<Rightarrow> 'a \<Rightarrow> bool" where
  "dominates E e x y \<longleftrightarrow> (e, y) \<in> E\<^sup>* \<and> (x = y \<or> (e, y) \<notin> (avoiding E x)\<^sup>*)"

definition strictly_dominates :: "('a \<times> 'a) set \<Rightarrow> 'a \<Rightarrow> 'a \<Rightarrow> 'a \<Rightarrow> bool" where
  "strictly_dominates E e x y \<longleftrightarrow> dominates E e x y \<and> x \<noteq> y"

text \<open>The immediate dominator: the strict dominator that all others dominate.\<close>

definition immediate_dominator :: "('a \<times> 'a) set \<Rightarrow> 'a \<Rightarrow> 'a \<Rightarrow> 'a \<Rightarrow> bool" where
  "immediate_dominator E e d y \<longleftrightarrow> strictly_dominates E e d y \<and> (\<forall>x. strictly_dominates E e x y \<longrightarrow> dominates E e x d)"

lemma avoiding_iff [simp]: "(a, b) \<in> avoiding E x \<longleftrightarrow> (a, b) \<in> E \<and> a \<noteq> x \<and> b \<noteq> x"
  by (simp add: avoiding_def)

lemma dominates_refl: "(e, y) \<in> E\<^sup>* \<Longrightarrow> dominates E e y y"
  by (simp add: dominates_def)

lemma entry_dominates: "(e, y) \<in> E\<^sup>* \<Longrightarrow> dominates E e e y"
  by (auto simp: dominates_def elim: converse_rtranclE)

lemma dominates_entry: "dominates E e x e \<longleftrightarrow> x = e"
  by (auto simp: dominates_def)

lemma dominates_reach: "dominates E e x y \<Longrightarrow> (e, y) \<in> E\<^sup>*"
  by (simp add: dominates_def)

lemma dominates_pred:
  assumes "dominates E e x i" and "x \<noteq> i" and "(p, i) \<in> E" and "(e, p) \<in> E\<^sup>*"
  shows "dominates E e x p"
proof (rule ccontr)
  assume "\<not> dominates E e x p"
  with assms(4) have a: "(e, p) \<in> (avoiding E x)\<^sup>*" "x \<noteq> p" by (simp_all add: dominates_def)
  with assms(2,3) have "(p, i) \<in> avoiding E x" by simp
  with a(1) have "(e, i) \<in> (avoiding E x)\<^sup>*" by (rule rtrancl_into_rtrancl)
  with assms(1,2) show False by (simp add: dominates_def)
qed

lemma first_visit:
  assumes "(e, y) \<in> R\<^sup>*" and "e \<noteq> i"
  shows "(e, y) \<in> (avoiding R i)\<^sup>* \<and> y \<noteq> i \<or> (\<exists>p. (e, p) \<in> (avoiding R i)\<^sup>* \<and> p \<noteq> i \<and> (p, i) \<in> R)"
  using assms(1)
proof (induction rule: rtrancl_induct)
  case (step y z)
  then show ?case
  proof (elim disjE)
    assume y: "(e, y) \<in> (avoiding R i)\<^sup>* \<and> y \<noteq> i"
    show ?case
    proof (cases "z = i")
      case True
      with y step show ?thesis by blast
    next
      case False
      with y step have "(y, z) \<in> avoiding R i" by simp
      with y False show ?thesis by (meson rtrancl_into_rtrancl)
    qed
  qed blast
qed (use assms(2) in simp)

text \<open>
  What dominates all predecessors of a node dominates it; predecessors the node itself dominates need not
  be looked at.
\<close>

lemma dominates_join:
  assumes i: "i \<noteq> e" "(e, i) \<in> E\<^sup>*"
    and p: "\<And>p. (p, i) \<in> E \<Longrightarrow> (e, p) \<in> E\<^sup>* \<Longrightarrow> \<not> dominates E e i p \<Longrightarrow> dominates E e x p"
  shows "dominates E e x i"
proof (rule ccontr)
  assume "\<not> dominates E e x i"
  with i(2) have a: "(e, i) \<in> (avoiding E x)\<^sup>*" by (simp add: dominates_def)
  from first_visit [OF a i(1) [symmetric]] obtain p where
    f: "(e, p) \<in> (avoiding (avoiding E x) i)\<^sup>*" "p \<noteq> i" "(p, i) \<in> avoiding E x" by blast
  have mono: "(avoiding (avoiding E x) i)\<^sup>* \<subseteq> (avoiding E x)\<^sup>*" "(avoiding (avoiding E x) i)\<^sup>* \<subseteq> (avoiding E i)\<^sup>*"
    "(avoiding E i)\<^sup>* \<subseteq> E\<^sup>*" by (rule rtrancl_mono; auto)+
  have "\<not> dominates E e i p" using f(1,2) mono(2) by (auto simp: dominates_def)
  moreover have "(e, p) \<in> E\<^sup>*" "(p, i) \<in> E" using f mono by auto
  ultimately have "dominates E e x p" using p by blast
  with f mono(1) show False by (auto simp: dominates_def)
qed

end
