(* ===== verification/Ir_Flow.thy ===== *)
theory Ir_Flow
  imports Ir_Calls Flow_Graph
begin

text \<open>
  The control flow of the intermediate representation: what the iterators over successors and
  predecessors of a block visit, when the two agree, and the postorder of the blocks of a function.
\<close>

section \<open>Successors\<close>

text \<open>The blocks among the operands of the last instruction of a block, unless it is a phi.\<close>

definition successor_blocks :: "ir_context \<Rightarrow> ptr \<Rightarrow> ptr list" where
  "successor_blocks ir b = (if block_instructions ir b = [] then []
     else let i = last (block_instructions ir b) in
       case ir_insts ir i of None \<Rightarrow> []
       | Some inst \<Rightarrow> if i_type inst = INST_PHI then []
                      else filter (is_block ir) (map the (take (inst_count inst) (operands ir i))))"

lemma last_instruction:
  assumes inv: "ir_inv ir L" and b: "is_block ir b"
  shows "block_lastInstruction ir b =
      Inr (if block_instructions ir b = [] then 0 else last (block_instructions ir b))"
    and "block_instructions ir b \<noteq> [] \<Longrightarrow>
      \<exists>inst. ir_insts ir (last (block_instructions ir b)) = Some inst \<and> i_parent inst = b"
proof -
  note ok = ir_inv_D(1) [OF inv]
  obtain f where f: "ir_blocks ir b = Some f" using b by (auto simp: is_block_def)
  obtain cs where cs: "L (b + 1) = Some cs" using block_list [OF ok f] by blast
  note e = block_instructions_eq(2) [OF ok cs] and n = block_inst_nodes [OF ok f cs]
  have r: "ring (ir_cells ir) (b + 1) cs" using ir_ok_D(4) [OF ok] cs by (simp add: ir_lists_def)
  have "get_prev (ir_cells ir) (b + 1) = Inr (last ((b + 1) # cs))"
    using ring_links(2) [of "ir_cells ir" "b + 1" cs "[]"] r by simp
  then show "block_lastInstruction ir b = Inr (if block_instructions ir b = [] then 0 else last (block_instructions ir b))"
    using list_empty_ring [OF r] e by (simp add: block_lastInstruction_def last_map)
  show "\<exists>inst. ir_insts ir (last (block_instructions ir b)) = Some inst \<and> i_parent inst = b" if "block_instructions ir b \<noteq> []"
    using n(1) that e last_in_set [of cs] by (auto simp: last_map)
qed

lemma is_block_type:
  assumes "ir_ok ir L" and "ir_values ir v = Some x"
  shows "v_type x = V_BLOCK \<longleftrightarrow> is_block ir v"
  using blocks_D(1,3) [OF ir_ok_D(3) [OF assms(1)]] assms(2) by (fastforce simp: is_block_def)

lemma block_nonzero: "ir_ok ir L \<Longrightarrow> is_block ir v \<Longrightarrow> v \<noteq> 0"
  using object_atD [OF heap_D(4) [OF ir_ok_D(1) objectsI(3)]] by (fastforce simp: is_block_def)

text \<open>The operands an iterator may look at.\<close>

lemma complete_operands:
  assumes inv: "ir_inv ir L" and c: "ir_complete ir" and i: "ir_insts ir i = Some inst" and k: "k < inst_count inst"
  obtains v where "inst_getUses inst = (Some (i_uses inst), inst_count inst)" and "k < length (i_uses inst)"
    and "ir_uses ir (i_uses inst ! k) = Some \<lparr>u_inst = i, u_value = v\<rparr>" and "ir_values ir v \<noteq> None"
    and "operands ir i ! k = Some v"
proof -
  have shape: "inst_shape inst" using blocks_D(4) [OF ir_ok_D(3) [OF ir_inv_D(1) [OF inv]] i] by blast
  then have "k < length (i_uses inst)" using shape_uses(2) k by fastforce
  moreover have "i_uses inst ! k \<noteq> 0" using c i k by (auto simp: ir_complete_def inst_complete_def)
  ultimately show ?thesis using complete_use [OF inv i] shape_uses(1) [OF shape] k that by (metis gr_implies_not0 not_gr_zero)
qed

lemma successor_scan_ok:
  assumes inv: "ir_inv ir L" and c: "ir_complete ir" and i: "ir_insts ir i = Some inst" and j: "j \<le> inst_count inst"
    and vs: "vs = map the (take (inst_count inst) (operands ir i))"
  shows "\<exists>n j'. successor_scan ir (Some (i_uses inst)) j [j ..< inst_count inst] = Inr (n, j') \<and>
    (if n = 0 then filter (is_block ir) (drop j vs) = []
     else j < j' \<and> j' \<le> inst_count inst \<and> filter (is_block ir) (drop j vs) = n # filter (is_block ir) (drop j' vs))"
  using j
proof (induction "inst_count inst - j" arbitrary: j)
  case 0
  have "length vs \<le> j" using 0 vs by simp
  with 0 show ?case by simp
next
  case (Suc d)
  then have k: "j < inst_count inst" by simp
  obtain v where v: "j < length (i_uses inst)" "ir_uses ir (i_uses inst ! j) = Some \<lparr>u_inst = i, u_value = v\<rparr>"
    "ir_values ir v \<noteq> None" "operands ir i ! j = Some v" using complete_operands [OF inv c i k] by metis
  obtain x where x: "ir_values ir v = Some x" using v(3) by blast
  have len: "length vs = inst_count inst"
    using vs i shape_uses(2) [of inst] blocks_D(4) [OF ir_ok_D(3) [OF ir_inv_D(1) [OF inv]] i] by (simp add: length_operands)
  have nth: "vs ! j = v" using vs k v(4) len by simp
  have split: "drop j vs = v # drop (j + 1) vs" "[j ..< inst_count inst] = j # [j + 1 ..< inst_count inst]"
    using k len nth by (simp_all add: Cons_nth_drop_Suc [symmetric] upt_rec)
  show ?case
  proof (cases "is_block ir v")
    case True
    then have "v \<noteq> 0" using block_nonzero [OF ir_inv_D(1) [OF inv]] by blast
    with True k v x split is_block_type [OF ir_inv_D(1) [OF inv] x] show ?thesis
      by (simp add: read_use_def get_use_def get_value_def)
  next
    case False
    have "d = inst_count inst - (j + 1)" "j + 1 \<le> inst_count inst" using Suc(2) k by simp_all
    from Suc(1) [OF this] False v x split is_block_type [OF ir_inv_D(1) [OF inv] x] show ?thesis
      by (auto simp: read_use_def get_use_def get_value_def split: if_splits)
  qed
qed

lemma successor_read_ok:
  assumes inv: "ir_inv ir L" and c: "ir_complete ir" and i: "ir_insts ir i = Some inst" "i \<noteq> 0" and j: "j \<le> inst_count inst"
    and vs: "vs = map the (take (inst_count inst) (operands ir i))"
  obtains n j' where "block_successor_read ir \<lparr>sit_next = x, sit_inst = i, sit_i = j\<rparr> = Inr \<lparr>sit_next = n, sit_inst = i, sit_i = j'\<rparr>"
    and "if n = 0 then filter (is_block ir) (drop j vs) = []
     else j < j' \<and> j' \<le> inst_count inst \<and> filter (is_block ir) (drop j vs) = n # filter (is_block ir) (drop j' vs)"
proof -
  obtain uses where u: "inst_getUses inst = (uses, inst_count inst)" by (metis inst_count_def prod.collapse)
  show ?thesis
  proof (cases "inst_count inst = 0")
    case True
    with u j i vs that [of 0 0] show ?thesis by (simp add: block_successor_read_def get_inst_def)
  next
    case False
    then have "uses = Some (i_uses inst)" using complete_operands [OF inv c i(1), of 0] u by auto
    with successor_scan_ok [OF inv c i(1) j vs] u i that show ?thesis by (auto simp: block_successor_read_def get_inst_def)
  qed
qed

lemma successor_loop_ok:
  assumes inv: "ir_inv ir L" and c: "ir_complete ir" and i: "ir_insts ir i = Some inst" "i \<noteq> 0" and j: "n \<noteq> 0 \<Longrightarrow> j \<le> inst_count inst"
    and vs: "vs = map the (take (inst_count inst) (operands ir i))"
    and fuel: "if n = 0 then 0 < fuel else inst_count inst - j + 1 < fuel"
  shows "successor_loop fuel ir \<lparr>sit_next = n, sit_inst = i, sit_i = j\<rparr> =
    Inr (if n = 0 then [] else n # filter (is_block ir) (drop j vs))"
  using j fuel
proof (induction fuel arbitrary: n j)
  case (Suc fuel)
  show ?case
  proof (cases "n = 0")
    case False
    with Suc.prems have j: "j \<le> inst_count inst" by simp
    obtain n' j' where r: "block_successor_read ir \<lparr>sit_next = n, sit_inst = i, sit_i = j\<rparr> = Inr \<lparr>sit_next = n', sit_inst = i, sit_i = j'\<rparr>"
      "if n' = 0 then filter (is_block ir) (drop j vs) = []
       else j < j' \<and> j' \<le> inst_count inst \<and> filter (is_block ir) (drop j vs) = n' # filter (is_block ir) (drop j' vs)"
      using successor_read_ok [OF inv c i j vs] .
    have "successor_loop fuel ir \<lparr>sit_next = n', sit_inst = i, sit_i = j'\<rparr> = Inr (if n' = 0 then [] else n' # filter (is_block ir) (drop j' vs))"
      by (rule Suc.IH) (use r(2) Suc.prems False in \<open>auto split: if_splits\<close>)
    with r False show ?thesis
      by (auto simp: block_successor_end_def block_successor_get_def block_successor_next_def)
  qed (simp add: block_successor_end_def)
qed (simp split: if_splits)

lemma count_le_3: "ir_inv ir L \<Longrightarrow> ir_insts ir i = Some inst \<Longrightarrow> i_type inst \<noteq> INST_PHI \<Longrightarrow> inst_count inst \<le> 3"
  using blocks_D(4) [OF ir_ok_D(3) [OF ir_inv_D(1)], of ir L i inst]
  by (auto simp: inst_count_def inst_getUses_def inst_shape_def split: instruction_type.splits)

lemma block_successors_ok:
  assumes inv: "ir_inv ir L" and c: "ir_complete ir" and b: "is_block ir b" and fuel: "3 < fuel"
  shows "block_successors fuel ir b = Inr (successor_blocks ir b)"
proof -
  note l = last_instruction [OF inv b]
  show ?thesis
  proof (cases "block_instructions ir b = []")
    case True
    with l(1) fuel show ?thesis
      by (cases fuel) (simp_all add: block_successors_def block_successor_begin_def block_successor_read_def block_successor_end_def successor_blocks_def)
  next
    case False
    let ?i = "last (block_instructions ir b)"
    obtain inst where i: "ir_insts ir ?i = Some inst" using l(2) [OF False] by blast
    have nz: "?i \<noteq> 0" using object_atD [OF heap_D(4) [OF ir_ok_D(1) [OF ir_inv_D(1) [OF inv]] objectsI(2) [OF i]]] by blast
    show ?thesis
    proof (cases "i_type inst = INST_PHI")
      case True
      with l(1) False i nz fuel show ?thesis
        by (cases fuel) (simp_all add: block_successors_def block_successor_begin_def block_successor_read_def
            block_successor_end_def successor_blocks_def get_inst_def)
    next
      case np: False
      let ?vs = "map the (take (inst_count inst) (operands ir ?i))"
      obtain n j where r: "block_successor_read ir \<lparr>sit_next = 0, sit_inst = ?i, sit_i = 0\<rparr> = Inr \<lparr>sit_next = n, sit_inst = ?i, sit_i = j\<rparr>"
        "if n = 0 then filter (is_block ir) (drop 0 ?vs) = []
         else 0 < j \<and> j \<le> inst_count inst \<and> filter (is_block ir) (drop 0 ?vs) = n # filter (is_block ir) (drop j ?vs)"
        using successor_read_ok [OF inv c i nz le0 refl] .
      have "successor_loop fuel ir \<lparr>sit_next = n, sit_inst = ?i, sit_i = j\<rparr> = Inr (if n = 0 then [] else n # filter (is_block ir) (drop j ?vs))"
        by (rule successor_loop_ok [OF inv c i nz _ refl]) (use r(2) fuel count_le_3 [OF inv i np] in \<open>auto split: if_splits\<close>)
      with l(1) False i np nz r show ?thesis
        by (auto simp: block_successors_def block_successor_begin_def successor_blocks_def get_inst_def split: if_splits)
    qed
  qed
qed

section \<open>Predecessors\<close>

definition user_of :: "ir_context \<Rightarrow> ptr \<Rightarrow> ptr" where
  "user_of ir u = (case ir_uses ir u of None \<Rightarrow> 0 | Some use \<Rightarrow> u_inst use)"

text \<open>The blocks the instructions that use a block name as their parents.\<close>

definition predecessor_blocks :: "ir_context \<Rightarrow> ptr \<Rightarrow> ptr list" where
  "predecessor_blocks ir b = map (\<lambda>u. parent_of ir (user_of ir u)) (use_list ir b)"

lemma predecessor_loop_ok:
  assumes ok: "ir_ok ir L" and b: "ir_values ir b \<noteq> None" "L b = Some (us @ vs)" and fuel: "length vs < fuel"
  shows "predecessor_loop fuel ir \<lparr>pit_list = b, pit_current = hd (vs @ [b])\<rparr> =
    Inr (map (\<lambda>u. parent_of ir (user_of ir u)) vs)"
  using b(2) fuel
proof (induction vs arbitrary: us fuel)
  case Nil
  then show ?case by (cases fuel) (simp_all add: block_predecessor_end_def)
next
  case (Cons v vs)
  obtain f where f: "fuel = Suc f" "length vs < f" using Cons.prems(2) by (cases fuel) auto
  have r: "ring (ir_cells ir) b ((us @ [v]) @ vs)" using ir_ok_D(4) [OF ok] Cons.prems(1) by (simp add: ir_lists_def)
  then have "v \<noteq> b" using il.rep_distinct by fastforce
  have nx: "get_next (ir_cells ir) v = Inr (hd (vs @ [b]))" using ring_links(1) [OF r] by simp
  have u: "uses_ok ir L" using ir_ok_D(2) [OF ok] .
  obtain i k where s: "slot ir i k v" using uses_D(4) [OF u b(1) Cons.prems(1), of v] by auto
  obtain w ws where w: "ir_uses ir v = Some \<lparr>u_inst = i, u_value = w\<rparr>" using uses_D(3) [OF u s] by blast
  obtain inst where i: "ir_insts ir i = Some inst" using s by (auto simp: slot_def)
  have "predecessor_loop f ir \<lparr>pit_list = b, pit_current = hd (vs @ [b])\<rparr> = Inr (map (\<lambda>u. parent_of ir (user_of ir u)) vs)"
    using Cons.IH [of "us @ [v]" f] Cons.prems(1) f(2) by simp
  with f(1) \<open>v \<noteq> b\<close> nx w i show ?case
    by (simp add: block_predecessor_end_def block_predecessor_get_def block_predecessor_next_def get_use_def get_inst_def
        user_of_def parent_of_def)
qed

lemma block_predecessors_ok:
  assumes inv: "ir_inv ir L" and b: "is_block ir b" and fuel: "ir_top ir \<le> fuel"
  shows "block_predecessors fuel ir b = Inr (predecessor_blocks ir b)"
proof -
  note ok = ir_inv_D(1) [OF inv]
  have v: "ir_values ir b \<noteq> None" using block_value [OF inv b] .
  obtain us where us: "L b = Some us" using uses_D(2) [OF ir_ok_D(2) [OF ok] v] by blast
  have "ring (ir_cells ir) b ([] @ us)" using ir_ok_D(4) [OF ok] us by (simp add: ir_lists_def)
  from ring_links(1) [OF this] have "get_next (ir_cells ir) b = Inr (hd (us @ [b]))" by simp
  moreover have "length us < fuel" using list_length_top [OF ok us] fuel by simp
  ultimately show ?thesis using predecessor_loop_ok [OF ok v, of "[]" us fuel] us use_list_eq [OF ok us]
    by (simp add: block_predecessors_def block_predecessor_begin_def predecessor_blocks_def)
qed

section \<open>Edges\<close>

text \<open>Blocks are used as the targets of the jumps at the ends of blocks only.\<close>

definition jump_ok :: "ir_context \<Rightarrow> ptr \<Rightarrow> bool" where
  "jump_ok ir i \<longleftrightarrow> (case ir_insts ir i of None \<Rightarrow> True
     | Some inst \<Rightarrow> \<forall>(k, x) \<in> set (enumerate 0 (operands ir i)).
         case x of None \<Rightarrow> True
         | Some b \<Rightarrow> is_block ir b \<longrightarrow> inserted ir i \<and> i = last (block_instructions ir (i_parent inst)) \<and>
             i_type inst \<noteq> INST_PHI \<and> k < inst_count inst)"

definition jumps_last :: "ir_context \<Rightarrow> bool" where
  "jumps_last ir \<longleftrightarrow> (\<forall>i. jump_ok ir i)"

lemma jumps_lastD:
  assumes "jumps_last ir" and "ir_insts ir i = Some inst" and "k < length (operands ir i)" and "operands ir i ! k = Some b"
    and "is_block ir b"
  shows "inserted ir i" and "i = last (block_instructions ir (i_parent inst))" and "i_type inst \<noteq> INST_PHI" and "k < inst_count inst"
proof -
  have "(k, Some b) \<in> set (enumerate 0 (operands ir i))" using assms(3,4) by (simp add: in_set_enumerate_eq)
  with assms(1) [unfolded jumps_last_def, THEN spec, of i] assms(2,5)
  show "inserted ir i" "i = last (block_instructions ir (i_parent inst))" "i_type inst \<noteq> INST_PHI" "k < inst_count inst"
    by (auto simp: jump_ok_def dest!: bspec)
qed

lemma jumps_last_check:
  assumes "dom (ir_insts ir) \<subseteq> set xs" and "\<forall>i \<in> set xs. jump_ok ir i"
  shows "jumps_last ir"
  unfolding jumps_last_def
proof
  fix i show "jump_ok ir i"
  proof (cases "ir_insts ir i")
    case (Some inst)
    then have "i \<in> set xs" using assms(1) by (auto intro: domI)
    with assms(2) show ?thesis by blast
  qed (simp add: jump_ok_def)
qed

lemma use_list_operands:
  assumes inv: "ir_inv ir L" and v: "is_value ir v"
  shows "u \<in> set (use_list ir v) \<longleftrightarrow> (\<exists>i k. slot ir i k u \<and> operands ir i ! k = Some v)"
proof -
  have "operands ir i ! k = map_option u_value (ir_uses ir u)" if "slot ir i k u" for i k
    using that by (auto simp: slot_def operands_def)
  moreover have "\<exists>w. ir_uses ir u = Some \<lparr>u_inst = i, u_value = w\<rparr>" if "slot ir i k u" for i k
    using inv_uses_consistent [OF ir_inv_D(1) [OF inv]] that unfolding uses_consistent_def by blast
  ultimately show ?thesis
    using inv_uses_consistent [OF ir_inv_D(1) [OF inv]] v unfolding uses_consistent_def by fastforce
qed

lemma predecessor_iff:
  assumes inv: "ir_inv ir L" and b: "is_block ir b"
  shows "p \<in> set (predecessor_blocks ir b) \<longleftrightarrow>
    (\<exists>i inst k. ir_insts ir i = Some inst \<and> i_parent inst = p \<and> k < length (operands ir i) \<and> operands ir i ! k = Some b)"
proof -
  note cons = inv_uses_consistent [OF ir_inv_D(1) [OF inv], unfolded uses_consistent_def]
  have v: "is_value ir b" using block_value [OF inv b] by (simp add: is_value_def)
  show ?thesis
  proof
    assume "p \<in> set (predecessor_blocks ir b)"
    then obtain u where u: "u \<in> set (use_list ir b)" "p = parent_of ir (user_of ir u)" by (auto simp: predecessor_blocks_def)
    then obtain i k where s: "slot ir i k u" "operands ir i ! k = Some b" using use_list_operands [OF inv v] by blast
    then obtain inst where i: "ir_insts ir i = Some inst" "k < length (operands ir i)" by (auto simp: slot_def length_operands)
    have "user_of ir u = i" using cons s(1) by (fastforce simp: user_of_def)
    with u(2) s i show "\<exists>i inst k. ir_insts ir i = Some inst \<and> i_parent inst = p \<and> k < length (operands ir i) \<and> operands ir i ! k = Some b"
      by (auto simp: parent_of_def)
  next
    assume "\<exists>i inst k. ir_insts ir i = Some inst \<and> i_parent inst = p \<and> k < length (operands ir i) \<and> operands ir i ! k = Some b"
    then obtain i inst k where i: "ir_insts ir i = Some inst" "i_parent inst = p" "k < length (operands ir i)" "operands ir i ! k = Some b"
      by blast
    let ?u = "i_uses inst ! k"
    have s: "slot ir i k ?u" using i by (auto simp: slot_def operands_def split: if_splits)
    then have "?u \<in> set (use_list ir b)" using use_list_operands [OF inv v] i(4) by blast
    moreover have "user_of ir ?u = i" using cons s by (fastforce simp: user_of_def)
    ultimately show "p \<in> set (predecessor_blocks ir b)" using i(1,2) by (force simp: predecessor_blocks_def parent_of_def)
  qed
qed

lemma successor_iff:
  assumes inv: "ir_inv ir L" and c: "ir_complete ir" and b: "is_block ir b"
  shows "s \<in> set (successor_blocks ir b) \<longleftrightarrow>
    (\<exists>i inst k. block_instructions ir b \<noteq> [] \<and> i = last (block_instructions ir b) \<and> ir_insts ir i = Some inst \<and>
       i_type inst \<noteq> INST_PHI \<and> k < inst_count inst \<and> operands ir i ! k = Some s \<and> is_block ir s)"
proof (cases "block_instructions ir b = []")
  case False
  let ?i = "last (block_instructions ir b)"
  obtain inst where i: "ir_insts ir ?i = Some inst" using last_instruction(2) [OF inv b False] by blast
  have len: "inst_count inst \<le> length (operands ir ?i)"
    using i shape_uses(2) [of inst] blocks_D(4) [OF ir_ok_D(3) [OF ir_inv_D(1) [OF inv]] i] by (simp add: length_operands)
  have "s \<in> set (map the (take (inst_count inst) (operands ir ?i))) \<longleftrightarrow> (\<exists>k < inst_count inst. operands ir ?i ! k = Some s)"
  proof -
    have "s \<in> set (map the (take (inst_count inst) (operands ir ?i))) \<longleftrightarrow> (\<exists>k < inst_count inst. the (operands ir ?i ! k) = s)"
      using len by (auto simp: in_set_conv_nth image_iff Bex_def)
    also have "\<dots> \<longleftrightarrow> (\<exists>k < inst_count inst. operands ir ?i ! k = Some s)"
      using complete_operands [OF inv c i] by (metis option.sel)
    finally show ?thesis .
  qed
  with False i show ?thesis by (auto simp: successor_blocks_def Let_def)
qed (simp add: successor_blocks_def)

lemma successor_is_block: "s \<in> set (successor_blocks ir b) \<Longrightarrow> is_block ir s"
  by (auto simp: successor_blocks_def Let_def split: if_splits option.splits)

lemma successor_has_predecessor:
  assumes inv: "ir_inv ir L" and c: "ir_complete ir" and b: "is_block ir b" and s: "s \<in> set (successor_blocks ir b)"
  shows "b \<in> set (predecessor_blocks ir s)"
proof -
  let ?i = "last (block_instructions ir b)"
  obtain inst k where i: "block_instructions ir b \<noteq> []" "ir_insts ir ?i = Some inst" "k < inst_count inst"
    "operands ir ?i ! k = Some s" using s successor_iff [OF inv c b] by blast
  have "i_parent inst = b" using last_instruction(2) [OF inv b i(1)] i(2) by auto
  moreover have "k < length (operands ir ?i)" using complete_operands [OF inv c i(2,3)] i(2) by (simp add: length_operands)
  ultimately show ?thesis using i predecessor_iff [OF inv successor_is_block [OF s]] by blast
qed

lemma edges_dual:
  assumes inv: "ir_inv ir L" and c: "ir_complete ir" and j: "jumps_last ir" and s: "is_block ir s"
  shows "b \<in> set (predecessor_blocks ir s) \<longleftrightarrow> is_block ir b \<and> s \<in> set (successor_blocks ir b)"
proof
  assume "b \<in> set (predecessor_blocks ir s)"
  then obtain i inst k where i: "ir_insts ir i = Some inst" "i_parent inst = b" "k < length (operands ir i)" "operands ir i ! k = Some s"
    using predecessor_iff [OF inv s] by blast
  then have l: "inserted ir i" "i = last (block_instructions ir b)" "i_type inst \<noteq> INST_PHI" "k < inst_count inst"
    using jumps_lastD [OF j i(1,3,4) s] by auto
  then have b: "is_block ir b" "block_instructions ir b \<noteq> []" using i(1,2) by (auto simp: inserted_def is_block_def)
  with i l s show "is_block ir b \<and> s \<in> set (successor_blocks ir b)" using successor_iff [OF inv c b(1)] by blast
next
  assume "is_block ir b \<and> s \<in> set (successor_blocks ir b)"
  then show "b \<in> set (predecessor_blocks ir s)" using successor_has_predecessor [OF inv c] by blast
qed

section \<open>Postorder\<close>

text \<open>The recursion is a depth first search whose list has the room of a buffer.\<close>

definition successors_are :: "ir_context \<Rightarrow> ptr set \<Rightarrow> (ptr \<Rightarrow> ptr list) \<Rightarrow> bool" where
  "successors_are ir N G \<longleftrightarrow> (\<forall>b \<in> N. block_successors 4 ir b = Inr (G b) \<and> set (G b) \<subseteq> N)"

lemma successors_areD:
  "successors_are ir N G \<Longrightarrow> b \<in> N \<Longrightarrow> block_successors 4 ir b = Inr (G b)"
  "successors_are ir N G \<Longrightarrow> b \<in> N \<Longrightarrow> set (G b) \<subseteq> N"
  by (simp_all add: successors_are_def)

lemma pre_visit_dfs:
  shows "dfs fuel G b st = Some st' \<Longrightarrow> successors_are ir N G \<Longrightarrow> b \<in> N \<Longrightarrow> length (fst st) \<le> 2 * buffer_pointers \<Longrightarrow>
      pre_visit fuel ir b st = (if length (fst st') \<le> 2 * buffer_pointers then Inr st' else Inl OutOfBounds)"
    and "dfss fuel G bs st = Some st' \<Longrightarrow> successors_are ir N G \<Longrightarrow> set bs \<subseteq> N \<Longrightarrow> length (fst st) \<le> 2 * buffer_pointers \<Longrightarrow>
      pre_visits fuel ir bs st = (if length (fst st') \<le> 2 * buffer_pointers then Inr st' else Inl OutOfBounds)"
proof (induction fuel G b st and fuel G bs st arbitrary: st' and st' rule: dfs_dfss.induct)
  case (2 fuel G x ps seen)
  show ?case
  proof (cases "x \<in> seen")
    case False
    with "2.prems" obtain ps' seen' where s: "dfss fuel G (G x) (ps, insert x seen) = Some (ps', seen')" "st' = (ps' @ [x], seen')"
      by (auto split: option.splits)
    have "pre_visits fuel ir (G x) (ps, insert x seen) = (if length ps' \<le> 2 * buffer_pointers then Inr (ps', seen') else Inl OutOfBounds)"
      using "2.IH" [OF False s(1) "2.prems"(2) successors_areD(2) [OF "2.prems"(2,3)]] "2.prems"(4) by simp
    with False s(2) successors_areD(1) [OF "2.prems"(2,3)] show ?thesis by (simp add: ptrs_push_def)
  qed (use "2.prems" in auto)
next
  case (5 fuel G x xs st)
  then obtain st1 where s: "dfs fuel G x st = Some st1" "dfss fuel G xs st1 = Some st'" by (auto split: option.splits)
  have 1: "pre_visit fuel ir x st = (if length (fst st1) \<le> 2 * buffer_pointers then Inr st1 else Inl OutOfBounds)"
    using "5.IH"(1) [OF s(1)] "5.prems" by simp
  show ?case
  proof (cases "length (fst st1) \<le> 2 * buffer_pointers")
    case True
    with 1 "5.IH"(2) [OF s] "5.prems" show ?thesis by simp
  next
    case False
    with 1 dfs_longer(2) [OF s(2)] show ?thesis by simp
  qed
qed (simp_all split: if_splits)

lemma successors_are_blocks:
  assumes inv: "ir_inv ir L" and c: "ir_complete ir"
  shows "successors_are ir {b. is_block ir b} (successor_blocks ir)"
  using block_successors_ok [OF inv c] successor_is_block by (auto simp: successors_are_def)

lemma blocks_finite:
  assumes inv: "ir_inv ir L"
  shows "finite {b. is_block ir b}" and "card {b. is_block ir b} \<le> ir_top ir"
proof -
  have "{b. is_block ir b} \<subseteq> {..< ir_top ir}"
    using object_atD [OF heap_D(4) [OF ir_ok_D(1) [OF ir_inv_D(1) [OF inv]] objectsI(3)]] by (auto simp: is_block_def)
  then show "finite {b. is_block ir b}" "card {b. is_block ir b} \<le> ir_top ir"
    using finite_subset card_mono [of "{..< ir_top ir}"] by auto
qed

lemma successor_blocks_le_3:
  assumes inv: "ir_inv ir L" and b: "is_block ir b"
  shows "length (successor_blocks ir b) \<le> 3"
proof -
  have "length (successor_blocks ir b) \<le> inst_count inst"
    if "ir_insts ir (last (block_instructions ir b)) = Some inst" for inst
    using that length_filter_le [of "is_block ir" "map the (take (inst_count inst) (operands ir (last (block_instructions ir b))))"]
    by (auto simp: successor_blocks_def Let_def intro: order.trans)
  moreover have "successor_blocks ir b = []" if "ir_insts ir (last (block_instructions ir b)) = Some inst" "i_type inst = INST_PHI" for inst
    using that by (simp add: successor_blocks_def)
  ultimately show ?thesis using count_le_3 [OF inv] last_instruction(2) [OF inv b]
    by (cases "block_instructions ir b = []") (fastforce simp: successor_blocks_def intro: order.trans)+
qed

text \<open>The blocks of a function, and the fuel for a walk over them.\<close>

definition reached_from :: "ir_context \<Rightarrow> ptr \<Rightarrow> ptr set" where
  "reached_from ir e = (edges (successor_blocks ir))\<^sup>* `` {e}"

lemma dfs_blocks:
  assumes inv: "ir_inv ir L" and c: "ir_complete ir" and e: "is_block ir e" and fuel: "5 * ir_top ir < fuel"
  obtains ps where "dfs fuel (successor_blocks ir) e ([], {}) = Some (ps, set ps)" and "distinct ps"
    and "set ps = reached_from ir e" and "ps \<noteq> []" and "last ps = e" and "post_ordered (successor_blocks ir) ps"
proof -
  have "card {b. is_block ir b} * 5 < fuel" using blocks_finite(2) [OF inv] fuel by linarith
  then have "card {b. is_block ir b} * (3 + 2) < fuel" by (simp only: numeral_plus_numeral add_num_simps)
  moreover have "set (successor_blocks ir b) \<subseteq> {b. is_block ir b} \<and> length (successor_blocks ir b) \<le> 3" if "b \<in> {b. is_block ir b}" for b
    using successor_blocks_le_3 [OF inv] successor_is_block that by blast
  ultimately show ?thesis
    using dfs_from [OF blocks_finite(1) [OF inv], of "successor_blocks ir" 3 e fuel] e that unfolding reached_from_def by blast
qed

lemma reached_are_blocks: "is_block ir e \<Longrightarrow> b \<in> reached_from ir e \<Longrightarrow> is_block ir b"
  unfolding reached_from_def using successor_is_block by (auto elim: rtranclE)

section \<open>A loop, as an example\<close>

definition loop_program :: "ir_call list" where
  "loop_program = [New_function \<lparr>rmem = [], rsize = 0\<rparr>, New_block 4, New_block 4, New_block 4, New_block 4, Constant 1,
     Jump 12, Insert 8 28, Jump_cond 16 20 24, Insert 12 36, Jump 12, Insert 16 52, Return, Insert 20 60, Set_entry 4 8]"

lemma loop_program_checks: "check_program loop_program (\<lambda>ir.
    map (successor_blocks ir) [8, 12, 16, 20] = [[12], [16, 20], [12], []] \<and>
    map (predecessor_blocks ir) [8, 12, 16, 20] = [[], [8, 16], [12], [12]] \<and>
    map (is_block ir) [8, 12, 16, 20] = [True, True, True, True] \<and> ir_top ir = 64 \<and>
    ir_functions ir 4 = Some \<lparr>f_entry = Some 8, f_valueNameCounter = 0\<rparr> \<and>
    dom (ir_insts ir) \<subseteq> set [28, 36, 52, 60] \<and> (\<forall>i \<in> set [28, 36, 52, 60]. jump_ok ir i))"
  by (simp add: loop_program_def ir_ops list_ops list_walk_pos successor_blocks_def predecessor_blocks_def use_list_def
      user_of_def parent_of_def operands_def jump_ok_def numeral_2_eq_2 numeral_3_eq_3 cong: bindE_weak_cong)


lemma loop_program_facts:
  obtains ir where "ir_program loop_program = Inr ir" and "ir_reachable ir"
    and "successor_blocks ir 8 = [12]" and "successor_blocks ir 12 = [16, 20]" and "successor_blocks ir 16 = [12]"
    and "successor_blocks ir 20 = []"
    and "predecessor_blocks ir 8 = []" and "predecessor_blocks ir 12 = [8, 16]" and "predecessor_blocks ir 16 = [12]"
    and "predecessor_blocks ir 20 = [12]" and "is_block ir 8" and "is_block ir 12" and "is_block ir 16" and "is_block ir 20"
    and "ir_top ir = 64" and "ir_functions ir 4 = Some \<lparr>f_entry = Some 8, f_valueNameCounter = 0\<rparr>" and "jumps_last ir"
proof -
  obtain ir where ir: "ir_program loop_program = Inr ir" "ir_reachable ir"
    and f: "map (successor_blocks ir) [8, 12, 16, 20] = [[12], [16, 20], [12], []]"
      "map (predecessor_blocks ir) [8, 12, 16, 20] = [[], [8, 16], [12], [12]]"
      "map (is_block ir) [8, 12, 16, 20] = [True, True, True, True]" "ir_top ir = 64"
      "ir_functions ir 4 = Some \<lparr>f_entry = Some 8, f_valueNameCounter = 0\<rparr>"
      "dom (ir_insts ir) \<subseteq> set [28, 36, 52, 60]" "\<forall>i \<in> set [28, 36, 52, 60]. jump_ok ir i"
    using check_programD [OF loop_program_checks] by (elim exE conjE) (rule that; assumption)
  show thesis using f by (intro that [OF ir]) (simp_all add: jumps_last_check [OF f(6,7)])
qed

text \<open>The blocks reachable in the example.\<close>

lemma loop_reached:
  assumes "successor_blocks ir 8 = [12]" and "successor_blocks ir 12 = [16, 20]" and "successor_blocks ir 16 = [12]"
    and "successor_blocks ir 20 = []"
  shows "reached_from ir 8 = {8, 12, 16, 20}"
proof -
  let ?E = "edges (successor_blocks ir)"
  have "b \<in> {8, 12, 16, 20}" if "(8, b) \<in> ?E\<^sup>*" for b using that by (induction rule: rtrancl_induct) (use assms in auto)
  moreover have "(8, 12) \<in> ?E\<^sup>*" "(12, 16) \<in> ?E" "(12, 20) \<in> ?E" using assms by (auto intro: r_into_rtrancl)
  then have "(8, 12) \<in> ?E\<^sup>*" "(8, 16) \<in> ?E\<^sup>*" "(8, 20) \<in> ?E\<^sup>*" by (meson rtrancl_into_rtrancl)+
  ultimately show ?thesis unfolding reached_from_def by blast
qed

section \<open>Properties\<close>

text \<open>
  C38: The iterators: the successors of a block are the blocks its last instruction has as operands, at most
  three, and its predecessors the parents of the instructions that use it. Each successor has the block among
  its predecessors; when blocks are used by the jumps at the ends of blocks only, both list the same edges.
\<close>
theorem iterators_list_edges:
  assumes "ir_reachable ir" and "is_block ir b"
  shows "block_successors 4 ir b = Inr (successor_blocks ir b) \<and> length (successor_blocks ir b) \<le> 3 \<and>
    block_predecessors (ir_top ir) ir b = Inr (predecessor_blocks ir b) \<and>
    (\<forall>s \<in> set (successor_blocks ir b). is_block ir s \<and> b \<in> set (predecessor_blocks ir s)) \<and>
    (jumps_last ir \<longrightarrow> (\<forall>p. p \<in> set (predecessor_blocks ir b) \<longleftrightarrow> is_block ir p \<and> b \<in> set (successor_blocks ir p)))"
proof -
  obtain L where inv: "ir_inv ir L" and c: "ir_complete ir" using reachable_inv [OF assms(1)] .
  have "block_successors 4 ir b = Inr (successor_blocks ir b)" by (rule block_successors_ok [OF inv c assms(2)]) simp
  moreover have "block_predecessors (ir_top ir) ir b = Inr (predecessor_blocks ir b)"
    by (rule block_predecessors_ok [OF inv assms(2)]) simp
  moreover have "\<forall>s \<in> set (successor_blocks ir b). is_block ir s \<and> b \<in> set (predecessor_blocks ir s)"
    using successor_is_block successor_has_predecessor [OF inv c assms(2)] by blast
  moreover have "jumps_last ir \<longrightarrow> (\<forall>p. p \<in> set (predecessor_blocks ir b) \<longleftrightarrow> is_block ir p \<and> b \<in> set (successor_blocks ir p))"
    using edges_dual [OF inv c _ assms(2)] by simp
  ultimately show ?thesis using successor_blocks_le_3 [OF inv assms(2)] by simp
qed

theorem iterators_list_edges_witness:
  "\<exists>ir. ir_program loop_program = Inr ir \<and> block_successors 4 ir 12 = Inr [16, 20] \<and>
     block_predecessors (ir_top ir) ir 12 = Inr [8, 16] \<and> is_block ir 16 \<and> 12 \<in> set (successor_blocks ir 16)"
proof -
  obtain ir where ir: "ir_program loop_program = Inr ir" "ir_reachable ir" "successor_blocks ir 12 = [16, 20]"
    "predecessor_blocks ir 12 = [8, 16]" "is_block ir 12" "jumps_last ir" by (rule loop_program_facts) (rule that; assumption)
  note it = iterators_list_edges [OF ir(2,5)]
  have "16 \<in> set (predecessor_blocks ir 12)" using ir(4) by simp
  then have "is_block ir 16 \<and> 12 \<in> set (successor_blocks ir 16)" using it ir(6) by blast
  then show ?thesis using it ir(1,3,4) by (intro exI [of _ ir]) simp
qed

text \<open>
  C39: \<open>block_computePostorder\<close> returns the blocks reachable from the entry, each once, the entry last, and
  each block after those of its successors that are not on a cycle with it - or, when there are more than
  250 blocks, writes behind the buffer that holds them.
\<close>
theorem computePostorder_correct:
  assumes "ir_reachable ir" and "ir_functions ir fn = Some f" and "f_entry f = Some e" and "is_block ir e"
    and "5 * ir_top ir < fuel"
  shows "if card (reached_from ir e) \<le> 250
    then \<exists>ps. block_computePostorder fuel ir fn = Inr ps \<and> distinct ps \<and> set ps = reached_from ir e \<and> last ps = e \<and>
      post_ordered (successor_blocks ir) ps
    else block_computePostorder fuel ir fn = Inl OutOfBounds"
proof -
  obtain L where inv: "ir_inv ir L" and c: "ir_complete ir" using reachable_inv [OF assms(1)] .
  obtain ps where ps: "dfs fuel (successor_blocks ir) e ([], {}) = Some (ps, set ps)" "distinct ps"
    "set ps = reached_from ir e" "ps \<noteq> []" "last ps = e" "post_ordered (successor_blocks ir) ps"
    using dfs_blocks [OF inv c assms(4,5)] .
  have "length ps = card (reached_from ir e)" using ps(2,3) distinct_card by metis
  moreover have "pre_visit fuel ir e ([], {}) = (if length ps \<le> 250 then Inr (ps, set ps) else Inl OutOfBounds)"
    using pre_visit_dfs(1) [OF ps(1) successors_are_blocks [OF inv c]] assms(4) by (simp add: buffer_pointers_def DBUFFER_INIT_def)
  ultimately show ?thesis using assms(2,3) ps by (simp add: block_computePostorder_def get_function_def)
qed

theorem computePostorder_correct_witness:
  "\<exists>ir ps. ir_program loop_program = Inr ir \<and> block_computePostorder 321 ir 4 = Inr ps \<and> set ps = {8, 12, 16, 20} \<and> last ps = 8"
proof -
  obtain ir where ir: "ir_program loop_program = Inr ir" "ir_reachable ir" "is_block ir 8" "ir_top ir = 64"
    "ir_functions ir 4 = Some \<lparr>f_entry = Some 8, f_valueNameCounter = 0\<rparr>" "reached_from ir 8 = {8, 12, 16, 20}"
    by (rule loop_program_facts) (rule that; (assumption | rule loop_reached; assumption))
  from computePostorder_correct [OF ir(2,5) _ ir(3), of 321] ir(1,4,6) show ?thesis by auto
qed

text \<open>
  The operands of a phi count as edges: the block of the phi is listed as a predecessor of a block it only names as
  the origin of a value, and is not among that block's predecessors by any jump.
\<close>

definition phi_program :: "ir_call list" where
  "phi_program = [New_function \<lparr>rmem = [], rsize = 0\<rparr>, New_block 4, New_block 4, Constant 1, Phi INT64, Insert 12 20, Phi_insert 20 8 16]"

theorem phi_operand_is_predecessor:
  "\<exists>ir. ir_program phi_program = Inr ir \<and> block_predecessors (ir_top ir) ir 8 = Inr [12] \<and> block_successors 4 ir 12 = Inr []"
proof -
  have "check_program phi_program (\<lambda>ir. predecessor_blocks ir 8 = [12] \<and> successor_blocks ir 12 = [] \<and> is_block ir 8 \<and> is_block ir 12)"
    by (simp add: phi_program_def ir_ops list_ops list_walk_pos successor_blocks_def predecessor_blocks_def use_list_def
        user_of_def parent_of_def operands_def inst_phi_insertValue_def ptrs_push_def cong: bindE_weak_cong)
  from check_programD [OF this] obtain ir where ir: "ir_program phi_program = Inr ir" "ir_reachable ir"
    "predecessor_blocks ir 8 = [12]" "successor_blocks ir 12 = []" "is_block ir 8" "is_block ir 12" by blast
  obtain L where inv: "ir_inv ir L" and c: "ir_complete ir" using reachable_inv [OF ir(2)] .
  have "block_successors 4 ir 12 = Inr (successor_blocks ir 12)" by (rule block_successors_ok [OF inv c ir(6)]) simp
  moreover have "block_predecessors (ir_top ir) ir 8 = Inr (predecessor_blocks ir 8)" by (rule block_predecessors_ok [OF inv ir(5)]) simp
  ultimately show ?thesis using ir by auto
qed

end
