(* ===== verification/Dominators.thy ===== *)
theory Dominators
  imports Ir_Flow
begin

text \<open>
  \<open>dominators.c\<close>: the iterative computation of immediate dominators on the numbers a postorder gives the
  blocks, the tree of the results, and dominance frontiers. This theory holds the definitions;
  \<open>Dominators_Correct\<close> proves them against \<open>Flow_Graph\<close>.
\<close>

section \<open>State\<close>

text \<open>
  The map from blocks to numbers holds an entry without a number while a block is being visited; the maps are
  finite maps, as the theory of hash maps justifies. \<open>domNodes\<close> is the list of the child lists, a node being
  named by its number.
\<close>

record dominators =
  d_nodeToNum :: "ptr \<Rightarrow> nat option option"
  d_postorder :: "ptr list"
  d_doms :: "nat list"
  d_childs :: "nat list list"

definition SIZE_MAX :: nat where "SIZE_MAX = 2 ^ 64 - 1"

section \<open>Numbers\<close>

fun dom_visit :: "nat \<Rightarrow> ir_context \<Rightarrow> ptr \<Rightarrow> (ptr \<Rightarrow> nat option option) \<times> ptr list \<Rightarrow> ((ptr \<Rightarrow> nat option option) \<times> ptr list) res"
  and dom_visits :: "nat \<Rightarrow> ir_context \<Rightarrow> ptr list \<Rightarrow> (ptr \<Rightarrow> nat option option) \<times> ptr list \<Rightarrow> ((ptr \<Rightarrow> nat option option) \<times> ptr list) res" where
  "dom_visit 0 ir block st = Inl OutOfFuel"
| "dom_visit (Suc fuel) ir block (nums, postorder) =
     (if nums block \<noteq> None then Inr (nums, postorder)
      else
        bindE (block_successors 4 ir block) (\<lambda>succs.
        bindE (dom_visits fuel ir succs (nums(block \<mapsto> None), postorder)) (\<lambda>(nums, postorder).
        bindE (ptrs_push buffer_pointers postorder block) (\<lambda>postorder'.
          Inr (nums(block \<mapsto> Some (length postorder)), postorder')))))"
| "dom_visits fuel ir [] st = Inr st"
| "dom_visits 0 ir (b # bs) st = Inl OutOfFuel"
| "dom_visits (Suc fuel) ir (b # bs) st = bindE (dom_visit fuel ir b st) (\<lambda>st. dom_visits fuel ir bs st)"

definition dominators_getNumber :: "dominators \<Rightarrow> ptr \<Rightarrow> nat res" where
  "dominators_getNumber d block = (case d_nodeToNum d block of
     None \<Rightarrow> Inl NullDeref
   | Some None \<Rightarrow> Inl Indeterminate
   | Some (Some n) \<Rightarrow> Inr n)"

definition read_dom :: "nat list \<Rightarrow> nat \<Rightarrow> nat res" where
  "read_dom doms a = (if a < length doms then Inr (doms ! a) else Inl OutOfBounds)"

text \<open>The inner loops of \<open>intersect\<close>: \<open>a\<close> goes up while it is below \<open>b\<close>.\<close>

fun climb :: "nat \<Rightarrow> nat list \<Rightarrow> nat \<Rightarrow> nat \<Rightarrow> nat res" where
  "climb 0 doms a b = Inl OutOfFuel"
| "climb (Suc fuel) doms a b = (if a < b then bindE (read_dom doms a) (\<lambda>a. climb fuel doms a b) else Inr a)"

fun intersect :: "nat \<Rightarrow> nat list \<Rightarrow> nat \<Rightarrow> nat \<Rightarrow> nat res" where
  "intersect 0 doms a b = Inl OutOfFuel"
| "intersect (Suc fuel) doms a b =
     (if a = b then Inr a
      else bindE (climb (Suc fuel) doms a b) (\<lambda>a. bindE (climb (Suc fuel) doms b a) (\<lambda>b. intersect fuel doms a b)))"

section \<open>The iteration\<close>

text \<open>The loop over the predecessors after the first one.\<close>

fun join_preds :: "nat \<Rightarrow> dominators \<Rightarrow> ptr list \<Rightarrow> nat \<Rightarrow> nat res" where
  "join_preds fuel d [] newDom = Inr newDom"
| "join_preds fuel d (p # ps) newDom =
     bindE (dominators_getNumber d p) (\<lambda>predBlockNum.
     bindE (read_dom (d_doms d) predBlockNum) (\<lambda>pDom.
       if pDom = SIZE_MAX then join_preds fuel d ps newDom
       else bindE (intersect fuel (d_doms d) predBlockNum newDom) (\<lambda>newDom. join_preds fuel d ps newDom)))"

definition dom_step :: "nat \<Rightarrow> ir_context \<Rightarrow> nat \<Rightarrow> dominators \<times> bool \<Rightarrow> (dominators \<times> bool) res" where
  "dom_step fuel ir i st = (case st of (d, changed) \<Rightarrow>
     bindE (block_predecessors (ir_top ir) ir (d_postorder d ! i)) (\<lambda>preds.
     bindE (read_dom (d_doms d) i) (\<lambda>old.
     bindE (case preds of [] \<Rightarrow> Inr old | p # ps \<Rightarrow> dominators_getNumber d p) (\<lambda>newDom.
     bindE (join_preds fuel d (drop 1 preds) newDom) (\<lambda>newDom.
       Inr (d\<lparr>d_doms := (d_doms d)[i := newDom]\<rparr>, changed \<or> old \<noteq> newDom))))))"

text \<open>One pass over the blocks in reverse postorder, and the passes until nothing changes.\<close>

fun dom_pass :: "nat \<Rightarrow> ir_context \<Rightarrow> nat list \<Rightarrow> dominators \<times> bool \<Rightarrow> (dominators \<times> bool) res" where
  "dom_pass fuel ir [] st = Inr st"
| "dom_pass fuel ir (i # is) st = bindE (dom_step fuel ir i st) (dom_pass fuel ir is)"

fun dom_loop :: "nat \<Rightarrow> nat \<Rightarrow> ir_context \<Rightarrow> dominators \<Rightarrow> dominators res" where
  "dom_loop 0 fuel ir d = Inl OutOfFuel"
| "dom_loop (Suc passes) fuel ir d =
     bindE (dom_pass fuel ir (rev [0 ..< length (d_postorder d)]) (d, False)) (\<lambda>(d, changed).
       if changed then dom_loop passes fuel ir d else Inr d)"

text \<open>Each node is put into the list of its immediate dominator, which has room for 16.\<close>

fun dom_childs :: "nat list \<Rightarrow> nat list \<Rightarrow> nat list list \<Rightarrow> nat list list res" where
  "dom_childs doms [] childs = Inr childs"
| "dom_childs doms (i # is) childs =
     bindE (read_dom doms i) (\<lambda>iDom.
       if iDom = i then dom_childs doms is childs
       else if length childs \<le> iDom then Inl OutOfBounds
       else bindE (ptrs_push 8 (childs ! iDom) i) (\<lambda>cs. dom_childs doms is (childs[iDom := cs])))"

definition dominators_compute :: "nat \<Rightarrow> ir_context \<Rightarrow> ptr \<Rightarrow> dominators res" where
  "dominators_compute fuel ir entry =
     bindE (dom_visit fuel ir entry (Map.empty, [])) (\<lambda>(nums, postorder).
     let n = length postorder;
         d = \<lparr>d_nodeToNum = nums, d_postorder = postorder, d_doms = replicate n SIZE_MAX, d_childs = []\<rparr> in
     if n = 0 then Inr d
     else
       bindE (dom_loop fuel fuel ir (d\<lparr>d_doms := (d_doms d)[n - 1 := n - 1]\<rparr>)) (\<lambda>d.
       bindE (dom_childs (d_doms d) [0 ..< n] (replicate n [])) (\<lambda>childs.
         Inr (d\<lparr>d_childs := childs\<rparr>))))"

section \<open>Queries\<close>

definition postorder_at :: "dominators \<Rightarrow> nat \<Rightarrow> ptr res" where
  "postorder_at d i = (if i < length (d_postorder d) then Inr (d_postorder d ! i) else Inl OutOfBounds)"

definition dominators_getIDom :: "dominators \<Rightarrow> ptr \<Rightarrow> ptr res" where
  "dominators_getIDom d block =
     bindE (dominators_getNumber d block) (\<lambda>blockNum. bindE (read_dom (d_doms d) blockNum) (postorder_at d))"

definition dominators_getNode :: "dominators \<Rightarrow> ptr \<Rightarrow> nat res" where
  "dominators_getNode d block = dominators_getNumber d block"

record dominator_child_it =
  cit_node :: nat
  cit_i :: nat

definition dominator_child_begin :: "dominators \<Rightarrow> ptr \<Rightarrow> dominator_child_it res" where
  "dominator_child_begin d block =
     bindE (dominators_getNumber d block) (\<lambda>i. Inr \<lparr>cit_node = i, cit_i = 0\<rparr>)"

definition dominator_child_next :: "dominator_child_it \<Rightarrow> dominator_child_it" where
  "dominator_child_next it = it\<lparr>cit_i := cit_i it + 1\<rparr>"

definition dominator_child_end :: "dominators \<Rightarrow> dominator_child_it \<Rightarrow> bool" where
  "dominator_child_end d it \<longleftrightarrow> length (d_childs d ! cit_node it) \<le> cit_i it"

definition dominator_child_get :: "dominators \<Rightarrow> dominator_child_it \<Rightarrow> ptr res" where
  "dominator_child_get d it =
     assertE (\<not> dominator_child_end d it) (postorder_at d (d_childs d ! cit_node it ! cit_i it))"

section \<open>Dominance frontiers\<close>

type_synonym domfrontiers = "ptr \<Rightarrow> ptr list option"

text \<open>\<open>_df_getElement\<close>: the list of a block, made empty when there is none yet.\<close>

definition df_getElement :: "domfrontiers \<Rightarrow> ptr \<Rightarrow> domfrontiers \<times> ptr list" where
  "df_getElement df block = (case df block of Some dlist \<Rightarrow> (df, dlist) | None \<Rightarrow> (df(block \<mapsto> []), []))"

fun df_runner :: "nat \<Rightarrow> dominators \<Rightarrow> ptr \<Rightarrow> ptr \<Rightarrow> ptr \<Rightarrow> domfrontiers \<Rightarrow> domfrontiers res" where
  "df_runner 0 d block idom runner df = Inl OutOfFuel"
| "df_runner (Suc fuel) d block idom runner df =
     (if runner = idom then Inr df
      else
        (case df_getElement df runner of (df, dlist) \<Rightarrow>
         bindE (ptrs_push buffer_pointers dlist block) (\<lambda>dlist.
         bindE (dominators_getIDom d runner) (\<lambda>runner'.
           df_runner fuel d block idom runner' (df(runner \<mapsto> dlist))))))"

fun df_preds :: "nat \<Rightarrow> dominators \<Rightarrow> ptr \<Rightarrow> ptr list \<Rightarrow> domfrontiers \<Rightarrow> domfrontiers res" where
  "df_preds fuel d block [] df = Inr df"
| "df_preds fuel d block (p # ps) df =
     bindE (dominators_getIDom d block) (\<lambda>idom. bindE (df_runner fuel d block idom p df) (df_preds fuel d block ps))"

fun df_blocks :: "nat \<Rightarrow> ir_context \<Rightarrow> dominators \<Rightarrow> ptr list \<Rightarrow> domfrontiers \<Rightarrow> domfrontiers res" where
  "df_blocks fuel ir d [] df = Inr df"
| "df_blocks fuel ir d (b # bs) df =
     bindE (block_predecessors (ir_top ir) ir b) (\<lambda>preds. bindE (df_preds fuel d b preds df) (df_blocks fuel ir d bs))"

definition domfrontiers_compute :: "nat \<Rightarrow> ir_context \<Rightarrow> dominators \<Rightarrow> domfrontiers res" where
  "domfrontiers_compute fuel ir d = df_blocks fuel ir d (d_postorder d) Map.empty"

definition domfrontiers_get :: "domfrontiers \<Rightarrow> ptr \<Rightarrow> domfrontiers \<times> ptr list" where
  "domfrontiers_get df block = df_getElement df block"

end
