(* ===== verification/Ssa.thy ===== *)
theory Ssa
  imports Dominators
begin

text \<open>
  \<open>ssa_conversion.c\<close>: loads from and assignments to registers are replaced by values and phis. The
  first step lists the loads and assignments of each block, the second puts phis into the dominance
  frontiers of the assignments, the third walks over the dominator tree with a stack of values for each
  register. This theory holds the definitions. \<open>Ssa_Phis\<close> and \<open>Ssa_Place\<close> have the lemmas on the first two steps,
  \<open>Ssa_Reach\<close> and \<open>Ssa_Rename\<close> those on the third, \<open>Ssa_Correct\<close> and \<open>Ssa_Paths\<close> the theorems on the whole.
\<close>

section \<open>State\<close>

text \<open>
  The maps are keyed by \<open>int\<close>, so a register is its identifier modulo $2^{32}$. The structs \<open>reg_info\<close>,
  \<open>phi_info\<close> and \<open>reg_block_info\<close> are entries of maps and are named by their key, also in the lists that point
  to them.
\<close>

type_synonym reg = "32 word"

record reg_info =
  ri_assigns :: "ptr list"
  ri_valueStack :: "ptr list"

text \<open>\<open>bi_regMap\<close> has the last assignment to a register inside the block, \<open>bi_phiMap\<close> the instruction of a phi.\<close>

record block_info =
  bi_regMap :: "reg \<Rightarrow> ptr option option"
  bi_regList :: "reg list"
  bi_phiMap :: "reg \<Rightarrow> ptr option"
  bi_phiList :: "reg list"
  bi_loadAssigns :: "ptr list"
  bi_isRenamed :: bool

definition block_info_init :: block_info where
  "block_info_init = \<lparr>bi_regMap = Map.empty, bi_regList = [], bi_phiMap = Map.empty, bi_phiList = [],
     bi_loadAssigns = [], bi_isRenamed = False\<rparr>"

definition read_info :: "'a list \<Rightarrow> nat \<Rightarrow> 'a res" where
  "read_info infos i = (if i < length infos then Inr (infos ! i) else Inl OutOfBounds)"

definition reg_of :: "instruction_t \<Rightarrow> reg" where
  "reg_of inst = of_nat (i_rId inst)"

definition block_info_getOrCreatePhi ::
  "ir_context \<Rightarrow> block_info \<Rightarrow> ptr \<Rightarrow> reg \<Rightarrow> data_type \<Rightarrow> (ir_context \<times> block_info \<times> ptr) res" where
  "block_info_getOrCreatePhi ir bInfo block r type = (case bi_phiMap bInfo r of
     Some phi \<Rightarrow> Inr (ir, bInfo, phi)
   | None \<Rightarrow>
       bindE (ptrs_push buffer_pointers (bi_phiList bInfo) r) (\<lambda>phiList.
       bindE (inst_new_phi ir type 0) (\<lambda>(ir, phi).
       bindE (block_insertTop ir block phi) (\<lambda>ir.
         Inr (ir, bInfo\<lparr>bi_phiMap := (bi_phiMap bInfo)(r \<mapsto> phi), bi_phiList := phiList\<rparr>, phi)))))"

definition getOrCreateRegInfo :: "block_info \<Rightarrow> reg \<Rightarrow> block_info res" where
  "getOrCreateRegInfo bInfo r = (case bi_regMap bInfo r of
     Some _ \<Rightarrow> Inr bInfo
   | None \<Rightarrow> bindE (ptrs_push buffer_pointers (bi_regList bInfo) r) (\<lambda>regList.
       Inr (bInfo\<lparr>bi_regMap := (bi_regMap bInfo)(r \<mapsto> None), bi_regList := regList\<rparr>)))"

section \<open>Values of registers\<close>

definition getLastValueUnsafe :: "(reg \<Rightarrow> reg_info option) \<Rightarrow> reg \<Rightarrow> ptr option" where
  "getLastValueUnsafe vars r = (case vars r of
     None \<Rightarrow> None
   | Some rInfo \<Rightarrow> if ri_valueStack rInfo = [] then None else Some (last (ri_valueStack rInfo)))"

definition getLastValue :: "(reg \<Rightarrow> reg_info option) \<Rightarrow> reg \<Rightarrow> ptr res" where
  "getLastValue vars r = (case getLastValueUnsafe vars r of None \<Rightarrow> Inl AssertFail | Some v \<Rightarrow> Inr v)"

definition pushValue :: "(reg \<Rightarrow> reg_info option) \<Rightarrow> reg \<Rightarrow> ptr \<Rightarrow> (reg \<Rightarrow> reg_info option) res" where
  "pushValue vars r v = (case vars r of
     None \<Rightarrow> Inl AssertFail
   | Some rInfo \<Rightarrow> bindE (ptrs_push buffer_pointers (ri_valueStack rInfo) v) (\<lambda>vs.
       Inr (vars(r \<mapsto> rInfo\<lparr>ri_valueStack := vs\<rparr>))))"

definition popValue :: "(reg \<Rightarrow> reg_info option) \<Rightarrow> reg \<Rightarrow> (reg \<Rightarrow> reg_info option) res" where
  "popValue vars r = (case vars r of
     None \<Rightarrow> Inl AssertFail
   | Some rInfo \<Rightarrow> assertE (ri_valueStack rInfo \<noteq> [])
       (Inr (vars(r \<mapsto> rInfo\<lparr>ri_valueStack := butlast (ri_valueStack rInfo)\<rparr>))))"

text \<open>\<open>assign->var->value\<close>\<close>

definition assigned_value :: "ir_context \<Rightarrow> instruction_t \<Rightarrow> ptr res" where
  "assigned_value ir assign = bindE (read_use (Some (i_uses assign)) 0) (\<lambda>u. bindE (get_use ir u) (\<lambda>use. Inr (u_value use)))"

section \<open>Step 1: the blocks\<close>

text \<open>The loads and assignments of a block, by the nodes of its list of instructions.\<close>

fun analyze_insts :: "ir_context \<Rightarrow> ptr list \<Rightarrow> block_info \<Rightarrow> block_info res" where
  "analyze_insts ir [] bInfo = Inr bInfo"
| "analyze_insts ir (c # cs) bInfo =
     bindE (get_inst ir (c - 1)) (\<lambda>inst.
       if i_type inst = INST_LOAD_VAR then
         bindE (getOrCreateRegInfo bInfo (reg_of inst)) (\<lambda>bInfo.
         bindE (ptrs_push buffer_pointers (bi_loadAssigns bInfo) (c - 1)) (\<lambda>loadAssigns.
           analyze_insts ir cs (bInfo\<lparr>bi_loadAssigns := loadAssigns\<rparr>)))
       else if i_type inst = INST_ASSIGN_VAR then
         bindE (getOrCreateRegInfo bInfo (reg_of inst)) (\<lambda>bInfo.
         bindE (ptrs_push buffer_pointers (bi_loadAssigns bInfo) (c - 1)) (\<lambda>loadAssigns.
           analyze_insts ir cs (bInfo\<lparr>bi_regMap := (bi_regMap bInfo)(reg_of inst \<mapsto> Some (c - 1)),
             bi_loadAssigns := loadAssigns\<rparr>)))
       else analyze_insts ir cs bInfo)"

text \<open>The registers of a block are entered into the map of the function.\<close>

definition register_reg ::
  "block_info \<Rightarrow> reg \<Rightarrow> (reg \<Rightarrow> reg_info option) \<times> reg list \<Rightarrow> ((reg \<Rightarrow> reg_info option) \<times> reg list) res" where
  "register_reg bInfo r st = (case st of (vars, variableList) \<Rightarrow>
     bindE (case vars r of
              Some rInfo \<Rightarrow> Inr (rInfo, variableList)
            | None \<Rightarrow> bindE (ptrs_push buffer_pointers variableList r) (\<lambda>variableList.
                Inr (\<lparr>ri_assigns = [], ri_valueStack = []\<rparr>, variableList))) (\<lambda>(rInfo, variableList).
       case bi_regMap bInfo r of
         None \<Rightarrow> Inl NullDeref
       | Some None \<Rightarrow> Inr (vars(r \<mapsto> rInfo), variableList)
       | Some (Some a) \<Rightarrow> bindE (ptrs_push buffer_pointers (ri_assigns rInfo) a) (\<lambda>assigns.
           Inr (vars(r \<mapsto> rInfo\<lparr>ri_assigns := assigns\<rparr>), variableList))))"

fun register_regs ::
  "block_info \<Rightarrow> reg list \<Rightarrow> (reg \<Rightarrow> reg_info option) \<times> reg list \<Rightarrow> ((reg \<Rightarrow> reg_info option) \<times> reg list) res" where
  "register_regs bInfo [] st = Inr st"
| "register_regs bInfo (r # rs) st = bindE (register_reg bInfo r st) (register_regs bInfo rs)"

fun analyze_blocks ::
  "ir_context \<Rightarrow> ptr list \<Rightarrow> block_info list \<Rightarrow> (reg \<Rightarrow> reg_info option) \<times> reg list \<Rightarrow>
   (block_info list \<times> (reg \<Rightarrow> reg_info option) \<times> reg list) res" where
  "analyze_blocks ir [] infos st = Inr (infos, st)"
| "analyze_blocks ir (b # bs) infos st =
     bindE (LIST_FOR_EACH (ir_top ir) (ir_cells ir) (b + 1)) (\<lambda>cs.
     bindE (analyze_insts ir cs block_info_init) (\<lambda>bInfo.
     bindE (register_regs bInfo (bi_regList bInfo) st) (\<lambda>st.
       analyze_blocks ir bs (infos @ [bInfo]) st)))"

section \<open>Step 2: phis\<close>

record place_state =
  pl_ir :: ir_context
  pl_infos :: "block_info list"
  pl_df :: domfrontiers
  pl_lastIteration :: "nat list"
  pl_worklist :: "ptr list"

text \<open>The worklist has a value and a block in turn.\<close>

definition push_pair :: "ptr list \<Rightarrow> ptr \<Rightarrow> ptr \<Rightarrow> ptr list res" where
  "push_pair worklist v b = bindE (ptrs_push buffer_pointers worklist v) (\<lambda>w. ptrs_push buffer_pointers w b)"

fun seed_worklist :: "dominators \<Rightarrow> nat \<Rightarrow> ptr list \<Rightarrow> place_state \<Rightarrow> place_state res" where
  "seed_worklist d i [] st = Inr st"
| "seed_worklist d i (a # as) st =
     bindE (get_inst (pl_ir st) a) (\<lambda>assign.
     bindE (dominators_getNumber d (i_parent assign)) (\<lambda>bId.
     bindE (read_info (pl_lastIteration st) bId) (\<lambda>_.
     bindE (assigned_value (pl_ir st) assign) (\<lambda>v.
     bindE (push_pair (pl_worklist st) v (i_parent assign)) (\<lambda>worklist.
       seed_worklist d i as (st\<lparr>pl_lastIteration := (pl_lastIteration st)[bId := i], pl_worklist := worklist\<rparr>))))))"

text \<open>The loop over the dominance frontier of a block.\<close>

definition place_phi :: "dominators \<Rightarrow> nat \<Rightarrow> reg \<Rightarrow> ptr \<Rightarrow> ptr \<Rightarrow> place_state \<Rightarrow> place_state res" where
  "place_phi d i r v dfBlock st =
     bindE (dominators_getNumber d dfBlock) (\<lambda>bId.
     bindE (read_info (pl_infos st) bId) (\<lambda>bInfo.
     bindE (get_value (pl_ir st) v) (\<lambda>value.
     bindE (block_info_getOrCreatePhi (pl_ir st) bInfo dfBlock r (v_dataType value)) (\<lambda>(ir, bInfo, phi).
     bindE (read_info (pl_lastIteration st) bId) (\<lambda>visited.
     let st = st\<lparr>pl_ir := ir, pl_infos := (pl_infos st)[bId := bInfo]\<rparr> in
       if visited < i then
         bindE (push_pair (pl_worklist st) phi dfBlock) (\<lambda>worklist.
           Inr (st\<lparr>pl_lastIteration := (pl_lastIteration st)[bId := i], pl_worklist := worklist\<rparr>))
       else Inr st)))))"

fun place_phis :: "dominators \<Rightarrow> nat \<Rightarrow> reg \<Rightarrow> ptr \<Rightarrow> ptr list \<Rightarrow> place_state \<Rightarrow> place_state res" where
  "place_phis d i r v [] st = Inr st"
| "place_phis d i r v (b # bs) st = bindE (place_phi d i r v b st) (place_phis d i r v bs)"

fun worklist_loop :: "nat \<Rightarrow> dominators \<Rightarrow> nat \<Rightarrow> reg \<Rightarrow> nat \<Rightarrow> place_state \<Rightarrow> place_state res" where
  "worklist_loop 0 d i r iW st = Inl OutOfFuel"
| "worklist_loop (Suc fuel) d i r iW st =
     (if iW < length (pl_worklist st) then
        case domfrontiers_get (pl_df st) (pl_worklist st ! (iW + 1)) of (df, dfArray) \<Rightarrow>
          bindE (place_phis d i r (pl_worklist st ! iW) dfArray (st\<lparr>pl_df := df\<rparr>)) (worklist_loop fuel d i r (iW + 2))
      else Inr st)"

text \<open>The variables in the order of their list: \<open>i\<close> is the position of the next one.\<close>

fun place_variables ::
  "nat \<Rightarrow> dominators \<Rightarrow> (reg \<Rightarrow> reg_info option) \<Rightarrow> nat \<Rightarrow> reg list \<Rightarrow> place_state \<Rightarrow> place_state res" where
  "place_variables fuel d vars i [] st = Inr st"
| "place_variables fuel d vars i (r # rs) st =
     bindE (case vars r of None \<Rightarrow> Inl NullDeref | Some rInfo \<Rightarrow>
              bindE (seed_worklist d i (ri_assigns rInfo) (st\<lparr>pl_worklist := []\<rparr>)) (worklist_loop fuel d i r 0))
       (place_variables fuel d vars (i + 1) rs)"

section \<open>Step 3: renaming\<close>

record rename_state =
  rn_ir :: ir_context
  rn_infos :: "block_info list"
  rn_vars :: "reg \<Rightarrow> reg_info option"

definition phi_inst :: "block_info \<Rightarrow> reg \<Rightarrow> ptr res" where
  "phi_inst bInfo r = (case bi_phiMap bInfo r of None \<Rightarrow> Inl NullDeref | Some phi \<Rightarrow> Inr phi)"

fun push_phis :: "block_info \<Rightarrow> reg list \<Rightarrow> rename_state \<Rightarrow> rename_state res" where
  "push_phis bInfo [] st = Inr st"
| "push_phis bInfo (r # rs) st =
     bindE (phi_inst bInfo r) (\<lambda>phi.
     bindE (pushValue (rn_vars st) r phi) (\<lambda>vars. push_phis bInfo rs (st\<lparr>rn_vars := vars\<rparr>)))"

definition rename_inst :: "ptr \<Rightarrow> rename_state \<Rightarrow> rename_state res" where
  "rename_inst i st =
     bindE (get_inst (rn_ir st) i) (\<lambda>inst.
       if i_type inst = INST_LOAD_VAR then
         bindE (getLastValue (rn_vars st) (reg_of inst)) (\<lambda>lastValue.
         bindE (value_replaceAllUses (ir_top (rn_ir st)) (rn_ir st) i lastValue) (\<lambda>ir.
         bindE (inst_remove ir i) (\<lambda>ir. Inr (st\<lparr>rn_ir := ir\<rparr>))))
       else if i_type inst = INST_ASSIGN_VAR then
         bindE (assigned_value (rn_ir st) inst) (\<lambda>v.
         bindE (pushValue (rn_vars st) (reg_of inst) v) (\<lambda>vars.
         bindE (inst_remove (rn_ir st) i) (\<lambda>ir. Inr (st\<lparr>rn_ir := ir, rn_vars := vars\<rparr>))))
       else Inl AssertFail)"

fun rename_insts :: "ptr list \<Rightarrow> rename_state \<Rightarrow> rename_state res" where
  "rename_insts [] st = Inr st"
| "rename_insts (i # is) st = bindE (rename_inst i st) (rename_insts is)"

text \<open>The current values go to the phis of a successor.\<close>

fun fill_phis :: "(reg \<Rightarrow> reg_info option) \<Rightarrow> block_info \<Rightarrow> ptr \<Rightarrow> reg list \<Rightarrow> ir_context \<Rightarrow> ir_context res" where
  "fill_phis vars sInfo current [] ir = Inr ir"
| "fill_phis vars sInfo current (r # rs) ir =
     (case getLastValueUnsafe vars r of
        None \<Rightarrow> fill_phis vars sInfo current rs ir
      | Some lastValue \<Rightarrow>
          bindE (phi_inst sInfo r) (\<lambda>phi.
          bindE (inst_phi_insertValue ir phi current lastValue) (fill_phis vars sInfo current rs)))"

fun fill_successors :: "nat \<Rightarrow> dominators \<Rightarrow> ptr \<Rightarrow> block_successor_it \<Rightarrow> rename_state \<Rightarrow> rename_state res" where
  "fill_successors 0 d current it st = Inl OutOfFuel"
| "fill_successors (Suc fuel) d current it st =
     (if block_successor_end it then Inr st
      else
        bindE (block_successor_get it) (\<lambda>sblock.
        bindE (dominators_getNumber d sblock) (\<lambda>bNumber.
        bindE (read_info (rn_infos st) bNumber) (\<lambda>sInfo.
        bindE (fill_phis (rn_vars st) sInfo current (bi_phiList sInfo) (rn_ir st)) (\<lambda>ir.
        bindE (block_successor_next ir it) (\<lambda>it.
          fill_successors fuel d current it (st\<lparr>rn_ir := ir\<rparr>)))))))"

fun pop_assigns :: "ptr list \<Rightarrow> rename_state \<Rightarrow> rename_state res" where
  "pop_assigns [] st = Inr st"
| "pop_assigns (i # is) st =
     bindE (get_inst (rn_ir st) i) (\<lambda>inst.
     bindE (if i_type inst = INST_ASSIGN_VAR then popValue (rn_vars st) (reg_of inst) else Inr (rn_vars st)) (\<lambda>vars.
       pop_assigns is (st\<lparr>rn_vars := vars\<rparr>)))"

fun pop_phis :: "reg list \<Rightarrow> rename_state \<Rightarrow> rename_state res" where
  "pop_phis [] st = Inr st"
| "pop_phis (r # rs) st = bindE (popValue (rn_vars st) r) (\<lambda>vars. pop_phis rs (st\<lparr>rn_vars := vars\<rparr>))"

text \<open>What is done inside a block before its children are visited, and after.\<close>

definition rename_block :: "dominators \<Rightarrow> ptr \<Rightarrow> block_info \<Rightarrow> rename_state \<Rightarrow> rename_state res" where
  "rename_block d current bInfo st =
     bindE (push_phis bInfo (bi_phiList bInfo) st) (\<lambda>st.
     bindE (rename_insts (bi_loadAssigns bInfo) st) (\<lambda>st.
     bindE (block_successor_begin (rn_ir st) current) (\<lambda>it.
       fill_successors 4 d current it st)))"

definition rename_leave :: "block_info \<Rightarrow> rename_state \<Rightarrow> rename_state res" where
  "rename_leave bInfo st = bindE (pop_assigns (bi_loadAssigns bInfo) st) (pop_phis (bi_phiList bInfo))"

fun ssa_rename :: "nat \<Rightarrow> dominators \<Rightarrow> ptr \<Rightarrow> rename_state \<Rightarrow> rename_state res"
  and rename_children :: "nat \<Rightarrow> dominators \<Rightarrow> dominator_child_it \<Rightarrow> rename_state \<Rightarrow> rename_state res" where
  "ssa_rename 0 d current st = Inl OutOfFuel"
| "ssa_rename (Suc fuel) d current st =
     bindE (dominators_getNumber d current) (\<lambda>number.
     bindE (read_info (rn_infos st) number) (\<lambda>bInfo.
       if bi_isRenamed bInfo then Inr st
       else
         bindE (rename_block d current bInfo (st\<lparr>rn_infos := (rn_infos st)[number := bInfo\<lparr>bi_isRenamed := True\<rparr>]\<rparr>)) (\<lambda>st.
         bindE (dominator_child_begin d current) (\<lambda>it.
         bindE (rename_children fuel d it st) (rename_leave bInfo)))))"
| "rename_children 0 d it st = Inl OutOfFuel"
| "rename_children (Suc fuel) d it st =
     (if dominator_child_end d it then Inr st
      else
        bindE (dominator_child_get d it) (\<lambda>block.
        bindE (ssa_rename fuel d block st) (rename_children fuel d (dominator_child_next it))))"

section \<open>The conversion\<close>

text \<open>A phi without a use is taken out again.\<close>

fun remove_phis :: "block_info \<Rightarrow> reg list \<Rightarrow> ir_context \<Rightarrow> ir_context res" where
  "remove_phis bInfo [] ir = Inr ir"
| "remove_phis bInfo (r # rs) ir =
     bindE (phi_inst bInfo r) (\<lambda>phi.
     bindE (value_hasUse ir phi) (\<lambda>used.
     bindE (if used then Inr ir else inst_remove ir phi) (remove_phis bInfo rs)))"

fun remove_unused :: "block_info list \<Rightarrow> ir_context \<Rightarrow> ir_context res" where
  "remove_unused [] ir = Inr ir"
| "remove_unused (bInfo # infos) ir = bindE (remove_phis bInfo (bi_phiList bInfo) ir) (remove_unused infos)"

definition ssa_place :: "nat \<Rightarrow> ir_context \<Rightarrow> dominators \<Rightarrow> domfrontiers \<Rightarrow> (place_state \<times> (reg \<Rightarrow> reg_info option) \<times> reg list) res" where
  "ssa_place fuel ir d df =
     bindE (analyze_blocks ir (d_postorder d) [] (Map.empty, [])) (\<lambda>(infos, vars, variableList).
     bindE (place_variables fuel d vars 0 variableList
              \<lparr>pl_ir = ir, pl_infos = infos, pl_df = df, pl_lastIteration = replicate (length (d_postorder d)) 0, pl_worklist = []\<rparr>)
       (\<lambda>st. Inr (st, vars, variableList)))"

definition ssa_convert :: "nat \<Rightarrow> ir_context \<Rightarrow> ptr \<Rightarrow> dominators \<Rightarrow> domfrontiers \<Rightarrow> ir_context res" where
  "ssa_convert fuel ir fn d df =
     bindE (ssa_place fuel ir d df) (\<lambda>(st, vars, _).
     bindE (get_function (pl_ir st) fn) (\<lambda>f.
       case f_entry f of
         None \<Rightarrow> Inl Indeterminate
       | Some entry \<Rightarrow>
           bindE (ssa_rename fuel d entry \<lparr>rn_ir = pl_ir st, rn_infos = pl_infos st, rn_vars = vars\<rparr>) (\<lambda>st.
             remove_unused (rn_infos st) (rn_ir st))))"

end
