(* ===== verification/Ir_View.thy ===== *)
theory Ir_View
  imports Ir_Flow
begin

text \<open>
  What the calls of \<open>ir.h\<close> do, on the view of a context its clients have: the objects there are, the fields
  and operands of an instruction, and the instructions of a block in their order.
\<close>

definition ir_good :: "ir_context \<Rightarrow> bool" where
  "ir_good ir \<longleftrightarrow> (\<exists>L. ir_inv ir L) \<and> ir_complete ir"

lemma ir_goodI: "ir_inv ir L \<Longrightarrow> ir_complete ir \<Longrightarrow> ir_good ir"
  by (auto simp: ir_good_def)

lemma ir_goodE:
  assumes "ir_good ir"
  obtains L where "ir_inv ir L" and "ir_complete ir"
  using assms by (auto simp: ir_good_def)

lemma reachable_good: "ir_reachable ir \<Longrightarrow> ir_good ir"
  by (metis reachable_inv ir_goodI)

text \<open>Nothing but uses and links changes between two contexts.\<close>

definition same_objects :: "ir_context \<Rightarrow> ir_context \<Rightarrow> bool" where
  "same_objects ir ir' \<longleftrightarrow> ir_values ir' = ir_values ir \<and> ir_blocks ir' = ir_blocks ir \<and> ir_functions ir' = ir_functions ir"

lemma same_objectsD:
  assumes "same_objects ir ir'"
  shows "ir_values ir' = ir_values ir" and "ir_blocks ir' = ir_blocks ir" and "ir_functions ir' = ir_functions ir"
    and "is_value ir' v = is_value ir v" and "is_block ir' b = is_block ir b"
  using assms by (simp_all add: same_objects_def is_value_def is_block_def)

lemma same_objects_trans [trans]: "same_objects a b \<Longrightarrow> same_objects b c \<Longrightarrow> same_objects a c"
  and same_objects_refl [simp]: "same_objects a a"
  by (simp_all add: same_objects_def)

lemma block_instructionsD:
  assumes "ir_good ir" and b: "is_block ir b"
  shows "distinct (block_instructions ir b)"
    and "i \<in> set (block_instructions ir b) \<Longrightarrow> \<exists>inst. ir_insts ir i = Some inst \<and> i_parent inst = b"
    and "LIST_FOR_EACH (ir_top ir) (ir_cells ir) (b + 1) = Inr (map (\<lambda>i. i + 1) (block_instructions ir b))"
    and "i \<in> set (block_instructions ir b) \<Longrightarrow> inserted ir i"
proof -
  obtain L where inv: "ir_inv ir L" using assms(1) by (auto simp: ir_good_def)
  note ok = ir_inv_D(1) [OF inv]
  obtain f where f: "ir_blocks ir b = Some f" using b by (auto simp: is_block_def)
  obtain cs where cs: "L (b + 1) = Some cs" using block_list [OF ok f] by blast
  note n = block_inst_nodes [OF ok f cs] and e = block_instructions_eq [OF ok cs]
  show "distinct (block_instructions ir b)" using n(2) e(2) by simp
  show *: "\<exists>inst. ir_insts ir i = Some inst \<and> i_parent inst = b" if "i \<in> set (block_instructions ir b)" for i
    using n(1) e(2) that by auto
  have "map (\<lambda>i. i + 1) (map (\<lambda>c. c - 1) cs) = cs" using n(1) by (induction cs) auto
  then show "LIST_FOR_EACH (ir_top ir) (ir_cells ir) (b + 1) = Inr (map (\<lambda>i. i + 1) (block_instructions ir b))" using e by simp
  show "inserted ir i" if "i \<in> set (block_instructions ir b)" using * [OF that] that f by (auto simp: inserted_def)
qed

lemma insertedD:
  assumes "ir_good ir" and "inserted ir i"
  shows "is_block ir (parent_of ir i)" and "i \<in> set (block_instructions ir (parent_of ir i))" and "ir_insts ir i \<noteq> None"
  using assms(2) by (auto simp: inserted_def parent_of_def is_block_def split: option.splits)

lemma inst_value: "ir_good ir \<Longrightarrow> ir_insts ir i \<noteq> None \<Longrightarrow> is_value ir i"
  using blocks_D(4) [OF ir_ok_D(3) [OF ir_inv_D(1)]] by (fastforce simp: ir_good_def is_value_def)

section \<open>Links\<close>

text \<open>Two contexts that differ in one list of instructions.\<close>

lemma instructions_relinked:
  assumes inv: "ir_inv ir L" and ok: "ir_ok ir' (L(b + 1 \<mapsto> ys))" and c: "is_block ir c"
  shows "block_instructions ir' c = (if c = b then map (\<lambda>c. c - 1) ys else block_instructions ir c)"
proof (cases "c = b")
  case False
  then show ?thesis using instructions_same [OF ir_inv_D(1) [OF inv] ok c] by simp
qed (use block_instructions_eq(2) [OF ok] in simp)

lemma filter_other: "i \<notin> set xs \<Longrightarrow> filter (\<lambda>j. j \<noteq> i) xs = xs"
  by (induction xs) auto

lemma remove_view:
  assumes g: "ir_good ir" and i: "inserted ir i"
  obtains ir' where "inst_remove ir i = Inr ir'" and "ir_good ir'" and "same_objects ir ir'" and "ir_insts ir' = ir_insts ir"
    and "operands ir' = operands ir"
    and "\<And>c. is_block ir c \<Longrightarrow> block_instructions ir' c = filter (\<lambda>j. j \<noteq> i) (block_instructions ir c)"
proof -
  obtain L where inv: "ir_inv ir L" and c: "ir_complete ir" using ir_goodE [OF g] .
  note ok = ir_inv_D(1) [OF inv]
  obtain x f us vs where p: "ir_insts ir i = Some x" "ir_blocks ir (i_parent x) = Some f" "L (i_parent x + 1) = Some (us @ (i + 1) # vs)"
    using inserted_place [OF inv i] .
  obtain h where h: "inst_remove ir i = Inr (ir\<lparr>ir_cells := h\<rparr>)" "ir_ok (ir\<lparr>ir_cells := h\<rparr>) (L(i_parent x + 1 \<mapsto> us @ vs))"
    using inst_remove_ok [OF ok p(2,3)] by blast
  let ?ir = "ir\<lparr>ir_cells := h\<rparr>"
  have good: "ir_good ?ir" using remove_keeps [OF inv c i] h(1) by (auto simp: keeps_def ir_good_def)
  have ops: "operands ?ir = operands ir" by (rule ext) (auto simp: operands_def split: option.split)
  have "block_instructions ?ir d = filter (\<lambda>j. j \<noteq> i) (block_instructions ir d)" if d: "is_block ir d" for d
  proof (cases "d = i_parent x")
    case True
    have e: "block_instructions ir (i_parent x) = map (\<lambda>c. c - 1) (us @ (i + 1) # vs)" using block_instructions_eq(2) [OF ok p(3)] .
    have "i_parent x = d" using True by simp
    have "distinct (map (\<lambda>c. c - 1) (us @ (i + 1) # vs))" using block_instructionsD(1) [OF g d] e \<open>i_parent x = d\<close> by simp
    then have "filter (\<lambda>j. j \<noteq> i) (map (\<lambda>c. c - 1) (us @ (i + 1) # vs)) = map (\<lambda>c. c - 1) (us @ vs)"
      by (simp add: filter_other)
    then show ?thesis using instructions_relinked [OF inv h(2) d] e True by simp
  next
    case False
    have "i \<notin> set (block_instructions ir d)" using block_instructionsD(2) [OF g d, of i] p(1) False by auto
    from filter_other [OF this] show ?thesis using instructions_relinked [OF inv h(2) d] False by simp
  qed
  with h(1) good ops show thesis by (intro that [of ?ir]) (simp_all add: same_objects_def)
qed

lemma insert_view:
  assumes g: "ir_good ir" and b: "is_block ir b" and i: "ir_insts ir i = Some x" and d: "\<not> inserted ir i"
  shows "\<exists>ir'. block_insert ir b i = Inr ir' \<and> ir_good ir' \<and> same_objects ir ir' \<and> ir_insts ir' = (ir_insts ir)(i \<mapsto> x\<lparr>i_parent := b\<rparr>) \<and>
      operands ir' = operands ir \<and> (\<forall>c. is_block ir c \<longrightarrow> block_instructions ir' c = (if c = b then block_instructions ir c @ [i] else block_instructions ir c))"
    and "\<exists>ir'. block_insertTop ir b i = Inr ir' \<and> ir_good ir' \<and> same_objects ir ir' \<and> ir_insts ir' = (ir_insts ir)(i \<mapsto> x\<lparr>i_parent := b\<rparr>) \<and>
      operands ir' = operands ir \<and> (\<forall>c. is_block ir c \<longrightarrow> block_instructions ir' c = (if c = b then i # block_instructions ir c else block_instructions ir c))"
proof -
  obtain L where inv: "ir_inv ir L" and c: "ir_complete ir" using ir_goodE [OF g] .
  note ok = ir_inv_D(1) [OF inv]
  obtain f where f: "ir_blocks ir b = Some f" using b by (auto simp: is_block_def)
  obtain cs where cs: "L (b + 1) = Some cs" using block_list [OF ok f] by blast
  have nl: "\<not> in_lists L (i + 1)" using inserted_iff [OF ok ir_inv_D(2) [OF inv] i] d by simp
  have e: "block_instructions ir b = map (\<lambda>c. c - 1) cs" using block_instructions_eq(2) [OF ok cs] .
  let ?ir = "\<lambda>h. (set_inst ir i (x\<lparr>i_parent := b\<rparr>))\<lparr>ir_cells := h\<rparr>"
  have ops: "operands (?ir h) = operands ir" for h by (rule ext) (use i in \<open>auto simp: operands_def split: option.split\<close>)
  have links: "ir_inv (?ir h) (L(b + 1 \<mapsto> ys))" if o: "ir_ok (?ir h) (L(b + 1 \<mapsto> ys))" for h ys
  proof -
    have "links_ok (?ir h) (L(b + 1 \<mapsto> ys))"
      by (rule links_relink [OF reparent_links [OF inv i nl] o _ _ _ separate_of [OF inv]]) (use f in simp_all)
    with o show ?thesis by (simp add: ir_inv_def)
  qed
  have inst: "block_instructions (?ir h) d = (if d = b then map (\<lambda>c. c - 1) ys else block_instructions ir d)"
    if "ir_ok (?ir h) (L(b + 1 \<mapsto> ys))" "is_block ir d" for h ys d
    by (rule instructions_relinked [OF inv that])
  have compl: "ir_complete (?ir h)" for h
    by (rule complete_upd [OF c, of "x\<lparr>i_parent := b\<rparr>" _ i]) (use c i in \<open>auto simp: ir_complete_def\<close>)
  have same: "same_objects ir (?ir h)" "ir_insts (?ir h) = (ir_insts ir)(i \<mapsto> x\<lparr>i_parent := b\<rparr>)" for h by (simp_all add: same_objects_def)
  obtain h where h: "block_insert ir b i = Inr (?ir h)" "ir_ok (?ir h) (L(b + 1 \<mapsto> cs @ [i + 1]))"
    using block_insert_ok [OF ok f cs i nl] .
  show "\<exists>ir'. block_insert ir b i = Inr ir' \<and> ir_good ir' \<and> same_objects ir ir' \<and> ir_insts ir' = (ir_insts ir)(i \<mapsto> x\<lparr>i_parent := b\<rparr>) \<and>
      operands ir' = operands ir \<and> (\<forall>c. is_block ir c \<longrightarrow> block_instructions ir' c = (if c = b then block_instructions ir c @ [i] else block_instructions ir c))"
    using h(1) ir_goodI [OF links [OF h(2)] compl] same ops inst [OF h(2)] e by (intro exI [of _ "?ir h"]) simp
  obtain h' where h': "block_insertTop ir b i = Inr (?ir h')" "ir_ok (?ir h') (L(b + 1 \<mapsto> (i + 1) # cs))"
    using block_insertTop_ok [OF ok f cs i nl] .
  show "\<exists>ir'. block_insertTop ir b i = Inr ir' \<and> ir_good ir' \<and> same_objects ir ir' \<and> ir_insts ir' = (ir_insts ir)(i \<mapsto> x\<lparr>i_parent := b\<rparr>) \<and>
      operands ir' = operands ir \<and> (\<forall>c. is_block ir c \<longrightarrow> block_instructions ir' c = (if c = b then i # block_instructions ir c else block_instructions ir c))"
    using h'(1) ir_goodI [OF links [OF h'(2)] compl] same ops inst [OF h'(2)] e by (intro exI [of _ "?ir h'"]) simp
qed

section \<open>Uses\<close>

lemma replace_view:
  assumes g: "ir_good ir" and v: "is_value ir v" "is_value ir r" "v \<noteq> r"
  obtains ir' where "value_replaceAllUses (ir_top ir) ir v r = Inr ir'" and "ir_good ir'" and "same_objects ir ir'"
    and "ir_insts ir' = ir_insts ir" and "\<And>i. operands ir' i = map (\<lambda>x. if x = Some v then Some r else x) (operands ir i)"
    and "\<And>c. is_block ir c \<Longrightarrow> block_instructions ir' c = block_instructions ir c"
proof -
  obtain L where inv: "ir_inv ir L" and c: "ir_complete ir" using ir_goodE [OF g] .
  note ok = ir_inv_D(1) [OF inv]
  have v': "ir_values ir v \<noteq> None" "ir_values ir r \<noteq> None" "r \<noteq> v" using v by (auto simp: is_value_def)
  obtain us where us: "L v = Some us" using uses_D(2) [OF ir_ok_D(2) [OF ok] v'(1)] by blast
  obtain ws where ws: "L r = Some ws" using uses_D(2) [OF ir_ok_D(2) [OF ok] v'(2)] by blast
  obtain ir' where s: "value_replaceAllUses (ir_top ir) ir v r = Inr ir'" "ir_ok ir' (L(v \<mapsto> [], r \<mapsto> ws @ us))"
    "\<And>i. operands ir' i = map (\<lambda>x. if x = Some v then Some r else x) (operands ir i)"
    "ir_insts ir' = ir_insts ir" "ir_values ir' = ir_values ir" "ir_blocks ir' = ir_blocks ir" "ir_functions ir' = ir_functions ir"
    by (rule replaceAllUses_ok [OF ok v'(1) us v'(2) ws v'(3) list_length_top [OF ok us]]) (rule that; assumption)
  have good: "ir_good ir'" using replace_keeps [OF inv c v] s(1) by (auto simp: keeps_def ir_good_def)
  have "block_instructions ir' d = block_instructions ir d" if d: "is_block ir d" for d
  proof (rule instructions_same [OF ok s(2) d])
    obtain f where f: "ir_blocks ir d = Some f" using d by (auto simp: is_block_def)
    show "(L(v \<mapsto> [], r \<mapsto> ws @ us)) (d + 1) = L (d + 1)"
      using no_value_off [OF ir_ok_D(1) [OF ok] objectsI(3) [OF f]] v' by auto
  qed
  with s good show thesis by (intro that [of ir']) (simp_all add: same_objects_def)
qed

lemma phi_room:
  assumes g: "ir_good ir" and p: "ir_insts ir p = Some inst" "i_type inst = INST_PHI"
  shows "i_useCount inst = length (operands ir p)" and "even (i_useCount inst)" and "inst_count inst = i_useCount inst" and "i_useReserve inst = 16"
    and "i_usesSet inst \<or> operands ir p = []" and "length (i_uses inst) = length (operands ir p)"
proof -
  obtain L where inv: "ir_inv ir L" and c: "ir_complete ir" using ir_goodE [OF g] .
  have "inst_shape inst" using blocks_D(4) [OF ir_ok_D(3) [OF ir_inv_D(1) [OF inv]] p(1)] by blast
  moreover have "inst_complete inst" using c p(1) by (simp add: ir_complete_def)
  ultimately show "i_useCount inst = length (operands ir p)" "even (i_useCount inst)" "inst_count inst = i_useCount inst" "i_useReserve inst = 16"
    "i_usesSet inst \<or> operands ir p = []" "length (i_uses inst) = length (operands ir p)"
    using p length_operands [OF p(1)] by (auto simp: inst_shape_def inst_complete_def inst_count_def inst_getUses_def operands_def)
qed

text \<open>A phi takes a pair it does not have yet, until its buffer is full.\<close>

lemma phi_insert_view:
  assumes g: "ir_good ir" and p: "ir_insts ir p = Some inst" "i_type inst = INST_PHI" and b: "is_value ir b" and v: "is_value ir v"
  shows "inst_phi_insertValue ir p b v = Inl OutOfBounds \<and> 32 \<le> length (operands ir p) \<and> \<not> has_pair (operands ir p) (Some b) (Some v) \<or>
    (\<exists>ir' us s n. inst_phi_insertValue ir p b v = Inr ir' \<and> ir_good ir' \<and> same_objects ir ir' \<and>
      ir_insts ir' = (ir_insts ir)(p \<mapsto> inst\<lparr>i_usesSet := s, i_useCount := n, i_uses := us\<rparr>) \<and>
      operands ir' p = (if has_pair (operands ir p) (Some b) (Some v) then operands ir p else operands ir p @ [Some b, Some v]) \<and>
      (\<forall>j. j \<noteq> p \<longrightarrow> operands ir' j = operands ir j) \<and>
      (\<forall>c. is_block ir c \<longrightarrow> block_instructions ir' c = block_instructions ir c))"
proof -
  obtain L where inv: "ir_inv ir L" and c: "ir_complete ir" using ir_goodE [OF g] .
  note r = phi_room [OF g p]
  show ?thesis
  proof (cases "i_useCount inst < 32")
    case True
    have bv: "ir_values ir b \<noteq> None" "ir_values ir v \<noteq> None" using b v by (simp_all add: is_value_def)
    obtain ir' L' where s: "inst_phi_insertValue ir p b v = Inr ir'" "ir_inv ir' L'" "ir_complete ir'"
      "operands ir' p = (if has_pair (operands ir p) (Some b) (Some v) then operands ir p else operands ir p @ [Some b, Some v])"
      "\<And>j. j \<noteq> p \<Longrightarrow> operands ir' j = operands ir j"
      "\<exists>us set n. ir_insts ir' = (ir_insts ir)(p \<mapsto> inst\<lparr>i_usesSet := set, i_useCount := n, i_uses := us\<rparr>)"
      "ir_values ir' = ir_values ir" "ir_blocks ir' = ir_blocks ir" "ir_functions ir' = ir_functions ir"
      "\<And>c. is_block ir c \<Longrightarrow> block_instructions ir' c = block_instructions ir c"
      by (rule inst_phi_insertValue_ok [OF inv c p True bv]) (rule that; assumption)
    then show ?thesis using ir_goodI [OF s(2,3)] by (intro disjI2) (auto simp: same_objects_def)
  next
    case False
    then have u: "i_usesSet inst" using r by auto
    obtain m where m: "i_useCount inst = 2 * m" using r(2) by (elim evenE)
    have full: "\<forall>k < length (i_uses inst). i_uses inst ! k \<noteq> 0"
      using c [unfolded ir_complete_def, rule_format, OF p(1)] r by (auto simp: inst_complete_def)
    have "phi_search ir (Some (i_uses inst)) b v [0 ..< (i_useCount inst + 1) div 2] =
        Inr (has_pair (operands ir p) (Some b) (Some v))"
      using phi_search_ok [OF inv p(1) _ full, of "[0 ..< (i_useCount inst + 1) div 2]" b v] m r(1,6) by (simp add: has_pair_def)
    then have e: "inst_phi_insertValue ir p b v = (if has_pair (operands ir p) (Some b) (Some v) then Inr ir else Inl OutOfBounds)"
      using p(1) u r(1,4,6) False by (simp add: inst_phi_insertValue_def get_inst_def ptrs_push_def)
    have "ir_insts ir = (ir_insts ir)(p \<mapsto> inst\<lparr>i_usesSet := i_usesSet inst, i_useCount := i_useCount inst, i_uses := i_uses inst\<rparr>)"
      using p(1) by (simp add: map_upd_triv)
    then have "\<exists>us s n. ir_insts ir = (ir_insts ir)(p \<mapsto> inst\<lparr>i_usesSet := s, i_useCount := n, i_uses := us\<rparr>)" by blast
    with g e r(1) False show ?thesis by auto
  qed
qed

section \<open>New instructions\<close>

lemma new_phi_view:
  assumes g: "ir_good ir" and b: "is_block ir b"
  obtains ir1 ir2 p inst where "inst_new_phi ir t 0 = Inr (ir1, p)" and "block_insertTop ir1 b p = Inr ir2" and "ir_good ir2"
    and "ir_insts ir p = None" and "ir_insts ir2 = (ir_insts ir)(p \<mapsto> inst)" and "i_type inst = INST_PHI" and "i_parent inst = b"
    and "operands ir2 p = []" and "\<And>j. j \<noteq> p \<Longrightarrow> operands ir2 j = operands ir j" and "ir_blocks ir2 = ir_blocks ir"
    and "ir_functions ir2 = ir_functions ir" and "\<And>v. is_value ir2 v \<longleftrightarrow> is_value ir v \<or> v = p"
    and "\<And>c. is_block ir c \<Longrightarrow> block_instructions ir2 c = (if c = b then p # block_instructions ir c else block_instructions ir c)"
proof -
  obtain L where inv: "ir_inv ir L" and c: "ir_complete ir" using ir_goodE [OF g] .
  let ?x = "(fresh_inst INST_PHI)\<lparr>i_useReserve := 16, i_useCount := 0, i_usesSet := False\<rparr>"
  obtain ir1 L1 p where n: "inst_new_phi ir t 0 = Inr (ir1, p)" "ir_inv ir1 L1" "ir_complete ir1" "makes ir ir1 p ?x t []"
    using inst_new_phi_ok [OF inv c] .
  note m = makesD [OF n(4)]
  obtain us where x: "ir_insts ir1 p = Some (?x\<lparr>i_uses := us\<rparr>)" using m(1) by blast
  have "is_block ir1 b" using b m(12) by simp
  from insert_view(2) [OF ir_goodI [OF n(2,3)] this x m(10)] obtain ir2 where s: "block_insertTop ir1 b p = Inr ir2" "ir_good ir2"
    "same_objects ir1 ir2" "ir_insts ir2 = (ir_insts ir1)(p \<mapsto> ?x\<lparr>i_uses := us, i_parent := b\<rparr>)" "operands ir2 = operands ir1"
    "\<forall>c. is_block ir1 c \<longrightarrow> block_instructions ir2 c = (if c = b then p # block_instructions ir1 c else block_instructions ir1 c)" by blast
  have "ir_insts ir2 = (ir_insts ir)(p \<mapsto> ?x\<lparr>i_uses := us, i_parent := b\<rparr>)" using s(4) m(2) by (auto simp: fun_eq_iff)
  moreover have "block_instructions ir2 d = (if d = b then p # block_instructions ir d else block_instructions ir d)" if "is_block ir d" for d
    using s(6) that m(11) [OF that] m(12) by (cases "d = b") simp_all
  ultimately show thesis using n(1) s(1,2,5) m(3,5-9) same_objectsD [OF s(3)] by (intro that [of ir1 p ir2 "?x\<lparr>i_uses := us, i_parent := b\<rparr>"]) simp_all
qed

end
