(* ===== verification/Dominators_Correct.thy ===== *)
theory Dominators_Correct
  imports Dominators
begin

text \<open>
  \<open>dominators.c\<close> computes dominators: the array of the algorithm as a tree of numbers, the equations of
  dominance on a flow graph whose loops are natural, the passes, and the frontiers.
\<close>

section \<open>Trees of numbers\<close>

text \<open>\<open>chain doms a\<close>: the numbers from \<open>a\<close> upwards.\<close>

definition chain :: "nat list \<Rightarrow> nat \<Rightarrow> nat set" where
  "chain doms a = {((!) doms ^^ k) a | k. True}"

text \<open>On the numbers \<open>A\<close>, each but the last points upwards inside \<open>A\<close>.\<close>

definition dom_tree :: "nat list \<Rightarrow> nat set \<Rightarrow> bool" where
  "dom_tree doms A \<longleftrightarrow> doms \<noteq> [] \<and> A \<subseteq> {..< length doms} \<and> length doms - 1 \<in> A \<and>
     doms ! (length doms - 1) = length doms - 1 \<and>
     (\<forall>a \<in> A. a \<noteq> length doms - 1 \<longrightarrow> a < doms ! a \<and> doms ! a \<in> A)"

lemma tree_D:
  assumes "dom_tree doms A" and "a \<in> A"
  shows "a < length doms" and "doms ! a \<in> A" and "a \<noteq> length doms - 1 \<Longrightarrow> a < doms ! a" and "a \<le> doms ! a"
  using assms by (auto simp: dom_tree_def)

lemma tree_root: "dom_tree doms A \<Longrightarrow> length doms - 1 \<in> A \<and> doms ! (length doms - 1) = length doms - 1"
  by (simp add: dom_tree_def)

lemma chain_unfold: "chain doms a = insert a (chain doms (doms ! a))"
proof -
  have "((!) doms ^^ k) a \<in> insert a (chain doms (doms ! a))" for k
    by (cases k) (auto simp: chain_def funpow_swap1 [symmetric] simp del: funpow.simps(2) intro: exI simp: funpow_Suc_right)
  moreover have "((!) doms ^^ k) (doms ! a) \<in> chain doms a" for k
    unfolding chain_def by (auto intro!: exI [of _ "Suc k"] simp: funpow_Suc_right simp del: funpow.simps(2))
  moreover have "a \<in> chain doms a" unfolding chain_def by (auto intro: exI [of _ 0])
  ultimately show ?thesis by (auto simp: chain_def)
qed

lemma chain_self [simp, intro]: "a \<in> chain doms a"
  by (subst chain_unfold) simp

lemma chain_in: 
  assumes t: "dom_tree doms A" and a: "a \<in> A"
  shows "chain doms a \<subseteq> A \<inter> {a ..}"
proof -
  have "((!) doms ^^ k) a \<in> A \<and> a \<le> ((!) doms ^^ k) a" for k
    by (induction k) (use a tree_D(2,4) [OF t] in \<open>auto intro: order.trans\<close>)
  then show ?thesis by (auto simp: chain_def)
qed

lemma chain_root: "dom_tree doms A \<Longrightarrow> chain doms (length doms - 1) = {length doms - 1}"
proof -
  assume "dom_tree doms A"
  then have "((!) doms ^^ k) (length doms - 1) = length doms - 1" for k by (induction k) (simp_all add: dom_tree_def)
  then show ?thesis by (auto simp: chain_def)
qed

lemma chain_step:
  assumes t: "dom_tree doms A" and a: "a \<in> A" "a \<noteq> length doms - 1"
  shows "chain doms a = insert a (chain doms (doms ! a))" and "a \<notin> chain doms (doms ! a)"
  by (rule chain_unfold) (use chain_in [OF t tree_D(2) [OF t a(1)]] tree_D(3) [OF t a] in auto)

lemma chain_inj:
  assumes t: "dom_tree doms A" and a: "a \<in> A" and b: "b \<in> A" and e: "chain doms a = chain doms b"
  shows "a = b"
proof (rule antisym)
  have "b \<in> chain doms a" "a \<in> chain doms b" using chain_self e by blast+
  then show "a \<le> b" "b \<le> a" using chain_in [OF t a] chain_in [OF t b] by auto
qed

lemma chain_upd:
  assumes t: "dom_tree doms A" and a: "a \<in> A" and i: "i \<notin> A"
  shows "chain (doms[i := c]) a = chain doms a"
proof -
  have "((!) (doms[i := c]) ^^ k) a = ((!) doms ^^ k) a \<and> ((!) doms ^^ k) a \<in> A" for k
  proof (induction k)
    case (Suc k)
    then have "((!) doms ^^ k) a \<noteq> i" using i by auto
    with Suc tree_D(2) [OF t] show ?case by simp
  qed (simp add: a)
  then show ?thesis by (simp add: chain_def)
qed

lemma tree_upd:
  assumes t: "dom_tree doms A" and i: "i \<notin> A" "i < length doms" and c: "c \<in> A" "i < c"
  shows "dom_tree (doms[i := c]) (insert i A)"
  using assms unfolding dom_tree_def by (auto simp: nth_list_update)

lemma climb_ok:
  assumes t: "dom_tree doms A" and a: "a \<in> A" and b: "b < length doms" and fuel: "length doms - a < fuel"
  shows "\<exists>a'. climb fuel doms a b = Inr a' \<and> a' \<in> A \<and> b \<le> a' \<and> a \<le> a' \<and> (a < b \<longrightarrow> a < a') \<and>
    chain doms a \<inter> {b ..} = chain doms a'"
  using a fuel
proof (induction fuel arbitrary: a)
  case (Suc fuel)
  note d = tree_D [OF t Suc.prems(1)]
  show ?case
  proof (cases "a < b")
    case True
    then have r: "a \<noteq> length doms - 1" using b by linarith
    then have up: "a < doms ! a" using d(3) by blast
    have "length doms - doms ! a < fuel" using up d(1) Suc.prems(2) by linarith
    then obtain a' where a': "climb fuel doms (doms ! a) b = Inr a'" "a' \<in> A" "b \<le> a'" "doms ! a \<le> a'"
      "chain doms (doms ! a) \<inter> {b ..} = chain doms a'" using Suc.IH [OF d(2)] by blast
    have "chain doms a \<inter> {b ..} = chain doms (doms ! a) \<inter> {b ..}" using chain_step(1) [OF t Suc.prems(1) r] True by auto
    with a' up d(1) True show ?thesis by (auto simp: read_dom_def)
  next
    case False
    have "chain doms a \<inter> {b ..} = chain doms a" using chain_in [OF t Suc.prems(1)] False by auto
    with False Suc.prems(1) show ?thesis by auto
  qed
qed simp

text \<open>\<open>intersect\<close> finds the nearest number on both chains.\<close>

lemma intersect_ok:
  assumes t: "dom_tree doms A" and a: "a \<in> A" and b: "b \<in> A" and fuel: "(length doms - a) + (length doms - b) < fuel"
  shows "\<exists>c. intersect fuel doms a b = Inr c \<and> c \<in> A \<and> chain doms c = chain doms a \<inter> chain doms b"
  using a b fuel
proof (induction fuel arbitrary: a b)
  case (Suc fuel)
  show ?case
  proof (cases "a = b")
    case False
    note la = tree_D(1) [OF t Suc.prems(1)] and lb = tree_D(1) [OF t Suc.prems(2)]
    have "length doms - a < Suc fuel" using Suc.prems(3) by linarith
    then obtain a' where a': "climb (Suc fuel) doms a b = Inr a'" "a' \<in> A" "b \<le> a'" "a \<le> a'" "a < b \<longrightarrow> a < a'"
      "chain doms a \<inter> {b ..} = chain doms a'" using climb_ok [OF t Suc.prems(1) lb] by blast
    note la' = tree_D(1) [OF t a'(2)]
    have "length doms - b < Suc fuel" using Suc.prems(3) by linarith
    then obtain b' where b': "climb (Suc fuel) doms b a' = Inr b'" "b' \<in> A" "a' \<le> b'" "b \<le> b'" "b < a' \<longrightarrow> b < b'"
      "chain doms b \<inter> {a' ..} = chain doms b'" using climb_ok [OF t Suc.prems(2) la'] by blast
    have less: "a < a' \<or> b < b'" using False a'(3-5) b'(5) by linarith
    have "(length doms - a') + (length doms - b') < fuel" using less la lb a'(4) b'(4) Suc.prems(3) by linarith
    then obtain c where c: "intersect fuel doms a' b' = Inr c" "c \<in> A" "chain doms c = chain doms a' \<inter> chain doms b'"
      using Suc.IH [OF a'(2) b'(2)] by blast
    have "chain doms a \<inter> chain doms b = chain doms a' \<inter> chain doms b" using a'(6) chain_in [OF t Suc.prems(2)] by blast
    also have "\<dots> = chain doms a' \<inter> chain doms b'" using b'(6) chain_in [OF t a'(2)] by blast
    finally have "chain doms a' \<inter> chain doms b' = chain doms a \<inter> chain doms b" ..
    with False a'(1) b'(1) c show ?thesis by (intro exI [of _ c]) (simp del: climb.simps)
  qed (use Suc.prems in simp)
qed simp

section \<open>The equations of dominance\<close>

text \<open>
  What the algorithm needs of the flow of a function, along a postorder \<open>ps\<close> of its blocks: blocks are used by
  jumps at the ends of blocks only, nothing jumps to the entry or comes from a block that is not reached, an edge
  that does not go down in the order goes back to a block that dominates its source, and the edge listed first
  goes down.
\<close>

definition natural_flow :: "ir_context \<Rightarrow> ptr \<Rightarrow> ptr list \<Rightarrow> bool" where
  "natural_flow ir e ps \<longleftrightarrow> jumps_last ir \<and> predecessor_blocks ir e = [] \<and>
     (\<forall>us b vs. ps = us @ b # vs \<longrightarrow>
        (\<forall>p \<in> set (predecessor_blocks ir b). p \<in> set ps \<and> (p \<in> set vs \<or> dominates (edges (successor_blocks ir)) e b p)) \<and>
        (b \<noteq> e \<longrightarrow> hd (predecessor_blocks ir b) \<in> set vs))"

text \<open>A function whose blocks are numbered.\<close>

definition numbered_flow :: "ir_context \<Rightarrow> ptr \<Rightarrow> ptr list \<Rightarrow> bool" where
  "numbered_flow ir e ps \<longleftrightarrow> (\<exists>L. ir_inv ir L) \<and> ir_complete ir \<and> is_block ir e \<and> distinct ps \<and> ps \<noteq> [] \<and> last ps = e \<and>
     set ps = reached_from ir e \<and> natural_flow ir e ps"

definition dom_numbers :: "ir_context \<Rightarrow> ptr \<Rightarrow> ptr list \<Rightarrow> nat \<Rightarrow> nat set" where
  "dom_numbers ir e ps j = {k. k < length ps \<and> dominates (edges (successor_blocks ir)) e (ps ! k) (ps ! j)}"

definition pred_numbers :: "ir_context \<Rightarrow> ptr list \<Rightarrow> nat \<Rightarrow> nat set" where
  "pred_numbers ir ps i = {k. k < length ps \<and> ps ! k \<in> set (predecessor_blocks ir (ps ! i))}"

lemma flow_D:
  assumes f: "numbered_flow ir e ps"
  shows "distinct ps" and "ps ! (length ps - 1) = e" and "0 < length ps" and "k < length ps \<Longrightarrow> is_block ir (ps ! k)"
    and "k < length ps \<Longrightarrow> (e, ps ! k) \<in> (edges (successor_blocks ir))\<^sup>*" and "predecessor_blocks ir e = []"
proof -
  have ps: "distinct ps" "ps \<noteq> []" "last ps = e" "set ps = reached_from ir e" "is_block ir e" "natural_flow ir e ps"
    using f by (simp_all add: numbered_flow_def)
  then show "distinct ps" "ps ! (length ps - 1) = e" "0 < length ps" "predecessor_blocks ir e = []"
    by (simp_all add: last_conv_nth natural_flow_def)
  show "is_block ir (ps ! k)" if "k < length ps" using reached_are_blocks [OF ps(5)] ps(4) nth_mem [OF that] by blast
  show "(e, ps ! k) \<in> (edges (successor_blocks ir))\<^sup>*" if "k < length ps"
    using ps(4) nth_mem [OF that] by (auto simp: reached_from_def)
qed

lemma flow_index:
  assumes f: "numbered_flow ir e ps" and x: "(e, x) \<in> (edges (successor_blocks ir))\<^sup>*"
  obtains k where "k < length ps" and "x = ps ! k"
proof -
  have "x \<in> (edges (successor_blocks ir))\<^sup>* `` {e}" using x by blast
  then have "x \<in> set ps" using f by (simp add: numbered_flow_def reached_from_def)
  with that show thesis by (auto simp: in_set_conv_nth)
qed

lemma flow_edge:
  assumes f: "numbered_flow ir e ps" and i: "i < length ps"
  shows "p \<in> set (predecessor_blocks ir (ps ! i)) \<longleftrightarrow> is_block ir p \<and> (p, ps ! i) \<in> edges (successor_blocks ir)"
proof -
  obtain L where inv: "ir_inv ir L" "ir_complete ir" "jumps_last ir" using f by (auto simp: numbered_flow_def natural_flow_def)
  show ?thesis using edges_dual [OF inv flow_D(4) [OF f i]] by simp
qed

lemma later_numbers: "distinct ps \<Longrightarrow> i < length ps \<Longrightarrow> p \<in> set (drop (i + 1) ps) \<longleftrightarrow> (\<exists>k. i < k \<and> k < length ps \<and> p = ps ! k)"
proof
  assume "p \<in> set (drop (i + 1) ps)"
  then obtain j where "j < length (drop (i + 1) ps)" "drop (i + 1) ps ! j = p" by (auto simp: in_set_conv_nth)
  then show "\<exists>k. i < k \<and> k < length ps \<and> p = ps ! k" by (intro exI [of _ "i + 1 + j"]) auto
next
  assume "\<exists>k. i < k \<and> k < length ps \<and> p = ps ! k"
  then obtain k where "i < k" "k < length ps" "p = ps ! k" by blast
  then show "p \<in> set (drop (i + 1) ps)"
    by (auto simp: in_set_conv_nth intro: exI [of _ "k - (i + 1)"])
qed

lemma flow_preds:
  assumes f: "numbered_flow ir e ps" and i: "i < length ps" and p: "p \<in> set (predecessor_blocks ir (ps ! i))"
  obtains k where "k < length ps" and "p = ps ! k" and "k \<le> i \<Longrightarrow> dominates (edges (successor_blocks ir)) e (ps ! i) p"
proof -
  have n: "natural_flow ir e ps" using f by (simp add: numbered_flow_def)
  have "ps = take i ps @ ps ! i # drop (i + 1) ps" using i by (simp add: id_take_nth_drop)
  then have pp: "p \<in> set ps" "p \<in> set (drop (i + 1) ps) \<or> dominates (edges (successor_blocks ir)) e (ps ! i) p"
    using n p unfolding natural_flow_def by blast+
  then obtain k where k: "k < length ps" "p = ps ! k" by (auto simp: in_set_conv_nth)
  have "dominates (edges (successor_blocks ir)) e (ps ! i) p" if "k \<le> i"
  proof -
    have "p \<notin> set (drop (i + 1) ps)"
      using later_numbers [OF flow_D(1) [OF f] i, of p] k that nth_eq_iff_index_eq [OF flow_D(1) [OF f]] by auto
    with pp(2) show ?thesis by blast
  qed
  with that k show thesis by blast
qed

lemma flow_first:
  assumes f: "numbered_flow ir e ps" and i: "i < length ps - 1"
  obtains k qs where "i < k" and "k < length ps" and "predecessor_blocks ir (ps ! i) = (ps ! k) # qs"
proof -
  have n: "natural_flow ir e ps" using f by (simp add: numbered_flow_def)
  have i': "i < length ps" using i by simp
  have ne: "ps ! i \<noteq> e" using i flow_D(1-3) [OF f] nth_eq_iff_index_eq [of ps i "length ps - 1"] by auto
  have "ps = take i ps @ ps ! i # drop (i + 1) ps" using i' by (simp add: id_take_nth_drop)
  then have "hd (predecessor_blocks ir (ps ! i)) \<in> set (drop (i + 1) ps)" using n ne unfolding natural_flow_def by blast
  then obtain k where k: "i < k" "k < length ps" "hd (predecessor_blocks ir (ps ! i)) = ps ! k"
    using later_numbers [OF flow_D(1) [OF f] i'] by blast
  have "predecessor_blocks ir (ps ! i) \<noteq> []"
  proof -
    obtain q where "(e, q) \<in> (edges (successor_blocks ir))\<^sup>*" "(q, ps ! i) \<in> edges (successor_blocks ir)"
      using flow_D(5) [OF f i'] ne by (auto elim: rtranclE)
    then have "q \<in> set ps" using f by (auto simp: numbered_flow_def reached_from_def)
    then have "is_block ir q" using flow_D(4) [OF f] by (auto simp: in_set_conv_nth)
    then show ?thesis using flow_edge [OF f i', of q] \<open>(q, ps ! i) \<in> _\<close> by auto
  qed
  with that k show thesis by (cases "predecessor_blocks ir (ps ! i)") auto
qed

text \<open>The dominators of a block are those all its predecessors have, or all of them that come later in the order.\<close>

lemma dom_numbers_join:
  assumes f: "numbered_flow ir e ps" and i: "i < length ps - 1" and K: "K \<subseteq> pred_numbers ir ps i"
    and later: "\<And>k. k \<in> pred_numbers ir ps i \<Longrightarrow> i < k \<Longrightarrow> k \<in> K \<and> i \<notin> dom_numbers ir e ps k"
  shows "dom_numbers ir e ps i - {i} = (\<Inter>k \<in> K. dom_numbers ir e ps k)"
proof -
  let ?E = "edges (successor_blocks ir)"
  have i': "i < length ps" using i by simp
  have ne: "ps ! i \<noteq> e" using i flow_D(1-3) [OF f] nth_eq_iff_index_eq [of ps i "length ps - 1"] by auto
  obtain k0 qs where k0: "i < k0" "k0 < length ps" "predecessor_blocks ir (ps ! i) = ps ! k0 # qs"
    using flow_first [OF f i] .
  then have k0': "k0 \<in> K" "i \<notin> dom_numbers ir e ps k0" using later [of k0] by (auto simp: pred_numbers_def)
  show ?thesis
  proof (intro equalityI subsetI)
    fix x assume x: "x \<in> dom_numbers ir e ps i - {i}"
    then have x': "x < length ps" "dominates ?E e (ps ! x) (ps ! i)" "ps ! x \<noteq> ps ! i"
      using i' flow_D(1) [OF f] by (auto simp: dom_numbers_def nth_eq_iff_index_eq)
    have "x \<in> dom_numbers ir e ps k" if "k \<in> K" for k
    proof -
      have k: "k < length ps" "(ps ! k, ps ! i) \<in> ?E" using that K flow_edge [OF f i'] by (auto simp: pred_numbers_def)
      from dominates_pred [OF x'(2,3) k(2) flow_D(5) [OF f k(1)]] x'(1) show ?thesis by (simp add: dom_numbers_def)
    qed
    then show "x \<in> (\<Inter>k \<in> K. dom_numbers ir e ps k)" by blast
  next
    fix x assume x: "x \<in> (\<Inter>k \<in> K. dom_numbers ir e ps k)"
    then have xk: "x < length ps" "x \<noteq> i" using k0' by (auto simp: dom_numbers_def)
    have "dominates ?E e (ps ! x) (ps ! i)"
    proof (rule dominates_join [OF ne flow_D(5) [OF f i']])
      fix p assume p: "(p, ps ! i) \<in> ?E" "(e, p) \<in> ?E\<^sup>*" "\<not> dominates ?E e (ps ! i) p"
      then have "is_block ir p" using f reached_are_blocks by (auto simp: numbered_flow_def reached_from_def)
      then have pp: "p \<in> set (predecessor_blocks ir (ps ! i))" using flow_edge [OF f i'] p(1) by blast
      then obtain k where k: "k < length ps" "p = ps ! k" "k \<le> i \<Longrightarrow> dominates ?E e (ps ! i) p" using flow_preds [OF f i'] by blast
      with p(3) have "i < k" by (meson not_le)
      moreover have "k \<in> pred_numbers ir ps i" using k pp by (simp add: pred_numbers_def)
      ultimately have "x \<in> dom_numbers ir e ps k" using later x by blast
      then show "dominates ?E e (ps ! x) p" using k(2) by (simp add: dom_numbers_def)
    qed
    with xk show "x \<in> dom_numbers ir e ps i - {i}" by (simp add: dom_numbers_def)
  qed
qed

lemma dom_numbers_entry:
  assumes f: "numbered_flow ir e ps"
  shows "dom_numbers ir e ps (length ps - 1) = {length ps - 1}"
proof -
  have "dom_numbers ir e ps (length ps - 1) = {k. k < length ps \<and> ps ! k = e}"
    unfolding dom_numbers_def flow_D(2) [OF f] dominates_entry ..
  also have "\<dots> = {length ps - 1}"
  proof (intro equalityI subsetI)
    fix k assume "k \<in> {k. k < length ps \<and> ps ! k = e}"
    then have "k < length ps" "ps ! k = ps ! (length ps - 1)" using flow_D(2) [OF f] by simp_all
    then show "k \<in> {length ps - 1}" using nth_eq_iff_index_eq [OF flow_D(1) [OF f]] flow_D(3) [OF f] by simp
  qed (use flow_D(2,3) [OF f] in simp)
  finally show ?thesis .
qed

section \<open>The numbering\<close>

definition numbers_of :: "ptr list \<Rightarrow> ptr set \<Rightarrow> ptr \<Rightarrow> nat option option" where
  "numbers_of ps seen x = (if x \<notin> seen then None
     else Some (if x \<in> set ps then Some (length (takeWhile (\<lambda>y. y \<noteq> x) ps)) else None))"

lemma numbers_of_enter: "x \<notin> set ps \<Longrightarrow> (numbers_of ps seen)(x \<mapsto> None) = numbers_of ps (insert x seen)"
  by (auto simp: numbers_of_def fun_eq_iff)

lemma numbers_of_leave:
  assumes "x \<in> seen" and "x \<notin> set ps"
  shows "(numbers_of ps seen)(x \<mapsto> Some (length ps)) = numbers_of (ps @ [x]) seen"
proof (rule ext)
  fix y
  have "takeWhile (\<lambda>z. z \<noteq> x) ps = ps" using assms(2) by (auto simp: takeWhile_eq_all_conv)
  then show "((numbers_of ps seen)(x \<mapsto> Some (length ps))) y = numbers_of (ps @ [x]) seen y"
    using assms by (auto simp: numbers_of_def takeWhile_append)
qed

lemma numbers_of_nth: "distinct ps \<Longrightarrow> k < length ps \<Longrightarrow> numbers_of ps (set ps) (ps ! k) = Some (Some k)"
proof -
  assume d: "distinct ps" "k < length ps"
  have "takeWhile (\<lambda>y. y \<noteq> ps ! k) ps = take k ps"
    by (rule takeWhile_eq_take_P_nth) (use d in \<open>auto simp: nth_eq_iff_index_eq\<close>)
  with d show ?thesis by (simp add: numbers_of_def)
qed

lemma dom_visit_dfs:
  shows "dfs fuel G b st = Some st' \<Longrightarrow> successors_are ir N G \<Longrightarrow> b \<in> N \<Longrightarrow> set (fst st) \<subseteq> snd st \<Longrightarrow>
      length (fst st) \<le> 2 * buffer_pointers \<Longrightarrow> dom_visit fuel ir b (numbers_of (fst st) (snd st), fst st) =
      (if length (fst st') \<le> 2 * buffer_pointers then Inr (numbers_of (fst st') (snd st'), fst st') else Inl OutOfBounds)"
    and "dfss fuel G bs st = Some st' \<Longrightarrow> successors_are ir N G \<Longrightarrow> set bs \<subseteq> N \<Longrightarrow> set (fst st) \<subseteq> snd st \<Longrightarrow>
      length (fst st) \<le> 2 * buffer_pointers \<Longrightarrow> dom_visits fuel ir bs (numbers_of (fst st) (snd st), fst st) =
      (if length (fst st') \<le> 2 * buffer_pointers then Inr (numbers_of (fst st') (snd st'), fst st') else Inl OutOfBounds)"
proof (induction fuel G b st and fuel G bs st arbitrary: st' and st' rule: dfs_dfss.induct)
  case (2 fuel G x ps seen)
  have sub: "set ps \<subseteq> seen" using "2.prems"(4) by simp
  show ?case
  proof (cases "x \<in> seen")
    case False
    with "2.prems" obtain ps' seen' where s: "dfss fuel G (G x) (ps, insert x seen) = Some (ps', seen')" "st' = (ps' @ [x], seen')"
      by (auto split: option.splits)
    have "set ps \<subseteq> insert x seen" using sub by blast
    then have v: "dom_visits fuel ir (G x) (numbers_of ps (insert x seen), ps) =
        (if length ps' \<le> 2 * buffer_pointers then Inr (numbers_of ps' seen', ps') else Inl OutOfBounds)"
      using "2.IH" [OF False s(1) "2.prems"(2) successors_areD(2) [OF "2.prems"(2,3)]] "2.prems"(5) by simp
    have "search G (G x) (ps, insert x seen) (ps', seen')" using dfs_search(2) [OF s(1)] sub by auto
    then have "x \<in> seen'" "x \<notin> set ps'" using False sub unfolding search_def by auto
    then have n: "(numbers_of ps' seen')(x \<mapsto> Some (length ps')) = numbers_of (ps' @ [x]) seen'" by (rule numbers_of_leave)
    have e: "(numbers_of ps seen)(x \<mapsto> None) = numbers_of ps (insert x seen)" using False sub by (intro numbers_of_enter) blast
    have "numbers_of ps seen x = None" using False by (simp add: numbers_of_def)
    with False s(2) v n e successors_areD(1) [OF "2.prems"(2,3)] show ?thesis by (simp add: ptrs_push_def)
  qed (use "2.prems" in \<open>auto simp: numbers_of_def\<close>)
next
  case (5 fuel G x xs st)
  then obtain st1 where s: "dfs fuel G x st = Some st1" "dfss fuel G xs st1 = Some st'" by (auto split: option.splits)
  have 1: "dom_visit fuel ir x (numbers_of (fst st) (snd st), fst st) =
      (if length (fst st1) \<le> 2 * buffer_pointers then Inr (numbers_of (fst st1) (snd st1), fst st1) else Inl OutOfBounds)"
    using "5.IH"(1) [OF s(1)] "5.prems" by simp
  have sub: "set (fst st1) \<subseteq> snd st1" using dfs_search(1) [OF s(1) "5.prems"(4)] "5.prems"(4) unfolding search_def by auto
  show ?case
  proof (cases "length (fst st1) \<le> 2 * buffer_pointers")
    case True
    with 1 "5.IH"(2) [OF s] "5.prems" sub show ?thesis by simp
  next
    case False
    with 1 dfs_longer(2) [OF s(2)] show ?thesis by simp
  qed
qed (simp_all split: if_splits)

section \<open>The passes\<close>

text \<open>The state of the computation: numbers, order and the array, on the numbers \<open>A\<close> that have been handled.\<close>

definition dom_state :: "ptr list \<Rightarrow> dominators \<Rightarrow> nat set \<Rightarrow> bool" where
  "dom_state ps d A \<longleftrightarrow> d_postorder d = ps \<and> (\<forall>k < length ps. d_nodeToNum d (ps ! k) = Some (Some k)) \<and>
     length (d_doms d) = length ps \<and> length ps < SIZE_MAX \<and> dom_tree (d_doms d) A \<and>
     (\<forall>k < length ps. k \<notin> A \<longrightarrow> d_doms d ! k = SIZE_MAX)"

lemma dom_stateD:
  assumes "dom_state ps d A"
  shows "d_postorder d = ps" and "k < length ps \<Longrightarrow> dominators_getNumber d (ps ! k) = Inr k"
    and "length (d_doms d) = length ps" and "dom_tree (d_doms d) A"
    and "k < length ps \<Longrightarrow> d_doms d ! k = SIZE_MAX \<longleftrightarrow> k \<notin> A"
proof -
  show "d_postorder d = ps" "length (d_doms d) = length ps" "dom_tree (d_doms d) A"
    "k < length ps \<Longrightarrow> dominators_getNumber d (ps ! k) = Inr k"
    using assms by (simp_all add: dom_state_def dominators_getNumber_def)
  show "d_doms d ! k = SIZE_MAX \<longleftrightarrow> k \<notin> A" if "k < length ps"
  proof
    assume "d_doms d ! k = SIZE_MAX"
    then show "k \<notin> A" using tree_D(1) [of "d_doms d" A "d_doms d ! k"] tree_D(2) [of "d_doms d" A k] assms by (auto simp: dom_state_def)
  qed (use assms that in \<open>simp add: dom_state_def\<close>)
qed

lemma join_preds_ok:
  assumes st: "dom_state ps d A" and qs: "\<And>q. q \<in> set qs \<Longrightarrow> \<exists>k < length ps. q = ps ! k" and c0: "c0 \<in> A"
    and fuel: "2 * length ps < fuel" and d: "distinct ps"
  shows "\<exists>c. join_preds fuel d qs c0 = Inr c \<and> c \<in> A \<and>
    chain (d_doms d) c = chain (d_doms d) c0 \<inter> (\<Inter>k \<in> {k \<in> A. ps ! k \<in> set qs}. chain (d_doms d) k)"
  using qs c0
proof (induction qs arbitrary: c0)
  case (Cons q qs)
  note t = dom_stateD(4) [OF st] and len = dom_stateD(3) [OF st]
  obtain k where k: "k < length ps" "q = ps ! k" using Cons.prems(1) by auto
  have all: "{j \<in> A. ps ! j \<in> set (q # qs)} = {j \<in> A. ps ! j \<in> set qs} \<union> ({k} \<inter> A)"
    using k nth_eq_iff_index_eq [OF d] tree_D(1) [OF t] len by auto
  show ?case
  proof (cases "k \<in> A")
    case True
    have "(length (d_doms d) - k) + (length (d_doms d) - c0) < fuel" using fuel len by linarith
    then obtain c1 where c1: "intersect fuel (d_doms d) k c0 = Inr c1" "c1 \<in> A"
      "chain (d_doms d) c1 = chain (d_doms d) k \<inter> chain (d_doms d) c0" using intersect_ok [OF t True Cons.prems(2)] by blast
    obtain c where c: "join_preds fuel d qs c1 = Inr c" "c \<in> A"
      "chain (d_doms d) c = chain (d_doms d) c1 \<inter> (\<Inter>k \<in> {k \<in> A. ps ! k \<in> set qs}. chain (d_doms d) k)"
      using Cons.IH [of c1] Cons.prems(1) c1(2) by auto
    have "chain (d_doms d) c = chain (d_doms d) c0 \<inter> (\<Inter>k \<in> {j \<in> A. ps ! j \<in> set (q # qs)}. chain (d_doms d) k)"
      unfolding all c(3) c1(3) using True by auto
    moreover have "join_preds fuel d (q # qs) c0 = Inr c"
      using k dom_stateD(2,5) [OF st k(1)] True len c(1) c1(1) by (simp add: read_dom_def)
    ultimately show ?thesis using c(2) by blast
  next
    case False
    obtain c where c: "join_preds fuel d qs c0 = Inr c" "c \<in> A"
      "chain (d_doms d) c = chain (d_doms d) c0 \<inter> (\<Inter>k \<in> {k \<in> A. ps ! k \<in> set qs}. chain (d_doms d) k)"
      using Cons.IH [of c0] Cons.prems by auto
    moreover have "join_preds fuel d (q # qs) c0 = Inr c"
      using k dom_stateD(2,5) [OF st k(1)] False len c(1) by (simp add: read_dom_def)
    moreover have "{k} \<inter> A = {}" using False by simp
    ultimately show ?thesis unfolding all by auto
  qed
qed simp

lemma flow_preds_iterator:
  assumes f: "numbered_flow ir e ps" and i: "i < length ps"
  shows "block_predecessors (ir_top ir) ir (ps ! i) = Inr (predecessor_blocks ir (ps ! i))"
proof -
  obtain L where "ir_inv ir L" using f by (auto simp: numbered_flow_def)
  then show ?thesis by (rule block_predecessors_ok) (use flow_D(4) [OF f i] in simp_all)
qed

lemma dom_step_ok:
  assumes f: "numbered_flow ir e ps" and st: "dom_state ps d A" and i: "i < length ps - 1" and A: "{i + 1 ..< length ps} \<subseteq> A"
    and D: "\<And>k. k \<in> A \<Longrightarrow> chain (d_doms d) k = dom_numbers ir e ps k" and fuel: "2 * length ps < fuel"
  obtains c where "dom_step fuel ir i (d, ch) = Inr (d\<lparr>d_doms := (d_doms d)[i := c]\<rparr>, ch \<or> d_doms d ! i \<noteq> c)"
    and "c \<in> A" and "i < c" and "chain (d_doms d) c = dom_numbers ir e ps i - {i}"
proof -
  note t = dom_stateD(4) [OF st] and len = dom_stateD(3) [OF st]
  have i': "i < length ps" using i by simp
  obtain k0 qs where k0: "i < k0" "k0 < length ps" "predecessor_blocks ir (ps ! i) = ps ! k0 # qs" using flow_first [OF f i] .
  then have k0A: "k0 \<in> A" using A by auto
  have "\<exists>k < length ps. q = ps ! k" if "q \<in> set qs" for q
    using flow_preds [OF f i', of q] k0(3) that by auto
  then obtain c where c: "join_preds fuel d qs k0 = Inr c" "c \<in> A"
    "chain (d_doms d) c = chain (d_doms d) k0 \<inter> (\<Inter>k \<in> {k \<in> A. ps ! k \<in> set qs}. chain (d_doms d) k)"
    using join_preds_ok [OF st _ k0A fuel flow_D(1) [OF f]] by blast
  let ?K = "{k \<in> A. ps ! k \<in> set (predecessor_blocks ir (ps ! i))}"
  have AK: "k < length ps" if "k \<in> A" for k using tree_D(1) [OF t that] len by simp
  have "?K = insert k0 {k \<in> A. ps ! k \<in> set qs}"
    using k0 k0A AK nth_eq_iff_index_eq [OF flow_D(1) [OF f]] by auto
  then have "chain (d_doms d) c = (\<Inter>k \<in> ?K. chain (d_doms d) k)" using c(3) by simp
  also have "\<dots> = (\<Inter>k \<in> ?K. dom_numbers ir e ps k)" using D by simp
  also have "\<dots> = dom_numbers ir e ps i - {i}"
  proof (rule dom_numbers_join [OF f i, symmetric])
    show "?K \<subseteq> pred_numbers ir ps i" using AK by (auto simp: pred_numbers_def)
    fix k assume k: "k \<in> pred_numbers ir ps i" "i < k"
    then have kA: "k \<in> A" using A by (auto simp: pred_numbers_def)
    moreover have "i \<notin> dom_numbers ir e ps k" using D [OF kA] chain_in [OF t kA] k(2) by auto
    ultimately show "k \<in> ?K \<and> i \<notin> dom_numbers ir e ps k" using k by (simp add: pred_numbers_def)
  qed
  finally have ch: "chain (d_doms d) c = dom_numbers ir e ps i - {i}" .
  have "c \<in> chain (d_doms d) k0" using c(3) chain_self [of c "d_doms d"] by blast
  then have "i < c" using chain_in [OF t k0A] k0(1) by auto
  moreover have "dom_step fuel ir i (d, chg) = Inr (d\<lparr>d_doms := (d_doms d)[i := c]\<rparr>, chg \<or> d_doms d ! i \<noteq> c)" for chg
    using c(1) k0 i' len dom_stateD(1) [OF st] dom_stateD(2) [OF st k0(2)] flow_preds_iterator [OF f i']
    by (simp add: dom_step_def read_dom_def)
  ultimately show thesis using that c(2) ch by blast
qed

lemma dom_state_upd:
  assumes st: "dom_state ps d A" and i: "i < length ps" "i \<notin> A" and c: "c \<in> A" "i < c"
  shows "dom_state ps (d\<lparr>d_doms := (d_doms d)[i := c]\<rparr>) (insert i A)"
  using assms tree_upd [of "d_doms d" A i c] by (simp add: dom_state_def nth_list_update)

text \<open>The first pass computes the dominators; a further pass changes nothing.\<close>

lemma first_pass:
  assumes f: "numbered_flow ir e ps" and fuel: "2 * length ps < fuel"
  shows "dom_state ps d {m ..< length ps} \<Longrightarrow> m < length ps \<Longrightarrow>
    (\<And>k. m \<le> k \<Longrightarrow> k < length ps \<Longrightarrow> chain (d_doms d) k = dom_numbers ir e ps k) \<Longrightarrow>
    \<exists>d' ch'. dom_pass fuel ir (rev [0 ..< m]) (d, ch) = Inr (d', ch') \<and> dom_state ps d' {..< length ps} \<and>
      (\<forall>k < length ps. chain (d_doms d') k = dom_numbers ir e ps k) \<and> d_childs d' = d_childs d"
proof (induction m arbitrary: d ch)
  case 0
  have "{0 ..< length ps} = {..< length ps}" by auto
  with 0 show ?case by auto
next
  case (Suc i)
  let ?A = "{Suc i ..< length ps}"
  note st = Suc.prems(1)
  have i: "i < length ps - 1" "i < length ps" "i \<notin> ?A" using Suc.prems(2) by auto
  have D: "chain (d_doms d) k = dom_numbers ir e ps k" if "k \<in> ?A" for k using Suc.prems(3) that by simp
  obtain c where c: "dom_step fuel ir i (d, ch) = Inr (d\<lparr>d_doms := (d_doms d)[i := c]\<rparr>, ch \<or> d_doms d ! i \<noteq> c)"
    "c \<in> ?A" "i < c" "chain (d_doms d) c = dom_numbers ir e ps i - {i}"
    by (rule dom_step_ok [OF f st i(1) _ D fuel, of ch]) auto
  let ?d = "d\<lparr>d_doms := (d_doms d)[i := c]\<rparr>"
  have A: "insert i ?A = {i ..< length ps}" using i(2) by auto
  have st': "dom_state ps ?d {i ..< length ps}" using dom_state_upd [OF st i(2,3) c(2,3)] A by simp
  have old: "chain (d_doms ?d) k = chain (d_doms d) k" if "k \<in> ?A" for k
    using chain_upd [OF dom_stateD(4) [OF st] that i(3)] by simp
  have "chain (d_doms ?d) i = dom_numbers ir e ps i"
  proof -
    have "i \<in> dom_numbers ir e ps i" using i(2) dominates_refl [OF flow_D(5) [OF f i(2)]] by (simp add: dom_numbers_def)
    moreover have "chain (d_doms ?d) i = insert i (chain (d_doms ?d) c)"
      using chain_unfold [of "d_doms ?d" i] i(2) dom_stateD(3) [OF st] by simp
    ultimately show ?thesis using old [OF c(2)] c(4) by auto
  qed
  then have D': "chain (d_doms ?d) k = dom_numbers ir e ps k" if "i \<le> k" "k < length ps" for k
    using that old [of k] D [of k] by (cases "k = i") auto
  have "\<exists>d' ch'. dom_pass fuel ir (rev [0 ..< i]) (?d, ch \<or> d_doms d ! i \<noteq> c) = Inr (d', ch') \<and> dom_state ps d' {..< length ps} \<and>
      (\<forall>k < length ps. chain (d_doms d') k = dom_numbers ir e ps k) \<and> d_childs d' = d_childs ?d"
    by (rule Suc.IH [OF st' i(2) D'])
  then show ?case using c(1) by simp
qed

lemma second_pass:
  assumes f: "numbered_flow ir e ps" and fuel: "2 * length ps < fuel" and st: "dom_state ps d {..< length ps}"
    and D: "\<And>k. k < length ps \<Longrightarrow> chain (d_doms d) k = dom_numbers ir e ps k"
  shows "m < length ps \<Longrightarrow> dom_pass fuel ir (rev [0 ..< m]) (d, ch) = Inr (d, ch)"
proof (induction m)
  case (Suc i)
  then have i: "i < length ps - 1" by simp
  have len: "length (d_doms d) = length ps" using dom_stateD(3) [OF st] .
  obtain c where c: "dom_step fuel ir i (d, ch) = Inr (d\<lparr>d_doms := (d_doms d)[i := c]\<rparr>, ch \<or> d_doms d ! i \<noteq> c)"
    "c \<in> {..< length ps}" "chain (d_doms d) c = dom_numbers ir e ps i - {i}"
    by (rule dom_step_ok [OF f st i _ _ fuel, of ch]) (use D in auto)
  have iA: "i \<in> {..< length ps}" "i \<noteq> length (d_doms d) - 1" using i len by auto
  note t = dom_stateD(4) [OF st]
  have "chain (d_doms d) (d_doms d ! i) = chain (d_doms d) i - {i}"
    using chain_step [OF t iA] by blast
  also have "\<dots> = chain (d_doms d) c" using D [of i] c(3) i by simp
  finally have "d_doms d ! i = c" by (rule chain_inj [OF t tree_D(2) [OF t iA(1)] c(2)])
  then have "dom_step fuel ir i (d, ch) = Inr (d, ch)" using c(1) by (auto simp: list_update_id)
  then show ?case using Suc by simp
qed simp

lemma entry_step:
  assumes f: "numbered_flow ir e ps" and st: "dom_state ps d A"
  shows "dom_step fuel ir (length ps - 1) (d, ch) = Inr (d, ch)"
proof -
  have n: "length ps - 1 < length ps" using flow_D(3) [OF f] by simp
  have "predecessor_blocks ir (ps ! (length ps - 1)) = []" using flow_D(2,6) [OF f] by simp
  then show ?thesis
    using flow_preds_iterator [OF f n] dom_stateD(1,3) [OF st] n
    by (simp add: dom_step_def read_dom_def list_update_id)
qed

lemma rev_upt_last: "0 < n \<Longrightarrow> rev [0 ..< n] = (n - 1) # rev [0 ..< n - 1]"
  by (cases n) simp_all

lemma dom_loop_ok:
  assumes f: "numbered_flow ir e ps" and fuel: "2 * length ps < fuel" and st: "dom_state ps d {length ps - 1}"
  obtains d' where "dom_loop (Suc (Suc passes)) fuel ir d = Inr d'" and "dom_state ps d' {..< length ps}"
    and "\<forall>k < length ps. chain (d_doms d') k = dom_numbers ir e ps k"
proof -
  have n: "0 < length ps" "length ps - 1 < length ps" using flow_D(3) [OF f] by simp_all
  have A: "{length ps - 1 ..< length ps} = {length ps - 1}" using n by auto
  have root: "chain (d_doms d) k = dom_numbers ir e ps k" if "length ps - 1 \<le> k" "k < length ps" for k
  proof -
    have "k = length ps - 1" using that by linarith
    then show ?thesis using chain_root [OF dom_stateD(4) [OF st]] dom_stateD(3) [OF st] dom_numbers_entry [OF f] by simp
  qed
  obtain d' ch' where p: "dom_pass fuel ir (rev [0 ..< length ps - 1]) (d, False) = Inr (d', ch')"
    "dom_state ps d' {..< length ps}" "\<forall>k < length ps. chain (d_doms d') k = dom_numbers ir e ps k"
    using first_pass [OF f fuel _ n(2) root, of False] st A by auto
  have pass1: "dom_pass fuel ir (rev [0 ..< length ps]) (d, False) = Inr (d', ch')"
    unfolding rev_upt_last [OF n(1)] using entry_step [OF f st] p(1) by simp
  have pass2: "dom_pass fuel ir (rev [0 ..< length ps]) (d', False) = Inr (d', False)"
    unfolding rev_upt_last [OF n(1)] using entry_step [OF f p(2)] second_pass [OF f fuel p(2) _ n(2)] p(3) by simp
  have "dom_loop (Suc (Suc passes)) fuel ir d = Inr d'"
    using pass1 pass2 dom_stateD(1) [OF st] dom_stateD(1) [OF p(2)] by simp
  with that p(2,3) show thesis by blast
qed

section \<open>Immediate dominators\<close>

lemma dom_list_step:
  assumes f: "numbered_flow ir e ps" and st: "dom_state ps d {..< length ps}"
    and D: "\<forall>k < length ps. chain (d_doms d) k = dom_numbers ir e ps k" and i: "i < length ps" "i \<noteq> length ps - 1"
  shows "d_doms d ! i < length ps" and "i < d_doms d ! i" and "chain (d_doms d) (d_doms d ! i) = dom_numbers ir e ps i - {i}"
proof -
  note t = dom_stateD(4) [OF st] and len = dom_stateD(3) [OF st]
  have i': "i \<in> {..< length ps}" "i \<noteq> length (d_doms d) - 1" using i len by simp_all
  show "d_doms d ! i < length ps" "i < d_doms d ! i" using tree_D(2,3) [OF t i'(1)] i' by auto
  show "chain (d_doms d) (d_doms d ! i) = dom_numbers ir e ps i - {i}" using chain_step [OF t i'] D i(1) by auto
qed

lemma dominator_reached:
  assumes "dominates E e x y"
  shows "(e, x) \<in> E\<^sup>*"
proof (rule ccontr)
  assume n: "(e, x) \<notin> E\<^sup>*"
  have "(e, z) \<in> (avoiding E x)\<^sup>*" if "(e, z) \<in> E\<^sup>*" for z
    using that
  proof (induction rule: rtrancl_induct)
    case (step z w)
    then have "z \<noteq> x" "w \<noteq> x" using n by (auto intro: rtrancl_into_rtrancl)
    with step have "(z, w) \<in> avoiding E x" by simp
    with step(3) show ?case by (rule rtrancl_into_rtrancl)
  qed simp
  with n assms show False by (auto simp: dominates_def)
qed

lemma immediate_iff:
  assumes f: "numbered_flow ir e ps" and st: "dom_state ps d {..< length ps}"
    and D: "\<forall>k < length ps. chain (d_doms d) k = dom_numbers ir e ps k" and i: "i < length ps" and j: "j < length ps"
  shows "immediate_dominator (edges (successor_blocks ir)) e (ps ! j) (ps ! i) \<longleftrightarrow> d_doms d ! i = j \<and> i \<noteq> j"
proof (cases "i = length ps - 1")
  case True
  have "d_doms d ! i = i" using tree_root [OF dom_stateD(4) [OF st]] dom_stateD(3) [OF st] True by simp
  moreover have "ps ! i = e" using flow_D(2) [OF f] True by simp
  ultimately show ?thesis using True by (auto simp: immediate_dominator_def strictly_dominates_def dominates_entry)
next
  case False
  let ?E = "edges (successor_blocks ir)" and ?c = "d_doms d ! i"
  note s = dom_list_step [OF f st D i False]
  have strict: "strictly_dominates ?E e (ps ! m) (ps ! i) \<longleftrightarrow> m \<in> chain (d_doms d) ?c" if "m < length ps" for m
    using s(3) that i nth_eq_iff_index_eq [OF flow_D(1) [OF f]] by (auto simp: strictly_dominates_def dom_numbers_def)
  have doms: "dominates ?E e (ps ! m) (ps ! k) \<longleftrightarrow> m \<in> chain (d_doms d) k" if "m < length ps" "k < length ps" for m k
    using D that by (auto simp: dom_numbers_def)
  have imm: "immediate_dominator ?E e (ps ! ?c) (ps ! i)"
    unfolding immediate_dominator_def
  proof (intro conjI allI impI)
    show "strictly_dominates ?E e (ps ! ?c) (ps ! i)" using strict [OF s(1)] by simp
    fix x assume x: "strictly_dominates ?E e x (ps ! i)"
    then have "(e, x) \<in> ?E\<^sup>*" using dominator_reached by (auto simp: strictly_dominates_def)
    then obtain m where "m < length ps" "x = ps ! m" using flow_index [OF f] by blast
    with x strict doms s(1) show "dominates ?E e x (ps ! ?c)" by simp
  qed
  show ?thesis
  proof
    assume j': "immediate_dominator ?E e (ps ! j) (ps ! i)"
    then have "j \<in> chain (d_doms d) ?c" "?c \<in> chain (d_doms d) j"
      using imm strict [OF j] doms [OF s(1) j] unfolding immediate_dominator_def by blast+
    then have "?c \<le> j" "j \<le> ?c" using chain_in [OF dom_stateD(4) [OF st]] s(1) j by (auto dest: subsetD)
    with s(2) show "?c = j \<and> i \<noteq> j" by simp
  qed (use imm in blast)
qed

text \<open>The lists of children.\<close>

lemma dom_childs_ok:
  assumes "\<And>i. i \<in> set is \<Longrightarrow> i < length doms \<and> doms ! i < length childs"
    and "\<And>j. j < length childs \<Longrightarrow> length (childs ! j) + length (filter (\<lambda>i. doms ! i = j \<and> i \<noteq> j) is) \<le> 16"
  shows "\<exists>childs'. dom_childs doms is childs = Inr childs' \<and> length childs' = length childs \<and>
    (\<forall>j < length childs. childs' ! j = childs ! j @ filter (\<lambda>i. doms ! i = j \<and> i \<noteq> j) is)"
  using assms
proof (induction "is" arbitrary: childs)
  case (Cons i "is")
  let ?d = "doms ! i"
  have i: "i < length doms" "?d < length childs" using Cons.prems(1) by auto
  show ?case
  proof (cases "?d = i")
    case True
    have "\<And>j. j < length childs \<Longrightarrow> length (childs ! j) + length (filter (\<lambda>i. doms ! i = j \<and> i \<noteq> j) is) \<le> 16"
      using Cons.prems(2) True by (auto split: if_splits)
    with Cons.IH [of childs] Cons.prems(1) True i show ?thesis by (auto simp: read_dom_def)
  next
    case False
    let ?childs = "childs[?d := childs ! ?d @ [i]]"
    have "length (childs ! ?d) < 16" using Cons.prems(2) [OF i(2)] False by simp
    then have push: "ptrs_push 8 (childs ! ?d) i = Inr (childs ! ?d @ [i])" by (simp add: ptrs_push_def)
    have "length (?childs ! j) + length (filter (\<lambda>i. doms ! i = j \<and> i \<noteq> j) is) \<le> 16" if "j < length ?childs" for j
      using Cons.prems(2) [of j] that False by (cases "j = ?d") (auto simp: nth_list_update)
    moreover have "\<And>k. k \<in> set is \<Longrightarrow> k < length doms \<and> doms ! k < length ?childs" using Cons.prems(1) by auto
    ultimately obtain childs' where c: "dom_childs doms is ?childs = Inr childs'" "length childs' = length ?childs"
      "\<forall>j < length ?childs. childs' ! j = ?childs ! j @ filter (\<lambda>i. doms ! i = j \<and> i \<noteq> j) is" using Cons.IH [of ?childs] by blast
    have "childs' ! j = childs ! j @ filter (\<lambda>i. doms ! i = j \<and> i \<noteq> j) (i # is)" if "j < length childs" for j
      using c(3) that False by (auto simp: nth_list_update)
    with c(1,2) i push False show ?thesis by (intro exI [of _ childs']) (simp add: read_dom_def)
  qed
qed simp

lemma filter_upt_card: "length (filter P [0 ..< n]) = card {i. i < n \<and> P i}"
proof -
  have "length (filter P [0 ..< n]) = card (set (filter P [0 ..< n]))" by (rule distinct_card [symmetric]) simp
  moreover have "set (filter P [0 ..< n]) = {i. i < n \<and> P i}" by auto
  ultimately show ?thesis by simp
qed

section \<open>The whole computation\<close>

text \<open>The order in which a depth first search leaves the blocks of a function, and the limits of the buffers.\<close>

definition block_order :: "ir_context \<Rightarrow> ptr \<Rightarrow> ptr list" where
  "block_order ir e = (case dfs (5 * ir_top ir + 1) (successor_blocks ir) e ([], {}) of None \<Rightarrow> [] | Some (ps, seen) \<Rightarrow> ps)"

definition dom_children :: "ir_context \<Rightarrow> ptr \<Rightarrow> ptr \<Rightarrow> ptr set" where
  "dom_children ir e b = {c \<in> reached_from ir e. immediate_dominator (edges (successor_blocks ir)) e b c}"

definition dom_limits :: "ir_context \<Rightarrow> ptr \<Rightarrow> bool" where
  "dom_limits ir e \<longleftrightarrow> card (reached_from ir e) \<le> 250 \<and> (\<forall>b \<in> reached_from ir e. card (dom_children ir e b) \<le> 16)"

definition dom_result :: "ir_context \<Rightarrow> ptr \<Rightarrow> ptr list \<Rightarrow> dominators \<Rightarrow> bool" where
  "dom_result ir e ps d \<longleftrightarrow> numbered_flow ir e ps \<and> dom_state ps d {..< length ps} \<and>
     (\<forall>k < length ps. chain (d_doms d) k = dom_numbers ir e ps k) \<and>
     length (d_childs d) = length ps \<and>
     (\<forall>j < length ps. d_childs d ! j = filter (\<lambda>i. d_doms d ! i = j \<and> i \<noteq> j) [0 ..< length ps])"

lemma block_order_ok:
  assumes inv: "ir_inv ir L" and c: "ir_complete ir" and e: "is_block ir e" and n: "natural_flow ir e (block_order ir e)"
    and fuel: "5 * ir_top ir < fuel"
  shows "numbered_flow ir e (block_order ir e)"
    and "dfs fuel (successor_blocks ir) e ([], {}) = Some (block_order ir e, set (block_order ir e))"
proof -
  obtain ps where ps: "dfs (5 * ir_top ir + 1) (successor_blocks ir) e ([], {}) = Some (ps, set ps)" "distinct ps"
    "set ps = reached_from ir e" "ps \<noteq> []" "last ps = e"
    using dfs_blocks [OF inv c e, of "5 * ir_top ir + 1"] by auto
  then have o: "block_order ir e = ps" by (simp add: block_order_def)
  show "numbered_flow ir e (block_order ir e)" using ps n inv c e unfolding o numbered_flow_def by auto
  show "dfs fuel (successor_blocks ir) e ([], {}) = Some (block_order ir e, set (block_order ir e))"
    unfolding o by (rule dfs_mono(1) [OF ps(1)]) (use fuel in simp)
qed

lemma order_length:
  assumes f: "numbered_flow ir e ps"
  shows "length ps = card (reached_from ir e)" and "length ps \<le> ir_top ir"
proof -
  obtain L where inv: "ir_inv ir L" and e: "is_block ir e" and ps: "distinct ps" "set ps = reached_from ir e"
    using f by (auto simp: numbered_flow_def)
  show n: "length ps = card (reached_from ir e)" using ps distinct_card by metis
  have "reached_from ir e \<subseteq> {b. is_block ir b}" using reached_are_blocks [OF e] by blast
  then have "card (reached_from ir e) \<le> card {b. is_block ir b}" by (rule card_mono [OF blocks_finite(1) [OF inv]])
  then show "length ps \<le> ir_top ir" using blocks_finite(2) [OF inv] n by linarith
qed

lemma children_numbers:
  assumes f: "numbered_flow ir e ps" and st: "dom_state ps d {..< length ps}"
    and D: "\<forall>k < length ps. chain (d_doms d) k = dom_numbers ir e ps k" and j: "j < length ps"
  shows "dom_children ir e (ps ! j) = (!) ps ` {i. i < length ps \<and> d_doms d ! i = j \<and> i \<noteq> j}"
    and "card {i. i < length ps \<and> d_doms d ! i = j \<and> i \<noteq> j} = card (dom_children ir e (ps ! j))"
proof -
  have "reached_from ir e = (!) ps ` {..< length ps}"
  proof -
    have "reached_from ir e = set ps" using f by (simp add: numbered_flow_def)
    also have "\<dots> = (!) ps ` {..< length ps}" by (auto simp: set_conv_nth)
    finally show ?thesis .
  qed
  then show e: "dom_children ir e (ps ! j) = (!) ps ` {i. i < length ps \<and> d_doms d ! i = j \<and> i \<noteq> j}"
    using immediate_iff [OF f st D _ j] by (auto simp: dom_children_def image_iff)
  have "inj_on ((!) ps) {i. i < length ps \<and> d_doms d ! i = j \<and> i \<noteq> j}"
    by (rule inj_onI) (simp add: nth_eq_iff_index_eq [OF flow_D(1) [OF f]])
  then show "card {i. i < length ps \<and> d_doms d ! i = j \<and> i \<noteq> j} = card (dom_children ir e (ps ! j))"
    unfolding e by (rule card_image [symmetric])
qed

lemma dominators_compute_ok:
  assumes inv: "ir_inv ir L" and c: "ir_complete ir" and e: "is_block ir e" and n: "natural_flow ir e (block_order ir e)"
    and lim: "dom_limits ir e" and fuel: "5 * ir_top ir < fuel"
  obtains d where "dominators_compute fuel ir e = Inr d" and "dom_result ir e (block_order ir e) d"
proof -
  let ?ps = "block_order ir e"
  note f = block_order_ok(1) [OF inv c e n fuel] and s = block_order_ok(2) [OF inv c e n fuel]
  have len: "length ?ps \<le> 250" "length ?ps \<le> ir_top ir" "0 < length ?ps"
    using order_length [OF f] lim flow_D(3) [OF f] by (simp_all add: dom_limits_def)
  have "dom_visit fuel ir e (numbers_of [] {}, []) = Inr (numbers_of ?ps (set ?ps), ?ps)"
    using dom_visit_dfs(1) [OF s successors_are_blocks [OF inv c]] e len(1) by (simp add: buffer_pointers_def DBUFFER_INIT_def)
  moreover have "numbers_of [] {} = Map.empty" by (simp add: numbers_of_def fun_eq_iff)
  ultimately have visit: "dom_visit fuel ir e (Map.empty, []) = Inr (numbers_of ?ps (set ?ps), ?ps)" by simp
  let ?d0 = "\<lparr>d_nodeToNum = numbers_of ?ps (set ?ps), d_postorder = ?ps,
    d_doms = (replicate (length ?ps) SIZE_MAX)[length ?ps - 1 := length ?ps - 1], d_childs = []\<rparr>"
  have "dom_state ?ps ?d0 {length ?ps - 1}"
    unfolding dom_state_def
  proof (intro conjI allI impI)
    show "d_nodeToNum ?d0 (?ps ! k) = Some (Some k)" if "k < length ?ps" for k
      using numbers_of_nth [OF flow_D(1) [OF f] that] by simp
    show "length ?ps < SIZE_MAX" using len(1) by (simp add: SIZE_MAX_def)
    show "dom_tree (d_doms ?d0) {length ?ps - 1}" using len(3) by (auto simp: dom_tree_def)
  qed (use len(3) in auto)
  moreover have "2 \<le> fuel" using fuel heap_D(2) [OF ir_ok_D(1) [OF ir_inv_D(1) [OF inv]]] by linarith
  then obtain p where p: "fuel = Suc (Suc p)" by (metis add_2_eq_Suc le_add_diff_inverse)
  moreover have "2 * length ?ps < fuel" using len(2) fuel by linarith
  ultimately obtain d where d: "dom_loop fuel fuel ir ?d0 = Inr d" "dom_state ?ps d {..< length ?ps}"
    "\<forall>k < length ?ps. chain (d_doms d) k = dom_numbers ir e ?ps k"
    using dom_loop_ok [OF f, of fuel ?d0 p] by auto
  have below: "i < length (d_doms d) \<and> d_doms d ! i < length (replicate (length ?ps) [])" if "i \<in> set [0 ..< length ?ps]" for i
    using tree_D(1,2) [OF dom_stateD(4) [OF d(2)], of i] dom_stateD(3) [OF d(2)] that by simp
  have "length (replicate (length ?ps) ([] :: nat list) ! j) + length (filter (\<lambda>i. d_doms d ! i = j \<and> i \<noteq> j) [0 ..< length ?ps]) \<le> 16"
    if "j < length (replicate (length ?ps) ([] :: nat list))" for j
  proof -
    have j: "j < length ?ps" using that by simp
    then have "?ps ! j \<in> reached_from ir e" using f nth_mem [OF j] by (simp add: numbered_flow_def)
    then have "card (dom_children ir e (?ps ! j)) \<le> 16" using lim by (simp add: dom_limits_def)
    then show ?thesis using children_numbers(2) [OF f d(2,3) j] j by (simp add: filter_upt_card)
  qed
  from dom_childs_ok [OF below this] obtain childs where ch: "dom_childs (d_doms d) [0 ..< length ?ps] (replicate (length ?ps) []) = Inr childs"
    "length childs = length ?ps"
    "\<forall>j < length ?ps. childs ! j = filter (\<lambda>i. d_doms d ! i = j \<and> i \<noteq> j) [0 ..< length ?ps]" by auto
  have "dominators_compute fuel ir e = Inr (d\<lparr>d_childs := childs\<rparr>)"
    using visit d(1) ch(1) len(3) by (simp add: dominators_compute_def)
  moreover have "dom_result ir e ?ps (d\<lparr>d_childs := childs\<rparr>)"
    using f d(2,3) ch(2,3) by (simp add: dom_result_def dom_state_def)
  ultimately show thesis by (rule that)
qed

section \<open>Queries\<close>

lemma result_D:
  assumes "dom_result ir e ps d"
  shows "numbered_flow ir e ps" and "dom_state ps d {..< length ps}"
    and "\<forall>k < length ps. chain (d_doms d) k = dom_numbers ir e ps k"
    and "j < length ps \<Longrightarrow> d_childs d ! j = filter (\<lambda>i. d_doms d ! i = j \<and> i \<noteq> j) [0 ..< length ps]"
    and "length (d_childs d) = length ps"
  using assms by (simp_all add: dom_result_def)

lemma getIDom_number:
  assumes r: "dom_result ir e ps d" and k: "k < length ps"
  shows "dominators_getIDom d (ps ! k) = Inr (ps ! (d_doms d ! k))" and "d_doms d ! k < length ps"
proof -
  note st = result_D(2) [OF r]
  have "k \<in> {..< length ps}" using k by simp
  then show lt: "d_doms d ! k < length ps" using tree_D(2) [OF dom_stateD(4) [OF st]] by blast
  then show "dominators_getIDom d (ps ! k) = Inr (ps ! (d_doms d ! k))"
    using k dom_stateD(1,3) [OF st] dom_stateD(2) [OF st k] by (simp add: dominators_getIDom_def read_dom_def postorder_at_def)
qed

lemma getIDom_ok:
  assumes r: "dom_result ir e ps d"
  shows "dominators_getIDom d e = Inr e"
    and "b \<in> reached_from ir e \<Longrightarrow> b \<noteq> e \<Longrightarrow>
      \<exists>c. dominators_getIDom d b = Inr c \<and> immediate_dominator (edges (successor_blocks ir)) e c b"
proof -
  note f = result_D(1) [OF r] and st = result_D(2) [OF r] and D = result_D(3) [OF r]
  have n: "length ps - 1 < length ps" using flow_D(3) [OF f] by simp
  have "d_doms d ! (length ps - 1) = length ps - 1" using tree_root [OF dom_stateD(4) [OF st]] dom_stateD(3) [OF st] by simp
  then show "dominators_getIDom d e = Inr e" using getIDom_number(1) [OF r n] flow_D(2) [OF f] by simp
  assume b: "b \<in> reached_from ir e" "b \<noteq> e"
  then obtain k where k: "k < length ps" "b = ps ! k" using flow_index [OF f, of b] by (auto simp: reached_from_def)
  with b have kn: "k \<noteq> length ps - 1" using flow_D(2) [OF f] by auto
  have "immediate_dominator (edges (successor_blocks ir)) e (ps ! (d_doms d ! k)) (ps ! k)"
    using immediate_iff [OF f st D k(1) getIDom_number(2) [OF r k(1)]] dom_list_step(2) [OF f st D k(1) kn] by simp
  then show "\<exists>c. dominators_getIDom d b = Inr c \<and> immediate_dominator (edges (successor_blocks ir)) e c b"
    using getIDom_number(1) [OF r k(1)] k(2) by blast
qed

text \<open>What a loop over the iterator of the children sees.\<close>

definition child_blocks :: "dominators \<Rightarrow> dominator_child_it \<Rightarrow> ptr set" where
  "child_blocks d it = {c. \<exists>k. \<not> dominator_child_end d ((dominator_child_next ^^ k) it) \<and>
     dominator_child_get d ((dominator_child_next ^^ k) it) = Inr c}"

lemma child_blocks_ok:
  assumes r: "dom_result ir e ps d" and b: "b \<in> reached_from ir e"
  obtains it where "dominator_child_begin d b = Inr it" and "child_blocks d it = dom_children ir e b"
proof -
  note f = result_D(1) [OF r] and st = result_D(2) [OF r] and D = result_D(3) [OF r]
  obtain j where j: "j < length ps" "b = ps ! j" using flow_index [OF f, of b] b by (auto simp: reached_from_def)
  let ?cs = "filter (\<lambda>i. d_doms d ! i = j \<and> i \<noteq> j) [0 ..< length ps]" and ?it = "\<lparr>cit_node = j, cit_i = 0\<rparr>"
  have next_k: "(dominator_child_next ^^ k) ?it = \<lparr>cit_node = j, cit_i = k\<rparr>" for k
    by (induction k) (simp_all add: dominator_child_next_def)
  have cs: "d_childs d ! j = ?cs" using result_D(4) [OF r j(1)] .
  have get: "dominator_child_get d \<lparr>cit_node = j, cit_i = k\<rparr> = Inr (ps ! (?cs ! k))" if "k < length ?cs" for k
  proof -
    have "?cs ! k \<in> set ?cs" using that by (rule nth_mem)
    then have "?cs ! k < length ps" by auto
    then show ?thesis using that cs dom_stateD(1) [OF st]
      by (simp add: dominator_child_get_def dominator_child_end_def postorder_at_def)
  qed
  have "child_blocks d ?it = {c. \<exists>k < length ?cs. c = ps ! (?cs ! k)}"
    unfolding child_blocks_def next_k using get cs by (auto simp: dominator_child_end_def not_le)
  also have "\<dots> = (!) ps ` set ?cs" by (auto simp: set_conv_nth)
  also have "\<dots> = dom_children ir e b" unfolding children_numbers(1) [OF f st D j(1)] j(2) by auto
  finally have "child_blocks d ?it = dom_children ir e b" .
  moreover have "dominator_child_begin d b = Inr ?it"
    using j dom_stateD(2) [OF st j(1)] by (simp add: dominator_child_begin_def)
  ultimately show thesis using that by blast
qed

section \<open>Frontiers\<close>

definition df_list :: "domfrontiers \<Rightarrow> ptr \<Rightarrow> ptr list" where
  "df_list df x = (case df x of None \<Rightarrow> [] | Some l \<Rightarrow> l)"

lemma df_getElement_list: "snd (df_getElement df x) = df_list df x" "df_list (fst (df_getElement df x)) = df_list df"
  by (auto simp: df_getElement_def df_list_def fun_eq_iff split: option.splits)

text \<open>The numbers from \<open>k\<close> up to, and without, \<open>c\<close> get the block.\<close>

lemma df_runner_ok:
  assumes r: "dom_result ir e ps d" and c: "c < length ps"
  shows "k < length ps \<Longrightarrow> c \<in> chain (d_doms d) k \<Longrightarrow> (\<And>m. m \<in> chain (d_doms d) k - chain (d_doms d) c \<Longrightarrow> length (df_list df (ps ! m)) < 250) \<Longrightarrow> length ps - k < fuel \<Longrightarrow>
    \<exists>df'. df_runner fuel d y (ps ! c) (ps ! k) df = Inr df' \<and>
      (\<forall>m < length ps. df_list df' (ps ! m) =
         df_list df (ps ! m) @ (if m \<in> chain (d_doms d) k - chain (d_doms d) c then [y] else [])) \<and>
      (\<forall>x. x \<notin> set ps \<longrightarrow> df_list df' x = df_list df x)"
proof (induction fuel arbitrary: k df)
  case (Suc fuel)
  note f = result_D(1) [OF r] and t = dom_stateD(4) [OF result_D(2) [OF r]] and len = dom_stateD(3) [OF result_D(2) [OF r]]
  have kA: "k \<in> {..< length ps}" using Suc.prems(1) by simp
  show ?case
  proof (cases "k = c")
    case True
    then show ?thesis by auto
  next
    case False
    have "k \<noteq> length (d_doms d) - 1"
      using False Suc.prems(2) chain_root [OF t] by auto
    note s = chain_step [OF t kA this] and up = tree_D [OF t kA]
    let ?k' = "d_doms d ! k"
    have k': "?k' < length ps" "k < ?k'" "c \<in> chain (d_doms d) ?k'"
      using up(2,3) \<open>k \<noteq> length (d_doms d) - 1\<close> s(1) Suc.prems(2) False by auto
    obtain df1 dl where g: "df_getElement df (ps ! k) = (df1, dl)" by fastforce
    have g': "dl = df_list df (ps ! k)" "df_list df1 = df_list df" using df_getElement_list [of df "ps ! k"] g by auto
    let ?df = "df1(ps ! k \<mapsto> dl @ [y])"
    have upd: "df_list ?df x = df_list df x @ (if x = ps ! k then [y] else [])" for x
      using g' by (auto simp: df_list_def fun_eq_iff)
    have ne: "ps ! k \<noteq> ps ! c" using False Suc.prems(1) c nth_eq_iff_index_eq [OF flow_D(1) [OF f]] by simp
    have notc: "k \<notin> chain (d_doms d) c"
    proof
      assume "k \<in> chain (d_doms d) c"
      then have "c \<le> k" using chain_in [OF t, of c] c by (auto dest: subsetD)
      moreover have "?k' \<le> c" using chain_in [OF t, of ?k'] k'(1,3) by (auto dest: subsetD)
      ultimately show False using k'(2) by simp
    qed
    then have kc: "k \<in> chain (d_doms d) k - chain (d_doms d) c" by simp
    have step: "df_runner (Suc fuel) d y (ps ! c) (ps ! k) df = df_runner fuel d y (ps ! c) (ps ! ?k') ?df"
      using ne g g'(1) Suc.prems(3) [OF kc] getIDom_number(1) [OF r Suc.prems(1)]
      by (simp add: ptrs_push_def buffer_pointers_def DBUFFER_INIT_def)
    have len1: "length (df_list ?df (ps ! m)) < 250" if m: "m \<in> chain (d_doms d) ?k' - chain (d_doms d) c" for m
    proof -
      have "m \<noteq> k" "m < length ps" using m s(2) chain_in [OF t, of ?k'] k'(1) by auto
      then have "ps ! m \<noteq> ps ! k" using nth_eq_iff_index_eq [OF flow_D(1) [OF f]] Suc.prems(1) by simp
      then show ?thesis using upd Suc.prems(3) [of m] m s(1) by simp
    qed
    have "length ps - ?k' < fuel" using k'(1,2) Suc.prems(4) by linarith
    then obtain df' where df': "df_runner fuel d y (ps ! c) (ps ! ?k') ?df = Inr df'"
      "\<forall>m < length ps. df_list df' (ps ! m) =
         df_list ?df (ps ! m) @ (if m \<in> chain (d_doms d) ?k' - chain (d_doms d) c then [y] else [])"
      "\<forall>x. x \<notin> set ps \<longrightarrow> df_list df' x = df_list ?df x"
      using Suc.IH [OF k'(1,3) len1] by blast
    have "df_list df' (ps ! m) = df_list df (ps ! m) @ (if m \<in> chain (d_doms d) k - chain (d_doms d) c then [y] else [])"
      if m: "m < length ps" for m
      using df'(2) m upd [of "ps ! m"] nth_eq_iff_index_eq [OF flow_D(1) [OF f] m Suc.prems(1)] notc s by (cases "m = k") auto
    moreover have "df_list df' x = df_list df x" if "x \<notin> set ps" for x
      using df'(3) that upd [of x] Suc.prems(1) by auto
    ultimately show ?thesis using step df'(1) by metis
  qed
qed simp

text \<open>The dominance frontier of a block: where its dominance ends.\<close>

definition dom_frontier :: "ir_context \<Rightarrow> ptr \<Rightarrow> ptr \<Rightarrow> ptr set" where
  "dom_frontier ir e x = {y \<in> reached_from ir e. \<exists>p \<in> set (predecessor_blocks ir y).
     dominates (edges (successor_blocks ir)) e x p \<and> \<not> strictly_dominates (edges (successor_blocks ir)) e x y}"

lemma df_preds_ok:
  assumes r: "dom_result ir e ps d" and i: "i < length ps" "i \<noteq> length ps - 1" and fuel: "length ps < fuel"
  shows "set qs \<subseteq> set (predecessor_blocks ir (ps ! i)) \<Longrightarrow> (\<And>x. length (df_list df x) + length qs \<le> 250) \<Longrightarrow>
    \<exists>df'. df_preds fuel d (ps ! i) qs df = Inr df' \<and> (\<forall>x. length (df_list df' x) \<le> length (df_list df x) + length qs) \<and>
      (\<forall>x. set (df_list df' x) = set (df_list df x) \<union> {y. y = ps ! i \<and> (\<exists>q \<in> set qs.
         dominates (edges (successor_blocks ir)) e x q \<and> \<not> strictly_dominates (edges (successor_blocks ir)) e x y)})"
proof (induction qs arbitrary: df)
  case (Cons q qs)
  let ?E = "edges (successor_blocks ir)" and ?c = "d_doms d ! i"
  note f = result_D(1) [OF r] and D = result_D(3) [OF r]
  note s = dom_list_step [OF f result_D(2) [OF r] D i]
  obtain k where k: "k < length ps" "q = ps ! k" using flow_preds [OF f i(1), of q] Cons.prems(1) by auto
  have doms: "dominates ?E e (ps ! m) q \<longleftrightarrow> m \<in> chain (d_doms d) k" if "m < length ps" for m
    using D that k by (simp add: dom_numbers_def)
  have strict: "strictly_dominates ?E e (ps ! m) (ps ! i) \<longleftrightarrow> m \<in> chain (d_doms d) ?c" if "m < length ps" for m
    using s(3) that i(1) nth_eq_iff_index_eq [OF flow_D(1) [OF f]] by (auto simp: strictly_dominates_def dom_numbers_def)
  have "?c \<in> chain (d_doms d) k"
  proof -
    have "strictly_dominates ?E e (ps ! ?c) (ps ! i)" using strict [OF s(1)] by simp
    moreover have "(q, ps ! i) \<in> ?E" using flow_edge [OF f i(1)] Cons.prems(1) by auto
    ultimately have "dominates ?E e (ps ! ?c) q"
      using dominates_pred [of ?E e "ps ! ?c" "ps ! i" q] flow_D(5) [OF f k(1)] k(2) by (auto simp: strictly_dominates_def)
    then show ?thesis using doms [OF s(1)] by simp
  qed
  moreover have room: "length (df_list df x) < 250" for x using Cons.prems(2) [of x] by simp
  moreover have "length ps - k < fuel" using fuel by linarith
  ultimately obtain df1 where d1: "df_runner fuel d (ps ! i) (ps ! ?c) (ps ! k) df = Inr df1"
    "\<forall>m < length ps. df_list df1 (ps ! m) =
       df_list df (ps ! m) @ (if m \<in> chain (d_doms d) k - chain (d_doms d) ?c then [ps ! i] else [])"
    "\<forall>x. x \<notin> set ps \<longrightarrow> df_list df1 x = df_list df x"
    using df_runner_ok [OF r s(1) k(1), of df fuel "ps ! i"] by blast
  have x1: "length (df_list df1 x) \<le> length (df_list df x) + 1 \<and> set (df_list df1 x) = set (df_list df x) \<union>
      {y. y = ps ! i \<and> dominates ?E e x q \<and> \<not> strictly_dominates ?E e x y}" for x
  proof (cases "x \<in> set ps")
    case True
    then obtain m where m: "m < length ps" "x = ps ! m" by (auto simp: in_set_conv_nth)
    then show ?thesis using d1(2) doms [OF m(1)] strict [OF m(1)] by auto
  next
    case False
    have "\<not> dominates ?E e x q"
    proof
      assume "dominates ?E e x q"
      then have "(e, x) \<in> ?E\<^sup>*" by (rule dominator_reached)
      then show False using flow_index [OF f] False by (metis nth_mem)
    qed
    then show ?thesis using d1(3) False by simp
  qed
  have "length (df_list df1 x) + length qs \<le> 250" for x using x1 [of x] Cons.prems(2) [of x] by simp
  then obtain df2 where d2: "df_preds fuel d (ps ! i) qs df1 = Inr df2"
    "\<forall>x. length (df_list df2 x) \<le> length (df_list df1 x) + length qs"
    "\<forall>x. set (df_list df2 x) = set (df_list df1 x) \<union> {y. y = ps ! i \<and> (\<exists>q \<in> set qs.
       dominates ?E e x q \<and> \<not> strictly_dominates ?E e x y)}"
    using Cons.IH [of df1] Cons.prems(1) by auto
  have "length (df_list df2 x) \<le> length (df_list df x) + length (q # qs)" for x using x1 [of x] d2(2) [rule_format, of x] by simp
  moreover have "set (df_list df2 x) = set (df_list df x) \<union> {y. y = ps ! i \<and> (\<exists>q \<in> set (q # qs).
       dominates ?E e x q \<and> \<not> strictly_dominates ?E e x y)}" for x using x1 [of x] d2(3) [rule_format, of x] by auto
  moreover have "df_preds fuel d (ps ! i) (q # qs) df = Inr df2"
    using getIDom_number(1) [OF r i(1)] d1(1) d2(1) k(2) by simp
  ultimately show ?case by blast
qed simp

lemma df_blocks_ok:
  assumes r: "dom_result ir e ps d" and fuel: "length ps < fuel"
  shows "set bs \<subseteq> set ps \<Longrightarrow> (\<And>x. length (df_list df x) + (\<Sum>b\<leftarrow>bs. length (predecessor_blocks ir b)) \<le> 250) \<Longrightarrow>
    \<exists>df'. df_blocks fuel ir d bs df = Inr df' \<and>
      (\<forall>x. set (df_list df' x) = set (df_list df x) \<union> {y \<in> set bs. \<exists>q \<in> set (predecessor_blocks ir y).
         dominates (edges (successor_blocks ir)) e x q \<and> \<not> strictly_dominates (edges (successor_blocks ir)) e x y})"
proof (induction bs arbitrary: df)
  case (Cons b bs)
  let ?E = "edges (successor_blocks ir)"
  note f = result_D(1) [OF r]
  obtain i where i: "i < length ps" "b = ps ! i" using Cons.prems(1) by (auto simp: in_set_conv_nth)
  have "\<exists>df1. df_preds fuel d b (predecessor_blocks ir b) df = Inr df1 \<and>
      (\<forall>x. length (df_list df1 x) \<le> length (df_list df x) + length (predecessor_blocks ir b)) \<and>
      (\<forall>x. set (df_list df1 x) = set (df_list df x) \<union> {y. y = b \<and> (\<exists>q \<in> set (predecessor_blocks ir b).
         dominates ?E e x q \<and> \<not> strictly_dominates ?E e x y)})"
  proof (cases "i = length ps - 1")
    case True
    then have "predecessor_blocks ir b = []" using i(2) flow_D(2,6) [OF f] by simp
    then show ?thesis by simp
  next
    case False
    have "length (df_list df x) + length (predecessor_blocks ir b) \<le> 250" for x using Cons.prems(2) [of x] by simp
    then show ?thesis unfolding i(2) by (intro df_preds_ok [OF r i(1) False fuel]) auto
  qed
  then obtain df1 where d1: "df_preds fuel d b (predecessor_blocks ir b) df = Inr df1"
    "\<forall>x. length (df_list df1 x) \<le> length (df_list df x) + length (predecessor_blocks ir b)"
    "\<forall>x. set (df_list df1 x) = set (df_list df x) \<union> {y. y = b \<and> (\<exists>q \<in> set (predecessor_blocks ir b).
         dominates ?E e x q \<and> \<not> strictly_dominates ?E e x y)}" by blast
  have "length (df_list df1 x) + (\<Sum>b\<leftarrow>bs. length (predecessor_blocks ir b)) \<le> 250" for x
    using d1(2) [rule_format, of x] Cons.prems(2) [of x] by simp
  then obtain df2 where d2: "df_blocks fuel ir d bs df1 = Inr df2"
    "\<forall>x. set (df_list df2 x) = set (df_list df1 x) \<union> {y \<in> set bs. \<exists>q \<in> set (predecessor_blocks ir y).
         dominates ?E e x q \<and> \<not> strictly_dominates ?E e x y}" using Cons.IH [of df1] Cons.prems(1) by auto
  have "set (df_list df2 x) = set (df_list df x) \<union> {y \<in> set (b # bs). \<exists>q \<in> set (predecessor_blocks ir y).
         dominates ?E e x q \<and> \<not> strictly_dominates ?E e x y}" for x
    using d1(3) [rule_format, of x] d2(2) [rule_format, of x] by auto
  moreover have "df_blocks fuel ir d (b # bs) df = Inr df2"
    using flow_preds_iterator [OF f i(1)] i(2) d1(1) d2(1) by simp
  ultimately show ?case by blast
qed simp

lemma domfrontiers_ok:
  assumes r: "dom_result ir e ps d" and fuel: "length ps < fuel"
    and total: "(\<Sum>b \<in> reached_from ir e. length (predecessor_blocks ir b)) \<le> 250"
  obtains df where "domfrontiers_compute fuel ir d = Inr df"
    and "\<forall>x. set (snd (domfrontiers_get df x)) = dom_frontier ir e x"
proof -
  note f = result_D(1) [OF r]
  have ps: "set ps = reached_from ir e" "distinct ps" using f by (simp_all add: numbered_flow_def)
  then have "(\<Sum>b\<leftarrow>ps. length (predecessor_blocks ir b)) \<le> 250" using total by (simp add: sum_list_distinct_conv_sum_set)
  then have "length (df_list Map.empty x) + (\<Sum>b\<leftarrow>ps. length (predecessor_blocks ir b)) \<le> 250" for x by (simp add: df_list_def)
  from df_blocks_ok [OF r fuel subset_refl this] obtain df where df: "df_blocks fuel ir d ps Map.empty = Inr df"
    "\<forall>x. set (df_list df x) = set (df_list Map.empty x) \<union> {y \<in> set ps. \<exists>q \<in> set (predecessor_blocks ir y).
         dominates (edges (successor_blocks ir)) e x q \<and> \<not> strictly_dominates (edges (successor_blocks ir)) e x y}" by blast
  have "set (snd (domfrontiers_get df x)) = dom_frontier ir e x" for x
    using df(2) [rule_format, of x] ps(1) by (simp add: domfrontiers_get_def df_getElement_list dom_frontier_def df_list_def)
  moreover have "domfrontiers_compute fuel ir d = Inr df"
    using df(1) dom_stateD(1) [OF result_D(2) [OF r]] by (simp add: domfrontiers_compute_def)
  ultimately show thesis using that by blast
qed

section \<open>The example\<close>

lemma dfs_numeral:
  "dfs (numeral k) G x (ps, seen) = (if x \<in> seen then Some (ps, seen)
     else case dfss (pred_numeral k) G (G x) (ps, insert x seen) of None \<Rightarrow> None | Some (ps, seen) \<Rightarrow> Some (ps @ [x], seen))"
  "dfss (numeral k) G (x # xs) st = (case dfs (pred_numeral k) G x st of None \<Rightarrow> None | Some st \<Rightarrow> dfss (pred_numeral k) G xs st)"
  by (simp_all add: numeral_eq_Suc)

lemma loop_order:
  assumes "successor_blocks ir 8 = [12]" and "successor_blocks ir 12 = [16, 20]" and "successor_blocks ir 16 = [12]"
    and "successor_blocks ir 20 = []"
  shows "dfs 12 (successor_blocks ir) 8 ([], {}) = Some ([16, 20, 12, 8], {8, 12, 16, 20})"
  using assms by (auto simp: dfs_numeral)

lemma loop_block_order:
  assumes "successor_blocks ir 8 = [12]" and "successor_blocks ir 12 = [16, 20]" and "successor_blocks ir 16 = [12]"
    and "successor_blocks ir 20 = []" and "64 \<le> ir_top ir"
  shows "block_order ir 8 = [16, 20, 12, 8]"
proof -
  have "dfs (5 * ir_top ir + 1) (successor_blocks ir) 8 ([], {}) = Some ([16, 20, 12, 8], {8, 12, 16, 20})"
    by (rule dfs_mono(1) [OF loop_order [OF assms(1-4)]]) (use assms(5) in simp)
  then show ?thesis by (simp add: block_order_def)
qed

lemma loop_natural:
  assumes s: "successor_blocks ir 8 = [12]" "successor_blocks ir 12 = [16, 20]" "successor_blocks ir 16 = [12]" "successor_blocks ir 20 = []"
    and p: "predecessor_blocks ir 8 = []" "predecessor_blocks ir 12 = [8, 16]" "predecessor_blocks ir 16 = [12]" "predecessor_blocks ir 20 = [12]"
    and j: "jumps_last ir" and t: "64 \<le> ir_top ir"
  shows "natural_flow ir 8 (block_order ir 8)" and "dom_limits ir 8"
    and "(\<Sum>b \<in> reached_from ir 8. length (predecessor_blocks ir b)) \<le> 250"
proof -
  let ?E = "edges (successor_blocks ir)"
  have o: "block_order ir 8 = [16, 20, 12, 8]" by (rule loop_block_order [OF s t])
  note reach = loop_reached [OF s]
  have "(8, 16) \<in> ?E\<^sup>*" using reach by (auto simp: reached_from_def)
  moreover have "(8, 16) \<notin> (avoiding ?E 12)\<^sup>*"
  proof
    assume "(8, 16) \<in> (avoiding ?E 12)\<^sup>*"
    then show False using s(1) by (cases rule: converse_rtranclE) auto
  qed
  ultimately have dom: "dominates ?E 8 12 16" by (simp add: dominates_def)
  have "b = 16 \<and> vs = [20, 12, 8] \<or> b = 20 \<and> vs = [12, 8] \<or> b = 12 \<and> vs = [8] \<or> b = 8 \<and> vs = []"
    if "[16, 20, 12, 8] = us @ b # vs" for us vs and b :: ptr
    using that by (auto simp: Cons_eq_append_conv)
  then show "natural_flow ir 8 (block_order ir 8)"
    unfolding o natural_flow_def using j p dom by fastforce
  have "card (dom_children ir 8 b) \<le> card (reached_from ir 8)" for b
    by (rule card_mono) (use reach in \<open>auto simp: dom_children_def\<close>)
  moreover have "card (reached_from ir 8) = 4" using reach by simp
  ultimately have "card (dom_children ir 8 b) \<le> 4" for b by simp
  then have "card (dom_children ir 8 b) \<le> 16" for b by (rule order.trans) simp
  with \<open>card (reached_from ir 8) = 4\<close> show "dom_limits ir 8" by (simp add: dom_limits_def)
  show "(\<Sum>b \<in> reached_from ir 8. length (predecessor_blocks ir b)) \<le> 250" using reach p by simp
qed

lemma loop_example:
  obtains ir where "ir_program loop_program = Inr ir" and "ir_reachable ir" and "is_block ir 8" and "5 * ir_top ir < 321"
    and "natural_flow ir 8 (block_order ir 8)" and "dom_limits ir 8"
    and "(\<Sum>b \<in> reached_from ir 8. length (predecessor_blocks ir b)) \<le> 250" and "16 \<in> reached_from ir 8"
proof (rule loop_program_facts)
  fix ir
  assume 1: "ir_program loop_program = Inr ir" "ir_reachable ir"
    and s: "successor_blocks ir 8 = [12]" "successor_blocks ir 12 = [16, 20]" "successor_blocks ir 16 = [12]" "successor_blocks ir 20 = []"
    and p: "predecessor_blocks ir 8 = []" "predecessor_blocks ir 12 = [8, 16]" "predecessor_blocks ir 16 = [12]" "predecessor_blocks ir 20 = [12]"
    and b: "is_block ir 8" and t: "ir_top ir = 64" and j: "jumps_last ir"
  show thesis
    by (rule that [OF 1 b _ loop_natural [OF s p j]]) (use t loop_reached [OF s] in simp_all)
qed

section \<open>Properties\<close>

text \<open>
  C2: On the flow graph of a function whose loops are natural and whose buffers suffice, \<open>dominators_compute\<close> ends,
  gives every block but the entry its immediate dominator, and the iterator over the children of a block
  lists the blocks it immediately dominates.
\<close>
theorem dominators_compute_correct:
  assumes "ir_reachable ir" and "is_block ir e" and "natural_flow ir e (block_order ir e)" and "dom_limits ir e"
    and "5 * ir_top ir < fuel"
  shows "\<exists>d. dominators_compute fuel ir e = Inr d \<and> dominators_getIDom d e = Inr e \<and>
    (\<forall>b \<in> reached_from ir e.
       (b \<noteq> e \<longrightarrow> (\<exists>c. dominators_getIDom d b = Inr c \<and> immediate_dominator (edges (successor_blocks ir)) e c b)) \<and>
       (\<exists>it. dominator_child_begin d b = Inr it \<and> child_blocks d it = dom_children ir e b))"
proof -
  obtain L where inv: "ir_inv ir L" and c: "ir_complete ir" using reachable_inv [OF assms(1)] .
  obtain d where d: "dominators_compute fuel ir e = Inr d" and r: "dom_result ir e (block_order ir e) d"
    using dominators_compute_ok [OF inv c assms(2-5)] .
  have "\<exists>it. dominator_child_begin d b = Inr it \<and> child_blocks d it = dom_children ir e b" if "b \<in> reached_from ir e" for b
    using child_blocks_ok [OF r that] by blast
  with d getIDom_ok [OF r] show ?thesis by blast
qed

theorem dominators_compute_correct_witness:
  "\<exists>ir d c. ir_program loop_program = Inr ir \<and> dominators_compute 321 ir 8 = Inr d \<and> dominators_getIDom d 8 = Inr 8 \<and>
     dominators_getIDom d 16 = Inr c \<and> immediate_dominator (edges (successor_blocks ir)) 8 c 16"
proof -
  obtain ir where ir: "ir_program loop_program = Inr ir" "ir_reachable ir" "is_block ir 8" "5 * ir_top ir < 321"
    "natural_flow ir 8 (block_order ir 8)" "dom_limits ir 8" "16 \<in> reached_from ir 8"
    by (rule loop_example) (rule that; assumption)
  from dominators_compute_correct [OF ir(2,3,5,6,4)] obtain d where d: "dominators_compute 321 ir 8 = Inr d"
    "dominators_getIDom d 8 = Inr 8" and all: "\<forall>b \<in> reached_from ir 8.
       (b \<noteq> 8 \<longrightarrow> (\<exists>c. dominators_getIDom d b = Inr c \<and> immediate_dominator (edges (successor_blocks ir)) 8 c b)) \<and>
       (\<exists>it. dominator_child_begin d b = Inr it \<and> child_blocks d it = dom_children ir 8 b)" by blast
  from all ir(7) have "\<exists>c. dominators_getIDom d 16 = Inr c \<and> immediate_dominator (edges (successor_blocks ir)) 8 c 16" by simp
  with ir(1) d show ?thesis by blast
qed

text \<open>
  C10: \<open>domfrontiers_compute\<close> on these dominators ends, and the list it keeps for a block has exactly the blocks of
  its dominance frontier.
\<close>
theorem domfrontiers_compute_correct:
  assumes "ir_reachable ir" and "is_block ir e" and "natural_flow ir e (block_order ir e)" and "dom_limits ir e"
    and "5 * ir_top ir < fuel" and "(\<Sum>b \<in> reached_from ir e. length (predecessor_blocks ir b)) \<le> 250"
  shows "\<exists>d df. dominators_compute fuel ir e = Inr d \<and> domfrontiers_compute fuel ir d = Inr df \<and>
    (\<forall>b. set (snd (domfrontiers_get df b)) = dom_frontier ir e b)"
proof -
  obtain L where inv: "ir_inv ir L" and c: "ir_complete ir" using reachable_inv [OF assms(1)] .
  obtain d where d: "dominators_compute fuel ir e = Inr d" and r: "dom_result ir e (block_order ir e) d"
    using dominators_compute_ok [OF inv c assms(2-5)] .
  have "length (block_order ir e) < fuel" using order_length(2) [OF result_D(1) [OF r]] assms(5) by linarith
  from domfrontiers_ok [OF r this assms(6)] obtain df where "domfrontiers_compute fuel ir d = Inr df"
    "\<forall>b. set (snd (domfrontiers_get df b)) = dom_frontier ir e b" .
  with d show ?thesis by (intro exI conjI)
qed

theorem domfrontiers_compute_correct_witness:
  "\<exists>ir d df. ir_program loop_program = Inr ir \<and> dominators_compute 321 ir 8 = Inr d \<and> domfrontiers_compute 321 ir d = Inr df \<and>
     set (snd (domfrontiers_get df 16)) = dom_frontier ir 8 16"
proof -
  obtain ir where ir: "ir_program loop_program = Inr ir" "ir_reachable ir" "is_block ir 8" "5 * ir_top ir < 321"
    "natural_flow ir 8 (block_order ir 8)" "dom_limits ir 8" "(\<Sum>b \<in> reached_from ir 8. length (predecessor_blocks ir b)) \<le> 250"
    by (rule loop_example) (rule that; assumption)
  from domfrontiers_compute_correct [OF ir(2,3,5,6,4,7)] ir(1) show ?thesis by blast
qed

section \<open>An unhandled predecessor\<close>

text \<open>The same loop with the jump back made before the jump into it, so that it is the first use of the head.\<close>

definition back_first_program :: "ir_call list" where
  "back_first_program = [New_function \<lparr>rmem = [], rsize = 0\<rparr>, New_block 4, New_block 4, New_block 4, New_block 4, Constant 1,
     Jump 12, Insert 16 28, Jump 12, Insert 8 36, Jump_cond 16 20 24, Insert 12 44]"

lemma back_first_checks: "check_program back_first_program (\<lambda>ir.
    map (successor_blocks ir) [8, 12, 16, 20] = [[12], [16, 20], [12], []] \<and>
    map (predecessor_blocks ir) [8, 12] = [[], [16, 8]] \<and> map (is_block ir) [8, 12, 16, 20] = [True, True, True, True])"
  by (simp add: back_first_program_def ir_ops list_ops list_walk_pos successor_blocks_def predecessor_blocks_def use_list_def
      user_of_def parent_of_def operands_def numeral_2_eq_2 numeral_3_eq_3 cong: bindE_weak_cong)

lemma climb_stuck: "a < length doms \<Longrightarrow> doms ! a = a \<Longrightarrow> a < b \<Longrightarrow> climb fuel doms a b = Inl OutOfFuel"
  by (induction fuel) (simp_all add: read_dom_def)

lemma intersect_stuck:
  assumes "r < length doms" and "doms ! r = r" and "b < r" and "doms ! b = SIZE_MAX" and "r < SIZE_MAX"
  shows "intersect fuel doms r b = Inl OutOfFuel"
proof (cases fuel)
  case (Suc f)
  show ?thesis
  proof (cases f)
    case f: (Suc g)
    have "climb (Suc f) doms b r = Inr SIZE_MAX" using assms f by (simp add: read_dom_def)
    moreover have "climb (Suc f) doms r b = Inr r" using assms by simp
    moreover have "intersect f doms r SIZE_MAX = Inl OutOfFuel"
      using f assms(5) climb_stuck [OF assms(1,2,5), of "Suc g"] by (simp del: climb.simps)
    ultimately show ?thesis using Suc assms(3) by (simp del: climb.simps)
  qed (use Suc assms in \<open>simp add: read_dom_def\<close>)
qed simp

text \<open>
  C40: The predecessor listed first is not checked for having been handled: on a loop whose back jump was made first,
  \<open>intersect\<close> runs from the root to the value of an unhandled entry and never returns, however many steps it is given.
\<close>
theorem dominators_compute_stuck:
  "\<exists>ir. ir_program back_first_program = Inr ir \<and> (\<forall>n. dominators_compute (n + 12) ir 8 = Inl OutOfFuel)"
proof -
  obtain ir where ir: "ir_program back_first_program = Inr ir" "ir_reachable ir"
    and f: "map (successor_blocks ir) [8, 12, 16, 20] = [[12], [16, 20], [12], []]"
      "map (predecessor_blocks ir) [8, 12] = [[], [16, 8]]" "map (is_block ir) [8, 12, 16, 20] = [True, True, True, True]"
    using check_programD [OF back_first_checks] by (elim exE conjE) (rule that; assumption)
  obtain L where inv: "ir_inv ir L" and c: "ir_complete ir" using reachable_inv [OF ir(2)] .
  have s: "successor_blocks ir 8 = [12]" "successor_blocks ir 12 = [16, 20]" "successor_blocks ir 16 = [12]" "successor_blocks ir 20 = []"
    and b: "is_block ir 8" "is_block ir 12" using f by simp_all
  have p: "block_predecessors (ir_top ir) ir 8 = Inr []" "block_predecessors (ir_top ir) ir 12 = Inr [16, 8]"
    using block_predecessors_ok [OF inv b(1)] block_predecessors_ok [OF inv b(2)] f(2) by simp_all
  let ?ps = "[16, 20, 12, 8] :: ptr list"
  have "dominators_compute fuel ir 8 = Inl OutOfFuel" if fuel: "12 \<le> fuel" for fuel
  proof -
    have "dfs fuel (successor_blocks ir) 8 ([], {}) = Some (?ps, {8, 12, 16, 20})" using dfs_mono(1) [OF loop_order [OF s] fuel] .
    from dom_visit_dfs(1) [OF this successors_are_blocks [OF inv c]] b(1)
    have "dom_visit fuel ir 8 (numbers_of [] {}, []) = Inr (numbers_of ?ps {8, 12, 16, 20}, ?ps)"
      by (simp add: buffer_pointers_def DBUFFER_INIT_def)
    moreover have "numbers_of [] {} = Map.empty" by (simp add: numbers_of_def fun_eq_iff)
    ultimately have visit: "dom_visit fuel ir 8 (Map.empty, []) = Inr (numbers_of ?ps {8, 12, 16, 20}, ?ps)" by simp
    let ?d = "\<lparr>d_nodeToNum = numbers_of ?ps {8, 12, 16, 20}, d_postorder = ?ps, d_doms = [SIZE_MAX, SIZE_MAX, SIZE_MAX, 3], d_childs = []\<rparr>"
    have M: "3 < SIZE_MAX" by (simp add: SIZE_MAX_def)
    have nums: "dominators_getNumber ?d 16 = Inr 0" "dominators_getNumber ?d 8 = Inr 3"
      by (simp_all add: dominators_getNumber_def numbers_of_def)
    have step3: "dom_step fuel ir 3 (?d, False) = Inr (?d, False)" using p(1) by (simp add: dom_step_def read_dom_def)
    have step2: "dom_step fuel ir 2 (?d, False) = Inl OutOfFuel"
      using p(2) nums M intersect_stuck [of 3 "d_doms ?d" 0 fuel] by (simp add: dom_step_def read_dom_def)
    have "length (d_postorder ?d) = 4" by simp
    then have order: "rev [0 ..< length (d_postorder ?d)] = [3, 2, 1, 0]" by (simp only:) (simp add: upt_rec)
    have "dom_pass fuel ir (rev [0 ..< length (d_postorder ?d)]) (?d, False) = Inl OutOfFuel"
      unfolding order by (simp only: dom_pass.simps step3 step2 bindE_simps)
    moreover obtain n where "fuel = Suc n" using fuel by (cases fuel) simp_all
    ultimately have "dom_loop fuel fuel ir ?d = Inl OutOfFuel" by (simp only: dom_loop.simps bindE_simps)
    moreover have "(replicate 4 SIZE_MAX)[3 := 3] = [SIZE_MAX, SIZE_MAX, SIZE_MAX, 3]" by (simp add: eval_nat_numeral)
    ultimately show ?thesis using visit by (simp add: dominators_compute_def numeral_3_eq_3)
  qed
  then have "\<forall>n. dominators_compute (n + 12) ir 8 = Inl OutOfFuel" by simp
  with ir(1) show ?thesis by blast
qed

end
