(* ===== verification/Ssa_Phis.thy ===== *)
theory Ssa_Phis
  imports Ssa Ir_View Dominators_Correct
begin

text \<open>
  The first two steps of \<open>ssa_convert\<close>: the analysis lists the loads and assignments of every block, and the
  phis come to stand exactly in the iterated dominance frontiers of the assignments, but for the variable
  found first, which gets them in the frontiers of its assignments only.
\<close>

section \<open>Loads and assignments\<close>

definition inst_is :: "ir_context \<Rightarrow> instruction_type \<Rightarrow> ptr \<Rightarrow> bool" where
  "inst_is ir t i \<longleftrightarrow> map_option i_type (ir_insts ir i) = Some t"

definition is_load_assign :: "ir_context \<Rightarrow> ptr \<Rightarrow> bool" where
  "is_load_assign ir i \<longleftrightarrow> inst_is ir INST_LOAD_VAR i \<or> inst_is ir INST_ASSIGN_VAR i"

definition inst_reg :: "ir_context \<Rightarrow> ptr \<Rightarrow> reg" where
  "inst_reg ir i = (case ir_insts ir i of None \<Rightarrow> 0 | Some inst \<Rightarrow> reg_of inst)"

text \<open>The loads and assignments of a block, its registers, and its last assignment to a register.\<close>

definition load_assigns :: "ir_context \<Rightarrow> ptr \<Rightarrow> ptr list" where
  "load_assigns ir b = filter (is_load_assign ir) (block_instructions ir b)"

definition block_regs :: "ir_context \<Rightarrow> ptr \<Rightarrow> reg set" where
  "block_regs ir b = inst_reg ir ` set (load_assigns ir b)"

definition last_assign_in :: "ir_context \<Rightarrow> ptr list \<Rightarrow> reg \<Rightarrow> ptr option" where
  "last_assign_in ir xs r = (case rev (filter (\<lambda>i. inst_is ir INST_ASSIGN_VAR i \<and> inst_reg ir i = r) xs) of [] \<Rightarrow> None | a # _ \<Rightarrow> Some a)"

definition last_assign :: "ir_context \<Rightarrow> ptr \<Rightarrow> reg \<Rightarrow> ptr option" where
  "last_assign ir b r = last_assign_in ir (block_instructions ir b) r"

lemma last_assign_in_snoc:
  "last_assign_in ir (xs @ [i]) r = (if inst_is ir INST_ASSIGN_VAR i \<and> inst_reg ir i = r then Some i else last_assign_in ir xs r)"
  by (simp add: last_assign_in_def)

lemma last_assign_in_None: "r \<notin> inst_reg ir ` set (filter (is_load_assign ir) xs) \<Longrightarrow> last_assign_in ir xs r = None"
proof -
  assume "r \<notin> inst_reg ir ` set (filter (is_load_assign ir) xs)"
  then have "filter (\<lambda>i. inst_is ir INST_ASSIGN_VAR i \<and> inst_reg ir i = r) xs = []" by (auto simp: filter_empty_conv is_load_assign_def)
  then show ?thesis by (simp add: last_assign_in_def)
qed

lemma last_assign_in_Some:
  "last_assign_in ir xs r = Some a \<Longrightarrow> a \<in> set xs \<and> inst_is ir INST_ASSIGN_VAR a \<and> inst_reg ir a = r"
proof -
  let ?as = "filter (\<lambda>i. inst_is ir INST_ASSIGN_VAR i \<and> inst_reg ir i = r) xs"
  assume "last_assign_in ir xs r = Some a"
  then obtain bs where "rev ?as = a # bs" by (auto simp: last_assign_in_def simp del: rev_eq_Cons_iff split: list.splits)
  then have "a \<in> set (rev ?as)" by (metis list.set_intros(1))
  then show ?thesis by simp
qed

section \<open>Step 1\<close>

definition described :: "ir_context \<Rightarrow> ptr list \<Rightarrow> block_info \<Rightarrow> bool" where
  "described ir xs bInfo \<longleftrightarrow> bi_loadAssigns bInfo = filter (is_load_assign ir) xs \<and> distinct (bi_regList bInfo) \<and>
     set (bi_regList bInfo) = inst_reg ir ` set (filter (is_load_assign ir) xs) \<and>
     (\<forall>r. bi_regMap bInfo r = (if r \<in> set (bi_regList bInfo) then Some (last_assign_in ir xs r) else None)) \<and>
     bi_phiMap bInfo = Map.empty \<and> bi_phiList bInfo = [] \<and> \<not> bi_isRenamed bInfo"

lemma described_init: "described ir [] block_info_init"
  by (simp add: described_def block_info_init_def)

lemma two_buffer_pointers: "2 * buffer_pointers = 250"
  by (simp add: buffer_pointers_def DBUFFER_INIT_def)

lemma ptrs_push_buffer: "length xs < 250 \<Longrightarrow> ptrs_push buffer_pointers xs x = Inr (xs @ [x])"
  by (simp add: ptrs_push_def two_buffer_pointers)

lemma getOrCreateRegInfo_ok:
  assumes d: "described ir xs bInfo" and n: "length (filter (is_load_assign ir) xs) < 250"
  obtains rl where "getOrCreateRegInfo bInfo r = Inr (bInfo\<lparr>bi_regMap := (\<lambda>r'. if r' \<in> set rl then Some (last_assign_in ir xs r') else None), bi_regList := rl\<rparr>)"
    and "distinct rl" and "set rl = insert r (set (bi_regList bInfo))"
proof -
  note D = d [unfolded described_def]
  have len: "length (bi_regList bInfo) < 250"
  proof -
    have "length (bi_regList bInfo) = card (inst_reg ir ` set (filter (is_load_assign ir) xs))" using D distinct_card by metis
    also have "\<dots> \<le> card (set (filter (is_load_assign ir) xs))" by (rule card_image_le) simp
    also have "\<dots> \<le> length (filter (is_load_assign ir) xs)" by (rule card_length)
    finally show ?thesis using n by simp
  qed
  have map: "bi_regMap bInfo = (\<lambda>r'. if r' \<in> set (bi_regList bInfo) then Some (last_assign_in ir xs r') else None)" using D by auto
  show thesis
  proof (cases "r \<in> set (bi_regList bInfo)")
    case True
    have "getOrCreateRegInfo bInfo r = Inr bInfo" using True map by (simp add: getOrCreateRegInfo_def)
    moreover have "bInfo = bInfo\<lparr>bi_regMap := (\<lambda>r'. if r' \<in> set (bi_regList bInfo) then Some (last_assign_in ir xs r') else None),
        bi_regList := bi_regList bInfo\<rparr>" using map by simp
    ultimately show thesis using True D by (intro that [of "bi_regList bInfo"]) auto
  next
    case False
    have "last_assign_in ir xs r = None" using False D by (intro last_assign_in_None) simp
    then have "(bi_regMap bInfo)(r \<mapsto> None) = (\<lambda>r'. if r' \<in> set (bi_regList bInfo @ [r]) then Some (last_assign_in ir xs r') else None)"
      using map by auto
    then show thesis using False D map ptrs_push_buffer [OF len, of r]
      by (intro that [of "bi_regList bInfo @ [r]"]) (simp_all add: getOrCreateRegInfo_def)
  qed
qed

lemma analyze_insts_ok:
  assumes "described ir xs bInfo" and "\<forall>i \<in> set ys. ir_insts ir i \<noteq> None" and "length (filter (is_load_assign ir) (xs @ ys)) \<le> 250"
  shows "\<exists>bInfo'. analyze_insts ir (map (\<lambda>i. i + 1) ys) bInfo = Inr bInfo' \<and> described ir (xs @ ys) bInfo'"
  using assms
proof (induction ys arbitrary: xs bInfo)
  case (Cons i ys)
  obtain inst where i: "ir_insts ir i = Some inst" using Cons.prems(2) by auto
  have "\<exists>bInfo'. analyze_insts ir (map (\<lambda>i. i + 1) (i # ys)) bInfo = analyze_insts ir (map (\<lambda>i. i + 1) ys) bInfo' \<and>
      described ir (xs @ [i]) bInfo'"
  proof (cases "is_load_assign ir i")
    case False
    then have "described ir (xs @ [i]) bInfo" "i_type inst \<noteq> INST_LOAD_VAR" "i_type inst \<noteq> INST_ASSIGN_VAR"
      using Cons.prems(1) i by (auto simp: described_def last_assign_in_snoc is_load_assign_def inst_is_def)
    then show ?thesis using i by (intro exI [of _ bInfo]) (simp add: get_inst_def)
  next
    case True
    have n: "length (filter (is_load_assign ir) xs) < 250" using Cons.prems(3) True by simp
    obtain rl where rl: "getOrCreateRegInfo bInfo (reg_of inst) = Inr (bInfo\<lparr>bi_regMap := (\<lambda>r'. if r' \<in> set rl then Some (last_assign_in ir xs r') else None), bi_regList := rl\<rparr>)"
      "distinct rl" "set rl = insert (reg_of inst) (set (bi_regList bInfo))" using getOrCreateRegInfo_ok [OF Cons.prems(1) n] .
    have r: "inst_reg ir i = reg_of inst" using i by (simp add: inst_reg_def)
    have push: "ptrs_push buffer_pointers (bi_loadAssigns bInfo) i = Inr (bi_loadAssigns bInfo @ [i])"
      using Cons.prems(1) n by (simp add: described_def ptrs_push_buffer)
    have regs: "set rl = inst_reg ir ` set (filter (is_load_assign ir) (xs @ [i]))" using rl(3) True r Cons.prems(1) by (simp add: described_def)
    let ?M = "\<lambda>r'. if r' \<in> set rl then Some (last_assign_in ir xs r') else None"
    consider "i_type inst = INST_LOAD_VAR" | "i_type inst = INST_ASSIGN_VAR" using True i by (auto simp: is_load_assign_def inst_is_def)
    then show ?thesis
    proof cases
      case 1
      then have "\<not> inst_is ir INST_ASSIGN_VAR i" using i by (simp add: inst_is_def)
      then show ?thesis using 1 i rl push regs True Cons.prems(1)
        by (intro exI [of _ "bInfo\<lparr>bi_regMap := ?M, bi_regList := rl, bi_loadAssigns := bi_loadAssigns bInfo @ [i]\<rparr>"])
          (simp add: get_inst_def described_def last_assign_in_snoc)
    next
      case 2
      then have "inst_is ir INST_ASSIGN_VAR i" using i by (simp add: inst_is_def)
      then show ?thesis using 2 i r rl push regs True Cons.prems(1)
        by (intro exI [of _ "bInfo\<lparr>bi_regList := rl, bi_regMap := ?M(reg_of inst \<mapsto> Some i), bi_loadAssigns := bi_loadAssigns bInfo @ [i]\<rparr>"])
          (simp add: get_inst_def described_def last_assign_in_snoc)
    qed
  qed
  then obtain bInfo' where b: "analyze_insts ir (map (\<lambda>i. i + 1) (i # ys)) bInfo = analyze_insts ir (map (\<lambda>i. i + 1) ys) bInfo'"
    "described ir (xs @ [i]) bInfo'" by blast
  show ?case using Cons.IH [OF b(2)] Cons.prems(2,3) b(1) by simp
qed simp

text \<open>The registers of one block join those of the blocks before.\<close>

definition add_assign :: "ptr option \<Rightarrow> reg_info option \<Rightarrow> reg_info" where
  "add_assign a info = (let x = (case info of None \<Rightarrow> \<lparr>ri_assigns = [], ri_valueStack = []\<rparr> | Some x \<Rightarrow> x) in
     case a of None \<Rightarrow> x | Some a \<Rightarrow> x\<lparr>ri_assigns := ri_assigns x @ [a]\<rparr>)"

lemma register_regs_ok:
  assumes "distinct rs" and "distinct vlist" and "\<And>r. vars r \<noteq> None \<longleftrightarrow> r \<in> set vlist" and "\<And>r. r \<in> set rs \<Longrightarrow> bi_regMap bInfo r = Some (la r)"
    and "card (set vlist \<union> set rs) \<le> 250" and "\<And>r x. r \<in> set rs \<Longrightarrow> vars r = Some x \<Longrightarrow> length (ri_assigns x) < 250"
  shows "\<exists>vlist'. register_regs bInfo rs (vars, vlist) =
      Inr (\<lambda>r. if r \<in> set rs then Some (add_assign (la r) (vars r)) else vars r, vlist') \<and>
    distinct vlist' \<and> set vlist' = set vlist \<union> set rs"
  using assms
proof (induction rs arbitrary: vars vlist)
  case (Cons r rs)
  let ?vars = "vars(r \<mapsto> add_assign (la r) (vars r))" and ?vlist = "if r \<in> set vlist then vlist else vlist @ [r]"
  have len: "r \<notin> set vlist \<Longrightarrow> length vlist < 250"
  proof -
    assume r: "r \<notin> set vlist"
    have "card (insert r (set vlist)) \<le> card (set vlist \<union> set (r # rs))" by (rule card_mono) auto
    then show ?thesis using r Cons.prems(2,5) by (simp add: distinct_card)
  qed
  have step: "register_reg bInfo r (vars, vlist) = Inr (?vars, ?vlist)"
  proof (cases "vars r")
    case None
    then have "r \<notin> set vlist" using Cons.prems(3) by blast
    then show ?thesis using None Cons.prems(4) [of r] ptrs_push_buffer [OF len, of r]
      by (auto simp: register_reg_def add_assign_def ptrs_push_buffer split: option.split)
  next
    case (Some x)
    then have "r \<in> set vlist" "length (ri_assigns x) < 250" using Cons.prems(3,6) by auto
    then show ?thesis using Some Cons.prems(4) [of r]
      by (auto simp: register_reg_def add_assign_def ptrs_push_buffer map_upd_triv split: option.split)
  qed
  have "\<exists>vlist'. register_regs bInfo rs (?vars, ?vlist) =
      Inr (\<lambda>r'. if r' \<in> set rs then Some (add_assign (la r') (?vars r')) else ?vars r', vlist') \<and>
    distinct vlist' \<and> set vlist' = set ?vlist \<union> set rs"
  proof (rule Cons.IH)
    show "distinct rs" "distinct ?vlist" using Cons.prems(1,2) by auto
    show "\<And>r'. r' \<in> set rs \<Longrightarrow> bi_regMap bInfo r' = Some (la r')" using Cons.prems(4) by simp
    show "card (set ?vlist \<union> set rs) \<le> 250" using Cons.prems(5) by (auto simp: insert_absorb)
    show "\<And>r'. ?vars r' \<noteq> None \<longleftrightarrow> r' \<in> set ?vlist" using Cons.prems(3) by auto
    show "\<And>r' x. r' \<in> set rs \<Longrightarrow> ?vars r' = Some x \<Longrightarrow> length (ri_assigns x) < 250" using Cons.prems(1,6) by (auto split: if_splits)
  qed
  then obtain vlist' where v: "register_regs bInfo rs (?vars, ?vlist) =
      Inr (\<lambda>r'. if r' \<in> set rs then Some (add_assign (la r') (?vars r')) else ?vars r', vlist')"
    "distinct vlist'" "set vlist' = set ?vlist \<union> set rs" by blast
  have "(\<lambda>r'. if r' \<in> set rs then Some (add_assign (la r') (?vars r')) else ?vars r') =
      (\<lambda>r'. if r' \<in> set (r # rs) then Some (add_assign (la r') (vars r')) else vars r')" using Cons.prems(1) by auto
  with v step show ?case by auto
qed simp

definition block_assigns :: "ir_context \<Rightarrow> ptr list \<Rightarrow> reg \<Rightarrow> ptr list" where
  "block_assigns ir bs r = concat (map (\<lambda>b. case last_assign ir b r of None \<Rightarrow> [] | Some a \<Rightarrow> [a]) bs)"

definition found_vars :: "ir_context \<Rightarrow> ptr list \<Rightarrow> reg \<Rightarrow> reg_info option" where
  "found_vars ir bs r = (if r \<in> (\<Union>b \<in> set bs. block_regs ir b)
     then Some \<lparr>ri_assigns = block_assigns ir bs r, ri_valueStack = []\<rparr> else None)"

lemma block_assigns_length: "length (block_assigns ir bs r) \<le> length bs"
  by (induction bs) (auto simp: block_assigns_def split: option.split)

text \<open>The limits of the buffers.\<close>

definition ssa_limits :: "ir_context \<Rightarrow> ptr list \<Rightarrow> bool" where
  "ssa_limits ir bs \<longleftrightarrow> length bs \<le> 125 \<and> (\<forall>b \<in> set bs. length (load_assigns ir b) \<le> 250) \<and>
     card (\<Union>b \<in> set bs. block_regs ir b) \<le> 250"

lemma last_assign_outside: "r \<notin> block_regs ir b \<Longrightarrow> last_assign ir b r = None"
  by (simp add: last_assign_def last_assign_in_None block_regs_def load_assigns_def)

lemma found_vars_snoc:
  "(if r \<in> block_regs ir b then Some (add_assign (last_assign ir b r) (found_vars ir bs r)) else found_vars ir bs r) = found_vars ir (bs @ [b]) r"
proof (cases "r \<in> block_regs ir b")
  case True
  show ?thesis
  proof (cases "r \<in> (\<Union>b \<in> set bs. block_regs ir b)")
    case False
    then have "block_assigns ir bs r = []" using last_assign_outside by (auto simp: block_assigns_def)
    with True False show ?thesis by (auto simp: found_vars_def add_assign_def block_assigns_def split: option.split)
  qed (use True in \<open>auto simp: found_vars_def add_assign_def block_assigns_def split: option.split\<close>)
qed (use last_assign_outside in \<open>auto simp: found_vars_def block_assigns_def\<close>)

lemma analyze_blocks_ok:
  assumes g: "ir_good ir" and "\<forall>b \<in> set bs. is_block ir b" and "ssa_limits ir (as @ bs)" and "length infos = length as"
    and "\<forall>k < length as. described ir (block_instructions ir (as ! k)) (infos ! k)"
    and "distinct vlist" and "set vlist = (\<Union>b \<in> set as. block_regs ir b)"
  shows "\<exists>infos' vlist'. analyze_blocks ir bs infos (found_vars ir as, vlist) = Inr (infos', found_vars ir (as @ bs), vlist') \<and>
    length infos' = length (as @ bs) \<and> (\<forall>k < length (as @ bs). described ir (block_instructions ir ((as @ bs) ! k)) (infos' ! k)) \<and>
    distinct vlist' \<and> set vlist' = (\<Union>b \<in> set (as @ bs). block_regs ir b)"
  using assms(2-)
proof (induction bs arbitrary: as infos vlist)
  case (Cons b bs)
  note lim = Cons.prems(2) [unfolded ssa_limits_def]
  have b: "is_block ir b" using Cons.prems(1) by simp
  note bi = block_instructionsD [OF g b]
  have "length (filter (is_load_assign ir) ([] @ block_instructions ir b)) \<le> 250" using lim by (simp add: load_assigns_def)
  moreover have "\<forall>i \<in> set (block_instructions ir b). ir_insts ir i \<noteq> None" using bi(2) by blast
  ultimately obtain bInfo where a: "analyze_insts ir (map (\<lambda>i. i + 1) (block_instructions ir b)) block_info_init = Inr bInfo"
    and d: "described ir (block_instructions ir b) bInfo" using analyze_insts_ok [OF described_init] by (metis append_Nil)
  note D = d [unfolded described_def]
  have regs: "set (bi_regList bInfo) = block_regs ir b" using D by (simp add: block_regs_def load_assigns_def)
  have "\<exists>vlist'. register_regs bInfo (bi_regList bInfo) (found_vars ir as, vlist) =
      Inr (\<lambda>r. if r \<in> set (bi_regList bInfo) then Some (add_assign (last_assign ir b r) (found_vars ir as r)) else found_vars ir as r, vlist') \<and>
    distinct vlist' \<and> set vlist' = set vlist \<union> set (bi_regList bInfo)"
  proof (rule register_regs_ok)
    show "distinct (bi_regList bInfo)" "distinct vlist" using D Cons.prems(5) by simp_all
    show "found_vars ir as r \<noteq> None \<longleftrightarrow> r \<in> set vlist" for r using Cons.prems(6) by (simp add: found_vars_def)
    show "bi_regMap bInfo r = Some (last_assign ir b r)" if "r \<in> set (bi_regList bInfo)" for r using D that by (simp add: last_assign_def)
    have "card (set vlist \<union> set (bi_regList bInfo)) \<le> card (\<Union>b \<in> set (as @ b # bs). block_regs ir b)"
      unfolding Cons.prems(6) regs by (rule card_mono) (auto simp: block_regs_def)
    then show "card (set vlist \<union> set (bi_regList bInfo)) \<le> 250" using lim by linarith
    show "length (ri_assigns x) < 250" if "found_vars ir as r = Some x" for r x
      using that block_assigns_length [of ir as r] lim by (auto simp: found_vars_def split: if_splits)
  qed
  then obtain vlist' where r: "register_regs bInfo (bi_regList bInfo) (found_vars ir as, vlist) = Inr (found_vars ir (as @ [b]), vlist')"
    "distinct vlist'" "set vlist' = set vlist \<union> block_regs ir b"
    using found_vars_snoc [of _ ir b as] regs by auto
  have "\<exists>infos' vlist''. analyze_blocks ir bs (infos @ [bInfo]) (found_vars ir (as @ [b]), vlist') = Inr (infos', found_vars ir ((as @ [b]) @ bs), vlist'') \<and>
    length infos' = length ((as @ [b]) @ bs) \<and> (\<forall>k < length ((as @ [b]) @ bs). described ir (block_instructions ir (((as @ [b]) @ bs) ! k)) (infos' ! k)) \<and>
    distinct vlist'' \<and> set vlist'' = (\<Union>b \<in> set ((as @ [b]) @ bs). block_regs ir b)"
    by (rule Cons.IH) (use Cons.prems d r in \<open>auto simp: nth_append less_Suc_eq\<close>)
  then show ?case using bi(3) a r(1) by simp
qed simp
section \<open>Step 2: one phi\<close>

text \<open>
  \<open>placed\<close>: what the second step has made of a context and of the infos of the blocks \<open>ps\<close>. There are new phis,
  at the top of their blocks, without operands; everything else is as before.
\<close>

definition phis_ok :: "ir_context \<Rightarrow> ir_context \<Rightarrow> ptr \<Rightarrow> block_info \<Rightarrow> block_info \<Rightarrow> bool" where
  "phis_ok ir0 ir b info0 info \<longleftrightarrow>
     bi_loadAssigns info = bi_loadAssigns info0 \<and> bi_isRenamed info = bi_isRenamed info0 \<and>
     distinct (bi_phiList info) \<and> (\<forall>r. r \<in> set (bi_phiList info) \<longleftrightarrow> bi_phiMap info r \<noteq> None) \<and>
     block_instructions ir b = rev (map (\<lambda>r. the (bi_phiMap info r)) (bi_phiList info)) @ block_instructions ir0 b \<and>
     (\<forall>r p. bi_phiMap info r = Some p \<longrightarrow> ir_insts ir0 p = None \<and> operands ir p = [] \<and> inst_is ir INST_PHI p)"

definition placed :: "ir_context \<Rightarrow> ptr list \<Rightarrow> block_info list \<Rightarrow> ir_context \<Rightarrow> block_info list \<Rightarrow> bool" where
  "placed ir0 ps infos0 ir infos \<longleftrightarrow> ir_good ir \<and> ir_blocks ir = ir_blocks ir0 \<and> ir_functions ir = ir_functions ir0 \<and>
     (\<forall>v. is_value ir0 v \<longrightarrow> is_value ir v) \<and>
     (\<forall>i. ir_insts ir0 i \<noteq> None \<longrightarrow> ir_insts ir i = ir_insts ir0 i \<and> operands ir i = operands ir0 i) \<and>
     length infos = length ps \<and> (\<forall>k < length ps. phis_ok ir0 ir (ps ! k) (infos0 ! k) (infos ! k))"

lemma placedD:
  assumes "placed ir0 ps infos0 ir infos"
  shows "ir_good ir" and "ir_blocks ir = ir_blocks ir0" and "ir_functions ir = ir_functions ir0" and "is_value ir0 v \<Longrightarrow> is_value ir v"
    and "ir_insts ir0 i \<noteq> None \<Longrightarrow> ir_insts ir i = ir_insts ir0 i \<and> operands ir i = operands ir0 i" and "length infos = length ps"
    and "k < length ps \<Longrightarrow> phis_ok ir0 ir (ps ! k) (infos0 ! k) (infos ! k)" and "is_block ir b = is_block ir0 b"
  using assms unfolding placed_def by (auto simp: is_block_def)

lemma phi_is_value:
  assumes "placed ir0 ps infos0 ir infos" and "k < length ps" and "bi_phiMap (infos ! k) r = Some p"
  shows "is_value ir p"
proof -
  have "inst_is ir INST_PHI p" using placedD(7) [OF assms(1,2)] assms(3) by (simp add: phis_ok_def)
  then have "ir_insts ir p \<noteq> None" by (auto simp: inst_is_def)
  with inst_value [OF placedD(1) [OF assms(1)]] show ?thesis .
qed

lemma getOrCreatePhi_ok:
  assumes p: "placed ir0 ps infos0 ir infos" and k: "k < length ps" and blk: "\<forall>b \<in> set ps. is_block ir0 b" and d: "distinct ps"
    and n: "bi_phiMap (infos ! k) r = None \<Longrightarrow> length (bi_phiList (infos ! k)) < 250"
  obtains ir' info' phi where "block_info_getOrCreatePhi ir (infos ! k) (ps ! k) r t = Inr (ir', info', phi)"
    and "placed ir0 ps infos0 ir' (infos[k := info'])" and "bi_phiMap info' r = Some phi"
    and "\<And>r'. r' \<noteq> r \<Longrightarrow> bi_phiMap info' r' = bi_phiMap (infos ! k) r'" and "\<And>v. is_value ir v \<Longrightarrow> is_value ir' v"
proof (cases "bi_phiMap (infos ! k) r")
  case (Some phi)
  have "infos[k := infos ! k] = infos" by simp
  with Some p show thesis by (intro that [of ir "infos ! k" phi]) (simp_all add: block_info_getOrCreatePhi_def)
next
  case None
  note P = placedD [OF p]
  have b': "is_block ir (ps ! j)" if "j < length ps" for j using P(8) blk that by simp
  obtain ir1 ir2 q inst where s: "inst_new_phi ir t 0 = Inr (ir1, q)" "block_insertTop ir1 (ps ! k) q = Inr ir2" "ir_good ir2"
    "ir_insts ir q = None" "ir_insts ir2 = (ir_insts ir)(q \<mapsto> inst)" "i_type inst = INST_PHI" "i_parent inst = ps ! k"
    "operands ir2 q = []" "\<And>j. j \<noteq> q \<Longrightarrow> operands ir2 j = operands ir j" "ir_blocks ir2 = ir_blocks ir"
    "ir_functions ir2 = ir_functions ir" "\<And>v. is_value ir2 v \<longleftrightarrow> is_value ir v \<or> v = q"
    "\<And>c. is_block ir c \<Longrightarrow> block_instructions ir2 c = (if c = ps ! k then q # block_instructions ir c else block_instructions ir c)"
    by (rule new_phi_view [OF P(1) b' [OF k]]) (rule that; assumption)
  let ?info = "(infos ! k)\<lparr>bi_phiMap := (bi_phiMap (infos ! k))(r \<mapsto> q), bi_phiList := bi_phiList (infos ! k) @ [r]\<rparr>"
  have q0: "ir_insts ir0 q = None" using P(5) s(4) by metis
  have new: "phis_ok ir0 ir2 (ps ! k) (infos0 ! k) ?info"
  proof -
    note o = P(7) [OF k, unfolded phis_ok_def]
    have "block_instructions ir2 (ps ! k) = q # block_instructions ir (ps ! k)" using s(13) [OF b' [OF k]] by simp
    moreover have "map (\<lambda>r'. the (bi_phiMap ?info r')) (bi_phiList ?info) = map (\<lambda>r'. the (bi_phiMap (infos ! k) r')) (bi_phiList (infos ! k)) @ [q]"
      using o None by (auto intro!: map_cong)
    moreover have "inst_is ir2 INST_PHI p' \<and> operands ir2 p' = []" if "bi_phiMap (infos ! k) r' = Some p'" for r' p'
    proof -
      have "operands ir p' = []" "inst_is ir INST_PHI p'" using o that by blast+
      moreover from this have "p' \<noteq> q" using s(4) by (auto simp: inst_is_def)
      ultimately show ?thesis using s(5,9) by (simp add: inst_is_def)
    qed
    moreover have "inst_is ir2 INST_PHI q" using s(5,6) by (simp add: inst_is_def)
    ultimately show ?thesis using o None q0 s(8) unfolding phis_ok_def by auto
  qed
  have old: "phis_ok ir0 ir2 (ps ! j) (infos0 ! j) (infos ! j)" if j: "j < length ps" "j \<noteq> k" for j
  proof -
    note o = P(7) [OF j(1), unfolded phis_ok_def]
    have "ps ! j \<noteq> ps ! k" using d j k nth_eq_iff_index_eq by blast
    have "block_instructions ir2 (ps ! j) = block_instructions ir (ps ! j)" using s(13) [OF b' [OF j(1)]] \<open>ps ! j \<noteq> ps ! k\<close> by simp
    moreover have "inst_is ir2 INST_PHI p' \<and> operands ir2 p' = []" if "bi_phiMap (infos ! j) r' = Some p'" for r' p'
    proof -
      have "operands ir p' = []" "inst_is ir INST_PHI p'" using o that by blast+
      moreover from this have "p' \<noteq> q" using s(4) by (auto simp: inst_is_def)
      ultimately show ?thesis using s(5,9) by (simp add: inst_is_def)
    qed
    ultimately show ?thesis using o unfolding phis_ok_def by auto
  qed
  have "placed ir0 ps infos0 ir2 (infos[k := ?info])"
    unfolding placed_def
  proof (intro conjI allI impI)
    show "ir_insts ir2 i = ir_insts ir0 i" "operands ir2 i = operands ir0 i" if "ir_insts ir0 i \<noteq> None" for i
      using P(5) [OF that] that s(4,5,9) by (metis fun_upd_other)+
    show "phis_ok ir0 ir2 (ps ! j) (infos0 ! j) (infos[k := ?info] ! j)" if "j < length ps" for j
      using new old [OF that] that k P(6) by (cases "j = k") simp_all
  qed (use s P in simp_all)
  moreover have "block_info_getOrCreatePhi ir (infos ! k) (ps ! k) r t = Inr (ir2, ?info, q)"
    using None s(1,2) ptrs_push_buffer [OF n [OF None], of r] by (simp add: block_info_getOrCreatePhi_def)
  ultimately show thesis using s(12) by (intro that [of ir2 ?info q]) simp_all
qed
section \<open>Step 2: the worklist\<close>

definition flat :: "(ptr \<times> ptr) list \<Rightarrow> ptr list" where
  "flat ws = concat (map (\<lambda>(v, b). [v, b]) ws)"

lemma flat_length [simp]: "length (flat ws) = 2 * length ws"
  by (induction ws) (auto simp: flat_def)

lemma flat_snoc: "flat (ws @ [(v, b)]) = flat ws @ [v, b]"
  by (simp add: flat_def)

lemma flat_nth: "j < length ws \<Longrightarrow> flat ws ! (2 * j) = fst (ws ! j) \<and> flat ws ! (2 * j + 1) = snd (ws ! j)"
proof (induction ws arbitrary: j)
  case (Cons w ws)
  then show ?case by (cases j) (auto simp: flat_def split: prod.split)
qed simp

lemma push_pair_flat: "length ws < 125 \<Longrightarrow> push_pair (flat ws) v b = Inr (flat (ws @ [(v, b)]))"
  by (simp add: push_pair_def ptrs_push_buffer flat_snoc)

text \<open>
  The second step, for a set \<open>N\<close> of blocks with their numbers \<open>ps\<close>, frontiers \<open>DF\<close> and registers \<open>V\<close>: \<open>work\<close> says what
  holds while the variable at position \<open>i\<close> is handled and the worklist holds \<open>ws\<close>.
\<close>

definition phi_set :: "ptr list \<Rightarrow> block_info list \<Rightarrow> reg \<Rightarrow> ptr set" where
  "phi_set ps infos r = {ps ! k | k. k < length ps \<and> bi_phiMap (infos ! k) r \<noteq> None}"

definition work :: "ir_context \<Rightarrow> ptr list \<Rightarrow> block_info list \<Rightarrow> reg set \<Rightarrow> (ptr \<Rightarrow> ptr set) \<Rightarrow> nat \<Rightarrow> (ptr \<times> ptr) list \<Rightarrow> place_state \<Rightarrow> bool" where
  "work ir0 ps infos0 V DF i ws st \<longleftrightarrow> placed ir0 ps infos0 (pl_ir st) (pl_infos st) \<and>
     (\<forall>k < length ps. \<forall>r. bi_phiMap (pl_infos st ! k) r \<noteq> None \<longrightarrow> r \<in> V) \<and>
     pl_worklist st = flat ws \<and> (\<forall>(v, b) \<in> set ws. is_value (pl_ir st) v \<and> b \<in> set ps) \<and> distinct (map snd ws) \<and>
     length (pl_lastIteration st) = length ps \<and>
     (\<forall>k < length ps. pl_lastIteration st ! k \<le> i \<and> (0 < i \<longrightarrow> pl_lastIteration st ! k = i \<longleftrightarrow> ps ! k \<in> snd ` set ws)) \<and>
     (\<forall>b. set (snd (domfrontiers_get (pl_df st) b)) = DF b)"

lemma workD:
  assumes "work ir0 ps infos0 V DF i ws st"
  shows "placed ir0 ps infos0 (pl_ir st) (pl_infos st)" and "k < length ps \<Longrightarrow> bi_phiMap (pl_infos st ! k) r \<noteq> None \<Longrightarrow> r \<in> V"
    and "pl_worklist st = flat ws" and "(v, b) \<in> set ws \<Longrightarrow> is_value (pl_ir st) v \<and> b \<in> set ps" and "distinct (map snd ws)"
    and "length (pl_lastIteration st) = length ps" and "k < length ps \<Longrightarrow> pl_lastIteration st ! k \<le> i"
    and "k < length ps \<Longrightarrow> 0 < i \<Longrightarrow> pl_lastIteration st ! k = i \<longleftrightarrow> ps ! k \<in> snd ` set ws"
    and "set (snd (domfrontiers_get (pl_df st) b)) = DF b"
  using assms unfolding work_def by auto

text \<open>What stays fixed in the second step.\<close>

definition place_setting :: "ir_context \<Rightarrow> ptr list \<Rightarrow> block_info list \<Rightarrow> dominators \<Rightarrow> reg set \<Rightarrow> (ptr \<Rightarrow> ptr set) \<Rightarrow> bool" where
  "place_setting ir0 ps infos0 d V DF \<longleftrightarrow> (\<forall>b \<in> set ps. is_block ir0 b) \<and> distinct ps \<and> length ps \<le> 125 \<and>
     (\<forall>k < length ps. dominators_getNumber d (ps ! k) = Inr k) \<and> finite V \<and> card V \<le> 250 \<and> (\<forall>b. DF b \<subseteq> set ps)"

lemma settingD:
  assumes "place_setting ir0 ps infos0 d V DF"
  shows "\<forall>b \<in> set ps. is_block ir0 b" and "distinct ps" and "length ps \<le> 125"
    and "k < length ps \<Longrightarrow> dominators_getNumber d (ps ! k) = Inr k" and "finite V" and "card V \<le> 250" and "DF b \<subseteq> set ps"
  using assms unfolding place_setting_def by blast+

lemma work_length:
  assumes "work ir0 ps infos0 V DF i ws st" and "distinct ps"
  shows "length ws \<le> length ps" and "b \<in> set ps \<Longrightarrow> b \<notin> snd ` set ws \<Longrightarrow> length ws < length ps"
proof -
  have sub: "set (map snd ws) \<subseteq> set ps" using workD(4) [OF assms(1)] by force
  have c: "length ws = card (set (map snd ws))" "length ps = card (set ps)"
    using workD(5) [OF assms(1)] assms(2) distinct_card [of "map snd ws"] distinct_card [of ps] by simp_all
  show "length ws \<le> length ps" unfolding c using sub by (rule card_mono [rotated]) simp
  show "length ws < length ps" if "b \<in> set ps" "b \<notin> snd ` set ws"
    unfolding c by (rule psubset_card_mono) (use sub that in auto)
qed

lemma place_phi_ok:
  assumes s: "place_setting ir0 ps infos0 d V DF" and w: "work ir0 ps infos0 V DF i ws st" and b: "b \<in> set ps" and r: "r \<in> V"
    and v: "is_value (pl_ir st) v"
  obtains st' ws' where "place_phi d i r v b st = Inr st'" and "work ir0 ps infos0 V DF i (ws @ ws') st'"
    and "snd ` set ws' = (if 0 < i \<and> b \<notin> snd ` set ws then {b} else {})"
    and "\<And>r'. phi_set ps (pl_infos st') r' = (if r' = r then insert b (phi_set ps (pl_infos st) r') else phi_set ps (pl_infos st) r')"
    and "\<And>v. is_value (pl_ir st) v \<Longrightarrow> is_value (pl_ir st') v"
proof -
  note S = settingD [OF s] and W = workD [OF w]
  obtain k where k: "k < length ps" "b = ps ! k" using b by (auto simp: in_set_conv_nth)
  have len: "length (bi_phiList (pl_infos st ! k)) < 250" if none: "bi_phiMap (pl_infos st ! k) r = None"
  proof -
    note o = placedD(7) [OF W(1) k(1), unfolded phis_ok_def]
    have "set (bi_phiList (pl_infos st ! k)) \<subset> V" using o W(2) [OF k(1)] none r by blast
    then have "card (set (bi_phiList (pl_infos st ! k))) < card V" using S(5) by (intro psubset_card_mono)
    then show ?thesis using o S(6) distinct_card by (metis order.strict_trans2)
  qed
  obtain val where val: "ir_values (pl_ir st) v = Some val" using v by (auto simp: is_value_def)
  have len': "length (bi_phiList (pl_infos st ! k)) < 250 \<or> bi_phiMap (pl_infos st ! k) r \<noteq> None" using len by blast
  obtain ir' info' phi where g: "block_info_getOrCreatePhi (pl_ir st) (pl_infos st ! k) (ps ! k) r (v_dataType val) = Inr (ir', info', phi)"
    "placed ir0 ps infos0 ir' ((pl_infos st)[k := info'])" "bi_phiMap info' r = Some phi"
    "\<And>r'. r' \<noteq> r \<Longrightarrow> bi_phiMap info' r' = bi_phiMap (pl_infos st ! k) r'" "\<And>v. is_value (pl_ir st) v \<Longrightarrow> is_value ir' v"
  proof (rule getOrCreatePhi_ok [OF W(1) k(1) S(1,2), where r = r and t = "v_dataType val"])
    show "length (bi_phiList (pl_infos st ! k)) < 250" if "bi_phiMap (pl_infos st ! k) r = None" using len' that by blast
  qed (rule that; assumption)
  have lens: "length (pl_infos st) = length ps" "length (pl_lastIteration st) = length ps" using placedD(6) [OF W(1)] W(6) by simp_all
  have phi: "is_value ir' phi" using phi_is_value [OF g(2) k(1)] g(3) k(1) lens by simp
  have sets: "phi_set ps ((pl_infos st)[k := info']) r' = (if r' = r then insert b (phi_set ps (pl_infos st) r') else phi_set ps (pl_infos st) r')" for r'
    unfolding phi_set_def using k lens g(3) g(4) [of r'] by (auto simp: nth_list_update split: if_splits)
  have maps: "r' \<in> V" if "j < length ps" "bi_phiMap ((pl_infos st)[k := info'] ! j) r' \<noteq> None" for j r'
    using that W(2) [OF that(1), of r'] g(4) [of r'] r lens by (cases "j = k"; cases "r' = r") auto
  let ?st = "st\<lparr>pl_ir := ir', pl_infos := (pl_infos st)[k := info']\<rparr>"
  have run: "place_phi d i r v b st = (if pl_lastIteration st ! k < i then bindE (push_pair (flat ws) phi b) (\<lambda>worklist.
       Inr (?st\<lparr>pl_lastIteration := (pl_lastIteration st)[k := i], pl_worklist := worklist\<rparr>)) else Inr ?st)"
    using S(4) [OF k(1)] k lens val g(1) W(3) by (simp add: place_phi_def read_info_def get_value_def)
  show thesis
  proof (cases "pl_lastIteration st ! k < i")
    case True
    then have nb: "0 < i" "b \<notin> snd ` set ws" using W(8) [OF k(1)] k(2) by auto
    have "length ws < 125" using work_length(2) [OF w S(2) b nb(2)] S(3) by simp
    then have "place_phi d i r v b st = Inr (?st\<lparr>pl_lastIteration := (pl_lastIteration st)[k := i], pl_worklist := flat (ws @ [(phi, b)])\<rparr>)"
      using run True by (simp add: push_pair_flat)
    moreover have "work ir0 ps infos0 V DF i (ws @ [(phi, b)]) (?st\<lparr>pl_lastIteration := (pl_lastIteration st)[k := i], pl_worklist := flat (ws @ [(phi, b)])\<rparr>)"
    proof -
      have last: "(pl_lastIteration st)[k := i] ! j \<le> i \<and> (0 < i \<longrightarrow> ((pl_lastIteration st)[k := i] ! j = i) = (ps ! j \<in> snd ` set (ws @ [(phi, b)])))"
        if j: "j < length ps" for j
        using W(7,8) [OF j] lens k S(2) j nth_eq_iff_index_eq [of ps j k] by (cases "j = k") auto
      show ?thesis using W g(2,5) phi b nb maps last lens unfolding work_def by (auto simp: split_beta)
    qed
    ultimately show thesis using nb sets g(5)
      by (intro that [of "?st\<lparr>pl_lastIteration := (pl_lastIteration st)[k := i], pl_worklist := flat (ws @ [(phi, b)])\<rparr>" "[(phi, b)]"]) simp_all
  next
    case False
    then have "\<not> (0 < i \<and> b \<notin> snd ` set ws)" using W(7,8) [OF k(1)] k(2) by auto
    moreover have "work ir0 ps infos0 V DF i (ws @ []) ?st" using W g(2,5) maps unfolding work_def by auto
    ultimately show thesis using run False sets g(5) by (intro that [of ?st "[]"]) auto
  qed
qed

lemma place_phis_ok:
  assumes s: "place_setting ir0 ps infos0 d V DF" and "work ir0 ps infos0 V DF i ws st" and "set bs \<subseteq> set ps" and r: "r \<in> V"
    and "is_value (pl_ir st) v"
  shows "\<exists>st' ws'. place_phis d i r v bs st = Inr st' \<and> work ir0 ps infos0 V DF i (ws @ ws') st' \<and>
    snd ` set (ws @ ws') = snd ` set ws \<union> (if 0 < i then set bs else {}) \<and>
    (\<forall>r'. phi_set ps (pl_infos st') r' = (if r' = r then set bs \<union> phi_set ps (pl_infos st) r' else phi_set ps (pl_infos st) r'))"
  using assms(2,3,5)
proof (induction bs arbitrary: ws st)
  case (Cons b bs)
  have b: "b \<in> set ps" using Cons.prems(2) by simp
  obtain st1 ws1 where 1: "place_phi d i r v b st = Inr st1" "work ir0 ps infos0 V DF i (ws @ ws1) st1"
    "snd ` set ws1 = (if 0 < i \<and> b \<notin> snd ` set ws then {b} else {})"
    "\<And>r'. phi_set ps (pl_infos st1) r' = (if r' = r then insert b (phi_set ps (pl_infos st) r') else phi_set ps (pl_infos st) r')"
    "\<And>v. is_value (pl_ir st) v \<Longrightarrow> is_value (pl_ir st1) v"
    by (rule place_phi_ok [OF s Cons.prems(1) b r Cons.prems(3)]) (rule that; assumption)
  obtain st2 ws2 where 2: "place_phis d i r v bs st1 = Inr st2" "work ir0 ps infos0 V DF i ((ws @ ws1) @ ws2) st2"
    "snd ` set ((ws @ ws1) @ ws2) = snd ` set (ws @ ws1) \<union> (if 0 < i then set bs else {})"
    "\<forall>r'. phi_set ps (pl_infos st2) r' = (if r' = r then set bs \<union> phi_set ps (pl_infos st1) r' else phi_set ps (pl_infos st1) r')"
    using Cons.IH [OF 1(2)] Cons.prems(2) 1(5) [OF Cons.prems(3)] by auto
  have "snd ` set (ws @ ws1 @ ws2) = snd ` set ws \<union> (if 0 < i then set (b # bs) else {})"
    using 1(3) 2(3) by (auto simp: image_Un)
  then show ?case using 1 2 by (intro exI [of _ st2] exI [of _ "ws1 @ ws2"]) (auto split: if_splits)
qed (auto intro: exI [of _ "[]"])
lemma get_df_same: "set (snd (domfrontiers_get (fst (domfrontiers_get df b)) c)) = set (snd (domfrontiers_get df c))"
  by (auto simp: domfrontiers_get_def df_getElement_def split: option.splits)

definition frontier_rel :: "(ptr \<Rightarrow> ptr set) \<Rightarrow> (ptr \<times> ptr) set" where
  "frontier_rel DF = {(a, b). b \<in> DF a}"

text \<open>
  The closure the worklist computes from the blocks \<open>A\<close>: what was taken from it has its frontier covered, and for every
  variable but the first a block that got a phi is put on it.
\<close>

definition closing :: "(ptr \<Rightarrow> ptr set) \<Rightarrow> nat \<Rightarrow> ptr set \<Rightarrow> ptr list \<Rightarrow> nat \<Rightarrow> ptr set \<Rightarrow> bool" where
  "closing DF i A bs j P \<longleftrightarrow> P = (\<Union>b \<in> set (take j bs). DF b) \<and> set bs = (if 0 < i then A \<union> P else A) \<and> P \<subseteq> (frontier_rel DF)\<^sup>+ `` A"

lemma closing_step:
  assumes c: "closing DF i A bs j P" and b: "b \<in> set bs" and bs: "take (Suc j) bs' = take j bs @ [b]"
    and P': "P' = DF b \<union> P" and s: "set bs' = set bs \<union> (if 0 < i then DF b else {})"
  shows "closing DF i A bs' (Suc j) P'"
proof -
  let ?R = "frontier_rel DF"
  have "b \<in> A \<or> (\<exists>a \<in> A. (a, b) \<in> ?R\<^sup>+)" using c b by (auto simp: closing_def split: if_splits)
  moreover have "(b, y) \<in> ?R" if "y \<in> DF b" for y using that by (simp add: frontier_rel_def)
  ultimately have "DF b \<subseteq> ?R\<^sup>+ `` A" by (blast intro: trancl_into_trancl)
  with assms show ?thesis unfolding closing_def by auto
qed

lemma worklist_loop_ok:
  assumes s: "place_setting ir0 ps infos0 d V DF" and "work ir0 ps infos0 V DF i ws st" and r: "r \<in> V"
    and "closing DF i A (map snd ws) j (phi_set ps (pl_infos st) r)" and "j \<le> length ws" and "length ps - j < fuel"
  shows "\<exists>st' ws'. worklist_loop fuel d i r (2 * j) st = Inr st' \<and> work ir0 ps infos0 V DF i ws' st' \<and>
    closing DF i A (map snd ws') (length ws') (phi_set ps (pl_infos st') r) \<and>
    (\<forall>r'. r' \<noteq> r \<longrightarrow> phi_set ps (pl_infos st') r' = phi_set ps (pl_infos st) r')"
  using assms(2,4-)
proof (induction fuel arbitrary: ws st j)
  case (Suc fuel)
  note w = Suc.prems(1) and W = workD [OF Suc.prems(1)]
  show ?case
  proof (cases "j < length ws")
    case False
    with Suc.prems(2,3) w W(3) show ?thesis by (intro exI [of _ st] exI [of _ ws]) simp
  next
    case True
    obtain v b where vb: "ws ! j = (v, b)" by fastforce
    have in_ws: "(v, b) \<in> set ws" using True vb by (metis nth_mem)
    have rd: "pl_worklist st ! (2 * j) = v" "pl_worklist st ! (2 * j + 1) = b" using flat_nth [OF True] W(3) vb by simp_all
    obtain df' bs where df: "domfrontiers_get (pl_df st) b = (df', bs)" by fastforce
    let ?st = "st\<lparr>pl_df := df'\<rparr>"
    have bs: "set bs = DF b" using W(9) [of b] df by simp
    have w': "work ir0 ps infos0 V DF i ws ?st"
      using w get_df_same [of "pl_df st" b] df unfolding work_def by simp
    have v: "is_value (pl_ir ?st) v" "set bs \<subseteq> set ps" using W(4) [OF in_ws] bs settingD(7) [OF s] by simp_all
    obtain st1 ws1 where 1: "place_phis d i r v bs ?st = Inr st1" "work ir0 ps infos0 V DF i (ws @ ws1) st1"
      "snd ` set (ws @ ws1) = snd ` set ws \<union> (if 0 < i then set bs else {})"
      "\<forall>r'. phi_set ps (pl_infos st1) r' = (if r' = r then set bs \<union> phi_set ps (pl_infos ?st) r' else phi_set ps (pl_infos ?st) r')"
      using place_phis_ok [OF s w' v(2) r v(1)] by blast
    have "closing DF i A (map snd (ws @ ws1)) (Suc j) (phi_set ps (pl_infos st1) r)"
    proof (rule closing_step [OF Suc.prems(2)])
      show "b \<in> set (map snd ws)" using in_ws by force
      show "take (Suc j) (map snd (ws @ ws1)) = take j (map snd ws) @ [b]" using True vb by (simp add: take_Suc_conv_app_nth nth_append)
    qed (use 1(3,4) bs in auto)
    moreover have "Suc j \<le> length (ws @ ws1)" using True by simp
    moreover have "length ps - Suc j < fuel" using Suc.prems(4) True work_length(1) [OF w settingD(2) [OF s]] by linarith
    ultimately obtain st2 ws2 where 2: "worklist_loop fuel d i r (2 * Suc j) st1 = Inr st2" "work ir0 ps infos0 V DF i ws2 st2"
      "closing DF i A (map snd ws2) (length ws2) (phi_set ps (pl_infos st2) r)"
      "\<forall>r'. r' \<noteq> r \<longrightarrow> phi_set ps (pl_infos st2) r' = phi_set ps (pl_infos st1) r'"
      using Suc.IH [OF 1(2)] by blast
    have "worklist_loop (Suc fuel) d i r (2 * j) st = Inr st2" using True W(3) rd df 1(1) 2(1) by simp
    with 1(4) 2 show ?thesis by (intro exI [of _ st2] exI [of _ ws2]) simp
  qed
qed simp

lemma closing_closure:
  assumes "closing DF i A bs (length bs) P"
  shows "P = (if 0 < i then (frontier_rel DF)\<^sup>+ `` A else frontier_rel DF `` A)"
proof -
  note c = assms [unfolded closing_def]
  let ?R = "frontier_rel DF"
  have P1: "P = ?R `` set bs" by (subst conjunct1 [OF c]) (auto simp: frontier_rel_def)
  have P2: "set bs = (if 0 < i then A \<union> P else A)" and P3: "P \<subseteq> ?R\<^sup>+ `` A" using c by blast+
  show ?thesis
  proof (cases "0 < i")
    case True
    have "b \<in> P" if "(a, b) \<in> ?R\<^sup>+" "a \<in> A" for a b
      using that
    proof (induction rule: trancl_induct)
      case (base y)
      then have "y \<in> ?R `` set bs" using P2 True by auto
      then show ?case by (subst P1)
    next
      case (step y z)
      then have "z \<in> ?R `` set bs" using P2 True by auto
      then show ?case by (subst P1)
    qed
    with P3 True show ?thesis by auto
  next
    case False
    with P1 P2 show ?thesis by simp
  qed
qed
section \<open>Step 2: the variables\<close>

lemma assigned_value_ok:
  assumes g: "ir_good ir" and a: "inst_is ir INST_ASSIGN_VAR a"
  obtains inst v where "ir_insts ir a = Some inst" and "assigned_value ir inst = Inr v" and "operands ir a = [Some v]" and "is_value ir v"
proof -
  obtain L where inv: "ir_inv ir L" and c: "ir_complete ir" using ir_goodE [OF g] .
  obtain inst where i: "ir_insts ir a = Some inst" "i_type inst = INST_ASSIGN_VAR" using a by (auto simp: inst_is_def)
  have n: "inst_count inst = 1" using i by (simp add: inst_count_def inst_getUses_def)
  then have "0 < inst_count inst" by simp
  then obtain v where v: "inst_getUses inst = (Some (i_uses inst), inst_count inst)" "0 < length (i_uses inst)"
    "ir_uses ir (i_uses inst ! 0) = Some \<lparr>u_inst = a, u_value = v\<rparr>" "ir_values ir v \<noteq> None" "operands ir a ! 0 = Some v"
    by (rule complete_operands [OF inv c i(1)]) (rule that; assumption)
  have "inst_shape inst" using blocks_D(4) [OF ir_ok_D(3) [OF ir_inv_D(1) [OF inv]] i(1)] by blast
  then have "length (i_uses inst) = 1" using i(2) by (simp add: inst_shape_def)
  then have "operands ir a = [Some v]" using v(5) length_operands [OF i(1)] by (cases "operands ir a") auto
  then show thesis using that i v by (simp add: assigned_value_def read_use_def get_use_def is_value_def)
qed

lemma last_assignD:
  assumes g: "ir_good ir" and b: "is_block ir b" and a: "last_assign ir b r = Some a"
  shows "inst_is ir INST_ASSIGN_VAR a" and "\<exists>inst. ir_insts ir a = Some inst \<and> i_parent inst = b" and "inst_reg ir a = r"
    and "a \<in> set (load_assigns ir b)"
  using last_assign_in_Some a block_instructionsD(2) [OF g b]
  unfolding last_assign_def load_assigns_def is_load_assign_def by fastforce+

text \<open>Before the variable at position \<open>i\<close> no block is marked with \<open>i\<close>, but for the first, whose mark all blocks have.\<close>

definition unmarked :: "nat \<Rightarrow> place_state \<Rightarrow> bool" where
  "unmarked i st \<longleftrightarrow> (\<forall>k < length (pl_lastIteration st). if 0 < i then pl_lastIteration st ! k < i else pl_lastIteration st ! k = 0)"

lemma work_start:
  assumes "work ir0 ps infos0 V DF j ws st" and "unmarked i st"
  shows "work ir0 ps infos0 V DF i [] (st\<lparr>pl_worklist := []\<rparr>)"
  using assms unfolding work_def unmarked_def by (auto simp: flat_def split: if_splits)

definition assigning_blocks :: "ir_context \<Rightarrow> ptr list \<Rightarrow> reg \<Rightarrow> ptr set" where
  "assigning_blocks ir bs r = {b \<in> set bs. last_assign ir b r \<noteq> None}"

lemma seed_worklist_ok:
  assumes s: "place_setting ir0 ps infos0 d V DF" and g: "ir_good ir0" and "work ir0 ps infos0 V DF i ws st" and "set bs \<subseteq> set ps" and "distinct bs"
    and "snd ` set ws \<inter> set bs = {}"
  shows "\<exists>st' ws'. seed_worklist d i (block_assigns ir0 bs r) st = Inr st' \<and> work ir0 ps infos0 V DF i ws' st' \<and>
    set (map snd ws') = snd ` set ws \<union> assigning_blocks ir0 bs r \<and> pl_infos st' = pl_infos st"
  using assms(3-)
proof (induction bs arbitrary: ws st)
  case (Cons b bs)
  note S = settingD [OF s] and w = Cons.prems(1) and W = workD [OF Cons.prems(1)]
  show ?case
  proof (cases "last_assign ir0 b r")
    case None
    then have "block_assigns ir0 (b # bs) r = block_assigns ir0 bs r" "assigning_blocks ir0 (b # bs) r = assigning_blocks ir0 bs r"
      by (auto simp: block_assigns_def assigning_blocks_def)
    with Cons show ?thesis by auto
  next
    case (Some a)
    have e: "block_assigns ir0 (b # bs) r = a # block_assigns ir0 bs r" "assigning_blocks ir0 (b # bs) r = insert b (assigning_blocks ir0 bs r)"
      using Some by (auto simp: block_assigns_def assigning_blocks_def)
    have b: "is_block ir0 b" "b \<in> set ps" using Cons.prems(2) S(1) by auto
    obtain k where k: "k < length ps" "b = ps ! k" using b(2) by (auto simp: in_set_conv_nth)
    note a = last_assignD [OF g b(1) Some]
    note P = placedD [OF W(1)]
    have same: "ir_insts (pl_ir st) a = ir_insts ir0 a" using P(5) a(2) by auto
    have "inst_is (pl_ir st) INST_ASSIGN_VAR a" using a(1) same by (simp add: inst_is_def)
    then obtain inst v where v: "ir_insts (pl_ir st) a = Some inst" "assigned_value (pl_ir st) inst = Inr v" "is_value (pl_ir st) v"
      by (rule assigned_value_ok [OF P(1)]) (rule that; assumption)
    have par: "i_parent inst = b" using a(2) same v(1) by auto
    have nb: "b \<notin> snd ` set ws" using Cons.prems(4) by auto
    have len: "length ws < 125" using work_length(2) [OF w S(2) b(2) nb] S(3) by simp
    let ?st = "st\<lparr>pl_lastIteration := (pl_lastIteration st)[k := i], pl_worklist := flat (ws @ [(v, b)])\<rparr>"
    have step: "seed_worklist d i (a # block_assigns ir0 bs r) st = seed_worklist d i (block_assigns ir0 bs r) ?st"
      using v par S(4) [OF k(1)] k W(3,6) push_pair_flat [OF len, of v b] by (simp add: get_inst_def read_info_def)
    have last: "(pl_lastIteration st)[k := i] ! j \<le> i \<and> (0 < i \<longrightarrow> ((pl_lastIteration st)[k := i] ! j = i) = (ps ! j \<in> snd ` set (ws @ [(v, b)])))"
      if j: "j < length ps" for j
      using W(7,8) [OF j] W(6) k S(2) j nth_eq_iff_index_eq [of ps j k] by (cases "j = k") auto
    have "work ir0 ps infos0 V DF i (ws @ [(v, b)]) ?st" using W v(3) b(2) nb last unfolding work_def by (auto simp: split_beta)
    from Cons.IH [OF this] Cons.prems nb obtain st' ws' where "seed_worklist d i (block_assigns ir0 bs r) ?st = Inr st'"
      "work ir0 ps infos0 V DF i ws' st'" "set (map snd ws') = snd ` set (ws @ [(v, b)]) \<union> assigning_blocks ir0 bs r" "pl_infos st' = pl_infos ?st"
      by auto
    with step e show ?thesis by (intro exI [of _ st'] exI [of _ ws']) auto
  qed
qed (auto simp: block_assigns_def assigning_blocks_def)

lemma place_variables_ok:
  assumes s: "place_setting ir0 ps infos0 d V DF" and g: "ir_good ir0" and fuel: "length ps < fuel"
    and "work ir0 ps infos0 V DF j ws st" and "unmarked i st" and "distinct rs" and "set rs \<subseteq> V"
    and "\<And>r. r \<in> set rs \<Longrightarrow> vars r = Some \<lparr>ri_assigns = block_assigns ir0 ps r, ri_valueStack = []\<rparr> \<and> phi_set ps (pl_infos st) r = {}"
  shows "\<exists>st' j ws'. place_variables fuel d vars i rs st = Inr st' \<and> work ir0 ps infos0 V DF j ws' st' \<and>
    (\<forall>r. phi_set ps (pl_infos st') r = (if r \<notin> set rs then phi_set ps (pl_infos st) r
       else if i = 0 \<and> r = hd rs then frontier_rel DF `` assigning_blocks ir0 ps r
       else (frontier_rel DF)\<^sup>+ `` assigning_blocks ir0 ps r))"
  using assms(4-)
proof (induction rs arbitrary: i j ws st)
  case (Cons r rs)
  note S = settingD [OF s]
  have r: "r \<in> V" "vars r = Some \<lparr>ri_assigns = block_assigns ir0 ps r, ri_valueStack = []\<rparr>" "phi_set ps (pl_infos st) r = {}"
    using Cons.prems(4,5) by auto
  have w0: "work ir0 ps infos0 V DF i [] (st\<lparr>pl_worklist := []\<rparr>)" by (rule work_start [OF Cons.prems(1,2)])
  obtain st1 ws1 where 1: "seed_worklist d i (block_assigns ir0 ps r) (st\<lparr>pl_worklist := []\<rparr>) = Inr st1" "work ir0 ps infos0 V DF i ws1 st1"
    "set (map snd ws1) = assigning_blocks ir0 ps r" "pl_infos st1 = pl_infos st"
    using seed_worklist_ok [OF s g w0, of ps r] S(2) by auto
  have c: "closing DF i (assigning_blocks ir0 ps r) (map snd ws1) 0 (phi_set ps (pl_infos st1) r)"
    using 1(3,4) r(3) by (simp add: closing_def)
  have "length ps - 0 < fuel" using fuel by simp
  from worklist_loop_ok [OF s 1(2) r(1) c _ this] obtain st2 ws2 where 2: "worklist_loop fuel d i r 0 st1 = Inr st2" "work ir0 ps infos0 V DF i ws2 st2"
    "closing DF i (assigning_blocks ir0 ps r) (map snd ws2) (length ws2) (phi_set ps (pl_infos st2) r)"
    "\<forall>r'. r' \<noteq> r \<longrightarrow> phi_set ps (pl_infos st2) r' = phi_set ps (pl_infos st1) r'" by auto
  have "closing DF i (assigning_blocks ir0 ps r) (map snd ws2) (length (map snd ws2)) (phi_set ps (pl_infos st2) r)" using 2(3) by simp
  from closing_closure [OF this]
  have set_r: "phi_set ps (pl_infos st2) r = (if 0 < i then (frontier_rel DF)\<^sup>+ `` assigning_blocks ir0 ps r else frontier_rel DF `` assigning_blocks ir0 ps r)" .
  have un: "unmarked (i + 1) st2" using workD(6,7) [OF 2(2)] by (auto simp: unmarked_def less_Suc_eq_le)
  have vars: "vars r' = Some \<lparr>ri_assigns = block_assigns ir0 ps r', ri_valueStack = []\<rparr> \<and> phi_set ps (pl_infos st2) r' = {}" if r': "r' \<in> set rs" for r'
    using Cons.prems(3) Cons.prems(5) [of r'] 2(4) 1(4) r' by auto
  have rs: "distinct rs" "set rs \<subseteq> V" using Cons.prems(3,4) by simp_all
  from Cons.IH [OF 2(2) un rs vars] obtain st3 j3 ws3 where 3: "place_variables fuel d vars (i + 1) rs st2 = Inr st3" "work ir0 ps infos0 V DF j3 ws3 st3"
    "\<forall>r'. phi_set ps (pl_infos st3) r' = (if r' \<notin> set rs then phi_set ps (pl_infos st2) r'
       else if i + 1 = 0 \<and> r' = hd rs then frontier_rel DF `` assigning_blocks ir0 ps r'
       else (frontier_rel DF)\<^sup>+ `` assigning_blocks ir0 ps r')"
    by blast
  have "phi_set ps (pl_infos st3) r' = (if r' \<notin> set (r # rs) then phi_set ps (pl_infos st) r'
       else if i = 0 \<and> r' = hd (r # rs) then frontier_rel DF `` assigning_blocks ir0 ps r'
       else (frontier_rel DF)\<^sup>+ `` assigning_blocks ir0 ps r')" for r'
    using spec [OF 3(3), of r'] 2(4) 1(4) set_r Cons.prems(3) by (cases "r' = r") auto
  moreover have "place_variables fuel d vars i (r # rs) st = Inr st3" using r(2) 1(1) 2(1) 3(1) by simp
  ultimately show ?case using 3(2) by blast
qed auto
section \<open>Steps 1 and 2 together\<close>

text \<open>The blocks that get a phi for a register: \<open>first\<close> tells whether it is the first of the list of variables.\<close>

definition phi_blocks :: "ir_context \<Rightarrow> ptr \<Rightarrow> bool \<Rightarrow> reg \<Rightarrow> ptr set" where
  "phi_blocks ir e first r = (let R = {(a, b). b \<in> dom_frontier ir e a}; A = assigning_blocks ir (block_order ir e) r in
     if first then R `` A else R\<^sup>+ `` A)"

definition placement :: "ir_context \<Rightarrow> ptr \<Rightarrow> ptr list \<Rightarrow> place_state \<Rightarrow> reg list \<Rightarrow> bool" where
  "placement ir e ps st vlist \<longleftrightarrow> distinct vlist \<and> set vlist = (\<Union>b \<in> set ps. block_regs ir b) \<and>
     (\<exists>infos0. placed ir ps infos0 (pl_ir st) (pl_infos st) \<and> (\<forall>k < length ps. described ir (block_instructions ir (ps ! k)) (infos0 ! k))) \<and>
     (\<forall>r. phi_set ps (pl_infos st) r = phi_blocks ir e (vlist \<noteq> [] \<and> r = hd vlist) r)"

lemma frontier_subset: "dom_frontier ir e x \<subseteq> reached_from ir e"
  by (auto simp: dom_frontier_def)

lemma ssa_place_ok:
  assumes r: "dom_result ir e ps d" and ps: "ps = block_order ir e" and lim: "ssa_limits ir ps"
    and df: "\<forall>x. set (snd (domfrontiers_get df x)) = dom_frontier ir e x" and fuel: "length ps < fuel"
  obtains st vlist where "ssa_place fuel ir d df = Inr (st, found_vars ir ps, vlist)" and "placement ir e ps st vlist"
proof -
  note f = result_D(1) [OF r] and st = dom_stateD [OF result_D(2) [OF r]]
  have g: "ir_good ir" and e: "is_block ir e" and sp: "set ps = reached_from ir e" "distinct ps"
    using f by (auto simp: numbered_flow_def ir_good_def)
  have blk: "\<forall>b \<in> set ps. is_block ir b" using reached_are_blocks [OF e] sp(1) by blast
  obtain infos vlist where a: "analyze_blocks ir ps [] (found_vars ir [], []) = Inr (infos, found_vars ir ps, vlist)" "length infos = length ps"
    "\<forall>k < length ps. described ir (block_instructions ir (ps ! k)) (infos ! k)" "distinct vlist" "set vlist = (\<Union>b \<in> set ps. block_regs ir b)"
    using analyze_blocks_ok [OF g blk, of "[]" "[]" "[]"] lim by auto
  let ?V = "set vlist" and ?DF = "dom_frontier ir e"
  let ?st = "\<lparr>pl_ir = ir, pl_infos = infos, pl_df = df, pl_lastIteration = replicate (length ps) 0, pl_worklist = []\<rparr>"
  have s: "place_setting ir ps infos d ?V ?DF"
    using blk sp lim st(2) a(5) frontier_subset [of ir e] unfolding place_setting_def ssa_limits_def by auto
  have none: "bi_phiMap (infos ! k) r = None" "bi_phiList (infos ! k) = []" if "k < length ps" for k r
    using a(3) that by (auto simp: described_def)
  have "placed ir ps infos ir infos" using g a(2) none by (auto simp: placed_def phis_ok_def)
  then have w: "work ir ps infos ?V ?DF 0 [] ?st" using none df by (auto simp: work_def flat_def)
  have un: "unmarked 0 ?st" by (simp add: unmarked_def)
  have vars: "found_vars ir ps r = Some \<lparr>ri_assigns = block_assigns ir ps r, ri_valueStack = []\<rparr> \<and> phi_set ps (pl_infos ?st) r = {}"
    if "r \<in> set vlist" for r using that a(5) none by (auto simp: found_vars_def phi_set_def)
  from place_variables_ok [OF s g fuel w un a(4) order.refl vars] obtain st' j ws' where
    p: "place_variables fuel d (found_vars ir ps) 0 vlist ?st = Inr st'" "work ir ps infos ?V ?DF j ws' st'"
      "\<forall>r. phi_set ps (pl_infos st') r = (if r \<notin> set vlist then phi_set ps (pl_infos ?st) r
       else if (0 :: nat) = 0 \<and> r = hd vlist then frontier_rel ?DF `` assigning_blocks ir ps r
       else (frontier_rel ?DF)\<^sup>+ `` assigning_blocks ir ps r)" by blast
  have "assigning_blocks ir ps r = {}" if "r \<notin> set vlist" for r
    using that a(5) last_assign_outside by (auto simp: assigning_blocks_def)
  then have "phi_set ps (pl_infos st') r = phi_blocks ir e (vlist \<noteq> [] \<and> r = hd vlist) r" for r
    using spec [OF p(3), of r] none ps
    by (cases "r \<in> set vlist") (auto simp: phi_blocks_def frontier_rel_def phi_set_def Let_def)
  then have "placement ir e ps st' vlist" using a(3-5) workD(1) [OF p(2)] unfolding placement_def by blast
  moreover have "ssa_place fuel ir d df = Inr (st', found_vars ir ps, vlist)"
  proof -
    have "found_vars ir [] = Map.empty" by (auto simp: found_vars_def)
    then show ?thesis using a(1) p(1) st(1) by (simp add: ssa_place_def)
  qed
  ultimately show thesis using that by blast
qed

end
