(* ===== verification/Ssa_Place.thy ===== *)
theory Ssa_Place
  imports Ssa_Phis
begin

text \<open>
  The placement of phis, stated for \<open>ssa_convert\<close>'s first two steps behind the computation of dominators and
  their frontiers, with a function of one loop as the example.
\<close>

section \<open>Phis of a block\<close>

text \<open>The phis of a block are new, stand at its top, have no operands yet, and there is one for each register in \<open>R\<close>.\<close>

definition phis_placed :: "ir_context \<Rightarrow> ir_context \<Rightarrow> ptr \<Rightarrow> block_info \<Rightarrow> reg set \<Rightarrow> bool" where
  "phis_placed ir ir' b info R \<longleftrightarrow> distinct (bi_phiList info) \<and> set (bi_phiList info) = R \<and>
     (\<exists>phis. map (bi_phiMap info) (bi_phiList info) = map Some phis \<and> block_instructions ir' b = rev phis @ block_instructions ir b \<and>
       (\<forall>p \<in> set phis. inst_is ir' INST_PHI p \<and> operands ir' p = [] \<and> ir_insts ir p = None))"

section \<open>The example\<close>

definition ssa_program :: "ir_call list" where
  "ssa_program = [New_function \<lparr>rmem = [], rsize = 0\<rparr>, New_block 4, New_block 4, New_block 4, Constant 1,
     Assign_var 0 20, Insert 8 24, Jump 12, Insert 8 32, Load_var 0 INT64, Insert 12 40, Assign_var 0 40, Insert 12 44,
     Jump_cond 12 16 40, Insert 12 52, Return, Insert 16 68, Set_entry 4 8]"

lemma ssa_program_checks: "check_program ssa_program (\<lambda>ir.
    map (\<lambda>b. (is_block ir b, block_instructions ir b)) [8, 12, 16] = [(True, [24, 32]), (True, [40, 44, 52]), (True, [68])] \<and>
    ir_top ir = 72 \<and> ir_functions ir 4 = Some \<lparr>f_entry = Some 8, f_valueNameCounter = 0\<rparr>)"
  by (simp add: ssa_program_def ir_ops list_ops list_walk_pos numeral_2_eq_2 numeral_3_eq_3 cong: bindE_weak_cong)

lemma ssa_program_checks_flow: "check_program ssa_program (\<lambda>ir.
    map (predecessor_blocks ir) [8, 12, 16] = [[], [8, 12], [12]])"
  by (simp add: ssa_program_def ir_ops list_ops list_walk_pos predecessor_blocks_def use_list_def
      user_of_def parent_of_def numeral_2_eq_2 numeral_3_eq_3 cong: bindE_weak_cong)

lemma ssa_program_checks_insts: "check_program ssa_program (\<lambda>ir.
    map (\<lambda>i. map_option (\<lambda>x. (i_type x, i_rId x, i_parent x, inst_count x)) (ir_insts ir i)) [24, 32, 40, 44, 52, 68] =
      [Some (INST_ASSIGN_VAR, 0, 8, 1), Some (INST_JUMP, 0, 8, 1), Some (INST_LOAD_VAR, 0, 12, 0), Some (INST_ASSIGN_VAR, 0, 12, 1),
       Some (INST_JUMP_COND, 0, 12, 3), Some (INST_RETURN, 0, 16, 0)] \<and>
    dom (ir_insts ir) \<subseteq> set [24, 32, 40, 44, 52, 68] \<and> map (is_block ir) [20, 40] = [False, False] \<and>
    map (operands ir) [24, 32, 44, 52] = [[Some 20], [Some 12], [Some 40], [Some 12, Some 16, Some 40]] \<and>
    operands ir 40 = [] \<and> operands ir 68 = [None])"
  by (simp add: ssa_program_def ir_ops list_ops list_walk_pos operands_def numeral_2_eq_2 numeral_3_eq_3 cong: bindE_weak_cong)

lemma small_loop_natural:
  assumes s: "successor_blocks ir 8 = [12]" "successor_blocks ir 12 = [12, 16]" "successor_blocks ir 16 = []"
    and p: "predecessor_blocks ir 8 = []" "predecessor_blocks ir 12 = [8, 12]" "predecessor_blocks ir 16 = [12]"
    and j: "jumps_last ir" and t: "64 \<le> ir_top ir"
  shows "reached_from ir 8 = {8, 12, 16}" and "block_order ir 8 = [16, 12, 8]" and "natural_flow ir 8 (block_order ir 8)"
    and "dom_limits ir 8" and "(\<Sum>b \<in> reached_from ir 8. length (predecessor_blocks ir b)) \<le> 250"
proof -
  let ?E = "edges (successor_blocks ir)"
  have "b \<in> {8, 12, 16}" if "(8, b) \<in> ?E\<^sup>*" for b using that by (induction rule: rtrancl_induct) (use s in auto)
  moreover have "(8, 12) \<in> ?E" "(12, 16) \<in> ?E" using s by auto
  then have "(8, 12) \<in> ?E\<^sup>*" "(8, 16) \<in> ?E\<^sup>*" by (meson r_into_rtrancl rtrancl_into_rtrancl)+
  ultimately show reach: "reached_from ir 8 = {8, 12, 16}" unfolding reached_from_def by blast
  have "dfs 12 (successor_blocks ir) 8 ([], {}) = Some ([16, 12, 8], {8, 12, 16})" using s by (auto simp: dfs_numeral)
  from dfs_mono(1) [OF this, of "5 * ir_top ir + 1"] show o: "block_order ir 8 = [16, 12, 8]" using t by (simp add: block_order_def)
  have "(8, 12) \<in> ?E\<^sup>*" using reach by (auto simp: reached_from_def)
  moreover have "(8, 12) \<notin> (avoiding ?E 12)\<^sup>*"
  proof
    assume "(8, 12) \<in> (avoiding ?E 12)\<^sup>*"
    then show False using s(1) by (cases rule: converse_rtranclE) auto
  qed
  ultimately have dom: "dominates ?E 8 12 12" by (simp add: dominates_def)
  have "b = 16 \<and> vs = [12, 8] \<or> b = 12 \<and> vs = [8] \<or> b = 8 \<and> vs = []"
    if "[16, 12, 8] = us @ b # vs" for us vs and b :: ptr
    using that by (auto simp: Cons_eq_append_conv)
  then show "natural_flow ir 8 (block_order ir 8)"
    unfolding o natural_flow_def using j p dom by fastforce
  have "card (dom_children ir 8 b) \<le> card (reached_from ir 8)" for b
    by (rule card_mono) (use reach in \<open>auto simp: dom_children_def\<close>)
  moreover have c: "card (reached_from ir 8) = 3" using reach by simp
  ultimately have "card (dom_children ir 8 b) \<le> 3" for b by simp
  then have "card (dom_children ir 8 b) \<le> 16" for b by (rule order.trans) simp
  with c show "dom_limits ir 8" by (simp add: dom_limits_def)
  show "(\<Sum>b \<in> reached_from ir 8. length (predecessor_blocks ir b)) \<le> 250" using reach p by simp
qed

lemma ssa_program_facts:
  obtains ir where "ir_program ssa_program = Inr ir" and "ir_reachable ir" and "is_block ir 8" and "ir_top ir = 72"
    and "reached_from ir 8 = {8, 12, 16}" and "block_order ir 8 = [16, 12, 8]" and "natural_flow ir 8 (block_order ir 8)"
    and "dom_limits ir 8" and "(\<Sum>b \<in> reached_from ir 8. length (predecessor_blocks ir b)) \<le> 250"
    and "ir_functions ir 4 = Some \<lparr>f_entry = Some 8, f_valueNameCounter = 0\<rparr>"
    and "load_assigns ir 8 = [24]" and "load_assigns ir 12 = [40, 44]" and "load_assigns ir 16 = []"
    and "inst_reg ir 24 = 0" and "inst_reg ir 40 = 0" and "inst_reg ir 44 = 0"
    and "\<And>i. ir_insts ir i \<noteq> None \<Longrightarrow> i \<in> {24, 32, 40, 44, 52, 68}" and "inst_is ir INST_LOAD_VAR 40"
    and "operands ir 24 = [Some 20]" and "operands ir 44 = [Some 40]" and "\<not> is_block ir 20" and "\<not> is_block ir 40" and "jumps_last ir"
    and "predecessor_blocks ir 8 = []" and "predecessor_blocks ir 12 = [8, 12]" and "predecessor_blocks ir 16 = [12]"
    and "ir_insts ir 52 \<noteq> None" and "operands ir 52 = [Some 12, Some 16, Some 40]" and "ir_insts ir 12 = None" and "ir_insts ir 16 = None"
    and "inst_is ir INST_ASSIGN_VAR 24" and "inst_is ir INST_ASSIGN_VAR 44" and "last_assign ir 12 0 = Some 44"
    and "successor_blocks ir 8 = [12]" and "successor_blocks ir 12 = [12, 16]" and "successor_blocks ir 16 = []"
proof -
  obtain ir where ir: "ir_program ssa_program = Inr ir" "ir_reachable ir"
    and b: "map (\<lambda>b. (is_block ir b, block_instructions ir b)) [8, 12, 16] = [(True, [24, 32]), (True, [40, 44, 52]), (True, [68])]"
    and t: "ir_top ir = 72" and f: "ir_functions ir 4 = Some \<lparr>f_entry = Some 8, f_valueNameCounter = 0\<rparr>"
    using check_programD [OF ssa_program_checks] by (elim exE conjE) (rule that; assumption)
  have p: "map (predecessor_blocks ir) [8, 12, 16] = [[], [8, 12], [12]]"
    using check_programD [OF ssa_program_checks_flow] ir(1) by auto
  have i: "map (\<lambda>i. map_option (\<lambda>x. (i_type x, i_rId x, i_parent x, inst_count x)) (ir_insts ir i)) [24, 32, 40, 44, 52, 68] =
      [Some (INST_ASSIGN_VAR, 0, 8, 1), Some (INST_JUMP, 0, 8, 1), Some (INST_LOAD_VAR, 0, 12, 0), Some (INST_ASSIGN_VAR, 0, 12, 1),
       Some (INST_JUMP_COND, 0, 12, 3), Some (INST_RETURN, 0, 16, 0)]"
    and d: "dom (ir_insts ir) \<subseteq> set [24, 32, 40, 44, 52, 68]" and nb: "map (is_block ir) [20, 40] = [False, False]"
    and o: "map (operands ir) [24, 32, 44, 52] = [[Some 20], [Some 12], [Some 40], [Some 12, Some 16, Some 40]]" "operands ir 40 = []" "operands ir 68 = [None]"
    using check_programD [OF ssa_program_checks_insts] ir(1) by (elim exE conjE, simp)+
  obtain x24 x32 x40 x44 x52 x68 where x: "ir_insts ir 24 = Some x24" "ir_insts ir 32 = Some x32" "ir_insts ir 40 = Some x40"
    "ir_insts ir 44 = Some x44" "ir_insts ir 52 = Some x52" "ir_insts ir 68 = Some x68" using i by auto
  have s: "successor_blocks ir 8 = [12]" "successor_blocks ir 12 = [12, 16]" "successor_blocks ir 16 = []"
    using b i nb o x by (simp_all add: successor_blocks_def)
  have "\<forall>i \<in> set [24, 32, 40, 44, 52, 68]. jump_ok ir i"
    using b i nb o x by (simp add: jump_ok_def inserted_def is_block_def numeral_2_eq_2)
  from jumps_last_check [OF d this] have j: "jumps_last ir" .
  have ty: "inst_is ir t 24 = (t = INST_ASSIGN_VAR)" "inst_is ir t 32 = (t = INST_JUMP)" "inst_is ir t 40 = (t = INST_LOAD_VAR)"
    "inst_is ir t 44 = (t = INST_ASSIGN_VAR)" "inst_is ir t 52 = (t = INST_JUMP_COND)" "inst_is ir t 68 = (t = INST_RETURN)" for t
    using i by (auto simp: inst_is_def)
  have la: "load_assigns ir 8 = [24]" "load_assigns ir 12 = [40, 44]" "load_assigns ir 16 = []"
    using b by (simp_all add: load_assigns_def is_load_assign_def ty)
  have rg: "inst_reg ir 24 = 0" "inst_reg ir 40 = 0" "inst_reg ir 44 = 0" using i x by (auto simp: inst_reg_def reg_of_def)
  have "64 \<le> ir_top ir" using t by simp
  have only: "i \<in> {24, 32, 40, 44, 52, 68}" if "ir_insts ir i \<noteq> None" for i using d that by auto
  have p': "predecessor_blocks ir 8 = []" "predecessor_blocks ir 12 = [8, 12]" "predecessor_blocks ir 16 = [12]" using p by simp_all
  have rest: "is_block ir 8" "inst_is ir INST_LOAD_VAR 40" "operands ir 24 = [Some 20]" "operands ir 44 = [Some 40]" "\<not> is_block ir 20" "\<not> is_block ir 40"
    using b o nb ty by simp_all
  have more: "ir_insts ir 52 \<noteq> None" "operands ir 52 = [Some 12, Some 16, Some 40]" "ir_insts ir 12 = None" "ir_insts ir 16 = None"
    using x o only [of 12] only [of 16] by (simp, simp, cases "ir_insts ir 12", simp_all, cases "ir_insts ir 16", simp_all)
  have as: "inst_is ir INST_ASSIGN_VAR 24" "inst_is ir INST_ASSIGN_VAR 44" "last_assign ir 12 0 = Some 44"
    using b rg by (simp_all add: ty last_assign_def last_assign_in_def)
  show thesis
    by (rule that [OF ir rest(1) t small_loop_natural [OF s p' j \<open>64 \<le> ir_top ir\<close>] f la rg only rest(2-6) j p' more as s])
qed

section \<open>Properties\<close>

text \<open>
  C12: The first two steps of \<open>ssa_convert\<close> put exactly one phi for a register at the top of each block of the iterated
  dominance frontier of the blocks that assign it, and no other instruction - except for the variable found
  first, whose phis only stand in the frontiers of its assignments.
\<close>
theorem ssa_place_correct:
  assumes "ir_reachable ir" and "is_block ir e" and "natural_flow ir e (block_order ir e)" and "dom_limits ir e"
    and "5 * ir_top ir < fuel" and "(\<Sum>b \<in> reached_from ir e. length (predecessor_blocks ir b)) \<le> 250"
    and "ssa_limits ir (block_order ir e)"
  shows "\<exists>d df st vars vlist. dominators_compute fuel ir e = Inr d \<and> domfrontiers_compute fuel ir d = Inr df \<and>
    ssa_place fuel ir d df = Inr (st, vars, vlist) \<and> distinct vlist \<and> set vlist = (\<Union>b \<in> reached_from ir e. block_regs ir b) \<and>
    (\<forall>b \<in> reached_from ir e. \<exists>k. dominators_getNumber d b = Inr k \<and>
       phis_placed ir (pl_ir st) b (pl_infos st ! k) {r. b \<in> phi_blocks ir e (vlist \<noteq> [] \<and> r = hd vlist) r})"
proof -
  obtain L where inv: "ir_inv ir L" and c: "ir_complete ir" using reachable_inv [OF assms(1)] .
  let ?ps = "block_order ir e"
  obtain d where d: "dominators_compute fuel ir e = Inr d" and r: "dom_result ir e ?ps d"
    using dominators_compute_ok [OF inv c assms(2-5)] .
  have fuel: "length ?ps < fuel" using order_length(2) [OF result_D(1) [OF r]] assms(5) by linarith
  obtain df where df: "domfrontiers_compute fuel ir d = Inr df" "\<forall>x. set (snd (domfrontiers_get df x)) = dom_frontier ir e x"
    using domfrontiers_ok [OF r fuel assms(6)] .
  obtain st vlist where s: "ssa_place fuel ir d df = Inr (st, found_vars ir ?ps, vlist)" "placement ir e ?ps st vlist"
    using ssa_place_ok [OF r refl assms(7) df(2) fuel] .
  have ps: "set ?ps = reached_from ir e" "distinct ?ps" using result_D(1) [OF r] by (simp_all add: numbered_flow_def)
  note P = s(2) [unfolded placement_def]
  from P obtain infos0 where pl: "placed ir ?ps infos0 (pl_ir st) (pl_infos st)" by blast
  have "\<exists>k. dominators_getNumber d b = Inr k \<and>
       phis_placed ir (pl_ir st) b (pl_infos st ! k) {r. b \<in> phi_blocks ir e (vlist \<noteq> [] \<and> r = hd vlist) r}"
    if "b \<in> reached_from ir e" for b
  proof -
    from that ps(1) obtain k where k: "k < length ?ps" "b = ?ps ! k" by (metis in_set_conv_nth)
    let ?info = "pl_infos st ! k"
    note o = placedD(7) [OF pl k(1), unfolded phis_ok_def]
    have "b \<in> phi_set ?ps (pl_infos st) r \<longleftrightarrow> bi_phiMap ?info r \<noteq> None" for r
      using k ps(2) by (auto simp: phi_set_def nth_eq_iff_index_eq)
    then have "set (bi_phiList ?info) = {r. b \<in> phi_blocks ir e (vlist \<noteq> [] \<and> r = hd vlist) r}" using o P by auto
    moreover have "map (bi_phiMap ?info) (bi_phiList ?info) = map Some (map (\<lambda>r. the (bi_phiMap ?info r)) (bi_phiList ?info))"
      using o by auto
    moreover have "inst_is (pl_ir st) INST_PHI p \<and> operands (pl_ir st) p = [] \<and> ir_insts ir p = None"
      if "p \<in> set (map (\<lambda>r. the (bi_phiMap ?info r)) (bi_phiList ?info))" for p using that o by auto
    ultimately have "phis_placed ir (pl_ir st) b ?info {r. b \<in> phi_blocks ir e (vlist \<noteq> [] \<and> r = hd vlist) r}"
      using o k(2) unfolding phis_placed_def by blast
    moreover have "dominators_getNumber d b = Inr k" using dom_stateD(2) [OF result_D(2) [OF r] k(1)] k(2) by simp
    ultimately show ?thesis by blast
  qed
  moreover have "distinct vlist" "set vlist = (\<Union>b \<in> reached_from ir e. block_regs ir b)" using P ps(1) by simp_all
  ultimately show ?thesis using d df(1) s(1) by blast
qed

theorem ssa_place_correct_witness:
  "\<exists>ir d df st vars vlist. ir_program ssa_program = Inr ir \<and> dominators_compute 361 ir 8 = Inr d \<and>
     domfrontiers_compute 361 ir d = Inr df \<and> ssa_place 361 ir d df = Inr (st, vars, vlist) \<and> set vlist = {0}"
proof -
  obtain ir where ir: "ir_program ssa_program = Inr ir" "ir_reachable ir" "is_block ir 8" "ir_top ir = 72"
    "reached_from ir 8 = {8, 12, 16}" "block_order ir 8 = [16, 12, 8]" "natural_flow ir 8 (block_order ir 8)" "dom_limits ir 8"
    "(\<Sum>b \<in> reached_from ir 8. length (predecessor_blocks ir b)) \<le> 250"
    "load_assigns ir 8 = [24]" "load_assigns ir 12 = [40, 44]" "load_assigns ir 16 = []"
    "inst_reg ir 24 = 0" "inst_reg ir 40 = 0" "inst_reg ir 44 = 0"
    by (rule ssa_program_facts) (rule that; assumption)
  have lim: "ssa_limits ir (block_order ir 8)" unfolding ir(6) using ir(10-) by (simp add: ssa_limits_def block_regs_def)
  have fuel: "5 * ir_top ir < 361" using ir(4) by simp
  have regs: "(\<Union>b \<in> reached_from ir 8. block_regs ir b) = {0 :: reg}" unfolding ir(5) using ir(10-) by (simp add: block_regs_def)
  from ssa_place_correct [OF ir(2,3,7,8) fuel ir(9) lim] obtain d df st vars vlist where
    "dominators_compute 361 ir 8 = Inr d" "domfrontiers_compute 361 ir d = Inr df" "ssa_place 361 ir d df = Inr (st, vars, vlist)"
    "set vlist = (\<Union>b \<in> reached_from ir 8. block_regs ir b)" by (elim exE conjE) (rule that; assumption)
  with ir(1) regs show ?thesis by (intro exI conjI) simp_all
qed

end
