(* ===== verification/Ssa_Reach.thy ===== *)
theory Ssa_Reach
  imports Ssa_Phis
begin

text \<open>
  What the last step of \<open>ssa_convert\<close> is to compute: the value of a register that reaches a point of a block, by
  the assignments before it, the phis and the dominator tree.
\<close>

section \<open>The dominator tree by numbers\<close>

definition subtree :: "nat list \<Rightarrow> nat \<Rightarrow> nat set" where
  "subtree doms k = {j. j < length doms \<and> k \<in> chain doms j}"

definition tree_children :: "nat list \<Rightarrow> nat \<Rightarrow> nat list" where
  "tree_children doms k = filter (\<lambda>i. doms ! i = k \<and> i \<noteq> k) [0 ..< length doms]"

abbreviation full_tree :: "nat list \<Rightarrow> bool" where
  "full_tree doms \<equiv> dom_tree doms {..< length doms}"

lemma child_less:
  assumes t: "full_tree doms" and c: "c \<in> set (tree_children doms k)"
  shows "c < k \<and> c < length doms \<and> doms ! c = k \<and> c \<noteq> length doms - 1"
proof -
  have c': "c < length doms" "doms ! c = k" "c \<noteq> k" using c by (auto simp: tree_children_def)
  have "c \<noteq> length doms - 1" using tree_root [OF t] c'(2,3) by metis
  then show ?thesis using tree_D(3) [OF t, of c] c' by simp
qed

lemma chain_child: "full_tree doms \<Longrightarrow> c \<in> set (tree_children doms k) \<Longrightarrow> chain doms c = insert c (chain doms k)"
  using child_less chain_unfold by metis

lemma chain_above: "full_tree doms \<Longrightarrow> j < length doms \<Longrightarrow> i \<in> chain doms j \<Longrightarrow> j \<le> i \<and> i < length doms"
  using chain_in [of doms "{..< length doms}" j] by auto

lemma subtree_self: "k < length doms \<Longrightarrow> k \<in> subtree doms k"
  by (simp add: subtree_def)

lemma subtree_unfold:
  assumes t: "full_tree doms" and k: "k < length doms"
  shows "subtree doms k = insert k (\<Union>c \<in> set (tree_children doms k). subtree doms c)"
proof (intro equalityI subsetI)
  fix j assume "j \<in> subtree doms k"
  then have "j < length doms" "k \<in> chain doms j" by (simp_all add: subtree_def)
  then show "j \<in> insert k (\<Union>c \<in> set (tree_children doms k). subtree doms c)"
  proof (induction "length doms - j" arbitrary: j rule: less_induct)
    case less
    show ?case
    proof (cases "j = k")
      case False
      then have nr: "j \<noteq> length doms - 1" using less.prems chain_root [OF t] by auto
      have up: "j < doms ! j" "doms ! j < length doms" using tree_D(2,3) [OF t, of j] less.prems(1) nr by auto
      have kj: "k \<in> chain doms (doms ! j)" using less.prems(2) False chain_unfold [of doms j] by auto
      show ?thesis
      proof (cases "doms ! j = k")
        case True
        then have "j \<in> set (tree_children doms k)" using less.prems(1) False by (simp add: tree_children_def)
        then show ?thesis using subtree_self less.prems(1) by blast
      next
        case other: False
        have "doms ! j \<in> insert k (\<Union>c \<in> set (tree_children doms k). subtree doms c)"
          by (rule less.hyps) (use up kj less.prems(1) in auto)
        with other obtain c where "c \<in> set (tree_children doms k)" "c \<in> chain doms (doms ! j)" by (auto simp: subtree_def)
        moreover have "chain doms (doms ! j) \<subseteq> chain doms j" using chain_unfold [of doms j] by auto
        ultimately show ?thesis using less.prems(1) by (auto simp: subtree_def)
      qed
    qed simp
  qed
next
  fix j assume "j \<in> insert k (\<Union>c \<in> set (tree_children doms k). subtree doms c)"
  then show "j \<in> subtree doms k"
  proof
    assume "j \<in> (\<Union>c \<in> set (tree_children doms k). subtree doms c)"
    then obtain c where c: "c \<in> set (tree_children doms k)" "j < length doms" "c \<in> chain doms j" by (auto simp: subtree_def)
    have "chain doms c \<subseteq> chain doms j" if "c \<in> chain doms j" "j < length doms" for c j
    proof
      fix x assume "x \<in> chain doms c"
      then obtain b where "x = ((!) doms ^^ b) c" by (auto simp: chain_def)
      moreover obtain a where "c = ((!) doms ^^ a) j" using \<open>c \<in> chain doms j\<close> by (auto simp: chain_def)
      ultimately have "x = ((!) doms ^^ (b + a)) j" by (simp add: funpow_add)
      then show "x \<in> chain doms j" by (auto simp: chain_def)
    qed
    moreover have "k \<in> chain doms c" using chain_child [OF t c(1)] by simp
    ultimately show ?thesis using c(2,3) by (auto simp: subtree_def)
  qed (use k in \<open>simp add: subtree_self\<close>)
qed

lemma subtree_disjoint:
  assumes t: "full_tree doms" and c: "c \<in> set (tree_children doms k)" and c': "c' \<in> set (tree_children doms k)" and n: "c \<noteq> c'"
  shows "subtree doms c \<inter> subtree doms c' = {}"
proof -
  have "False" if "j < length doms" "c \<in> chain doms j" "c' \<in> chain doms j" for j
    using that
  proof (induction "length doms - j" arbitrary: j rule: less_induct)
    case less
    note l = child_less [OF t c] child_less [OF t c']
    have no: "x \<notin> chain doms k" if "x < k" for x using chain_above [OF t, of k x] that l tree_D(2) [OF t, of c] by force
    show ?case
    proof (cases "j = c \<or> j = c'")
      case True
      then show ?thesis using less.prems(2,3) chain_child [OF t c] chain_child [OF t c'] no l n by auto
    next
      case False
      then have "c \<in> chain doms (doms ! j)" "c' \<in> chain doms (doms ! j)" using less.prems(2,3) chain_unfold [of doms j] by auto
      moreover have "j \<noteq> length doms - 1" using less.prems(2) chain_root [OF t] False by auto
      then have "j < doms ! j" "doms ! j < length doms" using tree_D(2,3) [OF t, of j] less.prems(1) by auto
      ultimately show False using less.hyps [of "doms ! j"] less.prems(1) by (simp add: diff_less_mono2)
    qed
  qed
  then show ?thesis by (auto simp: subtree_def)
qed

lemma subtree_below: "full_tree doms \<Longrightarrow> j \<in> subtree doms k \<Longrightarrow> j \<le> k \<and> j < length doms"
  using chain_above by (auto simp: subtree_def)

lemma subtree_root:
  assumes t: "full_tree doms"
  shows "subtree doms (length doms - 1) = {..< length doms}"
proof -
  have "length doms - 1 \<in> chain doms j" if "j < length doms" for j
    using that
  proof (induction "length doms - j" arbitrary: j rule: less_induct)
    case less
    show ?case
    proof (cases "j = length doms - 1")
      case False
      then have "j < doms ! j" "doms ! j < length doms" using tree_D(2,3) [OF t, of j] less.prems by auto
      then have "length doms - 1 \<in> chain doms (doms ! j)" using less by simp
      then show ?thesis using chain_unfold [of doms j] by auto
    qed simp
  qed
  then show ?thesis by (auto simp: subtree_def)
qed

lemma subtree_card:
  assumes t: "full_tree doms" and k: "k < length doms"
  shows "card (subtree doms k) = 1 + (\<Sum>c\<leftarrow>tree_children doms k. card (subtree doms c))"
proof -
  have fin: "finite (subtree doms c)" for c by (rule finite_subset [of _ "{..< length doms}"]) (auto simp: subtree_def)
  have k': "k \<notin> (\<Union>c \<in> set (tree_children doms k). subtree doms c)" using child_less [OF t] subtree_below [OF t] by fastforce
  have "card (subtree doms k) = 1 + card (\<Union>c \<in> set (tree_children doms k). subtree doms c)"
    using subtree_unfold [OF t k] k' fin by simp
  also have "card (\<Union>c \<in> set (tree_children doms k). subtree doms c) = (\<Sum>c \<in> set (tree_children doms k). card (subtree doms c))"
    by (rule card_UN_disjoint) (use fin subtree_disjoint [OF t] in auto)
  also have "\<dots> = (\<Sum>c\<leftarrow>tree_children doms k. card (subtree doms c))"
    by (rule sum_list_distinct_conv_sum_set [symmetric]) (simp add: tree_children_def)
  finally show ?thesis .
qed

section \<open>The values that reach a point\<close>

text \<open>
  \<open>value_reaches\<close>: the value a register has before the \<open>n\<close>-th load or assignment of the block with number \<open>k\<close>, when
  \<open>ph\<close> has the phis. \<open>resolves_to\<close>: the value an operand stands for when the loads are gone.
\<close>

definition block_la :: "ir_context \<Rightarrow> dominators \<Rightarrow> nat \<Rightarrow> ptr list" where
  "block_la ir d k = load_assigns ir (d_postorder d ! k)"

definition loads :: "ir_context \<Rightarrow> dominators \<Rightarrow> ptr set" where
  "loads ir d = {u. inst_is ir INST_LOAD_VAR u \<and> (\<exists>k < length (d_postorder d). u \<in> set (block_la ir d k))}"

inductive value_reaches :: "ir_context \<Rightarrow> dominators \<Rightarrow> (nat \<Rightarrow> reg \<Rightarrow> ptr option) \<Rightarrow> nat \<Rightarrow> nat \<Rightarrow> reg \<Rightarrow> ptr \<Rightarrow> bool"
  and resolves_to :: "ir_context \<Rightarrow> dominators \<Rightarrow> (nat \<Rightarrow> reg \<Rightarrow> ptr option) \<Rightarrow> ptr \<Rightarrow> ptr \<Rightarrow> bool"
  for ir d ph where
  reach_phi: "ph k r = Some p \<Longrightarrow> value_reaches ir d ph k 0 r p"
| reach_idom: "ph k r = None \<Longrightarrow> k \<noteq> length (d_postorder d) - 1 \<Longrightarrow>
    value_reaches ir d ph (d_doms d ! k) (length (block_la ir d (d_doms d ! k))) r v \<Longrightarrow> value_reaches ir d ph k 0 r v"
| reach_assign: "k < length (d_postorder d) \<Longrightarrow> n < length (block_la ir d k) \<Longrightarrow> inst_is ir INST_ASSIGN_VAR (block_la ir d k ! n) \<Longrightarrow>
    inst_reg ir (block_la ir d k ! n) = r \<Longrightarrow> operands ir (block_la ir d k ! n) = [Some u] \<Longrightarrow> resolves_to ir d ph u v \<Longrightarrow>
    value_reaches ir d ph k (Suc n) r v"
| reach_other: "n < length (block_la ir d k) \<Longrightarrow> \<not> (inst_is ir INST_ASSIGN_VAR (block_la ir d k ! n) \<and> inst_reg ir (block_la ir d k ! n) = r) \<Longrightarrow>
    value_reaches ir d ph k n r v \<Longrightarrow> value_reaches ir d ph k (Suc n) r v"
| resolve_plain: "u \<notin> loads ir d \<Longrightarrow> resolves_to ir d ph u u"
| resolve_load: "k < length (d_postorder d) \<Longrightarrow> n < length (block_la ir d k) \<Longrightarrow> block_la ir d k ! n = u \<Longrightarrow> inst_is ir INST_LOAD_VAR u \<Longrightarrow>
    value_reaches ir d ph k n (inst_reg ir u) v \<Longrightarrow> resolves_to ir d ph u v"

inductive_cases reaches_0E: "value_reaches ir d ph k 0 r v"
inductive_cases reaches_SucE: "value_reaches ir d ph k (Suc n) r v"
inductive_cases resolvesE: "resolves_to ir d ph u v"

lemma loadsI: "k < length (d_postorder d) \<Longrightarrow> n < length (block_la ir d k) \<Longrightarrow> inst_is ir INST_LOAD_VAR (block_la ir d k ! n) \<Longrightarrow>
    block_la ir d k ! n \<in> loads ir d"
  by (auto simp: loads_def)

lemma block_laD:
  assumes g: "ir_good ir" and blk: "\<forall>b \<in> set (d_postorder d). is_block ir b" and k: "k < length (d_postorder d)"
  shows "distinct (block_la ir d k)" and "i \<in> set (block_la ir d k) \<Longrightarrow> parent_of ir i = d_postorder d ! k \<and> is_load_assign ir i \<and> ir_insts ir i \<noteq> None"
    and "i \<in> set (block_la ir d k) \<Longrightarrow> i \<in> set (block_instructions ir (d_postorder d ! k))"
proof -
  have b: "is_block ir (d_postorder d ! k)" using blk k by simp
  note bi = block_instructionsD [OF g b]
  show "distinct (block_la ir d k)" using bi(1) by (simp add: block_la_def load_assigns_def)
  show "i \<in> set (block_la ir d k) \<Longrightarrow> i \<in> set (block_instructions ir (d_postorder d ! k))" by (simp add: block_la_def load_assigns_def)
  show "i \<in> set (block_la ir d k) \<Longrightarrow> parent_of ir i = d_postorder d ! k \<and> is_load_assign ir i \<and> ir_insts ir i \<noteq> None"
    using bi(2) by (fastforce simp: block_la_def load_assigns_def parent_of_def)
qed

lemma la_position:
  assumes g: "ir_good ir" and blk: "\<forall>b \<in> set (d_postorder d). is_block ir b" and d: "distinct (d_postorder d)"
    and k: "k < length (d_postorder d)" "n < length (block_la ir d k)" and j: "j < length (d_postorder d)" "m < length (block_la ir d j)"
    and e: "block_la ir d k ! n = block_la ir d j ! m"
  shows "k = j \<and> n = m"
proof -
  have "parent_of ir (block_la ir d k ! n) = d_postorder d ! k" using block_laD(2) [OF g blk k(1) nth_mem [OF k(2)]] by blast
  moreover have "parent_of ir (block_la ir d j ! m) = d_postorder d ! j" using block_laD(2) [OF g blk j(1) nth_mem [OF j(2)]] by blast
  ultimately have "d_postorder d ! k = d_postorder d ! j" using e by simp
  then have "k = j" using d k(1) j(1) nth_eq_iff_index_eq by blast
  moreover from this have "n = m" using block_laD(1) [OF g blk k(1)] k(2) j(2) e nth_eq_iff_index_eq by metis
  ultimately show ?thesis by simp
qed

lemma reaches_deterministic:
  assumes g: "ir_good ir" and blk: "\<forall>b \<in> set (d_postorder d). is_block ir b" and d: "distinct (d_postorder d)"
  shows "value_reaches ir d ph k n r v \<Longrightarrow> value_reaches ir d ph k n r w \<Longrightarrow> w = v"
    and "resolves_to ir d ph u v \<Longrightarrow> resolves_to ir d ph u w \<Longrightarrow> w = v"
proof (induction arbitrary: w and w rule: value_reaches_resolves_to.inducts)
  case (reach_phi k r p)
  from reach_phi.prems show ?case by (rule reaches_0E) (use reach_phi in simp_all)
next
  case (reach_idom k r v)
  from reach_idom.prems show ?case
  proof (rule reaches_0E)
    assume "ph k r = Some w"
    then show ?thesis using reach_idom(1) by simp
  qed (rule reach_idom.IH)
next
  case (reach_assign k n r u v)
  from reach_assign.prems show ?case
  proof (rule reaches_SucE)
    fix u' assume "operands ir (block_la ir d k ! n) = [Some u']" "resolves_to ir d ph u' w"
    then show ?thesis using reach_assign.IH reach_assign(5) by simp
  qed (use reach_assign(3,4) in simp)
next
  case (reach_other n k r v)
  from reach_other.prems show ?case
  proof (rule reaches_SucE)
    assume "inst_is ir INST_ASSIGN_VAR (block_la ir d k ! n)" "inst_reg ir (block_la ir d k ! n) = r"
    then show ?thesis using reach_other(2) by simp
  qed (rule reach_other.IH)
next
  case (resolve_plain u)
  from resolve_plain.prems show ?case
  proof (rule resolvesE)
    fix k n assume "k < length (d_postorder d)" "n < length (block_la ir d k)" "block_la ir d k ! n = u" "inst_is ir INST_LOAD_VAR u"
    then show ?thesis using loadsI [of k d n ir] resolve_plain(1) by simp
  qed
next
  case (resolve_load k n u v)
  from resolve_load.prems show ?case
  proof (rule resolvesE)
    assume "w = u" "u \<notin> loads ir d"
    then show ?thesis using loadsI [of k d n ir] resolve_load(1-4) by simp
  next
    fix j m assume j: "j < length (d_postorder d)" "m < length (block_la ir d j)" "block_la ir d j ! m = u"
      "value_reaches ir d ph j m (inst_reg ir u) w"
    have "k = j \<and> n = m" by (rule la_position [OF g blk d]) (use resolve_load(1-3) j in simp_all)
    then have "value_reaches ir d ph k n (inst_reg ir u) w" using j(4) by simp
    then show ?thesis by (rule resolve_load.IH)
  qed
qed

text \<open>What reaches a point is a phi or an operand of an assignment, never a load.\<close>

lemma reaches_what:
  assumes P: "\<And>k r p. ph k r = Some p \<Longrightarrow> P p" and Q: "\<And>k n u. k < length (d_postorder d) \<Longrightarrow> n < length (block_la ir d k) \<Longrightarrow> inst_is ir INST_ASSIGN_VAR (block_la ir d k ! n) \<Longrightarrow>
      operands ir (block_la ir d k ! n) = [Some u] \<Longrightarrow> Q u"
    and PQ: "\<And>u. u \<notin> loads ir d \<Longrightarrow> Q u \<Longrightarrow> P u"
  shows "value_reaches ir d ph k n r v \<Longrightarrow> P v" and "resolves_to ir d ph u v \<Longrightarrow> u \<in> loads ir d \<or> Q u \<Longrightarrow> P v"
proof (induction rule: value_reaches_resolves_to.inducts)
  case (reach_phi k r p)
  then show ?case by (rule P)
next
  case (reach_assign k n r u v)
  then show ?case using Q by simp
next
  case (resolve_plain u)
  then show ?case using PQ by simp
qed simp_all

end
