(* ===== verification/Ssa_Rename.thy ===== *)
theory Ssa_Rename
  imports Ssa_Reach
begin

text \<open>
  The last step of \<open>ssa_convert\<close>: every use of a load gets the value that reaches the load, every phi gets the
  values at the ends of the blocks before it, and loads and assignments are gone.
\<close>

section \<open>Stacks of values\<close>

definition stack_of :: "(reg \<Rightarrow> reg_info option) \<Rightarrow> reg \<Rightarrow> ptr list" where
  "stack_of vars r = (case vars r of None \<Rightarrow> [] | Some rInfo \<Rightarrow> ri_valueStack rInfo)"

definition top_of :: "'a list \<Rightarrow> 'a option" where
  "top_of xs = (if xs = [] then None else Some (last xs))"

lemma top_of_simps [simp]: "top_of [] = None" "top_of (xs @ [x]) = Some x"
  by (simp_all add: top_of_def)

lemma getLastValueUnsafe_top: "getLastValueUnsafe vars r = top_of (stack_of vars r)"
  by (simp add: getLastValueUnsafe_def stack_of_def top_of_def split: option.split)

lemma pushValue_ok:
  assumes "r \<in> dom vars" and "length (stack_of vars r) < 250"
  obtains vars' where "pushValue vars r v = Inr vars'" and "dom vars' = dom vars"
    and "stack_of vars' = (stack_of vars)(r := stack_of vars r @ [v])"
proof -
  obtain x where x: "vars r = Some x" using assms(1) by blast
  have "length (ri_valueStack x) < 250" using assms(2) x by (simp add: stack_of_def)
  then show thesis using x
    by (intro that [of "vars(r \<mapsto> x\<lparr>ri_valueStack := ri_valueStack x @ [v]\<rparr>)"])
      (auto simp: pushValue_def ptrs_push_buffer stack_of_def fun_eq_iff)
qed

lemma popValue_ok:
  assumes "stack_of vars r \<noteq> []"
  obtains vars' where "popValue vars r = Inr vars'" and "dom vars' = dom vars"
    and "stack_of vars' = (stack_of vars)(r := butlast (stack_of vars r))"
proof -
  obtain x where x: "vars r = Some x" "ri_valueStack x \<noteq> []" using assms by (auto simp: stack_of_def split: option.splits)
  then show thesis
    by (intro that [of "vars(r \<mapsto> x\<lparr>ri_valueStack := butlast (ri_valueStack x)\<rparr>)"])
      (auto simp: popValue_def stack_of_def fun_eq_iff)
qed

lemma push_phis_ok:
  assumes "set rs \<subseteq> dom (rn_vars st)" and "distinct rs" and "\<forall>r \<in> set rs. bi_phiMap bInfo r \<noteq> None"
    and "\<forall>r \<in> set rs. length (stack_of (rn_vars st) r) < 250"
  shows "\<exists>vars'. push_phis bInfo rs st = Inr (st\<lparr>rn_vars := vars'\<rparr>) \<and> dom vars' = dom (rn_vars st) \<and>
    stack_of vars' = (\<lambda>r. stack_of (rn_vars st) r @ (if r \<in> set rs then [the (bi_phiMap bInfo r)] else []))"
  using assms
proof (induction rs arbitrary: st)
  case Nil
  then show ?case by (intro exI [of _ "rn_vars st"]) simp
next
  case (Cons r rs)
  obtain p where p: "bi_phiMap bInfo r = Some p" using Cons.prems(3) by auto
  have "r \<in> dom (rn_vars st)" "length (stack_of (rn_vars st) r) < 250" using Cons.prems(1,4) by auto
  then obtain vars1 where v: "pushValue (rn_vars st) r p = Inr vars1" "dom vars1 = dom (rn_vars st)"
    "stack_of vars1 = (stack_of (rn_vars st))(r := stack_of (rn_vars st) r @ [p])" by (rule pushValue_ok)
  have "\<exists>vars'. push_phis bInfo rs (st\<lparr>rn_vars := vars1\<rparr>) = Inr (st\<lparr>rn_vars := vars1\<rparr>\<lparr>rn_vars := vars'\<rparr>) \<and>
      dom vars' = dom (rn_vars (st\<lparr>rn_vars := vars1\<rparr>)) \<and>
      stack_of vars' = (\<lambda>r. stack_of (rn_vars (st\<lparr>rn_vars := vars1\<rparr>)) r @ (if r \<in> set rs then [the (bi_phiMap bInfo r)] else []))"
    by (rule Cons.IH) (use Cons.prems v in \<open>auto split: if_splits\<close>)
  then obtain vars' where w: "push_phis bInfo rs (st\<lparr>rn_vars := vars1\<rparr>) = Inr (st\<lparr>rn_vars := vars'\<rparr>)" "dom vars' = dom vars1"
    "stack_of vars' = (\<lambda>r. stack_of vars1 r @ (if r \<in> set rs then [the (bi_phiMap bInfo r)] else []))" by auto
  have "stack_of vars' = (\<lambda>r'. stack_of (rn_vars st) r' @ (if r' \<in> set (r # rs) then [the (bi_phiMap bInfo r')] else []))"
    using w(3) v(3) p Cons.prems(2) by (auto simp: fun_eq_iff)
  then show ?case using w(1,2) v(1,2) p by (intro exI [of _ vars']) (simp add: phi_inst_def)
qed

text \<open>Values are popped for a list of registers.\<close>

lemma pop_phis_ok:
  assumes "\<forall>r. count_list rs r \<le> length (stack_of (rn_vars st) r)"
  shows "\<exists>vars'. pop_phis rs st = Inr (st\<lparr>rn_vars := vars'\<rparr>) \<and> dom vars' = dom (rn_vars st) \<and>
    stack_of vars' = (\<lambda>r. take (length (stack_of (rn_vars st) r) - count_list rs r) (stack_of (rn_vars st) r))"
  using assms
proof (induction rs arbitrary: st)
  case Nil
  then show ?case by (intro exI [of _ "rn_vars st"]) simp
next
  case (Cons r rs)
  have "1 \<le> length (stack_of (rn_vars st) r)" using spec [OF Cons.prems, of r] by simp
  then have "stack_of (rn_vars st) r \<noteq> []" by auto
  then obtain vars1 where v: "popValue (rn_vars st) r = Inr vars1" "dom vars1 = dom (rn_vars st)"
    "stack_of vars1 = (stack_of (rn_vars st))(r := butlast (stack_of (rn_vars st) r))" by (rule popValue_ok)
  have "\<exists>vars'. pop_phis rs (st\<lparr>rn_vars := vars1\<rparr>) = Inr (st\<lparr>rn_vars := vars1\<rparr>\<lparr>rn_vars := vars'\<rparr>) \<and>
      dom vars' = dom (rn_vars (st\<lparr>rn_vars := vars1\<rparr>)) \<and>
      stack_of vars' = (\<lambda>r. take (length (stack_of (rn_vars (st\<lparr>rn_vars := vars1\<rparr>)) r) - count_list rs r) (stack_of (rn_vars (st\<lparr>rn_vars := vars1\<rparr>)) r))"
  proof (rule Cons.IH, intro allI)
    show "count_list rs r' \<le> length (stack_of (rn_vars (st\<lparr>rn_vars := vars1\<rparr>)) r')" for r'
      using spec [OF Cons.prems, of r'] v(3) by (cases "r' = r") auto
  qed
  then obtain vars' where w: "pop_phis rs (st\<lparr>rn_vars := vars1\<rparr>) = Inr (st\<lparr>rn_vars := vars'\<rparr>)" "dom vars' = dom vars1"
    "stack_of vars' = (\<lambda>r. take (length (stack_of vars1 r) - count_list rs r) (stack_of vars1 r))" by auto
  have "stack_of vars' r' = take (length (stack_of (rn_vars st) r') - count_list (r # rs) r') (stack_of (rn_vars st) r')" for r'
    using w(3) v(3) spec [OF Cons.prems, of r'] by (cases "r' = r") (auto simp: take_butlast)
  then show ?case using w(1,2) v(1,2) by (intro exI [of _ vars']) (auto simp: fun_eq_iff)
qed

lemma pop_phis_append: "pop_phis (as @ bs) st = bindE (pop_phis as st) (pop_phis bs)"
  by (induction as arbitrary: st) (simp_all add: bindE_assoc)

lemma pop_assigns_phis:
  assumes "\<forall>i \<in> set is. ir_insts (rn_ir st) i \<noteq> None"
  shows "pop_assigns is st = pop_phis (map (inst_reg (rn_ir st)) (filter (inst_is (rn_ir st) INST_ASSIGN_VAR) is)) st"
  using assms
proof (induction "is" arbitrary: st)
  case (Cons i "is")
  obtain inst where i: "ir_insts (rn_ir st) i = Some inst" using Cons.prems by auto
  show ?case
  proof (cases "i_type inst = INST_ASSIGN_VAR")
    case True
    then have "inst_is (rn_ir st) INST_ASSIGN_VAR i" "inst_reg (rn_ir st) i = reg_of inst" using i by (simp_all add: inst_is_def inst_reg_def)
    with True i Cons show ?thesis by (cases "popValue (rn_vars st) (reg_of inst)") (simp_all add: get_inst_def)
  next
    case False
    then have "\<not> inst_is (rn_ir st) INST_ASSIGN_VAR i" using i by (simp add: inst_is_def)
    with False i Cons show ?thesis by (simp add: get_inst_def)
  qed
qed simp

lemma rename_leave_ok:
  assumes i: "\<forall>i \<in> set (bi_loadAssigns bInfo). ir_insts (rn_ir st) i \<noteq> None"
    and s: "stack_of (rn_vars st) = (\<lambda>r. S r @ xs r)"
    and n: "\<And>r. length (xs r) = length (filter (\<lambda>i. inst_is (rn_ir st) INST_ASSIGN_VAR i \<and> inst_reg (rn_ir st) i = r) (bi_loadAssigns bInfo)) +
      count_list (bi_phiList bInfo) r"
  shows "\<exists>vars'. rename_leave bInfo st = Inr (st\<lparr>rn_vars := vars'\<rparr>) \<and> dom vars' = dom (rn_vars st) \<and> stack_of vars' = S"
proof -
  let ?rs = "map (inst_reg (rn_ir st)) (filter (inst_is (rn_ir st) INST_ASSIGN_VAR) (bi_loadAssigns bInfo)) @ bi_phiList bInfo"
  have "rename_leave bInfo st = pop_phis ?rs st"
    using pop_assigns_phis [OF i] by (simp add: rename_leave_def pop_phis_append)
  moreover have "count_list (map f (filter P ys)) r = length (filter (\<lambda>i. P i \<and> f i = r) ys)" for f :: "ptr \<Rightarrow> reg" and P ys r
    by (induction ys) auto
  then have "count_list ?rs r = length (xs r)" for r using n by (simp add: count_list_append)
  moreover from this have "\<forall>r. count_list ?rs r \<le> length (stack_of (rn_vars st) r)" using s by simp
  from pop_phis_ok [OF this] obtain vars' where "pop_phis ?rs st = Inr (st\<lparr>rn_vars := vars'\<rparr>)" "dom vars' = dom (rn_vars st)"
    "stack_of vars' = (\<lambda>r. take (length (stack_of (rn_vars st) r) - count_list ?rs r) (stack_of (rn_vars st) r))" by blast
  ultimately show ?thesis using s by (intro exI [of _ vars']) simp
qed

section \<open>The setting\<close>

text \<open>
  \<open>ir0\<close> is the context before the conversion, \<open>ir1\<close> the one with the phis, \<open>infos\<close> what is known of the blocks
  then, and \<open>res\<close> the values the loads stand for.
\<close>

definition phis_of :: "block_info list \<Rightarrow> nat \<Rightarrow> reg \<Rightarrow> ptr option" where
  "phis_of infos k r = (if k < length infos then bi_phiMap (infos ! k) r else None)"

definition phi_insts :: "block_info \<Rightarrow> ptr list" where
  "phi_insts info = rev (map (\<lambda>r. the (bi_phiMap info r)) (bi_phiList info))"

abbreviation block_end :: "ir_context \<Rightarrow> dominators \<Rightarrow> nat \<Rightarrow> nat" where
  "block_end ir d k \<equiv> length (block_la ir d k)"

definition rename_flow :: "ir_context \<Rightarrow> dominators \<Rightarrow> bool" where
  "rename_flow ir0 d \<longleftrightarrow> ir_good ir0 \<and> jumps_last ir0 \<and> distinct (d_postorder d) \<and>
     (\<forall>b \<in> set (d_postorder d). is_block ir0 b \<and> set (successor_blocks ir0 b) \<subseteq> set (d_postorder d)) \<and>
     (\<forall>k < length (d_postorder d). dominators_getNumber d (d_postorder d ! k) = Inr k) \<and>
     length (d_doms d) = length (d_postorder d) \<and> full_tree (d_doms d) \<and>
     length (d_childs d) = length (d_postorder d) \<and> (\<forall>k < length (d_postorder d). d_childs d ! k = tree_children (d_doms d) k)"

definition rename_infos :: "ir_context \<Rightarrow> ir_context \<Rightarrow> dominators \<Rightarrow> block_info list \<Rightarrow> bool" where
  "rename_infos ir0 ir1 d infos \<longleftrightarrow> (\<exists>infos0. placed ir0 (d_postorder d) infos0 ir1 infos) \<and>
     (\<forall>k < length (d_postorder d). bi_loadAssigns (infos ! k) = block_la ir0 d k \<and> \<not> bi_isRenamed (infos ! k))"

text \<open>An assignment takes a value that is not a block; a load it takes stands before it.\<close>

definition loads_before :: "ir_context \<Rightarrow> dominators \<Rightarrow> bool" where
  "loads_before ir d \<longleftrightarrow> (\<forall>k < length (d_postorder d). \<forall>n < block_end ir d k. \<forall>u.
     inst_is ir INST_ASSIGN_VAR (block_la ir d k ! n) \<longrightarrow> operands ir (block_la ir d k ! n) = [Some u] \<longrightarrow>
       \<not> is_block ir u \<and> (u \<in> loads ir d \<longrightarrow> u \<in> set (take n (block_la ir d k)) \<or> (\<exists>j \<in> chain (d_doms d) k - {k}. u \<in> set (block_la ir d j))))"

definition loads_resolved :: "ir_context \<Rightarrow> dominators \<Rightarrow> (nat \<Rightarrow> reg \<Rightarrow> ptr option) \<Rightarrow> (ptr \<Rightarrow> ptr) \<Rightarrow> bool" where
  "loads_resolved ir d ph res \<longleftrightarrow> (\<forall>u \<in> loads ir d. resolves_to ir d ph u (res u))"

definition rename_limits :: "ir_context \<Rightarrow> dominators \<Rightarrow> bool" where
  "rename_limits ir d \<longleftrightarrow> (\<Sum>k < length (d_postorder d). 1 + block_end ir d k) \<le> 250 \<and>
     (\<forall>b \<in> set (d_postorder d). card (set (predecessor_blocks ir b)) \<le> 16)"

definition rename_setting :: "ir_context \<Rightarrow> ir_context \<Rightarrow> dominators \<Rightarrow> block_info list \<Rightarrow> (ptr \<Rightarrow> ptr) \<Rightarrow> bool" where
  "rename_setting ir0 ir1 d infos res \<longleftrightarrow> rename_flow ir0 d \<and> rename_infos ir0 ir1 d infos \<and> loads_before ir0 d \<and>
     loads_resolved ir0 d (phis_of infos) res \<and> rename_limits ir0 d"

lemma flowD:
  assumes "rename_flow ir0 d"
  shows "ir_good ir0" and "jumps_last ir0" and "distinct (d_postorder d)" and "\<forall>b \<in> set (d_postorder d). is_block ir0 b"
    and "b \<in> set (d_postorder d) \<Longrightarrow> s \<in> set (successor_blocks ir0 b) \<Longrightarrow> s \<in> set (d_postorder d)"
    and "k < length (d_postorder d) \<Longrightarrow> dominators_getNumber d (d_postorder d ! k) = Inr k"
    and "length (d_doms d) = length (d_postorder d)" and "full_tree (d_doms d)" and "length (d_childs d) = length (d_postorder d)"
    and "k < length (d_postorder d) \<Longrightarrow> d_childs d ! k = tree_children (d_doms d) k"
    and "k < length (d_postorder d) \<Longrightarrow> is_block ir0 (d_postorder d ! k)"
  using assms unfolding rename_flow_def by auto

lemma settingsD:
  assumes "rename_setting ir0 ir1 d infos res"
  shows "rename_flow ir0 d" and "rename_infos ir0 ir1 d infos" and "loads_before ir0 d"
    and "loads_resolved ir0 d (phis_of infos) res" and "rename_limits ir0 d"
  using assms by (simp_all add: rename_setting_def)

lemma infosD:
  assumes "rename_infos ir0 ir1 d infos"
  shows "ir_good ir1" and "ir_blocks ir1 = ir_blocks ir0" and "is_value ir0 v \<Longrightarrow> is_value ir1 v" and "is_block ir1 b = is_block ir0 b"
    and "ir_insts ir0 i \<noteq> None \<Longrightarrow> ir_insts ir1 i = ir_insts ir0 i \<and> operands ir1 i = operands ir0 i" and "length infos = length (d_postorder d)"
    and "k < length (d_postorder d) \<Longrightarrow> bi_loadAssigns (infos ! k) = block_la ir0 d k \<and> \<not> bi_isRenamed (infos ! k)"
    and "k < length (d_postorder d) \<Longrightarrow> distinct (bi_phiList (infos ! k)) \<and> (\<forall>r. r \<in> set (bi_phiList (infos ! k)) \<longleftrightarrow> bi_phiMap (infos ! k) r \<noteq> None)"
    and "k < length (d_postorder d) \<Longrightarrow> block_instructions ir1 (d_postorder d ! k) = phi_insts (infos ! k) @ block_instructions ir0 (d_postorder d ! k)"
    and "k < length (d_postorder d) \<Longrightarrow> bi_phiMap (infos ! k) r = Some p \<Longrightarrow> ir_insts ir0 p = None \<and> operands ir1 p = [] \<and> inst_is ir1 INST_PHI p"
    and "k < length (d_postorder d) \<Longrightarrow> phis_of infos k = bi_phiMap (infos ! k)"
proof -
  obtain infos0 where p: "placed ir0 (d_postorder d) infos0 ir1 infos" using assms by (auto simp: rename_infos_def)
  note P = placedD [OF p]
  show "ir_good ir1" "ir_blocks ir1 = ir_blocks ir0" "is_value ir0 v \<Longrightarrow> is_value ir1 v" "is_block ir1 b = is_block ir0 b"
    "ir_insts ir0 i \<noteq> None \<Longrightarrow> ir_insts ir1 i = ir_insts ir0 i \<and> operands ir1 i = operands ir0 i" "length infos = length (d_postorder d)"
    using P(1-6,8) by blast+
  show "k < length (d_postorder d) \<Longrightarrow> bi_loadAssigns (infos ! k) = block_la ir0 d k \<and> \<not> bi_isRenamed (infos ! k)"
    using assms by (simp add: rename_infos_def)
  assume k: "k < length (d_postorder d)"
  note o = P(7) [OF k, unfolded phis_ok_def]
  show "distinct (bi_phiList (infos ! k)) \<and> (\<forall>r. r \<in> set (bi_phiList (infos ! k)) \<longleftrightarrow> bi_phiMap (infos ! k) r \<noteq> None)"
    "block_instructions ir1 (d_postorder d ! k) = phi_insts (infos ! k) @ block_instructions ir0 (d_postorder d ! k)"
    "bi_phiMap (infos ! k) r = Some p \<Longrightarrow> ir_insts ir0 p = None \<and> operands ir1 p = [] \<and> inst_is ir1 INST_PHI p"
    using o unfolding phi_insts_def by blast+
  show "phis_of infos k = bi_phiMap (infos ! k)" using P(6) k by (simp add: phis_of_def fun_eq_iff)
qed

lemma phi_in_block:
  assumes "rename_infos ir0 ir1 d infos" and "k < length (d_postorder d)" and "bi_phiMap (infos ! k) r = Some p"
  shows "p \<in> set (phi_insts (infos ! k))" and "p \<in> set (block_instructions ir1 (d_postorder d ! k))"
proof -
  have "r \<in> set (bi_phiList (infos ! k))" using infosD(8) [OF assms(1,2)] assms(3) by simp
  then show *: "p \<in> set (phi_insts (infos ! k))" using assms(3) by (force simp: phi_insts_def)
  then show "p \<in> set (block_instructions ir1 (d_postorder d ! k))" using infosD(9) [OF assms(1,2)] by simp
qed

lemma phi_unique:
  assumes f: "rename_flow ir0 d" and i: "rename_infos ir0 ir1 d infos"
    and k: "k < length (d_postorder d)" "bi_phiMap (infos ! k) r = Some p" and j: "j < length (d_postorder d)" "bi_phiMap (infos ! j) r' = Some p"
  shows "k = j \<and> r = r'"
proof -
  have b: "is_block ir1 (d_postorder d ! m)" if "m < length (d_postorder d)" for m using flowD(11) [OF f that] infosD(4) [OF i] by simp
  have par: "parent_of ir1 p = d_postorder d ! m" if "m < length (d_postorder d)" "bi_phiMap (infos ! m) s = Some p" for m s
    using block_instructionsD(2) [OF infosD(1) [OF i] b [OF that(1)] phi_in_block(2) [OF i that]] by (auto simp: parent_of_def)
  have "d_postorder d ! k = d_postorder d ! j" using par [OF k] par [OF j] by simp
  then have e: "k = j" using flowD(3) [OF f] k(1) j(1) nth_eq_iff_index_eq by blast
  have "distinct (phi_insts (infos ! k) @ block_instructions ir0 (d_postorder d ! k))"
    using block_instructionsD(1) [OF infosD(1) [OF i] b [OF k(1)]] unfolding infosD(9) [OF i k(1)] .
  then have "inj_on (\<lambda>r. the (bi_phiMap (infos ! k) r)) (set (bi_phiList (infos ! k)))" by (simp add: phi_insts_def distinct_map)
  moreover have "r \<in> set (bi_phiList (infos ! k))" "r' \<in> set (bi_phiList (infos ! k))" using infosD(8) [OF i k(1)] k(2) j(2) e by auto
  ultimately have "r = r'" using k(2) j(2) e inj_on_eq_iff [of "\<lambda>r. the (bi_phiMap (infos ! k) r)" _ r r'] by simp
  with e show ?thesis by simp
qed

lemma value_not_block: "ir_good ir \<Longrightarrow> ir_insts ir i \<noteq> None \<Longrightarrow> \<not> is_block ir i"
proof
  assume g: "ir_good ir" and i: "ir_insts ir i \<noteq> None" and b: "is_block ir i"
  obtain L where inv: "ir_inv ir L" using ir_goodE [OF g] .
  note bl = ir_ok_D(3) [OF ir_inv_D(1) [OF inv]]
  obtain x where "ir_insts ir i = Some x" using i by blast
  from blocks_D(4) [OF bl this] obtain y where y: "ir_values ir i = Some y" "v_type y = INST" by blast
  obtain f where "ir_blocks ir i = Some f" using b by (auto simp: is_block_def)
  from blocks_D(1) [OF bl this] y show False by auto
qed

lemma load_is_inst: "u \<in> loads ir d \<Longrightarrow> ir_insts ir u \<noteq> None"
  by (auto simp: loads_def inst_is_def)

text \<open>What reaches a point is a value, but neither a load nor a block.\<close>

lemma reaching_value:
  assumes s: "rename_setting ir0 ir1 d infos res"
  shows "value_reaches ir0 d (phis_of infos) k n r v \<Longrightarrow> is_value ir1 v \<and> v \<notin> loads ir0 d \<and> \<not> is_block ir0 v"
    and "u \<in> loads ir0 d \<Longrightarrow> is_value ir1 (res u) \<and> res u \<notin> loads ir0 d \<and> \<not> is_block ir0 (res u)"
proof -
  note S = settingsD [OF s] and I = infosD [OF settingsD(2) [OF s]] and f = flowD [OF settingsD(1) [OF s]]
  let ?P = "\<lambda>v. is_value ir1 v \<and> v \<notin> loads ir0 d \<and> \<not> is_block ir0 v" and ?Q = "\<lambda>u. is_value ir0 u \<and> \<not> is_block ir0 u"
  have P: "?P p" if "phis_of infos k r = Some p" for k r p
  proof -
    have k: "k < length (d_postorder d)" "bi_phiMap (infos ! k) r = Some p" using that I(6) by (auto simp: phis_of_def split: if_splits)
    note p = I(10) [OF k]
    have "ir_insts ir1 p \<noteq> None" using p by (auto simp: inst_is_def)
    then show ?thesis using inst_value [OF I(1)] value_not_block [OF I(1)] I(4) p load_is_inst by blast
  qed
  have Q: "?Q u" if "k < length (d_postorder d)" "n < block_end ir0 d k" "inst_is ir0 INST_ASSIGN_VAR (block_la ir0 d k ! n)"
    "operands ir0 (block_la ir0 d k ! n) = [Some u]" for k n u
    using assigned_value_ok [OF f(1) that(3)] that(4) S(3) [unfolded loads_before_def, rule_format, OF that] by auto
  show "value_reaches ir0 d (phis_of infos) k n r v \<Longrightarrow> ?P v"
    by (rule reaches_what(1) [where P = ?P and Q = ?Q, OF P Q]) (use I(3) in auto)
  show "?P (res u)" if "u \<in> loads ir0 d"
    by (rule reaches_what(2) [where P = ?P and Q = ?Q, OF P Q _ S(4) [unfolded loads_resolved_def, rule_format, OF that]])
      (use I(3) that in auto)
qed

section \<open>A context in the course of renaming\<close>

definition subst_loads :: "ir_context \<Rightarrow> dominators \<Rightarrow> (ptr \<Rightarrow> ptr) \<Rightarrow> ptr set \<Rightarrow> ptr \<Rightarrow> ptr" where
  "subst_loads ir0 d res P u = (if u \<in> loads ir0 d \<and> u \<in> P then res u else u)"

definition pair_operands :: "(ptr \<times> ptr) list \<Rightarrow> ptr option list" where
  "pair_operands prs = map Some (flat prs)"

lemma pair_operands_simps [simp]:
  "pair_operands [] = []" "length (pair_operands prs) = 2 * length prs" "pair_operands (prs @ [(b, v)]) = pair_operands prs @ [Some b, Some v]"
  by (simp_all add: pair_operands_def flat_snoc) (simp add: flat_def)

lemma has_pair_operands: "has_pair (pair_operands prs) (Some b) (Some v) \<longleftrightarrow> (b, v) \<in> set prs"
proof -
  have "(pair_operands prs ! (2 * j) = Some b \<and> pair_operands prs ! (2 * j + 1) = Some v) \<longleftrightarrow> prs ! j = (b, v)" if "j < length prs" for j
    using flat_nth [OF that] that by (auto simp: pair_operands_def prod_eq_iff)
  then show ?thesis unfolding has_pair_def by (auto simp: in_set_conv_nth)
qed

lemma pair_operands_set: "x \<in> set (pair_operands prs) \<longleftrightarrow> (\<exists>b v. (b, v) \<in> set prs \<and> (x = Some b \<or> x = Some v))"
  by (force simp: pair_operands_def flat_def)

text \<open>The operands of the phi for \<open>r\<close> in the block \<open>k\<close>, when the edges \<open>F\<close> have been filled.\<close>

definition phi_pairs :: "ir_context \<Rightarrow> dominators \<Rightarrow> block_info list \<Rightarrow> (nat \<times> nat \<times> reg) set \<Rightarrow> nat \<Rightarrow> reg \<Rightarrow> (ptr \<times> ptr) set" where
  "phi_pairs ir0 d infos F k r = {(d_postorder d ! j, v) | j v. (j, k, r) \<in> F \<and> j < length (d_postorder d) \<and>
     value_reaches ir0 d (phis_of infos) j (block_end ir0 d j) r v}"

definition renamed ::
  "ir_context \<Rightarrow> ir_context \<Rightarrow> dominators \<Rightarrow> block_info list \<Rightarrow> (ptr \<Rightarrow> ptr) \<Rightarrow> ptr set \<Rightarrow> (nat \<times> nat \<times> reg) set \<Rightarrow> ir_context \<Rightarrow> bool" where
  "renamed ir0 ir1 d infos res P F ir \<longleftrightarrow> ir_good ir \<and> same_objects ir1 ir \<and>
     (\<forall>i. ir_insts ir0 i \<noteq> None \<longrightarrow> ir_insts ir i = ir_insts ir0 i \<and>
        operands ir i = map (map_option (subst_loads ir0 d res P)) (operands ir0 i)) \<and>
     (\<forall>k < length (d_postorder d). block_instructions ir (d_postorder d ! k) =
        phi_insts (infos ! k) @ filter (\<lambda>i. i \<notin> P) (block_instructions ir0 (d_postorder d ! k))) \<and>
     (\<forall>k < length (d_postorder d). \<forall>r p. bi_phiMap (infos ! k) r = Some p \<longrightarrow> inst_is ir INST_PHI p \<and>
        (\<exists>prs. operands ir p = pair_operands prs \<and> distinct prs \<and> set prs = phi_pairs ir0 d infos F k r))"

lemma renamedD:
  assumes "renamed ir0 ir1 d infos res P F ir"
  shows "ir_good ir" and "same_objects ir1 ir" and "ir_insts ir0 i \<noteq> None \<Longrightarrow> ir_insts ir i = ir_insts ir0 i"
    and "ir_insts ir0 i \<noteq> None \<Longrightarrow> operands ir i = map (map_option (subst_loads ir0 d res P)) (operands ir0 i)"
    and "k < length (d_postorder d) \<Longrightarrow> block_instructions ir (d_postorder d ! k) =
        phi_insts (infos ! k) @ filter (\<lambda>i. i \<notin> P) (block_instructions ir0 (d_postorder d ! k))"
    and "k < length (d_postorder d) \<Longrightarrow> bi_phiMap (infos ! k) r = Some p \<Longrightarrow> inst_is ir INST_PHI p \<and>
        (\<exists>prs. operands ir p = pair_operands prs \<and> distinct prs \<and> set prs = phi_pairs ir0 d infos F k r)"
  using assms unfolding renamed_def by blast+

lemma renamed_start:
  assumes i: "rename_infos ir0 ir1 d infos"
  shows "renamed ir0 ir1 d infos res {} {} ir1"
  unfolding renamed_def
proof (intro conjI allI impI)
  note I = infosD [OF i]
  show "ir_good ir1" "same_objects ir1 ir1" using I(1) by simp_all
  show "ir_insts ir1 j = ir_insts ir0 j" "operands ir1 j = map (map_option (subst_loads ir0 d res {})) (operands ir0 j)" if "ir_insts ir0 j \<noteq> None" for j
  proof -
    have "map_option (subst_loads ir0 d res {}) x = x" for x by (cases x) (simp_all add: subst_loads_def)
    then show "ir_insts ir1 j = ir_insts ir0 j" "operands ir1 j = map (map_option (subst_loads ir0 d res {})) (operands ir0 j)" using I(5) [OF that] by (simp_all add: map_idI)
  qed
  fix k assume k: "k < length (d_postorder d)"
  show "block_instructions ir1 (d_postorder d ! k) = phi_insts (infos ! k) @ filter (\<lambda>i. i \<notin> {}) (block_instructions ir0 (d_postorder d ! k))"
    using I(9) [OF k] by simp
  fix r p assume "bi_phiMap (infos ! k) r = Some p"
  from I(10) [OF k this] show "inst_is ir1 INST_PHI p"
    "\<exists>prs. operands ir1 p = pair_operands prs \<and> distinct prs \<and> set prs = phi_pairs ir0 d infos {} k r"
    by (auto simp: phi_pairs_def)
qed

text \<open>A load or an assignment that has been handled is taken out of its block.\<close>

lemma la_inserted:
  assumes s: "rename_setting ir0 ir1 d infos res" and v: "renamed ir0 ir1 d infos res P F ir" and k: "k < length (d_postorder d)"
    and i: "i \<in> set (block_la ir0 d k)" "i \<notin> P"
  shows "inserted ir i"
proof -
  note S = settingsD(1) [OF s] and V = renamedD [OF v]
  have b: "is_block ir (d_postorder d ! k)" using flowD(11) [OF S k] infosD(4) [OF settingsD(2) [OF s]] same_objectsD(5) [OF V(2)] by simp
  have "i \<in> set (block_instructions ir (d_postorder d ! k))"
    using V(5) [OF k] block_laD(3) [OF flowD(1,4) [OF S] k i(1)] i(2) by simp
  then show ?thesis by (rule block_instructionsD(4) [OF V(1) b])
qed

lemma renamed_remove:
  assumes s: "rename_setting ir0 ir1 d infos res" and v: "renamed ir0 ir1 d infos res P F ir" and k: "k < length (d_postorder d)"
    and i: "i \<in> set (block_la ir0 d k)" "i \<notin> P"
    and o: "ir_insts ir' = ir_insts ir" "ir_good ir'" "same_objects ir ir'"
      "\<And>c. is_block ir c \<Longrightarrow> block_instructions ir' c = filter (\<lambda>j. j \<noteq> i) (block_instructions ir c)"
      "\<And>j. ir_insts ir0 j \<noteq> None \<Longrightarrow> operands ir' j = map (map_option (subst_loads ir0 d res (insert i P))) (operands ir0 j)"
      "\<And>k r p. k < length (d_postorder d) \<Longrightarrow> bi_phiMap (infos ! k) r = Some p \<Longrightarrow> operands ir' p = operands ir p"
  shows "renamed ir0 ir1 d infos res (insert i P) F ir'"
  unfolding renamed_def
proof (intro conjI allI impI)
  note S = settingsD(1) [OF s] and I = infosD [OF settingsD(2) [OF s]] and V = renamedD [OF v]
  show "ir_good ir'" by (rule o(2))
  show "same_objects ir1 ir'" using V(2) o(3) same_objects_trans by blast
  show "ir_insts ir' j = ir_insts ir0 j" if "ir_insts ir0 j \<noteq> None" for j using V(3) [OF that] o(1) by simp
  show "operands ir' j = map (map_option (subst_loads ir0 d res (insert i P))) (operands ir0 j)" if "ir_insts ir0 j \<noteq> None" for j
    by (rule o(5) [OF that])
  have i0: "ir_insts ir0 i \<noteq> None" using block_laD(2) [OF flowD(1,4) [OF S] k i(1)] by blast
  fix m assume m: "m < length (d_postorder d)"
  have b: "is_block ir (d_postorder d ! m)" using flowD(11) [OF S m] I(4) same_objectsD(5) [OF V(2)] by simp
  have "i \<notin> set (phi_insts (infos ! m))"
  proof
    assume "i \<in> set (phi_insts (infos ! m))"
    then obtain r where "r \<in> set (bi_phiList (infos ! m))" "the (bi_phiMap (infos ! m) r) = i" by (auto simp: phi_insts_def)
    with I(8) [OF m] have "bi_phiMap (infos ! m) r = Some i" by auto
    from I(10) [OF m this] i0 show False by simp
  qed
  then show "block_instructions ir' (d_postorder d ! m) = phi_insts (infos ! m) @ filter (\<lambda>j. j \<notin> insert i P) (block_instructions ir0 (d_postorder d ! m))"
    using o(4) [OF b] V(5) [OF m] by (simp add: filter_other conj_commute)
  fix r p assume p: "bi_phiMap (infos ! m) r = Some p"
  show "inst_is ir' INST_PHI p" "\<exists>prs. operands ir' p = pair_operands prs \<and> distinct prs \<and> set prs = phi_pairs ir0 d infos F m r"
    using V(6) [OF m p] o(1) o(6) [OF m p] by (simp_all add: inst_is_def)
qed

lemma renamed_assign:
  assumes s: "rename_setting ir0 ir1 d infos res" and v: "renamed ir0 ir1 d infos res P F ir" and k: "k < length (d_postorder d)"
    and i: "i \<in> set (block_la ir0 d k)" "i \<notin> P" "i \<notin> loads ir0 d"
  obtains ir' where "inst_remove ir i = Inr ir'" and "renamed ir0 ir1 d infos res (insert i P) F ir'"
proof -
  note V = renamedD [OF v]
  obtain ir' where r: "inst_remove ir i = Inr ir'" "ir_good ir'" "same_objects ir ir'" "ir_insts ir' = ir_insts ir" "operands ir' = operands ir"
    "\<And>c. is_block ir c \<Longrightarrow> block_instructions ir' c = filter (\<lambda>j. j \<noteq> i) (block_instructions ir c)"
    by (rule remove_view [OF V(1) la_inserted [OF s v k i(1,2)]]) (rule that; assumption)
  have "subst_loads ir0 d res (insert i P) = subst_loads ir0 d res P" using i(3) by (auto simp: subst_loads_def fun_eq_iff)
  then have "renamed ir0 ir1 d infos res (insert i P) F ir'"
    by (intro renamed_remove [OF s v k i(1,2) r(4,2,3,6)]) (use V(4) r(5) in simp_all)
  with r(1) that show thesis by blast
qed

lemma renamed_load:
  assumes s: "rename_setting ir0 ir1 d infos res" and v: "renamed ir0 ir1 d infos res P F ir" and k: "k < length (d_postorder d)"
    and i: "i \<in> set (block_la ir0 d k)" "i \<notin> P" "i \<in> loads ir0 d"
  obtains ir1' ir' where "value_replaceAllUses (ir_top ir) ir i (res i) = Inr ir1'" and "inst_remove ir1' i = Inr ir'"
    and "renamed ir0 ir1 d infos res (insert i P) F ir'"
proof -
  note S = settingsD(1) [OF s] and I = infosD [OF settingsD(2) [OF s]] and V = renamedD [OF v]
  have i0: "ir_insts ir0 i \<noteq> None" using load_is_inst [OF i(3)] .
  have iv: "is_value ir i" using inst_value [OF V(1)] V(3) [OF i0] i0 by simp
  have rv: "is_value ir (res i)" "res i \<noteq> i" using reaching_value(2) [OF s i(3)] same_objectsD(4) [OF V(2)] i(3) by auto
  obtain ir2 where u: "value_replaceAllUses (ir_top ir) ir i (res i) = Inr ir2" "ir_good ir2" "same_objects ir ir2" "ir_insts ir2 = ir_insts ir"
    "\<And>j. operands ir2 j = map (\<lambda>x. if x = Some i then Some (res i) else x) (operands ir j)"
    "\<And>c. is_block ir c \<Longrightarrow> block_instructions ir2 c = block_instructions ir c"
    by (rule replace_view [OF V(1) iv rv(1) rv(2) [symmetric]]) (rule that; assumption)
  have ins: "inserted ir2 i"
  proof -
    note ins = la_inserted [OF s v k i(1,2)]
    note d = insertedD [OF V(1) ins]
    from d u(4) show ?thesis using u(6) [OF d(1)] same_objectsD(2) [OF u(3)]
      by (auto simp: inserted_def parent_of_def is_block_def split: option.splits)
  qed
  obtain ir' where r: "inst_remove ir2 i = Inr ir'" "ir_good ir'" "same_objects ir2 ir'" "ir_insts ir' = ir_insts ir2" "operands ir' = operands ir2"
    "\<And>c. is_block ir2 c \<Longrightarrow> block_instructions ir' c = filter (\<lambda>j. j \<noteq> i) (block_instructions ir2 c)"
    by (rule remove_view [OF u(2) ins]) (rule that; assumption)
  have "renamed ir0 ir1 d infos res (insert i P) F ir'"
  proof (rule renamed_remove [OF s v k i(1,2)])
    show "ir_insts ir' = ir_insts ir" "ir_good ir'" "same_objects ir ir'" using r u same_objects_trans by metis+
    show "block_instructions ir' c = filter (\<lambda>j. j \<noteq> i) (block_instructions ir c)" if "is_block ir c" for c
      using r(6) u(6) that same_objectsD(5) [OF u(3)] by simp
    fix j assume "ir_insts ir0 j \<noteq> None"
    then have "operands ir' j = map (\<lambda>x. if x = Some i then Some (res i) else x) (map (map_option (subst_loads ir0 d res P)) (operands ir0 j))"
      using r(5) u(5) V(4) by simp
    moreover have "(if y = Some i then Some (res i) else y) = map_option (subst_loads ir0 d res (insert i P)) x"
      if "y = map_option (subst_loads ir0 d res P) x" for x y
    proof (cases x)
      case (Some w)
      have "res w \<noteq> i" if "w \<in> loads ir0 d" using reaching_value(2) [OF s that] i(3) by auto
      with Some that i(2,3) show ?thesis by (auto simp: subst_loads_def)
    qed (use that in simp)
    ultimately show "operands ir' j = map (map_option (subst_loads ir0 d res (insert i P))) (operands ir0 j)" by simp
  next
    fix m r p assume m: "m < length (d_postorder d)" "bi_phiMap (infos ! m) r = Some p"
    obtain prs where p: "operands ir p = pair_operands prs" "set prs = phi_pairs ir0 d infos F m r" using V(6) [OF m] by blast
    have "x \<noteq> Some i" if "x \<in> set (operands ir p)" for x
    proof -
      from that p obtain j w where j: "j < length (d_postorder d)" "value_reaches ir0 d (phis_of infos) j (block_end ir0 d j) r w"
        "x = Some (d_postorder d ! j) \<or> x = Some w" by (auto simp: pair_operands_set phi_pairs_def)
      have "d_postorder d ! j \<noteq> i" using flowD(11) [OF S j(1)] value_not_block [OF flowD(1) [OF S] i0] by auto
      moreover have "w \<noteq> i" using reaching_value(1) [OF s j(2)] i(3) by auto
      ultimately show ?thesis using j(3) by auto
    qed
    then have "map (\<lambda>x. if x = Some i then Some (res i) else x) (operands ir p) = operands ir p" by (intro map_idI) auto
    then show "operands ir' p = operands ir p" using r(5) u(5) by simp
  qed
  with u(1) r(1) that show thesis by blast
qed

section \<open>Filling the phis\<close>

definition flow_edges :: "ir_context \<Rightarrow> dominators \<Rightarrow> (nat \<times> nat \<times> reg) set" where
  "flow_edges ir0 d = {(j, k, r). j < length (d_postorder d) \<and> k < length (d_postorder d) \<and>
     d_postorder d ! k \<in> set (successor_blocks ir0 (d_postorder d ! j))}"

lemma reaches_unique:
  assumes "rename_flow ir0 d" and "value_reaches ir0 d ph k n r v" and "value_reaches ir0 d ph k n r w"
  shows "v = w"
  using reaches_deterministic(1) [OF flowD(1,4,3) [OF assms(1)] assms(3,2)] .

lemma phi_pairs_room:
  assumes s: "rename_setting ir0 ir1 d infos res" and m: "m < length (d_postorder d)" and F: "F \<subseteq> flow_edges ir0 d"
  shows "finite (phi_pairs ir0 d infos F m r)" and "card (phi_pairs ir0 d infos F m r) \<le> 16"
proof -
  note S = settingsD [OF s] and f = flowD [OF settingsD(1) [OF s]]
  let ?T = "phi_pairs ir0 d infos F m r" and ?B = "set (predecessor_blocks ir0 (d_postorder d ! m))"
  obtain L where inv: "ir_inv ir0 L" and c: "ir_complete ir0" using ir_goodE [OF f(1)] .
  have "inj_on fst ?T"
  proof (rule inj_onI)
    fix x y assume x: "x \<in> ?T" and y: "y \<in> ?T" and e: "fst x = fst y"
    from x obtain j v where j: "j < length (d_postorder d)" "x = (d_postorder d ! j, v)"
      "value_reaches ir0 d (phis_of infos) j (block_end ir0 d j) r v" by (auto simp: phi_pairs_def)
    from y obtain i w where i: "i < length (d_postorder d)" "y = (d_postorder d ! i, w)"
      "value_reaches ir0 d (phis_of infos) i (block_end ir0 d i) r w" by (auto simp: phi_pairs_def)
    have "d_postorder d ! j = d_postorder d ! i" using e j(2) i(2) by simp
    then have "j = i" using f(3) j(1) i(1) nth_eq_iff_index_eq by blast
    with j i reaches_unique [OF S(1)] show "x = y" by blast
  qed
  moreover have "fst ` ?T \<subseteq> ?B"
  proof
    fix b assume "b \<in> fst ` ?T"
    then obtain j where j: "(j, m, r) \<in> F" "b = d_postorder d ! j" by (auto simp: phi_pairs_def)
    with F have "j < length (d_postorder d)" "d_postorder d ! m \<in> set (successor_blocks ir0 b)" by (auto simp: flow_edges_def)
    then show "b \<in> ?B" using edges_dual [OF inv c f(2) f(11) [OF m]] f(11) j(2) by simp
  qed
  then have fin: "finite (fst ` ?T)" by (rule finite_subset) simp
  ultimately show "finite ?T" using finite_imageD by blast
  have "card ?T = card (fst ` ?T)" using \<open>inj_on fst ?T\<close> by (simp add: card_image)
  also have "\<dots> \<le> card ?B" by (rule card_mono) (use \<open>fst ` ?T \<subseteq> ?B\<close> in simp_all)
  also have "\<dots> \<le> 16" using S(5) m by (simp add: rename_limits_def)
  finally show "card ?T \<le> 16" .
qed

lemma phi_pairs_insert:
  "k < length (d_postorder d) \<Longrightarrow> value_reaches ir0 d (phis_of infos) k (block_end ir0 d k) r w \<Longrightarrow> rename_flow ir0 d \<Longrightarrow>
    phi_pairs ir0 d infos (insert (k, m, r) F) m r = insert (d_postorder d ! k, w) (phi_pairs ir0 d infos F m r)"
  "m' \<noteq> m \<or> r' \<noteq> r \<Longrightarrow> phi_pairs ir0 d infos (insert (k, m, r) F) m' r' = phi_pairs ir0 d infos F m' r'"
  "\<nexists>w. value_reaches ir0 d (phis_of infos) k (block_end ir0 d k) r w \<Longrightarrow> phi_pairs ir0 d infos (insert (k, m, r) F) = phi_pairs ir0 d infos F"
  using reaches_unique by (auto simp: phi_pairs_def fun_eq_iff)

lemma renamed_fill:
  assumes s: "rename_setting ir0 ir1 d infos res" and v: "renamed ir0 ir1 d infos res P F ir" and k: "(k, m, r) \<in> flow_edges ir0 d"
    and p: "bi_phiMap (infos ! m) r = Some p" and w: "value_reaches ir0 d (phis_of infos) k (block_end ir0 d k) r w" and F: "F \<subseteq> flow_edges ir0 d"
  obtains ir' where "inst_phi_insertValue ir p (d_postorder d ! k) w = Inr ir'" and "renamed ir0 ir1 d infos res P (insert (k, m, r) F) ir'"
proof -
  note S = settingsD [OF s] and f = flowD [OF settingsD(1) [OF s]] and I = infosD [OF settingsD(2) [OF s]] and V = renamedD [OF v]
  have km: "k < length (d_postorder d)" "m < length (d_postorder d)" using k by (auto simp: flow_edges_def)
  let ?b = "d_postorder d ! k" and ?F = "insert (k, m, r) F"
  obtain prs where prs: "operands ir p = pair_operands prs" "distinct prs" "set prs = phi_pairs ir0 d infos F m r" "inst_is ir INST_PHI p"
    using V(6) [OF km(2) p] by blast
  obtain inst where i: "ir_insts ir p = Some inst" "i_type inst = INST_PHI" using prs(4) by (auto simp: inst_is_def)
  have "is_block ir ?b" using f(11) [OF km(1)] I(4) same_objectsD(5) [OF V(2)] by simp
  moreover obtain L where "ir_inv ir L" using ir_goodE [OF V(1)] .
  ultimately have bv: "is_value ir ?b" using block_value [of ir L ?b] by (simp add: is_value_def)
  have wv: "is_value ir w" using reaching_value(1) [OF s w] same_objectsD(4) [OF V(2)] by simp
  have pairs: "phi_pairs ir0 d infos ?F m r = insert (?b, w) (set prs)" using phi_pairs_insert(1) [OF km(1) w S(1)] prs(3) by simp
  have room: "length (operands ir p) < 32" if "(?b, w) \<notin> set prs"
  proof -
    have "?F \<subseteq> flow_edges ir0 d" using F k by simp
    from phi_pairs_room(2) [OF s km(2) this, of r] have "card (insert (?b, w) (set prs)) \<le> 16" unfolding pairs .
    then show ?thesis using that prs(1,2) distinct_card [OF prs(2)] by simp
  qed
  note hp = has_pair_operands [of prs ?b w]
  from phi_insert_view [OF V(1) i bv wv] room hp obtain ir' us t n where o: "inst_phi_insertValue ir p ?b w = Inr ir'" "ir_good ir'" "same_objects ir ir'"
    "ir_insts ir' = (ir_insts ir)(p \<mapsto> inst\<lparr>i_usesSet := t, i_useCount := n, i_uses := us\<rparr>)"
    "operands ir' p = (if has_pair (operands ir p) (Some ?b) (Some w) then operands ir p else operands ir p @ [Some ?b, Some w])"
    "\<forall>j. j \<noteq> p \<longrightarrow> operands ir' j = operands ir j" "\<forall>c. is_block ir c \<longrightarrow> block_instructions ir' c = block_instructions ir c"
    unfolding prs(1) by fastforce
  have p0: "ir_insts ir0 p = None" using I(10) [OF km(2) p] by simp
  have "renamed ir0 ir1 d infos res P ?F ir'"
    unfolding renamed_def
  proof (intro conjI allI impI)
    show "ir_good ir'" "same_objects ir1 ir'" using o(2,3) V(2) same_objects_trans by blast+
    show "ir_insts ir' j = ir_insts ir0 j" "operands ir' j = map (map_option (subst_loads ir0 d res P)) (operands ir0 j)" if "ir_insts ir0 j \<noteq> None" for j
    proof -
      have "j \<noteq> p" using that p0 by auto
      then show "ir_insts ir' j = ir_insts ir0 j" "operands ir' j = map (map_option (subst_loads ir0 d res P)) (operands ir0 j)"
        using V(3,4) [OF that] o(4,6) by simp_all
    qed
    fix q assume q: "q < length (d_postorder d)"
    have "is_block ir (d_postorder d ! q)" using f(11) [OF q] I(4) same_objectsD(5) [OF V(2)] by simp
    then show "block_instructions ir' (d_postorder d ! q) = phi_insts (infos ! q) @ filter (\<lambda>i. i \<notin> P) (block_instructions ir0 (d_postorder d ! q))"
      using o(7) V(5) [OF q] by simp
    fix r' p' assume p': "bi_phiMap (infos ! q) r' = Some p'"
    show "inst_is ir' INST_PHI p'" using V(6) [OF q p'] o(4) i by (auto simp: inst_is_def)
    show "\<exists>prs. operands ir' p' = pair_operands prs \<and> distinct prs \<and> set prs = phi_pairs ir0 d infos ?F q r'"
    proof (cases "p' = p")
      case True
      then have e: "q = m" "r' = r" using phi_unique [OF S(1,2) q _ km(2) p] p' by auto
      show ?thesis
      proof (cases "(?b, w) \<in> set prs")
        case True
        then show ?thesis using o(5) hp prs(1,2) pairs e \<open>p' = p\<close> by (intro exI [of _ prs]) auto
      next
        case False
        then show ?thesis using o(5) hp prs(1,2) pairs e \<open>p' = p\<close> by (intro exI [of _ "prs @ [(?b, w)]"]) auto
      qed
    next
      case False
      then have "q \<noteq> m \<or> r' \<noteq> r" using p p' by auto
      then show ?thesis using False o(6) V(6) [OF q p'] phi_pairs_insert(2) by simp
    qed
  qed
  with o(1) that show thesis by blast
qed

lemma fill_phis_ok:
  assumes s: "rename_setting ir0 ir1 d infos res" and k: "k < length (d_postorder d)" "m < length (d_postorder d)"
      "d_postorder d ! m \<in> set (successor_blocks ir0 (d_postorder d ! k))"
    and top: "\<And>r v. value_reaches ir0 d (phis_of infos) k (block_end ir0 d k) r v \<longleftrightarrow> top_of (stack_of vars r) = Some v"
    and sInfo: "bi_phiMap sInfo = bi_phiMap (infos ! m)"
    and "renamed ir0 ir1 d infos res P F ir" and "F \<subseteq> flow_edges ir0 d" and "\<forall>r \<in> set rs. bi_phiMap (infos ! m) r \<noteq> None"
  shows "\<exists>ir'. fill_phis vars sInfo (d_postorder d ! k) rs ir = Inr ir' \<and>
    renamed ir0 ir1 d infos res P (F \<union> {(k, m, r) | r. r \<in> set rs}) ir'"
  using assms(7-)
proof (induction rs arbitrary: F ir)
  case (Cons r rs)
  have e: "(k, m, r) \<in> flow_edges ir0 d" using k by (simp add: flow_edges_def)
  obtain p where p: "bi_phiMap (infos ! m) r = Some p" using Cons.prems(3) by auto
  have un: "insert (k, m, r) F \<union> {(k, m, r') | r'. r' \<in> set rs} = F \<union> {(k, m, r') | r'. r' \<in> set (r # rs)}" by auto
  have sub: "insert (k, m, r) F \<subseteq> flow_edges ir0 d" using Cons.prems(2) e by simp
  have rs: "\<forall>r \<in> set rs. bi_phiMap (infos ! m) r \<noteq> None" using Cons.prems(3) by simp
  show ?case
  proof (cases "top_of (stack_of vars r)")
    case None
    then have "\<nexists>w. value_reaches ir0 d (phis_of infos) k (block_end ir0 d k) r w" using top by simp
    then have "renamed ir0 ir1 d infos res P (insert (k, m, r) F) ir"
      using Cons.prems(1) phi_pairs_insert(3) unfolding renamed_def by simp
    from Cons.IH [OF this sub rs] obtain ir' where "fill_phis vars sInfo (d_postorder d ! k) rs ir = Inr ir'"
      "renamed ir0 ir1 d infos res P (F \<union> {(k, m, r') | r'. r' \<in> set (r # rs)}) ir'" unfolding un by blast
    with None show ?thesis by (intro exI [of _ ir'] conjI) (simp add: getLastValueUnsafe_top)
  next
    case (Some w)
    then have "value_reaches ir0 d (phis_of infos) k (block_end ir0 d k) r w" using top by simp
    then obtain ir' where i: "inst_phi_insertValue ir p (d_postorder d ! k) w = Inr ir'" "renamed ir0 ir1 d infos res P (insert (k, m, r) F) ir'"
      by (rule renamed_fill [OF s Cons.prems(1) e p _ Cons.prems(2)])
    from Cons.IH [OF i(2) sub rs] obtain ir2 where "fill_phis vars sInfo (d_postorder d ! k) rs ir' = Inr ir2"
      "renamed ir0 ir1 d infos res P (F \<union> {(k, m, r') | r'. r' \<in> set (r # rs)}) ir2" unfolding un by blast
    with i(1) Some p sInfo show ?thesis by (intro exI [of _ ir2] conjI) (simp add: getLastValueUnsafe_top phi_inst_def)
  qed
qed simp

section \<open>The loads and assignments of a block\<close>

definition assigns_to :: "ir_context \<Rightarrow> reg \<Rightarrow> ptr list \<Rightarrow> ptr list" where
  "assigns_to ir r is = filter (\<lambda>i. inst_is ir INST_ASSIGN_VAR i \<and> inst_reg ir i = r) is"

text \<open>What reaches the point behind an assignment or load, when the values before it are known.\<close>

lemma reaches_behind_assign:
  assumes f: "rename_flow ir0 d" and k: "k < length (d_postorder d)" and n: "n < block_end ir0 d k"
    and a: "inst_is ir0 INST_ASSIGN_VAR (block_la ir0 d k ! n)" "operands ir0 (block_la ir0 d k ! n) = [Some u]" and w: "resolves_to ir0 d ph u w"
  shows "value_reaches ir0 d ph k (Suc n) r v \<longleftrightarrow> (if inst_reg ir0 (block_la ir0 d k ! n) = r then v = w else value_reaches ir0 d ph k n r v)"
proof (cases "inst_reg ir0 (block_la ir0 d k ! n) = r")
  case True
  have "v = w" if "value_reaches ir0 d ph k (Suc n) r v"
    using that
  proof (rule reaches_SucE)
    fix u' assume "operands ir0 (block_la ir0 d k ! n) = [Some u']" "resolves_to ir0 d ph u' v"
    then have "resolves_to ir0 d ph u v" using a(2) by simp
    from reaches_deterministic(2) [OF flowD(1,4,3) [OF f] w this] show ?thesis .
  qed (use True a(1) in simp)
  moreover have "value_reaches ir0 d ph k (Suc n) r w" by (rule reach_assign [OF k n a(1) True a(2) w])
  ultimately show ?thesis using True by auto
next
  case False
  have "value_reaches ir0 d ph k n r v" if "value_reaches ir0 d ph k (Suc n) r v"
    using that by (rule reaches_SucE) (use False in simp_all)
  moreover have "value_reaches ir0 d ph k (Suc n) r v" if "value_reaches ir0 d ph k n r v"
    by (rule reach_other [OF n _ that]) (use False in simp)
  ultimately show ?thesis using False by auto
qed

lemma reaches_behind_load:
  assumes n: "n < block_end ir0 d k" and a: "\<not> inst_is ir0 INST_ASSIGN_VAR (block_la ir0 d k ! n)"
  shows "value_reaches ir0 d ph k (Suc n) r v \<longleftrightarrow> value_reaches ir0 d ph k n r v"
proof
  assume "value_reaches ir0 d ph k (Suc n) r v"
  then show "value_reaches ir0 d ph k n r v" by (rule reaches_SucE) (use a in simp_all)
next
  assume "value_reaches ir0 d ph k n r v"
  then show "value_reaches ir0 d ph k (Suc n) r v" by (intro reach_other [OF n]) (use a in simp)
qed

lemma rename_insts_ok:
  assumes s: "rename_setting ir0 ir1 d infos res" and k: "k < length (d_postorder d)"
    and P: "P \<inter> set (block_la ir0 d k) = {}" "\<forall>j \<in> chain (d_doms d) k - {k}. set (block_la ir0 d j) \<subseteq> P"
    and "n \<le> block_end ir0 d k" and "renamed ir0 ir1 d infos res (P \<union> set (take n (block_la ir0 d k))) F (rn_ir st)"
    and "inst_reg ir0 ` set (block_la ir0 d k) \<subseteq> dom (rn_vars st)"
    and "\<forall>r v. value_reaches ir0 d (phis_of infos) k n r v \<longleftrightarrow> top_of (stack_of (rn_vars st) r) = Some v"
    and "\<forall>r. length (stack_of (rn_vars st) r) + (block_end ir0 d k - n) \<le> 250"
  shows "\<exists>ir' vars' xs. rename_insts (drop n (block_la ir0 d k)) st = Inr (st\<lparr>rn_ir := ir', rn_vars := vars'\<rparr>) \<and>
    renamed ir0 ir1 d infos res (P \<union> set (block_la ir0 d k)) F ir' \<and> dom vars' = dom (rn_vars st) \<and>
    stack_of vars' = (\<lambda>r. stack_of (rn_vars st) r @ xs r) \<and> (\<forall>r. length (xs r) = length (assigns_to ir0 r (drop n (block_la ir0 d k)))) \<and>
    (\<forall>r v. value_reaches ir0 d (phis_of infos) k (block_end ir0 d k) r v \<longleftrightarrow> top_of (stack_of vars' r) = Some v)"
  using assms(5-)
proof (induction "block_end ir0 d k - n" arbitrary: n st)
  case 0
  then have n: "n = block_end ir0 d k" by simp
  have "stack_of (rn_vars st) = (\<lambda>r. stack_of (rn_vars st) r @ [])" by simp
  moreover have "rename_insts (drop n (block_la ir0 d k)) st = Inr (st\<lparr>rn_ir := rn_ir st, rn_vars := rn_vars st\<rparr>)" using n by simp
  ultimately show ?case using 0(3,5) n
    by (intro exI [of _ "rn_ir st"] exI [of _ "rn_vars st"] exI [of _ "\<lambda>r. []"]) (simp add: assigns_to_def)
next
  case (Suc q)
  note S = settingsD [OF s] and f = flowD [OF settingsD(1) [OF s]]
  let ?la = "block_la ir0 d k" and ?ph = "phis_of infos" and ?P = "P \<union> set (take n (block_la ir0 d k))"
  have n: "n < length ?la" using Suc(2) by simp
  let ?i = "?la ! n"
  have i: "?i \<in> set ?la" using n by simp
  note il = block_laD(2) [OF f(1,4) k i]
  note V = renamedD [OF Suc.prems(2)]
  have drop: "drop n ?la = ?i # drop (Suc n) ?la" and tk: "take (Suc n) ?la = take n ?la @ [?i]"
    using n by (simp_all add: Cons_nth_drop_Suc take_Suc_conv_app_nth)
  have fresh: "?i \<notin> ?P"
  proof -
    have "distinct (take n ?la @ [?i])" using block_laD(1) [OF f(1,4) k] distinct_take [of ?la "Suc n"] tk by simp
    then show ?thesis using P(1) i by auto
  qed
  have P': "insert ?i ?P = P \<union> set (take (Suc n) ?la)" using tk by simp
  obtain inst where inst: "ir_insts ir0 ?i = Some inst" using il by blast
  have get: "get_inst (rn_ir st) ?i = Inr inst" "reg_of inst = inst_reg ir0 ?i" using V(3) [of ?i] inst by (simp_all add: get_inst_def inst_reg_def)
  have q: "q = block_end ir0 d k - Suc n" "Suc n \<le> block_end ir0 d k" using Suc(2) n by simp_all
  show ?case
  proof (cases "inst_is ir0 INST_LOAD_VAR ?i")
    case True
    have ty: "i_type inst = INST_LOAD_VAR" "\<not> inst_is ir0 INST_ASSIGN_VAR ?i" using True inst by (auto simp: inst_is_def)
    have load: "?i \<in> loads ir0 d" by (rule loadsI [OF k n True])
    have "resolves_to ir0 d ?ph ?i (res ?i)" using S(4) load by (simp add: loads_resolved_def)
    then have "value_reaches ir0 d ?ph k n (inst_reg ir0 ?i) (res ?i)"
    proof (rule resolvesE)
      fix j m assume j: "j < length (d_postorder d)" "m < length (block_la ir0 d j)" "block_la ir0 d j ! m = ?i"
        "value_reaches ir0 d ?ph j m (inst_reg ir0 ?i) (res ?i)"
      have "k = j \<and> n = m" by (rule la_position [OF f(1,4,3) k n j(1,2)]) (use j(3) in simp)
      with j(4) show ?thesis by simp
    qed (use load in simp)
    then have last: "getLastValue (rn_vars st) (reg_of inst) = Inr (res ?i)"
      using Suc.prems(4) get(2) by (simp add: getLastValue_def getLastValueUnsafe_top)
    obtain ir2 ir' where r: "value_replaceAllUses (ir_top (rn_ir st)) (rn_ir st) ?i (res ?i) = Inr ir2" "inst_remove ir2 ?i = Inr ir'"
      "renamed ir0 ir1 d infos res (insert ?i ?P) F ir'" by (rule renamed_load [OF s Suc.prems(2) k i fresh load])
    have step: "rename_inst ?i st = Inr (st\<lparr>rn_ir := ir'\<rparr>)" using get ty last r by (simp add: rename_inst_def)
    have "\<exists>ir'' vars' xs. rename_insts (drop (Suc n) ?la) (st\<lparr>rn_ir := ir'\<rparr>) = Inr (st\<lparr>rn_ir := ir'\<rparr>\<lparr>rn_ir := ir'', rn_vars := vars'\<rparr>) \<and>
      renamed ir0 ir1 d infos res (P \<union> set ?la) F ir'' \<and> dom vars' = dom (rn_vars (st\<lparr>rn_ir := ir'\<rparr>)) \<and>
      stack_of vars' = (\<lambda>r. stack_of (rn_vars (st\<lparr>rn_ir := ir'\<rparr>)) r @ xs r) \<and> (\<forall>r. length (xs r) = length (assigns_to ir0 r (drop (Suc n) ?la))) \<and>
      (\<forall>r v. value_reaches ir0 d ?ph k (length ?la) r v \<longleftrightarrow> top_of (stack_of vars' r) = Some v)"
    proof (rule Suc.hyps(1) [OF q])
      show "renamed ir0 ir1 d infos res (P \<union> set (take (Suc n) ?la)) F (rn_ir (st\<lparr>rn_ir := ir'\<rparr>))" using r(3) unfolding P' by simp
      show "\<forall>r v. value_reaches ir0 d ?ph k (Suc n) r v \<longleftrightarrow> top_of (stack_of (rn_vars (st\<lparr>rn_ir := ir'\<rparr>)) r) = Some v"
        using reaches_behind_load [OF n ty(2)] Suc.prems(4) by simp
      show "\<forall>r. length (stack_of (rn_vars (st\<lparr>rn_ir := ir'\<rparr>)) r) + (length ?la - Suc n) \<le> 250"
      proof
        show "length (stack_of (rn_vars (st\<lparr>rn_ir := ir'\<rparr>)) r) + (length ?la - Suc n) \<le> 250" for r using spec [OF Suc.prems(5), of r] by simp
      qed
    qed (use Suc.prems(3) in simp)
    moreover have "assigns_to ir0 r (drop n ?la) = assigns_to ir0 r (drop (Suc n) ?la)" for r using ty(2) drop by (simp add: assigns_to_def)
    ultimately show ?thesis using step drop by auto
  next
    case False
    then have a: "inst_is ir0 INST_ASSIGN_VAR ?i" using il by (simp add: is_load_assign_def)
    have ty: "i_type inst = INST_ASSIGN_VAR" using a inst by (simp add: inst_is_def)
    obtain u where u: "operands ir0 ?i = [Some u]" using assigned_value_ok [OF f(1) a] by metis
    let ?w = "subst_loads ir0 d res ?P u"
    have ow: "operands (rn_ir st) ?i = [Some ?w]" using V(4) [of ?i] il u by simp
    have "inst_is (rn_ir st) INST_ASSIGN_VAR ?i" using V(3) [of ?i] a inst by (simp add: inst_is_def)
    from assigned_value_ok [OF V(1) this] have w: "assigned_value (rn_ir st) inst = Inr ?w" using V(3) [of ?i] inst ow by (metis list.inject option.inject option.distinct(1))
    have res: "resolves_to ir0 d ?ph u ?w"
    proof (cases "u \<in> loads ir0 d")
      case True
      have "u \<in> set (take n ?la) \<or> (\<exists>j \<in> chain (d_doms d) k - {k}. u \<in> set (block_la ir0 d j))"
        using S(3) [unfolded loads_before_def, rule_format, OF k n a u] True by blast
      then have "u \<in> ?P" using P(2) by blast
      then show ?thesis using True S(4) by (simp add: subst_loads_def loads_resolved_def)
    next
      case False
      then show ?thesis by (simp add: subst_loads_def resolve_plain)
    qed
    let ?r = "inst_reg ir0 ?i" and ?S = "stack_of (rn_vars st)"
    have "?r \<in> dom (rn_vars st)" by (rule subsetD [OF Suc.prems(3) imageI [OF i]])
    moreover have "length (?S ?r) < 250" using spec [OF Suc.prems(5), of ?r] n by simp
    ultimately obtain vars1 where v: "pushValue (rn_vars st) ?r ?w = Inr vars1" "dom vars1 = dom (rn_vars st)" "stack_of vars1 = ?S(?r := ?S ?r @ [?w])"
      by (rule pushValue_ok)
    have "?i \<notin> loads ir0 d" using False by (simp add: loads_def)
    then obtain ir' where r: "inst_remove (rn_ir st) ?i = Inr ir'" "renamed ir0 ir1 d infos res (insert ?i ?P) F ir'"
      by (rule renamed_assign [OF s Suc.prems(2) k i fresh])
    let ?st = "st\<lparr>rn_ir := ir', rn_vars := vars1\<rparr>"
    have step: "rename_inst ?i st = Inr ?st" using get ty w v(1) r(1) by (simp add: rename_inst_def)
    have "\<exists>ir'' vars' xs. rename_insts (drop (Suc n) ?la) ?st = Inr (?st\<lparr>rn_ir := ir'', rn_vars := vars'\<rparr>) \<and>
      renamed ir0 ir1 d infos res (P \<union> set ?la) F ir'' \<and> dom vars' = dom (rn_vars ?st) \<and>
      stack_of vars' = (\<lambda>r. stack_of (rn_vars ?st) r @ xs r) \<and> (\<forall>r. length (xs r) = length (assigns_to ir0 r (drop (Suc n) ?la))) \<and>
      (\<forall>r v. value_reaches ir0 d ?ph k (length ?la) r v \<longleftrightarrow> top_of (stack_of vars' r) = Some v)"
    proof (rule Suc.hyps(1) [OF q])
      show "renamed ir0 ir1 d infos res (P \<union> set (take (Suc n) ?la)) F (rn_ir ?st)" using r(2) unfolding P' by simp
      show "inst_reg ir0 ` set ?la \<subseteq> dom (rn_vars ?st)" using Suc.prems(3) v(2) by simp
      show "\<forall>r v. value_reaches ir0 d ?ph k (Suc n) r v \<longleftrightarrow> top_of (stack_of (rn_vars ?st) r) = Some v"
        using reaches_behind_assign [OF S(1) k n a u res] Suc.prems(4) v(3) by auto
      show "\<forall>r. length (stack_of (rn_vars ?st) r) + (length ?la - Suc n) \<le> 250"
      proof
        show "length (stack_of (rn_vars ?st) r) + (length ?la - Suc n) \<le> 250" for r using spec [OF Suc.prems(5), of r] n v(3) by (cases "r = ?r") simp_all
      qed
    qed
    then obtain ir'' vars' xs where e: "rename_insts (drop (Suc n) ?la) ?st = Inr (?st\<lparr>rn_ir := ir'', rn_vars := vars'\<rparr>)"
      "renamed ir0 ir1 d infos res (P \<union> set ?la) F ir''" "dom vars' = dom vars1" "stack_of vars' = (\<lambda>r. stack_of vars1 r @ xs r)"
      "\<forall>r. length (xs r) = length (assigns_to ir0 r (drop (Suc n) ?la))"
      "\<forall>r v. value_reaches ir0 d ?ph k (length ?la) r v \<longleftrightarrow> top_of (stack_of vars' r) = Some v" by auto
    let ?xs = "\<lambda>r. if r = ?r then ?w # xs r else xs r"
    have "stack_of vars' = (\<lambda>r. ?S r @ ?xs r)" using e(4) v(3) by (auto simp: fun_eq_iff)
    moreover have "\<forall>r. length (?xs r) = length (assigns_to ir0 r (drop n ?la))" using e(5) a drop by (auto simp: assigns_to_def)
    ultimately show ?thesis using e(1-3,6) step drop v(2) by (intro exI [of _ ir''] exI [of _ vars'] exI [of _ ?xs]) simp
  qed
qed

section \<open>The successors of a block\<close>

definition jump_blocks :: "ir_context \<Rightarrow> ptr \<Rightarrow> ptr list" where
  "jump_blocks ir i = (case ir_insts ir i of None \<Rightarrow> []
     | Some inst \<Rightarrow> if i_type inst = INST_PHI then [] else filter (is_block ir) (map the (take (inst_count inst) (operands ir i))))"

lemma successor_blocks_jump: "successor_blocks ir b = (if block_instructions ir b = [] then [] else jump_blocks ir (last (block_instructions ir b)))"
  by (simp add: successor_blocks_def jump_blocks_def Let_def)

lemma jump_blocksD:
  assumes g: "ir_good ir" and i: "ir_insts ir i = Some inst" and s: "s \<in> set (jump_blocks ir i)"
  obtains k where "k < inst_count inst" and "k < length (operands ir i)" and "operands ir i ! k = Some s" and "is_block ir s" and "i_type inst \<noteq> INST_PHI"
proof -
  obtain L where inv: "ir_inv ir L" and c: "ir_complete ir" using ir_goodE [OF g] .
  have s': "s \<in> set (map the (take (inst_count inst) (operands ir i)))" "is_block ir s" "i_type inst \<noteq> INST_PHI"
    using s i by (auto simp: jump_blocks_def split: if_splits)
  then obtain k where k: "k < inst_count inst" "k < length (operands ir i)" "s = the (operands ir i ! k)" by (auto simp: in_set_conv_nth)
  obtain v where "operands ir i ! k = Some v" by (rule complete_operands [OF inv c i k(1)])
  with that k s' show thesis by simp
qed

lemma only_last_jumps:
  assumes g: "ir_good ir" and j: "jumps_last ir" and b: "is_block ir b" and i: "i \<in> set (block_instructions ir b)" "i \<noteq> last (block_instructions ir b)"
  shows "jump_blocks ir i = []"
proof (rule ccontr)
  assume "jump_blocks ir i \<noteq> []"
  then obtain s where s: "s \<in> set (jump_blocks ir i)" by (cases "jump_blocks ir i") auto
  obtain inst where inst: "ir_insts ir i = Some inst" "i_parent inst = b" using block_instructionsD(2) [OF g b i(1)] by blast
  obtain k where "k < length (operands ir i)" "operands ir i ! k = Some s" "is_block ir s" by (rule jump_blocksD [OF g inst(1) s])
  from jumps_lastD(2) [OF j inst(1) this] inst(2) i(2) show False by simp
qed

lemma la_jumps_nowhere:
  assumes s: "rename_setting ir0 ir1 d infos res" and k: "k < length (d_postorder d)" and i: "i \<in> set (block_la ir0 d k)"
  shows "jump_blocks ir0 i = []"
proof -
  note S = settingsD [OF s] and f = flowD [OF settingsD(1) [OF s]]
  note il = block_laD(2) [OF f(1,4) k i]
  obtain inst where inst: "ir_insts ir0 i = Some inst" using il by blast
  obtain n where n: "n < block_end ir0 d k" "block_la ir0 d k ! n = i" using i by (metis in_set_conv_nth)
  consider "inst_is ir0 INST_LOAD_VAR i" | "inst_is ir0 INST_ASSIGN_VAR i" using il by (auto simp: is_load_assign_def)
  then show ?thesis
  proof cases
    case 1
    then have "i_type inst = INST_LOAD_VAR" using inst by (simp add: inst_is_def)
    then show ?thesis using inst by (simp add: jump_blocks_def inst_count_def inst_getUses_def)
  next
    case 2
    obtain u where u: "operands ir0 i = [Some u]" using assigned_value_ok [OF f(1) 2] by metis
    have "\<not> is_block ir0 u" using S(3) [unfolded loads_before_def, rule_format, OF k n(1), of u] 2 n(2) u by simp
    then show ?thesis using inst u by (cases "inst_count inst") (auto simp: jump_blocks_def)
  qed
qed

lemma renamed_jump_blocks:
  assumes s: "rename_setting ir0 ir1 d infos res" and v: "renamed ir0 ir1 d infos res P F ir" and i: "ir_insts ir0 i \<noteq> None"
  shows "jump_blocks ir i = jump_blocks ir0 i"
proof -
  note S = settingsD [OF s] and f = flowD [OF settingsD(1) [OF s]] and I = infosD [OF settingsD(2) [OF s]] and V = renamedD [OF v]
  obtain L where inv: "ir_inv ir0 L" and c: "ir_complete ir0" using ir_goodE [OF f(1)] .
  obtain inst where inst: "ir_insts ir0 i = Some inst" using i by blast
  let ?ops = "take (inst_count inst) (operands ir0 i)" and ?s = "subst_loads ir0 d res P"
  have some: "x \<noteq> None" if "x \<in> set ?ops" for x
  proof -
    from that obtain k where k: "k < inst_count inst" "k < length (operands ir0 i)" "x = operands ir0 i ! k" by (auto simp: in_set_conv_nth)
    obtain w where "operands ir0 i ! k = Some w" by (rule complete_operands [OF inv c inst k(1)])
    with k(3) show ?thesis by simp
  qed
  have m: "map the (take (inst_count inst) (map (map_option ?s) (operands ir0 i))) = map ?s (map the ?ops)"
    using some unfolding take_map by (auto simp: option.map_sel)
  have fl: "filter (is_block ir0) (map ?s ws) = filter (is_block ir0) ws" for ws
  proof (induction ws)
    case (Cons w ws)
    have "is_block ir0 (?s w) = is_block ir0 w \<and> (is_block ir0 w \<longrightarrow> ?s w = w)"
      using reaching_value(2) [OF s, of w] value_not_block [OF f(1)] load_is_inst [of w ir0 d] by (auto simp: subst_loads_def)
    with Cons show ?case by simp
  qed simp
  have bl: "is_block ir = is_block ir0" using I(4) same_objectsD(5) [OF V(2)] by (auto simp: fun_eq_iff)
  show ?thesis using V(3,4) [OF i] inst unfolding jump_blocks_def bl by (simp only: m fl option.case)
qed

lemma last_filter: "xs \<noteq> [] \<Longrightarrow> Q (last xs) \<Longrightarrow> last (filter Q xs) = last xs"
  by (induction xs rule: rev_induct) simp_all

lemma renamed_successors:
  assumes s: "rename_setting ir0 ir1 d infos res" and v: "renamed ir0 ir1 d infos res P F ir" and k: "k < length (d_postorder d)"
    and P: "P \<subseteq> (\<Union>j < length (d_postorder d). set (block_la ir0 d j))"
  shows "successor_blocks ir (d_postorder d ! k) = successor_blocks ir0 (d_postorder d ! k)"
    and "successor_blocks ir0 (d_postorder d ! k) \<noteq> [] \<Longrightarrow> ir_insts ir0 (last (block_instructions ir (d_postorder d ! k))) \<noteq> None"
proof -
  note S = settingsD [OF s] and f = flowD [OF settingsD(1) [OF s]] and I = infosD [OF settingsD(2) [OF s]] and V = renamedD [OF v]
  let ?xs = "block_instructions ir0 (d_postorder d ! k)" and ?ys = "filter (\<lambda>i. i \<notin> P) (block_instructions ir0 (d_postorder d ! k))"
  note b = f(11) [OF k]
  have old: "ir_insts ir0 i \<noteq> None" if "i \<in> set ?xs" for i using block_instructionsD(2) [OF f(1) b that] by blast
  have gone: "jump_blocks ir0 i = []" if "i \<in> P" for i using that P la_jumps_nowhere [OF s] by blast
  have "successor_blocks ir (d_postorder d ! k) = successor_blocks ir0 (d_postorder d ! k) \<and>
    (successor_blocks ir0 (d_postorder d ! k) \<noteq> [] \<longrightarrow> ir_insts ir0 (last (block_instructions ir (d_postorder d ! k))) \<noteq> None)"
  proof (cases "?ys = []")
    case True
    have "successor_blocks ir0 (d_postorder d ! k) = []"
    proof (cases "?xs = []")
      case False
      then have "last ?xs \<in> P" using True by (auto simp: filter_empty_conv)
      then show ?thesis using gone by (simp add: successor_blocks_jump)
    qed (simp add: successor_blocks_jump)
    moreover have "successor_blocks ir (d_postorder d ! k) = []"
    proof (cases "phi_insts (infos ! k) = []")
      case False
      then have "last (phi_insts (infos ! k)) \<in> set (phi_insts (infos ! k))" by simp
      then obtain r where r: "r \<in> set (bi_phiList (infos ! k))" "last (phi_insts (infos ! k)) = the (bi_phiMap (infos ! k) r)"
        by (auto simp: phi_insts_def)
      then have "bi_phiMap (infos ! k) r = Some (last (phi_insts (infos ! k)))" using I(8) [OF k] by auto
      from V(6) [OF k this] have "inst_is ir INST_PHI (last (phi_insts (infos ! k)))" by simp
      then show ?thesis using V(5) [OF k] True by (auto simp: successor_blocks_jump jump_blocks_def inst_is_def)
    qed (use V(5) [OF k] True in \<open>simp add: successor_blocks_jump\<close>)
    ultimately show ?thesis by simp
  next
    case False
    let ?j = "last ?ys"
    have j: "?j \<in> set ?xs" "?j \<notin> P" using last_in_set [OF False] by auto
    have l: "last (block_instructions ir (d_postorder d ! k)) = ?j" "block_instructions ir (d_postorder d ! k) \<noteq> []" using V(5) [OF k] False by simp_all
    have e: "successor_blocks ir (d_postorder d ! k) = jump_blocks ir0 ?j"
      using l renamed_jump_blocks [OF s v old [OF j(1)]] by (simp add: successor_blocks_jump)
    have "jump_blocks ir0 ?j = successor_blocks ir0 (d_postorder d ! k)"
    proof (cases "?j = last ?xs")
      case True
      then show ?thesis using j(1) by (auto simp: successor_blocks_jump)
    next
      case False
      have "last ?xs \<in> P"
      proof (rule ccontr)
        assume "last ?xs \<notin> P"
        moreover have "?xs \<noteq> []" using j(1) by auto
        ultimately have "last ?ys = last ?xs" by (intro last_filter)
        with False show False by simp
      qed
      then have "successor_blocks ir0 (d_postorder d ! k) = []" using gone by (simp add: successor_blocks_jump)
      with only_last_jumps [OF f(1,2) b j(1) False] show ?thesis by simp
    qed
    then show ?thesis using e l(1) old [OF j(1)] by simp
  qed
  then show "successor_blocks ir (d_postorder d ! k) = successor_blocks ir0 (d_postorder d ! k)"
    "successor_blocks ir0 (d_postorder d ! k) \<noteq> [] \<Longrightarrow> ir_insts ir0 (last (block_instructions ir (d_postorder d ! k))) \<noteq> None" by simp_all
qed

section \<open>One block\<close>

definition infos_state :: "block_info list \<Rightarrow> nat set \<Rightarrow> block_info list" where
  "infos_state infos R = map (\<lambda>m. (infos ! m)\<lparr>bi_isRenamed := m \<in> R\<rparr>) [0 ..< length infos]"

lemma infos_state_nth [simp]: "length (infos_state infos R) = length infos"
  "m < length infos \<Longrightarrow> infos_state infos R ! m = (infos ! m)\<lparr>bi_isRenamed := m \<in> R\<rparr>"
  by (simp_all add: infos_state_def)

lemma infos_state_enter: "k < length infos \<Longrightarrow> (infos_state infos R)[k := (infos_state infos R ! k)\<lparr>bi_isRenamed := True\<rparr>] = infos_state infos (insert k R)"
  by (rule nth_equalityI) (auto simp: nth_list_update)

definition fill_edges :: "ir_context \<Rightarrow> dominators \<Rightarrow> block_info list \<Rightarrow> nat \<Rightarrow> ptr set \<Rightarrow> (nat \<times> nat \<times> reg) set" where
  "fill_edges ir0 d infos k B = {(k, m, r) | m r. m < length (d_postorder d) \<and> d_postorder d ! m \<in> B \<and> r \<in> set (bi_phiList (infos ! m))}"

lemma fill_edges_insert: "distinct (d_postorder d) \<Longrightarrow> m < length (d_postorder d) \<Longrightarrow> d_postorder d ! m = b \<Longrightarrow>
    F \<union> {(k, m, r) | r. r \<in> set (bi_phiList (infos ! m))} \<union> fill_edges ir0 d infos k B = F \<union> fill_edges ir0 d infos k (insert b B)"
  using nth_eq_iff_index_eq by (fastforce simp: fill_edges_def)

lemma fill_successors_ok:
  assumes s: "rename_setting ir0 ir1 d infos res" and k: "k < length (d_postorder d)"
    and top: "\<And>r v. value_reaches ir0 d (phis_of infos) k (block_end ir0 d k) r v \<longleftrightarrow> top_of (stack_of (rn_vars st) r) = Some v"
    and infos: "rn_infos st = infos_state infos R" and i: "ir_insts ir0 i = Some inst"
    and vs: "vs = map the (take (inst_count inst) (map (map_option (subst_loads ir0 d res P)) (operands ir0 i)))"
    and "renamed ir0 ir1 d infos res P F (rn_ir st)" and "F \<subseteq> flow_edges ir0 d"
    and "set (if x = 0 then [] else x # filter (is_block ir0) (drop j vs)) \<subseteq> set (successor_blocks ir0 (d_postorder d ! k))"
    and "x \<noteq> 0 \<Longrightarrow> j \<le> inst_count inst" and "if x = 0 then 0 < fuel else inst_count inst - j + 1 < fuel"
  shows "\<exists>ir'. fill_successors fuel d (d_postorder d ! k) \<lparr>sit_next = x, sit_inst = i, sit_i = j\<rparr> st = Inr (st\<lparr>rn_ir := ir'\<rparr>) \<and>
    renamed ir0 ir1 d infos res P (F \<union> fill_edges ir0 d infos k (set (if x = 0 then [] else x # filter (is_block ir0) (drop j vs)))) ir'"
  using top infos assms(7-)
proof (induction fuel arbitrary: x j st F)
  case (Suc fuel)
  note S = settingsD [OF s] and f = flowD [OF settingsD(1) [OF s]] and I = infosD [OF settingsD(2) [OF s]]
  show ?case
  proof (cases "x = 0")
    case True
    then show ?thesis using Suc.prems(3) by (intro exI [of _ "rn_ir st"]) (simp add: block_successor_end_def fill_edges_def)
  next
    case False
    have xs: "x \<in> set (successor_blocks ir0 (d_postorder d ! k))" using Suc.prems(5) False by simp
    then have "x \<in> set (d_postorder d)" using f(5) k nth_mem by blast
    then obtain m where m: "m < length (d_postorder d)" "d_postorder d ! m = x" by (metis in_set_conv_nth)
    let ?sInfo = "infos_state infos R ! m"
    have phis: "bi_phiList ?sInfo = bi_phiList (infos ! m)" "bi_phiMap ?sInfo = bi_phiMap (infos ! m)" using m I(6) by simp_all
    have "\<forall>r \<in> set (bi_phiList (infos ! m)). bi_phiMap (infos ! m) r \<noteq> None" using I(8) [OF m(1)] by blast
    from fill_phis_ok [OF s k m(1) _ Suc.prems(1) phis(2) Suc.prems(3,4) this] xs m(2) obtain ir' where
      fp: "fill_phis (rn_vars st) ?sInfo (d_postorder d ! k) (bi_phiList (infos ! m)) (rn_ir st) = Inr ir'"
        "renamed ir0 ir1 d infos res P (F \<union> {(k, m, r) | r. r \<in> set (bi_phiList (infos ! m))}) ir'" by blast
    let ?F = "F \<union> {(k, m, r) | r. r \<in> set (bi_phiList (infos ! m))}"
    note V = renamedD [OF fp(2)]
    obtain L where inv: "ir_inv ir' L" and c: "ir_complete ir'" using ir_goodE [OF V(1)] .
    have i': "ir_insts ir' i = Some inst" "operands ir' i = map (map_option (subst_loads ir0 d res P)) (operands ir0 i)"
      using V(3,4) [of i] i by simp_all
    have nz: "i \<noteq> 0" using object_atD [OF heap_D(4) [OF ir_ok_D(1) [OF ir_inv_D(1) [OF inv]] objectsI(2) [OF i'(1)]]] by blast
    have bl: "is_block ir' = is_block ir0" using I(4) same_objectsD(5) [OF V(2)] by (auto simp: fun_eq_iff)
    have vs': "vs = map the (take (inst_count inst) (operands ir' i))" using vs i'(2) by simp
    obtain x' j' where r: "block_successor_read ir' \<lparr>sit_next = x, sit_inst = i, sit_i = j\<rparr> = Inr \<lparr>sit_next = x', sit_inst = i, sit_i = j'\<rparr>"
      "if x' = 0 then filter (is_block ir') (drop j vs) = []
       else j < j' \<and> j' \<le> inst_count inst \<and> filter (is_block ir') (drop j vs) = x' # filter (is_block ir') (drop j' vs)"
      using successor_read_ok [OF inv c i'(1) nz Suc.prems(6) [OF False] vs'] .
    let ?rest = "if x' = 0 then [] else x' # filter (is_block ir0) (drop j' vs)"
    have rest: "filter (is_block ir0) (drop j vs) = ?rest" using r(2) unfolding bl by (simp split: if_splits)
    have "\<exists>ir''. fill_successors fuel d (d_postorder d ! k) \<lparr>sit_next = x', sit_inst = i, sit_i = j'\<rparr> (st\<lparr>rn_ir := ir'\<rparr>) = Inr (st\<lparr>rn_ir := ir'\<rparr>\<lparr>rn_ir := ir''\<rparr>) \<and>
      renamed ir0 ir1 d infos res P (?F \<union> fill_edges ir0 d infos k (set ?rest)) ir''"
    proof (rule Suc.IH)
      show "?F \<subseteq> flow_edges ir0 d" using Suc.prems(4) xs m k by (auto simp: flow_edges_def)
      show "set ?rest \<subseteq> set (successor_blocks ir0 (d_postorder d ! k))" using Suc.prems(5) False rest by simp
      show "x' \<noteq> 0 \<Longrightarrow> j' \<le> inst_count inst" using r(2) by simp
      show "if x' = 0 then 0 < fuel else inst_count inst - j' + 1 < fuel" using r(2) Suc.prems(7) False by (auto split: if_splits)
    qed (use Suc.prems(1,2) fp(2) in simp_all)
    then obtain ir'' where n: "fill_successors fuel d (d_postorder d ! k) \<lparr>sit_next = x', sit_inst = i, sit_i = j'\<rparr> (st\<lparr>rn_ir := ir'\<rparr>) = Inr (st\<lparr>rn_ir := ir''\<rparr>)"
      "renamed ir0 ir1 d infos res P (?F \<union> fill_edges ir0 d infos k (set ?rest)) ir''" by auto
    have "set (if x = 0 then [] else x # filter (is_block ir0) (drop j vs)) = insert x (set ?rest)" using False rest by simp
    with n(2) have "renamed ir0 ir1 d infos res P (F \<union> fill_edges ir0 d infos k (set (if x = 0 then [] else x # filter (is_block ir0) (drop j vs)))) ir''"
      unfolding fill_edges_insert [OF f(3) m] by simp
    moreover have "fill_successors (Suc fuel) d (d_postorder d ! k) \<lparr>sit_next = x, sit_inst = i, sit_i = j\<rparr> st = Inr (st\<lparr>rn_ir := ir''\<rparr>)"
    proof -
      have "dominators_getNumber d x = Inr m" using f(6) [OF m(1)] m(2) by simp
      moreover have "read_info (rn_infos st) m = Inr ?sInfo" using Suc.prems(2) m(1) I(6) by (simp add: read_info_def)
      ultimately show ?thesis using False fp(1) phis(1) r(1) n(1)
        by (simp add: block_successor_end_def block_successor_get_def block_successor_next_def)
    qed
    ultimately show ?thesis by blast
  qed
qed (simp split: if_splits)

lemma successors_begin:
  assumes g: "ir_good ir" and b: "is_block ir b"
  obtains it where "block_successor_begin ir b = Inr it" and "successor_blocks ir b = [] \<Longrightarrow> sit_next it = 0"
    and "successor_blocks ir b \<noteq> [] \<Longrightarrow> \<exists>inst x j. ir_insts ir (last (block_instructions ir b)) = Some inst \<and>
      it = \<lparr>sit_next = x, sit_inst = last (block_instructions ir b), sit_i = j\<rparr> \<and> x \<noteq> 0 \<and> 0 < j \<and> j \<le> inst_count inst \<and> inst_count inst \<le> 3 \<and>
      successor_blocks ir b = x # filter (is_block ir) (drop j (map the (take (inst_count inst) (operands ir (last (block_instructions ir b))))))"
proof -
  obtain L where inv: "ir_inv ir L" and c: "ir_complete ir" using ir_goodE [OF g] .
  note l = last_instruction [OF inv b]
  show thesis
  proof (cases "block_instructions ir b = []")
    case True
    with l(1) show thesis
      by (intro that [of "\<lparr>sit_next = 0, sit_inst = 0, sit_i = 0\<rparr>"]) (simp_all add: block_successor_begin_def block_successor_read_def successor_blocks_def)
  next
    case False
    let ?i = "last (block_instructions ir b)"
    obtain inst where i: "ir_insts ir ?i = Some inst" using l(2) [OF False] by blast
    have nz: "?i \<noteq> 0" using object_atD [OF heap_D(4) [OF ir_ok_D(1) [OF ir_inv_D(1) [OF inv]] objectsI(2) [OF i]]] by blast
    show thesis
    proof (cases "i_type inst = INST_PHI")
      case True
      with l(1) False i nz show thesis
        by (intro that [of "\<lparr>sit_next = 0, sit_inst = 0, sit_i = 0\<rparr>"])
          (simp_all add: block_successor_begin_def block_successor_read_def successor_blocks_def get_inst_def)
    next
      case np: False
      let ?vs = "map the (take (inst_count inst) (operands ir ?i))"
      obtain n j where r: "block_successor_read ir \<lparr>sit_next = 0, sit_inst = ?i, sit_i = 0\<rparr> = Inr \<lparr>sit_next = n, sit_inst = ?i, sit_i = j\<rparr>"
        "if n = 0 then filter (is_block ir) (drop 0 ?vs) = []
         else 0 < j \<and> j \<le> inst_count inst \<and> filter (is_block ir) (drop 0 ?vs) = n # filter (is_block ir) (drop j ?vs)"
        using successor_read_ok [OF inv c i nz le0 refl] .
      have e: "successor_blocks ir b = filter (is_block ir) ?vs" using False i np by (simp add: successor_blocks_def Let_def)
      have beg: "block_successor_begin ir b = Inr \<lparr>sit_next = n, sit_inst = ?i, sit_i = j\<rparr>"
        using l(1) False i np nz r(1) by (simp add: block_successor_begin_def get_inst_def)
      show thesis
      proof (cases "n = 0")
        case True
        then show thesis using that [OF beg] r(2) e by simp
      next
        case False
        then have "0 < j" "j \<le> inst_count inst" "successor_blocks ir b = n # filter (is_block ir) (drop j ?vs)" using r(2) e by simp_all
        with count_le_3 [OF inv i np] i False show thesis by (intro that [OF beg]) auto
      qed
    qed
  qed
qed

text \<open>The values at the beginning of a block, from those at the end of the block above it.\<close>

lemma reaches_start:
  "value_reaches ir d ph k 0 r v \<longleftrightarrow> (case ph k r of Some p \<Rightarrow> v = p
     | None \<Rightarrow> k \<noteq> length (d_postorder d) - 1 \<and> value_reaches ir d ph (d_doms d ! k) (block_end ir d (d_doms d ! k)) r v)"
proof
  assume "value_reaches ir d ph k 0 r v"
  then show "case ph k r of Some p \<Rightarrow> v = p
     | None \<Rightarrow> k \<noteq> length (d_postorder d) - 1 \<and> value_reaches ir d ph (d_doms d ! k) (block_end ir d (d_doms d ! k)) r v"
    by (rule reaches_0E) simp_all
next
  assume "case ph k r of Some p \<Rightarrow> v = p
     | None \<Rightarrow> k \<noteq> length (d_postorder d) - 1 \<and> value_reaches ir d ph (d_doms d ! k) (block_end ir d (d_doms d ! k)) r v"
  then show "value_reaches ir d ph k 0 r v" by (cases "ph k r") (simp_all add: reach_phi reach_idom)
qed

definition entry_values :: "ir_context \<Rightarrow> dominators \<Rightarrow> (nat \<Rightarrow> reg \<Rightarrow> ptr option) \<Rightarrow> nat \<Rightarrow> (reg \<Rightarrow> ptr list) \<Rightarrow> bool" where
  "entry_values ir d ph k S \<longleftrightarrow> (\<forall>r v. top_of (S r) = Some v \<longleftrightarrow>
     k \<noteq> length (d_postorder d) - 1 \<and> value_reaches ir d ph (d_doms d ! k) (block_end ir d (d_doms d ! k)) r v)"

definition done_la :: "ir_context \<Rightarrow> dominators \<Rightarrow> nat set \<Rightarrow> ptr set" where
  "done_la ir0 d R = (\<Union>j \<in> R. set (block_la ir0 d j))"

definition done_edges :: "ir_context \<Rightarrow> dominators \<Rightarrow> block_info list \<Rightarrow> nat set \<Rightarrow> (nat \<times> nat \<times> reg) set" where
  "done_edges ir0 d infos R = (\<Union>j \<in> R. fill_edges ir0 d infos j (set (successor_blocks ir0 (d_postorder d ! j))))"

definition all_regs :: "ir_context \<Rightarrow> dominators \<Rightarrow> block_info list \<Rightarrow> reg set" where
  "all_regs ir0 d infos = (\<Union>k < length (d_postorder d). inst_reg ir0 ` set (block_la ir0 d k) \<union> set (bi_phiList (infos ! k)))"

definition room_above :: "ir_context \<Rightarrow> dominators \<Rightarrow> nat set \<Rightarrow> nat" where
  "room_above ir0 d A = (\<Sum>j \<in> A. 1 + block_end ir0 d j)"

text \<open>The state when the blocks \<open>R\<close> have been renamed.\<close>

definition rename_inv ::
  "ir_context \<Rightarrow> ir_context \<Rightarrow> dominators \<Rightarrow> block_info list \<Rightarrow> (ptr \<Rightarrow> ptr) \<Rightarrow> nat set \<Rightarrow> rename_state \<Rightarrow> bool" where
  "rename_inv ir0 ir1 d infos res R st \<longleftrightarrow> R \<subseteq> {..< length (d_postorder d)} \<and>
     renamed ir0 ir1 d infos res (done_la ir0 d R) (done_edges ir0 d infos R) (rn_ir st) \<and>
     rn_infos st = infos_state infos R \<and> all_regs ir0 d infos \<subseteq> dom (rn_vars st)"

lemma rename_invD:
  assumes "rename_inv ir0 ir1 d infos res R st"
  shows "R \<subseteq> {..< length (d_postorder d)}" and "renamed ir0 ir1 d infos res (done_la ir0 d R) (done_edges ir0 d infos R) (rn_ir st)"
    and "rn_infos st = infos_state infos R" and "all_regs ir0 d infos \<subseteq> dom (rn_vars st)"
  using assms by (simp_all add: rename_inv_def)

lemma done_edges_flow:
  assumes "R \<subseteq> {..< length (d_postorder d)}"
  shows "done_edges ir0 d infos R \<subseteq> flow_edges ir0 d"
  using assms by (auto simp: done_edges_def fill_edges_def flow_edges_def)

lemma room_above_chain:
  assumes f: "rename_flow ir0 d" and k: "k < length (d_postorder d)"
  shows "room_above ir d (chain (d_doms d) k) = 1 + block_end ir d k + room_above ir d (chain (d_doms d) k - {k})"
    and "room_above ir d (chain (d_doms d) k) \<le> room_above ir d {..< length (d_postorder d)}"
proof -
  have below: "chain (d_doms d) k \<subseteq> {..< length (d_postorder d)}" using chain_above [OF flowD(8) [OF f]] k flowD(7) [OF f] by auto
  show "room_above ir d (chain (d_doms d) k) = 1 + block_end ir d k + room_above ir d (chain (d_doms d) k - {k})"
    unfolding room_above_def by (subst sum.remove [of _ k]) (use below finite_subset in auto)
  show "room_above ir d (chain (d_doms d) k) \<le> room_above ir d {..< length (d_postorder d)}"
    unfolding room_above_def by (rule sum_mono2) (use below in auto)
qed

lemma count_list_distinct: "distinct xs \<Longrightarrow> count_list xs x = (if x \<in> set xs then 1 else 0)"
  by (induction xs) auto

lemma start_values:
  assumes i: "rename_infos ir0 ir1 d infos" and k: "k < length (d_postorder d)" and e: "entry_values ir0 d (phis_of infos) k S"
  shows "value_reaches ir0 d (phis_of infos) k 0 r v \<longleftrightarrow>
    top_of (S r @ (if r \<in> set (bi_phiList (infos ! k)) then [the (bi_phiMap (infos ! k) r)] else [])) = Some v"
proof (cases "bi_phiMap (infos ! k) r")
  case None
  then have "r \<notin> set (bi_phiList (infos ! k))" using infosD(8) [OF i k] by simp
  then show ?thesis using None infosD(11) [OF i k] e by (simp add: reaches_start entry_values_def)
next
  case (Some q)
  then have "r \<in> set (bi_phiList (infos ! k))" using infosD(8) [OF i k] by simp
  then show ?thesis using Some infosD(11) [OF i k] by (auto simp: reaches_start)
qed

lemma done_la_fresh:
  assumes f: "rename_flow ir0 d" and k: "k < length (d_postorder d)" "k \<notin> R" and R: "R \<subseteq> {..< length (d_postorder d)}"
  shows "done_la ir0 d R \<inter> set (block_la ir0 d k) = {}"
proof -
  note f = flowD [OF f]
  have "False" if i: "i \<in> set (block_la ir0 d k)" and j: "j \<in> R" "i \<in> set (block_la ir0 d j)" for i j
  proof -
    have jn: "j < length (d_postorder d)" using j(1) R by auto
    have "parent_of ir0 i = d_postorder d ! k" "parent_of ir0 i = d_postorder d ! j"
      using block_laD(2) [OF f(1,4) k(1) i] block_laD(2) [OF f(1,4) jn j(2)] by simp_all
    then have "k = j" using f(3) k(1) jn nth_eq_iff_index_eq by metis
    with k(2) j(1) show False by simp
  qed
  then show ?thesis by (auto simp: done_la_def)
qed

text \<open>The loop over the successors fills their phis.\<close>

lemma fill_block_ok:
  assumes s: "rename_setting ir0 ir1 d infos res" and k: "k < length (d_postorder d)"
    and top: "\<And>r v. value_reaches ir0 d (phis_of infos) k (block_end ir0 d k) r v \<longleftrightarrow> top_of (stack_of (rn_vars st) r) = Some v"
    and infos: "rn_infos st = infos_state infos R" and v: "renamed ir0 ir1 d infos res P F (rn_ir st)" and F: "F \<subseteq> flow_edges ir0 d"
    and P: "P \<subseteq> (\<Union>j < length (d_postorder d). set (block_la ir0 d j))"
  obtains it ir' where "block_successor_begin (rn_ir st) (d_postorder d ! k) = Inr it"
    and "fill_successors 4 d (d_postorder d ! k) it st = Inr (st\<lparr>rn_ir := ir'\<rparr>)"
    and "renamed ir0 ir1 d infos res P (F \<union> fill_edges ir0 d infos k (set (successor_blocks ir0 (d_postorder d ! k)))) ir'"
proof -
  note f = flowD [OF settingsD(1) [OF s]] and I = infosD [OF settingsD(2) [OF s]] and W = renamedD [OF v]
  note succ = renamed_successors [OF s v k P]
  let ?b = "d_postorder d ! k" and ?ir = "rn_ir st"
  have bl: "is_block ?ir = is_block ir0" using I(4) same_objectsD(5) [OF W(2)] by (auto simp: fun_eq_iff)
  have b: "is_block ?ir ?b" using f(11) [OF k] bl by simp
  obtain it where it: "block_successor_begin ?ir ?b = Inr it" "successor_blocks ?ir ?b = [] \<Longrightarrow> sit_next it = 0"
    "successor_blocks ?ir ?b \<noteq> [] \<Longrightarrow> \<exists>inst x j. ir_insts ?ir (last (block_instructions ?ir ?b)) = Some inst \<and>
      it = \<lparr>sit_next = x, sit_inst = last (block_instructions ?ir ?b), sit_i = j\<rparr> \<and> x \<noteq> 0 \<and> 0 < j \<and> j \<le> inst_count inst \<and> inst_count inst \<le> 3 \<and>
      successor_blocks ?ir ?b = x # filter (is_block ?ir) (drop j (map the (take (inst_count inst) (operands ?ir (last (block_instructions ?ir ?b))))))"
    by (rule successors_begin [OF W(1) b]) (rule that; assumption)
  show thesis
  proof (cases "successor_blocks ir0 ?b = []")
    case True
    then have "sit_next it = 0" using it(2) succ(1) by simp
    then have "fill_successors 4 d ?b it st = Inr (st\<lparr>rn_ir := ?ir\<rparr>)" by (simp add: numeral_eq_Suc block_successor_end_def)
    with it(1) show thesis by (rule that) (use v True in \<open>simp add: fill_edges_def\<close>)
  next
    case False
    let ?i = "last (block_instructions ?ir ?b)"
    have "successor_blocks ?ir ?b \<noteq> []" using False succ(1) by simp
    from it(3) [OF this] obtain inst x j where it': "ir_insts ?ir ?i = Some inst" "it = \<lparr>sit_next = x, sit_inst = ?i, sit_i = j\<rparr>" "x \<noteq> 0" "0 < j" "j \<le> inst_count inst"
      "inst_count inst \<le> 3" "successor_blocks ?ir ?b = x # filter (is_block ?ir) (drop j (map the (take (inst_count inst) (operands ?ir ?i))))"
      by (elim exE conjE) (rule that; assumption)
    have i0: "ir_insts ir0 ?i = Some inst" using succ(2) [OF False] W(3) [of ?i] it'(1) by simp
    let ?vs = "map the (take (inst_count inst) (map (map_option (subst_loads ir0 d res P)) (operands ir0 ?i)))"
    have e: "successor_blocks ir0 ?b = (if x = 0 then [] else x # filter (is_block ir0) (drop j ?vs))"
      using it'(3,7) W(4) [of ?i] i0 succ(1) bl by simp
    have "\<exists>ir'. fill_successors 4 d ?b \<lparr>sit_next = x, sit_inst = ?i, sit_i = j\<rparr> st = Inr (st\<lparr>rn_ir := ir'\<rparr>) \<and>
      renamed ir0 ir1 d infos res P (F \<union> fill_edges ir0 d infos k (set (if x = 0 then [] else x # filter (is_block ir0) (drop j ?vs)))) ir'"
    proof (rule fill_successors_ok [OF s k top infos i0 refl v F])
      show "set (if x = 0 then [] else x # filter (is_block ir0) (drop j ?vs)) \<subseteq> set (successor_blocks ir0 ?b)" unfolding e [symmetric] by simp
      have "inst_count inst - j + 1 < 4" using it'(4-6) by linarith
      then show "if x = 0 then 0 < (4 :: nat) else inst_count inst - j + 1 < 4" by simp
    qed (rule it'(5))
    then obtain ir' where "fill_successors 4 d ?b \<lparr>sit_next = x, sit_inst = ?i, sit_i = j\<rparr> st = Inr (st\<lparr>rn_ir := ir'\<rparr>)"
      "renamed ir0 ir1 d infos res P (F \<union> fill_edges ir0 d infos k (set (successor_blocks ir0 ?b))) ir'"
      unfolding e [symmetric] by (elim exE conjE) (rule that; assumption)
    then show thesis using that it(1) unfolding it'(2) by blast
  qed
qed

lemma rename_block_ok:
  assumes s: "rename_setting ir0 ir1 d infos res" and k: "k < length (d_postorder d)" "k \<notin> R"
    and v: "rename_inv ir0 ir1 d infos res R st" and up: "chain (d_doms d) k - {k} \<subseteq> R"
    and e: "entry_values ir0 d (phis_of infos) k (stack_of (rn_vars st))"
    and room: "\<And>r. length (stack_of (rn_vars st) r) \<le> room_above ir0 d (chain (d_doms d) k - {k})"
  shows "\<exists>st' xs. rename_block d (d_postorder d ! k) (infos_state infos R ! k) (st\<lparr>rn_infos := infos_state infos (insert k R)\<rparr>) = Inr st' \<and>
    rename_inv ir0 ir1 d infos res (insert k R) st' \<and> dom (rn_vars st') = dom (rn_vars st) \<and>
    stack_of (rn_vars st') = (\<lambda>r. stack_of (rn_vars st) r @ xs r) \<and>
    (\<forall>r. length (xs r) = length (assigns_to ir0 r (block_la ir0 d k)) + count_list (bi_phiList (infos ! k)) r) \<and>
    (\<forall>r v. value_reaches ir0 d (phis_of infos) k (block_end ir0 d k) r v \<longleftrightarrow> top_of (stack_of (rn_vars st') r) = Some v)"
proof -
  note S = settingsD [OF s] and I = infosD [OF settingsD(2) [OF s]] and V = rename_invD [OF v]
  let ?la = "block_la ir0 d k" and ?b = "d_postorder d ! k" and ?P = "done_la ir0 d R"
  let ?bi = "infos_state infos R ! k" and ?pl = "bi_phiList (infos ! k)" and ?S = "stack_of (rn_vars st)"
  let ?phi = "\<lambda>r. if r \<in> set ?pl then [the (bi_phiMap (infos ! k) r)] else []"
  let ?st = "st\<lparr>rn_infos := infos_state infos (insert k R)\<rparr>"
  have bi: "bi_phiList ?bi = ?pl" "bi_phiMap ?bi = bi_phiMap (infos ! k)" "bi_loadAssigns ?bi = ?la" using k(1) I(6) I(7) [OF k(1)] by simp_all
  have regs: "set ?pl \<subseteq> dom (rn_vars st)" "inst_reg ir0 ` set ?la \<subseteq> dom (rn_vars st)" using V(4) k(1) by (auto simp: all_regs_def)
  have len: "length (?S r) + 1 + length ?la \<le> 250" for r
    using room [of r] room_above_chain [OF S(1) k(1), of ir0] S(5) by (simp add: rename_limits_def room_above_def)
  have "length (?S r) < 250" for r using len [of r] by simp
  then have "\<exists>vars'. push_phis ?bi ?pl ?st = Inr (?st\<lparr>rn_vars := vars'\<rparr>) \<and> dom vars' = dom (rn_vars ?st) \<and>
      stack_of vars' = (\<lambda>r. stack_of (rn_vars ?st) r @ (if r \<in> set ?pl then [the (bi_phiMap ?bi r)] else []))"
    by (intro push_phis_ok) (use regs I(8) [OF k(1)] bi(2) in simp_all)
  then obtain vars1 where p: "push_phis ?bi ?pl ?st = Inr (?st\<lparr>rn_vars := vars1\<rparr>)" "dom vars1 = dom (rn_vars st)"
    "stack_of vars1 = (\<lambda>r. ?S r @ ?phi r)" unfolding bi(2) by (elim exE conjE) (rule that; simp)
  let ?st1 = "?st\<lparr>rn_vars := vars1\<rparr>"
  have "\<exists>ir' vars' xs. rename_insts (drop 0 ?la) ?st1 = Inr (?st1\<lparr>rn_ir := ir', rn_vars := vars'\<rparr>) \<and>
    renamed ir0 ir1 d infos res (?P \<union> set ?la) (done_edges ir0 d infos R) ir' \<and> dom vars' = dom (rn_vars ?st1) \<and>
    stack_of vars' = (\<lambda>r. stack_of (rn_vars ?st1) r @ xs r) \<and> (\<forall>r. length (xs r) = length (assigns_to ir0 r (drop 0 ?la))) \<and>
    (\<forall>r v. value_reaches ir0 d (phis_of infos) k (length ?la) r v \<longleftrightarrow> top_of (stack_of vars' r) = Some v)"
  proof (rule rename_insts_ok [OF s k(1) done_la_fresh [OF S(1) k V(1)]])
    show "\<forall>j \<in> chain (d_doms d) k - {k}. set (block_la ir0 d j) \<subseteq> ?P" using up by (auto simp: done_la_def)
    have "length (stack_of (rn_vars ?st1) r) + (length ?la - 0) \<le> 250" for r using len [of r] p(3) by simp
    then show "\<forall>r. length (stack_of (rn_vars ?st1) r) + (length ?la - 0) \<le> 250" by blast
  qed (use V(2) regs p(2,3) start_values [OF S(2) k(1) e] in simp_all)
  then obtain ir2 vars2 xs where i: "rename_insts ?la ?st1 = Inr (?st1\<lparr>rn_ir := ir2, rn_vars := vars2\<rparr>)"
    "renamed ir0 ir1 d infos res (?P \<union> set ?la) (done_edges ir0 d infos R) ir2" "dom vars2 = dom vars1"
    "stack_of vars2 = (\<lambda>r. stack_of vars1 r @ xs r)" "\<forall>r. length (xs r) = length (assigns_to ir0 r ?la)"
    "\<forall>r v. value_reaches ir0 d (phis_of infos) k (length ?la) r v \<longleftrightarrow> top_of (stack_of vars2 r) = Some v" by auto
  let ?st2 = "?st1\<lparr>rn_ir := ir2, rn_vars := vars2\<rparr>"
  have top: "\<And>r v. value_reaches ir0 d (phis_of infos) k (length ?la) r v \<longleftrightarrow> top_of (stack_of (rn_vars ?st2) r) = Some v" using i(6) by simp
  have infos: "rn_infos ?st2 = infos_state infos (insert k R)" by simp
  have P: "?P \<union> set ?la \<subseteq> (\<Union>j < length (d_postorder d). set (block_la ir0 d j))" using V(1) k(1) by (auto simp: done_la_def)
  have v2: "renamed ir0 ir1 d infos res (?P \<union> set ?la) (done_edges ir0 d infos R) (rn_ir ?st2)" using i(2) by simp
  obtain it ir3 where g: "block_successor_begin (rn_ir ?st2) ?b = Inr it" "fill_successors 4 d ?b it ?st2 = Inr (?st2\<lparr>rn_ir := ir3\<rparr>)"
    "renamed ir0 ir1 d infos res (?P \<union> set ?la) (done_edges ir0 d infos R \<union> fill_edges ir0 d infos k (set (successor_blocks ir0 ?b))) ir3"
    by (rule fill_block_ok [OF s k(1) top infos v2 done_edges_flow [OF V(1)] P]) (rule that; assumption)
  let ?st3 = "?st2\<lparr>rn_ir := ir3\<rparr>"
  have "?P \<union> set ?la = done_la ir0 d (insert k R)"
    "done_edges ir0 d infos R \<union> fill_edges ir0 d infos k (set (successor_blocks ir0 ?b)) = done_edges ir0 d infos (insert k R)"
    by (auto simp: done_la_def done_edges_def)
  with g(3) have "rename_inv ir0 ir1 d infos res (insert k R) ?st3" using V(1,4) k(1) p(2) i(3) by (simp add: rename_inv_def)
  moreover have "rename_block d ?b ?bi ?st = Inr ?st3" using p(1) i(1) g(1,2) bi by (simp add: rename_block_def)
  moreover have "stack_of (rn_vars ?st3) = (\<lambda>r. ?S r @ (?phi r @ xs r))" using i(4) p(3) by (simp add: fun_eq_iff)
  moreover have "length (?phi r @ xs r) = length (assigns_to ir0 r ?la) + count_list ?pl r" for r
    using i(5) I(8) [OF k(1)] by (simp add: count_list_distinct)
  ultimately show ?thesis using i(3,6) p(2) by (intro exI [of _ ?st3] exI [of _ "\<lambda>r. ?phi r @ xs r"]) simp
qed

section \<open>The walk over the dominator tree\<close>

definition rename_ready ::
  "ir_context \<Rightarrow> ir_context \<Rightarrow> dominators \<Rightarrow> block_info list \<Rightarrow> (ptr \<Rightarrow> ptr) \<Rightarrow> nat \<Rightarrow> nat set \<Rightarrow> rename_state \<Rightarrow> bool" where
  "rename_ready ir0 ir1 d infos res k R st \<longleftrightarrow> k < length (d_postorder d) \<and> subtree (d_doms d) k \<inter> R = {} \<and>
     chain (d_doms d) k - {k} \<subseteq> R \<and> rename_inv ir0 ir1 d infos res R st \<and>
     entry_values ir0 d (phis_of infos) k (stack_of (rn_vars st)) \<and>
     (\<forall>r. length (stack_of (rn_vars st) r) \<le> room_above ir0 d (chain (d_doms d) k - {k}))"

definition renames_subtree :: "ir_context \<Rightarrow> ir_context \<Rightarrow> dominators \<Rightarrow> block_info list \<Rightarrow> (ptr \<Rightarrow> ptr) \<Rightarrow> nat \<Rightarrow> bool" where
  "renames_subtree ir0 ir1 d infos res k \<longleftrightarrow> (\<forall>fuel R st. rename_ready ir0 ir1 d infos res k R st \<longrightarrow> 3 * card (subtree (d_doms d) k) \<le> fuel \<longrightarrow>
     (\<exists>st'. ssa_rename fuel d (d_postorder d ! k) st = Inr st' \<and> rename_inv ir0 ir1 d infos res (R \<union> subtree (d_doms d) k) st' \<and>
        stack_of (rn_vars st') = stack_of (rn_vars st)))"

lemma rename_children_ok:
  assumes s: "rename_setting ir0 ir1 d infos res" and k: "k < length (d_postorder d)"
    and below: "\<And>c. c \<in> set (tree_children (d_doms d) k) \<Longrightarrow> renames_subtree ir0 ir1 d infos res c"
    and "j \<le> length (tree_children (d_doms d) k)" and "chain (d_doms d) k \<subseteq> R" and "rename_inv ir0 ir1 d infos res R st"
    and "\<forall>c \<in> set (drop j (tree_children (d_doms d) k)). subtree (d_doms d) c \<inter> R = {}"
    and "\<forall>r v. value_reaches ir0 d (phis_of infos) k (block_end ir0 d k) r v \<longleftrightarrow> top_of (stack_of (rn_vars st) r) = Some v"
    and "\<forall>r. length (stack_of (rn_vars st) r) \<le> room_above ir0 d (chain (d_doms d) k)"
    and "(\<Sum>c\<leftarrow>drop j (tree_children (d_doms d) k). 3 * card (subtree (d_doms d) c)) < fuel"
  shows "\<exists>st'. rename_children fuel d \<lparr>cit_node = k, cit_i = j\<rparr> st = Inr st' \<and>
    rename_inv ir0 ir1 d infos res (R \<union> (\<Union>c \<in> set (drop j (tree_children (d_doms d) k)). subtree (d_doms d) c)) st' \<and>
    stack_of (rn_vars st') = stack_of (rn_vars st)"
  using assms(4-)
proof (induction "length (tree_children (d_doms d) k) - j" arbitrary: j R st fuel)
  case 0
  note f = flowD [OF settingsD(1) [OF s]]
  obtain g where g: "fuel = Suc g" using 0(8) by (cases fuel) auto
  have "j = length (tree_children (d_doms d) k)" using 0(1,2) by simp
  then show ?case using g f(10) [OF k] 0(4) by (simp add: dominator_child_end_def)
next
  case (Suc q)
  note f = flowD [OF settingsD(1) [OF s]]
  let ?cs = "tree_children (d_doms d) k" and ?sub = "subtree (d_doms d)"
  have j: "j < length ?cs" using Suc(2) by simp
  let ?c = "?cs ! j"
  have c: "?c \<in> set ?cs" using j by simp
  have drop: "drop j ?cs = ?c # drop (Suc j) ?cs" using j by (simp add: Cons_nth_drop_Suc)
  obtain g where g: "fuel = Suc g" using Suc.prems(7) by (cases fuel) auto
  note less = child_less [OF f(8) c]
  have ck: "chain (d_doms d) ?c - {?c} = chain (d_doms d) k"
    using chain_child [OF f(8) c] chain_above [OF f(8), of k ?c] less f(7) k by auto
  have ready: "rename_ready ir0 ir1 d infos res ?c R st"
    unfolding rename_ready_def entry_values_def
    using less f(7) ck Suc.prems(2,3,5,6) Suc.prems(4) drop by auto
  have "3 * card (?sub ?c) \<le> g" using Suc.prems(7) g drop by simp
  with below [OF c, unfolded renames_subtree_def] ready obtain st1 where st1: "ssa_rename g d (d_postorder d ! ?c) st = Inr st1"
    "rename_inv ir0 ir1 d infos res (R \<union> ?sub ?c) st1" "stack_of (rn_vars st1) = stack_of (rn_vars st)" by blast
  have "\<exists>st'. rename_children g d \<lparr>cit_node = k, cit_i = Suc j\<rparr> st1 = Inr st' \<and>
    rename_inv ir0 ir1 d infos res ((R \<union> ?sub ?c) \<union> (\<Union>c \<in> set (drop (Suc j) ?cs). ?sub c)) st' \<and> stack_of (rn_vars st') = stack_of (rn_vars st1)"
  proof (rule Suc.hyps(1))
    show "q = length ?cs - Suc j" "Suc j \<le> length ?cs" using Suc(2) j by simp_all
    show "chain (d_doms d) k \<subseteq> R \<union> ?sub ?c" using Suc.prems(2) by blast
    have "distinct (?c # drop (Suc j) ?cs)" unfolding drop [symmetric] by (simp add: tree_children_def)
    then have "?sub c' \<inter> ?sub ?c = {}" if "c' \<in> set (drop (Suc j) ?cs)" for c'
      using subtree_disjoint [OF f(8) _ c, of c'] that set_drop_subset by (metis distinct.simps(2) subsetD)
    then show "\<forall>c' \<in> set (drop (Suc j) ?cs). ?sub c' \<inter> (R \<union> ?sub ?c) = {}" using Suc.prems(4) drop by auto
    show "(\<Sum>c\<leftarrow>drop (Suc j) ?cs. 3 * card (?sub c)) < g"
    proof -
      have "?c \<in> ?sub ?c" using less by (intro subtree_self) simp
      then have "0 < card (?sub ?c)" by (subst card_gt_0_iff) (auto simp: subtree_def)
      then show ?thesis using Suc.prems(7) g drop by simp
    qed
  qed (use st1 Suc.prems in simp_all)
  then obtain st2 where st2: "rename_children g d \<lparr>cit_node = k, cit_i = Suc j\<rparr> st1 = Inr st2"
    "rename_inv ir0 ir1 d infos res ((R \<union> ?sub ?c) \<union> (\<Union>c \<in> set (drop (Suc j) ?cs). ?sub c)) st2" "stack_of (rn_vars st2) = stack_of (rn_vars st1)" by blast
  have it: "dominator_child_get d \<lparr>cit_node = k, cit_i = j\<rparr> = Inr (d_postorder d ! ?c)" "\<not> dominator_child_end d \<lparr>cit_node = k, cit_i = j\<rparr>"
    "dominator_child_next \<lparr>cit_node = k, cit_i = j\<rparr> = \<lparr>cit_node = k, cit_i = Suc j\<rparr>"
    using j f(7) f(10) [OF k] less by (simp_all add: dominator_child_get_def dominator_child_end_def dominator_child_next_def postorder_at_def)
  have "R \<union> (\<Union>c \<in> set (drop j ?cs). ?sub c) = (R \<union> ?sub ?c) \<union> (\<Union>c \<in> set (drop (Suc j) ?cs). ?sub c)" unfolding drop by auto
  with st2(2) have "rename_inv ir0 ir1 d infos res (R \<union> (\<Union>c \<in> set (drop j ?cs). ?sub c)) st2" by simp
  then show ?case using st1(1,3) st2(1,3) it g by (intro exI [of _ st2]) simp
qed

lemma ssa_rename_ok:
  assumes s: "rename_setting ir0 ir1 d infos res"
  shows "k < length (d_postorder d) \<Longrightarrow> renames_subtree ir0 ir1 d infos res k"
proof (induction k rule: less_induct)
  case (less k)
  note S = settingsD [OF s] and f = flowD [OF settingsD(1) [OF s]] and I = infosD [OF settingsD(2) [OF s]]
  let ?cs = "tree_children (d_doms d) k" and ?sub = "subtree (d_doms d)"
  have kd: "k < length (d_doms d)" using less.prems f(7) by simp
  have below: "renames_subtree ir0 ir1 d infos res c" if "c \<in> set ?cs" for c
    using less.IH [of c] child_less [OF f(8) that] f(7) by simp
  show ?case
    unfolding renames_subtree_def
  proof (intro allI impI)
    fix fuel R st assume r: "rename_ready ir0 ir1 d infos res k R st" and fuel: "3 * card (?sub k) \<le> fuel"
    note r = r [unfolded rename_ready_def]
    have kR: "k \<notin> R" using r subtree_self [OF kd] by auto
    have v: "rename_inv ir0 ir1 d infos res R st" using r by blast
    note V = rename_invD [OF v]
    have up: "chain (d_doms d) k - {k} \<subseteq> R" "entry_values ir0 d (phis_of infos) k (stack_of (rn_vars st))"
      "\<And>r. length (stack_of (rn_vars st) r) \<le> room_above ir0 d (chain (d_doms d) k - {k})" using r by blast+
    from rename_block_ok [OF s less.prems kR v up] obtain st1 xs where b: "rename_block d (d_postorder d ! k) (infos_state infos R ! k) (st\<lparr>rn_infos := infos_state infos (insert k R)\<rparr>) = Inr st1"
      "rename_inv ir0 ir1 d infos res (insert k R) st1" "stack_of (rn_vars st1) = (\<lambda>r. stack_of (rn_vars st) r @ xs r)"
      "\<forall>r. length (xs r) = length (assigns_to ir0 r (block_la ir0 d k)) + count_list (bi_phiList (infos ! k)) r"
      "\<forall>r v. value_reaches ir0 d (phis_of infos) k (block_end ir0 d k) r v \<longleftrightarrow> top_of (stack_of (rn_vars st1) r) = Some v"
      by (elim exE conjE) (rule that; assumption)
    have card: "card (?sub k) = 1 + (\<Sum>c\<leftarrow>?cs. card (?sub c))" by (rule subtree_card [OF f(8) kd])
    have sum3: "(\<Sum>c\<leftarrow>?cs. 3 * card (?sub c)) = 3 * (\<Sum>c\<leftarrow>?cs. card (?sub c))" by (simp add: sum_list_const_mult)
    obtain g where g: "fuel = Suc g" "(\<Sum>c\<leftarrow>?cs. 3 * card (?sub c)) < g" using fuel card sum3 by (cases fuel) auto
    have "\<exists>st'. rename_children g d \<lparr>cit_node = k, cit_i = 0\<rparr> st1 = Inr st' \<and>
      rename_inv ir0 ir1 d infos res (insert k R \<union> (\<Union>c \<in> set (drop 0 ?cs). ?sub c)) st' \<and> stack_of (rn_vars st') = stack_of (rn_vars st1)"
    proof (rule rename_children_ok [OF s less.prems below])
      show "chain (d_doms d) k \<subseteq> insert k R" using r by blast
      show "\<forall>c \<in> set (drop 0 ?cs). ?sub c \<inter> insert k R = {}"
      proof
        fix c assume c: "c \<in> set (drop 0 ?cs)"
        then have "?sub c \<subseteq> ?sub k" using subtree_unfold [OF f(8) kd] by auto
        moreover have "k \<notin> ?sub c" using c child_less [OF f(8), of c k] subtree_below [OF f(8), of k c] by auto
        ultimately show "?sub c \<inter> insert k R = {}" using r by blast
      qed
      show "\<forall>r. length (stack_of (rn_vars st1) r) \<le> room_above ir0 d (chain (d_doms d) k)"
      proof
        fix r
        have "count_list (bi_phiList (infos ! k)) r \<le> 1" using I(8) [OF less.prems] by (simp add: count_list_distinct)
        moreover have "length (assigns_to ir0 r (block_la ir0 d k)) \<le> block_end ir0 d k" by (simp add: assigns_to_def)
        moreover have "length (stack_of (rn_vars st) r) \<le> room_above ir0 d (chain (d_doms d) k - {k})" using r by blast
        ultimately show "length (stack_of (rn_vars st1) r) \<le> room_above ir0 d (chain (d_doms d) k)"
          using b(3,4) room_above_chain [OF S(1) less.prems, of ir0] by simp
      qed
    qed (use b g in simp_all)
    then obtain st2 where c: "rename_children g d \<lparr>cit_node = k, cit_i = 0\<rparr> st1 = Inr st2"
      "rename_inv ir0 ir1 d infos res (insert k R \<union> (\<Union>c \<in> set ?cs. ?sub c)) st2" "stack_of (rn_vars st2) = stack_of (rn_vars st1)" by auto
    let ?bi = "infos_state infos R ! k"
    have bi: "bi_loadAssigns ?bi = block_la ir0 d k" "bi_phiList ?bi = bi_phiList (infos ! k)" using less.prems I(6) I(7) [OF less.prems] by simp_all
    note W = renamedD [OF rename_invD(2) [OF c(2)]]
    have old: "ir_insts (rn_ir st2) i = ir_insts ir0 i" "ir_insts ir0 i \<noteq> None" if "i \<in> set (block_la ir0 d k)" for i
      using W(3) [of i] block_laD(2) [OF f(1,4) less.prems that] by simp_all
    have "\<exists>vars'. rename_leave ?bi st2 = Inr (st2\<lparr>rn_vars := vars'\<rparr>) \<and> dom vars' = dom (rn_vars st2) \<and> stack_of vars' = stack_of (rn_vars st)"
    proof (rule rename_leave_ok)
      show "\<forall>i \<in> set (bi_loadAssigns ?bi). ir_insts (rn_ir st2) i \<noteq> None" using old bi(1) by simp
      show "stack_of (rn_vars st2) = (\<lambda>r. stack_of (rn_vars st) r @ xs r)" using b(3) c(3) by simp
      have "filter (\<lambda>i. inst_is (rn_ir st2) INST_ASSIGN_VAR i \<and> inst_reg (rn_ir st2) i = r) (block_la ir0 d k) = assigns_to ir0 r (block_la ir0 d k)" for r
        unfolding assigns_to_def by (rule filter_cong) (use old in \<open>auto simp: inst_is_def inst_reg_def\<close>)
      then show "length (xs r) = length (filter (\<lambda>i. inst_is (rn_ir st2) INST_ASSIGN_VAR i \<and> inst_reg (rn_ir st2) i = r) (bi_loadAssigns ?bi)) +
          count_list (bi_phiList ?bi) r" for r using b(4) bi by simp
    qed
    then obtain vars' where l: "rename_leave ?bi st2 = Inr (st2\<lparr>rn_vars := vars'\<rparr>)" "dom vars' = dom (rn_vars st2)" "stack_of vars' = stack_of (rn_vars st)" by blast
    have un: "insert k R \<union> (\<Union>c \<in> set ?cs. ?sub c) = R \<union> ?sub k" using subtree_unfold [OF f(8) kd] by auto
    have "rename_inv ir0 ir1 d infos res (R \<union> ?sub k) st2" using c(2) unfolding un .
    with l(2) have "rename_inv ir0 ir1 d infos res (R \<union> ?sub k) (st2\<lparr>rn_vars := vars'\<rparr>)" by (simp add: rename_inv_def)
    moreover have "ssa_rename fuel d (d_postorder d ! k) st = Inr (st2\<lparr>rn_vars := vars'\<rparr>)"
    proof -
      have "read_info (rn_infos st) k = Inr ?bi" "\<not> bi_isRenamed ?bi" "(rn_infos st)[k := ?bi\<lparr>bi_isRenamed := True\<rparr>] = infos_state infos (insert k R)"
        using V(3) less.prems I(6) kR infos_state_enter [of k infos R] by (simp_all add: read_info_def)
      moreover have "dominator_child_begin d (d_postorder d ! k) = Inr \<lparr>cit_node = k, cit_i = 0\<rparr>"
        using f(6) [OF less.prems] by (simp add: dominator_child_begin_def)
      ultimately show ?thesis using g(1) f(6) [OF less.prems] b(1) c(1) l(1) by simp
    qed
    ultimately show "\<exists>st'. ssa_rename fuel d (d_postorder d ! k) st = Inr st' \<and> rename_inv ir0 ir1 d infos res (R \<union> ?sub k) st' \<and>
        stack_of (rn_vars st') = stack_of (rn_vars st)" using l(3) by (intro exI [of _ "st2\<lparr>rn_vars := vars'\<rparr>"]) simp
  qed
qed

section \<open>Phis without uses\<close>

definition used :: "ir_context \<Rightarrow> ptr \<Rightarrow> bool" where
  "used ir v \<longleftrightarrow> (\<exists>i. Some v \<in> set (operands ir i))"

lemma value_hasUse_used:
  assumes g: "ir_good ir" and v: "is_value ir v"
  shows "value_hasUse ir v = Inr (used ir v)"
proof -
  obtain L where inv: "ir_inv ir L" using ir_goodE [OF g] .
  note ok = ir_inv_D(1) [OF inv]
  obtain us where us: "L v = Some us" using uses_D(2) [OF ir_ok_D(2) [OF ok]] v by (auto simp: is_value_def)
  have "ring (ir_cells ir) v us" using ir_ok_D(4) [OF ok] us by (simp add: ir_lists_def)
  then have "value_hasUse ir v = Inr (us \<noteq> [])" using list_empty_ring by (simp add: value_hasUse_def)
  moreover have "us \<noteq> [] \<longleftrightarrow> used ir v"
  proof
    assume "us \<noteq> []"
    then have "hd us \<in> set (use_list ir v)" using use_list_eq [OF ok us] by simp
    then obtain i k where s: "slot ir i k (hd us)" "operands ir i ! k = Some v" using use_list_operands [OF inv v] by blast
    then have "k < length (operands ir i)" by (auto simp: slot_def length_operands)
    with s(2) show "used ir v" unfolding used_def by (metis nth_mem)
  next
    assume "used ir v"
    then obtain i k where k: "k < length (operands ir i)" "operands ir i ! k = Some v" by (auto simp: used_def in_set_conv_nth)
    then obtain inst where "ir_insts ir i = Some inst" by (cases "ir_insts ir i") (auto simp: operands_def)
    with k have "slot ir i k (i_uses inst ! k)" by (auto simp: slot_def operands_def split: if_splits)
    then have "i_uses inst ! k \<in> set (use_list ir v)" using use_list_operands [OF inv v] k(2) by blast
    then show "us \<noteq> []" using use_list_eq [OF ok us] by auto
  qed
  ultimately show ?thesis by simp
qed

text \<open>What a context has become by the removal of the unused among the phis \<open>A\<close>.\<close>

definition trimmed :: "ptr set \<Rightarrow> ir_context \<Rightarrow> ir_context \<Rightarrow> bool" where
  "trimmed A ir ir' \<longleftrightarrow> ir_good ir' \<and> same_objects ir ir' \<and> ir_insts ir' = ir_insts ir \<and> operands ir' = operands ir \<and>
     (\<forall>c. is_block ir c \<longrightarrow> block_instructions ir' c = filter (\<lambda>i. i \<in> A \<longrightarrow> used ir i) (block_instructions ir c))"

lemma trimmed_trans: "trimmed A a b \<Longrightarrow> trimmed B b c \<Longrightarrow> trimmed (A \<union> B) a c"
  using same_objects_trans [of a b c] same_objectsD(5) [of a b]
  by (auto simp: trimmed_def used_def intro!: filter_cong)

lemma trimmed_stands:
  assumes "trimmed A ir ir'" and "is_block ir c" and "q \<in> set (block_instructions ir c)" and "q \<notin> A"
  shows "is_block ir' c \<and> q \<in> set (block_instructions ir' c)"
  using assms same_objectsD(5) [of ir ir' c] by (simp add: trimmed_def)

lemma remove_phis_ok:
  assumes "ir_good ir" and "distinct (map (\<lambda>r. the (bi_phiMap bInfo r)) rs)"
    and "\<forall>r \<in> set rs. \<exists>p b. bi_phiMap bInfo r = Some p \<and> is_block ir b \<and> p \<in> set (block_instructions ir b)"
  shows "\<exists>ir'. remove_phis bInfo rs ir = Inr ir' \<and> trimmed ((\<lambda>r. the (bi_phiMap bInfo r)) ` set rs) ir ir'"
  using assms
proof (induction rs arbitrary: ir)
  case Nil
  then show ?case by (simp add: trimmed_def)
next
  case (Cons r rs)
  obtain p b where p: "bi_phiMap bInfo r = Some p" "is_block ir b" "p \<in> set (block_instructions ir b)" using Cons.prems(3) by auto
  have "ir_insts ir p \<noteq> None" using block_instructionsD(2) [OF Cons.prems(1) p(2,3)] by auto
  then have u: "value_hasUse ir p = Inr (used ir p)" using value_hasUse_used inst_value Cons.prems(1) by blast
  have "\<exists>ir1. (if used ir p then Inr ir else inst_remove ir p) = Inr ir1 \<and> trimmed {p} ir ir1"
  proof (cases "used ir p")
    case True
    have "filter (\<lambda>i. i \<in> {p} \<longrightarrow> used ir i) xs = xs" for xs using True by (induction xs) auto
    with True Cons.prems(1) show ?thesis by (simp add: trimmed_def)
  next
    case False
    obtain ir1 where r: "inst_remove ir p = Inr ir1" "ir_good ir1" "same_objects ir ir1" "ir_insts ir1 = ir_insts ir" "operands ir1 = operands ir"
      "\<And>c. is_block ir c \<Longrightarrow> block_instructions ir1 c = filter (\<lambda>j. j \<noteq> p) (block_instructions ir c)"
      by (rule remove_view [OF Cons.prems(1) block_instructionsD(4) [OF Cons.prems(1) p(2,3)]]) (rule that; assumption)
    have fl: "filter (\<lambda>j. j \<noteq> p) xs = filter (\<lambda>i. i \<in> {p} \<longrightarrow> used ir i) xs" for xs using False by (intro filter_cong) auto
    have "trimmed {p} ir ir1"
      unfolding trimmed_def
    proof (intro conjI allI impI)
      show "block_instructions ir1 c = filter (\<lambda>i. i \<in> {p} \<longrightarrow> used ir i) (block_instructions ir c)" if "is_block ir c" for c
        using r(6) [OF that] unfolding fl .
    qed (rule r(2-5))+
    with r(1) False show ?thesis by simp
  qed
  then obtain ir1 where ir1: "(if used ir p then Inr ir else inst_remove ir p) = Inr ir1" "trimmed {p} ir ir1" by blast
  note T = ir1(2) [unfolded trimmed_def]
  have "\<exists>ir'. remove_phis bInfo rs ir1 = Inr ir' \<and> trimmed ((\<lambda>r. the (bi_phiMap bInfo r)) ` set rs) ir1 ir'"
  proof (rule Cons.IH)
    show "\<forall>r' \<in> set rs. \<exists>p b. bi_phiMap bInfo r' = Some p \<and> is_block ir1 b \<and> p \<in> set (block_instructions ir1 b)"
    proof
      fix r' assume r': "r' \<in> set rs"
      then obtain q c where q: "bi_phiMap bInfo r' = Some q" "is_block ir c" "q \<in> set (block_instructions ir c)" using Cons.prems(3) by auto
      have "the (bi_phiMap bInfo r) \<notin> (\<lambda>r. the (bi_phiMap bInfo r)) ` set rs" using Cons.prems(2) by simp
      then have "q \<noteq> p" using q(1) p(1) r' by force
      then show "\<exists>p b. bi_phiMap bInfo r' = Some p \<and> is_block ir1 b \<and> p \<in> set (block_instructions ir1 b)"
        using q trimmed_stands [OF ir1(2) q(2,3)] by (intro exI [of _ q] exI [of _ c]) simp
    qed
  qed (use T Cons.prems(2) in simp_all)
  then obtain ir' where ir': "remove_phis bInfo rs ir1 = Inr ir'" "trimmed ((\<lambda>r. the (bi_phiMap bInfo r)) ` set rs) ir1 ir'" by blast
  have "trimmed ({p} \<union> (\<lambda>r. the (bi_phiMap bInfo r)) ` set rs) ir ir'" by (rule trimmed_trans [OF ir1(2) ir'(2)])
  moreover have "{p} \<union> (\<lambda>r. the (bi_phiMap bInfo r)) ` set rs = (\<lambda>r. the (bi_phiMap bInfo r)) ` set (r # rs)" using p(1) by auto
  moreover have "remove_phis bInfo (r # rs) ir = Inr ir'" using p(1) u ir1(1) ir'(1) by (simp add: phi_inst_def split: if_splits)
  ultimately show ?case by (intro exI [of _ ir']) simp
qed

lemma remove_unused_ok:
  assumes "ir_good ir" and "distinct (concat (map phi_insts infos))"
    and "\<forall>info \<in> set infos. \<forall>r \<in> set (bi_phiList info). \<exists>p b. bi_phiMap info r = Some p \<and> is_block ir b \<and> p \<in> set (block_instructions ir b)"
  shows "\<exists>ir'. remove_unused infos ir = Inr ir' \<and> trimmed (set (concat (map phi_insts infos))) ir ir'"
  using assms
proof (induction infos arbitrary: ir)
  case Nil
  then show ?case by (simp add: trimmed_def)
next
  case (Cons info infos)
  have s: "(\<lambda>r. the (bi_phiMap info r)) ` set (bi_phiList info) = set (phi_insts info)" by (simp add: phi_insts_def)
  have "distinct (map (\<lambda>r. the (bi_phiMap info r)) (bi_phiList info))" using Cons.prems(2) by (simp add: phi_insts_def)
  from remove_phis_ok [OF Cons.prems(1) this] Cons.prems(3) obtain ir1 where
    ir1: "remove_phis info (bi_phiList info) ir = Inr ir1" "trimmed (set (phi_insts info)) ir ir1" unfolding s by auto
  note T = ir1(2) [unfolded trimmed_def]
  have "\<exists>ir'. remove_unused infos ir1 = Inr ir' \<and> trimmed (set (concat (map phi_insts infos))) ir1 ir'"
  proof (rule Cons.IH)
    show "\<forall>info \<in> set infos. \<forall>r \<in> set (bi_phiList info). \<exists>p b. bi_phiMap info r = Some p \<and> is_block ir1 b \<and> p \<in> set (block_instructions ir1 b)"
    proof (intro ballI)
      fix info' r assume i: "info' \<in> set infos" "r \<in> set (bi_phiList info')"
      then obtain q c where q: "bi_phiMap info' r = Some q" "is_block ir c" "q \<in> set (block_instructions ir c)" using Cons.prems(3) by force
      have "q \<in> set (phi_insts info')" using i(2) q(1) by (force simp: phi_insts_def)
      then have "q \<notin> set (phi_insts info)" using Cons.prems(2) i(1) by auto
      then show "\<exists>p b. bi_phiMap info' r = Some p \<and> is_block ir1 b \<and> p \<in> set (block_instructions ir1 b)"
        using q trimmed_stands [OF ir1(2) q(2,3)] by (intro exI [of _ q] exI [of _ c]) simp
    qed
  qed (use T Cons.prems(2) in simp_all)
  then obtain ir' where ir': "remove_unused infos ir1 = Inr ir'" "trimmed (set (concat (map phi_insts infos))) ir1 ir'" by blast
  from trimmed_trans [OF ir1(2) ir'(2)] ir1(1) ir'(1) show ?case by (intro exI [of _ ir']) simp
qed

end
