(* ===== verification/Ssa_Correct.thy ===== *)
theory Ssa_Correct
  imports Ssa_Place Ssa_Rename
begin

text \<open>
  The whole of \<open>ssa_convert\<close>, behind the computation of dominators and their frontiers.
\<close>

section \<open>What is asked of a function\<close>

definition assigns_ok :: "ir_context \<Rightarrow> ptr \<Rightarrow> bool" where
  "assigns_ok ir e \<longleftrightarrow> (\<forall>b \<in> reached_from ir e. \<forall>n < length (load_assigns ir b). \<forall>u.
     inst_is ir INST_ASSIGN_VAR (load_assigns ir b ! n) \<longrightarrow> operands ir (load_assigns ir b ! n) = [Some u] \<longrightarrow>
       \<not> is_block ir u \<and>
       (\<forall>c \<in> reached_from ir e. u \<in> set (load_assigns ir c) \<longrightarrow> inst_is ir INST_LOAD_VAR u \<longrightarrow>
          u \<in> set (take n (load_assigns ir b)) \<or> strictly_dominates (edges (successor_blocks ir)) e c b))"

definition convert_limits :: "ir_context \<Rightarrow> ptr \<Rightarrow> bool" where
  "convert_limits ir e \<longleftrightarrow> dom_limits ir e \<and> ssa_limits ir (block_order ir e) \<and>
     (\<Sum>b \<in> reached_from ir e. length (predecessor_blocks ir b)) \<le> 250 \<and>
     (\<Sum>b \<in> reached_from ir e. 1 + length (load_assigns ir b)) \<le> 250 \<and>
     (\<forall>b \<in> reached_from ir e. card (set (predecessor_blocks ir b)) \<le> 16)"

lemma flow_of_result:
  assumes r: "dom_result ir e ps d"
  shows "rename_flow ir d" and "d_postorder d = ps" and "0 < length ps" and "ps ! (length ps - 1) = e"
proof -
  note f = result_D(1) [OF r] and st = result_D(2) [OF r]
  show ps: "d_postorder d = ps" using dom_stateD(1) [OF st] .
  show "0 < length ps" "ps ! (length ps - 1) = e" using flow_D(2,3) [OF f] by simp_all
  have n: "numbered_flow ir e ps" by (rule f)
  then have set_ps: "set ps = reached_from ir e" and e: "is_block ir e" by (simp_all add: numbered_flow_def)
  have g: "ir_good ir" using n by (auto simp: numbered_flow_def ir_good_def)
  have j: "jumps_last ir" using n by (simp add: numbered_flow_def natural_flow_def)
  have closed: "set (successor_blocks ir b) \<subseteq> set ps" if "b \<in> set ps" for b
    using that unfolding set_ps reached_from_def by (auto intro: rtrancl_into_rtrancl)
  have blk: "is_block ir b" if "b \<in> set ps" for b using that reached_are_blocks [OF e] set_ps by blast
  have tree: "full_tree (d_doms d)" using dom_stateD(3,4) [OF st] by simp
  show "rename_flow ir d"
    unfolding rename_flow_def ps
    using g j flow_D(1) [OF f] blk closed dom_stateD(2,3) [OF st] tree result_D(4,5) [OF r] by (auto simp: tree_children_def)
qed

lemma chain_dominates:
  assumes r: "dom_result ir e ps d" and j: "j < length ps" "k < length ps"
  shows "j \<in> chain (d_doms d) k \<longleftrightarrow> dominates (edges (successor_blocks ir)) e (ps ! j) (ps ! k)"
  using result_D(3) [OF r] j by (auto simp: dom_numbers_def)

lemma before_of_result:
  assumes r: "dom_result ir e ps d" and a: "assigns_ok ir e"
  shows "loads_before ir d"
  unfolding loads_before_def
proof (intro allI impI)
  note F = flow_of_result [OF r]
  have set_ps: "set ps = reached_from ir e" and dist: "distinct ps" using result_D(1) [OF r] by (simp_all add: numbered_flow_def)
  fix k n u assume k: "k < length (d_postorder d)" and n: "n < block_end ir d k" and i: "inst_is ir INST_ASSIGN_VAR (block_la ir d k ! n)"
    and u: "operands ir (block_la ir d k ! n) = [Some u]"
  have k': "k < length ps" "ps ! k \<in> reached_from ir e" using k F(2) set_ps nth_mem by auto
  have la: "block_la ir d m = load_assigns ir (ps ! m)" for m by (simp add: block_la_def F(2))
  from a [unfolded assigns_ok_def, rule_format, OF k'(2) n [unfolded la] i [unfolded la] u [unfolded la]]
  have u': "\<not> is_block ir u" "\<And>c. c \<in> reached_from ir e \<Longrightarrow> u \<in> set (load_assigns ir c) \<Longrightarrow> inst_is ir INST_LOAD_VAR u \<Longrightarrow>
      u \<in> set (take n (load_assigns ir (ps ! k))) \<or> strictly_dominates (edges (successor_blocks ir)) e c (ps ! k)" by blast+
  have "u \<in> set (take n (block_la ir d k)) \<or> (\<exists>j \<in> chain (d_doms d) k - {k}. u \<in> set (block_la ir d j))" if "u \<in> loads ir d"
  proof -
    from that F(2) obtain j where j: "j < length ps" "u \<in> set (load_assigns ir (ps ! j))" "inst_is ir INST_LOAD_VAR u" by (auto simp: loads_def la)
    have "ps ! j \<in> reached_from ir e" using j(1) set_ps nth_mem by blast
    from u'(2) [OF this j(2,3)] show ?thesis
    proof
      assume "strictly_dominates (edges (successor_blocks ir)) e (ps ! j) (ps ! k)"
      then have "j \<in> chain (d_doms d) k - {k}" using chain_dominates [OF r j(1) k'(1)] by (auto simp: strictly_dominates_def)
      then show ?thesis using j(2) la by auto
    qed (simp add: la)
  qed
  with u'(1) show "\<not> is_block ir u \<and> (u \<in> loads ir d \<longrightarrow> u \<in> set (take n (block_la ir d k)) \<or> (\<exists>j \<in> chain (d_doms d) k - {k}. u \<in> set (block_la ir d j)))"
    by blast
qed

lemma limits_of_result:
  assumes r: "dom_result ir e ps d" and l: "convert_limits ir e"
  shows "rename_limits ir d"
proof -
  note F = flow_of_result [OF r]
  have set_ps: "set ps = reached_from ir e" and dist: "distinct ps" using result_D(1) [OF r] by (simp_all add: numbered_flow_def)
  have "(\<Sum>k < length ps. 1 + length (load_assigns ir (ps ! k))) = (\<Sum>b \<in> set ps. 1 + length (load_assigns ir b))"
    by (rule sum.reindex_bij_betw [OF bij_betw_nth [OF dist refl refl], of "\<lambda>b. 1 + length (load_assigns ir b)"])
  then show ?thesis using l set_ps by (simp add: rename_limits_def convert_limits_def F(2) block_la_def)
qed

lemma infos_of_placement:
  assumes p: "placement ir e ps st vlist" and d: "d_postorder d = ps"
  shows "rename_infos ir (pl_ir st) d (pl_infos st)"
proof -
  obtain infos0 where i: "placed ir ps infos0 (pl_ir st) (pl_infos st)" "\<forall>k < length ps. described ir (block_instructions ir (ps ! k)) (infos0 ! k)"
    using p by (auto simp: placement_def)
  have "bi_loadAssigns (pl_infos st ! k) = block_la ir d k \<and> \<not> bi_isRenamed (pl_infos st ! k)" if "k < length ps" for k
    using placedD(7) [OF i(1) that] i(2) that d by (simp add: phis_ok_def described_def block_la_def load_assigns_def)
  with i(1) show ?thesis unfolding rename_infos_def d by blast
qed

lemma regs_of_placement:
  assumes p: "placement ir e ps st vlist" and d: "d_postorder d = ps" and ps: "ps = block_order ir e"
  shows "all_regs ir d (pl_infos st) \<subseteq> dom (found_vars ir ps)"
proof
  fix r assume "r \<in> all_regs ir d (pl_infos st)"
  then obtain k where k: "k < length ps" "r \<in> inst_reg ir ` set (block_la ir d k) \<or> r \<in> set (bi_phiList (pl_infos st ! k))"
    using d by (auto simp: all_regs_def)
  from k(2) have "r \<in> (\<Union>b \<in> set ps. block_regs ir b)"
  proof
    assume "r \<in> inst_reg ir ` set (block_la ir d k)"
    then have "r \<in> block_regs ir (ps ! k)" by (simp add: block_regs_def block_la_def d)
    then show ?thesis using k(1) nth_mem by blast
  next
    assume "r \<in> set (bi_phiList (pl_infos st ! k))"
    then have "bi_phiMap (pl_infos st ! k) r \<noteq> None" using infosD(8) [OF infos_of_placement [OF p d], of k] k(1) d by simp
    then have "ps ! k \<in> phi_set ps (pl_infos st) r" using k(1) by (auto simp: phi_set_def)
    then have "ps ! k \<in> phi_blocks ir e (vlist \<noteq> [] \<and> r = hd vlist) r" using p by (simp add: placement_def)
    then have "assigning_blocks ir ps r \<noteq> {}" by (auto simp: phi_blocks_def Let_def ps split: if_splits)
    then show ?thesis using last_assign_outside by (fastforce simp: assigning_blocks_def)
  qed
  then show "r \<in> dom (found_vars ir ps)" by (simp add: found_vars_def dom_def)
qed

section \<open>The form that comes out\<close>

text \<open>
  The loads and assignments are gone and the phis with uses stand at the top of their blocks; every operand
  stands for what it was before, with the loads resolved; every phi has one pair for each edge into its block
  on which the register has a value.
\<close>

definition ssa_form :: "ir_context \<Rightarrow> dominators \<Rightarrow> block_info list \<Rightarrow> ir_context \<Rightarrow> bool" where
  "ssa_form ir d infos ir' \<longleftrightarrow>
     (\<forall>k < length (d_postorder d). block_instructions ir' (d_postorder d ! k) =
        filter (used ir') (phi_insts (infos ! k)) @ filter (\<lambda>i. \<not> is_load_assign ir i) (block_instructions ir (d_postorder d ! k))) \<and>
     (\<forall>i. ir_insts ir i \<noteq> None \<longrightarrow> ir_insts ir' i = ir_insts ir i \<and>
        list_all2 (rel_option (resolves_to ir d (phis_of infos))) (operands ir i) (operands ir' i)) \<and>
     (\<forall>k < length (d_postorder d). \<forall>r p. bi_phiMap (infos ! k) r = Some p \<longrightarrow> inst_is ir' INST_PHI p \<and>
        (\<exists>prs. operands ir' p = pair_operands prs \<and> distinct prs \<and>
           set prs = {(d_postorder d ! j, v) | j v. j < length (d_postorder d) \<and> d_postorder d ! k \<in> set (successor_blocks ir (d_postorder d ! j)) \<and>
             value_reaches ir d (phis_of infos) j (block_end ir d j) r v}))"

lemma ssa_formD:
  assumes "ssa_form ir d infos ir'"
  shows "ir_insts ir i \<noteq> None \<Longrightarrow> list_all2 (rel_option (resolves_to ir d (phis_of infos))) (operands ir i) (operands ir' i)"
    and "k < length (d_postorder d) \<Longrightarrow> bi_phiMap (infos ! k) r = Some p \<Longrightarrow> inst_is ir' INST_PHI p"
  using assms unfolding ssa_form_def by blast+

lemma phi_of_insts:
  assumes i: "rename_infos ir0 ir1 d infos" and k: "k < length infos" and p: "p \<in> set (phi_insts (infos ! k))"
  shows "\<exists>r. bi_phiMap (infos ! k) r = Some p"
proof -
  from p obtain r where "r \<in> set (bi_phiList (infos ! k))" "p = the (bi_phiMap (infos ! k) r)" by (auto simp: phi_insts_def)
  then have "bi_phiMap (infos ! k) r = Some p" using infosD(6,8) [OF i] k by auto
  then show ?thesis by blast
qed

lemma distinct_concat_nth:
  "(\<And>k. k < length xss \<Longrightarrow> distinct (xss ! k)) \<Longrightarrow> (\<And>j k. j < k \<Longrightarrow> k < length xss \<Longrightarrow> set (xss ! j) \<inter> set (xss ! k) = {}) \<Longrightarrow>
    distinct (concat xss)"
proof (induction xss)
  case (Cons xs xss)
  have "distinct (concat xss)"
  proof (rule Cons.IH)
    show "distinct (xss ! k)" if "k < length xss" for k using Cons.prems(1) [of "Suc k"] that by simp
    show "set (xss ! j) \<inter> set (xss ! k) = {}" if "j < k" "k < length xss" for j k using Cons.prems(2) [of "Suc j" "Suc k"] that by simp
  qed
  moreover have "set xs \<inter> set ys = {}" if "ys \<in> set xss" for ys
  proof -
    from that obtain k where "k < length xss" "ys = xss ! k" by (metis in_set_conv_nth)
    then show ?thesis using Cons.prems(2) [of 0 "Suc k"] by simp
  qed
  ultimately show ?case using Cons.prems(1) [of 0] by auto
qed simp

text \<open>Every block has been renamed.\<close>

lemma renamed_form:
  assumes s: "rename_setting ir ir1 d infos res" and n: "N = {..< length (d_postorder d)}"
    and v: "renamed ir ir1 d infos res (done_la ir d N) (done_edges ir d infos N) ir2"
    and t: "trimmed (set (concat (map phi_insts infos))) ir2 ir'"
  shows "ssa_form ir d infos ir'"
  unfolding ssa_form_def
proof (intro conjI allI impI)
  note S = settingsD [OF s] and f = flowD [OF settingsD(1) [OF s]] and I = infosD [OF settingsD(2) [OF s]] and V = renamedD [OF v]
  note T = t [unfolded trimmed_def]
  have u: "used ir' = used ir2" using T by (simp add: used_def fun_eq_iff)
  show "ir_insts ir' i = ir_insts ir i" if "ir_insts ir i \<noteq> None" for i using V(3) [OF that] T by simp
  show "list_all2 (rel_option (resolves_to ir d (phis_of infos))) (operands ir i) (operands ir' i)" if "ir_insts ir i \<noteq> None" for i
  proof -
    have "resolves_to ir d (phis_of infos) w (subst_loads ir d res (done_la ir d N) w)" for w
    proof (cases "w \<in> loads ir d")
      case True
      then have "w \<in> done_la ir d N" by (auto simp: loads_def done_la_def n)
      then show ?thesis using True S(4) by (simp add: subst_loads_def loads_resolved_def)
    next
      case False
      then show ?thesis by (simp add: subst_loads_def resolve_plain)
    qed
    then have "rel_option (resolves_to ir d (phis_of infos)) x (map_option (subst_loads ir d res (done_la ir d N)) x)" for x by (cases x) simp_all
    moreover have "operands ir' i = map (map_option (subst_loads ir d res (done_la ir d N))) (operands ir i)" using V(4) [OF that] T by simp
    ultimately show ?thesis by (simp add: list_all2_conv_all_nth)
  qed
  fix k assume k: "k < length (d_postorder d)"
  let ?b = "d_postorder d ! k" and ?A = "set (concat (map phi_insts infos))"
  show "block_instructions ir' ?b = filter (used ir') (phi_insts (infos ! k)) @ filter (\<lambda>i. \<not> is_load_assign ir i) (block_instructions ir ?b)"
  proof -
    have b: "is_block ir2 ?b" using f(11) [OF k] I(4) same_objectsD(5) [OF V(2)] by simp
    have "filter (\<lambda>i. i \<in> ?A \<longrightarrow> used ir2 i) (phi_insts (infos ! k)) = filter (used ir2) (phi_insts (infos ! k))"
      by (rule filter_cong) (use k I(6) in \<open>auto intro!: bexI [of _ "infos ! k"]\<close>)
    moreover have "filter (\<lambda>i. i \<in> ?A \<longrightarrow> used ir2 i) (filter (\<lambda>i. i \<notin> done_la ir d N) (block_instructions ir ?b)) =
        filter (\<lambda>i. \<not> is_load_assign ir i) (block_instructions ir ?b)"
      unfolding filter_filter
    proof (rule filter_cong [OF refl])
      fix i assume i: "i \<in> set (block_instructions ir ?b)"
      have i0: "ir_insts ir i \<noteq> None" "i_parent (the (ir_insts ir i)) = ?b" using block_instructionsD(2) [OF f(1) f(11) [OF k] i] by auto
      have "i \<notin> ?A"
      proof
        assume "i \<in> ?A"
        then obtain info where "info \<in> set infos" "i \<in> set (phi_insts info)" by auto
        then obtain m where m: "m < length infos" "i \<in> set (phi_insts (infos ! m))" by (metis in_set_conv_nth)
        then obtain r where "bi_phiMap (infos ! m) r = Some i" using phi_of_insts [OF S(2)] by blast
        with I(10) [of m r i] m(1) I(6) i0 show False by simp
      qed
      moreover have "i \<in> done_la ir d N \<longleftrightarrow> is_load_assign ir i"
      proof
        assume "i \<in> done_la ir d N"
        then show "is_load_assign ir i" by (auto simp: done_la_def block_la_def load_assigns_def)
      next
        assume "is_load_assign ir i"
        then have "i \<in> set (block_la ir d k)" using i by (simp add: block_la_def load_assigns_def)
        then show "i \<in> done_la ir d N" using k by (auto simp: done_la_def n)
      qed
      ultimately show "(i \<notin> done_la ir d N \<and> (i \<in> ?A \<longrightarrow> used ir2 i)) = (\<not> is_load_assign ir i)" by blast
    qed
    ultimately show ?thesis using T b V(5) [OF k] u by simp
  qed
  fix r p assume p: "bi_phiMap (infos ! k) r = Some p"
  from V(6) [OF k p] obtain prs where prs: "inst_is ir2 INST_PHI p" "operands ir2 p = pair_operands prs" "distinct prs"
    "set prs = phi_pairs ir d infos (done_edges ir d infos N) k r" by blast
  show "inst_is ir' INST_PHI p" using prs(1) T by (simp add: inst_is_def)
  have "(j, k, r) \<in> done_edges ir d infos N \<longleftrightarrow> j < length (d_postorder d) \<and> ?b \<in> set (successor_blocks ir (d_postorder d ! j))" for j
    using I(8) [OF k] p k by (auto simp: done_edges_def fill_edges_def n)
  then have "set prs = {(d_postorder d ! j, v) | j v. j < length (d_postorder d) \<and> ?b \<in> set (successor_blocks ir (d_postorder d ! j)) \<and>
      value_reaches ir d (phis_of infos) j (block_end ir d j) r v}" unfolding prs(4) phi_pairs_def by auto
  with prs(2,3) T show "\<exists>prs. operands ir' p = pair_operands prs \<and> distinct prs \<and>
           set prs = {(d_postorder d ! j, v) | j v. j < length (d_postorder d) \<and> ?b \<in> set (successor_blocks ir (d_postorder d ! j)) \<and>
             value_reaches ir d (phis_of infos) j (block_end ir d j) r v}" by (intro exI [of _ prs]) simp
qed

lemma phis_distinct:
  assumes f: "rename_flow ir0 d" and i: "rename_infos ir0 ir1 d infos"
  shows "distinct (concat (map phi_insts infos))"
proof -
  note I = infosD [OF i]
  have b: "is_block ir1 (d_postorder d ! m)" if "m < length (d_postorder d)" for m using flowD(11) [OF f that] I(4) by simp
  have d: "distinct (phi_insts (infos ! k))" if "k < length infos" for k
    using block_instructionsD(1) [OF I(1) b, of k] I(6) I(9) [of k] that by simp
  have "set (phi_insts (infos ! j)) \<inter> set (phi_insts (infos ! k)) = {}" if jk: "j < k" "k < length infos" for j k
  proof -
    have "False" if p: "p \<in> set (phi_insts (infos ! j))" "p \<in> set (phi_insts (infos ! k))" for p
    proof -
      obtain r r' where "bi_phiMap (infos ! j) r = Some p" "bi_phiMap (infos ! k) r' = Some p"
        using phi_of_insts [OF i, of j p] phi_of_insts [OF i, of k p] p jk by auto
      from phi_unique [OF f i _ this(1) _ this(2)] jk I(6) show False by simp
    qed
    then show ?thesis by blast
  qed
  with d show ?thesis by (intro distinct_concat_nth) simp_all
qed

lemma ssa_convert_ok:
  assumes r: "dom_result ir e (block_order ir e) d" and lim: "convert_limits ir e" and a: "assigns_ok ir e"
    and fn: "ir_functions ir fn = Some f" "f_entry f = Some e" and fuel: "5 * ir_top ir < fuel"
    and pl: "ssa_place fuel ir d df = Inr (st, found_vars ir (block_order ir e), vlist)" "placement ir e (block_order ir e) st vlist"
    and all: "\<forall>u \<in> loads ir d. \<exists>v. resolves_to ir d (phis_of (pl_infos st)) u v"
  shows "\<exists>ir'. ssa_convert fuel ir fn d df = Inr ir' \<and> ssa_form ir d (pl_infos st) ir'"
proof -
  let ?ps = "block_order ir e" and ?infos = "pl_infos st" and ?vars = "found_vars ir (block_order ir e)"
  note F = flow_of_result [OF r]
  obtain res where res: "loads_resolved ir d (phis_of ?infos) res" using bchoice [OF all] by (auto simp: loads_resolved_def)
  note i = infos_of_placement [OF pl(2) F(2)]
  have s: "rename_setting ir (pl_ir st) d ?infos res"
    unfolding rename_setting_def using F(1) i before_of_result [OF r a] res limits_of_result [OF r lim] by blast
  note f = flowD [OF F(1)] and I = infosD [OF i]
  let ?n = "length (d_postorder d)" and ?st = "\<lparr>rn_ir = pl_ir st, rn_infos = ?infos, rn_vars = ?vars\<rparr>"
  have n: "?n - 1 < ?n" "d_postorder d ! (?n - 1) = e" using F(2-4) by simp_all
  have empty: "stack_of ?vars x = []" for x by (simp add: stack_of_def found_vars_def)
  have up: "chain (d_doms d) (?n - 1) = {?n - 1}" using chain_root [OF f(8)] f(7) by simp
  have infos0: "?infos = infos_state ?infos {}"
  proof (rule nth_equalityI)
    fix k assume "k < length ?infos"
    then show "?infos ! k = infos_state ?infos {} ! k" using I(6) I(7) [of k] by simp
  qed simp
  have "rename_inv ir (pl_ir st) d ?infos res {} ?st"
    using renamed_start [OF i, of res] infos0 regs_of_placement [OF pl(2) F(2) refl] by (simp add: rename_inv_def done_la_def done_edges_def)
  then have ready: "rename_ready ir (pl_ir st) d ?infos res (?n - 1) {} ?st"
    using n up empty by (simp add: rename_ready_def entry_values_def)
  have whole: "subtree (d_doms d) (?n - 1) = {..< ?n}" using subtree_root [OF f(8)] f(7) by simp
  have "length ?ps \<le> ir_top ir" using order_length(2) [OF result_D(1) [OF r]] .
  then have "3 * card (subtree (d_doms d) (?n - 1)) \<le> fuel" using fuel F(2) unfolding whole by simp
  with ssa_rename_ok [OF s n(1), unfolded renames_subtree_def] ready obtain st2 where st2: "ssa_rename fuel d e ?st = Inr st2"
    "rename_inv ir (pl_ir st) d ?infos res {..< ?n} st2" unfolding whole n(2) by fastforce
  note V = rename_invD [OF st2(2)] and W = renamedD [OF rename_invD(2) [OF st2(2)]]
  have same: "map phi_insts (rn_infos st2) = map phi_insts ?infos" unfolding V(3)
    by (rule nth_equalityI) (simp_all add: phi_insts_def)
  have "\<exists>ir'. remove_unused (rn_infos st2) (rn_ir st2) = Inr ir' \<and> trimmed (set (concat (map phi_insts (rn_infos st2)))) (rn_ir st2) ir'"
  proof (rule remove_unused_ok)
    show "ir_good (rn_ir st2)" by (rule W(1))
    show "distinct (concat (map phi_insts (rn_infos st2)))" unfolding same by (rule phis_distinct [OF F(1) i])
    show "\<forall>info \<in> set (rn_infos st2). \<forall>r \<in> set (bi_phiList info). \<exists>p b. bi_phiMap info r = Some p \<and> is_block (rn_ir st2) b \<and>
        p \<in> set (block_instructions (rn_ir st2) b)"
    proof (intro ballI)
      fix info x assume i': "info \<in> set (rn_infos st2)" "x \<in> set (bi_phiList info)"
      then obtain k where k: "k < length ?infos" "info = infos_state ?infos {..< ?n} ! k" unfolding V(3) by (metis in_set_conv_nth infos_state_nth(1))
      then have x: "x \<in> set (bi_phiList (?infos ! k))" "bi_phiMap info = bi_phiMap (?infos ! k)" using i'(2) by simp_all
      have kn: "k < ?n" using k(1) I(6) by simp
      obtain p where p: "bi_phiMap (?infos ! k) x = Some p" using I(8) [OF kn] x(1) by auto
      have "p \<in> set (block_instructions (rn_ir st2) (d_postorder d ! k))" using W(5) [OF kn] phi_in_block(1) [OF i kn p] by simp
      moreover have "is_block (rn_ir st2) (d_postorder d ! k)" using f(11) [OF kn] I(4) same_objectsD(5) [OF W(2)] by simp
      ultimately show "\<exists>p b. bi_phiMap info x = Some p \<and> is_block (rn_ir st2) b \<and> p \<in> set (block_instructions (rn_ir st2) b)"
        using p x(2) by (intro exI [of _ p] exI [of _ "d_postorder d ! k"]) simp
    qed
  qed
  then obtain ir' where u: "remove_unused (rn_infos st2) (rn_ir st2) = Inr ir'" "trimmed (set (concat (map phi_insts ?infos))) (rn_ir st2) ir'"
    unfolding same by blast
  have "ir_functions (pl_ir st) fn = Some f" using pl(2) placedD(3) fn(1) by (metis placement_def)
  then have "ssa_convert fuel ir fn d df = Inr ir'" using pl(1) fn(2) st2(1) u(1) by (simp add: ssa_convert_def get_function_def)
  moreover have "ssa_form ir d ?infos ir'" by (rule renamed_form [OF s refl V(2) u(2)])
  ultimately show ?thesis by blast
qed

section \<open>Properties\<close>

text \<open>
  C3: On a function whose loops are natural, whose assignments take values after the loads they name, and whose
  buffers suffice, \<open>ssa_convert\<close> ends whenever every load has a value that reaches it. No load or assignment is
  left, every operand is replaced by the value its load stood for, and each phi has one pair for each edge into
  its block on which the register has a value.
\<close>
theorem ssa_convert_correct:
  assumes "ir_reachable ir" and "ir_functions ir fn = Some f" and "f_entry f = Some e" and "is_block ir e"
    and "natural_flow ir e (block_order ir e)" and "assigns_ok ir e" and "convert_limits ir e" and "5 * ir_top ir < fuel"
  shows "\<exists>d df st vars vlist. dominators_compute fuel ir e = Inr d \<and> domfrontiers_compute fuel ir d = Inr df \<and>
    ssa_place fuel ir d df = Inr (st, vars, vlist) \<and>
    ((\<forall>u \<in> loads ir d. \<exists>v. resolves_to ir d (phis_of (pl_infos st)) u v) \<longrightarrow>
      (\<exists>ir'. ssa_convert fuel ir fn d df = Inr ir' \<and> ssa_form ir d (pl_infos st) ir'))"
proof -
  obtain L where inv: "ir_inv ir L" and c: "ir_complete ir" using reachable_inv [OF assms(1)] .
  let ?ps = "block_order ir e"
  note lim = assms(7) [unfolded convert_limits_def]
  obtain d where d: "dominators_compute fuel ir e = Inr d" and r: "dom_result ir e ?ps d"
    using dominators_compute_ok [OF inv c assms(4,5) _ assms(8)] lim by blast
  have fuel: "length ?ps < fuel" using order_length(2) [OF result_D(1) [OF r]] assms(8) by linarith
  obtain df where df: "domfrontiers_compute fuel ir d = Inr df" "\<forall>x. set (snd (domfrontiers_get df x)) = dom_frontier ir e x"
    using domfrontiers_ok [OF r fuel] lim by blast
  obtain st vlist where s: "ssa_place fuel ir d df = Inr (st, found_vars ir ?ps, vlist)" "placement ir e ?ps st vlist"
    using ssa_place_ok [OF r refl _ df(2) fuel] lim by blast
  from ssa_convert_ok [OF r assms(7,6,2,3,8) s] d df(1) s(1) show ?thesis by blast
qed

text \<open>The only load of the example gets the phi of its block.\<close>

lemma example_phi_block:
  assumes o: "block_order ir 8 = [16, 12, 8]" and reach: "reached_from ir 8 = {8, 12, 16}" and pred: "predecessor_blocks ir 12 = [8, 12]"
    and a: "last_assign ir 12 0 \<noteq> None"
  shows "12 \<in> phi_blocks ir 8 first 0"
proof -
  let ?R = "{(a, b). b \<in> dom_frontier ir 8 a}" and ?A = "assigning_blocks ir [16, 12, 8] 0"
  have "(8, 12) \<in> (edges (successor_blocks ir))\<^sup>*" using reach by (auto simp: reached_from_def)
  then have "dominates (edges (successor_blocks ir)) 8 12 12" by (rule dominates_refl)
  then have "\<exists>p \<in> set (predecessor_blocks ir 12). dominates (edges (successor_blocks ir)) 8 12 p" using pred by simp
  then have "(12, 12) \<in> ?R" using reach by (simp add: dom_frontier_def strictly_dominates_def)
  moreover have "12 \<in> ?A" using a by (simp add: assigning_blocks_def)
  ultimately have "12 \<in> ?R `` ?A" by blast
  then show ?thesis unfolding phi_blocks_def o Let_def by (auto simp: Image_def)
qed

lemma example_phi:
  assumes p: "placement ir 8 [16, 12, 8] st vlist" and d: "d_postorder d = [16, 12, 8]" and o: "block_order ir 8 = [16, 12, 8]"
    and reach: "reached_from ir 8 = {8, 12, 16}" and pred: "predecessor_blocks ir 12 = [8, 12]"
    and la: "load_assigns ir 12 = [40, 44]" and reg: "inst_reg ir 40 = 0" "inst_reg ir 44 = 0" and ty: "inst_is ir INST_LOAD_VAR 40" "last_assign ir 12 0 \<noteq> None"
  obtains q where "bi_phiMap (pl_infos st ! 1) 0 = Some q" and "resolves_to ir d (phis_of (pl_infos st)) 40 q"
proof -
  have "12 \<in> phi_set [16, 12, 8] (pl_infos st) 0" using p example_phi_block [OF o reach pred ty(2)] by (simp add: placement_def)
  then obtain k where k: "k < length [16, 12, 8 :: ptr]" "[16, 12, 8] ! k = (12 :: ptr)" "bi_phiMap (pl_infos st ! k) 0 \<noteq> None"
    unfolding phi_set_def by force
  have "k = 1"
  proof -
    have "k = 0 \<or> k = 1 \<or> k = 2" using k(1) by (auto simp: less_Suc_eq)
    with k(2) show ?thesis by auto
  qed
  with k(3) obtain q where q: "bi_phiMap (pl_infos st ! 1) 0 = Some q" by auto
  have "length (pl_infos st) = 3" using p placedD(6) by (fastforce simp: placement_def)
  then have "value_reaches ir d (phis_of (pl_infos st)) 1 0 (inst_reg ir 40) q" using q reg(1) by (intro reach_phi) (simp add: phis_of_def)
  moreover have "block_la ir d 1 = [40, 44]" using la by (simp add: block_la_def d)
  ultimately have "resolves_to ir d (phis_of (pl_infos st)) 40 q"
    by (intro resolve_load [of 1 _ 0]) (use d ty(1) in simp_all)
  with q show thesis by (rule that)
qed

theorem ssa_convert_correct_witness:
  "\<exists>ir d df ir' p. ir_program ssa_program = Inr ir \<and> dominators_compute 361 ir 8 = Inr d \<and> domfrontiers_compute 361 ir d = Inr df \<and>
     ssa_convert 361 ir 4 d df = Inr ir' \<and> operands ir 52 = [Some 12, Some 16, Some 40] \<and> operands ir' 52 = [Some 12, Some 16, Some p] \<and>
     inst_is ir' INST_PHI p"
proof -
  obtain ir where ir: "ir_program ssa_program = Inr ir" "ir_reachable ir" "is_block ir 8" "ir_top ir = 72"
    "reached_from ir 8 = {8, 12, 16}" "block_order ir 8 = [16, 12, 8]" "natural_flow ir 8 (block_order ir 8)" "dom_limits ir 8"
    "(\<Sum>b \<in> reached_from ir 8. length (predecessor_blocks ir b)) \<le> 250" "ir_functions ir 4 = Some \<lparr>f_entry = Some 8, f_valueNameCounter = 0\<rparr>"
    and la: "load_assigns ir 8 = [24]" "load_assigns ir 12 = [40, 44]" "load_assigns ir 16 = []"
    and reg: "inst_reg ir 24 = 0" "inst_reg ir 40 = 0" "inst_reg ir 44 = 0"
    and ty: "inst_is ir INST_LOAD_VAR 40" and op: "operands ir 24 = [Some 20]" "operands ir 44 = [Some 40]" and nb: "\<not> is_block ir 20" "\<not> is_block ir 40"
    and pred: "predecessor_blocks ir 8 = []" "predecessor_blocks ir 12 = [8, 12]" "predecessor_blocks ir 16 = [12]"
    and i52: "ir_insts ir 52 \<noteq> None" "operands ir 52 = [Some 12, Some 16, Some 40]" and ni: "ir_insts ir 12 = None" "ir_insts ir 16 = None"
    and as: "inst_is ir INST_ASSIGN_VAR 24" "inst_is ir INST_ASSIGN_VAR 44" "last_assign ir 12 0 = Some 44"
    by (rule ssa_program_facts) (rule that; assumption)
  have fuel: "5 * ir_top ir < 361" using ir(4) by simp
  have types: "\<not> inst_is ir INST_ASSIGN_VAR 40" "\<not> inst_is ir INST_LOAD_VAR 24" "\<not> inst_is ir INST_LOAD_VAR 44"
    using ty as by (auto simp: inst_is_def)
  have aok: "assigns_ok ir 8"
    unfolding assigns_ok_def ir(5)
  proof (intro ballI allI impI)
    fix b n u assume b: "b \<in> {8, 12, 16}" "n < length (load_assigns ir b)" "inst_is ir INST_ASSIGN_VAR (load_assigns ir b ! n)"
      "operands ir (load_assigns ir b ! n) = [Some u]"
    then have "b = 8 \<and> n = 0 \<and> u = 20 \<or> b = 12 \<and> n = 1 \<and> u = 40"
      using la op types by (auto simp: less_Suc_eq numeral_2_eq_2)
    then show "\<not> is_block ir u \<and> (\<forall>c \<in> {8, 12, 16}. u \<in> set (load_assigns ir c) \<longrightarrow> inst_is ir INST_LOAD_VAR u \<longrightarrow>
        u \<in> set (take n (load_assigns ir b)) \<or> strictly_dominates (edges (successor_blocks ir)) 8 c b)"
      using la nb by auto
  qed
  have lim: "convert_limits ir 8"
    using ir(5,6,8,9) la reg pred by (simp add: convert_limits_def ssa_limits_def block_regs_def)
  obtain L where inv: "ir_inv ir L" and c: "ir_complete ir" using reachable_inv [OF ir(2)] .
  obtain d where d: "dominators_compute 361 ir 8 = Inr d" and r: "dom_result ir 8 (block_order ir 8) d"
    using dominators_compute_ok [OF inv c ir(3,7,8) fuel] .
  have n: "length (block_order ir 8) < 361" unfolding ir(6) by simp
  obtain df where df: "domfrontiers_compute 361 ir d = Inr df" "\<forall>x. set (snd (domfrontiers_get df x)) = dom_frontier ir 8 x"
    using domfrontiers_ok [OF r n ir(9)] .
  have lim': "ssa_limits ir (block_order ir 8)" using lim by (simp add: convert_limits_def)
  obtain st vlist where s: "ssa_place 361 ir d df = Inr (st, found_vars ir (block_order ir 8), vlist)" "placement ir 8 (block_order ir 8) st vlist"
    using ssa_place_ok [OF r refl lim' df(2) n] .
  have dp: "d_postorder d = [16, 12, 8]" using flow_of_result(2) [OF r] ir(6) by simp
  have "last_assign ir 12 0 \<noteq> None" using as(3) by simp
  from example_phi [OF s(2) [unfolded ir(6)] dp ir(6,5) pred(2) la(2) reg(2,3) ty this] obtain q where
    q: "bi_phiMap (pl_infos st ! 1) 0 = Some q" "resolves_to ir d (phis_of (pl_infos st)) 40 q" .
  have only: "u = 40" if "u \<in> loads ir d" for u
    using that la types by (auto simp: loads_def block_la_def dp less_Suc_eq numeral_3_eq_3)
  from ssa_convert_correct [OF ir(2,10) _ ir(3,7) aok lim fuel] d df(1) s(1) only q(2) obtain ir' where
    o: "ssa_convert 361 ir 4 d df = Inr ir'" "ssa_form ir d (pl_infos st) ir'" by fastforce
  note F = flow_of_result [OF r]
  have res: "v = q" if "resolves_to ir d (phis_of (pl_infos st)) 40 v" for v
    using reaches_deterministic(2) [OF flowD(1,4,3) [OF F(1)] q(2) that] .
  have plain: "v = u" if "resolves_to ir d (phis_of (pl_infos st)) u v" "u = 12 \<or> u = 16" for u v
    using that(1) by (rule resolvesE) (use that(2) ni in \<open>auto simp: inst_is_def\<close>)
  have "list_all2 (rel_option (resolves_to ir d (phis_of (pl_infos st)))) [Some 12, Some 16, Some 40] (operands ir' 52)"
    using ssa_formD(1) [OF o(2) i52(1)] unfolding i52(2) .
  then have "operands ir' 52 = [Some 12, Some 16, Some q]" using res plain by (auto simp: list_all2_Cons1 option_rel_Some1)
  moreover have "inst_is ir' INST_PHI q" using ssa_formD(2) [OF o(2) _ q(1)] dp by simp
  ultimately show ?thesis using ir(1) d df(1) o(1) i52(2) by blast
qed

end
