(* ===== verification/Ssa_Paths.thy ===== *)
theory Ssa_Paths
  imports Ssa_Correct
begin

text \<open>
  The values of the converted function are those of the original on every path: a phi in each block of the iterated
  dominance frontier is enough for the value at the end of a block to be the value at the beginning of the next.
\<close>

section \<open>Inside a block\<close>

lemma last_assign_in_la: "last_assign_in ir (filter (is_load_assign ir) xs) r = last_assign_in ir xs r"
proof -
  have "filter (\<lambda>i. inst_is ir INST_ASSIGN_VAR i \<and> inst_reg ir i = r) (filter (is_load_assign ir) xs) =
      filter (\<lambda>i. inst_is ir INST_ASSIGN_VAR i \<and> inst_reg ir i = r) xs"
    by (induction xs) (auto simp: is_load_assign_def)
  then show ?thesis by (simp add: last_assign_in_def)
qed

lemma last_assign_la: "last_assign ir (d_postorder d ! k) r = last_assign_in ir (block_la ir d k) r"
  by (simp add: last_assign_def block_la_def load_assigns_def last_assign_in_la)

lemma reaches_inside:
  assumes f: "rename_flow ir d" and res: "\<forall>u \<in> loads ir d. \<exists>v. resolves_to ir d ph u v" and k: "k < length (d_postorder d)"
  shows "n \<le> block_end ir d k \<Longrightarrow> last_assign_in ir (take n (block_la ir d k)) r = None \<Longrightarrow>
      value_reaches ir d ph k n r v \<longleftrightarrow> value_reaches ir d ph k 0 r v"
    and "n \<le> block_end ir d k \<Longrightarrow> last_assign_in ir (take n (block_la ir d k)) r = Some a \<Longrightarrow>
      \<exists>u w. operands ir a = [Some u] \<and> resolves_to ir d ph u w \<and> (\<forall>v. value_reaches ir d ph k n r v \<longleftrightarrow> v = w)"
proof (induction n)
  case 0
  { case 1 show ?case by simp next case 2 then show ?case by (simp add: last_assign_in_def) }
next
  case (Suc n)
  let ?i = "block_la ir d k ! n"
  have take: "take (Suc n) (block_la ir d k) = take n (block_la ir d k) @ [?i]" if "Suc n \<le> block_end ir d k" using that by (simp add: take_Suc_conv_app_nth)
  have assign: "\<exists>u w. operands ir ?i = [Some u] \<and> resolves_to ir d ph u w \<and>
      (\<forall>r v. value_reaches ir d ph k (Suc n) r v \<longleftrightarrow> (if inst_reg ir ?i = r then v = w else value_reaches ir d ph k n r v))"
    if n: "Suc n \<le> block_end ir d k" and i: "inst_is ir INST_ASSIGN_VAR ?i"
  proof -
    obtain u where u: "operands ir ?i = [Some u]" using assigned_value_ok [OF flowD(1) [OF f] i] by metis
    obtain w where w: "resolves_to ir d ph u w" using res resolve_plain by (cases "u \<in> loads ir d") blast+
    have "n < block_end ir d k" using n by simp
    from u w reaches_behind_assign [OF f k this i u w] show ?thesis by blast
  qed
  { case 1
    then have l: "\<not> (inst_is ir INST_ASSIGN_VAR ?i \<and> inst_reg ir ?i = r)" "last_assign_in ir (take n (block_la ir d k)) r = None"
      by (simp_all add: take last_assign_in_snoc split: if_splits)
    have "value_reaches ir d ph k (Suc n) r v \<longleftrightarrow> value_reaches ir d ph k n r v"
    proof (cases "inst_is ir INST_ASSIGN_VAR ?i")
      case True
      then show ?thesis using assign [OF 1(1) True] l(1) by auto
    next
      case False
      then show ?thesis using 1(1) by (intro reaches_behind_load) simp_all
    qed
    then show ?case using Suc.IH(1) 1(1) l(2) by simp
  next
    case 2
    show ?case
    proof (cases "inst_is ir INST_ASSIGN_VAR ?i \<and> inst_reg ir ?i = r")
      case True
      then have "a = ?i" using 2 by (simp add: take last_assign_in_snoc)
      then show ?thesis using assign [OF 2(1)] True by auto
    next
      case False
      then have l: "last_assign_in ir (take n (block_la ir d k)) r = Some a" using 2 by (simp add: take last_assign_in_snoc split: if_splits)
      have e: "value_reaches ir d ph k (Suc n) r v \<longleftrightarrow> value_reaches ir d ph k n r v" for v
      proof (cases "inst_is ir INST_ASSIGN_VAR ?i")
        case True
        then show ?thesis using assign [OF 2(1) True] False by auto
      next
        case nt: False
        then show ?thesis using 2(1) by (intro reaches_behind_load) simp_all
      qed
      show ?thesis using Suc.IH(2) 2(1) l unfolding e by simp
    qed
  }
qed

section \<open>From one block to the next\<close>

text \<open>The phis for a register stand in the dominance frontiers of its assignments and of the phis.\<close>

definition phis_closed :: "ir_context \<Rightarrow> ptr \<Rightarrow> ptr list \<Rightarrow> (nat \<Rightarrow> reg \<Rightarrow> ptr option) \<Rightarrow> reg \<Rightarrow> bool" where
  "phis_closed ir e ps ph r \<longleftrightarrow> (\<forall>x < length ps. last_assign ir (ps ! x) r \<noteq> None \<or> ph x r \<noteq> None \<longrightarrow>
     (\<forall>k < length ps. ps ! k \<in> dom_frontier ir e (ps ! x) \<longrightarrow> ph k r \<noteq> None))"

lemma reaches_up:
  assumes t: "full_tree (d_doms d)" and len: "length (d_doms d) = length (d_postorder d)"
    and f: "rename_flow ir d" and res: "\<forall>u \<in> loads ir d. \<exists>v. resolves_to ir d ph u v"
    and "c \<in> chain (d_doms d) j" and "j < length (d_postorder d)"
    and "\<forall>x \<in> chain (d_doms d) j - chain (d_doms d) c. last_assign ir (d_postorder d ! x) r = None \<and> ph x r = None"
  shows "value_reaches ir d ph j (block_end ir d j) r v \<longleftrightarrow> value_reaches ir d ph c (block_end ir d c) r v"
  using assms(5-)
proof (induction "length (d_doms d) - j" arbitrary: j rule: less_induct)
  case less
  show ?case
  proof (cases "j = c")
    case False
    have nr: "j \<noteq> length (d_doms d) - 1" using less.prems(1) chain_root [OF t] False by auto
    have up: "j < d_doms d ! j" "d_doms d ! j < length (d_doms d)" using tree_D(2,3) [OF t, of j] less.prems(2) len nr by auto
    have cj: "c \<in> chain (d_doms d) (d_doms d ! j)" using less.prems(1) False chain_unfold [of "d_doms d" j] by auto
    have "j \<notin> chain (d_doms d) c"
    proof
      assume "j \<in> chain (d_doms d) c"
      moreover have "d_doms d ! j \<le> c" using chain_above [OF t up(2) cj] by simp
      ultimately show False using chain_above [OF t, of c j] chain_above [OF t up(2) cj] up(1) by auto
    qed
    then have j: "last_assign ir (d_postorder d ! j) r = None" "ph j r = None" using less.prems(3) by auto
    have sub: "chain (d_doms d) (d_doms d ! j) \<subseteq> chain (d_doms d) j" using chain_unfold [of "d_doms d" j] by auto
    have "value_reaches ir d ph j (block_end ir d j) r v \<longleftrightarrow> value_reaches ir d ph j 0 r v"
      using j(1) by (intro reaches_inside(1) [OF f res less.prems(2)]) (simp_all add: last_assign_la)
    also have "\<dots> \<longleftrightarrow> value_reaches ir d ph (d_doms d ! j) (block_end ir d (d_doms d ! j)) r v"
      using reaches_start [of ir d ph j r v] j(2) nr len by simp
    also have "\<dots> \<longleftrightarrow> value_reaches ir d ph c (block_end ir d c) r v"
      by (rule less.hyps) (use up cj less.prems(2,3) sub len in auto)
    finally show ?thesis .
  qed simp
qed

lemma edge_values:
  assumes r: "dom_result ir e ps d" and res: "\<forall>u \<in> loads ir d. \<exists>v. resolves_to ir d ph u v" and c: "phis_closed ir e ps ph r"
    and j: "j < length ps" and k: "k < length ps" and s: "ps ! k \<in> set (successor_blocks ir (ps ! j))" and n: "ph k r = None"
  shows "value_reaches ir d ph k 0 r v \<longleftrightarrow> value_reaches ir d ph j (block_end ir d j) r v"
proof -
  note F = flow_of_result [OF r] and nf = result_D(1) [OF r]
  note f = flowD [OF F(1)]
  let ?E = "edges (successor_blocks ir)"
  have E: "(ps ! j, ps ! k) \<in> ?E" using s by (simp add: edges_def)
  have preds: "ps ! j \<in> set (predecessor_blocks ir (ps ! k))" using flow_edge [OF nf k] f(11) [of j] F(2) j E by simp
  have kn: "k \<noteq> length ps - 1"
  proof
    assume "k = length ps - 1"
    then have "predecessor_blocks ir (ps ! k) = []" using F(4) flow_D(6) [OF nf] by simp
    with preds show False by simp
  qed
  let ?c = "d_doms d ! k"
  note st = dom_list_step [OF nf result_D(2,3) [OF r] k kn]
  have ck: "?c \<in> chain (d_doms d) k" using chain_unfold [of "d_doms d" k] by auto
  then have "dominates ?E e (ps ! ?c) (ps ! k)" using chain_dominates [OF r st(1) k] by simp
  moreover have "ps ! ?c \<noteq> ps ! k" using st(1,2) k f(3) F(2) nth_eq_iff_index_eq by fastforce
  moreover have "(e, ps ! j) \<in> ?E\<^sup>*" using flow_D(5) [OF nf j] .
  ultimately have "dominates ?E e (ps ! ?c) (ps ! j)" using dominates_pred E by metis
  then have cj: "?c \<in> chain (d_doms d) j" using chain_dominates [OF r st(1) j] by simp
  have none: "last_assign ir (ps ! x) r = None \<and> ph x r = None" if x: "x \<in> chain (d_doms d) j - chain (d_doms d) ?c" for x
  proof (rule ccontr)
    assume a: "\<not> (last_assign ir (ps ! x) r = None \<and> ph x r = None)"
    have xn: "x < length ps" using x chain_above [OF f(8), of j x] j f(7) F(2) by auto
    have "dominates ?E e (ps ! x) (ps ! j)" using x chain_dominates [OF r xn j] by simp
    moreover have "\<not> strictly_dominates ?E e (ps ! x) (ps ! k)"
    proof
      assume "strictly_dominates ?E e (ps ! x) (ps ! k)"
      then have "x \<in> chain (d_doms d) k" "x \<noteq> k" using chain_dominates [OF r xn k] by (auto simp: strictly_dominates_def)
      then show False using x chain_unfold [of "d_doms d" k] by auto
    qed
    moreover have "ps ! k \<in> reached_from ir e" using flow_D(5) [OF nf k] by (simp add: reached_from_def)
    ultimately have "ps ! k \<in> dom_frontier ir e (ps ! x)" using preds by (auto simp: dom_frontier_def)
    with c [unfolded phis_closed_def] xn k a n show False by blast
  qed
  have "value_reaches ir d ph k 0 r v \<longleftrightarrow> value_reaches ir d ph ?c (block_end ir d ?c) r v"
    using reaches_start [of ir d ph k r v] n kn F(2) by simp
  also have "\<dots> \<longleftrightarrow> value_reaches ir d ph j (block_end ir d j) r v"
    by (rule reaches_up [OF f(8,7) F(1) res cj, symmetric]) (use j F(2) none in auto)
  finally show ?thesis .
qed

section \<open>Paths\<close>

text \<open>A path through the function, by the numbers of its blocks, the last one first.\<close>

fun flow_path :: "ir_context \<Rightarrow> dominators \<Rightarrow> nat list \<Rightarrow> bool" where
  "flow_path ir d [] = False"
| "flow_path ir d [k] = (k = length (d_postorder d) - 1)"
| "flow_path ir d (k # j # js) = (k < length (d_postorder d) \<and>
     d_postorder d ! k \<in> set (successor_blocks ir (d_postorder d ! j)) \<and> flow_path ir d (j # js))"

text \<open>
  The last assignment to a register on a path that ends before the \<open>n\<close>-th load or assignment of its last block.
\<close>

fun path_assign :: "ir_context \<Rightarrow> dominators \<Rightarrow> reg \<Rightarrow> nat \<Rightarrow> nat list \<Rightarrow> ptr option" where
  "path_assign ir d r n [] = None"
| "path_assign ir d r n (k # js) = (case last_assign_in ir (take n (block_la ir d k)) r of
     Some a \<Rightarrow> Some a
   | None \<Rightarrow> (case js of [] \<Rightarrow> None | j # _ \<Rightarrow> path_assign ir d r (block_end ir d j) js))"

text \<open>
  \<open>follows ks n v a\<close>: when control has come along the path, \<open>v\<close> is what the assignment \<open>a\<close> gave the register -
  directly, or as a phi whose pair for the block before is followed further back.
\<close>

inductive follows :: "ir_context \<Rightarrow> dominators \<Rightarrow> (nat \<Rightarrow> reg \<Rightarrow> ptr option) \<Rightarrow> reg \<Rightarrow> nat list \<Rightarrow> nat \<Rightarrow> ptr \<Rightarrow> ptr \<Rightarrow> bool"
  for ir d ph r where
  follow_assign: "last_assign_in ir (take n (block_la ir d k)) r = Some a \<Longrightarrow> operands ir a = [Some u] \<Longrightarrow> resolves_to ir d ph u v \<Longrightarrow>
    follows ir d ph r (k # js) n v a"
| follow_phi: "last_assign_in ir (take n (block_la ir d k)) r = None \<Longrightarrow> ph k r = Some p \<Longrightarrow>
    value_reaches ir d ph j (block_end ir d j) r w \<Longrightarrow> follows ir d ph r (j # js) (block_end ir d j) w a \<Longrightarrow> follows ir d ph r (k # j # js) n p a"
| follow_through: "last_assign_in ir (take n (block_la ir d k)) r = None \<Longrightarrow> ph k r = None \<Longrightarrow>
    follows ir d ph r (j # js) (block_end ir d j) v a \<Longrightarrow> follows ir d ph r (k # j # js) n v a"

lemma flow_path_number: "flow_path ir d ks \<Longrightarrow> 0 < length (d_postorder d) \<Longrightarrow> hd ks < length (d_postorder d)"
  by (cases "(ir, d, ks)" rule: flow_path.cases) auto

lemma path_values:
  assumes r: "dom_result ir e ps d" and res: "\<forall>u \<in> loads ir d. \<exists>v. resolves_to ir d ph u v" and c: "phis_closed ir e ps ph r"
  shows "flow_path ir d ks \<Longrightarrow> n \<le> block_end ir d (hd ks) \<Longrightarrow> path_assign ir d r n ks = Some a \<Longrightarrow>
    \<exists>v. follows ir d ph r ks n v a \<and> (\<forall>w. value_reaches ir d ph (hd ks) n r w \<longleftrightarrow> w = v)"
proof (induction ks arbitrary: n)
  case (Cons k js)
  note F = flow_of_result [OF r]
  have k: "k < length (d_postorder d)" using flow_path_number [OF Cons.prems(1)] F(2,3) by simp
  have n: "n \<le> block_end ir d k" using Cons.prems(2) by simp
  show ?case
  proof (cases "last_assign_in ir (take n (block_la ir d k)) r")
    case (Some b)
    then have "b = a" using Cons.prems(3) by simp
    with Some have l: "last_assign_in ir (take n (block_la ir d k)) r = Some a" by simp
    from reaches_inside(2) [OF F(1) res k n l] obtain u w where u: "operands ir a = [Some u]" "resolves_to ir d ph u w"
      "\<forall>v. value_reaches ir d ph k n r v \<longleftrightarrow> v = w" by blast
    from follow_assign [OF l u(1,2), of js] u(3) show ?thesis by auto
  next
    case None
    with Cons.prems(3) obtain j js' where js: "js = j # js'" "path_assign ir d r (block_end ir d j) js = Some a" by (cases js) auto
    have p: "flow_path ir d js" "d_postorder d ! k \<in> set (successor_blocks ir (d_postorder d ! j))" using Cons.prems(1) js(1) by simp_all
    have j: "j < length (d_postorder d)" using flow_path_number [OF p(1)] F(2,3) js(1) by simp
    obtain v where v: "follows ir d ph r js (block_end ir d j) v a" "\<forall>w. value_reaches ir d ph j (block_end ir d j) r w \<longleftrightarrow> w = v"
      using Cons.IH [OF p(1) _ js(2)] js(1) by auto
    note inside = reaches_inside(1) [OF F(1) res k n None]
    show ?thesis
    proof (cases "ph k r")
      case (Some q)
      have "follows ir d ph r (k # js) n q a" using follow_phi [OF None Some _ v(1) [unfolded js(1)]] v(2) js(1) by simp
      moreover have "value_reaches ir d ph k n r w \<longleftrightarrow> w = q" for w using inside reaches_start [of ir d ph k r w] Some by simp
      ultimately show ?thesis by auto
    next
      case nq: None
      have "follows ir d ph r (k # js) n v a" using follow_through [OF None nq v(1) [unfolded js(1)]] js(1) by simp
      moreover have "value_reaches ir d ph k n r w \<longleftrightarrow> w = v" for w
        using inside edge_values [OF r res c _ _ _ nq, of j w] j k F(2) p(2) v(2) by simp
      ultimately show ?thesis by auto
    qed
  qed
qed simp

text \<open>The phis are placed that way for every register but the first, and for it when its frontiers are closed.\<close>

definition frontier_closed :: "ir_context \<Rightarrow> ptr \<Rightarrow> reg \<Rightarrow> bool" where
  "frontier_closed ir e r \<longleftrightarrow> (\<forall>b \<in> phi_blocks ir e True r. dom_frontier ir e b \<subseteq> phi_blocks ir e True r)"

lemma placement_closed:
  assumes p: "placement ir e ps st vlist" and ps: "ps = block_order ir e" and d: "distinct ps"
    and r: "r \<noteq> hd vlist \<or> frontier_closed ir e r"
  shows "phis_closed ir e ps (phis_of (pl_infos st)) r"
  unfolding phis_closed_def
proof (intro allI impI)
  fix x k assume x: "x < length ps" "last_assign ir (ps ! x) r \<noteq> None \<or> phis_of (pl_infos st) x r \<noteq> None"
    and k: "k < length ps" "ps ! k \<in> dom_frontier ir e (ps ! x)"
  let ?first = "vlist \<noteq> [] \<and> r = hd vlist" and ?R = "{(a, b). b \<in> dom_frontier ir e a}"
  have len: "length (pl_infos st) = length ps" using p placedD(6) by (fastforce simp: placement_def)
  have phi: "phis_of (pl_infos st) m r \<noteq> None \<longleftrightarrow> ps ! m \<in> phi_blocks ir e ?first r" if m: "m < length ps" for m
  proof -
    have "ps ! m \<in> phi_set ps (pl_infos st) r \<longleftrightarrow> phis_of (pl_infos st) m r \<noteq> None"
      using m len d nth_eq_iff_index_eq [OF d] by (auto simp: phi_set_def phis_of_def)
    then show ?thesis using p by (simp add: placement_def)
  qed
  let ?A = "assigning_blocks ir ps r"
  have x': "ps ! x \<in> ?A \<or> ps ! x \<in> phi_blocks ir e ?first r" using x phi [OF x(1)] by (auto simp: assigning_blocks_def)
  have xk: "(ps ! x, ps ! k) \<in> ?R" using k(2) by simp
  have "ps ! k \<in> phi_blocks ir e ?first r"
  proof (cases ?first)
    case True
    then have c: "frontier_closed ir e r" using r by blast
    have B: "phi_blocks ir e True r = ?R `` ?A" by (simp add: phi_blocks_def ps Let_def)
    from x' show ?thesis
    proof
      assume "ps ! x \<in> ?A"
      with xk True show ?thesis unfolding B [symmetric] by (auto simp: phi_blocks_def ps Let_def)
    next
      assume "ps ! x \<in> phi_blocks ir e ?first r"
      then show ?thesis using c k(2) True unfolding frontier_closed_def by auto
    qed
  next
    case False
    have B: "phi_blocks ir e ?first r = ?R\<^sup>+ `` ?A" using False by (auto simp: phi_blocks_def ps Let_def)
    from x' show ?thesis
    proof
      assume "ps ! x \<in> ?A"
      with xk show ?thesis unfolding B by (blast intro: r_into_trancl)
    next
      assume "ps ! x \<in> phi_blocks ir e ?first r"
      with xk show ?thesis unfolding B by (blast intro: trancl_into_trancl)
    qed
  qed
  with phi [OF k(1)] show "phis_of (pl_infos st) k r \<noteq> None" by blast
qed

section \<open>Properties\<close>

text \<open>
  C4: The values are right on every path. Along any path from the entry to a load or to the end of a block, exactly
  one value of the converted function reaches that point for a register the path assigns, and it is the value
  of the last assignment on the path, through the phis on the way. This holds for every register but the first
  of the list, and for that one if the frontiers of its assignments are closed.
\<close>
theorem ssa_values_on_paths:
  assumes "ir_reachable ir" and "is_block ir e" and "natural_flow ir e (block_order ir e)" and "convert_limits ir e" and "5 * ir_top ir < fuel"
  shows "\<exists>d df st vars vlist. dominators_compute fuel ir e = Inr d \<and> domfrontiers_compute fuel ir d = Inr df \<and>
    ssa_place fuel ir d df = Inr (st, vars, vlist) \<and>
    ((\<forall>u \<in> loads ir d. \<exists>v. resolves_to ir d (phis_of (pl_infos st)) u v) \<longrightarrow>
      (\<forall>r ks n a. r \<noteq> hd vlist \<or> frontier_closed ir e r \<longrightarrow> flow_path ir d ks \<longrightarrow> n \<le> block_end ir d (hd ks) \<longrightarrow>
        path_assign ir d r n ks = Some a \<longrightarrow>
        (\<exists>v. follows ir d (phis_of (pl_infos st)) r ks n v a \<and>
           (\<forall>w. value_reaches ir d (phis_of (pl_infos st)) (hd ks) n r w \<longleftrightarrow> w = v))))"
proof -
  obtain L where inv: "ir_inv ir L" and c: "ir_complete ir" using reachable_inv [OF assms(1)] .
  let ?ps = "block_order ir e"
  note lim = assms(4) [unfolded convert_limits_def]
  obtain d where d: "dominators_compute fuel ir e = Inr d" and r: "dom_result ir e ?ps d"
    using dominators_compute_ok [OF inv c assms(2,3) _ assms(5)] lim by blast
  have fuel: "length ?ps < fuel" using order_length(2) [OF result_D(1) [OF r]] assms(5) by linarith
  obtain df where df: "domfrontiers_compute fuel ir d = Inr df" "\<forall>x. set (snd (domfrontiers_get df x)) = dom_frontier ir e x"
    using domfrontiers_ok [OF r fuel] lim by blast
  obtain st vlist where s: "ssa_place fuel ir d df = Inr (st, found_vars ir ?ps, vlist)" "placement ir e ?ps st vlist"
    using ssa_place_ok [OF r refl _ df(2) fuel] lim by blast
  have dist: "distinct ?ps" using flow_D(1) [OF result_D(1) [OF r]] .
  have "\<exists>v. follows ir d (phis_of (pl_infos st)) q ks n v a \<and> (\<forall>w. value_reaches ir d (phis_of (pl_infos st)) (hd ks) n q w \<longleftrightarrow> w = v)"
    if "\<forall>u \<in> loads ir d. \<exists>v. resolves_to ir d (phis_of (pl_infos st)) u v" and "q \<noteq> hd vlist \<or> frontier_closed ir e q"
      and "flow_path ir d ks" and "n \<le> block_end ir d (hd ks)" and "path_assign ir d q n ks = Some a" for q ks n a
    by (rule path_values [OF r that(1) placement_closed [OF s(2) refl dist that(2)] that(3-5)])
  with d df(1) s(1) show ?thesis by blast
qed

lemma example_closed:
  assumes reach: "reached_from ir 8 = {8, 12, 16}" and pred: "predecessor_blocks ir 8 = []" "predecessor_blocks ir 16 = [12]"
    and succ: "successor_blocks ir 8 = [12]" "successor_blocks ir 12 = [12, 16]" "successor_blocks ir 16 = []" and "12 \<in> phi_blocks ir 8 True 0"
  shows "frontier_closed ir 8 0"
proof -
  let ?E = "edges (successor_blocks ir)"
  have r: "(8, 12) \<in> ?E\<^sup>*" "(8, 16) \<in> ?E\<^sup>*" using reach by (auto simp: reached_from_def)
  have "16 \<notin> dom_frontier ir 8 b" for b
  proof
    assume "16 \<in> dom_frontier ir 8 b"
    then have b: "dominates ?E 8 b 12" "\<not> strictly_dominates ?E 8 b 16" using pred by (auto simp: dom_frontier_def)
    have "b = 8 \<or> b = 12"
    proof (rule ccontr)
      assume n: "\<not> (b = 8 \<or> b = 12)"
      then have "(8, 12) \<in> avoiding ?E b" using succ by (auto simp: edges_def)
      with b(1) n show False by (auto simp: dominates_def)
    qed
    moreover have "dominates ?E 8 8 16" by (rule entry_dominates [OF r(2)])
    moreover have "dominates ?E 8 12 16"
    proof -
      have "(8, 16) \<notin> (avoiding ?E 12)\<^sup>*"
      proof
        assume "(8, 16) \<in> (avoiding ?E 12)\<^sup>*"
        then show False using succ(1) by (cases rule: converse_rtranclE) auto
      qed
      with r(2) show ?thesis by (simp add: dominates_def)
    qed
    ultimately show False using b(2) by (auto simp: strictly_dominates_def)
  qed
  moreover have "8 \<notin> dom_frontier ir 8 b" for b using pred by (simp add: dom_frontier_def)
  moreover have "dom_frontier ir 8 b \<subseteq> {8, 12, 16}" for b using reach by (auto simp: dom_frontier_def)
  ultimately have "dom_frontier ir 8 b \<subseteq> {12}" for b by blast
  with assms(7) show ?thesis unfolding frontier_closed_def by blast
qed

theorem ssa_values_on_paths_witness:
  "\<exists>ir d df st vars vlist v. ir_program ssa_program = Inr ir \<and> dominators_compute 361 ir 8 = Inr d \<and> domfrontiers_compute 361 ir d = Inr df \<and>
     ssa_place 361 ir d df = Inr (st, vars, vlist) \<and> d_postorder d = [16, 12, 8] \<and>
     follows ir d (phis_of (pl_infos st)) 0 [1, 2] 0 v 24 \<and> value_reaches ir d (phis_of (pl_infos st)) 1 0 0 v"
proof -
  obtain ir where ir: "ir_program ssa_program = Inr ir" "ir_reachable ir" "is_block ir 8" "ir_top ir = 72"
    "reached_from ir 8 = {8, 12, 16}" "block_order ir 8 = [16, 12, 8]" "natural_flow ir 8 (block_order ir 8)" "dom_limits ir 8"
    "(\<Sum>b \<in> reached_from ir 8. length (predecessor_blocks ir b)) \<le> 250"
    and la: "load_assigns ir 8 = [24]" "load_assigns ir 12 = [40, 44]" "load_assigns ir 16 = []"
    and reg: "inst_reg ir 24 = 0" "inst_reg ir 40 = 0" "inst_reg ir 44 = 0" and ty: "inst_is ir INST_LOAD_VAR 40"
    and pred: "predecessor_blocks ir 8 = []" "predecessor_blocks ir 12 = [8, 12]" "predecessor_blocks ir 16 = [12]"
    and as: "inst_is ir INST_ASSIGN_VAR 24" "inst_is ir INST_ASSIGN_VAR 44" "last_assign ir 12 0 = Some 44"
    and succ: "successor_blocks ir 8 = [12]" "successor_blocks ir 12 = [12, 16]" "successor_blocks ir 16 = []"
    by (rule ssa_program_facts) (rule that; assumption)
  have fuel: "5 * ir_top ir < 361" using ir(4) by simp
  have types: "\<not> inst_is ir INST_LOAD_VAR 24" "\<not> inst_is ir INST_LOAD_VAR 44" using as by (auto simp: inst_is_def)
  have lim: "convert_limits ir 8"
    using ir(5,6,8,9) la reg pred by (simp add: convert_limits_def ssa_limits_def block_regs_def)
  obtain L where inv: "ir_inv ir L" and c: "ir_complete ir" using reachable_inv [OF ir(2)] .
  obtain d where d: "dominators_compute 361 ir 8 = Inr d" and r: "dom_result ir 8 (block_order ir 8) d"
    using dominators_compute_ok [OF inv c ir(3,7,8) fuel] .
  have n: "length (block_order ir 8) < 361" unfolding ir(6) by simp
  obtain df where df: "domfrontiers_compute 361 ir d = Inr df" "\<forall>x. set (snd (domfrontiers_get df x)) = dom_frontier ir 8 x"
    using domfrontiers_ok [OF r n ir(9)] .
  have lim': "ssa_limits ir (block_order ir 8)" using lim by (simp add: convert_limits_def)
  obtain st vlist where s: "ssa_place 361 ir d df = Inr (st, found_vars ir (block_order ir 8), vlist)" "placement ir 8 (block_order ir 8) st vlist"
    using ssa_place_ok [OF r refl lim' df(2) n] .
  have dp: "d_postorder d = [16, 12, 8]" using flow_of_result(2) [OF r] ir(6) by simp
  have "last_assign ir 12 0 \<noteq> None" using as(3) by simp
  note ex = example_phi [OF s(2) [unfolded ir(6)] dp ir(6,5) pred(2) la(2) reg(2,3) ty this]
  obtain q where q: "resolves_to ir d (phis_of (pl_infos st)) 40 q" using ex by blast
  have only: "u = 40" if "u \<in> loads ir d" for u
    using that la types by (auto simp: loads_def block_la_def dp less_Suc_eq numeral_3_eq_3)
  have "12 \<in> phi_blocks ir 8 True 0" by (rule example_phi_block [OF ir(6,5) pred(2)]) (use as(3) in simp)
  note closed = example_closed [OF ir(5) pred(1,3) succ this]
  have path: "flow_path ir d [1, 2]" "path_assign ir d 0 0 [1, 2] = Some 24"
    using dp succ la reg as by (simp_all add: block_la_def last_assign_in_def)
  from ssa_values_on_paths [OF ir(2,3,7) lim fuel] d df(1) s(1) have
    "(\<forall>u \<in> loads ir d. \<exists>v. resolves_to ir d (phis_of (pl_infos st)) u v) \<longrightarrow>
      (\<forall>r ks n a. r \<noteq> hd vlist \<or> frontier_closed ir 8 r \<longrightarrow> flow_path ir d ks \<longrightarrow> n \<le> block_end ir d (hd ks) \<longrightarrow>
        path_assign ir d r n ks = Some a \<longrightarrow>
        (\<exists>v. follows ir d (phis_of (pl_infos st)) r ks n v a \<and>
           (\<forall>w. value_reaches ir d (phis_of (pl_infos st)) (hd ks) n r w \<longleftrightarrow> w = v)))" by (elim exE conjE) simp
  then obtain v where "follows ir d (phis_of (pl_infos st)) 0 [1, 2] 0 v 24" "value_reaches ir d (phis_of (pl_infos st)) 1 0 0 v"
    using only q closed path by (metis le0 list.sel(1))
  with ir(1) d df(1) s(1) dp show ?thesis by blast
qed

end
