(* ===== verification/Spec2Isabelle.thy ===== *)
theory Spec2Isabelle
  imports Parser Codegen Hashmap Zone_Alloc Format Ssa_Paths
begin

text \<open>
  A model of mcompiler, a small compiler in C: a reader and parser of a toy language, an intermediate
  representation with its flow graph analyses, an assembler for x86-64 with labels, a register
  allocator, and the containers all of these are built on.

  \<^bold>\<open>Conventions.\<close> A C function that can go wrong returns \<open>'a res = fault + 'a\<close> (\<open>Prelude\<close>): every failed
  assertion, null dereference, access outside a block, read of an indeterminate value and end without a
  \<open>return\<close> is a \<open>fault\<close>. Structs are records, enums datatypes; machine integers are words or naturals with
  the wrap-around written out (\<open>add64\<close>, \<open>sub64\<close>, \<open>mul64\<close>). A loop over a heap structure takes fuel and
  answers \<open>OutOfFuel\<close> when it is used up; the theorems name a fuel that suffices, or show that none does.
  Allocation always succeeds, as \<open>dmalloc\<close> promises.

  \<^bold>\<open>Theories and what they model.\<close>

  \<^item> \<open>Prelude\<close>: faults, the error monad, 64-bit arithmetic on naturals, shared list facts, monotony of fuel.

  \<^item> \<open>Buffer\<close> (\<open>buffer.c\<close>): ranges, positions and \<open>dbuffer\<close>. \<open>dbuffer_ensureCap\<close> reallocates without updating
  \<open>capacity\<close>; the theory shows exactly which pushes stay inside the block, and that buffers of pointers
  behave as lists up to that limit (\<open>ptrs_push\<close> is what the later theories use of this).

  \<^item> \<open>Relocation\<close> (\<open>relocation.c\<close>, \<open>utils.c\<close>): labels, their lists of fields, patching.

  \<^item> \<open>X86_64\<close> (\<open>x86_64.h\<close>, \<open>x86_64_assembly.c\<close>): the emitters, proved against a decoder of the instructions used.

  \<^item> \<open>Lexer\<close>, \<open>Parser\<close> (\<open>parser.c\<close>): the reader against a longest match specification, and the recursive descent
  parser, proved to read back the printed tokens of every function of the grammar it supports.

  \<^item> \<open>Linked_List\<close> (\<open>list.c\<close>): circular lists on a heap of cells, refined to sequences under any run of calls.

  \<^item> \<open>Zone_Alloc\<close> (\<open>zone_alloc.c\<close>): regions are disjoint and \<open>zone_free\<close> gives back every block.

  \<^item> \<open>Format\<close> (\<open>format.c\<close>): templates and their arguments.

  \<^item> \<open>Hashmap\<close> (\<open>hashmap.c\<close>): buckets of list cells, rehashing, three key types, iterators, hash sets; refined to
  finite maps and sets. The theories of the intermediate representation use finite maps in their place.

  \<^item> \<open>Codegen\<close> (\<open>codegen.c\<close>, the \<open>arch_\<close> functions): the register allocator and its spilling; the emitted bytes
  are decoded and executed, and keep the value of every variable.

  \<^item> \<open>Ir\<close> (\<open>ir.c\<close>, \<open>ir.h\<close>): objects of a context by address, the list heads inside an object at fixed offsets, so that
  \<open>containerof\<close> is a subtraction. \<open>Ir_Graph\<close> has the invariant that ties use lists to operands, \<open>Ir_Calls\<close> the
  calls a client makes, the states it reaches by them and what each call does, \<open>Ir_Flow\<close> the iterators over
  the edges and the postorder.

  \<^item> \<open>Flow_Graph\<close>: depth first search and dominance on graphs, with no reference to the code. \<open>Dominators\<close>
  (\<open>dominators.c\<close>) has the computation, \<open>Dominators_Correct\<close> proves it right on flow graphs whose loops are
  natural, whose entry has no predecessor, and where the jump into a block that was made first comes from a block
  nearer to the entry (\<open>natural_flow\<close>); without the last condition the computation need not end.

  \<^item> \<open>Ir_View\<close>: what the calls used by a pass do to the instruction lists and the operands, in the terms of a client.

  \<^item> \<open>Ssa\<close> (\<open>ssa_conversion.c\<close>): the three steps of \<open>ssa_convert\<close>. \<open>Ssa_Phis\<close> proves the worklist against the iterated
  dominance frontier, \<open>Ssa_Place\<close> states it for the code. \<open>Ssa_Reach\<close> defines, on the program before the conversion,
  which value reaches a point for a register; \<open>Ssa_Rename\<close> shows that the walk over the dominator tree computes it
  and restores its stacks, \<open>Ssa_Correct\<close> puts the steps together, and \<open>Ssa_Paths\<close> shows that the value that reaches
  a point is, on every path, the value of the last assignment.

  \<^bold>\<open>Interfaces.\<close> What a component relies on is a locale, interpreted on the component that provides it: lists of
  cells for the hash map and the intermediate representation, the key types of the hash map, the pointer lists, and
  the successor function of the flow graph.

  \<^bold>\<open>Fuel and bounds.\<close> Walks over a list need one step per cell: \<open>ir_top\<close>, the first free address, is enough for any
  list of a context. Searches over the flow graph need \<open>5 * ir_top\<close>. Block lists hold 250 pointers (a
  buffer of the initial size), children lists 16, phis 32 operands, statement lists of the parser 16, and
  \<open>ssa_convert\<close> has a worklist of 125 pairs, value stacks and lists of phis, registers, loads and assignments
  of 250: beyond these the C program writes behind its block, which the model reports as \<open>OutOfBounds\<close>.

  The theorems on the register allocator are for at most sixteen slots: the displacement of a slot is one byte.

  \<^bold>\<open>Not modelled.\<close> Functions that only print (the dumps of tokens, trees, instructions, dominators and the
  \<open>dot\<close> builder), \<open>main.c\<close> and \<open>elf.h\<close> (input and output of an unfinished driver), \<open>platform_utils.c\<close> (a system call).
\<close>

end
